(* ===== verification/Ipir_Prelude.thy ===== *)
theory Ipir_Prelude
  imports Main "HOL-Library.Code_Target_Numeral"
begin

text \<open>
  The shared base of the development: how Rust integers, results and loops are
  represented, and the generic facts the component theories rest on.

  Unsigned machine integers are natural numbers; every operation of the source that can
  leave its type's range is followed by the cast of that type (\<open>u8\<close>, \<open>u64\<close>, \<open>u128\<close>), so
  wrap-around is written out where it can happen. Signed intermediate values (\<open>i64\<close>,
  \<open>i128\<close>) are integers under the casts \<open>i64\<close> and \<open>i128\<close>. A \<open>Result\<close> is a sum with the
  error on the left; a panic is the error \<open>Panic\<close>. Index arithmetic on \<open>usize\<close> is done
  on natural numbers: indices point into slices held in memory.
\<close>

unbundle bit_operations_syntax

named_theorems cast_simps \<open>casts that are the identity in range\<close>
named_theorems result_simps \<open>evaluation of results\<close>

section \<open>Machine integers\<close>

type_synonym byte = nat

definition u8 :: "nat \<Rightarrow> nat" where
  "u8 x = x mod 2 ^ 8"

definition u16 :: "nat \<Rightarrow> nat" where
  "u16 x = x mod 2 ^ 16"

definition u32 :: "nat \<Rightarrow> nat" where
  "u32 x = x mod 2 ^ 32"

definition u64 :: "nat \<Rightarrow> nat" where
  "u64 x = x mod 2 ^ 64"

definition u128 :: "nat \<Rightarrow> nat" where
  "u128 x = x mod 2 ^ 128"

definition i64 :: "int \<Rightarrow> int" where
  "i64 x = (x + 2 ^ 63) mod 2 ^ 64 - 2 ^ 63"

definition i128 :: "int \<Rightarrow> int" where
  "i128 x = (x + 2 ^ 127) mod 2 ^ 128 - 2 ^ 127"

definition wrapping_add :: "nat \<Rightarrow> nat \<Rightarrow> nat" where
  "wrapping_add a b = u64 (a + b)"

definition wrapping_mul :: "nat \<Rightarrow> nat \<Rightarrow> nat" where
  "wrapping_mul a b = u64 (a * b)"

definition wrapping_sub :: "nat \<Rightarrow> nat \<Rightarrow> nat" where
  "wrapping_sub a b = u64 (a + (2 ^ 64 - u64 b))"

definition wrapping_neg :: "nat \<Rightarrow> nat" where
  "wrapping_neg a = wrapping_sub 0 a"

text \<open>Reading a signed integer as an unsigned 64-bit word (\<open>x as u64\<close>).\<close>

definition as_u64 :: "int \<Rightarrow> nat" where
  "as_u64 x = nat (x mod 2 ^ 64)"

text \<open>\<open>div_ceil\<close>, \<open>is_power_of_two\<close> and \<open>trailing_zeros\<close> of the standard library.\<close>

definition div_ceil :: "nat \<Rightarrow> nat \<Rightarrow> nat" where
  "div_ceil a b = (if a mod b = 0 then a div b else a div b + 1)"

definition is_power_of_two :: "nat \<Rightarrow> bool" where
  "is_power_of_two q \<longleftrightarrow> list_ex (\<lambda>k. q = 2 ^ k) [0..<64]"

definition trailing_zeros :: "nat \<Rightarrow> nat" where
  "trailing_zeros q = length (takeWhile (\<lambda>k. \<not> bit q k) [0..<64])"

text \<open>\<open>checked_mul\<close> on 64-bit \<open>usize\<close>, and \<open>rem_euclid\<close> of a signed value.\<close>

definition checked_mul :: "nat \<Rightarrow> nat \<Rightarrow> nat option" where
  "checked_mul a b = (if a * b < 2 ^ 64 then Some (a * b) else None)"

definition rem_euclid :: "int \<Rightarrow> nat \<Rightarrow> nat" where
  "rem_euclid x q = nat (x mod int q)"

text \<open>Rust's \<open>/\<close> and \<open>%\<close> on signed integers truncate towards zero.\<close>

definition tdiv :: "int \<Rightarrow> int \<Rightarrow> int" where
  "tdiv a b = sgn a * sgn b * (\<bar>a\<bar> div \<bar>b\<bar>)"

definition tmod :: "int \<Rightarrow> int \<Rightarrow> int" where
  "tmod a b = a - tdiv a b * b"

text \<open>The number of significant bits of a word: \<open>64 - x.leading_zeros()\<close>.\<close>

fun bit_len :: "nat \<Rightarrow> nat" where
  "bit_len n = (if n = 0 then 0 else Suc (bit_len (n div 2)))"

declare bit_len.simps [simp del]

section \<open>Results\<close>

text \<open>
  The error values of the workspace: the variants of \<open>ReinspiringError\<close>, the kernel's
  \<open>KernelError\<close>, an \<open>anyhow\<close> failure of the nullifier server, and a panic.
\<close>

datatype error =
    InvalidParams string
  | LweShape string
  | PreprocessMismatch string
  | KernelError string
  | Anyhow string
  | Panic string

type_synonym 'a result = "error + 'a"

definition bindR :: "'a result \<Rightarrow> ('a \<Rightarrow> 'b result) \<Rightarrow> 'b result" where
  "bindR m f = (case m of Inl e \<Rightarrow> Inl e | Inr x \<Rightarrow> f x)"

definition mapR :: "('a \<Rightarrow> 'b) \<Rightarrow> 'a result \<Rightarrow> 'b result" where
  "mapR f m = (case m of Inl e \<Rightarrow> Inl e | Inr x \<Rightarrow> Inr (f x))"

text \<open>\<open>guardR\<close> is an early return: the error when the condition holds.\<close>

definition guardR :: "bool \<Rightarrow> error \<Rightarrow> 'a result \<Rightarrow> 'a result" where
  "guardR bad e m = (if bad then Inl e else m)"

text \<open>\<open>iter().map(f).collect::<Result<Vec<_>, _>>()\<close>: the first error wins.\<close>

fun collectR :: "('a \<Rightarrow> 'b result) \<Rightarrow> 'a list \<Rightarrow> 'b list result" where
  "collectR f [] = Inr []"
| "collectR f (x # xs) = bindR (f x) (\<lambda>y. bindR (collectR f xs) (\<lambda>ys. Inr (y # ys)))"

section \<open>Slices\<close>

text \<open>\<open>chunks_exact(d)\<close>: a short remainder is dropped. A width of zero panics in the
  source; the model gives no chunk there and its callers never reach it.\<close>

function chunks_exact :: "nat \<Rightarrow> 'a list \<Rightarrow> 'a list list" where
  "chunks_exact d xs =
     (if 0 < d \<and> d \<le> length xs then take d xs # chunks_exact d (drop d xs) else [])"
  by pat_completeness auto
termination
  by (relation "measure (\<lambda>(d, xs). length xs)") auto

declare chunks_exact.simps [simp del]

definition all_below :: "nat \<Rightarrow> nat list \<Rightarrow> bool" where
  "all_below q xs \<longleftrightarrow> list_all (\<lambda>x. x < q) xs"

section \<open>Facts on casts\<close>

lemma u8_id [cast_simps]: "x < 256 \<Longrightarrow> u8 x = x"
  by (simp add: u8_def)

lemma u16_id [cast_simps]: "x < 2 ^ 16 \<Longrightarrow> u16 x = x"
  by (simp add: u16_def)

lemma u32_id [cast_simps]: "x < 2 ^ 32 \<Longrightarrow> u32 x = x"
  by (simp add: u32_def)

lemma u64_id [cast_simps]: "x < 2 ^ 64 \<Longrightarrow> u64 x = x"
  by (simp add: u64_def)

lemma u128_id [cast_simps]: "x < 2 ^ 128 \<Longrightarrow> u128 x = x"
  by (simp add: u128_def)

lemma i64_id [cast_simps]: "- (2 ^ 63) \<le> x \<Longrightarrow> x < 2 ^ 63 \<Longrightarrow> i64 x = x"
  by (simp add: i64_def)

lemma i128_id [cast_simps]: "- (2 ^ 127) \<le> x \<Longrightarrow> x < 2 ^ 127 \<Longrightarrow> i128 x = x"
  by (simp add: i128_def)

lemma u8_less [simp]: "u8 x < 256"
  by (simp add: u8_def)

lemma u64_less [simp]: "u64 x < 2 ^ 64"
  by (simp add: u64_def)

lemma u64_less_numeral [simp]: "u64 x < 18446744073709551616"
  using u64_less [of x] by simp

lemma u64_le [simp]: "u64 x \<le> x"
  by (simp add: u64_def)

lemma u64_u64 [simp]: "u64 (u64 x) = u64 x"
  by (simp add: u64_def)

lemma u64_arith:
  "u64 (u64 a + b) = u64 (a + b)"
  "u64 (a + u64 b) = u64 (a + b)"
  "u64 (u64 a * b) = u64 (a * b)"
  "u64 (a * u64 b) = u64 (a * b)"
  by (simp_all only: u64_def mod_add_left_eq mod_add_right_eq mod_mult_left_eq mod_mult_right_eq)

lemma u64_add_cong: "u64 b = u64 c \<Longrightarrow> u64 (u64 a + b) = u64 (a + c)"
  unfolding u64_def by (rule mod_add_cong) simp_all

lemma bit_u8_iff: "bit (u8 x) k \<longleftrightarrow> k < 8 \<and> bit x k"
  by (simp only: u8_def bit_take_bit_iff flip: take_bit_eq_mod)

lemma bit_u64_iff: "bit (u64 x) k \<longleftrightarrow> k < 64 \<and> bit x k"
  by (simp only: u64_def bit_take_bit_iff flip: take_bit_eq_mod)

lemma bit_less_exp: "x < 2 ^ n \<Longrightarrow> bit x k \<Longrightarrow> k < n" for x :: nat
  by (metis bit_take_bit_iff take_bit_nat_eq_self_iff)

lemma bit_byte: "x < 256 \<Longrightarrow> bit x k \<Longrightarrow> k < 8" for x :: nat
  using bit_less_exp [of x 8 k] by simp

lemma less_expI: "(\<And>k. bit x k \<Longrightarrow> k < n) \<Longrightarrow> x < 2 ^ n" for x :: nat
  by (metis bit_eq_iff bit_take_bit_iff take_bit_nat_eq_self_iff)

lemma bit_exp_minus_1: "bit (2 ^ n - 1 :: nat) k \<longleftrightarrow> k < n"
  by (simp only: bit_mask_iff possible_bit_nat flip: mask_eq_exp_minus_1) simp

lemma bit_exp_minus_Suc_0 [simp]: "bit (2 ^ n - Suc 0 :: nat) k \<longleftrightarrow> k < n"
  using bit_exp_minus_1 [of n k] by simp

lemma and_exp_minus_1: "x AND (2 ^ n - 1) = x mod 2 ^ n" for x :: nat
  by (simp only: take_bit_eq_mod flip: take_bit_eq_mask mask_eq_exp_minus_1)

lemma and_exp_minus_Suc_0: "x AND (2 ^ n - Suc 0) = x mod 2 ^ n" for x :: nat
  using and_exp_minus_1 [of x n] by simp

text \<open>The complement of a word of \<open>n\<close> bits.\<close>

lemma bit_complement:
  fixes m :: nat
  assumes "m < 2 ^ n"
  shows "bit (2 ^ n - 1 - m) k \<longleftrightarrow> k < n \<and> \<not> bit m k"
proof -
  let ?c = "(2 ^ n - 1) XOR m"
  have c: "bit ?c j \<longleftrightarrow> j < n \<and> \<not> bit m j" for j
    using bit_less_exp [OF assms, of j] by (auto simp: bit_xor_iff)
  have "m + ?c = m OR ?c"
    by (rule disjunctive_add) (unfold c, blast)
  also have "\<dots> = 2 ^ n - 1"
    using bit_less_exp [OF assms] by (intro bit_eqI) (auto simp only: bit_or_iff c bit_exp_minus_1)
  finally have "2 ^ n - 1 - m = ?c" by simp
  then show ?thesis by (simp only: c)
qed

lemma mod_dvd_mod: "m dvd n \<Longrightarrow> (x mod n) mod m = x mod m" for x :: nat
  by (simp add: mod_mod_cancel)

lemma u64_mod_exp: "k \<le> 64 \<Longrightarrow> u64 x mod 2 ^ k = x mod 2 ^ k"
  by (simp only: u64_def mod_mod_cancel le_imp_power_dvd)

lemma less_div_ceil_iff:
  assumes "0 < b"
  shows "r < div_ceil a b \<longleftrightarrow> r * b < a"
proof -
  define m where "m = a mod b"
  define d where "d = a div b"
  have a: "a = d * b + m" and m: "m < b" using assms by (simp_all add: m_def d_def)
  have "r < (if m = 0 then d else d + 1) \<longleftrightarrow> r * b < a"
  proof (cases r d rule: linorder_cases)
    case less
    then have "r * b < d * b" using assms by simp
    then have "r * b < a" unfolding a by (rule trans_less_add1)
    then show ?thesis using less by simp
  next
    case equal
    then show ?thesis using a by simp
  next
    case greater
    then have "Suc d * b \<le> r * b" by (intro mult_le_mono1) simp
    then show ?thesis using greater a m by simp
  qed
  then show ?thesis by (simp only: div_ceil_def m_def d_def)
qed

section \<open>Facts on powers of two\<close>

lemma is_power_of_two_iff: "is_power_of_two q \<longleftrightarrow> (\<exists>k<64. q = 2 ^ k)"
  by (auto simp: is_power_of_two_def list_ex_iff)

lemma trailing_zeros_exp [simp]: "k < 64 \<Longrightarrow> trailing_zeros (2 ^ k) = k"
proof -
  assume k: "k < 64"
  have "[0..<64] = [0..<k] @ k # [Suc k..<64]"
    using k by (metis append_Cons append_Nil less_imp_le_nat upt_add_eq_append upt_conv_Cons le_add_diff_inverse zero_le)
  moreover have "takeWhile (\<lambda>j. \<not> bit (2 ^ k :: nat) j) ([0..<k] @ k # [Suc k..<64]) = [0..<k]"
    by (subst takeWhile_append2) (auto simp: bit_exp_iff)
  ultimately show ?thesis
    by (simp add: trailing_zeros_def)
qed

lemma trailing_zeros_le: "trailing_zeros q \<le> 64"
  unfolding trailing_zeros_def by (metis diff_zero length_takeWhile_le length_upt)

lemma le_log2: "2 ^ k \<le> (2::nat) ^ n \<longleftrightarrow> k \<le> n"
  by simp

lemma bit_len_le_iff: "bit_len n \<le> k \<longleftrightarrow> n < 2 ^ k"
proof (induction n arbitrary: k rule: bit_len.induct)
  case (1 n)
  show ?case
  proof (cases "n = 0")
    case False
    then have step: "bit_len n = Suc (bit_len (n div 2))" by (simp add: bit_len.simps [of n])
    show ?thesis
    proof (cases k)
      case 0
      then show ?thesis using False step by simp
    next
      case (Suc j)
      have "n div 2 < 2 ^ j \<longleftrightarrow> n < 2 * 2 ^ j"
        by (simp add: div_less_iff_less_mult mult.commute)
      then show ?thesis using "1" [OF False, of j] step Suc by simp
    qed
  qed (simp add: bit_len.simps)
qed

lemma less_exp_bit_len: "n < 2 ^ bit_len n"
  using bit_len_le_iff [of n "bit_len n"] by simp

lemma bit_len_pos: "0 < n \<Longrightarrow> 0 < bit_len n"
  by (simp add: bit_len.simps [of n])

section \<open>Facts on signed division\<close>

lemma tdiv_nonneg: "0 \<le> a \<Longrightarrow> 0 < b \<Longrightarrow> tdiv a b = a div b"
  by (cases "a = 0") (simp_all add: tdiv_def)

lemma tdiv_neg: "a < 0 \<Longrightarrow> 0 < b \<Longrightarrow> tdiv a b = - ((- a) div b)"
  by (simp add: tdiv_def)

lemma tmod_nonneg: "0 \<le> a \<Longrightarrow> 0 < b \<Longrightarrow> tmod a b = a mod b"
  by (simp add: tmod_def tdiv_nonneg minus_div_mult_eq_mod)

lemma floor_round_error:
  fixes a b :: int
  assumes "0 < b"
  shows "\<bar>(a + b div 2) div b * b - a\<bar> \<le> b div 2"
proof -
  define y where "y = a + b div 2"
  have "y = y div b * b + y mod b" "0 \<le> y mod b" "y mod b < b" using assms by simp_all
  moreover have "b - 1 \<le> 2 * (b div 2)" "2 * (b div 2) \<le> b" by linarith+
  ultimately have "y div b * b - a \<le> b div 2" "a - y div b * b \<le> b div 2"
    unfolding y_def by linarith+
  then show ?thesis unfolding y_def by linarith
qed

text \<open>Rounding half away from zero by a truncating division.\<close>

lemma trunc_round_error:
  fixes a b :: int
  assumes "0 < b"
  shows "\<bar>tdiv (if 0 \<le> a then a + b div 2 else a - b div 2) b * b - a\<bar> \<le> b div 2"
proof (cases "0 \<le> a")
  case True
  have "0 \<le> a + b div 2" using True assms by (simp add: pos_imp_zdiv_nonneg_iff)
  then show ?thesis using True assms floor_round_error [OF assms, of a] by (simp add: tdiv_nonneg)
next
  case False
  have "0 \<le> b div 2" using assms by simp
  then have "a - b div 2 < 0" using False by linarith
  then have "tdiv (a - b div 2) b = - ((- a + b div 2) div b)"
    using assms by (simp add: tdiv_neg)
  then show ?thesis using False floor_round_error [OF assms, of "- a"] by simp
qed

section \<open>Facts on results\<close>

lemma bindR_simps [simp, result_simps]:
  "bindR (Inl e) f = Inl e"
  "bindR (Inr x) f = f x"
  by (simp_all add: bindR_def)

lemma mapR_simps [simp, result_simps]:
  "mapR g (Inl e) = Inl e"
  "mapR g (Inr x) = Inr (g x)"
  by (simp_all add: mapR_def)

lemma guardR_simps [simp, result_simps]:
  "guardR True e m = Inl e"
  "guardR False e m = m"
  by (simp_all add: guardR_def)

lemma bindR_eq_Inr [simp]: "bindR m f = Inr y \<longleftrightarrow> (\<exists>x. m = Inr x \<and> f x = Inr y)"
  by (cases m) auto

lemma guardR_eq_Inr [simp]: "guardR b e m = Inr y \<longleftrightarrow> \<not> b \<and> m = Inr y"
  by (simp add: guardR_def)

lemma mapR_eq_Inr [simp]: "mapR f m = Inr y \<longleftrightarrow> (\<exists>x. m = Inr x \<and> y = f x)"
  by (cases m) auto

lemma bindR_cong [fundef_cong]:
  "m = m' \<Longrightarrow> (\<And>x. m' = Inr x \<Longrightarrow> f x = f' x) \<Longrightarrow> bindR m f = bindR m' f'"
  by (cases m') auto

lemma collectR_eq_Inr:
  "collectR f xs = Inr ys \<longleftrightarrow> length ys = length xs \<and> (\<forall>i<length xs. f (xs ! i) = Inr (ys ! i))"
proof (induction xs arbitrary: ys)
  case Nil
  then show ?case by auto
next
  case (Cons x xs)
  show ?case
    by (cases ys) (auto simp: Cons.IH less_Suc_eq_0_disj)
qed

lemma collectR_all_Inr: "(\<And>x. x \<in> set xs \<Longrightarrow> f x = Inr (g x)) \<Longrightarrow> collectR f xs = Inr (map g xs)"
  by (induction xs) auto

section \<open>Closeness modulo q\<close>

text \<open>\<open>near q r x y\<close>: \<open>y\<close> is \<open>x\<close> plus an error of magnitude at most \<open>r\<close>, modulo \<open>q\<close>.
  Noise bounds compose by the triangle inequality.\<close>

definition near :: "nat \<Rightarrow> int \<Rightarrow> int \<Rightarrow> int \<Rightarrow> bool" where
  "near q r x y \<longleftrightarrow> (\<exists>e. \<bar>e\<bar> \<le> r \<and> y mod int q = (x + e) mod int q)"

lemma nearI: "\<bar>e\<bar> \<le> r \<Longrightarrow> y mod int q = (x + e) mod int q \<Longrightarrow> near q r x y"
  by (auto simp: near_def)

lemma near_refl: "0 \<le> r \<Longrightarrow> near q r x x"
  by (rule nearI [of 0]) simp_all

lemma near_mono: "near q r x y \<Longrightarrow> r \<le> r' \<Longrightarrow> near q r' x y"
  unfolding near_def by (meson order_trans)

lemma near_trans:
  assumes "near q r x y" and "near q s y z"
  shows "near q (r + s) x z"
proof -
  obtain e where e: "\<bar>e\<bar> \<le> r" "y mod int q = (x + e) mod int q"
    using assms(1) by (auto simp: near_def)
  obtain f where f: "\<bar>f\<bar> \<le> s" "z mod int q = (y + f) mod int q"
    using assms(2) by (auto simp: near_def)
  have "z mod int q = (x + (e + f)) mod int q"
    using e(2) f(2) by (metis add.assoc mod_add_left_eq)
  with e(1) f(1) show ?thesis by (intro nearI [of "e + f"]) auto
qed

lemma near_add:
  assumes "near q r x y" and "near q s u v"
  shows "near q (r + s) (x + u) (y + v)"
proof -
  obtain e f where "\<bar>e\<bar> \<le> r" "y mod int q = (x + e) mod int q" "\<bar>f\<bar> \<le> s" "v mod int q = (u + f) mod int q"
    using assms by (auto simp: near_def)
  moreover from this have "(y + v) mod int q = ((x + e) + (u + f)) mod int q"
    by (intro mod_add_cong)
  ultimately show ?thesis
    by (intro nearI [of "e + f"]) (auto simp: algebra_simps)
qed

lemma near_mod: "near q r x (y mod int q) \<longleftrightarrow> near q r x y"
  by (simp add: near_def)

lemma near_mod_left: "near q r (x mod int q) y \<longleftrightarrow> near q r x y"
  by (simp add: near_def mod_add_left_eq)

lemma near_mult_mod:
  assumes "0 < m"
  shows "near (q * m) r x (int (y mod q) * int m) \<longleftrightarrow> near (q * m) r x (int y * int m)"
proof -
  have "int (y mod q) * int m mod int (q * m) = int y * int m mod int (q * m)"
    by (simp add: zmod_int mult.commute [of _ "int m"] mod_mult_mult1)
  then show ?thesis by (simp only: near_def)
qed

text \<open>A common factor of both sides and of the modulus cancels.\<close>

lemma near_scale:
  fixes x z :: int
  assumes "near (q * m) r (x * int m) (z * int m)" and "0 < m"
  shows "near q (r div int m) x z"
proof -
  obtain e where e: "\<bar>e\<bar> \<le> r" "z * int m mod int (q * m) = (x * int m + e) mod int (q * m)"
    using assms(1) by (auto simp: near_def)
  have "int (q * m) dvd (x * int m + e) - z * int m"
    using e(2) by (metis mod_eq_dvd_iff)
  then obtain t where t: "(x * int m + e) - z * int m = int q * int m * t" by (auto elim: dvdE)
  then have em: "e = int m * (z - x + int q * t)" by (simp add: algebra_simps)
  define f where "f = z - x + int q * t"
  have "\<bar>e\<bar> = int m * \<bar>f\<bar>" using assms(2) by (simp add: em f_def abs_mult)
  then have "\<bar>f\<bar> * int m \<le> r" using e(1) by (simp add: mult.commute)
  then have "\<bar>f\<bar> \<le> r div int m" using assms(2) by (metis less_eq_div_iff_mult_less_eq of_nat_0_less_iff zdiv_mono1 nonzero_mult_div_cancel_right less_irrefl)
  moreover have "z mod int q = (x + f) mod int q" by (simp add: f_def)
  ultimately show ?thesis by (rule nearI)
qed

section \<open>Facts on slices\<close>

lemma all_below_simps [simp]:
  "all_below q []"
  "all_below q (x # xs) \<longleftrightarrow> x < q \<and> all_below q xs"
  "all_below q (xs @ ys) \<longleftrightarrow> all_below q xs \<and> all_below q ys"
  "all_below q (concat xss) \<longleftrightarrow> (\<forall>xs\<in>set xss. all_below q xs)"
  by (auto simp: all_below_def list_all_iff)

lemma all_below_set: "all_below q xs \<longleftrightarrow> (\<forall>x\<in>set xs. x < q)"
  by (simp add: all_below_def list_all_iff)

lemma all_below_nth: "all_below q xs \<Longrightarrow> i < length xs \<Longrightarrow> xs ! i < q"
  by (simp add: all_below_set)

lemma all_below_mono: "all_below q xs \<Longrightarrow> q \<le> r \<Longrightarrow> all_below r xs"
  by (auto simp: all_below_set)

lemma all_belowI: "(\<And>i. i < length xs \<Longrightarrow> xs ! i < q) \<Longrightarrow> all_below q xs"
  by (auto simp: all_below_set in_set_conv_nth)

lemma chunks_exact_concat:
  "0 < d \<Longrightarrow> \<forall>xs\<in>set xss. length xs = d \<Longrightarrow> chunks_exact d (concat xss) = xss"
proof (induction xss)
  case Nil
  then show ?case by (simp add: chunks_exact.simps)
next
  case (Cons xs xss)
  then show ?case by (simp add: chunks_exact.simps [of d "xs @ concat xss"])
qed

lemma chunks_exact_props:
  assumes "0 < d" and "length xs = n * d"
  shows "length (chunks_exact d xs) = n"
    and "\<forall>ys\<in>set (chunks_exact d xs). length ys = d"
    and "concat (chunks_exact d xs) = xs"
  using assms
proof (induction n arbitrary: xs)
  case 0
  { case 1 then show ?case by (simp add: chunks_exact.simps)
  next case 2 then show ?case by (simp add: chunks_exact.simps)
  next case 3 then show ?case by (simp add: chunks_exact.simps) }
next
  case (Suc n)
  have step: "chunks_exact d xs = take d xs # chunks_exact d (drop d xs)"
    if "length xs = Suc n * d" for xs :: "'a list"
    using that \<open>0 < d\<close> by (simp add: chunks_exact.simps [of d xs])
  have len: "length (drop d xs) = n * d" if "length xs = Suc n * d" for xs :: "'a list"
    using that by simp
  { case 1 then show ?case using Suc.IH(1) [OF _ len] by (simp add: step)
  next case 2 then show ?case using Suc.IH(2) [OF _ len] by (simp add: step)
  next case 3 then show ?case using Suc.IH(3) [OF _ len] by (simp add: step) }
qed

text \<open>The \<open>c\<close>-th chunk of width \<open>d\<close>.\<close>

definition chunk_at :: "nat \<Rightarrow> 'a list \<Rightarrow> nat \<Rightarrow> 'a list" where
  "chunk_at d xs c = map (\<lambda>r. xs ! (c * d + r)) [0..<d]"

lemma length_chunk_at [simp]: "length (chunk_at d xs c) = d"
  by (simp add: chunk_at_def)

lemma nth_chunk_at [simp]: "r < d \<Longrightarrow> chunk_at d xs c ! r = xs ! (c * d + r)"
  by (simp add: chunk_at_def)

lemma concat_chunk_at: "concat (map (chunk_at d xs) [0..<n]) = map ((!) xs) [0..<n * d]"
proof (induction n)
  case 0
  then show ?case by simp
next
  case (Suc n)
  have "chunk_at d xs n = map ((!) xs) [n * d..<n * d + d]"
    by (rule nth_equalityI) simp_all
  moreover have "[0..<n * d] @ [n * d..<n * d + d] = [0..<d + n * d]"
    by (metis add.commute upt_add_eq_append zero_le)
  ultimately have "map ((!) xs) [0..<n * d] @ chunk_at d xs n = map ((!) xs) [0..<Suc n * d]"
    by (simp flip: map_append)
  then show ?case using Suc by simp
qed

lemma chunks_exact_chunk_at:
  assumes "0 < d" and "length xs = n * d"
  shows "chunks_exact d xs = map (chunk_at d xs) [0..<n]"
proof -
  have "concat (map (chunk_at d xs) [0..<n]) = xs"
    unfolding concat_chunk_at assms(2) [symmetric] by (rule map_nth)
  then show ?thesis
    using chunks_exact_concat [OF assms(1), of "map (chunk_at d xs) [0..<n]"] by simp
qed

lemma nth_concat_rows:
  "\<forall>xs\<in>set xss. length xs = d \<Longrightarrow> r < length xss \<Longrightarrow> c < d \<Longrightarrow> concat xss ! (r * d + c) = xss ! r ! c"
proof (induction xss arbitrary: r)
  case Nil
  then show ?case by simp
next
  case (Cons xs xss)
  then show ?case by (cases r) (simp_all add: nth_append add.assoc)
qed

lemma length_concat_rows: "\<forall>xs\<in>set xss. length xs = d \<Longrightarrow> length (concat xss) = length xss * d"
  by (induction xss) simp_all

lemma row_slot: "r < rows \<Longrightarrow> c < cols \<Longrightarrow> r * cols + c < rows * cols" for r c :: nat
proof -
  assume "r < rows" "c < cols"
  then have "r * cols + c < Suc r * cols" "Suc r * cols \<le> rows * cols" by (simp, intro mult_le_mono1, simp)
  then show ?thesis by linarith
qed

text \<open>Tiles of a list, and radix digits.\<close>

lemma map_upt_shift: "map (\<lambda>r. f (n + r)) [0..<k] = map f [n..<n + k]"
  by (rule nth_equalityI) simp_all

lemma concat_tiles: "concat (map (\<lambda>t. map (\<lambda>r. f (t * d + r)) [0..<d]) [0..<n]) = map f [0..<n * d]"
proof (induction n)
  case (Suc n)
  have "concat (map (\<lambda>t. map (\<lambda>r. f (t * d + r)) [0..<d]) [0..<Suc n]) = map f ([0..<n * d] @ [n * d..<n * d + d])"
    using Suc by (simp add: map_upt_shift)
  also have "[0..<n * d] @ [n * d..<n * d + d] = [0..<Suc n * d]" by (metis add.commute mult_Suc upt_add_eq_append zero_le)
  finally show ?case .
qed simp

lemma concat_tiles_partial:
  assumes "0 < d"
  shows "concat (map (\<lambda>t. map (\<lambda>r. f (t * d + r)) [0..<min d (rows - t * d)]) [0..<div_ceil rows d]) = map f [0..<rows]"
proof -
  let ?n = "rows div d" and ?k = "rows mod d"
  have full: "map (\<lambda>t. map (\<lambda>r. f (t * d + r)) [0..<min d (rows - t * d)]) [0..<?n] = map (\<lambda>t. map (\<lambda>r. f (t * d + r)) [0..<d]) [0..<?n]"
  proof (rule map_cong [OF refl])
    fix t assume "t \<in> set [0..<?n]"
    then have "Suc t * d \<le> ?n * d" by (intro mult_le_mono1) simp
    also have "?n * d \<le> rows" by (rule div_times_less_eq_dividend)
    finally show "map (\<lambda>r. f (t * d + r)) [0..<min d (rows - t * d)] = map (\<lambda>r. f (t * d + r)) [0..<d]" by simp
  qed
  have rows: "rows = ?n * d + ?k" by simp
  have last: "min d (rows - ?n * d) = ?k" using assms by (simp add: minus_div_mult_eq_mod less_imp_le)
  have tail: "map f [0..<?n * d] @ map (\<lambda>r. f (?n * d + r)) [0..<?k] = map f [0..<rows]"
    by (metis map_append map_upt_shift rows upt_add_eq_append zero_le)
  show ?thesis
  proof (cases "?k = 0")
    case True
    then have "rows = ?n * d" "div_ceil rows d = ?n" using rows by (simp_all add: div_ceil_def)
    then show ?thesis using full concat_tiles [of f d ?n] by argo
  next
    case False
    then have "[0..<div_ceil rows d] = [0..<?n] @ [?n]" by (simp add: div_ceil_def)
    then show ?thesis using full concat_tiles [of f d ?n] last tail by (simp only: map_append concat_append list.map concat.simps append_Nil2)
  qed
qed

lemma collect_tiles:
  assumes "\<And>t. t < n \<Longrightarrow> g t = Inr (h t)"
  shows "mapR concat (collectR g [0..<n]) = Inr (concat (map h [0..<n]))"
  using collectR_all_Inr [of "[0..<n]" g h] assms by simp

lemma digit_sum: "(\<Sum>j<n. (v div B ^ j mod B) * B ^ j) = v mod B ^ n" for v B :: nat
proof (induction n)
  case (Suc n)
  have "v mod B ^ Suc n = B ^ n * (v div B ^ n mod B) + v mod B ^ n"
    unfolding power_Suc2 by (rule mod_mult2_eq)
  then show ?case using Suc by simp
qed simp

end
