(* ===== verification/Bit_Store.thy ===== *)
theory Bit_Store
  imports Ipir_Prelude
begin

text \<open>
  The contract of a byte buffer with bit fields. Two components of the workspace write
  and read fixed-width fields in a byte buffer, little-endian within bytes: the wire
  codec (\<open>ipir-native-client/src/bits.rs\<close>) ORs a value in byte by byte, the nullifier
  encoder (\<open>nullifier-pir/src/encoding.rs\<close>) splices a whole 64-bit word. Both promise the
  same laws on single bits, stated here as a locale; packing a list of values field after
  field and reading any of them back is proved once, inside it.
\<close>

section \<open>Bits of a buffer\<close>

definition getbit :: "byte list \<Rightarrow> nat \<Rightarrow> bool" where
  "getbit data i \<longleftrightarrow> i < 8 * length data \<and> bit (data ! (i div 8)) (i mod 8)"

text \<open>Write the values of a list one after the other, the offset advancing by the width:
  the loop shared by both packers, over the writer it is given.\<close>

fun write_all ::
    "(byte list \<Rightarrow> nat \<Rightarrow> nat \<Rightarrow> nat \<Rightarrow> byte list) \<Rightarrow> byte list \<Rightarrow> nat \<Rightarrow> nat \<Rightarrow> nat list \<Rightarrow> byte list" where
  "write_all wr data off w [] = data"
| "write_all wr data off w (x # xs) = write_all wr (wr data x off w) (off + w) w xs"

lemma getbit_replicate_0 [simp]: "\<not> getbit (replicate n 0) i"
  by (simp add: getbit_def)

lemma getbit_in_range: "getbit data i \<Longrightarrow> i < 8 * length data"
  by (simp add: getbit_def)

lemma getbit_byte: "j < 8 \<Longrightarrow> b < length data \<Longrightarrow> getbit data (8 * b + j) \<longleftrightarrow> bit (data ! b) j"
  by (simp add: getbit_def)

text \<open>Two canonical buffers of the same length with the same bits are equal.\<close>

lemma buffer_eqI:
  assumes "length xs = length ys" and "all_below 256 xs" and "all_below 256 ys"
    and bits: "\<And>i. i < 8 * length xs \<Longrightarrow> getbit xs i \<longleftrightarrow> getbit ys i"
  shows "xs = ys"
proof (rule nth_equalityI)
  fix b assume b: "b < length xs"
  have small: "xs ! b < 256" "ys ! b < 256"
    using assms b by (auto dest: all_below_nth)
  show "xs ! b = ys ! b"
  proof (rule bit_eqI)
    fix j
    show "bit (xs ! b) j \<longleftrightarrow> bit (ys ! b) j"
    proof (cases "j < 8")
      case True
      then have "8 * b + j < 8 * length xs" using b by simp
      then show ?thesis
        using bits [of "8 * b + j"] True b assms(1) by (simp add: getbit_byte)
    next
      case False
      then show ?thesis using small by (auto dest: bit_byte)
    qed
  qed
qed (fact assms(1))

text \<open>\<open>u64::from_le_bytes\<close> and \<open>to_le_bytes\<close>.\<close>

fun from_le_bytes :: "byte list \<Rightarrow> nat" where
  "from_le_bytes [] = 0"
| "from_le_bytes (b # bs) = b OR push_bit 8 (from_le_bytes bs)"

definition to_le_bytes :: "nat \<Rightarrow> byte list" where
  "to_le_bytes x = map (\<lambda>i. u8 (drop_bit (8 * i) x)) [0..<8]"

lemma getbit_Cons: "getbit (b # bs) i \<longleftrightarrow> (if i < 8 then bit b i else getbit bs (i - 8))"
proof (cases "i < 8")
  case True
  then show ?thesis by (simp add: getbit_def)
next
  case False
  then obtain j where "i = 8 + j" using le_Suc_ex not_less by blast
  then show ?thesis by (simp add: getbit_def div_add_self1)
qed

lemma getbit_append: "getbit (xs @ ys) i \<longleftrightarrow> (if i < 8 * length xs then getbit xs i else getbit ys (i - 8 * length xs))"
proof (induction xs arbitrary: i)
  case Nil
  then show ?case by simp
next
  case (Cons x xs)
  then show ?case by (auto simp: getbit_Cons)
qed

lemma getbit_take: "getbit (take n xs) i \<longleftrightarrow> i < 8 * n \<and> getbit xs i"
  by (auto simp: getbit_def min_def)

lemma getbit_drop_at: "getbit (drop n xs) i \<longleftrightarrow> getbit xs (8 * n + i)"
  by (auto simp: getbit_def less_diff_conv)

lemma bit_from_le_bytes: "all_below 256 bs \<Longrightarrow> bit (from_le_bytes bs) k \<longleftrightarrow> getbit bs k"
proof (induction bs arbitrary: k)
  case Nil
  then show ?case by (simp add: getbit_def)
next
  case (Cons b bs)
  then show ?case
    by (auto simp: getbit_Cons bit_or_iff bit_push_bit_iff_nat dest: bit_byte)
qed

lemma getbit_to_le_bytes: "getbit (to_le_bytes x) k \<longleftrightarrow> k < 64 \<and> bit x k"
  by (auto simp: getbit_def to_le_bytes_def bit_u8_iff bit_drop_bit_eq less_mult_imp_div_less)

lemma length_to_le_bytes [simp]: "length (to_le_bytes x) = 8"
  by (simp add: to_le_bytes_def)

section \<open>The contract\<close>

text \<open>
  \<open>wr data v off n\<close> stores the low \<open>n\<close> bits of \<open>v\<close> at bit \<open>off\<close> of a buffer whose field is
  still zero and leaves every other bit alone; \<open>rd data off n\<close> returns the field, with
  zeros beyond the end of the buffer. \<open>ok n\<close> are the widths the provider supports.
\<close>

locale bit_field_store =
  fixes wr :: "byte list \<Rightarrow> nat \<Rightarrow> nat \<Rightarrow> nat \<Rightarrow> byte list"
    and rd :: "byte list \<Rightarrow> nat \<Rightarrow> nat \<Rightarrow> nat"
    and ok :: "nat \<Rightarrow> bool"
  assumes wr_bit: "\<lbrakk>ok n; all_below 256 data; off + n \<le> 8 * length data;
      \<And>i. off \<le> i \<Longrightarrow> i < off + n \<Longrightarrow> \<not> getbit data i\<rbrakk>
    \<Longrightarrow> getbit (wr data v off n) i \<longleftrightarrow>
        (if off \<le> i \<and> i < off + n then bit v (i - off) else getbit data i)"
    and wr_length: "\<lbrakk>ok n; off + n \<le> 8 * length data\<rbrakk> \<Longrightarrow> length (wr data v off n) = length data"
    and wr_bytes: "\<lbrakk>ok n; off + n \<le> 8 * length data; all_below 256 data\<rbrakk> \<Longrightarrow> all_below 256 (wr data v off n)"
    and rd_bit: "\<lbrakk>ok n; all_below 256 data\<rbrakk>
      \<Longrightarrow> bit (rd data off n) k \<longleftrightarrow> k < n \<and> getbit data (off + k)"
begin

abbreviation pack_from :: "byte list \<Rightarrow> nat \<Rightarrow> nat \<Rightarrow> nat list \<Rightarrow> byte list" where
  "pack_from data off w xs \<equiv> write_all wr data off w xs"

text \<open>After packing, every bit of the buffer is known.\<close>

lemma pack_from_bits:
  assumes "ok w" and "all_below 256 data" and "off + length xs * w \<le> 8 * length data"
    and "\<And>i. off \<le> i \<Longrightarrow> \<not> getbit data i" and "0 < w"
  shows "(getbit (pack_from data off w xs) i \<longleftrightarrow>
           (if off \<le> i \<and> i < off + length xs * w
            then bit (xs ! ((i - off) div w)) ((i - off) mod w) else getbit data i))
       \<and> length (pack_from data off w xs) = length data
       \<and> all_below 256 (pack_from data off w xs)"
  using assms
proof (induction xs arbitrary: data off)
  case Nil
  then show ?case by auto
next
  case (Cons x xs)
  let ?d = "wr data x off w"
  have fits: "off + w \<le> 8 * length data"
    using Cons.prems(3) by simp
  have len: "length ?d = length data"
    using Cons.prems(1) fits by (rule wr_length)
  have bytes: "all_below 256 ?d"
    using Cons.prems(1) fits Cons.prems(2) by (rule wr_bytes)
  have wbit: "getbit ?d j \<longleftrightarrow> (if off \<le> j \<and> j < off + w then bit x (j - off) else getbit data j)" for j
    using Cons.prems fits by (intro wr_bit) auto
  have room: "(off + w) + length xs * w \<le> 8 * length ?d"
    using Cons.prems(3) len by simp
  have zero: "\<not> getbit ?d j" if "off + w \<le> j" for j
    using that wbit [of j] Cons.prems(4) [of j] by simp
  note IH = Cons.IH [OF Cons.prems(1) bytes room zero Cons.prems(5)]
  have "getbit (pack_from data off w (x # xs)) i \<longleftrightarrow>
      (if off + w \<le> i \<and> i < off + w + length xs * w
       then bit (xs ! ((i - (off + w)) div w)) ((i - (off + w)) mod w) else getbit ?d i)"
    using IH by simp
  also have "\<dots> \<longleftrightarrow> (if off \<le> i \<and> i < off + length (x # xs) * w
       then bit ((x # xs) ! ((i - off) div w)) ((i - off) mod w) else getbit data i)"
  proof (cases "off + w \<le> i")
    case True
    then obtain k where "i = off + w + k" using le_Suc_ex by blast
    then show ?thesis using wbit [of i] \<open>0 < w\<close> by (simp add: div_add_self1)
  next
    case False
    then have "off \<le> i \<Longrightarrow> (i - off) div w = 0 \<and> (i - off) mod w = i - off"
      by simp
    with False show ?thesis
      using wbit [of i] by (cases "off \<le> i") simp_all
  qed
  finally show ?case using IH len by simp
qed

lemmas pack_from_length = pack_from_bits [THEN conjunct2, THEN conjunct1]
lemmas pack_from_bytes = pack_from_bits [THEN conjunct2, THEN conjunct2]
lemmas pack_from_bit = pack_from_bits [THEN conjunct1]

text \<open>Reading field \<open>k\<close> back gives the low \<open>w\<close> bits of the value stored there, and
  fields before the packed range are untouched.\<close>

lemma rd_pack_at:
  assumes "ok w" and "all_below 256 data" and "off + length xs * w \<le> 8 * length data"
    and "\<And>i. off \<le> i \<Longrightarrow> \<not> getbit data i" and "0 < w" and "k < length xs"
  shows "rd (pack_from data off w xs) (off + k * w) w = xs ! k mod 2 ^ w"
proof (rule bit_eqI)
  fix j
  let ?b = "pack_from data off w xs"
  note facts = assms(1-5)
  have "bit (rd ?b (off + k * w) w) j \<longleftrightarrow> j < w \<and> getbit ?b (off + k * w + j)"
    using assms(1) pack_from_bytes [OF facts] by (rule rd_bit)
  also have "\<dots> \<longleftrightarrow> j < w \<and> bit (xs ! k) j"
  proof (rule conj_cong [OF refl])
    assume j: "j < w"
    have "(k + 1) * w \<le> length xs * w"
      using assms(6) by (intro mult_le_mono1) simp
    then have "k * w + j < length xs * w"
      using j by simp
    moreover have "(k * w + j) div w = k" "(k * w + j) mod w = j"
      using j by simp_all
    ultimately show "getbit ?b (off + k * w + j) \<longleftrightarrow> bit (xs ! k) j"
      using pack_from_bit [OF facts, of "off + k * w + j"] by (simp add: add.assoc)
  qed
  finally show "bit (rd ?b (off + k * w) w) j \<longleftrightarrow> bit (xs ! k mod 2 ^ w) j"
    by (simp add: bit_take_bit_iff flip: take_bit_eq_mod)
qed

lemma rd_pack_before:
  assumes "ok w" and "all_below 256 data" and "off + length xs * w \<le> 8 * length data"
    and "\<And>i. off \<le> i \<Longrightarrow> \<not> getbit data i" and "0 < w" and "ok n" and "pos + n \<le> off"
  shows "rd (pack_from data off w xs) pos n = rd data pos n"
proof (rule bit_eqI)
  fix j
  note facts = assms(1-5)
  show "bit (rd (pack_from data off w xs) pos n) j \<longleftrightarrow> bit (rd data pos n) j"
    using rd_bit [OF assms(6) pack_from_bytes [OF facts], of pos j] rd_bit [OF assms(6,2), of pos j]
      pack_from_bit [OF facts, of "pos + j"] assms(7) by auto
qed

lemma rd_pack_from:
  assumes "ok w" and "0 < w" and "length xs * w \<le> 8 * n" and "k < length xs"
  shows "rd (pack_from (replicate n 0) 0 w xs) (k * w) w = xs ! k mod 2 ^ w"
  using rd_pack_at [of w "replicate n 0" 0 xs k] assms by (simp add: all_below_set)

text \<open>Conversely, packing the fields read from a zero-padded buffer gives the buffer.\<close>

lemma pack_from_rd:
  assumes "ok w" and "0 < w" and "all_below 256 data"
    and "n * w \<le> 8 * length data"
    and pad: "\<And>i. n * w \<le> i \<Longrightarrow> \<not> getbit data i"
  shows "pack_from (replicate (length data) 0) 0 w (map (\<lambda>k. rd data (k * w) w) [0..<n]) = data"
    (is "pack_from ?z 0 w ?xs = data")
proof (rule buffer_eqI)
  have z: "all_below 256 ?z" by (simp add: all_below_set)
  have room: "0 + length ?xs * w \<le> 8 * length ?z" using assms(4) by simp
  have nz: "\<not> getbit ?z i" for i by simp
  note facts = assms(1) z room nz assms(2)
  show len: "length (pack_from ?z 0 w ?xs) = length data"
    using pack_from_length [OF facts] by simp
  show "all_below 256 (pack_from ?z 0 w ?xs)"
    using pack_from_bytes [OF facts] by simp
  fix i
  show "getbit (pack_from ?z 0 w ?xs) i \<longleftrightarrow> getbit data i"
  proof (cases "i < n * w")
    case True
    then have k: "i div w < n" using assms(2) by (simp add: less_mult_imp_div_less)
    have "getbit (pack_from ?z 0 w ?xs) i \<longleftrightarrow> bit (?xs ! (i div w)) (i mod w)"
      using pack_from_bit [OF facts, of i] True by simp
    also have "\<dots> \<longleftrightarrow> bit (rd data (i div w * w) w) (i mod w)"
      using k by simp
    also have "\<dots> \<longleftrightarrow> getbit data (i div w * w + i mod w)"
      using rd_bit [OF assms(1,3)] assms(2) by simp
    finally show ?thesis by simp
  next
    case False
    then show ?thesis using pack_from_bit [OF facts, of i] pad [of i] by simp
  qed
qed (use assms in simp_all)

end

end
