(* ===== verification/Bits.thy ===== *)
theory Bits
  imports Bit_Store
begin

text \<open>
  The bit-packing helpers of \<open>ipir-native-client/src/bits.rs\<close>: \<open>write_bits\<close> ORs a value
  into a buffer, \<open>read_bits\<close> collects a field byte by byte, and the two list packers call
  them field after field. The loops are the source's loops, one iteration per call.
\<close>

section \<open>Model\<close>

text \<open>The body of \<open>write_bits\<close>. The last guard conjunct is the loop invariant
  \<open>bit_index < 8\<close>: the source would underflow in \<open>8 - bit_index\<close> without it.\<close>

function write_bits_loop :: "byte list \<Rightarrow> nat \<Rightarrow> nat \<Rightarrow> nat \<Rightarrow> nat \<Rightarrow> byte list" where
  "write_bits_loop data val byte_index bit_index num_bits =
     (if 0 < num_bits \<and> byte_index < length data \<and> bit_index < 8 then
        let bits_to_write = min (8 - bit_index) num_bits;
            bitmask = 2 ^ bits_to_write - 1;
            bits = push_bit bit_index (val AND bitmask);
            data' = data[byte_index := data ! byte_index OR u8 bits];
            bit_index' = bit_index + bits_to_write
        in if bit_index' = 8
           then write_bits_loop data' (drop_bit bits_to_write val) (byte_index + 1) 0 (num_bits - bits_to_write)
           else write_bits_loop data' (drop_bit bits_to_write val) byte_index bit_index' (num_bits - bits_to_write)
      else data)"
  by pat_completeness auto
termination
  by (relation "measure (\<lambda>(data, val, byte_index, bit_index, num_bits). num_bits)") (auto simp: min_def)

declare write_bits_loop.simps [simp del]

definition write_bits :: "byte list \<Rightarrow> nat \<Rightarrow> nat \<Rightarrow> nat \<Rightarrow> byte list" where
  "write_bits data val bit_offs num_bits =
     write_bits_loop data val (bit_offs div 8) (bit_offs mod 8) num_bits"

text \<open>The body of \<open>read_bits\<close>: one step per remaining byte, leaving the loop once all
  the bits are read.\<close>

fun read_bits_loop :: "byte list \<Rightarrow> nat \<Rightarrow> nat \<Rightarrow> nat \<Rightarrow> nat \<Rightarrow> nat" where
  "read_bits_loop [] bit_pos num_bits remaining_bits result = result"
| "read_bits_loop (b # rest) bit_pos num_bits remaining_bits result =
     (let can_take = min (8 - bit_pos) remaining_bits;
          value = (if can_take < 8 then drop_bit bit_pos b AND (2 ^ can_take - 1)
                   else drop_bit bit_pos b);
          result' = result OR u64 (push_bit (num_bits - remaining_bits) value);
          remaining' = remaining_bits - can_take
      in if remaining' = 0 then result'
         else read_bits_loop rest 0 num_bits remaining' result')"

definition read_bits :: "byte list \<Rightarrow> nat \<Rightarrow> nat \<Rightarrow> nat result" where
  "read_bits data bit_offs num_bits =
     guardR (\<not> (1 \<le> num_bits \<and> num_bits \<le> 64)) (Panic ''invalid number of bits'')
       (Inr (read_bits_loop (drop (bit_offs div 8) data) (bit_offs mod 8) num_bits num_bits 0))"

fun u64s_loop :: "byte list \<Rightarrow> nat \<Rightarrow> nat \<Rightarrow> nat list \<Rightarrow> byte list" where
  "u64s_loop out bit_offs inp_mod_bits [] = out"
| "u64s_loop out bit_offs inp_mod_bits (val # data) =
     u64s_loop (write_bits out val bit_offs inp_mod_bits) (bit_offs + inp_mod_bits) inp_mod_bits data"

definition u64s_to_contiguous_bytes :: "nat list \<Rightarrow> nat \<Rightarrow> byte list" where
  "u64s_to_contiguous_bytes data inp_mod_bits =
     u64s_loop (replicate (div_ceil (length data * inp_mod_bits) 8) 0) 0 inp_mod_bits data"

definition contiguous_bytes_to_u64s :: "byte list \<Rightarrow> nat \<Rightarrow> nat list result" where
  "contiguous_bytes_to_u64s data out_mod_bits =
     guardR (out_mod_bits = 0) (Panic ''attempt to divide by zero'')
       (collectR (\<lambda>k. read_bits data (k * out_mod_bits) out_mod_bits)
         [0..<(length data * 8) div out_mod_bits])"

section \<open>Bits after a write\<close>

lemma write_bits_loop_stop:
  "\<not> (0 < n \<and> b < length data \<and> s < 8) \<Longrightarrow> write_bits_loop data val b s n = data"
  by (simp only: write_bits_loop.simps [of data val b s n] if_False)

lemma write_bits_loop_step:
  "0 < n \<Longrightarrow> b < length data \<Longrightarrow> s < 8 \<Longrightarrow> m = min (8 - s) n \<Longrightarrow>
     data' = data[b := data ! b OR u8 (push_bit s (val AND (2 ^ m - 1)))] \<Longrightarrow>
     write_bits_loop data val b s n =
       (if s + m = 8 then write_bits_loop data' (drop_bit m val) (b + 1) 0 (n - m)
        else write_bits_loop data' (drop_bit m val) b (s + m) (n - m))"
  by (simp only: write_bits_loop.simps [of data val b s n] Let_def simp_thms if_True)

lemma write_bits_loop_length [simp]:
  "length (write_bits_loop data val byte_index bit_index num_bits) = length data"
proof (induction data val byte_index bit_index num_bits rule: write_bits_loop.induct)
  case (1 data val b s n)
  show ?case
  proof (cases "0 < n \<and> b < length data \<and> s < 8")
    case True
    then show ?thesis
      using "1.IH" [OF True refl refl refl refl refl]
      by (simp only: write_bits_loop_step [of n b data s _ _ val, OF _ _ _ refl refl]
            length_list_update split: if_split) simp
  next
    case False
    then show ?thesis using write_bits_loop_stop by metis
  qed
qed

lemma or_byte_bits:
  assumes "all_below 256 data" and "b < length data" and "s + n \<le> 8"
  shows "getbit (data[b := data ! b OR u8 (push_bit s (v AND (2 ^ n - 1)))]) i \<longleftrightarrow>
    getbit data i \<or> 8 * b + s \<le> i \<and> i < 8 * b + s + n \<and> bit v (i - (8 * b + s))"
proof (cases "i div 8 = b")
  case True
  then have i: "i = 8 * b + i mod 8" by (metis mult_div_mod_eq)
  define j where "j = i mod 8"
  have j: "j < 8" "i = 8 * b + j" using i by (simp_all add: j_def)
  show ?thesis
    using assms j by (auto simp: getbit_byte bit_or_iff bit_u8_iff bit_push_bit_iff_nat bit_and_iff)
next
  case False
  then have "\<not> (8 * b + s \<le> i \<and> i < 8 * b + s + n)"
    using assms(3) by auto
  with False assms(2) show ?thesis by (auto simp: getbit_def)
qed

lemma or_byte_bytes:
  "all_below 256 data \<Longrightarrow> b < length data \<Longrightarrow> all_below 256 (data[b := data ! b OR u8 x])"
proof (rule all_belowI)
  fix k assume h: "all_below 256 data" "b < length data" "k < length (data[b := data ! b OR u8 x])"
  have "data ! b OR u8 x < 2 ^ 8"
    using all_below_nth [OF h(1,2)] by (intro less_expI) (auto simp: bit_or_iff bit_u8_iff dest: bit_byte)
  then show "data[b := data ! b OR u8 x] ! k < 256"
    using h by (auto simp: nth_list_update dest: all_below_nth)
qed

lemma write_bits_loop_bits:
  assumes "all_below 256 data" and "bit_index < 8" and "8 * byte_index + bit_index + num_bits \<le> 8 * length data"
  shows "all_below 256 (write_bits_loop data val byte_index bit_index num_bits)
    \<and> (getbit (write_bits_loop data val byte_index bit_index num_bits) i \<longleftrightarrow>
        getbit data i \<or> 8 * byte_index + bit_index \<le> i \<and> i < 8 * byte_index + bit_index + num_bits
          \<and> bit val (i - (8 * byte_index + bit_index)))"
  using assms
proof (induction data val byte_index bit_index num_bits rule: write_bits_loop.induct)
  case (1 data val b s n)
  show ?case
  proof (cases "0 < n")
    case False
    then have "write_bits_loop data val b s n = data" by (intro write_bits_loop_stop) simp
    then show ?thesis using "1.prems"(1) False by auto
  next
    case True
    then have g: "0 < n \<and> b < length data \<and> s < 8" using "1.prems" by auto
    define m where "m = min (8 - s) n"
    define data' where "data' = data[b := data ! b OR u8 (push_bit s (val AND (2 ^ m - 1)))]"
    have m: "0 < m" "m \<le> n" "s + m \<le> 8" using g by (auto simp: m_def)
    have bytes: "all_below 256 data'"
      using "1.prems"(1) g unfolding data'_def by (intro or_byte_bytes) auto
    have d': "getbit data' i \<longleftrightarrow> getbit data i \<or> 8 * b + s \<le> i \<and> i < 8 * b + s + m \<and> bit val (i - (8 * b + s))" for i
      using "1.prems"(1) g m unfolding data'_def by (intro or_byte_bits) auto
    have len: "length data' = length data" by (simp add: data'_def)
    have next_bits: "bit (drop_bit m val) (i - (8 * b + s + m)) \<longleftrightarrow> bit val (i - (8 * b + s))"
      if "8 * b + s + m \<le> i" for i
      using that by (simp add: bit_drop_bit_eq)
    show ?thesis
    proof (cases "s + m = 8")
      case True
      have eq: "write_bits_loop data val b s n = write_bits_loop data' (drop_bit m val) (b + 1) 0 (n - m)"
        using g True write_bits_loop_step [OF _ _ _ m_def data'_def] by simp
      have "8 * (b + 1) + 0 + (n - m) \<le> 8 * length data'"
        using "1.prems"(3) True m len by simp
      note IH = "1.IH"(1) [OF g m_def refl refl data'_def refl True bytes _ this]
      have pos: "8 * (b + 1) + 0 = 8 * b + s + m" using True by simp
      have IH: "all_below 256 (write_bits_loop data val b s n)"
        "getbit (write_bits_loop data val b s n) i \<longleftrightarrow> getbit data' i \<or> 8 * b + s + m \<le> i
          \<and> i < 8 * b + s + m + (n - m) \<and> bit (drop_bit m val) (i - (8 * b + s + m))"
        using IH unfolding eq pos by simp_all
      show ?thesis
        using IH d' [of i] m next_bits [of i] by (cases "8 * b + s + m \<le> i") auto
    next
      case False
      have eq: "write_bits_loop data val b s n = write_bits_loop data' (drop_bit m val) b (s + m) (n - m)"
        using g False write_bits_loop_step [OF _ _ _ m_def data'_def] by simp
      have "8 * b + (s + m) + (n - m) \<le> 8 * length data'" and lt: "s + m < 8"
        using "1.prems"(3) False m len by simp_all
      note IH = "1.IH"(2) [OF g m_def refl refl data'_def refl False bytes lt this(1)]
      then have IH: "all_below 256 (write_bits_loop data val b s n)"
        "getbit (write_bits_loop data val b s n) i \<longleftrightarrow> getbit data' i \<or> 8 * b + s + m \<le> i
          \<and> i < 8 * b + s + m + (n - m) \<and> bit (drop_bit m val) (i - (8 * b + s + m))"
        unfolding eq by (simp_all add: add.assoc)
      show ?thesis
        using IH d' [of i] m next_bits [of i] by (cases "8 * b + s + m \<le> i") auto
    qed
  qed
qed

lemma write_bits_bits:
  assumes "all_below 256 data" and "off + n \<le> 8 * length data"
  shows "all_below 256 (write_bits data v off n)"
    and "getbit (write_bits data v off n) i \<longleftrightarrow>
      getbit data i \<or> off \<le> i \<and> i < off + n \<and> bit v (i - off)"
  using write_bits_loop_bits [of data "off mod 8" "off div 8" n v i] assms
  by (simp_all add: write_bits_def)

section \<open>Bits of a read\<close>

lemma read_bits_loop_bit:
  assumes "all_below 256 data" and "pos < 8" and "rem \<le> n" and "0 < rem" and "n \<le> 64"
  shows "bit (read_bits_loop data pos n rem res) k \<longleftrightarrow>
    bit res k \<or> n - rem \<le> k \<and> k < n \<and> getbit data (pos + (k - (n - rem)))"
  using assms
proof (induction data pos n rem res rule: read_bits_loop.induct)
  case (1 pos n rem res)
  then show ?case by (simp add: getbit_def)
next
  case (2 b rest pos n rem res)
  define m where "m = min (8 - pos) rem"
  define v where "v = (if m < 8 then drop_bit pos b AND (2 ^ m - 1) else drop_bit pos b)"
  define res' where "res' = res OR u64 (push_bit (n - rem) v)"
  have b: "b < 256" and rest: "all_below 256 rest" using "2.prems"(1) by simp_all
  have m: "0 < m" "m \<le> rem" "pos + m \<le> 8" using "2.prems" by (auto simp: m_def)
  have v: "bit v j \<longleftrightarrow> j < m \<and> bit b (pos + j)" for j
    using m b by (auto simp: v_def bit_and_iff bit_drop_bit_eq dest: bit_byte)
  have res': "bit res' k \<longleftrightarrow> bit res k \<or> n - rem \<le> k \<and> k < n - rem + m \<and> bit b (pos + (k - (n - rem)))"
    using m "2.prems" by (auto simp: res'_def bit_or_iff bit_u64_iff bit_push_bit_iff_nat v)
  have head: "getbit (b # rest) (pos + j) \<longleftrightarrow> bit b (pos + j)" if "j < m" for j
    using that m by (simp add: getbit_def)
  have tail: "getbit (b # rest) (8 + j) \<longleftrightarrow> getbit rest j" for j
    by (simp add: getbit_def div_add_self1)
  show ?case
  proof (cases "rem - m = 0")
    case True
    then have "rem = m" using m by simp
    have "bit (read_bits_loop (b # rest) pos n rem res) k \<longleftrightarrow> bit res' k"
      using True by (simp add: Let_def m_def v_def res'_def)
    also have "\<dots> \<longleftrightarrow> bit res k \<or> n - rem \<le> k \<and> k < n \<and> getbit (b # rest) (pos + (k - (n - rem)))"
      using res' head [of "k - (n - rem)"] \<open>rem = m\<close> "2.prems"(3) by auto
    finally show ?thesis .
  next
    case False
    then have full: "pos + m = 8" using m by (auto simp: m_def)
    have eq: "read_bits_loop (b # rest) pos n rem res = read_bits_loop rest 0 n (rem - m) res'"
      using False by (simp add: Let_def m_def v_def res'_def)
    have IH: "bit (read_bits_loop rest 0 n (rem - m) res') k \<longleftrightarrow>
        bit res' k \<or> n - (rem - m) \<le> k \<and> k < n \<and> getbit rest (0 + (k - (n - (rem - m))))"
      using "2.IH" [OF m_def v_def res'_def refl False] rest False "2.prems" m
      by (simp add: m_def v_def res'_def)
    have shift: "pos + (k - (n - rem)) = 8 + (k - (n - (rem - m)))" if "n - (rem - m) \<le> k"
      using that full m "2.prems"(3) by arith
    show ?thesis
    proof (cases "n - (rem - m) \<le> k")
      case True
      then show ?thesis
        using IH res' shift [OF True] tail [of "k - (n - (rem - m))"] m "2.prems"(3) unfolding eq by auto
    next
      case False
      then have "k < n - rem + m" "k < n" using m "2.prems"(3) by auto
      then show ?thesis
        using IH res' head [of "k - (n - rem)"] False unfolding eq by auto
    qed
  qed
qed

lemma read_bits_ok: "1 \<le> n \<Longrightarrow> n \<le> 64 \<Longrightarrow>
    read_bits data off n = Inr (read_bits_loop (drop (off div 8) data) (off mod 8) n n 0)"
  by (simp add: read_bits_def)

lemma getbit_drop: "getbit (drop b data) i \<longleftrightarrow> getbit data (8 * b + i)"
  by (auto simp: getbit_def less_diff_conv)

text \<open>The provider's reader, totalised for the contract: the value where it does not panic.\<close>

definition read_bits_val :: "byte list \<Rightarrow> nat \<Rightarrow> nat \<Rightarrow> nat" where
  "read_bits_val data off n = read_bits_loop (drop (off div 8) data) (off mod 8) n n 0"

lemma read_bits_val: "1 \<le> n \<Longrightarrow> n \<le> 64 \<Longrightarrow> read_bits data off n = Inr (read_bits_val data off n)"
  by (simp add: read_bits_val_def read_bits_ok)

lemma read_bits_val_bit:
  assumes "1 \<le> n" and "n \<le> 64" and "all_below 256 data"
  shows "bit (read_bits_val data off n) k \<longleftrightarrow> k < n \<and> getbit data (off + k)"
proof -
  have "all_below 256 (drop (off div 8) data)"
    using assms(3) by (auto simp: all_below_set dest: in_set_dropD)
  then have "bit (read_bits_val data off n) k \<longleftrightarrow> k < n \<and> getbit (drop (off div 8) data) (off mod 8 + k)"
    using assms by (simp add: read_bits_val_def read_bits_loop_bit)
  then show ?thesis
    by (simp add: getbit_drop flip: add.assoc)
qed

section \<open>The buffer contract, and the list packers\<close>

interpretation wire_bits: bit_field_store write_bits read_bits_val "\<lambda>n. 1 \<le> n \<and> n \<le> 64"
proof (unfold_locales, goal_cases)
  case (1 n data off v i)
  then show ?case by (auto simp: write_bits_bits)
next
  case (2 n off data v)
  then show ?case by (simp add: write_bits_def)
next
  case (3 n off data v)
  then show ?case by (simp add: write_bits_bits)
next
  case (4 n data off k)
  then show ?case by (simp add: read_bits_val_bit)
qed

lemma u64s_loop_write_all: "u64s_loop out off w xs = write_all write_bits out off w xs"
  by (induction xs arbitrary: out off) simp_all

lemma u64s_to_contiguous_bytes_eq:
  "u64s_to_contiguous_bytes xs w = write_all write_bits (replicate (div_ceil (length xs * w) 8) 0) 0 w xs"
  by (simp add: u64s_to_contiguous_bytes_def u64s_loop_write_all)

lemma contiguous_bytes_to_u64s_eq:
  "1 \<le> w \<Longrightarrow> w \<le> 64 \<Longrightarrow> contiguous_bytes_to_u64s data w =
     Inr (map (\<lambda>k. read_bits_val data (k * w) w) [0..<(length data * 8) div w])"
  by (simp add: contiguous_bytes_to_u64s_def read_bits_val collectR_all_Inr)

lemma div_ceil_8_bounds: "n \<le> 8 * div_ceil n 8" "8 * div_ceil n 8 < n + 8"
proof -
  have "n = 8 * (n div 8) + n mod 8" and "n mod 8 < 8"
    by simp_all
  then show "n \<le> 8 * div_ceil n 8" and "8 * div_ceil n 8 < n + 8"
    unfolding div_ceil_def by (cases "n mod 8 = 0"; simp; linarith)+
qed

end
