(* ===== verification/Wire.thy ===== *)
theory Wire
  imports Bits
begin

text \<open>
  The coefficient codecs of \<open>ipir-native-client/src/wire.rs\<close>: fixed-width encoding with a
  canonical decoder, and the rounding of ring coefficients to a transport width and back.
  The random generator of \<open>down_dithered\<close> is ChaCha20, code outside the repository: it is
  the argument \<open>next_u64\<close>, which returns a draw and the next generator state.
\<close>

section \<open>Model\<close>

definition packed_len :: "nat \<Rightarrow> nat \<Rightarrow> nat" where
  "packed_len n bits = div_ceil (n * bits) 8"

definition encode :: "nat list \<Rightarrow> nat \<Rightarrow> byte list" where
  "encode words bits = u64s_to_contiguous_bytes words bits"

definition decode :: "byte list \<Rightarrow> nat \<Rightarrow> nat \<Rightarrow> nat list result" where
  "decode bytes n bits =
     guardR (length bytes \<noteq> packed_len n bits) (InvalidParams ''invalid payload length'')
       (bindR (contiguous_bytes_to_u64s bytes bits) (\<lambda>ws.
          let words = take n ws
          in guardR (encode words bits \<noteq> bytes) (InvalidParams ''noncanonical padding'')
               (Inr words)))"

definition down_word :: "nat \<Rightarrow> nat \<Rightarrow> nat \<Rightarrow> nat" where
  "down_word shift bits x =
     (if shift = 0 then x
      else drop_bit shift (u64 (x + 2 ^ (shift - 1))) AND (2 ^ bits - 1))"

definition down :: "nat list \<Rightarrow> nat \<Rightarrow> nat \<Rightarrow> nat list result" where
  "down words q bits =
     guardR (trailing_zeros q < bits) (Panic ''attempt to subtract with overflow'')
       (Inr (map (down_word (trailing_zeros q - bits) bits) words))"

definition dither_word :: "nat \<Rightarrow> nat \<Rightarrow> nat \<Rightarrow> nat \<Rightarrow> nat" where
  "dither_word shift bits r x =
     (let low = 2 ^ shift - 1; up = (if r AND low < x AND low then 1 else 0)
      in u64 (drop_bit shift x + up) AND (2 ^ bits - 1))"

fun dither_loop :: "('g \<Rightarrow> nat \<times> 'g) \<Rightarrow> nat \<Rightarrow> nat \<Rightarrow> nat list \<Rightarrow> 'g \<Rightarrow> nat list \<times> 'g" where
  "dither_loop next_u64 shift bits [] g = ([], g)"
| "dither_loop next_u64 shift bits (x # xs) g =
     (let (r, g') = next_u64 g; (ys, g'') = dither_loop next_u64 shift bits xs g'
      in (dither_word shift bits r x # ys, g''))"

definition down_dithered ::
    "('g \<Rightarrow> nat \<times> 'g) \<Rightarrow> nat list \<Rightarrow> nat \<Rightarrow> nat \<Rightarrow> 'g \<Rightarrow> (nat list \<times> 'g) result" where
  "down_dithered next_u64 words q bits g =
     guardR (trailing_zeros q < bits) (Panic ''attempt to subtract with overflow'')
       (Inr (dither_loop next_u64 (trailing_zeros q - bits) bits words g))"

definition up :: "nat list \<Rightarrow> nat \<Rightarrow> nat \<Rightarrow> nat list result" where
  "up words q bits =
     guardR (trailing_zeros q < bits) (Panic ''attempt to subtract with overflow'')
       (Inr (map (\<lambda>x. u64 (push_bit (trailing_zeros q - bits) x)) words))"

section \<open>The fixed-width codec\<close>

lemma encode_eq: "encode ws w = write_all write_bits (replicate (packed_len (length ws) w) 0) 0 w ws"
  by (simp add: encode_def u64s_to_contiguous_bytes_eq packed_len_def)

lemma packed_len_room: "n * w \<le> 8 * packed_len n w" "8 * packed_len n w < n * w + 8"
  using div_ceil_8_bounds [of "n * w"] by (simp_all add: packed_len_def)

lemma encode_props:
  assumes "1 \<le> w" and "w \<le> 64"
  shows "length (encode ws w) = packed_len (length ws) w" and "all_below 256 (encode ws w)"
    and "\<And>i. length ws * w \<le> i \<Longrightarrow> \<not> getbit (encode ws w) i"
proof -
  have z: "all_below 256 (replicate (packed_len (length ws) w) 0)"
    by (simp add: all_below_set)
  have ok: "1 \<le> w \<and> w \<le> 64" and pos: "0 < w" using assms by simp_all
  have room: "0 + length ws * w \<le> 8 * length (replicate (packed_len (length ws) w) (0::nat))"
    using packed_len_room(1) by simp
  note facts = ok z room getbit_replicate_0 pos
  show "length (encode ws w) = packed_len (length ws) w"
    using wire_bits.pack_from_length [OF facts] by (simp add: encode_eq)
  show "all_below 256 (encode ws w)"
    using wire_bits.pack_from_bytes [OF facts] by (simp add: encode_eq)
  show "\<not> getbit (encode ws w) i" if "length ws * w \<le> i" for i
    using wire_bits.pack_from_bit [OF facts, of i] that by (simp add: encode_eq)
qed

lemma contiguous_prefix:
  assumes "1 \<le> w" and "w \<le> 64" and "length bytes = packed_len n w"
  shows "\<exists>ws. contiguous_bytes_to_u64s bytes w = Inr ws
    \<and> take n ws = map (\<lambda>k. read_bits_val bytes (k * w) w) [0..<n]"
proof -
  have "n \<le> length bytes * 8 div w"
    using packed_len_room(1) [of n w] assms by (simp add: less_eq_div_iff_mult_less_eq mult.commute)
  then show ?thesis
    using assms by (simp add: contiguous_bytes_to_u64s_eq take_map)
qed

lemma decode_encode:
  assumes "1 \<le> w" and "w \<le> 64" and "all_below (2 ^ w) ws" and "n = length ws"
  shows "decode (encode ws w) n w = Inr ws"
proof -
  let ?b = "encode ws w"
  have len: "length ?b = packed_len n w" using encode_props(1) assms by simp
  obtain us where us: "contiguous_bytes_to_u64s ?b w = Inr us"
    "take n us = map (\<lambda>k. read_bits_val ?b (k * w) w) [0..<n]"
    using contiguous_prefix [OF assms(1,2) len] by blast
  have "read_bits_val ?b (k * w) w = ws ! k" if "k < n" for k
  proof -
    have "read_bits_val ?b (k * w) w = ws ! k mod 2 ^ w"
      unfolding encode_eq using that assms packed_len_room(1) [of n w]
      by (intro wire_bits.rd_pack_from) auto
    also have "\<dots> = ws ! k" using all_below_nth [OF assms(3)] that assms(4) by simp
    finally show ?thesis .
  qed
  then have "take n us = ws"
    using us(2) assms(4) by (intro nth_equalityI) auto
  then show ?thesis using us(1) len by (simp add: decode_def)
qed

lemma decode_InrD:
  assumes "decode bytes n w = Inr ws"
  shows "encode ws w = bytes" and "length bytes = packed_len n w"
  using assms by (auto simp: decode_def Let_def)

lemma decode_Inr_props:
  assumes "1 \<le> w" and "w \<le> 64" and "all_below 256 bytes" and "decode bytes n w = Inr ws"
  shows "length ws = n" and "all_below (2 ^ w) ws"
proof -
  have len: "length bytes = packed_len n w" using assms(4) by (rule decode_InrD)
  obtain us where us: "contiguous_bytes_to_u64s bytes w = Inr us"
    "take n us = map (\<lambda>k. read_bits_val bytes (k * w) w) [0..<n]"
    using contiguous_prefix [OF assms(1,2) len] by blast
  have ws: "ws = map (\<lambda>k. read_bits_val bytes (k * w) w) [0..<n]"
    using assms(4) us by (simp add: decode_def Let_def)
  then show "length ws = n" by simp
  have "read_bits_val bytes off w < 2 ^ w" for off
    using assms by (intro less_expI) (simp add: read_bits_val_bit)
  then show "all_below (2 ^ w) ws" by (simp add: ws all_below_set)
qed

text \<open>A payload with zero padding decodes; a set padding bit is refused.\<close>

lemma decode_total:
  assumes "1 \<le> w" and "w \<le> 64" and "all_below 256 bytes" and "length bytes = packed_len n w"
    and pad: "\<And>i. n * w \<le> i \<Longrightarrow> \<not> getbit bytes i"
  shows "\<exists>ws. decode bytes n w = Inr ws"
proof -
  obtain us where us: "contiguous_bytes_to_u64s bytes w = Inr us"
    "take n us = map (\<lambda>k. read_bits_val bytes (k * w) w) [0..<n]"
    using contiguous_prefix [OF assms(1,2,4)] by blast
  have "encode (take n us) w = bytes"
    using wire_bits.pack_from_rd [of w bytes n] assms packed_len_room(1) [of n w] us(2)
    by (simp add: encode_eq)
  then show ?thesis using us(1) assms(4) by (simp add: decode_def Let_def)
qed

section \<open>Rounding\<close>

lemma down_ok: "k < 64 \<Longrightarrow> bits \<le> k \<Longrightarrow> down ws (2 ^ k) bits = Inr (map (down_word (k - bits) bits) ws)"
  by (simp add: down_def)

lemma up_ok: "k < 64 \<Longrightarrow> bits \<le> k \<Longrightarrow> up ws (2 ^ k) bits = Inr (map (\<lambda>x. u64 (push_bit (k - bits) x)) ws)"
  by (simp add: up_def)

lemma down_word_less: "x < 2 ^ k \<Longrightarrow> bits \<le> k \<Longrightarrow> down_word (k - bits) bits x < 2 ^ bits"
  by (auto simp: down_word_def and_exp_minus_Suc_0)

text \<open>Lifting a transport word is exact: no bit is lost below the ring width.\<close>

lemma up_word: "y < 2 ^ bits \<Longrightarrow> bits \<le> k \<Longrightarrow> k < 64 \<Longrightarrow> u64 (push_bit (k - bits) y) = y * 2 ^ (k - bits)"
proof -
  assume h: "y < 2 ^ bits" "bits \<le> k" "k < 64"
  have "y * 2 ^ (k - bits) < 2 ^ bits * 2 ^ (k - bits)" using h by simp
  also have "\<dots> = 2 ^ k" using h by (simp flip: power_add)
  also have "\<dots> \<le> (2::nat) ^ 64" using h by (intro power_increasing) auto
  finally show ?thesis by (simp add: push_bit_eq_mult cast_simps)
qed

lemma down_word_value:
  assumes "x < 2 ^ k" and "bits < k" and "k < 64"
  shows "down_word (k - bits) bits x = ((x + 2 ^ (k - bits - 1)) div 2 ^ (k - bits)) mod 2 ^ bits"
proof -
  have "x + 2 ^ (k - bits - 1) < 2 ^ k + 2 ^ k"
    using assms by (intro add_strict_mono) (auto intro: power_strict_increasing)
  also have "\<dots> \<le> 2 ^ 64"
    using power_increasing [of "Suc k" 64 "2::nat"] assms by simp
  finally show ?thesis
    using assms by (simp add: down_word_def and_exp_minus_Suc_0 cast_simps drop_bit_eq_div)
qed

lemma mod_mult_exp: "(y mod 2 ^ b) * 2 ^ s mod 2 ^ (b + s) = y * 2 ^ s mod 2 ^ (b + s)" for y :: nat
  by (simp add: power_add mult.commute [of _ "2 ^ s"] mod_mult_mult1)

lemma round_error:
  fixes x :: nat
  assumes "0 < s"
  shows "\<bar>int ((x + 2 ^ (s - 1)) div 2 ^ s * 2 ^ s) - int x\<bar> \<le> 2 ^ (s - 1)"
proof -
  define h where "h = (2::nat) ^ (s - 1)"
  have s: "(2::nat) ^ s = 2 * h" using assms by (simp add: h_def flip: power_Suc)
  define y where "y = x + h"
  have "y div (2 * h) * (2 * h) = y - y mod (2 * h)" by (simp add: minus_mod_eq_div_mult)
  moreover have "y mod (2 * h) < 2 * h" by (simp add: h_def)
  ultimately have "\<bar>int (y div (2 * h) * (2 * h)) - int x\<bar> \<le> int h"
    by (simp add: y_def of_nat_diff)
  then show ?thesis unfolding s y_def by (simp add: h_def)
qed

text \<open>Rounding to the transport width and back moves a coefficient by at most half a
  transport unit, modulo the ring modulus.\<close>

lemma down_up_word_near:
  assumes "x < 2 ^ k" and "bits \<le> k" and "k < 64"
  shows "near (2 ^ k) (if bits = k then 0 else 2 ^ (k - bits - 1)) (int x)
           (int (u64 (push_bit (k - bits) (down_word (k - bits) bits x))))"
proof (cases "bits = k")
  case True
  then show ?thesis using assms up_word [of x bits k] by (simp add: down_word_def near_refl)
next
  case False
  let ?s = "k - bits"
  let ?y = "(x + 2 ^ (?s - 1)) div 2 ^ ?s"
  have pos: "0 < ?s" and lt: "bits < k" using assms False by simp_all
  have dn: "down_word ?s bits x = ?y mod 2 ^ bits"
    using assms(1) lt assms(3) by (rule down_word_value)
  then have val: "u64 (push_bit ?s (down_word ?s bits x)) = (?y mod 2 ^ bits) * 2 ^ ?s"
    using assms up_word [of "?y mod 2 ^ bits" bits k] by simp
  have "(?y mod 2 ^ bits) * 2 ^ ?s mod 2 ^ k = ?y * 2 ^ ?s mod 2 ^ k"
    using mod_mult_exp [of ?y bits ?s] assms(2) by simp
  then have congr: "int ((?y mod 2 ^ bits) * 2 ^ ?s) mod int (2 ^ k) = int (?y * 2 ^ ?s) mod int (2 ^ k)"
    by (metis of_nat_mod)
  have "near (2 ^ k) (2 ^ (?s - 1)) (int x) (int ((?y mod 2 ^ bits) * 2 ^ ?s))"
  proof (rule nearI)
    show "\<bar>int (?y * 2 ^ ?s) - int x\<bar> \<le> 2 ^ (?s - 1)"
      using pos by (rule round_error)
    show "int ((?y mod 2 ^ bits) * 2 ^ ?s) mod int (2 ^ k)
        = (int x + (int (?y * 2 ^ ?s) - int x)) mod int (2 ^ k)"
      unfolding congr by (simp only: add_diff_eq add_diff_cancel_left')
  qed
  then show ?thesis using False unfolding val by simp
qed

section \<open>Dithering\<close>

lemma dither_word_cases:
  assumes "x < 2 ^ k" and "bits \<le> k" and "k < 64"
  shows "dither_word (k - bits) bits r x =
    (x div 2 ^ (k - bits) + (if r mod 2 ^ (k - bits) < x mod 2 ^ (k - bits) then 1 else 0)) mod 2 ^ bits"
proof -
  have "x div 2 ^ (k - bits) + 1 < 2 ^ 64"
  proof -
    have "x div 2 ^ (k - bits) \<le> x" by (simp add: div_le_dividend)
    also have "x < 2 ^ k" by (fact assms(1))
    also have "(2::nat) ^ k \<le> 2 ^ 63" using assms(3) by (intro power_increasing) auto
    finally show ?thesis by simp
  qed
  then show ?thesis
    by (simp add: dither_word_def Let_def and_exp_minus_Suc_0 cast_simps drop_bit_eq_div)
qed

text \<open>Of the 64-bit draws, the ones whose low \<open>s\<close> bits are below \<open>c\<close> are \<open>c\<close> out of every \<open>2 ^ s\<close>.\<close>

lemma card_low_below:
  fixes c :: nat
  assumes "c \<le> 2 ^ s"
  shows "card {r. r < 2 ^ (s + t) \<and> r mod 2 ^ s < c} = 2 ^ t * c"
proof -
  have less: "2 ^ s * a + b < 2 ^ (s + t)" if "a < 2 ^ t" "b < 2 ^ s" for a b :: nat
  proof -
    have "2 ^ s * a + b < 2 ^ s * Suc a" using that(2) by simp
    also have "\<dots> \<le> 2 ^ s * 2 ^ t" using that(1) by (intro mult_le_mono2) simp
    finally show ?thesis by (simp add: power_add)
  qed
  let ?f = "\<lambda>(a, b). 2 ^ s * a + b"
  have "{r. r < 2 ^ (s + t) \<and> r mod 2 ^ s < c} = ?f ` ({..<2 ^ t} \<times> {..<c})"
  proof (intro set_eqI iffI)
    fix r assume "r \<in> {r. r < 2 ^ (s + t) \<and> r mod 2 ^ s < c}"
    then have "r = ?f (r div 2 ^ s, r mod 2 ^ s)" "r div 2 ^ s < 2 ^ t" "r mod 2 ^ s < c"
      by (auto simp: less_mult_imp_div_less power_add mult.commute)
    then show "r \<in> ?f ` ({..<2 ^ t} \<times> {..<c})" by blast
  next
    fix r assume "r \<in> ?f ` ({..<2 ^ t} \<times> {..<c})"
    then obtain a b where r: "r = 2 ^ s * a + b" "a < 2 ^ t" "b < c" by auto
    then have "b < 2 ^ s" using assms by simp
    then show "r \<in> {r. r < 2 ^ (s + t) \<and> r mod 2 ^ s < c}" using r less by simp
  qed
  moreover have "inj_on ?f ({..<2 ^ t} \<times> {..<c})"
  proof (rule inj_onI, clarsimp)
    fix a b a' b' :: nat
    assume h: "b < c" "b' < c" "2 ^ s * a + b = 2 ^ s * a' + b'"
    then have "b < 2 ^ s" "b' < 2 ^ s" using assms by simp_all
    then have "(2 ^ s * a + b) div 2 ^ s = a" "(2 ^ s * a' + b') div 2 ^ s = a'" by simp_all
    then show "a = a' \<and> b = b'" using h(3) by simp
  qed
  ultimately show ?thesis by (simp add: card_image)
qed

text \<open>A coefficient rounded up or down to the transport width.\<close>

definition rounded :: "nat \<Rightarrow> nat \<Rightarrow> bool \<Rightarrow> nat \<Rightarrow> nat" where
  "rounded s bits u x = (x div 2 ^ s + (if u then 1 else 0)) mod 2 ^ bits"

lemma dither_word_card:
  assumes x: "x < 2 ^ k" and bits: "1 \<le> bits" "bits \<le> k" "k < 64"
  shows "card {r. r < 2 ^ 64 \<and> dither_word (k - bits) bits r x = rounded (k - bits) bits u x}
    = 2 ^ (64 - (k - bits)) * (if u then x mod 2 ^ (k - bits) else 2 ^ (k - bits) - x mod 2 ^ (k - bits))"
proof -
  let ?s = "k - bits"
  let ?below = "{r. r < 2 ^ 64 \<and> r mod 2 ^ ?s < x mod 2 ^ ?s}"
  have c: "x mod 2 ^ ?s \<le> 2 ^ ?s" by (simp add: less_imp_le)
  have w: "?s + (64 - ?s) = 64" using bits(3) by simp
  have low: "card ?below = 2 ^ (64 - ?s) * (x mod 2 ^ ?s)" using card_low_below [OF c, of "64 - ?s"] unfolding w .
  have "x div 2 ^ ?s < 2 ^ bits"
    using x bits(2) by (intro less_mult_imp_div_less) (simp flip: power_add)
  moreover have "(2::nat) ^ 1 \<le> 2 ^ bits" using bits(1) by (intro power_increasing) simp_all
  ultimately have ne: "rounded ?s bits True x \<noteq> rounded ?s bits False x"
    by (cases "Suc (x div 2 ^ ?s) = 2 ^ bits") (auto simp: rounded_def)
  have v: "dither_word ?s bits r x = rounded ?s bits (r mod 2 ^ ?s < x mod 2 ^ ?s) x" for r
    unfolding rounded_def using x bits(2,3) by (rule dither_word_cases)
  show ?thesis
  proof (cases u)
    case True
    have "{r. r < 2 ^ 64 \<and> dither_word ?s bits r x = rounded ?s bits u x} = ?below"
      using ne True by (auto simp: v) (metis (full_types))
    then show ?thesis using low True by simp
  next
    case False
    have "{r. r < 2 ^ 64 \<and> dither_word ?s bits r x = rounded ?s bits u x} = {..<2 ^ 64} - ?below"
      using ne False by (auto simp: v)
    moreover have "card ({..<2 ^ 64} - ?below) = card {..<(2::nat) ^ 64} - card ?below" by (rule card_Diff_subset) auto
    moreover have "(2::nat) ^ 64 = 2 ^ (64 - ?s) * 2 ^ ?s" unfolding power_add [symmetric] using bits(3) by simp
    ultimately show ?thesis using low False by (simp add: diff_mult_distrib2)
  qed
qed

text \<open>A generator that plays back a tape of draws.\<close>

definition play :: "nat list \<Rightarrow> nat \<times> nat list" where
  "play tape = (hd tape, tl tape)"

definition tapes :: "nat \<Rightarrow> nat list set" where
  "tapes n = {tape. length tape = n \<and> all_below (2 ^ 64) tape}"

lemma dither_loop_card:
  assumes bits: "1 \<le> bits" "bits \<le> k" "k < 64"
  shows "all_below (2 ^ k) xs \<Longrightarrow> length ups = length xs \<Longrightarrow>
    card {tape \<in> tapes (length xs). dither_loop play (k - bits) bits xs tape = (map2 (rounded (k - bits) bits) ups xs, [])}
    = (\<Prod>(u, x)\<leftarrow>zip ups xs. 2 ^ (64 - (k - bits)) * (if u then x mod 2 ^ (k - bits) else 2 ^ (k - bits) - x mod 2 ^ (k - bits)))"
proof (induction xs arbitrary: ups)
  case Nil
  have "{tape \<in> tapes 0. dither_loop play (k - bits) bits [] tape = ([], [])} = {[]}" by (auto simp: tapes_def all_below_set)
  then show ?case using Nil by simp
next
  case (Cons x xs)
  let ?s = "k - bits"
  obtain u us where ups: "ups = u # us" "length us = length xs" using Cons.prems(2) by (cases ups) auto
  let ?A = "{r. r < 2 ^ 64 \<and> dither_word ?s bits r x = rounded ?s bits u x}"
  let ?B = "{tape \<in> tapes (length xs). dither_loop play ?s bits xs tape = (map2 (rounded ?s bits) us xs, [])}"
  have "{tape \<in> tapes (length (x # xs)). dither_loop play ?s bits (x # xs) tape = (map2 (rounded ?s bits) ups (x # xs), [])}
      = (\<lambda>(r, tape). r # tape) ` (?A \<times> ?B)"
  proof (intro set_eqI iffI)
    fix tape
    assume t: "tape \<in> {tape \<in> tapes (length (x # xs)). dither_loop play ?s bits (x # xs) tape = (map2 (rounded ?s bits) ups (x # xs), [])}"
    then obtain r rest where tape: "tape = r # rest" by (cases tape) (auto simp: tapes_def)
    then have "r \<in> ?A \<and> rest \<in> ?B" using t by (auto simp: tapes_def play_def ups(1) all_below_set split: prod.splits)
    then show "tape \<in> (\<lambda>(r, tape). r # tape) ` (?A \<times> ?B)" using tape by auto
  next
    fix tape
    assume "tape \<in> (\<lambda>(r, tape). r # tape) ` (?A \<times> ?B)"
    then show "tape \<in> {tape \<in> tapes (length (x # xs)). dither_loop play ?s bits (x # xs) tape = (map2 (rounded ?s bits) ups (x # xs), [])}"
      by (auto simp: tapes_def play_def ups(1) all_below_set)
  qed
  then have "card {tape \<in> tapes (length (x # xs)). dither_loop play ?s bits (x # xs) tape = (map2 (rounded ?s bits) ups (x # xs), [])}
      = card ((\<lambda>(r, tape). r # tape) ` (?A \<times> ?B))" by (rule arg_cong)
  also have "\<dots> = card ?A * card ?B" by (subst card_image) (auto simp: inj_on_def card_cartesian_product)
  finally show ?case
    using Cons.IH [OF _ ups(2)] Cons.prems(1) dither_word_card [OF _ bits, of x u] by (simp add: ups(1) all_below_set)
qed

lemma dither_loop_length: "length (fst (dither_loop next_u64 s b xs g)) = length xs"
  by (induction xs arbitrary: g) (simp_all add: Let_def case_prod_unfold)

section \<open>Properties\<close>

text \<open>C18. The fixed-width codec is lossless at every width from 1 to 64: canonical words
  come back from their encoding, which has the announced length.\<close>

theorem wire_roundtrip:
  assumes "1 \<le> bits" and "bits \<le> 64" and "all_below (2 ^ bits) words"
  shows "decode (encode words bits) (length words) bits = Inr words
    \<and> length (encode words bits) = packed_len (length words) bits"
  using decode_encode [OF assms refl] encode_props(1) [OF assms(1,2)] by simp

theorem wire_roundtrip_witness:
  "decode (encode [5, 0, 8191, 4096] 13) (Suc (Suc (Suc (Suc 0)))) 13 = Inr [5, 0, 8191, 4096]
    \<and> length (encode [5, 0, 8191, 4096] 13) = 7"
  using wire_roundtrip [of 13 "[5, 0, 8191, 4096]"]
  by (simp add: packed_len_def div_ceil_def)

text \<open>C19. The decoder accepts exactly the canonical payloads: the announced length and no
  bit set beyond the last word. What it accepts re-encodes to the same bytes, and the
  words are in range, so two different payloads never decode to the same words.\<close>

theorem decode_canonical:
  assumes "1 \<le> bits" and "bits \<le> 64" and "all_below 256 bytes"
  shows "((\<exists>words. decode bytes n bits = Inr words) \<longleftrightarrow>
           length bytes = packed_len n bits \<and> (\<forall>i. n * bits \<le> i \<longrightarrow> \<not> getbit bytes i))
    \<and> (\<forall>words. decode bytes n bits = Inr words \<longrightarrow>
           encode words bits = bytes \<and> length words = n \<and> all_below (2 ^ bits) words)"
proof (intro conjI allI impI)
  fix words assume d: "decode bytes n bits = Inr words"
  show "encode words bits = bytes" using d by (rule decode_InrD)
  show "length words = n" "all_below (2 ^ bits) words"
    using decode_Inr_props [OF assms d] by simp_all
next
  show "(\<exists>words. decode bytes n bits = Inr words) \<longleftrightarrow>
      length bytes = packed_len n bits \<and> (\<forall>i. n * bits \<le> i \<longrightarrow> \<not> getbit bytes i)" (is "?L \<longleftrightarrow> ?R")
  proof
    assume ?L
    then obtain words where d: "decode bytes n bits = Inr words" ..
    have "\<not> getbit bytes i" if "n * bits \<le> i" for i
      using encode_props(3) [OF assms(1,2), of words i] decode_InrD [OF d]
        decode_Inr_props(1) [OF assms d] that by simp
    then show ?R using decode_InrD(2) [OF d] by simp
  next
    assume ?R
    then show ?L using decode_total [OF assms] by blast
  qed
qed

theorem decode_canonical_witness:
  "decode [255, 31] 1 13 = Inr [8191] \<and> encode [8191] 13 = [255, 31]
    \<and> \<not> (\<exists>words. decode [255, 63] 1 13 = Inr words)"
proof -
  have "decode [255, 31] 1 13 = Inr [8191]" by code_simp
  moreover have "getbit [255, 63] 13" by code_simp
  ultimately show ?thesis
    using decode_canonical [of 13 "[255, 31]" 1] decode_canonical [of 13 "[255, 63]" 1] by auto
qed

text \<open>C20. Rounding to a transport width and lifting back: both succeed on canonical
  coefficients of a power-of-two ring, the transported words fit the width, and every
  coefficient moves by at most half a transport unit modulo the ring modulus.\<close>

theorem down_up_close:
  assumes "k < 64" and "bits \<le> k" and "all_below (2 ^ k) words"
  shows "\<exists>sent lifted. down words (2 ^ k) bits = Inr sent \<and> up sent (2 ^ k) bits = Inr lifted
    \<and> length lifted = length words \<and> all_below (2 ^ bits) sent
    \<and> list_all2 (\<lambda>x y. near (2 ^ k) (if bits = k then 0 else 2 ^ (k - bits - 1)) (int x) (int y)) words lifted"
proof (intro exI conjI)
  let ?sent = "map (down_word (k - bits) bits) words"
  show "down words (2 ^ k) bits = Inr ?sent" using assms(1,2) by (rule down_ok)
  show "up ?sent (2 ^ k) bits = Inr (map (\<lambda>x. u64 (push_bit (k - bits) x)) ?sent)"
    using assms(1,2) by (rule up_ok)
  show "all_below (2 ^ bits) ?sent"
    using assms down_word_less [of _ k bits] by (auto simp: all_below_set)
  show "list_all2 (\<lambda>x y. near (2 ^ k) (if bits = k then 0 else 2 ^ (k - bits - 1)) (int x) (int y)) words
      (map (\<lambda>x. u64 (push_bit (k - bits) x)) ?sent)"
    using down_up_word_near [OF _ assms(2,1)] assms(3)
    by (simp add: list_all2_conv_all_nth all_below_set)
qed simp

theorem down_up_close_witness:
  "\<exists>sent lifted. down [5, 255, 128] (2 ^ 8) 4 = Inr sent \<and> up sent (2 ^ 8) 4 = Inr lifted
    \<and> length lifted = Suc (Suc (Suc 0)) \<and> all_below 16 sent
    \<and> list_all2 (\<lambda>x y. near (2 ^ 8) (if (4::nat) = 8 then 0 else 2 ^ (8 - 4 - 1)) (int x) (int y)) [5, 255, 128] lifted"
  using down_up_close [of 8 4 "[5, 255, 128]"] by simp

text \<open>C21. Dithered rounding is unbiased, independently for every coefficient: over all tapes of 64-bit draws, one
  draw for each word and none left over, the number of tapes on which a word list is rounded up at
  exactly the chosen places and down at all others is the product, over its words, of the dropped part
  of a word rounded up, or of its distance to the next unit for a word rounded down, times one fixed
  power of two; so each word goes up with probability its dropped part over the unit, and the expected
  transported value is the word itself.\<close>

theorem dither_unbiased:
  assumes "all_below (2 ^ k) words" and "1 \<le> bits" and "bits \<le> k" and "k < 64" and "length ups = length words"
  defines "s \<equiv> k - bits"
  shows "card {tape \<in> tapes (length words). down_dithered play words (2 ^ k) bits tape
      = Inr (map2 (\<lambda>u x. (x div 2 ^ s + (if u then 1 else 0)) mod 2 ^ bits) ups words, [])}
    = (\<Prod>(u, x)\<leftarrow>zip ups words. 2 ^ (64 - s) * (if u then x mod 2 ^ s else 2 ^ s - x mod 2 ^ s))"
proof -
  have "down_dithered play words (2 ^ k) bits tape = Inr (dither_loop play s bits words tape)" for tape
    using assms(3,4) by (simp add: down_dithered_def s_def)
  then show ?thesis
    using dither_loop_card [OF assms(2-4,1,5)] unfolding s_def rounded_def [abs_def] by simp
qed

theorem dither_unbiased_witness:
  "card {tape \<in> tapes (Suc (Suc 0)). down_dithered play [203, 16] 256 4 tape = Inr ([13, 1], [])} = 2 ^ 60 * 11 * (2 ^ 60 * 16)"
proof -
  have "all_below (2 ^ 8) [203, 16]" by (simp add: all_below_set)
  then show ?thesis using dither_unbiased [of 8 "[203, 16]" 4 "[True, False]"] by simp
qed

end
