(* ===== verification/Kernel.thy ===== *)
theory Kernel
  imports Ipir_Prelude
begin

text \<open>
  The first-dimension kernels of \<open>simplepir-kernel\<close>: the trait \<open>FirstDimKernel\<close> with its
  exact power-of-two default method, the scalar reference kernel, the portable
  delayed-reduction kernel and the 8-lane AVX-512 kernel. The database is column-major.
  \<open>barrett q x\<close> stands for \<open>spiral_rs::arith::barrett_reduction_u128\<close>, code outside the
  repository that reduces a 128-bit value modulo the backend's modulus; \<open>threads\<close> is the
  size of the Rayon pool. The modulus of a validated parameter set is not zero.
\<close>

section \<open>Model\<close>

subsection \<open>The trait and its power-of-two method\<close>

definition kernel_asserts :: "nat list \<Rightarrow> nat \<Rightarrow> nat \<Rightarrow> nat list \<Rightarrow> nat list \<Rightarrow> 'a result \<Rightarrow> 'a result" where
  "kernel_asserts db rows cols query out body =
     guardR (length query \<noteq> rows) (Panic ''query length must match rows'')
       (guardR (length db \<noteq> rows * cols) (Panic ''database shape mismatch'')
         (guardR (length out \<noteq> cols) (Panic ''output length must match cols'') body))"

definition try_multiply_power_of_two ::
    "nat \<Rightarrow> nat list \<Rightarrow> nat \<Rightarrow> nat \<Rightarrow> nat list \<Rightarrow> nat list \<Rightarrow> nat list result" where
  "try_multiply_power_of_two q db rows cols query out =
     guardR (\<not> is_power_of_two q \<or> q < 2 \<or> rows = 0 \<or> cols = 0
             \<or> checked_mul rows cols \<noteq> Some (length db) \<or> length query \<noteq> rows
             \<or> length out \<noteq> cols \<or> list_ex (\<lambda>x. x \<ge> q) query)
       (KernelError ''invalid native matrix/query shape'')
       (Inr (map (\<lambda>col. fold (\<lambda>(a, b) sum. wrapping_add sum (wrapping_mul a b)) (zip col query) 0
                          AND (q - 1))
              (chunks_exact rows db)))"

subsection \<open>The scalar kernel\<close>

definition scalar_column :: "nat \<Rightarrow> nat list \<Rightarrow> nat \<Rightarrow> nat list \<Rightarrow> nat" where
  "scalar_column modulus db col_offset query =
     u64 (fold (\<lambda>row acc. u128 (acc + query ! row * db ! (col_offset + row)) mod modulus)
            [0..<length query] 0)"

definition scalar_multiply_query ::
    "nat \<Rightarrow> nat list \<Rightarrow> nat \<Rightarrow> nat \<Rightarrow> nat list \<Rightarrow> nat \<Rightarrow> nat list \<Rightarrow> nat list result" where
  "scalar_multiply_query q db rows_padded cols query element_max out =
     kernel_asserts db rows_padded cols query out
       (Inr (map (\<lambda>col. scalar_column q db (col * rows_padded) query) [0..<cols]))"

subsection \<open>The portable delayed-reduction kernel\<close>

definition MIN_BAND_BYTES :: nat where
  "MIN_BAND_BYTES = 2 ^ 21"

definition DEFAULT_CHUNK_ROWS :: nat where
  "DEFAULT_CHUNK_ROWS = 2 ^ 16"

definition band_cols :: "nat \<Rightarrow> nat \<Rightarrow> nat \<Rightarrow> nat \<Rightarrow> nat" where
  "band_cols threads size_of_T rows_padded cols =
     (if cols = 0 \<or> rows_padded = 0 then 1
      else let col_bytes = max (min (rows_padded * size_of_T) (2 ^ 64 - 1)) 1;
               by_size = max (div_ceil MIN_BAND_BYTES col_bytes) 1;
               by_threads = max (div_ceil cols (max threads 1)) 1
           in min (max (min by_size by_threads) 1) cols)"

definition add_mod :: "nat \<Rightarrow> nat \<Rightarrow> nat \<Rightarrow> nat" where
  "add_mod lhs rhs modulus =
     (let s = u128 (lhs + rhs) in if s \<ge> modulus then u64 (s - modulus) else u64 s)"

definition needs_wide_products :: "nat \<Rightarrow> bool" where
  "needs_wide_products max_value \<longleftrightarrow> (2 ^ 32 - 1) * max_value > 2 ^ 64 - 1"

definition max_safe_chunk_rows_for :: "nat \<Rightarrow> nat" where
  "max_safe_chunk_rows_for element_max =
     (if element_max = 0 then 2 ^ 64 - 1
      else let max_term = (2 ^ 32 - 1) * element_max
           in if max_term > 2 ^ 64 - 1 then 1 else (2 ^ 64 - 1) div max_term)"

definition chunk_column ::
    "(nat \<Rightarrow> nat \<Rightarrow> nat) \<Rightarrow> nat \<Rightarrow> nat list \<Rightarrow> nat list \<Rightarrow> nat \<Rightarrow> nat \<Rightarrow> nat \<Rightarrow> nat \<Rightarrow> nat" where
  "chunk_column barrett q query db_band col_offset row_start row_end out_col =
     (let (total_lo, total_hi) = fold (\<lambda>row (lo, hi).
            (u64 (lo + u64 (u32 (query ! row) * db_band ! (col_offset + row))),
             u64 (hi + u64 (drop_bit 32 (query ! row) * db_band ! (col_offset + row)))))
            [row_start..<row_end] (0, 0);
          chunk_sum = u128 (total_lo + u128 (push_bit 32 total_hi))
      in add_mod out_col (barrett q chunk_sum) q)"

text \<open>\<open>par_chunks\<close>: like \<open>chunks_exact\<close> with the short remainder kept.\<close>

function par_chunks :: "nat \<Rightarrow> 'a list \<Rightarrow> 'a list list" where
  "par_chunks n xs = (if xs = [] \<or> n = 0 then [] else take n xs # par_chunks n (drop n xs))"
  by pat_completeness auto
termination
  by (relation "measure (\<lambda>(n, xs). length xs)") auto

declare par_chunks.simps [simp del]

definition chunk_band ::
    "(nat \<Rightarrow> nat \<Rightarrow> nat) \<Rightarrow> nat \<Rightarrow> nat \<Rightarrow> nat list \<Rightarrow> nat \<Rightarrow> nat \<Rightarrow> nat list \<times> nat list \<Rightarrow> nat list" where
  "chunk_band barrett q rows_padded query row_start row_end b =
     (case b of (out_band, db_band) \<Rightarrow>
        map (\<lambda>band_col. chunk_column barrett q query db_band (band_col * rows_padded)
               row_start row_end (out_band ! band_col)) [0..<length out_band])"

text \<open>The row windows, outermost and sequential. \<open>chunk_rows\<close> is at least one, which the
  caller's \<open>.max(1)\<close> ensures.\<close>

function chunk_loop ::
    "(nat \<Rightarrow> nat \<Rightarrow> nat) \<Rightarrow> nat \<Rightarrow> nat \<Rightarrow> nat \<Rightarrow> nat \<Rightarrow> nat list \<Rightarrow> nat list \<Rightarrow> nat \<Rightarrow> nat list \<Rightarrow> nat list" where
  "chunk_loop barrett q bcols rows_padded chunk_rows db query row_start out =
     (if row_start < rows_padded \<and> 0 < chunk_rows then
        let row_end = min (row_start + chunk_rows) rows_padded
        in chunk_loop barrett q bcols rows_padded chunk_rows db query row_end
             (concat (map (chunk_band barrett q rows_padded query row_start row_end)
                (zip (par_chunks bcols out) (par_chunks (bcols * rows_padded) db))))
      else out)"
  by pat_completeness auto
termination
  by (relation "measure (\<lambda>(b, q, bc, rows, cr, db, query, rs, out). rows - rs)") auto

declare chunk_loop.simps [simp del]

definition chunked_multiply_query ::
    "(nat \<Rightarrow> nat \<Rightarrow> nat) \<Rightarrow> nat \<Rightarrow> nat \<Rightarrow> nat \<Rightarrow> nat \<Rightarrow> nat \<Rightarrow> nat list \<Rightarrow> nat \<Rightarrow> nat \<Rightarrow> nat list \<Rightarrow> nat \<Rightarrow> nat list \<Rightarrow> nat list result" where
  "chunked_multiply_query barrett threads size_of_T max_value chunk_rows0 q db rows_padded cols query element_max out =
     kernel_asserts db rows_padded cols query out
       (if needs_wide_products max_value
        then Inr (map (\<lambda>col. scalar_column q db (col * rows_padded) query) [0..<cols])
        else let chunk_rows = max (min (min chunk_rows0 (max_safe_chunk_rows_for element_max)) rows_padded) 1
             in Inr (chunk_loop barrett q (band_cols threads size_of_T rows_padded cols) rows_padded
                  chunk_rows db query 0 (replicate (length out) 0)))"

subsection \<open>The 8-lane kernel\<close>

text \<open>One step of the vector body: every lane multiplies the low 32 bits of its query
  limb (\<open>_mm512_mul_epu32\<close>) by its database word and adds with wrap-around.\<close>

definition lane_step :: "(nat \<Rightarrow> nat) \<Rightarrow> nat list \<Rightarrow> nat list \<Rightarrow> nat \<Rightarrow> nat \<Rightarrow> nat list \<Rightarrow> nat list" where
  "lane_step limb query db col_offset row lanes =
     map (\<lambda>l. u64 (lanes ! l + limb (query ! (row + l)) * db ! (col_offset + row + l))) [0..<8]"

definition lane_total :: "(nat \<Rightarrow> nat) \<Rightarrow> nat list \<Rightarrow> nat list \<Rightarrow> nat \<Rightarrow> nat \<Rightarrow> nat \<Rightarrow> nat \<Rightarrow> nat" where
  "lane_total limb query db col_offset row_start vector_end row_end =
     (let lanes = fold (\<lambda>k. lane_step limb query db col_offset (row_start + 8 * k))
                    [0..<(vector_end - row_start) div 8] (replicate 8 0);
          res = fold (\<lambda>x s. u64 (s + x)) lanes 0
      in fold (\<lambda>row r. u64 (r + u64 (limb (query ! row) * db ! (col_offset + row)))) [vector_end..<row_end] res)"

definition avx512_column ::
    "(nat \<Rightarrow> nat \<Rightarrow> nat) \<Rightarrow> nat \<Rightarrow> nat list \<Rightarrow> nat list \<Rightarrow> nat \<Rightarrow> nat \<Rightarrow> nat \<Rightarrow> nat \<Rightarrow> nat" where
  "avx512_column barrett q query db col_offset row_start row_end out_col =
     (let vector_end = row_start + ((row_end - row_start) div 8) * 8;
          res_lo = lane_total u32 query db col_offset row_start vector_end row_end;
          res_hi = lane_total (drop_bit 32) query db col_offset row_start vector_end row_end;
          chunk_sum = u128 (res_lo + u128 (push_bit 32 res_hi))
      in add_mod out_col (barrett q chunk_sum) q)"

function avx512_loop ::
    "(nat \<Rightarrow> nat \<Rightarrow> nat) \<Rightarrow> nat \<Rightarrow> nat \<Rightarrow> nat \<Rightarrow> nat list \<Rightarrow> nat list \<Rightarrow> nat \<Rightarrow> nat list \<Rightarrow> nat list" where
  "avx512_loop barrett q rows_padded chunk_rows db query row_start out =
     (if row_start < rows_padded \<and> 0 < chunk_rows then
        let row_end = min (row_start + chunk_rows) rows_padded
        in avx512_loop barrett q rows_padded chunk_rows db query row_end
             (map (\<lambda>col. avx512_column barrett q query db (col * rows_padded) row_start row_end (out ! col))
                [0..<length out])
      else out)"
  by pat_completeness auto
termination
  by (relation "measure (\<lambda>(b, q, rows, cr, db, query, rs, out). rows - rs)") auto

declare avx512_loop.simps [simp del]

definition multiply_query_avx512_u16 ::
    "(nat \<Rightarrow> nat \<Rightarrow> nat) \<Rightarrow> nat \<Rightarrow> nat list \<Rightarrow> nat \<Rightarrow> nat \<Rightarrow> nat list \<Rightarrow> nat \<Rightarrow> nat list" where
  "multiply_query_avx512_u16 barrett q db rows_padded cols query chunk_rows0 =
     (let chunk_rows1 = max chunk_rows0 8;
          chunk_rows2 = chunk_rows1 - chunk_rows1 mod 8;
          chunk_rows = max chunk_rows2 8
      in avx512_loop barrett q rows_padded chunk_rows db query 0 (replicate cols 0))"

definition avx512_multiply_query ::
    "(nat \<Rightarrow> nat \<Rightarrow> nat) \<Rightarrow> bool \<Rightarrow> nat \<Rightarrow> nat \<Rightarrow> nat \<Rightarrow> nat list \<Rightarrow> nat \<Rightarrow> nat \<Rightarrow> nat list \<Rightarrow> nat \<Rightarrow> nat list \<Rightarrow> nat list result" where
  "avx512_multiply_query barrett is_supported threads chunk_rows0 q db rows_padded cols query element_max out =
     kernel_asserts db rows_padded cols query out
       (guardR (\<not> is_supported) (Panic ''U16Avx512Kernel requires AVX512F CPU support'')
         (let safe_rows = max_safe_chunk_rows_for element_max
          in guardR (safe_rows < 8) (Panic ''delayed-reduction window is narrower than one vector step'')
               (let chunk_rows = max (min (min chunk_rows0 safe_rows) rows_padded) 8;
                    bcols = band_cols threads 2 rows_padded cols
                in guardR (bcols * rows_padded = 0) (Panic ''chunk_size must not be zero'')
                     (Inr (concat (map (\<lambda>(out_band, db_band).
                        multiply_query_avx512_u16 barrett q db_band rows_padded (length out_band) query chunk_rows)
                      (zip (par_chunks bcols out) (par_chunks (bcols * rows_padded) db))))))))"

section \<open>The reference product\<close>

definition dot_range :: "nat list \<Rightarrow> nat list \<Rightarrow> nat \<Rightarrow> nat \<Rightarrow> nat \<Rightarrow> nat" where
  "dot_range query db off lo hi = (\<Sum>row = lo..<hi. query ! row * db ! (off + row))"

definition first_dim_spec :: "nat \<Rightarrow> nat list \<Rightarrow> nat \<Rightarrow> nat \<Rightarrow> nat list \<Rightarrow> nat list" where
  "first_dim_spec q db rows cols query =
     map (\<lambda>col. dot_range query db (col * rows) 0 rows mod q) [0..<cols]"

text \<open>The shape and range every caller of a kernel establishes: \<open>element_max\<close> is a true
  bound on the database.\<close>

definition kernel_pre :: "nat \<Rightarrow> nat \<Rightarrow> nat list \<Rightarrow> nat \<Rightarrow> nat \<Rightarrow> nat list \<Rightarrow> nat \<Rightarrow> nat list \<Rightarrow> bool" where
  "kernel_pre max_value q db rows cols query element_max out \<longleftrightarrow>
     0 < q \<and> q < 2 ^ 64 \<and> length query = rows \<and> length db = rows * cols \<and> length out = cols
     \<and> rows < 2 ^ 64 \<and> all_below (2 ^ 64) query \<and> list_all (\<lambda>x. x \<le> element_max \<and> x \<le> max_value) db
     \<and> max_value < 2 ^ 64"

lemma dot_range_split:
  "lo \<le> mid \<Longrightarrow> mid \<le> hi \<Longrightarrow> dot_range query db off lo hi = dot_range query db off lo mid + dot_range query db off mid hi"
  by (simp add: dot_range_def sum.atLeastLessThan_concat)

lemma dot_range_Suc: "lo \<le> hi \<Longrightarrow> dot_range query db off lo (Suc hi) =
    dot_range query db off lo hi + query ! hi * db ! (off + hi)"
  by (simp add: dot_range_def)

lemma dot_range_empty [simp]: "dot_range query db off lo lo = 0"
  by (simp add: dot_range_def)

section \<open>The scalar kernel is the reference\<close>

lemma scalar_fold:
  assumes "0 < q" and "q < 2 ^ 64" and "n \<le> length query" and "all_below (2 ^ 64) query"
    and "\<And>row. row < n \<Longrightarrow> db ! (off + row) < 2 ^ 64"
  shows "fold (\<lambda>row acc. u128 (acc + query ! row * db ! (off + row)) mod q) [0..<n] 0
    = dot_range query db off 0 n mod q"
  using assms(3,5)
proof (induction n)
  case 0
  then show ?case by simp
next
  case (Suc n)
  let ?a = "dot_range query db off 0 n mod q" and ?x = "query ! n" and ?y = "db ! (off + n)"
  have "?x < 2 ^ 64" using Suc.prems(1) all_below_nth [OF assms(4), of n] by simp
  moreover have "?y < 2 ^ 64" using Suc.prems(2) [of n] by simp
  moreover have "?a < 2 ^ 64"
    using assms(1,2) mod_less_divisor [of q "dot_range query db off 0 n"] by linarith
  ultimately have "?x \<le> 2 ^ 64 - 1" "?y \<le> 2 ^ 64 - 1" "?a \<le> 2 ^ 64 - 1" by simp_all
  then have "?a + ?x * ?y \<le> (2 ^ 64 - 1) + (2 ^ 64 - 1) * (2 ^ 64 - 1)"
    by (intro add_mono mult_le_mono)
  then have "u128 (?a + ?x * ?y) = ?a + ?x * ?y"
    by (intro u128_id) simp
  then show ?case
    using Suc by (simp add: dot_range_Suc mod_add_left_eq)
qed

lemma db_col_less:
  fixes col :: nat
  assumes "col < cols" and "row < rows"
  shows "col * rows + row < rows * cols"
proof -
  have "col * rows + row < Suc col * rows" using assms(2) by simp
  also have "\<dots> \<le> cols * rows" using assms(1) by (intro mult_le_mono1) simp
  finally show ?thesis by (simp add: mult.commute)
qed

lemma kernel_pre_db:
  assumes "kernel_pre mv q db rows cols query emax out" and "col < cols" and "row < rows"
  shows "db ! (col * rows + row) \<le> emax \<and> db ! (col * rows + row) \<le> mv"
  using assms db_col_less [OF assms(2,3)] by (auto simp: kernel_pre_def list_all_length)

lemma scalar_column_spec:
  assumes "kernel_pre mv q db rows cols query emax out" and "col < cols"
  shows "scalar_column q db (col * rows) query = dot_range query db (col * rows) 0 rows mod q"
proof -
  have len: "length query = rows" and q: "0 < q" "q < 2 ^ 64"
    using assms(1) by (simp_all add: kernel_pre_def)
  have "db ! (col * rows + row) < 2 ^ 64" if "row < rows" for row
    using kernel_pre_db [OF assms that] assms(1) by (auto simp: kernel_pre_def)
  then have "fold (\<lambda>row acc. u128 (acc + query ! row * db ! (col * rows + row)) mod q) [0..<rows] 0
      = dot_range query db (col * rows) 0 rows mod q"
    using assms(1) len by (intro scalar_fold) (auto simp: kernel_pre_def)
  moreover have "dot_range query db (col * rows) 0 rows mod q < 2 ^ 64"
    using q mod_less_divisor [of q "dot_range query db (col * rows) 0 rows"] by linarith
  ultimately show ?thesis by (simp add: scalar_column_def len cast_simps)
qed

lemma kernel_asserts_pre:
  "kernel_pre mv q db rows cols query emax out \<Longrightarrow> kernel_asserts db rows cols query out body = body"
  by (simp add: kernel_asserts_def kernel_pre_def)

lemma scalar_spec:
  "kernel_pre mv q db rows cols query emax out \<Longrightarrow>
     scalar_multiply_query q db rows cols query emax out = Inr (first_dim_spec q db rows cols query)"
  by (simp add: scalar_multiply_query_def kernel_asserts_pre first_dim_spec_def scalar_column_spec)

section \<open>The delayed-reduction kernel\<close>

lemma max_safe_chunk_rows_for_pos: "1 \<le> max_safe_chunk_rows_for emax"
proof (cases "emax = 0 \<or> (2 ^ 32 - 1) * emax > 2 ^ 64 - 1")
  case True
  then show ?thesis by (auto simp: max_safe_chunk_rows_for_def Let_def)
next
  case False
  then have "1 \<le> (2 ^ 64 - 1) div ((2 ^ 32 - 1) * emax)"
    by (subst less_eq_div_iff_mult_less_eq) auto
  with False show ?thesis by (simp add: max_safe_chunk_rows_for_def Let_def)
qed

text \<open>A window of safe length keeps both limb accumulators below \<open>2 ^ 64\<close>.\<close>

lemma safe_window:
  assumes "n \<le> max_safe_chunk_rows_for emax" and "\<not> needs_wide_products mv" and "n < 2 ^ 64"
  shows "n * ((2 ^ 32 - 1) * min emax mv) \<le> 2 ^ 64 - 1"
proof (cases "emax = 0")
  case True
  then show ?thesis by simp
next
  case False
  have mv: "(2 ^ 32 - 1) * mv \<le> 2 ^ 64 - 1"
    using assms(2) by (simp add: needs_wide_products_def)
  show ?thesis
  proof (cases "(2 ^ 32 - 1) * emax > 2 ^ 64 - 1")
    case True
    then have "n \<le> 1" using assms(1) False by (simp add: max_safe_chunk_rows_for_def Let_def)
    then have "n * ((2 ^ 32 - 1) * min emax mv) \<le> 1 * ((2 ^ 32 - 1) * mv)"
      by (intro mult_le_mono) auto
    then show ?thesis using mv by linarith
  next
    case small: False
    then have "n \<le> (2 ^ 64 - 1) div ((2 ^ 32 - 1) * emax)"
      using assms(1) False by (simp add: max_safe_chunk_rows_for_def Let_def)
    then have "n * ((2 ^ 32 - 1) * emax) \<le> 2 ^ 64 - 1"
      using False by (subst (asm) less_eq_div_iff_mult_less_eq) auto
    moreover have "n * ((2 ^ 32 - 1) * min emax mv) \<le> n * ((2 ^ 32 - 1) * emax)"
      by (intro mult_le_mono) auto
    ultimately show ?thesis by linarith
  qed
qed

lemma below_64: "x \<le> y \<Longrightarrow> y \<le> 2 ^ 64 - 1 \<Longrightarrow> x < 2 ^ 64" for x y :: nat
  by simp

lemma limb_shift_128: "h \<le> 2 ^ 64 - 1 \<Longrightarrow> l \<le> 2 ^ 64 - 1 \<Longrightarrow> 2 ^ 32 * h < 2 ^ 128 \<and> l + 2 ^ 32 * h < 2 ^ 128"
  for h l :: nat
  by simp

lemma limb_fold:
  assumes "lo \<le> n" and "(n - lo) * ((2 ^ 32 - 1) * B) \<le> 2 ^ 64 - 1"
    and "\<And>row. lo \<le> row \<Longrightarrow> row < n \<Longrightarrow> query ! row < 2 ^ 64 \<and> db ! (off + row) \<le> B"
  shows "fold (\<lambda>row (l, h).
            (u64 (l + u64 (u32 (query ! row) * db ! (off + row))),
             u64 (h + u64 (drop_bit 32 (query ! row) * db ! (off + row)))))
            [lo..<n] (0, 0)
     = (\<Sum>row = lo..<n. query ! row mod 2 ^ 32 * db ! (off + row),
        \<Sum>row = lo..<n. query ! row div 2 ^ 32 * db ! (off + row))
   \<and> (\<Sum>row = lo..<n. query ! row mod 2 ^ 32 * db ! (off + row)) \<le> (n - lo) * ((2 ^ 32 - 1) * B)
   \<and> (\<Sum>row = lo..<n. query ! row div 2 ^ 32 * db ! (off + row)) \<le> (n - lo) * ((2 ^ 32 - 1) * B)"
  using assms
proof (induction n rule: dec_induct)
  case base
  then show ?case by simp
next
  case (step n)
  let ?T = "(2 ^ 32 - 1) * B"
  have "(n - lo) * ?T \<le> (Suc n - lo) * ?T" by (intro mult_le_mono1) simp
  then have prev: "(n - lo) * ?T \<le> 2 ^ 64 - 1" using step.prems(1) by linarith
  note IH = step.IH [OF prev step.prems(2)]
  have q: "query ! n < 2 ^ 64" and d: "db ! (off + n) \<le> B"
    using step.prems(2) [of n] step.hyps by simp_all
  have "query ! n mod 2 ^ 32 \<le> 2 ^ 32 - 1" by (simp add: less_Suc_eq_le [symmetric])
  then have t1: "query ! n mod 2 ^ 32 * db ! (off + n) \<le> ?T" using d by (rule mult_le_mono)
  have "query ! n div 2 ^ 32 \<le> 2 ^ 32 - 1"
    using q by (simp add: less_mult_imp_div_less less_Suc_eq_le [symmetric])
  then have t2: "query ! n div 2 ^ 32 * db ! (off + n) \<le> ?T" using d by (rule mult_le_mono)
  have sum: "(Suc n - lo) * ?T = (n - lo) * ?T + ?T"
    using step.hyps by (simp add: Suc_diff_le)
  let ?L = "\<Sum>row = lo..<n. query ! row mod 2 ^ 32 * db ! (off + row)"
  let ?H = "\<Sum>row = lo..<n. query ! row div 2 ^ 32 * db ! (off + row)"
  have l: "?L + query ! n mod 2 ^ 32 * db ! (off + n) \<le> (Suc n - lo) * ?T"
    and h: "?H + query ! n div 2 ^ 32 * db ! (off + n) \<le> (Suc n - lo) * ?T"
    using IH t1 t2 unfolding sum by linarith+
  note lt = below_64 [OF _ step.prems(1)]
  have c1: "u64 (u32 (query ! n) * db ! (off + n)) = query ! n mod 2 ^ 32 * db ! (off + n)"
    unfolding u32_def by (intro u64_id lt le_trans [OF _ l]) simp
  have c2: "u64 (drop_bit 32 (query ! n) * db ! (off + n)) = query ! n div 2 ^ 32 * db ! (off + n)"
    unfolding drop_bit_eq_div by (intro u64_id lt le_trans [OF _ h]) simp
  show ?case
    using IH l h step.hyps lt [OF l] lt [OF h]
    by (simp only: upt_Suc_append fold_append comp_apply fold_simps c1 c2 u64_id
          sum.atLeastLessThan_Suc prod.case)
qed

lemma limb_recombine:
  "(\<Sum>row = lo..<n. query ! row mod 2 ^ 32 * db ! (off + row))
     + 2 ^ 32 * (\<Sum>row = lo..<n. query ! row div 2 ^ 32 * db ! (off + row)) = dot_range query db off lo n"
proof -
  have "query ! row mod 2 ^ 32 * y + 2 ^ 32 * (query ! row div 2 ^ 32 * y)
      = (query ! row mod 2 ^ 32 + 2 ^ 32 * (query ! row div 2 ^ 32)) * y" for row y
    by (simp only: add_mult_distrib mult.assoc)
  then have "query ! row mod 2 ^ 32 * y + 2 ^ 32 * (query ! row div 2 ^ 32 * y) = query ! row * y" for row y
    by (simp only: mod_mult_div_eq)
  then show ?thesis
    unfolding dot_range_def sum_distrib_left by (simp only: flip: sum.distrib)
qed

lemma add_mod_spec:
  assumes "a < q" and "b < q" and "q < 2 ^ 64"
  shows "add_mod a b q = (a + b) mod q"
proof -
  have "a + b < 2 ^ 128" using assms by simp
  then show ?thesis
    using assms by (auto simp: add_mod_def Let_def cast_simps le_mod_geq)
qed

lemma chunk_column_spec:
  assumes "\<And>x. x < 2 ^ 128 \<Longrightarrow> barrett q x = x mod q" and "0 < q" and "q < 2 ^ 64"
    and "lo \<le> n" and "(n - lo) * ((2 ^ 32 - 1) * B) \<le> 2 ^ 64 - 1"
    and "\<And>row. lo \<le> row \<Longrightarrow> row < n \<Longrightarrow> query ! row < 2 ^ 64 \<and> db ! (off + row) \<le> B"
    and "out_col < q"
  shows "chunk_column barrett q query db off lo n out_col = (out_col + dot_range query db off lo n) mod q"
proof -
  let ?L = "\<Sum>row = lo..<n. query ! row mod 2 ^ 32 * db ! (off + row)"
  let ?H = "\<Sum>row = lo..<n. query ! row div 2 ^ 32 * db ! (off + row)"
  note F = limb_fold [OF assms(4-6)]
  have L: "?L \<le> 2 ^ 64 - 1" and H: "?H \<le> 2 ^ 64 - 1" using F assms(5) by linarith+
  have H32: "u128 (push_bit 32 ?H) = 2 ^ 32 * ?H"
    unfolding push_bit_eq_mult mult.commute [of ?H] using limb_shift_128 [OF H L] by (intro u128_id) simp
  have "?L + 2 ^ 32 * ?H < 2 ^ 128" using limb_shift_128 [OF H L] by simp
  then have S: "u128 (?L + u128 (push_bit 32 ?H)) = dot_range query db off lo n"
    and small: "dot_range query db off lo n < 2 ^ 128"
    unfolding H32 limb_recombine by (simp_all only: u128_id)
  show ?thesis
    using F S small assms(1) [OF small] assms(2,3,7)
    by (simp add: chunk_column_def Let_def add_mod_spec mod_add_right_eq)
qed

lemma chunk_column_cong:
  assumes "\<And>row. lo \<le> row \<Longrightarrow> row < n \<Longrightarrow> db ! (off + row) = db' ! (off' + row)"
  shows "chunk_column barrett q query db off lo n out_col = chunk_column barrett q query db' off' lo n out_col"
proof -
  have "fold (\<lambda>row (l, h).
            (u64 (l + u64 (u32 (query ! row) * db ! (off + row))),
             u64 (h + u64 (drop_bit 32 (query ! row) * db ! (off + row))))) [lo..<n] (0, 0)
     = fold (\<lambda>row (l, h).
            (u64 (l + u64 (u32 (query ! row) * db' ! (off' + row))),
             u64 (h + u64 (drop_bit 32 (query ! row) * db' ! (off' + row))))) [lo..<n] (0, 0)"
    using assms by (intro fold_cong) auto
  then show ?thesis by (simp add: chunk_column_def)
qed

lemma column_take:
  assumes "c < n"
  shows "chunk_at rows (take (n * rows) db) c = chunk_at rows db c"
proof -
  have "c * rows + row < n * rows" if "row < rows" for row
    using db_col_less [OF assms that] by (simp add: mult.commute)
  then show ?thesis by (simp add: chunk_at_def)
qed

lemma column_drop: "n * rows \<le> length db \<Longrightarrow> chunk_at rows (drop (n * rows) db) k = chunk_at rows db (n + k)"
  by (simp add: chunk_at_def add_mult_distrib add.assoc)

lemma chunk_column_column:
  "hi \<le> rows \<Longrightarrow> chunk_column barrett q query db (c * rows) lo hi x
     = chunk_column barrett q query (chunk_at rows db c) 0 lo hi x"
  by (intro chunk_column_cong) (simp add: chunk_at_def)

lemma band_split:
  assumes "length db = rows * length out"
  shows "map (\<lambda>c. G (chunk_at rows (take (n * rows) db) c) (take n out ! c)) [0..<length (take n out)]
          @ map (\<lambda>c. G (chunk_at rows (drop (n * rows) db) c) (drop n out ! c)) [0..<length (drop n out)]
    = map (\<lambda>c. G (chunk_at rows db c) (out ! c)) [0..<length out]"
    (is "?A @ ?B = ?C")
proof (rule nth_equalityI)
  show "length (?A @ ?B) = length ?C" by simp
  fix c assume "c < length (?A @ ?B)"
  then have c: "c < length out" by simp
  show "(?A @ ?B) ! c = ?C ! c"
  proof (cases "c < n")
    case True
    then show ?thesis using c by (simp add: nth_append column_take)
  next
    case False
    then obtain k where k: "c = n + k" using le_Suc_ex not_less by blast
    moreover have "n * rows \<le> length db" using assms c k by (simp add: mult.commute)
    ultimately show ?thesis using c by (simp add: nth_append column_drop less_diff_conv)
  qed
qed

text \<open>Column bands are disjoint: sweeping them band by band is sweeping every column.\<close>

lemma bands_columns:
  assumes "0 < rows" and "0 < b" and "length db = rows * length out"
  shows "concat (map (\<lambda>(out_band, db_band). map (\<lambda>c. G (chunk_at rows db_band c) (out_band ! c)) [0..<length out_band])
            (zip (par_chunks b out) (par_chunks (b * rows) db)))
    = map (\<lambda>c. G (chunk_at rows db c) (out ! c)) [0..<length out]" (is "concat (map ?F _) = _")
  using assms(2,3)
proof (induction b out arbitrary: db rule: par_chunks.induct)
  case (1 n out)
  show ?case
  proof (cases "out = [] \<or> n = 0")
    case True
    then show ?thesis using "1.prems" by (auto simp: par_chunks.simps [of n "[]"])
  next
    case False
    then have "db \<noteq> []" "n * rows \<noteq> 0" using "1.prems" \<open>0 < rows\<close> by auto
    then have "concat (map ?F (zip (par_chunks n out) (par_chunks (n * rows) db)))
        = ?F (take n out, take (n * rows) db)
          @ concat (map ?F (zip (par_chunks n (drop n out)) (par_chunks (n * rows) (drop (n * rows) db))))"
      using False by (simp add: par_chunks.simps [of n out] par_chunks.simps [of "n * rows" db])
    also have "\<dots> = ?F (take n out, take (n * rows) db)
          @ map (\<lambda>c. G (chunk_at rows (drop (n * rows) db) c) (drop n out ! c)) [0..<length (drop n out)]"
      using "1.IH" [OF False, of "drop (n * rows) db"] "1.prems" by (simp add: right_diff_distrib' mult.commute)
    also have "\<dots> = map (\<lambda>c. G (chunk_at rows db c) (out ! c)) [0..<length out]"
      using band_split [OF "1.prems"(2), of G n] by simp
    finally show ?thesis .
  qed
qed

text \<open>Every band is a whole number of columns of the database.\<close>

lemma band_shape:
  assumes "0 < rows" and "0 < b" and "length db = rows * length out"
    and "(ob, d) \<in> set (zip (par_chunks b out) (par_chunks (b * rows) db))"
  shows "length d = rows * length ob \<and> set d \<subseteq> set db"
  using assms(2-4)
proof (induction b out arbitrary: db rule: par_chunks.induct)
  case (1 n out)
  show ?case
  proof (cases "out = [] \<or> n = 0")
    case True
    then show ?thesis using "1.prems" by (auto simp: par_chunks.simps [of n "[]"])
  next
    case False
    then have ne: "db \<noteq> []" "n * rows \<noteq> 0" using "1.prems" \<open>0 < rows\<close> by auto
    have "(ob, d) = (take n out, take (n * rows) db)
        \<or> (ob, d) \<in> set (zip (par_chunks n (drop n out)) (par_chunks (n * rows) (drop (n * rows) db)))"
      using "1.prems"(3) False ne by (simp add: par_chunks.simps [of n out] par_chunks.simps [of "n * rows" db])
    then show ?thesis
    proof
      assume "(ob, d) = (take n out, take (n * rows) db)"
      then show ?thesis
        using "1.prems"(2) set_take_subset [of "n * rows" db]
        by (simp add: nat_mult_min_right mult.commute [of n])
    next
      assume "(ob, d) \<in> set (zip (par_chunks n (drop n out)) (par_chunks (n * rows) (drop (n * rows) db)))"
      then show ?thesis
        using "1.IH" [OF False, of "drop (n * rows) db"] "1.prems"(1,2) set_drop_subset [of "n * rows" db]
        by (auto simp: right_diff_distrib' mult.commute)
    qed
  qed
qed

lemma chunk_bands_columns:
  assumes "0 < rows" and "0 < b" and "hi \<le> rows" and "length db = rows * length out"
  shows "concat (map (chunk_band barrett q rows query lo hi)
            (zip (par_chunks b out) (par_chunks (b * rows) db)))
    = map (\<lambda>col. chunk_column barrett q query db (col * rows) lo hi (out ! col)) [0..<length out]"
proof -
  have "chunk_band barrett q rows query lo hi = (\<lambda>(out_band, db_band).
      map (\<lambda>c. chunk_column barrett q query (chunk_at rows db_band c) 0 lo hi (out_band ! c)) [0..<length out_band])"
    using assms(3) by (auto simp: chunk_band_def chunk_column_column fun_eq_iff)
  then show ?thesis
    using bands_columns [OF assms(1,2,4), of "\<lambda>cl x. chunk_column barrett q query cl 0 lo hi x"] assms(3)
    by (simp add: chunk_column_column)
qed

lemma band_cols_pos: "0 < band_cols threads sz rows cols"
  by (auto simp: band_cols_def Let_def)

lemma chunk_loop_spec:
  assumes pre: "kernel_pre mv q db rows cols query emax out0"
    and barrett: "\<And>x. x < 2 ^ 128 \<Longrightarrow> barrett q x = x mod q"
    and narrow: "\<not> needs_wide_products mv" and "0 < b"
    and safe: "0 < cr" "cr \<le> max_safe_chunk_rows_for emax \<or> cr = 1" "cr < 2 ^ 64"
    and "rs \<le> rows"
  shows "chunk_loop barrett q b rows cr db query rs
      (map (\<lambda>col. dot_range query db (col * rows) 0 rs mod q) [0..<cols])
    = first_dim_spec q db rows cols query"
  using \<open>rs \<le> rows\<close>
proof (induction "rows - rs" arbitrary: rs rule: less_induct)
  case less
  let ?out = "\<lambda>rs. map (\<lambda>col. dot_range query db (col * rows) 0 rs mod q) [0..<cols]"
  show ?case
  proof (cases "rs < rows")
    case False
    then show ?thesis using less.prems by (simp add: chunk_loop.simps first_dim_spec_def)
  next
    case True
    define re where "re = min (rs + cr) rows"
    have re: "rs \<le> re" "re \<le> rows" "rs < re" using True safe(1) by (auto simp: re_def)
    have "re - rs \<le> max_safe_chunk_rows_for emax" "re - rs < 2 ^ 64"
      using safe(2,3) max_safe_chunk_rows_for_pos [of emax] by (auto simp: re_def)
    then have window: "(re - rs) * ((2 ^ 32 - 1) * min emax mv) \<le> 2 ^ 64 - 1"
      using safe_window narrow by blast
    have q: "0 < q" "q < 2 ^ 64" and lens: "length query = rows" "length db = rows * cols"
      and qs: "all_below (2 ^ 64) query"
      using pre by (simp_all add: kernel_pre_def)
    have col: "chunk_column barrett q query db (col * rows) rs re (?out rs ! col) = ?out re ! col"
      if "col < cols" for col
    proof -
      have "chunk_column barrett q query db (col * rows) rs re (?out rs ! col)
          = (?out rs ! col + dot_range query db (col * rows) rs re) mod q"
        using barrett q re(1) window
      proof (rule chunk_column_spec)
        fix row assume "rs \<le> row" "row < re"
        then show "query ! row < 2 ^ 64 \<and> db ! (col * rows + row) \<le> min emax mv"
          using kernel_pre_db [OF pre that, of row] all_below_nth [OF qs] re lens by auto
      next
        show "?out rs ! col < q" using that q by simp
      qed
      then show ?thesis
        using that re by (simp add: dot_range_split [of 0 rs re] mod_add_left_eq)
    qed
    have "chunk_loop barrett q b rows cr db query rs (?out rs)
        = chunk_loop barrett q b rows cr db query re (map (\<lambda>col.
            chunk_column barrett q query db (col * rows) rs re (?out rs ! col)) [0..<length (?out rs)])"
      using True safe(1) \<open>0 < b\<close> re lens
      by (simp only: chunk_loop.simps [of barrett q b rows cr db query rs] re_def [symmetric] Let_def
            simp_thms if_True chunk_bands_columns [of rows b re db "?out rs"] length_map length_upt diff_zero)
    also have "\<dots> = chunk_loop barrett q b rows cr db query re (?out re)"
      using col by (intro arg_cong [of _ _ "chunk_loop barrett q b rows cr db query re"] nth_equalityI) simp_all
    also have "\<dots> = first_dim_spec q db rows cols query"
      using less.hyps [of re] re True by simp
    finally show ?thesis .
  qed
qed

lemma chunked_spec:
  assumes "kernel_pre mv q db rows cols query emax out"
    and "\<And>x. x < 2 ^ 128 \<Longrightarrow> barrett q x = x mod q"
  shows "chunked_multiply_query barrett threads sz mv cr q db rows cols query emax out
    = Inr (first_dim_spec q db rows cols query)"
proof (cases "needs_wide_products mv")
  case True
  then show ?thesis
    using assms(1)
    by (simp add: chunked_multiply_query_def kernel_asserts_pre first_dim_spec_def scalar_column_spec)
next
  case False
  let ?cr = "max (min (min cr (max_safe_chunk_rows_for emax)) rows) 1"
  have rows: "rows < 2 ^ 64" and out: "length out = cols" using assms(1) by (simp_all add: kernel_pre_def)
  have "replicate (length out) 0 = map (\<lambda>col. dot_range query db (col * rows) 0 0 mod q) [0..<cols]"
    using out by (simp add: map_replicate_const)
  moreover have "chunk_loop barrett q (band_cols threads sz rows cols) rows ?cr db query 0
      (map (\<lambda>col. dot_range query db (col * rows) 0 0 mod q) [0..<cols]) = first_dim_spec q db rows cols query"
    using rows by (intro chunk_loop_spec [where barrett = barrett, OF assms(1) assms(2) False band_cols_pos]) auto
  ultimately show ?thesis
    using assms(1) False by (simp add: chunked_multiply_query_def kernel_asserts_pre Let_def)
qed

section \<open>The 8-lane kernel\<close>

lemma sum_lanes:
  "(\<Sum>l<8. \<Sum>k<K. t (rs + 8 * k + l)) = (\<Sum>row = rs..<rs + 8 * K. t row)" for t :: "nat \<Rightarrow> nat"
proof (induction K)
  case 0
  then show ?case by simp
next
  case (Suc K)
  have "(\<Sum>row = rs..<rs + 8 * Suc K. t row)
      = (\<Sum>row = rs..<rs + 8 * K. t row) + (\<Sum>row = rs + 8 * K..<rs + 8 * K + 8. t row)"
    using sum.atLeastLessThan_concat [of rs "rs + 8 * K" "rs + 8 * K + 8" t]
    by (simp add: add.assoc add.commute [of 8])
  also have "(\<Sum>row = rs + 8 * K..<rs + 8 * K + 8. t row) = (\<Sum>l<8. t (rs + 8 * K + l))"
    using sum.shift_bounds_nat_ivl [of t 0 "rs + 8 * K" 8] by (simp add: add.commute atLeast0LessThan)
  finally show ?case using Suc by (simp add: sum.distrib)
qed

lemma lanes_fold:
  "fold (\<lambda>k. lane_step limb query db off (rs + 8 * k)) [0..<K] (replicate 8 0)
    = map (\<lambda>l. u64 (\<Sum>k<K. limb (query ! (rs + 8 * k + l)) * db ! (off + (rs + 8 * k + l)))) [0..<8]"
proof (induction K)
  case 0
  then show ?case by (simp add: map_replicate_const cast_simps)
next
  case (Suc K)
  then show ?case by (simp add: lane_step_def u64_arith add.assoc)
qed

lemma fold_u64_add: "fold (\<lambda>x s. u64 (s + f x)) xs s0 = u64 (s0 + sum_list (map f xs))" if "xs \<noteq> [] \<or> s0 < 2 ^ 64"
  using that
proof (induction xs arbitrary: s0)
  case Nil
  then show ?case by (simp add: cast_simps)
next
  case (Cons x xs)
  have "fold (\<lambda>x s. u64 (s + f x)) (x # xs) s0 = u64 (u64 (s0 + f x) + sum_list (map f xs))"
    using Cons.IH [of "u64 (s0 + f x)"] u64_less [of "s0 + f x"] by simp
  then show ?case by (simp add: u64_arith add.assoc)
qed

lemma lane_total_spec:
  assumes "rs \<le> n"
  shows "lane_total limb query db off rs (rs + ((n - rs) div 8) * 8) n
    = u64 (\<Sum>row = rs..<n. limb (query ! row) * db ! (off + row))"
proof -
  let ?t = "\<lambda>row. limb (query ! row) * db ! (off + row)"
  let ?K = "(n - rs) div 8"
  let ?ve = "rs + 8 * ?K"
  have ve: "rs \<le> ?ve" "?ve \<le> n"
    using assms times_div_less_eq_dividend [of 8 "n - rs"] by linarith+
  have "fold (\<lambda>x s. u64 (s + x)) (map (\<lambda>l. u64 (\<Sum>k<?K. ?t (rs + 8 * k + l))) [0..<8]) 0
      = u64 (\<Sum>l<8. u64 (\<Sum>k<?K. ?t (rs + 8 * k + l)))"
    using fold_u64_add [of "map (\<lambda>l. u64 (\<Sum>k<?K. ?t (rs + 8 * k + l))) [0..<8]" 0 "\<lambda>x. x"]
    by (simp add: interv_sum_list_conv_sum_set_nat comp_def atLeast0LessThan)
  also have "\<dots> = u64 (\<Sum>l<8. \<Sum>k<?K. ?t (rs + 8 * k + l))"
    unfolding u64_def by (rule mod_sum_eq)
  also have "\<dots> = u64 (\<Sum>row = rs..<?ve. ?t row)"
    by (simp only: sum_lanes [of ?t])
  finally have vec: "fold (\<lambda>x s. u64 (s + x)) (map (\<lambda>l. u64 (\<Sum>k<?K. ?t (rs + 8 * k + l))) [0..<8]) 0
      = u64 (\<Sum>row = rs..<?ve. ?t row)" .
  have tail: "fold (\<lambda>row r. u64 (r + u64 (?t row))) [?ve..<n] (u64 (\<Sum>row = rs..<?ve. ?t row))
      = u64 (u64 (\<Sum>row = rs..<?ve. ?t row) + (\<Sum>row = ?ve..<n. u64 (?t row)))"
    by (subst fold_u64_add [of "[?ve..<n]" _ "\<lambda>row. u64 (?t row)"])
      (simp_all add: interv_sum_list_conv_sum_set_nat)
  have "u64 (\<Sum>row = ?ve..<n. u64 (?t row)) = u64 (\<Sum>row = ?ve..<n. ?t row)"
    unfolding u64_def by (rule mod_sum_eq)
  then have "u64 (u64 (\<Sum>row = rs..<?ve. ?t row) + (\<Sum>row = ?ve..<n. u64 (?t row)))
      = u64 ((\<Sum>row = rs..<?ve. ?t row) + (\<Sum>row = ?ve..<n. ?t row))"
    by (rule u64_add_cong)
  also have "\<dots> = u64 (\<Sum>row = rs..<n. ?t row)"
    using sum.atLeastLessThan_concat [OF ve, of ?t] by simp
  finally show ?thesis
    unfolding lane_total_def Let_def mult.commute [of _ 8] using vec tail
    by (simp add: lanes_fold)
qed

lemma avx512_column_spec:
  assumes "\<And>x. x < 2 ^ 128 \<Longrightarrow> barrett q x = x mod q" and "0 < q" and "q < 2 ^ 64"
    and "lo \<le> n" and "(n - lo) * ((2 ^ 32 - 1) * B) \<le> 2 ^ 64 - 1"
    and "\<And>row. lo \<le> row \<Longrightarrow> row < n \<Longrightarrow> query ! row < 2 ^ 64 \<and> db ! (off + row) \<le> B"
    and "out_col < q"
  shows "avx512_column barrett q query db off lo n out_col = (out_col + dot_range query db off lo n) mod q"
proof -
  note F = limb_fold [OF assms(4-6)]
  have lo: "lane_total u32 query db off lo (lo + ((n - lo) div 8) * 8) n
      = (\<Sum>row = lo..<n. query ! row mod 2 ^ 32 * db ! (off + row))"
    unfolding lane_total_spec [OF assms(4)] u32_def using F below_64 [OF _ assms(5)] by (intro u64_id) blast
  have hi: "lane_total (drop_bit 32) query db off lo (lo + ((n - lo) div 8) * 8) n
      = (\<Sum>row = lo..<n. query ! row div 2 ^ 32 * db ! (off + row))"
    unfolding lane_total_spec [OF assms(4)] drop_bit_eq_div using F below_64 [OF _ assms(5)] by (intro u64_id) blast
  have "avx512_column barrett q query db off lo n out_col = chunk_column barrett q query db off lo n out_col"
    using F by (simp only: avx512_column_def chunk_column_def Let_def lo hi prod.case)
  then show ?thesis using chunk_column_spec [where barrett = barrett, OF assms] by simp
qed

lemma max_safe_chunk_rows_for_less: "max_safe_chunk_rows_for emax < 2 ^ 64"
proof -
  have "(2 ^ 64 - 1) div x \<le> 2 ^ 64 - 1" for x :: nat by (rule div_le_dividend)
  moreover have "1 \<le> (2 ^ 64 - 1 :: nat)" by simp
  ultimately have "max_safe_chunk_rows_for emax \<le> 2 ^ 64 - 1"
    unfolding max_safe_chunk_rows_for_def Let_def by (auto simp del: power_numeral)
  then show ?thesis by simp
qed

lemma avx512_loop_spec:
  assumes pre: "kernel_pre mv q db rows cols query emax out0"
    and barrett: "\<And>x. x < 2 ^ 128 \<Longrightarrow> barrett q x = x mod q"
    and narrow: "\<not> needs_wide_products mv"
    and safe: "0 < cr" "cr \<le> max_safe_chunk_rows_for emax"
    and "rs \<le> rows"
  shows "avx512_loop barrett q rows cr db query rs
      (map (\<lambda>col. dot_range query db (col * rows) 0 rs mod q) [0..<cols])
    = first_dim_spec q db rows cols query"
  using \<open>rs \<le> rows\<close>
proof (induction "rows - rs" arbitrary: rs rule: less_induct)
  case less
  let ?out = "\<lambda>rs. map (\<lambda>col. dot_range query db (col * rows) 0 rs mod q) [0..<cols]"
  show ?case
  proof (cases "rs < rows")
    case False
    then show ?thesis using less.prems by (simp add: avx512_loop.simps first_dim_spec_def)
  next
    case True
    define re where "re = min (rs + cr) rows"
    have re: "rs \<le> re" "re \<le> rows" "rs < re" using True safe(1) by (auto simp: re_def)
    have "re - rs \<le> max_safe_chunk_rows_for emax" "re - rs < 2 ^ 64"
      using safe(2) max_safe_chunk_rows_for_less [of emax] by (auto simp: re_def)
    then have window: "(re - rs) * ((2 ^ 32 - 1) * min emax mv) \<le> 2 ^ 64 - 1"
      using safe_window narrow by blast
    have q: "0 < q" "q < 2 ^ 64" and lens: "length query = rows" and qs: "all_below (2 ^ 64) query"
      using pre by (simp_all add: kernel_pre_def)
    have col: "avx512_column barrett q query db (col * rows) rs re (?out rs ! col) = ?out re ! col"
      if "col < cols" for col
    proof -
      have "avx512_column barrett q query db (col * rows) rs re (?out rs ! col)
          = (?out rs ! col + dot_range query db (col * rows) rs re) mod q"
        using barrett q re(1) window
      proof (rule avx512_column_spec)
        fix row assume "rs \<le> row" "row < re"
        then show "query ! row < 2 ^ 64 \<and> db ! (col * rows + row) \<le> min emax mv"
          using kernel_pre_db [OF pre that, of row] all_below_nth [OF qs] re lens by auto
      next
        show "?out rs ! col < q" using that q by simp
      qed
      then show ?thesis
        using that re by (simp add: dot_range_split [of 0 rs re] mod_add_left_eq)
    qed
    have "avx512_loop barrett q rows cr db query rs (?out rs)
        = avx512_loop barrett q rows cr db query re (?out re)"
    proof -
      have "map (\<lambda>col. avx512_column barrett q query db (col * rows) rs re (?out rs ! col)) [0..<length (?out rs)]
          = ?out re"
        using col by (intro nth_equalityI) simp_all
      then show ?thesis
        using True safe(1)
        by (simp only: avx512_loop.simps [of barrett q rows cr db query rs] re_def [symmetric] Let_def
              simp_thms if_True)
    qed
    also have "\<dots> = first_dim_spec q db rows cols query"
      using less.hyps [of re] re True by simp
    finally show ?thesis .
  qed
qed

lemma avx512_band_spec:
  assumes pre: "kernel_pre 65535 q db rows cols query emax out0"
    and barrett: "\<And>x. x < 2 ^ 128 \<Longrightarrow> barrett q x = x mod q"
    and safe: "8 \<le> cr" "cr \<le> max_safe_chunk_rows_for emax"
  shows "multiply_query_avx512_u16 barrett q db rows cols query cr = first_dim_spec q db rows cols query"
proof -
  have cr: "8 \<le> cr - cr mod 8" using safe(1)
    by (metis div_greater_zero_iff minus_mod_eq_mult_div nat_mult_le_cancel_disj mult.right_neutral Suc_leI One_nat_def zero_less_numeral)
  have "replicate cols 0 = map (\<lambda>col. dot_range query db (col * rows) 0 0 mod q) [0..<cols]"
    by (simp add: map_replicate_const)
  moreover have "avx512_loop barrett q rows (cr - cr mod 8) db query 0
      (map (\<lambda>col. dot_range query db (col * rows) 0 0 mod q) [0..<cols]) = first_dim_spec q db rows cols query"
    using cr safe(2)
    by (intro avx512_loop_spec [where barrett = barrett, OF pre barrett]) (auto simp: needs_wide_products_def)
  ultimately show ?thesis
    using safe(1) cr by (simp add: multiply_query_avx512_u16_def Let_def max_def)
qed

lemma first_dim_spec_columns:
  "first_dim_spec q db rows cols query
     = map (\<lambda>c. dot_range query (chunk_at rows db c) 0 0 rows mod q) [0..<cols]"
  by (simp add: first_dim_spec_def dot_range_def chunk_at_def)

lemma avx512_spec:
  assumes pre: "kernel_pre 65535 q db rows cols query emax out" and "0 < rows" and "emax \<le> 65535"
    and barrett: "\<And>x. x < 2 ^ 128 \<Longrightarrow> barrett q x = x mod q"
  shows "avx512_multiply_query barrett True threads cr0 q db rows cols query emax out
    = Inr (first_dim_spec q db rows cols query)"
proof -
  let ?safe = "max_safe_chunk_rows_for emax"
  let ?cr = "max (min (min cr0 ?safe) rows) 8"
  let ?b = "band_cols threads 2 rows cols"
  have "(2 ^ 32 - 1) * emax \<le> (2 ^ 32 - 1) * 65535" using assms(3) by (intro mult_le_mono) auto
  then have "emax = 0 \<or> 8 \<le> (2 ^ 64 - 1) div ((2 ^ 32 - 1) * emax)"
    by (cases "emax = 0", simp, subst less_eq_div_iff_mult_less_eq) auto
  then have safe: "8 \<le> ?safe"
    using \<open>(2 ^ 32 - 1) * emax \<le> (2 ^ 32 - 1) * 65535\<close> by (auto simp: max_safe_chunk_rows_for_def Let_def)
  have lens: "length db = rows * length out" "length out = cols" using pre by (auto simp: kernel_pre_def)
  have "multiply_query_avx512_u16 barrett q d rows (length ob) query ?cr
      = map (\<lambda>c. (\<lambda>cl x. dot_range query cl 0 0 rows mod q) (chunk_at rows d c) (ob ! c)) [0..<length ob]"
    if "(ob, d) \<in> set (zip (par_chunks ?b out) (par_chunks (?b * rows) db))" for ob d
  proof -
    have "kernel_pre 65535 q d rows (length ob) query emax ob"
      using band_shape [OF \<open>0 < rows\<close> band_cols_pos lens(1) that] pre
      by (auto simp: kernel_pre_def list_all_iff)
    then show ?thesis
      using safe by (subst avx512_band_spec [where barrett = barrett, OF _ barrett])
        (auto simp: first_dim_spec_columns)
  qed
  then have bands: "map (\<lambda>(ob, d). multiply_query_avx512_u16 barrett q d rows (length ob) query ?cr)
        (zip (par_chunks ?b out) (par_chunks (?b * rows) db))
    = map (\<lambda>(ob, d). map (\<lambda>c. (\<lambda>cl x. dot_range query cl 0 0 rows mod q) (chunk_at rows d c) (ob ! c)) [0..<length ob])
        (zip (par_chunks ?b out) (par_chunks (?b * rows) db))"
    by (intro map_cong) auto
  show ?thesis
    using bands_columns [OF \<open>0 < rows\<close> band_cols_pos [of threads 2 rows cols] lens(1), of "\<lambda>cl x. dot_range query cl 0 0 rows mod q"]
      safe lens(2) \<open>0 < rows\<close> band_cols_pos [of threads 2 rows cols]
    unfolding avx512_multiply_query_def kernel_asserts_pre [OF pre] Let_def bands
    by (simp add: first_dim_spec_columns)
qed

section \<open>The power-of-two method\<close>

lemma fold_wrapping_dot:
  "length col = length query \<Longrightarrow>
   fold (\<lambda>(a, b) sum. wrapping_add sum (wrapping_mul a b)) (zip col query) (u64 s)
     = u64 (s + (\<Sum>i<length query. query ! i * col ! i))"
proof (induction col query arbitrary: s rule: list_induct2)
  case Nil
  then show ?case by simp
next
  case (Cons a col b query)
  have "wrapping_add (u64 s) (wrapping_mul a b) = u64 (s + b * a)"
    by (simp add: wrapping_add_def wrapping_mul_def u64_arith mult.commute)
  then show ?case
    using Cons.IH [of "s + b * a"] by (simp add: sum.lessThan_Suc_shift add.assoc del: sum.lessThan_Suc)
qed

definition pow2_pre :: "nat \<Rightarrow> nat \<Rightarrow> nat \<Rightarrow> nat list \<Rightarrow> bool" where
  "pow2_pre q rows cols query \<longleftrightarrow>
     is_power_of_two q \<and> 2 \<le> q \<and> 0 < rows \<and> 0 < cols \<and> rows * cols < 2 ^ 64 \<and> all_below q query"

lemma power_of_two_spec:
  assumes "pow2_pre q rows cols query" and "length db = rows * cols"
    and "length query = rows" and "length out = cols"
  shows "try_multiply_power_of_two q db rows cols query out = Inr (first_dim_spec q db rows cols query)"
proof -
  obtain k where k: "k < 64" "q = 2 ^ k"
    using assms(1) by (auto simp: pow2_pre_def is_power_of_two_iff)
  have rows: "0 < rows" using assms(1) by (simp add: pow2_pre_def)
  have chunks: "chunks_exact rows db = map (chunk_at rows db) [0..<cols]"
    using rows assms(2) by (intro chunks_exact_chunk_at) (simp_all add: mult.commute)
  have "\<not> list_ex (\<lambda>x. x \<ge> q) query"
    using assms(1) by (auto simp: pow2_pre_def list_ex_iff all_below_set)
  moreover have "fold (\<lambda>(a, b) sum. wrapping_add sum (wrapping_mul a b)) (zip (chunk_at rows db c) query) 0
      AND (q - 1) = dot_range query db (c * rows) 0 rows mod q" for c
  proof -
    have "(\<Sum>i<length query. query ! i * chunk_at rows db c ! i) = dot_range query db (c * rows) 0 rows"
      unfolding dot_range_def assms(3) atLeast0LessThan by (intro sum.cong) simp_all
    moreover have "u64 0 = 0" by (simp add: u64_def)
    ultimately have "fold (\<lambda>(a, b) sum. wrapping_add sum (wrapping_mul a b)) (zip (chunk_at rows db c) query) 0
        = u64 (dot_range query db (c * rows) 0 rows)"
      using fold_wrapping_dot [of "chunk_at rows db c" query 0] assms(3) by simp
    then show ?thesis using k by (simp only: and_exp_minus_1 u64_mod_exp)
  qed
  ultimately show ?thesis
    using assms
    by (simp add: try_multiply_power_of_two_def pow2_pre_def checked_mul_def chunks first_dim_spec_def)
qed

section \<open>The kernel interface\<close>

text \<open>
  What the servers rely on: a kernel returns the reduced matrix-vector product whenever
  the caller has established the shape, the element bound and the backend's own
  condition \<open>ok\<close>. Everything the protocol needs from a kernel follows from this law.
\<close>

locale first_dim_kernel =
  fixes max_value :: nat
    and ok :: "nat \<Rightarrow> nat \<Rightarrow> nat \<Rightarrow> nat list \<Rightarrow> bool"
    and kernel :: "nat \<Rightarrow> nat list \<Rightarrow> nat \<Rightarrow> nat \<Rightarrow> nat list \<Rightarrow> nat \<Rightarrow> nat list \<Rightarrow> nat list result"
  assumes kernel_law:
    "kernel_pre max_value q db rows cols query emax out \<Longrightarrow> emax \<le> max_value \<Longrightarrow> ok q rows cols query \<Longrightarrow>
       kernel q db rows cols query emax out = Inr (first_dim_spec q db rows cols query)"
begin

lemma result_shape:
  assumes "kernel_pre max_value q db rows cols query emax out" and "emax \<le> max_value" and "ok q rows cols query"
  obtains ys where "kernel q db rows cols query emax out = Inr ys" and "length ys = cols" and "all_below q ys"
proof
  show "kernel q db rows cols query emax out = Inr (first_dim_spec q db rows cols query)"
    using assms by (rule kernel_law)
qed (use assms in \<open>auto simp: first_dim_spec_def all_below_set kernel_pre_def\<close>)

lemma same_result:
  assumes "first_dim_kernel mv' ok' kernel'"
    and "kernel_pre max_value q db rows cols query emax out" and "emax \<le> max_value" and "ok q rows cols query"
    and "kernel_pre mv' q db rows cols query emax out" and "emax \<le> mv'" and "ok' q rows cols query"
  shows "kernel q db rows cols query emax out = kernel' q db rows cols query emax out"
  using kernel_law [OF assms(2-4)] first_dim_kernel.kernel_law [OF assms(1,5-7)] by simp

end

interpretation scalar_kernel: first_dim_kernel mv "\<lambda>q rows cols query. True" scalar_multiply_query for mv
  by unfold_locales (rule scalar_spec)

interpretation chunked_kernel: first_dim_kernel mv "\<lambda>q rows cols query. True"
    "chunked_multiply_query (\<lambda>q x. x mod q) threads sz mv chunk_rows" for mv threads sz chunk_rows
  by unfold_locales (simp add: chunked_spec)

interpretation avx512_kernel: first_dim_kernel 65535 "\<lambda>q rows cols query. 0 < rows"
    "avx512_multiply_query (\<lambda>q x. x mod q) True threads chunk_rows" for threads chunk_rows
  by unfold_locales (simp add: avx512_spec)

interpretation native_kernel: first_dim_kernel mv pow2_pre
    "\<lambda>q db rows cols query emax out. try_multiply_power_of_two q db rows cols query out" for mv
  by unfold_locales (simp add: power_of_two_spec kernel_pre_def)

section \<open>Properties\<close>

text \<open>C15. The delayed-reduction kernel computes the exact product modulo \<open>q\<close>, for every
  thread count, element width and window size: banding, the overflow clamp and the wide
  fallback never change the result, which is the one of the scalar kernel. \<open>barrett\<close> is
  assumed to reduce 128-bit values modulo \<open>q\<close>.\<close>

theorem chunked_exact:
  assumes "kernel_pre max_value q db rows cols query element_max out"
    and "\<And>x. x < 2 ^ 128 \<Longrightarrow> barrett q x = x mod q"
  shows "chunked_multiply_query barrett threads size_of_T max_value chunk_rows q db rows cols query element_max out
      = Inr (first_dim_spec q db rows cols query)
    \<and> scalar_multiply_query q db rows cols query element_max out = Inr (first_dim_spec q db rows cols query)"
  using chunked_spec [where barrett = barrett, OF assms] scalar_spec [OF assms(1)] by simp

theorem chunked_exact_witness:
  "chunked_multiply_query (\<lambda>q x. x mod q) 2 2 65535 2 65537 [1, 2, 3, 4, 5, 65535] 3 2 [65536, 7, 2 ^ 40] 65535 [9, 9]
     = Inr [781, 65056]"
proof -
  have "kernel_pre 65535 65537 [1, 2, 3, 4, 5, 65535] 3 2 [65536, 7, 2 ^ 40] 65535 [9, 9]"
    by (simp add: kernel_pre_def)
  moreover have "first_dim_spec 65537 [1, 2, 3, 4, 5, 65535] 3 2 [65536, 7, 2 ^ 40] = [781, 65056]"
    by code_simp
  ultimately show ?thesis
    using chunked_exact [where barrett = "\<lambda>q x. x mod q" and threads = 2 and size_of_T = 2 and chunk_rows = 2,
        OF _ refl] by metis
qed

text \<open>C16. The 8-lane AVX-512 kernel returns exactly what the scalar kernel returns, for
  every thread count and window size, on any database of 16-bit words with at least one
  row: lane sums, the scalar tail and the banded sweep lose nothing.\<close>

theorem avx512_exact:
  assumes "kernel_pre 65535 q db rows cols query element_max out" and "0 < rows" and "element_max \<le> 65535"
    and "\<And>x. x < 2 ^ 128 \<Longrightarrow> barrett q x = x mod q"
  shows "avx512_multiply_query barrett True threads chunk_rows q db rows cols query element_max out
    = scalar_multiply_query q db rows cols query element_max out"
  using avx512_spec [where barrett = barrett, OF assms] scalar_spec [OF assms(1)] by simp

theorem avx512_exact_witness:
  "avx512_multiply_query (\<lambda>q x. x mod q) True 2 8 65537 (replicate 18 3) 9 2 (replicate 9 (2 ^ 40)) 65535 [0, 0]
     = Inr [6912, 6912]"
proof -
  have "kernel_pre 65535 65537 (replicate 18 3) 9 2 (replicate 9 (2 ^ 40)) 65535 [0, 0]"
    by (simp add: kernel_pre_def all_below_set list_all_iff)
  moreover have "scalar_multiply_query 65537 (replicate 18 3) 9 2 (replicate 9 (2 ^ 40)) 65535 [0, 0] = Inr [6912, 6912]"
    by code_simp
  ultimately show ?thesis
    using avx512_exact [where barrett = "\<lambda>q x. x mod q" and threads = 2 and chunk_rows = 8, OF _ _ _ refl]
    by (metis order_refl zero_less_numeral)
qed

text \<open>C17. The power-of-two method is exact although every product and sum wraps at 64
  bits: it succeeds precisely on a non-empty matching shape with canonical query
  coefficients under a power-of-two modulus of at least two, and then returns the
  product modulo \<open>q\<close>.\<close>

theorem power_of_two_exact:
  "try_multiply_power_of_two q db rows cols query out =
     (if pow2_pre q rows cols query \<and> length db = rows * cols \<and> length query = rows \<and> length out = cols
      then Inr (first_dim_spec q db rows cols query)
      else Inl (KernelError ''invalid native matrix/query shape''))"
proof (cases "pow2_pre q rows cols query \<and> length db = rows * cols \<and> length query = rows \<and> length out = cols")
  case True
  then show ?thesis by (simp add: power_of_two_spec)
next
  case False
  then have "\<not> is_power_of_two q \<or> q < 2 \<or> rows = 0 \<or> cols = 0
      \<or> checked_mul rows cols \<noteq> Some (length db) \<or> length query \<noteq> rows
      \<or> length out \<noteq> cols \<or> list_ex (\<lambda>x. x \<ge> q) query"
    by (auto simp: pow2_pre_def checked_mul_def list_ex_iff all_below_set not_less split: if_splits)
  then have "try_multiply_power_of_two q db rows cols query out
      = Inl (KernelError ''invalid native matrix/query shape'')"
    unfolding try_multiply_power_of_two_def guardR_def by (rule if_P)
  then show ?thesis using False by simp
qed

end
