(* ===== verification/Encoding.thy ===== *)
theory Encoding
  imports Bit_Store
begin

text \<open>
  \<open>nullifier-pir/src/encoding.rs\<close>: 32-byte nullifiers packed into the 14-bit plaintext
  coefficients of one SimplePIR item. Fields are read by one unaligned 64-bit load and
  written by splicing a 64-bit word; the \<open>debug_assert\<close> on the width (1 to 57) is the
  condition of the buffer contract, which the one caller's width of 14 meets.
\<close>

section \<open>Model\<close>

definition NULLIFIER_BYTES :: nat where
  "NULLIFIER_BYTES = 32"

definition SIMPLEPIR_COEFF_BITS :: nat where
  "SIMPLEPIR_COEFF_BITS = 14"

definition SIMPLEPIR_INSTANCES_PER_ITEM :: nat where
  "SIMPLEPIR_INSTANCES_PER_ITEM = 16"

definition SIMPLEPIR_COEFFS_PER_ITEM :: nat where
  "SIMPLEPIR_COEFFS_PER_ITEM = SIMPLEPIR_INSTANCES_PER_ITEM * 2048"

definition ITEM_BYTES :: nat where
  "ITEM_BYTES = SIMPLEPIR_COEFF_BITS * SIMPLEPIR_COEFFS_PER_ITEM div 8"

definition NULLIFIERS_PER_ITEM :: nat where
  "NULLIFIERS_PER_ITEM = ITEM_BYTES div NULLIFIER_BYTES"

definition pir_row_count :: "nat \<Rightarrow> nat" where
  "pir_row_count record_count = div_ceil record_count NULLIFIERS_PER_ITEM"

text \<open>The zero-extended 8-byte window of a buffer at a byte position.\<close>

definition load_word :: "byte list \<Rightarrow> nat \<Rightarrow> byte list" where
  "load_word data byte =
     (let upto = min (byte + 8) (length data)
      in take (upto - byte) (drop byte data) @ replicate (8 - (upto - byte)) 0)"

definition read_bits_le :: "byte list \<Rightarrow> nat \<Rightarrow> nat \<Rightarrow> nat" where
  "read_bits_le data bit_offset bit_count =
     (let byte = bit_offset div 8
      in if byte \<ge> length data then 0
         else let shift = bit_offset mod 8
              in drop_bit shift (from_le_bytes (load_word data byte)) AND (2 ^ bit_count - 1))"

text \<open>The splice of \<open>write_bits_le\<close>; a byte position beyond the buffer makes the slice
  bounds of the source underflow, which panics.\<close>

definition splice_bits_le :: "byte list \<Rightarrow> nat \<Rightarrow> nat \<Rightarrow> nat \<Rightarrow> byte list" where
  "splice_bits_le data x bit_offset bit_count =
     (let byte = bit_offset div 8;
          shift = bit_offset mod 8;
          upto = min (byte + 8) (length data);
          mask = u64 (push_bit shift (2 ^ bit_count - 1));
          word = from_le_bytes (load_word data byte);
          spliced = (word AND (2 ^ 64 - 1 - mask)) OR (u64 (push_bit shift x) AND mask)
      in take byte data @ take (upto - byte) (to_le_bytes spliced) @ drop upto data)"

definition write_bits_le :: "byte list \<Rightarrow> nat \<Rightarrow> nat \<Rightarrow> nat \<Rightarrow> byte list result" where
  "write_bits_le data x bit_offset bit_count =
     guardR (length data < bit_offset div 8) (Panic ''slice index out of range'')
       (Inr (splice_bits_le data x bit_offset bit_count))"

definition encode_item_into :: "byte list \<Rightarrow> nat list \<Rightarrow> nat list result" where
  "encode_item_into item out =
     guardR (\<not> length item \<le> ITEM_BYTES) (Panic ''item must fit in one SimplePIR plaintext item'')
       (guardR (length out \<noteq> SIMPLEPIR_COEFFS_PER_ITEM) (Panic ''output must hold exactly one SimplePIR item'')
         (Inr (map (\<lambda>idx. u16 (read_bits_le item (idx * SIMPLEPIR_COEFF_BITS) SIMPLEPIR_COEFF_BITS))
                [0..<length out])))"

definition encode_item_bytes :: "byte list \<Rightarrow> nat list result" where
  "encode_item_bytes item = encode_item_into item (replicate SIMPLEPIR_COEFFS_PER_ITEM 0)"

fun decode_item_loop :: "byte list \<Rightarrow> nat \<Rightarrow> nat list \<Rightarrow> byte list result" where
  "decode_item_loop out idx [] = Inr out"
| "decode_item_loop out idx (coeff # coeffs) =
     bindR (write_bits_le out coeff (idx * SIMPLEPIR_COEFF_BITS) SIMPLEPIR_COEFF_BITS)
       (\<lambda>out'. decode_item_loop out' (idx + 1) coeffs)"

definition decode_item_coefficients :: "nat list \<Rightarrow> byte list result" where
  "decode_item_coefficients coefficients =
     guardR (\<not> length coefficients \<ge> SIMPLEPIR_COEFFS_PER_ITEM)
       (Panic ''decoded row must contain at least one SimplePIR item'')
       (decode_item_loop (replicate ITEM_BYTES 0) 0 (take SIMPLEPIR_COEFFS_PER_ITEM coefficients))"

definition nullifier_offset :: "nat \<Rightarrow> nat \<times> nat" where
  "nullifier_offset global_index = (global_index div NULLIFIERS_PER_ITEM, global_index mod NULLIFIERS_PER_ITEM)"

definition extract_nullifier :: "byte list \<Rightarrow> nat \<Rightarrow> byte list option" where
  "extract_nullifier item offset_in_item =
     (if offset_in_item \<ge> NULLIFIERS_PER_ITEM then None
      else let start = offset_in_item * NULLIFIER_BYTES; upto = start + NULLIFIER_BYTES
           in if upto \<le> length item then Some (take NULLIFIER_BYTES (drop start item)) else None)"

section \<open>Word access is bit access\<close>

lemmas item_consts = NULLIFIER_BYTES_def SIMPLEPIR_COEFF_BITS_def SIMPLEPIR_INSTANCES_PER_ITEM_def
  SIMPLEPIR_COEFFS_PER_ITEM_def ITEM_BYTES_def NULLIFIERS_PER_ITEM_def

lemma load_word_bytes: "all_below 256 data \<Longrightarrow> all_below 256 (load_word data byte)"
  by (auto simp: load_word_def Let_def all_below_set dest: in_set_takeD in_set_dropD)

lemma getbit_load_word: "getbit (load_word data byte) k \<longleftrightarrow> k < 64 \<and> getbit data (8 * byte + k)"
proof -
  have "length (take (min (byte + 8) (length data) - byte) (drop byte data)) = min (byte + 8) (length data) - byte"
    by simp
  then show ?thesis
    by (auto simp: load_word_def Let_def getbit_append getbit_take getbit_drop_at
        dest: getbit_in_range)
qed

lemma read_bits_le_bit:
  assumes "1 \<le> n" and "n \<le> 57" and "all_below 256 data"
  shows "bit (read_bits_le data off n) k \<longleftrightarrow> k < n \<and> getbit data (off + k)"
proof (cases "off div 8 \<ge> length data")
  case True
  then have "8 * length data \<le> off" by (simp add: less_eq_div_iff_mult_less_eq mult.commute)
  then have "\<not> getbit data (off + k)" by (auto dest: getbit_in_range)
  then show ?thesis using True by (simp add: read_bits_le_def)
next
  case False
  have "off mod 8 + k < 64" if "k < n" using that assms(2) mod_less_divisor [of 8 off] by linarith
  moreover have "8 * (off div 8) + (off mod 8 + k) = off + k" by simp
  ultimately show ?thesis
    using False assms(3)
    by (auto simp: read_bits_le_def Let_def bit_and_iff bit_drop_bit_eq bit_from_le_bytes
        load_word_bytes getbit_load_word simp del: mult_div_mod_eq)
qed

lemma splice_bits_le_length:
  assumes "off + n \<le> 8 * length data"
  shows "length (splice_bits_le data x off n) = length data"
proof -
  have "off div 8 \<le> length data" using assms by linarith
  then have "min (off div 8) (length data) = off div 8"
    and "min (min (off div 8 + 8) (length data) - off div 8) 8 = min (off div 8 + 8) (length data) - off div 8"
    and "off div 8 + (min (off div 8 + 8) (length data) - off div 8 + (length data - min (off div 8 + 8) (length data)))
      = length data"
    by linarith+
  then show ?thesis
    by (simp only: splice_bits_le_def Let_def length_append length_take length_drop length_to_le_bytes
        min.commute [of 8] min.commute [of "length data" "off div 8"])
qed

lemma splice_bits_le_props:
  assumes "n \<le> 57" and "off + n \<le> 8 * length data" and "all_below 256 data"
  shows "getbit (splice_bits_le data x off n) i \<longleftrightarrow>
      (if off \<le> i \<and> i < off + n then bit x (i - off) else getbit data i)"
    and "all_below 256 (splice_bits_le data x off n)"
proof -
  define byte shift upto where "byte = off div 8" and "shift = off mod 8" and "upto = min (byte + 8) (length data)"
  have off: "off = 8 * byte + shift" "shift < 8" by (simp_all add: byte_def shift_def)
  have byte: "byte \<le> length data" using assms(2) off by linarith
  define mask where "mask = u64 (push_bit shift (2 ^ n - 1))"
  define s where "s = (from_le_bytes (load_word data byte) AND (2 ^ 64 - 1 - mask)) OR (u64 (push_bit shift x) AND mask)"
  have mask: "bit mask k \<longleftrightarrow> shift \<le> k \<and> k < shift + n" for k
    using off(2) assms(1) by (auto simp: mask_def bit_u64_iff bit_push_bit_iff_nat)
  have "mask < 2 ^ 64" by (simp add: mask_def)
  then have nmask: "bit (2 ^ 64 - 1 - mask) k \<longleftrightarrow> k < 64 \<and> \<not> bit mask k" for k
    by (rule bit_complement)
  have s: "bit s k \<longleftrightarrow> (if shift \<le> k \<and> k < shift + n then bit x (k - shift) else k < 64 \<and> getbit data (8 * byte + k))" for k
    using off(2) assms(1)
    by (auto simp: s_def bit_or_iff bit_and_iff nmask [simplified] mask bit_u64_iff bit_push_bit_iff_nat
        bit_from_le_bytes load_word_bytes assms(3) getbit_load_word)
  have eq: "splice_bits_le data x off n = take byte data @ take (upto - byte) (to_le_bytes s) @ drop upto data"
    by (simp only: splice_bits_le_def Let_def s_def mask_def byte_def shift_def upto_def)
  have len8: "upto - byte \<le> 8" "byte \<le> upto" "upto \<le> length data" using byte by (auto simp: upto_def)
  have "all_below 256 (to_le_bytes s)" by (simp add: to_le_bytes_def all_below_set)
  then show "all_below 256 (splice_bits_le data x off n)"
    using assms(3) unfolding eq by (auto simp: all_below_set dest: in_set_takeD in_set_dropD)
  show "getbit (splice_bits_le data x off n) i \<longleftrightarrow>
      (if off \<le> i \<and> i < off + n then bit x (i - off) else getbit data i)"
  proof -
    consider "i < 8 * byte" | k where "i = 8 * byte + k" "k < 8 * (upto - byte)" | "8 * upto \<le> i"
    proof -
      have "i < 8 * byte \<or> (8 * byte \<le> i \<and> i - 8 * byte < 8 * (upto - byte)) \<or> 8 * upto \<le> i"
        using len8(2) by (simp add: diff_mult_distrib2) linarith
      then show ?thesis using that by (metis le_add_diff_inverse)
    qed
    then show ?thesis
    proof cases
      case 1
      then show ?thesis using off byte unfolding eq by (simp add: getbit_append getbit_take)
    next
      case 2
      then have k: "k < 64" using len8(1) by linarith
      have "getbit (splice_bits_le data x off n) i \<longleftrightarrow> bit s k"
        using 2 byte len8 k unfolding eq
        by (simp add: getbit_append getbit_take getbit_to_le_bytes)
      then show ?thesis unfolding s using 2 off(1) k by auto
    next
      case 3
      have "8 * (byte + 8) \<le> i \<or> 8 * length data \<le> i" using 3 by (auto simp: upto_def min_def split: if_splits)
      then have out: "off + n \<le> i" using assms(1,2) off by auto
      have "getbit (splice_bits_le data x off n) i \<longleftrightarrow> getbit data (8 * upto + (i - 8 * byte - 8 * (upto - byte)))"
      proof -
        have "\<not> i < 8 * byte" "\<not> i - 8 * byte < 8 * (upto - byte)" using 3 len8(2) by linarith+
        then show ?thesis
          using byte len8 unfolding eq by (simp add: getbit_append getbit_drop_at min_absorb2)
      qed
      moreover have "8 * upto + (i - 8 * byte - 8 * (upto - byte)) = i"
        using 3 len8(2) by (simp add: diff_mult_distrib2)
      ultimately show ?thesis using out by simp
    qed
  qed
qed

section \<open>The buffer contract\<close>

interpretation item_bits: bit_field_store splice_bits_le read_bits_le "\<lambda>n. 1 \<le> n \<and> n \<le> 57"
proof (unfold_locales, goal_cases)
  case (1 n data off v i)
  then show ?case by (simp add: splice_bits_le_props)
next
  case (2 n off data v)
  then show ?case by (simp add: splice_bits_le_length)
next
  case (3 n off data v)
  then show ?case by (simp add: splice_bits_le_props)
next
  case (4 n data off k)
  then show ?case by (simp add: read_bits_le_bit)
qed

section \<open>Items\<close>

lemma item_size: "SIMPLEPIR_COEFFS_PER_ITEM * SIMPLEPIR_COEFF_BITS = 8 * ITEM_BYTES"
  by (simp add: item_consts)

lemma coeff_bits_ok: "1 \<le> SIMPLEPIR_COEFF_BITS \<and> SIMPLEPIR_COEFF_BITS \<le> 57" "0 < SIMPLEPIR_COEFF_BITS"
  by (simp_all add: item_consts)

lemma decode_item_loop_ok:
  assumes "(idx + length coeffs) * SIMPLEPIR_COEFF_BITS \<le> 8 * length out"
  shows "decode_item_loop out idx coeffs
    = Inr (write_all splice_bits_le out (idx * SIMPLEPIR_COEFF_BITS) SIMPLEPIR_COEFF_BITS coeffs)"
  using assms
proof (induction coeffs arbitrary: out idx)
  case Nil
  then show ?case by simp
next
  case (Cons c coeffs)
  let ?off = "idx * SIMPLEPIR_COEFF_BITS"
  let ?out = "splice_bits_le out c ?off SIMPLEPIR_COEFF_BITS"
  have fits: "?off + SIMPLEPIR_COEFF_BITS \<le> 8 * length out"
    using Cons.prems by (simp add: add_mult_distrib)
  then have len: "length ?out = length out" by (rule splice_bits_le_length)
  have "\<not> length out < ?off div 8" using fits by linarith
  then have "decode_item_loop out idx (c # coeffs) = decode_item_loop ?out (idx + 1) coeffs"
    by (simp add: write_bits_le_def)
  also have "\<dots> = Inr (write_all splice_bits_le ?out ((idx + 1) * SIMPLEPIR_COEFF_BITS) SIMPLEPIR_COEFF_BITS coeffs)"
    using Cons.prems len by (intro Cons.IH) simp
  finally show ?case by (simp add: add.commute)
qed

lemma read_bits_le_less: "read_bits_le data off n < 2 ^ n"
  by (auto simp: read_bits_le_def Let_def and_exp_minus_Suc_0)

text \<open>The encoder's coefficients: the successive 14-bit fields of the item.\<close>

definition item_coeffs :: "byte list \<Rightarrow> nat list" where
  "item_coeffs item = map (\<lambda>idx. read_bits_le item (idx * SIMPLEPIR_COEFF_BITS) SIMPLEPIR_COEFF_BITS)
     [0..<SIMPLEPIR_COEFFS_PER_ITEM]"

lemma length_item_coeffs [simp]: "length (item_coeffs item) = SIMPLEPIR_COEFFS_PER_ITEM"
  by (simp add: item_coeffs_def)

lemma item_coeffs_less: "all_below (2 ^ SIMPLEPIR_COEFF_BITS) (item_coeffs item)"
  by (auto simp: item_coeffs_def all_below_set read_bits_le_less)

lemma encode_item_into_ok:
  assumes "length item \<le> ITEM_BYTES" and "length out = SIMPLEPIR_COEFFS_PER_ITEM"
  shows "encode_item_into item out = Inr (item_coeffs item)"
proof -
  have "u16 (read_bits_le item off SIMPLEPIR_COEFF_BITS) = read_bits_le item off SIMPLEPIR_COEFF_BITS" for off
    using read_bits_le_less [of item off SIMPLEPIR_COEFF_BITS] by (intro u16_id) (simp add: item_consts)
  then show ?thesis using assms by (simp add: encode_item_into_def item_coeffs_def)
qed

lemma read_bits_le_pad:
  assumes "1 \<le> n" and "n \<le> 57" and "all_below 256 data"
  shows "read_bits_le (data @ replicate m 0) off n = read_bits_le data off n"
proof (rule bit_eqI)
  fix k
  have "all_below 256 (data @ replicate m 0)" using assms(3) by (auto simp: all_below_set)
  then show "bit (read_bits_le (data @ replicate m 0) off n) k \<longleftrightarrow> bit (read_bits_le data off n) k"
    using assms by (simp add: read_bits_le_bit getbit_append) (auto dest: getbit_in_range)
qed

lemma decode_item_coeffs:
  assumes "length item \<le> ITEM_BYTES" and "all_below 256 item"
  shows "decode_item_coefficients (item_coeffs item) = Inr (item @ replicate (ITEM_BYTES - length item) 0)"
proof -
  let ?p = "item @ replicate (ITEM_BYTES - length item) 0"
  have p: "all_below 256 ?p" "length ?p = ITEM_BYTES" using assms by (auto simp: all_below_set)
  have same: "item_coeffs item = map (\<lambda>k. read_bits_le ?p (k * SIMPLEPIR_COEFF_BITS) SIMPLEPIR_COEFF_BITS)
      [0..<SIMPLEPIR_COEFFS_PER_ITEM]"
    using coeff_bits_ok assms(2) by (simp add: item_coeffs_def read_bits_le_pad)
  have "write_all splice_bits_le (replicate (length ?p) 0) 0 SIMPLEPIR_COEFF_BITS (item_coeffs item) = ?p"
    unfolding same using coeff_bits_ok p item_size
    by (intro item_bits.pack_from_rd) (auto dest: getbit_in_range)
  then show ?thesis
    using p(2) item_size by (simp add: decode_item_coefficients_def decode_item_loop_ok)
qed

section \<open>Properties\<close>

text \<open>C22. An item of up to 57344 bytes survives the 14-bit packing: encoding succeeds
  with 32768 coefficients below \<open>2 ^ 14\<close> and decoding them returns the item padded with
  zeros to the item size.\<close>

theorem item_roundtrip:
  assumes "length item \<le> ITEM_BYTES" and "all_below 256 item"
  shows "\<exists>coeffs. encode_item_bytes item = Inr coeffs \<and> length coeffs = SIMPLEPIR_COEFFS_PER_ITEM
    \<and> all_below (2 ^ SIMPLEPIR_COEFF_BITS) coeffs
    \<and> decode_item_coefficients coeffs = Inr (item @ replicate (ITEM_BYTES - length item) 0)"
  using encode_item_into_ok [OF assms(1)] decode_item_coeffs [OF assms] item_coeffs_less [of item]
  by (simp add: encode_item_bytes_def)

theorem item_roundtrip_witness:
  "\<exists>coeffs. encode_item_bytes [1, 200, 255] = Inr coeffs \<and> length coeffs = 32768
    \<and> all_below (2 ^ 14) coeffs
    \<and> decode_item_coefficients coeffs = Inr ([1, 200, 255] @ replicate 57341 0)"
  using item_roundtrip [of "[1, 200, 255]"] by (simp add: item_consts)

end
