(* ===== verification/Snapshot.thy ===== *)
theory Snapshot
  imports Encoding
begin

text \<open>
  \<open>nullifier-pir/src/snapshot.rs\<close>: a file of 32-byte nullifier records, random access to
  it, and the iterator that feeds the PIR database one plaintext coefficient at a time.
  The file system is the argument \<open>fs\<close>, the contents of a path when it is read; the
  iterator's state is a record, its buffered reader the bytes not read yet. Downloading a
  snapshot, hashing it and writing its metadata file are input and output only.
\<close>

section \<open>Model\<close>

record nullifier_snapshot =
  snap_path :: string
  snap_bytes :: nat
  snap_record_count :: nat

record snapshot_metadata =
  meta_source_url :: "string option"
  meta_path :: string
  meta_bytes :: nat
  meta_record_count :: nat
  meta_pir_row_count :: nat
  meta_nullifier_bytes :: nat
  meta_nullifiers_per_item :: nat
  meta_sha256 :: string
  meta_etag :: "string option"

record snapshot_coeff_iter =
  reader :: "byte list"
  it_record_count :: nat
  actual_rows :: nat
  db_rows :: nat
  current_row :: nat
  item :: "byte list"
  coeffs :: "nat list"
  coeff_idx :: nat

definition validate_snapshot_len :: "nat \<Rightarrow> unit result" where
  "validate_snapshot_len bytes =
     guardR (bytes = 0) (Anyhow ''snapshot is empty'')
       (guardR (bytes mod NULLIFIER_BYTES \<noteq> 0) (Anyhow ''snapshot length is not divisible by 32'')
         (Inr ()))"

definition open_snapshot :: "(string \<Rightarrow> byte list option) \<Rightarrow> string \<Rightarrow> nullifier_snapshot result" where
  "open_snapshot fs path =
     (case fs path of None \<Rightarrow> Inl (Anyhow ''stat snapshot'')
      | Some data \<Rightarrow>
          bindR (validate_snapshot_len (length data)) (\<lambda>_.
            Inr \<lparr>snap_path = path, snap_bytes = length data,
                 snap_record_count = length data div NULLIFIER_BYTES\<rparr>))"

definition metadata :: "nullifier_snapshot \<Rightarrow> string option \<Rightarrow> string \<Rightarrow> snapshot_metadata" where
  "metadata snap source_url sha256 =
     \<lparr>meta_source_url = source_url, meta_path = snap_path snap, meta_bytes = snap_bytes snap,
      meta_record_count = snap_record_count snap,
      meta_pir_row_count = pir_row_count (snap_record_count snap),
      meta_nullifier_bytes = NULLIFIER_BYTES, meta_nullifiers_per_item = NULLIFIERS_PER_ITEM,
      meta_sha256 = sha256, meta_etag = None\<rparr>"

text \<open>\<open>Read::read_exact\<close>: the next bytes and the rest, or the end-of-file error.\<close>

definition read_exact :: "nat \<Rightarrow> byte list \<Rightarrow> (byte list \<times> byte list) result" where
  "read_exact n rd =
     guardR (length rd < n) (Anyhow ''failed to fill whole buffer'') (Inr (take n rd, drop n rd))"

definition open_file :: "(string \<Rightarrow> byte list option) \<Rightarrow> string \<Rightarrow> byte list result" where
  "open_file fs path = (case fs path of None \<Rightarrow> Inl (Anyhow ''open'') | Some data \<Rightarrow> Inr data)"

definition read_nullifier :: "(string \<Rightarrow> byte list option) \<Rightarrow> nullifier_snapshot \<Rightarrow> nat \<Rightarrow> byte list result" where
  "read_nullifier fs snap index =
     guardR (index \<ge> snap_record_count snap) (Anyhow ''nullifier index is out of bounds'')
       (bindR (open_file fs (snap_path snap)) (\<lambda>data.
          mapR fst (read_exact NULLIFIER_BYTES (drop (index * NULLIFIER_BYTES) data))))"

fun find_loop :: "byte list \<Rightarrow> byte list \<Rightarrow> nat list \<Rightarrow> nat option result" where
  "find_loop needle rd [] = Inr None"
| "find_loop needle rd (index # rest) =
     bindR (read_exact NULLIFIER_BYTES rd) (\<lambda>(current, rd').
       if current = needle then Inr (Some index) else find_loop needle rd' rest)"

definition find_nullifier ::
    "(string \<Rightarrow> byte list option) \<Rightarrow> nullifier_snapshot \<Rightarrow> byte list \<Rightarrow> nat option result" where
  "find_nullifier fs snap needle =
     bindR (open_file fs (snap_path snap)) (\<lambda>data. find_loop needle data [0..<snap_record_count snap])"

definition coeff_iter ::
    "(string \<Rightarrow> byte list option) \<Rightarrow> nullifier_snapshot \<Rightarrow> nat \<Rightarrow> snapshot_coeff_iter result" where
  "coeff_iter fs snap rows =
     bindR (open_file fs (snap_path snap)) (\<lambda>file.
       Inr \<lparr>reader = file, it_record_count = snap_record_count snap,
            actual_rows = pir_row_count (snap_record_count snap), db_rows = rows, current_row = 0,
            item = replicate ITEM_BYTES 0, coeffs = replicate SIMPLEPIR_COEFFS_PER_ITEM 0,
            coeff_idx = SIMPLEPIR_COEFFS_PER_ITEM\<rparr>)"

text \<open>Refill the coefficients from the next row of the file, or with zeros once the
  records are used up; False when all database rows are done.\<close>

definition load_next_row :: "snapshot_coeff_iter \<Rightarrow> (bool \<times> snapshot_coeff_iter) result" where
  "load_next_row it =
     (if current_row it \<ge> db_rows it then Inr (False, it)
      else
        bindR
          (if current_row it < actual_rows it then
             let remaining_records = it_record_count it - current_row it * NULLIFIERS_PER_ITEM;
                 records_in_row = min remaining_records NULLIFIERS_PER_ITEM;
                 bytes_in_row = records_in_row * NULLIFIER_BYTES
             in bindR (read_exact bytes_in_row (reader it)) (\<lambda>(got, rest).
                  let item' = got @ drop bytes_in_row (item it)
                  in bindR (encode_item_into (take bytes_in_row item') (coeffs it)) (\<lambda>cs.
                       Inr (it\<lparr>reader := rest, item := item', coeffs := cs\<rparr>)))
           else Inr (it\<lparr>coeffs := replicate SIMPLEPIR_COEFFS_PER_ITEM 0\<rparr>))
          (\<lambda>it'. Inr (True, it'\<lparr>current_row := current_row it' + 1, coeff_idx := 0\<rparr>)))"

definition next_coeff :: "snapshot_coeff_iter \<Rightarrow> (nat option \<times> snapshot_coeff_iter) result" where
  "next_coeff it =
     bindR (if coeff_idx it = SIMPLEPIR_COEFFS_PER_ITEM
            then (case load_next_row it of
                    Inl e \<Rightarrow> Inl (Panic ''read next snapshot row'') | Inr r \<Rightarrow> Inr r)
            else Inr (True, it))
       (\<lambda>(more, it'). if \<not> more then Inr (None, it')
          else Inr (Some (coeffs it' ! coeff_idx it'), it'\<lparr>coeff_idx := coeff_idx it' + 1\<rparr>))"

text \<open>A consumer that takes up to \<open>n\<close> coefficients.\<close>

fun take_coeffs :: "nat \<Rightarrow> snapshot_coeff_iter \<Rightarrow> (nat list \<times> snapshot_coeff_iter) result" where
  "take_coeffs 0 it = Inr ([], it)"
| "take_coeffs (Suc n) it =
     bindR (next_coeff it) (\<lambda>(v, it').
       case v of None \<Rightarrow> Inr ([], it')
       | Some x \<Rightarrow> bindR (take_coeffs n it') (\<lambda>(xs, it''). Inr (x # xs, it'')))"

section \<open>Records\<close>

text \<open>Record \<open>i\<close> of a snapshot file, and the bytes of row \<open>r\<close>.\<close>

definition record_at :: "byte list \<Rightarrow> nat \<Rightarrow> byte list" where
  "record_at data i = take NULLIFIER_BYTES (drop (i * NULLIFIER_BYTES) data)"

definition row_bytes :: "byte list \<Rightarrow> nat \<Rightarrow> byte list" where
  "row_bytes data r = take ITEM_BYTES (drop (r * ITEM_BYTES) data)"

text \<open>The database the iterator is to deliver, row after row.\<close>

definition row_coeffs :: "byte list \<Rightarrow> nat \<Rightarrow> nat list" where
  "row_coeffs data r = item_coeffs (row_bytes data r)"

lemma item_records: "NULLIFIERS_PER_ITEM * NULLIFIER_BYTES = ITEM_BYTES"
  by (simp add: item_consts)

lemma item_pos: "0 < NULLIFIERS_PER_ITEM" "0 < NULLIFIER_BYTES" "0 < ITEM_BYTES" "0 < SIMPLEPIR_COEFFS_PER_ITEM"
  by (simp_all add: item_consts)

lemma open_snapshot_Inr:
  "open_snapshot fs path = Inr snap \<longleftrightarrow>
     (\<exists>data. fs path = Some data \<and> data \<noteq> [] \<and> length data mod NULLIFIER_BYTES = 0
        \<and> snap = \<lparr>snap_path = path, snap_bytes = length data,
                  snap_record_count = length data div NULLIFIER_BYTES\<rparr>)"
  by (auto simp: open_snapshot_def validate_snapshot_len_def split: option.splits)

lemma less_row_count_iff: "r < pir_row_count n \<longleftrightarrow> r * NULLIFIERS_PER_ITEM < n"
  by (simp add: pir_row_count_def less_div_ceil_iff item_pos)

section \<open>Random access\<close>

lemma read_nullifier_ok:
  assumes "open_snapshot fs path = Inr snap" and "fs path = Some data" and "i < snap_record_count snap"
  shows "read_nullifier fs snap i = Inr (record_at data i)"
proof -
  have s: "snap_path snap = path" "snap_record_count snap = length data div NULLIFIER_BYTES"
    using assms by (auto simp: open_snapshot_Inr)
  have "(i + 1) * NULLIFIER_BYTES \<le> length data"
    using assms(3) s(2) item_pos(2) by (simp add: less_eq_div_iff_mult_less_eq flip: Suc_le_eq)
  then show ?thesis
    using assms s by (simp add: read_nullifier_def open_file_def read_exact_def record_at_def)
qed

lemma find_loop_ok:
  assumes "(lo + n) * NULLIFIER_BYTES \<le> length data"
  shows "find_loop needle (drop (lo * NULLIFIER_BYTES) data) [lo..<lo + n]
    = Inr (find (\<lambda>i. record_at data i = needle) [lo..<lo + n])"
  using assms
proof (induction n arbitrary: lo)
  case 0
  then show ?case by simp
next
  case (Suc n)
  have IH: "find_loop needle (drop (NULLIFIER_BYTES + lo * NULLIFIER_BYTES) data) [Suc lo..<Suc (lo + n)]
      = Inr (find (\<lambda>i. record_at data i = needle) [Suc lo..<Suc (lo + n)])"
    using Suc.IH [of "Suc lo"] Suc.prems by simp
  have "\<not> length data - lo * NULLIFIER_BYTES < NULLIFIER_BYTES"
    using Suc.prems by (simp add: add_mult_distrib)
  then show ?case
    using IH by (simp add: upt_conv_Cons read_exact_def record_at_def add.commute del: upt_Suc)
qed

lemma find_nullifier_ok:
  assumes "open_snapshot fs path = Inr snap" and "fs path = Some data"
  shows "find_nullifier fs snap needle
    = Inr (find (\<lambda>i. record_at data i = needle) [0..<snap_record_count snap])"
proof -
  have s: "snap_path snap = path" "snap_record_count snap = length data div NULLIFIER_BYTES"
    using assms by (auto simp: open_snapshot_Inr)
  then have "snap_record_count snap * NULLIFIER_BYTES \<le> length data"
    by (simp add: div_times_less_eq_dividend)
  then show ?thesis
    using find_loop_ok [of 0 "snap_record_count snap" data needle] assms(2) s(1)
    by (simp add: find_nullifier_def open_file_def)
qed

section \<open>The coefficient iterator\<close>

lemma length_row_coeffs [simp]: "length (row_coeffs data r) = SIMPLEPIR_COEFFS_PER_ITEM"
  by (simp add: row_coeffs_def)

text \<open>The iterator between two rows: \<open>r\<close> rows delivered, the buffer used up.\<close>

definition at_row :: "byte list \<Rightarrow> nat \<Rightarrow> nat \<Rightarrow> snapshot_coeff_iter \<Rightarrow> bool" where
  "at_row data rows r it \<longleftrightarrow>
     reader it = drop (r * ITEM_BYTES) data \<and> length data mod NULLIFIER_BYTES = 0
     \<and> it_record_count it = length data div NULLIFIER_BYTES
     \<and> actual_rows it = pir_row_count (it_record_count it) \<and> db_rows it = rows \<and> current_row it = r
     \<and> length (coeffs it) = SIMPLEPIR_COEFFS_PER_ITEM \<and> coeff_idx it = SIMPLEPIR_COEFFS_PER_ITEM"

lemma item_coeffs_Nil: "item_coeffs [] = replicate SIMPLEPIR_COEFFS_PER_ITEM 0"
  by (simp add: item_coeffs_def read_bits_le_def map_replicate_const)

lemma row_bytes_len:
  assumes "n * NULLIFIER_BYTES = len"
  shows "min (n - r * NULLIFIERS_PER_ITEM) NULLIFIERS_PER_ITEM * NULLIFIER_BYTES = min (len - r * ITEM_BYTES) ITEM_BYTES"
  by (simp add: nat_mult_min_left diff_mult_distrib mult.assoc item_records assms)

lemma load_next_row_ok:
  assumes "at_row data rows r it" and "r < rows"
  shows "\<exists>it'. load_next_row it = Inr (True, it') \<and> coeffs it' = row_coeffs data r \<and> coeff_idx it' = 0
    \<and> at_row data rows (r + 1) (it'\<lparr>coeff_idx := SIMPLEPIR_COEFFS_PER_ITEM\<rparr>)"
proof -
  let ?n = "it_record_count it" and ?b = "min (length data - r * ITEM_BYTES) ITEM_BYTES"
  have inv: "reader it = drop (r * ITEM_BYTES) data" "current_row it = r" "db_rows it = rows"
    "actual_rows it = pir_row_count ?n" "length (coeffs it) = SIMPLEPIR_COEFFS_PER_ITEM"
    "?n = length data div NULLIFIER_BYTES" "length data mod NULLIFIER_BYTES = 0"
    using assms(1) by (simp_all add: at_row_def)
  have n: "?n * NULLIFIER_BYTES = length data" using inv(6,7) by auto
  have bytes: "min (?n - r * NULLIFIERS_PER_ITEM) NULLIFIERS_PER_ITEM * NULLIFIER_BYTES = ?b"
    using n by (rule row_bytes_len)
  have got: "take ?b (drop (r * ITEM_BYTES) data) = row_bytes data r"
    by (auto simp: row_bytes_def min_def)
  have rest: "drop ?b (drop (r * ITEM_BYTES) data) = drop ((r + 1) * ITEM_BYTES) data"
    by (auto simp: min_def add.commute)
  show ?thesis
  proof (cases "r < pir_row_count ?n")
    case True
    have len: "length (row_bytes data r) = ?b" by (simp add: row_bytes_def min.commute)
    have "encode_item_into (row_bytes data r) (coeffs it) = Inr (row_coeffs data r)"
      unfolding row_coeffs_def using inv(5) len by (intro encode_item_into_ok) simp_all
    then have "load_next_row it = Inr (True, it\<lparr>reader := drop ((r + 1) * ITEM_BYTES) data,
        item := row_bytes data r @ drop ?b (item it), coeffs := row_coeffs data r,
        current_row := r + 1, coeff_idx := 0\<rparr>)"
      using True assms(2) inv(1-4) got rest len
      by (simp add: load_next_row_def bytes read_exact_def Let_def)
    then show ?thesis using inv assms(1) by (simp add: at_row_def row_coeffs_def)
  next
    case False
    then have "?n * NULLIFIER_BYTES \<le> r * NULLIFIERS_PER_ITEM * NULLIFIER_BYTES"
      by (intro mult_le_mono1) (simp add: less_row_count_iff not_less)
    then have past: "length data \<le> r * ITEM_BYTES" using n by (simp add: mult.assoc item_records)
    then have "row_coeffs data r = replicate SIMPLEPIR_COEFFS_PER_ITEM 0"
      by (simp add: row_coeffs_def row_bytes_def item_coeffs_Nil)
    moreover have "load_next_row it = Inr (True, it\<lparr>coeffs := replicate SIMPLEPIR_COEFFS_PER_ITEM 0,
        current_row := r + 1, coeff_idx := 0\<rparr>)"
      using False assms(2) inv by (simp add: load_next_row_def)
    ultimately show ?thesis using inv past by (simp add: at_row_def)
  qed
qed

lemma take_in_row:
  "coeff_idx it + n \<le> SIMPLEPIR_COEFFS_PER_ITEM \<Longrightarrow> length (coeffs it) = SIMPLEPIR_COEFFS_PER_ITEM \<Longrightarrow>
   take_coeffs n it = Inr (take n (drop (coeff_idx it) (coeffs it)), it\<lparr>coeff_idx := coeff_idx it + n\<rparr>)"
proof (induction n arbitrary: it)
  case 0
  then show ?case by simp
next
  case (Suc n)
  then show ?case by (simp add: next_coeff_def Cons_nth_drop_Suc [symmetric])
qed

lemma take_row:
  assumes "at_row data rows r it" and "r < rows"
  shows "\<exists>it'. take_coeffs SIMPLEPIR_COEFFS_PER_ITEM it = Inr (row_coeffs data r, it') \<and> at_row data rows (r + 1) it'"
proof -
  obtain it1 where l: "load_next_row it = Inr (True, it1)" "coeffs it1 = row_coeffs data r" "coeff_idx it1 = 0"
    "at_row data rows (r + 1) (it1\<lparr>coeff_idx := SIMPLEPIR_COEFFS_PER_ITEM\<rparr>)"
    using load_next_row_ok [OF assms] by blast
  have "next_coeff it = next_coeff it1"
    using assms(1) l item_pos(4) by (simp add: next_coeff_def at_row_def)
  moreover obtain m where m: "SIMPLEPIR_COEFFS_PER_ITEM = Suc m" using item_pos(4) gr0_implies_Suc by blast
  ultimately have "take_coeffs SIMPLEPIR_COEFFS_PER_ITEM it = take_coeffs SIMPLEPIR_COEFFS_PER_ITEM it1"
    unfolding m by simp
  also have "\<dots> = Inr (row_coeffs data r, it1\<lparr>coeff_idx := SIMPLEPIR_COEFFS_PER_ITEM\<rparr>)"
    using take_in_row [of it1 SIMPLEPIR_COEFFS_PER_ITEM] l(2,3) by (simp add: row_coeffs_def)
  finally show ?thesis using l(4) by blast
qed

lemma take_coeffs_add:
  "take_coeffs m it = Inr (xs, it') \<Longrightarrow> length xs = m \<Longrightarrow>
   take_coeffs (m + n) it = bindR (take_coeffs n it') (\<lambda>(ys, it''). Inr (xs @ ys, it''))"
proof (induction m arbitrary: it xs)
  case 0
  then show ?case by (cases "take_coeffs n it'") auto
next
  case (Suc m)
  then obtain x zs it1 where "next_coeff it = Inr (Some x, it1)" "take_coeffs m it1 = Inr (zs, it')" "xs = x # zs"
    by (auto split: option.splits)
  then show ?case using Suc.IH [of it1 zs] Suc.prems(2) by (cases "take_coeffs n it'") auto
qed

lemma take_rows:
  "at_row data rows r it \<Longrightarrow> r + k \<le> rows \<Longrightarrow>
   \<exists>it'. take_coeffs (k * SIMPLEPIR_COEFFS_PER_ITEM) it = Inr (concat (map (row_coeffs data) [r..<r + k]), it')
     \<and> at_row data rows (r + k) it'"
proof (induction k arbitrary: r it)
  case 0
  then show ?case by simp
next
  case (Suc k)
  obtain it1 where one: "take_coeffs SIMPLEPIR_COEFFS_PER_ITEM it = Inr (row_coeffs data r, it1)"
    "at_row data rows (r + 1) it1"
    using take_row [OF Suc.prems(1)] Suc.prems(2) by auto
  obtain it' where rest: "take_coeffs (k * SIMPLEPIR_COEFFS_PER_ITEM) it1
      = Inr (concat (map (row_coeffs data) [Suc r..<Suc (r + k)]), it')" "at_row data rows (Suc (r + k)) it'"
    using Suc.IH [OF one(2)] Suc.prems(2) by auto
  show ?case
    using take_coeffs_add [OF one(1), of "k * SIMPLEPIR_COEFFS_PER_ITEM"] rest
    by (auto simp: upt_conv_Cons simp del: upt_Suc)
qed

lemma exhausted: "at_row data rows rows it \<Longrightarrow> take_coeffs n it = Inr ([], it)"
  by (cases n) (simp_all add: next_coeff_def load_next_row_def at_row_def)

lemma coeff_iter_start:
  assumes "open_snapshot fs path = Inr snap" and "fs path = Some data"
  shows "\<exists>it. coeff_iter fs snap rows = Inr it \<and> at_row data rows 0 it"
  using assms by (auto simp: open_snapshot_Inr coeff_iter_def open_file_def at_row_def)

section \<open>From a row back to its records\<close>

lemma record_in_row:
  assumes "i < length data div NULLIFIER_BYTES"
  shows "extract_nullifier (row_bytes data (i div NULLIFIERS_PER_ITEM) @ replicate m 0) (i mod NULLIFIERS_PER_ITEM)
    = Some (record_at data i)"
proof -
  define row where "row = i div NULLIFIERS_PER_ITEM"
  define off where "off = i mod NULLIFIERS_PER_ITEM"
  have i: "i = row * NULLIFIERS_PER_ITEM + off" and off: "off < NULLIFIERS_PER_ITEM"
    using item_pos(1) by (simp_all add: row_def off_def)
  have start: "i * NULLIFIER_BYTES = row * ITEM_BYTES + off * NULLIFIER_BYTES"
    by (simp add: i add_mult_distrib mult.assoc item_records)
  have "Suc off * NULLIFIER_BYTES \<le> NULLIFIERS_PER_ITEM * NULLIFIER_BYTES"
    using off by (intro mult_le_mono1) simp
  then have in_item: "off * NULLIFIER_BYTES + NULLIFIER_BYTES \<le> ITEM_BYTES"
    by (simp add: item_records add.commute)
  have "Suc i * NULLIFIER_BYTES \<le> length data"
    using assms item_pos(2) by (simp add: less_eq_div_iff_mult_less_eq flip: Suc_le_eq)
  then have in_row: "off * NULLIFIER_BYTES + NULLIFIER_BYTES \<le> length (row_bytes data row)"
    using start in_item by (simp add: row_bytes_def)
  have "take NULLIFIER_BYTES (drop (off * NULLIFIER_BYTES) (row_bytes data row @ replicate m 0))
      = take NULLIFIER_BYTES (drop (off * NULLIFIER_BYTES) (row_bytes data row))"
    using in_row by simp
  also have "\<dots> = record_at data i"
    using in_item by (simp add: record_at_def row_bytes_def start drop_take add.commute min_absorb1)
  finally show ?thesis
    using off in_row by (simp add: extract_nullifier_def Let_def flip: row_def off_def)
qed

lemma chunk_at_concat:
  "\<forall>xs\<in>set xss. length xs = d \<Longrightarrow> k < length xss \<Longrightarrow> take d (drop (k * d) (concat xss)) = xss ! k"
proof (induction xss arbitrary: k)
  case Nil
  then show ?case by simp
next
  case (Cons xs xss)
  then show ?case by (cases k) (simp_all add: add.commute)
qed

section \<open>Properties\<close>

text \<open>C23. The coefficient iterator of an opened snapshot delivers exactly the database: one
  encoded item per row of the file, zero rows up to the requested row count, then
  nothing, however many coefficients are asked for. No read fails on the way and no byte
  of a previous row leaks into a short final row.\<close>

theorem coeff_iter_delivers:
  assumes "open_snapshot fs path = Inr snap" and "fs path = Some data"
  shows "\<exists>it it'. coeff_iter fs snap rows = Inr it
    \<and> take_coeffs (rows * SIMPLEPIR_COEFFS_PER_ITEM + extra) it
        = Inr (concat (map (\<lambda>r. item_coeffs (row_bytes data r)) [0..<rows]), it')"
proof -
  obtain it where it: "coeff_iter fs snap rows = Inr it" "at_row data rows 0 it"
    using coeff_iter_start [OF assms] by blast
  obtain it' where it': "take_coeffs (rows * SIMPLEPIR_COEFFS_PER_ITEM) it
      = Inr (concat (map (row_coeffs data) [0..<rows]), it')" "at_row data rows rows it'"
    using take_rows [OF it(2), of rows] by auto
  have "length (concat (map (row_coeffs data) [0..<rows])) = rows * SIMPLEPIR_COEFFS_PER_ITEM"
    by (simp add: length_concat comp_def sum_list_triv)
  then have "take_coeffs (rows * SIMPLEPIR_COEFFS_PER_ITEM + extra) it
      = Inr (concat (map (row_coeffs data) [0..<rows]), it')"
    using take_coeffs_add [OF it'(1)] exhausted [OF it'(2)] by simp
  then show ?thesis using it(1) by (simp add: row_coeffs_def [abs_def])
qed

theorem coeff_iter_delivers_witness:
  "\<exists>it it'. coeff_iter (\<lambda>p. Some (replicate 64 7)) \<lparr>snap_path = ''f'', snap_bytes = 64, snap_record_count = 2\<rparr> 3 = Inr it
    \<and> take_coeffs (3 * SIMPLEPIR_COEFFS_PER_ITEM + 5) it
        = Inr (concat (map (\<lambda>r. item_coeffs (row_bytes (replicate 64 7) r)) [0..<3]), it')"
proof (rule coeff_iter_delivers)
  show "open_snapshot (\<lambda>p. Some (replicate 64 7)) ''f''
      = Inr \<lparr>snap_path = ''f'', snap_bytes = 64, snap_record_count = 2\<rparr>"
    by (simp add: open_snapshot_Inr item_consts)
qed simp

text \<open>C24. A nullifier is where the index arithmetic says: for every record of an opened
  snapshot, decoding the row of delivered coefficients at \<open>nullifier_offset\<close> and extracting
  the slot gives the record that random access reads from the file.\<close>

theorem nullifier_retrieval:
  assumes "open_snapshot fs path = Inr snap" and "fs path = Some data" and "all_below 256 data"
    and "i < snap_record_count snap" and "snd (nullifier_offset i) = off" and "fst (nullifier_offset i) = row"
    and "row < rows"
    and "coeff_iter fs snap rows = Inr it" and "take_coeffs (rows * SIMPLEPIR_COEFFS_PER_ITEM) it = Inr (db, it')"
  shows "\<exists>bytes. decode_item_coefficients (take SIMPLEPIR_COEFFS_PER_ITEM (drop (row * SIMPLEPIR_COEFFS_PER_ITEM) db))
      = Inr bytes \<and> (\<exists>nullifier. extract_nullifier bytes off = Some nullifier
        \<and> read_nullifier fs snap i = Inr nullifier)"
proof -
  have "at_row data rows 0 it" using coeff_iter_start [OF assms(1,2), of rows] assms(8) by simp
  then have db: "db = concat (map (row_coeffs data) [0..<rows])"
    using take_rows [of data rows 0 it rows] assms(9) by auto
  have row: "take SIMPLEPIR_COEFFS_PER_ITEM (drop (row * SIMPLEPIR_COEFFS_PER_ITEM) db) = row_coeffs data row"
    using chunk_at_concat [of "map (row_coeffs data) [0..<rows]" SIMPLEPIR_COEFFS_PER_ITEM row] assms(7)
    by (simp add: db)
  have rc: "snap_record_count snap = length data div NULLIFIER_BYTES"
    using assms(1,2) by (auto simp: open_snapshot_Inr)
  have "length (row_bytes data row) \<le> ITEM_BYTES" "all_below 256 (row_bytes data row)"
    using assms(3) by (auto simp: row_bytes_def all_below_set dest: in_set_takeD in_set_dropD)
  note dec = decode_item_coeffs [OF this]
  show ?thesis
    using dec record_in_row [of i data "ITEM_BYTES - length (row_bytes data row)"] assms(4-6) rc
      read_nullifier_ok [OF assms(1,2,4)]
    unfolding row by (auto simp: row_coeffs_def nullifier_offset_def)
qed

theorem nullifier_retrieval_witness:
  "\<exists>it db it' bytes. coeff_iter (\<lambda>p. Some (replicate 32 1 @ replicate 32 9))
        \<lparr>snap_path = ''f'', snap_bytes = 64, snap_record_count = 2\<rparr> 4 = Inr it
    \<and> take_coeffs (4 * SIMPLEPIR_COEFFS_PER_ITEM) it = Inr (db, it')
    \<and> decode_item_coefficients (take SIMPLEPIR_COEFFS_PER_ITEM (drop (0 * SIMPLEPIR_COEFFS_PER_ITEM) db)) = Inr bytes
    \<and> extract_nullifier bytes 1 = Some (replicate 32 9)"
proof -
  let ?fs = "\<lambda>p::string. Some (replicate 32 1 @ replicate 32 (9::nat))"
  let ?snap = "\<lparr>snap_path = ''f'', snap_bytes = 64, snap_record_count = 2\<rparr>"
  have op: "open_snapshot ?fs ''f'' = Inr ?snap" by (simp add: open_snapshot_Inr item_consts)
  obtain it where it: "coeff_iter ?fs ?snap 4 = Inr it" "at_row (replicate 32 1 @ replicate 32 9) 4 0 it"
    using coeff_iter_start [OF op] by auto
  obtain db it' where db: "take_coeffs (4 * SIMPLEPIR_COEFFS_PER_ITEM) it = Inr (db, it')"
    using take_rows [OF it(2), of 4] by auto
  have "read_nullifier ?fs ?snap 1 = Inr (replicate 32 9)"
    by (simp add: read_nullifier_def open_file_def read_exact_def item_consts)
  then show ?thesis
    using nullifier_retrieval [OF op refl _ _ _ _ _ it(1) db, of 1 1 0] it(1) db
    by (force simp: all_below_set nullifier_offset_def item_consts)
qed

text \<open>C25. Searching the file finds the first record equal to the needle and nothing else,
  and reading back at the index found returns the needle.\<close>

theorem find_then_read:
  assumes "open_snapshot fs path = Inr snap" and "fs path = Some data"
  shows "(find_nullifier fs snap needle = Inr None \<and> (\<forall>i<snap_record_count snap. read_nullifier fs snap i \<noteq> Inr needle))
    \<or> (\<exists>i<snap_record_count snap. find_nullifier fs snap needle = Inr (Some i)
         \<and> read_nullifier fs snap i = Inr needle \<and> (\<forall>j<i. read_nullifier fs snap j \<noteq> Inr needle))"
proof (cases "find (\<lambda>i. record_at data i = needle) [0..<snap_record_count snap]")
  case None
  then show ?thesis
    using find_nullifier_ok [OF assms] read_nullifier_ok [OF assms] by (auto simp: find_None_iff)
next
  case (Some i)
  then have "i < snap_record_count snap" "record_at data i = needle" "\<forall>j<i. record_at data j \<noteq> needle"
    by (auto simp: find_Some_iff)
  then show ?thesis
    using Some find_nullifier_ok [OF assms] read_nullifier_ok [OF assms] by auto
qed

theorem find_then_read_witness:
  "find_nullifier (\<lambda>p. Some (replicate 32 1 @ replicate 64 9))
     \<lparr>snap_path = ''f'', snap_bytes = 96, snap_record_count = 3\<rparr> (replicate 32 9) = Inr (Some 1)"
proof -
  let ?fs = "\<lambda>p::string. Some (replicate 32 1 @ replicate 64 (9::nat))"
  let ?snap = "\<lparr>snap_path = ''f'', snap_bytes = 96, snap_record_count = 3\<rparr>"
  have op: "open_snapshot ?fs ''f'' = Inr ?snap" by (simp add: open_snapshot_Inr item_consts)
  have "read_nullifier ?fs ?snap 0 \<noteq> Inr (replicate 32 9)" "read_nullifier ?fs ?snap 1 = Inr (replicate 32 9)"
    by (simp_all add: read_nullifier_def open_file_def read_exact_def item_consts replicate_eq_replicate)
  then show ?thesis
    using find_then_read [OF op refl, of "replicate 32 9"]
    by (auto simp: less_Suc_eq numeral_3_eq_3 not_less)
qed

end
