(* ===== verification/Modulus_Switch.thy ===== *)
theory Modulus_Switch
  imports Bits
begin

text \<open>
  Modulus switching: the Appendix D.1 helpers of \<open>reinspiring/src/modswitch.rs\<close>
  (centring, rounding between moduli, approximate division by the degree) and the
  response and query transport of \<open>ipir-sp/src/modulus_switch.rs\<close>. Moduli are non-zero
  (a zero modulus panics in the source). \<open>from_ntt\<close> stands for \<open>spiral_rs::poly::from_ntt_alloc\<close>,
  code outside the repository. \<open>query_modulus_bits\<close> chooses a width by floating-point
  logarithms and is not modelled; every theorem on the query transport holds for any
  width.
\<close>

section \<open>Model: reinspiring\<close>

definition center :: "nat \<Rightarrow> nat \<Rightarrow> int" where
  "center x q =
     (let x = x mod q; half = q div 2
      in if x > half then i64 (i64 (int x) - i64 (int q)) else i64 (int x))"

definition modulus_switch_coeff :: "nat \<Rightarrow> nat \<Rightarrow> nat \<Rightarrow> nat" where
  "modulus_switch_coeff x from_q to_q =
     (let xc = center x from_q;
          num = i128 (xc * int to_q);
          den = int from_q;
          rounded = (if num \<ge> 0 then tdiv (i128 (num + den div 2)) den else tdiv (i128 (num - den div 2)) den)
      in rem_euclid rounded to_q)"

definition modulus_switch_poly :: "nat list \<Rightarrow> nat \<Rightarrow> nat \<Rightarrow> nat list result" where
  "modulus_switch_poly coeffs from_q to_q =
     guardR (from_q < to_q) (InvalidParams ''modulus_switch: from_q must be at least to_q'')
       (Inr (map (\<lambda>x. modulus_switch_coeff x from_q to_q) coeffs))"

definition approx_div_by_d_coeff :: "nat \<Rightarrow> nat \<Rightarrow> nat \<Rightarrow> nat" where
  "approx_div_by_d_coeff c d q =
     (let xc = center c q;
          div0 = tdiv xc (int d);
          div1 = (if xc < 0 \<and> tmod xc (int d) \<noteq> 0 then div0 - 1 else div0)
      in rem_euclid div1 q)"

definition approx_div_by_d_poly :: "nat list \<Rightarrow> nat \<Rightarrow> nat \<Rightarrow> nat list" where
  "approx_div_by_d_poly coeffs d q = map (\<lambda>c. approx_div_by_d_coeff c d q) coeffs"

definition ediv_infinity_bound :: "nat \<Rightarrow> nat" where
  "ediv_infinity_bound d = min (d * d) (2 ^ 64 - 1)"

section \<open>Model: response and query transport\<close>

definition rescale :: "nat \<Rightarrow> nat \<Rightarrow> nat \<Rightarrow> nat result" where
  "rescale v q_in q_out =
     guardR (\<not> q_in > 0) (Panic ''input modulus must be non-zero'')
       (guardR (\<not> q_out > 0) (Panic ''output modulus must be non-zero'')
         (let q_in_i64 = i64 (int q_in);
              q_out_i128 = int q_out;
              c0 = i64 (int (v mod q_in));
              centered = (if c0 \<ge> tdiv q_in_i64 2 then i64 (c0 - q_in_i64) else c0);
              sign = (if centered \<ge> 0 then 1 else - 1);
              numerator = i128 (centered * int q_out + sign * tdiv q_in_i64 2);
              r0 = tdiv numerator (int q_in);
              r1 = tmod (i128 (r0 + int (q_in div q_out * q_out) + 2 * q_out_i128)) q_out_i128
          in Inr (as_u64 (tmod (r1 + q_out_i128) q_out_i128))))"

definition modulus_bits :: "nat \<Rightarrow> nat result" where
  "modulus_bits modulus =
     guardR (\<not> modulus > 1) (Panic ''modulus must be at least 2'') (Inr (bit_len (modulus - 1)))"

definition query_coeff_down :: "nat \<Rightarrow> nat \<Rightarrow> nat \<Rightarrow> nat result" where
  "query_coeff_down coeff q bits =
     bindR (modulus_bits q) (\<lambda>mb.
       if bits \<ge> mb then Inr coeff
       else let target = 2 ^ bits;
                scaled = u128 (u128 (coeff * target) + q div 2) div q
            in Inr (u64 (scaled AND (target - 1))))"

definition query_coeff_up :: "nat \<Rightarrow> nat \<Rightarrow> nat \<Rightarrow> nat result" where
  "query_coeff_up coeff q bits =
     bindR (modulus_bits q) (\<lambda>mb.
       if bits \<ge> mb then Inr coeff
       else guardR (bits = 0) (Panic ''attempt to subtract with overflow'')
         (let numerator = u128 (u128 (coeff * q) + 2 ^ (bits - 1));
              lifted = u64 (drop_bit bits numerator)
          in Inr (if lifted \<ge> q then lifted - q else lifted)))"

text \<open>The packing loops: rescale each coefficient and write it behind the previous one;
  the buffer and the bit offset are the loop's state.\<close>

fun switch_loop :: "nat \<Rightarrow> nat \<Rightarrow> nat \<Rightarrow> byte list \<times> nat \<Rightarrow> nat list \<Rightarrow> (byte list \<times> nat) result" where
  "switch_loop q_in q_out bits st [] = Inr st"
| "switch_loop q_in q_out bits (out, offs) (coeff # coeffs) =
     bindR (rescale coeff q_in q_out) (\<lambda>v.
       switch_loop q_in q_out bits (write_bits out v offs bits, offs + bits) coeffs)"

fun recover_loop :: "byte list \<Rightarrow> nat \<Rightarrow> nat \<Rightarrow> nat \<Rightarrow> nat \<Rightarrow> nat \<Rightarrow> (nat list \<times> nat) result" where
  "recover_loop data q_in q_out bits offs 0 = Inr ([], offs)"
| "recover_loop data q_in q_out bits offs (Suc n) =
     bindR (read_bits data offs bits) (\<lambda>switched.
       bindR (rescale switched q_in q_out) (\<lambda>v.
         bindR (recover_loop data q_in q_out bits (offs + bits) n) (\<lambda>(vs, offs').
           Inr (v # vs, offs'))))"

definition switch_coeffs_single_crt :: "nat list \<Rightarrow> nat \<Rightarrow> nat \<Rightarrow> byte list result" where
  "switch_coeffs_single_crt coeffs q_in q_out =
     bindR (modulus_bits q_out) (\<lambda>bits.
       mapR fst (switch_loop q_in q_out bits (replicate (div_ceil (length coeffs * bits) 8) 0, 0) coeffs))"

definition recover_coeffs_single_crt :: "byte list \<Rightarrow> nat \<Rightarrow> nat \<Rightarrow> nat \<Rightarrow> nat list result" where
  "recover_coeffs_single_crt ciphertext coeff_count q_in q_out =
     bindR (modulus_bits q_in) (\<lambda>bits.
       guardR (length ciphertext \<noteq> div_ceil (coeff_count * bits) 8)
         (Panic ''single-CRT ciphertext length mismatch'')
         (mapR fst (recover_loop ciphertext q_in q_out bits 0 coeff_count)))"

definition switched_rlwe_response_len :: "nat \<Rightarrow> nat \<Rightarrow> nat \<Rightarrow> nat result" where
  "switched_rlwe_response_len degree q_prime_1 q_prime_2 =
     bindR (modulus_bits q_prime_2) (\<lambda>b2. bindR (modulus_bits q_prime_1) (\<lambda>b1.
       Inr (div_ceil (degree * (b2 + b1)) 8)))"

definition switch_rlwe_rows :: "nat list \<Rightarrow> nat list \<Rightarrow> nat \<Rightarrow> nat \<Rightarrow> nat \<Rightarrow> byte list result" where
  "switch_rlwe_rows row_0 row_1 q_in q_prime_1 q_prime_2 =
     guardR (length row_0 \<noteq> length row_1) (Panic ''RLWE rows must have same degree'')
       (bindR (modulus_bits q_prime_2) (\<lambda>row_0_bits. bindR (modulus_bits q_prime_1) (\<lambda>row_1_bits.
          bindR (switched_rlwe_response_len (length row_0) q_prime_1 q_prime_2) (\<lambda>len.
            bindR (switch_loop q_in q_prime_2 row_0_bits (replicate len 0, 0) row_0) (\<lambda>st.
              mapR fst (switch_loop q_in q_prime_1 row_1_bits st row_1))))))"

definition recover_rlwe_rows :: "byte list \<Rightarrow> nat \<Rightarrow> nat \<Rightarrow> nat \<Rightarrow> nat \<Rightarrow> (nat list \<times> nat list) result" where
  "recover_rlwe_rows ciphertext degree q_prime_1 q_prime_2 q_out =
     bindR (switched_rlwe_response_len degree q_prime_1 q_prime_2) (\<lambda>len.
       guardR (length ciphertext \<noteq> len) (Panic ''serialized RLWE response length mismatch'')
         (bindR (modulus_bits q_prime_2) (\<lambda>row_0_bits. bindR (modulus_bits q_prime_1) (\<lambda>row_1_bits.
            bindR (recover_loop ciphertext q_prime_2 q_out row_0_bits 0 degree) (\<lambda>(row_0, offs).
              bindR (recover_loop ciphertext q_prime_1 q_out row_1_bits offs degree) (\<lambda>(row_1, offs').
                Inr (row_0, row_1)))))))"

text \<open>A packed RLWE ciphertext: its shape, its modulus and its NTT-domain content.\<close>

record 'n rlwe_ciphertext =
  ct_rows :: nat
  ct_cols :: nat
  ct_modulus :: nat
  ct_poly_len :: nat
  ct_ntt :: 'n

definition ct_shape_asserts :: "'n rlwe_ciphertext \<Rightarrow> 'a result \<Rightarrow> 'a result" where
  "ct_shape_asserts ct body =
     guardR (ct_rows ct \<noteq> 2) (Panic ''packed RLWE ciphertext must have 2 rows'')
       (guardR (ct_cols ct \<noteq> 1) (Panic ''packed RLWE ciphertext must have 1 column'') body)"

definition switch_rlwe_ciphertext ::
    "('n \<Rightarrow> nat list \<times> nat list) \<Rightarrow> 'n rlwe_ciphertext \<Rightarrow> nat \<Rightarrow> nat \<Rightarrow> byte list result" where
  "switch_rlwe_ciphertext from_ntt ct q_prime_1 q_prime_2 =
     ct_shape_asserts ct
       (let (row_0, row_1) = from_ntt (ct_ntt ct)
        in switch_rlwe_rows row_0 row_1 (ct_modulus ct) q_prime_1 q_prime_2)"

definition response_body_len :: "nat \<Rightarrow> nat \<Rightarrow> nat result" where
  "response_body_len degree q_prime_1 = mapR (\<lambda>bits. div_ceil (degree * bits) 8) (modulus_bits q_prime_1)"

definition published_c1_len :: "nat \<Rightarrow> nat \<Rightarrow> nat result" where
  "published_c1_len degree q = mapR (\<lambda>bits. div_ceil (degree * bits) 8) (modulus_bits q)"

definition recover_published_c1 :: "byte list \<Rightarrow> nat \<Rightarrow> nat \<Rightarrow> nat \<Rightarrow> nat list list result" where
  "recover_published_c1 data degree blocks q =
     bindR (published_c1_len degree q) (\<lambda>row_len.
       guardR (length data \<noteq> blocks * row_len) (Panic ''published c1 must be whole rows'')
         (guardR (row_len = 0) (Panic ''chunk_size must not be zero'')
           (bindR (modulus_bits q) (\<lambda>bits.
             collectR (\<lambda>chunk. mapR (take degree) (contiguous_bytes_to_u64s chunk bits))
               (chunks_exact row_len data)))))"

definition serialize_rlwe_response_bodies ::
    "('n \<Rightarrow> nat list \<times> nat list) \<Rightarrow> 'n rlwe_ciphertext list \<Rightarrow> nat \<Rightarrow> byte list result" where
  "serialize_rlwe_response_bodies from_ntt cts q_prime_1 =
     mapR concat (collectR (\<lambda>ct. ct_shape_asserts ct
        (bindR (collectR (\<lambda>coeff. rescale coeff (ct_modulus ct) q_prime_1) (snd (from_ntt (ct_ntt ct)))) (\<lambda>switched.
          bindR (modulus_bits q_prime_1) (\<lambda>bits.
            Inr (u64s_to_contiguous_bytes switched bits))))) cts)"

definition recover_response_body :: "byte list \<Rightarrow> nat \<Rightarrow> nat \<Rightarrow> nat \<Rightarrow> nat list result" where
  "recover_response_body data degree q_prime_1 q_out =
     bindR (modulus_bits q_prime_1) (\<lambda>bits.
       bindR (contiguous_bytes_to_u64s data bits) (\<lambda>row.
         collectR (\<lambda>coeff. rescale coeff q_prime_1 q_out) (take degree row)))"

definition serialize_rlwe_response ::
    "('n \<Rightarrow> nat list \<times> nat list) \<Rightarrow> 'n rlwe_ciphertext list \<Rightarrow> nat \<Rightarrow> nat \<Rightarrow> byte list result" where
  "serialize_rlwe_response from_ntt cts q_prime_1 q_prime_2 =
     mapR concat (collectR (\<lambda>ct. switch_rlwe_ciphertext from_ntt ct q_prime_1 q_prime_2) cts)"

section \<open>Rounding between moduli\<close>

lemma round_near:
  fixes a r s :: int and v q b :: nat
  assumes "\<bar>r * int b - a * int q\<bar> \<le> s" and "a mod int b = int v mod int b"
  shows "near (q * b) s (int v * int q) (r mod int q * int b)"
proof (rule nearI)
  show "\<bar>r * int b - a * int q\<bar> \<le> s" by (fact assms(1))
  have "a * int q mod (int b * int q) = int v * int q mod (int b * int q)"
    using assms(2) by (simp add: mult.commute [of _ "int q"] mult.commute [of "int b"] mod_mult_mult1)
  then have "(int v * int q + (r * int b - a * int q)) mod (int q * int b)
      = (a * int q + (r * int b - a * int q)) mod (int q * int b)"
    by (metis mod_add_left_eq mult.commute)
  then show "r mod int q * int b mod int (q * b) = (int v * int q + (r * int b - a * int q)) mod int (q * b)"
    by (simp add: mult.commute [of _ "int b"] mult.commute [of "int q" "int b"] mod_mult_mult1)
qed

lemma center_props:
  assumes "0 < q" and "q < 2 ^ 63"
  shows "center x q mod int q = int x mod int q" and "2 * \<bar>center x q\<bar> \<le> int q"
    and "- int q < 2 * center x q"
proof -
  have x: "x mod q < q" using assms(1) by simp
  have val: "center x q = (if x mod q > q div 2 then int (x mod q) - int q else int (x mod q))"
    using x assms(2) by (simp add: center_def Let_def i64_id)
  have "(int (x mod q) - int q) mod int q = int x mod int q"
    by (simp add: zmod_int)
  then show "center x q mod int q = int x mod int q" by (simp add: val zmod_int)
  show "2 * \<bar>center x q\<bar> \<le> int q" "- int q < 2 * center x q" using x by (auto simp: val)
qed

lemma i128_small: "\<bar>x\<bar> < 2 ^ 126 \<Longrightarrow> i128 x = x"
  by (intro i128_id) simp_all

lemma abs_mult_less: "\<bar>a\<bar> < 2 ^ 62 \<Longrightarrow> \<bar>b\<bar> < 2 ^ 63 \<Longrightarrow> \<bar>a * b\<bar> < 2 ^ 125" for a b :: int
proof -
  assume h: "\<bar>a\<bar> < 2 ^ 62" "\<bar>b\<bar> < 2 ^ 63"
  have "\<bar>a * b\<bar> = \<bar>a\<bar> * \<bar>b\<bar>" by (rule abs_mult)
  also have "\<dots> \<le> (2 ^ 62 - 1) * (2 ^ 63 - 1)" using h by (intro mult_mono) auto
  also have "\<dots> < 2 ^ 125" by simp
  finally show ?thesis .
qed

lemma modulus_switch_coeff_near:
  assumes "0 < from_q" and "from_q < 2 ^ 63" and "0 < to_q" and "to_q < 2 ^ 63"
  shows "near (to_q * from_q) (int from_q div 2) (int x * int to_q) (int (modulus_switch_coeff x from_q to_q) * int from_q)"
    and "modulus_switch_coeff x from_q to_q < to_q"
proof -
  let ?a = "center x from_q" and ?d = "int from_q"
  have c: "2 * \<bar>?a\<bar> \<le> ?d" "?a mod ?d = int x mod ?d"
    using center_props [OF assms(1,2)] by simp_all
  have d: "?d < 2 ^ 63" using assms(2) by simp
  then have "\<bar>?a\<bar> < 2 ^ 62" using c(1) by simp
  then have num: "\<bar>?a * int to_q\<bar> < 2 ^ 125"
    using assms(4) by (intro abs_mult_less) simp_all
  have half: "0 \<le> ?d div 2" "?d div 2 < 2 ^ 62" using d by simp_all
  let ?n = "?a * int to_q"
  define r where "r = tdiv (if 0 \<le> ?n then ?n + ?d div 2 else ?n - ?d div 2) ?d"
  have "i128 ?n = ?n" "i128 (?n + ?d div 2) = ?n + ?d div 2" "i128 (?n - ?d div 2) = ?n - ?d div 2"
    using num half by (auto intro!: i128_small)
  then have val: "int (modulus_switch_coeff x from_q to_q) = r mod int to_q"
    using assms(3) by (simp add: modulus_switch_coeff_def Let_def rem_euclid_def r_def)
  have "\<bar>r * ?d - ?n\<bar> \<le> ?d div 2"
    unfolding r_def using assms(1) by (intro trunc_round_error) simp
  then show "near (to_q * from_q) (?d div 2) (int x * int to_q) (int (modulus_switch_coeff x from_q to_q) * ?d)"
    unfolding val using c(2) by (rule round_near)
  show "modulus_switch_coeff x from_q to_q < to_q"
    using assms(3) by (simp add: modulus_switch_coeff_def Let_def rem_euclid_def nat_less_iff)
qed

text \<open>The transport rounding, reduced to a rounded value modulo \<open>q_out\<close>.\<close>

lemma rescale_near:
  assumes "0 < q_in" and "q_in < 2 ^ 62" and "0 < q_out" and "q_out < 2 ^ 62"
  shows "\<exists>r. rescale v q_in q_out = Inr r \<and> r < q_out
    \<and> near (q_out * q_in) (int q_in div 2) (int v * int q_out) (int r * int q_in)"
proof -
  let ?b = "int q_in" and ?q = "int q_out" and ?h = "int q_in div 2"
  define c0 where "c0 = int (v mod q_in)"
  define a where "a = (if c0 \<ge> ?h then c0 - ?b else c0)"
  define r0 where "r0 = tdiv (if 0 \<le> a * ?q then a * ?q + ?h else a * ?q - ?h) ?b"
  have pos: "0 < ?b" "0 < ?q" "?b < 2 ^ 62" "?q < 2 ^ 62" using assms by simp_all
  have c0: "0 \<le> c0" "c0 < ?b" using assms(1) by (simp_all add: c0_def)
  have a: "a mod ?b = int v mod ?b" "\<bar>a\<bar> \<le> ?b"
    using c0 by (auto simp: a_def) (simp_all add: c0_def zmod_int)
  have aq: "\<bar>a * ?q\<bar> \<le> ?b * ?q"
    using a(2) pos by (simp add: abs_mult)
  have bq: "?b * ?q \<le> 2 ^ 124"
    using pos mult_mono [of ?b "2 ^ 62" ?q "2 ^ 62"] by simp
  have h: "0 \<le> ?h" "?h < 2 ^ 62" "2 * ?h \<le> ?b" using pos by simp_all
  have sgn: "0 \<le> a \<longleftrightarrow> 0 \<le> a * ?q" using pos by (simp add: zero_le_mult_iff)
  have err: "\<bar>r0 * ?b - a * ?q\<bar> \<le> ?h"
    unfolding r0_def using pos(1) by (rule trunc_round_error)
  have "r0 * ?b \<le> ?b * ?q + ?b" "- (?b * ?q) - ?b \<le> r0 * ?b" using err aq h pos by linarith+
  then have "r0 * ?b \<le> (?q + 1) * ?b" "(- ?q - 1) * ?b \<le> r0 * ?b" by (simp_all add: algebra_simps)
  then have r0: "r0 \<le> ?q + 1" "- ?q - 1 \<le> r0" using pos(1) by (simp_all add: mult_le_cancel_right)
  have num: "i128 (a * ?q + (if a \<ge> 0 then 1 else - 1) * ?h) = (if 0 \<le> a * ?q then a * ?q + ?h else a * ?q - ?h)"
    using aq bq h sgn by (subst i128_small) auto
  define m where "m = int (q_in div q_out * q_out)"
  have m: "0 \<le> m" "m \<le> ?b" "m mod ?q = 0" unfolding m_def of_nat_le_iff by (simp_all add: div_times_less_eq_dividend)
  have "0 \<le> r0 + m + 2 * ?q" using r0 m pos by linarith
  moreover have "\<bar>r0 + m + 2 * ?q\<bar> < 2 ^ 126" using r0 m pos by simp
  ultimately have r1: "tmod (i128 (r0 + m + 2 * ?q)) ?q = r0 mod ?q"
    using pos m(3) by (simp add: i128_small tmod_nonneg) (metis add.commute add_0 mod_add_right_eq)
  have r1b: "0 \<le> r0 mod ?q" "r0 mod ?q < ?q" using pos by simp_all
  have r2: "tmod (r0 mod ?q + ?q) ?q = r0 mod ?q" using r1b pos by (simp add: tmod_nonneg)
  have r3: "as_u64 (r0 mod ?q) = nat (r0 mod ?q)"
    unfolding as_u64_def using r1b(1) less_trans [OF r1b(2), of "2 ^ 64"] pos(4)
    by (subst mod_pos_pos_trivial) simp_all
  have casts: "i64 ?b = ?b" "i64 c0 = c0" "i64 (c0 - ?b) = c0 - ?b" "tdiv ?b 2 = ?h"
    using pos c0 by (simp_all add: i64_id tdiv_nonneg)
  have "rescale v q_in q_out = Inr (as_u64 (tmod (tmod (i128 (tdiv (i128 (a * ?q
      + (if a \<ge> 0 then 1 else - 1) * ?h)) ?b + m + 2 * ?q)) ?q + ?q) ?q))"
    by (simp only: rescale_def Let_def guardR_def assms(1,3) not_True_eq_False if_False casts
        flip: c0_def a_def m_def)
  then have val: "rescale v q_in q_out = Inr (nat (r0 mod ?q))"
    by (simp only: num r0_def [symmetric] r1 r2 r3)
  show ?thesis
    using val r1b round_near [OF err a(1)] by (simp add: nat_less_iff)
qed

definition good_modulus :: "nat \<Rightarrow> bool" where
  "good_modulus q \<longleftrightarrow> 1 < q \<and> q < 2 ^ 62"

definition rescale_val :: "nat \<Rightarrow> nat \<Rightarrow> nat \<Rightarrow> nat" where
  "rescale_val v q_in q_out = projr (rescale v q_in q_out)"

lemma rescale_val:
  assumes "good_modulus q_in" and "good_modulus q_out"
  shows "rescale v q_in q_out = Inr (rescale_val v q_in q_out)" and "rescale_val v q_in q_out < q_out"
    and "near (q_out * q_in) (int q_in div 2) (int v * int q_out) (int (rescale_val v q_in q_out) * int q_in)"
  using rescale_near [of q_in q_out v] assms by (auto simp: good_modulus_def rescale_val_def)

text \<open>Switching down and lifting back: the rounding radius of the two moduli.\<close>

definition switch_radius :: "nat \<Rightarrow> nat \<Rightarrow> int" where
  "switch_radius q q' = (int q div 2 + int q' div 2) div int q'"

lemma there_and_back:
  assumes "0 < q'" and "near (q' * q) (int q div 2) (int v * int q') (int y * int q)"
    and "near (q * q') (int q' div 2) (int y * int q) (int z * int q')"
  shows "near q (switch_radius q q') (int v) (int z)"
proof -
  have "near (q * q') (int q div 2 + int q' div 2) (int v * int q') (int z * int q')"
    using near_trans [OF assms(2) assms(3) [unfolded mult.commute [of q]]] by (simp add: mult.commute)
  then show ?thesis unfolding switch_radius_def using assms(1) by (rule near_scale)
qed

lemma rescale_back:
  assumes "good_modulus q" and "good_modulus q'"
  shows "near q (switch_radius q q') (int v) (int (rescale_val (rescale_val v q q') q' q))"
  using assms rescale_val(3) [OF assms] rescale_val(3) [OF assms(2,1)]
  by (intro there_and_back) (auto simp: good_modulus_def)

lemma modulus_bits_ok:
  assumes "good_modulus q"
  shows "modulus_bits q = Inr (bit_len (q - 1))" and "1 \<le> bit_len (q - 1)" and "bit_len (q - 1) \<le> 64"
    and "v < q \<Longrightarrow> v < 2 ^ bit_len (q - 1)"
proof -
  have q: "1 < q" "q - 1 < 2 ^ 64" using assms by (auto simp: good_modulus_def)
  show "modulus_bits q = Inr (bit_len (q - 1))" using q by (simp add: modulus_bits_def)
  show "1 \<le> bit_len (q - 1)" using bit_len_pos [of "q - 1"] q by simp
  show "bit_len (q - 1) \<le> 64" using q(2) by (simp only: bit_len_le_iff)
  show "v < 2 ^ bit_len (q - 1)" if "v < q" using less_exp_bit_len [of "q - 1"] that by linarith
qed

section \<open>Packed responses\<close>

lemma switch_loop_ok:
  assumes "good_modulus q_in" and "good_modulus q_out"
  shows "switch_loop q_in q_out w (out, offs) cs
    = Inr (write_all write_bits out offs w (map (\<lambda>c. rescale_val c q_in q_out) cs), offs + length cs * w)"
  by (induction cs arbitrary: out offs) (simp_all add: rescale_val(1) [OF assms] add.assoc)

lemma recover_loop_ok:
  assumes "good_modulus q_in" and "good_modulus q_out" and "1 \<le> w" and "w \<le> 64"
  shows "recover_loop data q_in q_out w offs n
    = Inr (map (\<lambda>k. rescale_val (read_bits_val data (offs + k * w) w) q_in q_out) [0..<n], offs + n * w)"
proof (induction n arbitrary: offs)
  case 0
  then show ?case by simp
next
  case (Suc n)
  have "map (\<lambda>k. rescale_val (read_bits_val data (offs + k * w) w) q_in q_out) [0..<Suc n]
      = rescale_val (read_bits_val data offs w) q_in q_out
        # map (\<lambda>k. rescale_val (read_bits_val data (offs + w + k * w) w) q_in q_out) [0..<n]"
    by (simp add: map_upt_Suc add.assoc del: upt_Suc)
  then show ?case
    using Suc assms by (simp add: read_bits_val rescale_val(1) [OF assms(1,2)] add.assoc del: upt_Suc)
qed

lemma switch_rlwe_rows_ok:
  assumes "good_modulus q" and "good_modulus q1" and "good_modulus q2" and "length row_0 = length row_1"
  defines "w0 \<equiv> bit_len (q2 - 1)" and "w1 \<equiv> bit_len (q1 - 1)" and "n \<equiv> length row_0"
  shows "switch_rlwe_rows row_0 row_1 q q1 q2 = Inr
      (write_all write_bits (write_all write_bits (replicate (div_ceil (n * (w0 + w1)) 8) 0) 0 w0
          (map (\<lambda>c. rescale_val c q q2) row_0)) (n * w0) w1 (map (\<lambda>c. rescale_val c q q1) row_1))"
  using assms(4) unfolding w0_def w1_def n_def
  by (simp add: switch_rlwe_rows_def switched_rlwe_response_len_def modulus_bits_ok(1) assms(2,3)
      switch_loop_ok [OF assms(1,2)] switch_loop_ok [OF assms(1,3)])

lemma two_row_pack:
  assumes "1 \<le> w0" "w0 \<le> 64" "1 \<le> w1" "w1 \<le> 64" "length xs = n" "length ys = n"
    and "all_below (2 ^ w0) xs" "all_below (2 ^ w1) ys"
  defines "data \<equiv> write_all write_bits (write_all write_bits (replicate (div_ceil (n * (w0 + w1)) 8) 0) 0 w0 xs)
      (n * w0) w1 ys"
  shows "length data = div_ceil (n * (w0 + w1)) 8"
    and "k < n \<Longrightarrow> read_bits_val data (k * w0) w0 = xs ! k"
    and "k < n \<Longrightarrow> read_bits_val data (n * w0 + k * w1) w1 = ys ! k"
proof -
  let ?z = "replicate (div_ceil (n * (w0 + w1)) 8) (0::nat)"
  let ?d = "write_all write_bits ?z 0 w0 xs"
  have ok: "1 \<le> w0 \<and> w0 \<le> 64" "1 \<le> w1 \<and> w1 \<le> 64" and pos: "0 < w0" "0 < w1" using assms(1-4) by simp_all
  have room: "n * w0 + n * w1 \<le> 8 * div_ceil (n * (w0 + w1)) 8"
    using div_ceil_8_bounds(1) [of "n * (w0 + w1)"] by (simp add: add_mult_distrib2)
  have z: "all_below 256 ?z" "0 + length xs * w0 \<le> 8 * length ?z" using room assms(5) by (auto simp: all_below_set)
  note first = ok(1) z getbit_replicate_0 pos(1)
  have d: "length ?d = div_ceil (n * (w0 + w1)) 8" "all_below 256 ?d"
    using wire_bits.pack_from_length [OF first] wire_bits.pack_from_bytes [OF first] by simp_all
  have zero: "\<not> getbit ?d i" if "n * w0 \<le> i" for i
    using wire_bits.pack_from_bit [OF first, of i] that assms(5) by simp
  have fits: "n * w0 + length ys * w1 \<le> 8 * length ?d" using room d(1) assms(6) by simp
  note second = ok(2) d(2) fits zero pos(2)
  show "length data = div_ceil (n * (w0 + w1)) 8"
    using wire_bits.pack_from_length [OF second] d(1) by (simp add: data_def)
  show "read_bits_val data (n * w0 + k * w1) w1 = ys ! k" if "k < n"
    using wire_bits.rd_pack_at [OF second, of k] that assms(6) all_below_nth [OF assms(8), of k] by (simp add: data_def)
  show "read_bits_val data (k * w0) w0 = xs ! k" if k: "k < n"
  proof -
    have "Suc k * w0 \<le> n * w0" using k by (intro mult_le_mono1) simp
    then have "read_bits_val data (k * w0) w0 = read_bits_val ?d (k * w0) w0"
      unfolding data_def by (intro wire_bits.rd_pack_before [OF second ok(1)]) simp_all
    also have "\<dots> = xs ! k"
      using wire_bits.rd_pack_at [OF first, of k] k assms(5) all_below_nth [OF assms(7), of k] by simp
    finally show ?thesis .
  qed
qed

section \<open>Query transport\<close>

lemma query_coeff_down_near:
  assumes "good_modulus q" and "coeff < q" and "bits < bit_len (q - 1)"
  shows "\<exists>y. query_coeff_down coeff q bits = Inr y \<and> y < 2 ^ bits
    \<and> near (2 ^ bits * q) (int q div 2) (int coeff * int (2 ^ bits)) (int y * int q)"
proof -
  let ?T = "2 ^ bits :: nat"
  have T: "?T \<le> q - 1" using assms(3) bit_len_le_iff [of "q - 1" bits] by linarith
  have q: "q < 2 ^ 62" "0 < q" using assms(1) by (simp_all add: good_modulus_def)
  have "coeff * ?T \<le> (2 ^ 62 - 1) * (2 ^ 62 - 1)" using assms(2) q T by (intro mult_le_mono) simp_all
  then have casts: "u128 (coeff * ?T) = coeff * ?T" "u128 (coeff * ?T + q div 2) = coeff * ?T + q div 2"
    using q by (auto intro!: u128_id)
  define s where "s = (coeff * ?T + q div 2) div q"
  have "s mod ?T < 2 ^ 64" using less_le_trans [of "s mod ?T" ?T "2 ^ 64"] T q by simp
  then have val: "query_coeff_down coeff q bits = Inr (s mod ?T)"
    using assms(1,3) casts
    by (simp add: query_coeff_down_def modulus_bits_ok(1) Let_def and_exp_minus_Suc_0 u64_id flip: s_def)
  have "int s = (int coeff * int ?T + int q div 2) div int q" by (simp add: s_def zdiv_int)
  then have err: "\<bar>int s * int q - int coeff * int ?T\<bar> \<le> int q div 2"
    using floor_round_error [of "int q" "int coeff * int ?T"] q(2) by simp
  have "near (?T * q) (int q div 2) (int coeff * int ?T) (int s mod int ?T * int q)"
    using err refl by (rule round_near)
  then show ?thesis using val by (simp add: zmod_int)
qed

lemma query_coeff_up_near:
  assumes "good_modulus q" and "coeff < 2 ^ bits" and "0 < bits" and "bits < bit_len (q - 1)"
  shows "\<exists>z. query_coeff_up coeff q bits = Inr z \<and> z < q
    \<and> near (q * 2 ^ bits) (int (2 ^ bits) div 2) (int coeff * int q) (int z * int (2 ^ bits))"
proof -
  let ?T = "2 ^ bits :: nat"
  have T: "?T \<le> q - 1" using assms(4) bit_len_le_iff [of "q - 1" bits] by linarith
  have half: "2 ^ (bits - 1) = ?T div 2" using assms(3) by (cases bits) simp_all
  have q: "q < 2 ^ 62" "0 < q" using assms(1) by (simp_all add: good_modulus_def)
  have "coeff * q \<le> (2 ^ 62 - 1) * (2 ^ 62 - 1)" using assms(2) q T by (intro mult_le_mono) simp_all
  then have casts: "u128 (coeff * q) = coeff * q" "u128 (coeff * q + ?T div 2) = coeff * q + ?T div 2"
    using q T by (auto intro!: u128_id)
  define s where "s = (coeff * q + ?T div 2) div ?T"
  have "coeff * q + ?T div 2 < q * ?T + ?T"
  proof (rule add_le_less_mono)
    show "coeff * q \<le> q * ?T" using assms(2) mult_le_mono1 [of coeff ?T q] by (simp add: mult.commute)
  qed simp
  then have s: "s \<le> q" unfolding s_def by (simp add: less_mult_imp_div_less less_Suc_eq_le [symmetric] add.commute)
  then have "u64 (drop_bit bits (coeff * q + ?T div 2)) = s" using q by (simp add: drop_bit_eq_div s_def [symmetric] u64_id)
  then have val: "query_coeff_up coeff q bits = Inr (s mod q)"
    using assms casts s half
    by (auto simp: query_coeff_up_def modulus_bits_ok(1) Let_def)
  have "int s = (int coeff * int q + int ?T div 2) div int ?T" by (simp add: s_def zdiv_int)
  then have err: "\<bar>int s * int ?T - int coeff * int q\<bar> \<le> int ?T div 2"
    using floor_round_error [of "int ?T" "int coeff * int q"] by simp
  have "near (q * ?T) (int ?T div 2) (int coeff * int q) (int s mod int q * int ?T)"
    using err refl by (rule round_near)
  then show ?thesis using val q(2) by (simp add: zmod_int)
qed

section \<open>Properties\<close>

text \<open>C26. A response row pair survives the transport switch: packing always succeeds with
  the announced byte length, the receiver recovers both rows, and each coefficient is
  off by at most the rounding radius of its transport modulus.\<close>

theorem rlwe_rows_roundtrip:
  assumes "good_modulus q" and "good_modulus q1" and "good_modulus q2" and "length row_0 = length row_1"
  shows "\<exists>bytes s0 s1. switch_rlwe_rows row_0 row_1 q q1 q2 = Inr bytes
    \<and> switched_rlwe_response_len (length row_0) q1 q2 = Inr (length bytes)
    \<and> recover_rlwe_rows bytes (length row_0) q1 q2 q = Inr (s0, s1)
    \<and> list_all2 (\<lambda>x y. near q (switch_radius q q2) (int x) (int y)) row_0 s0
    \<and> list_all2 (\<lambda>x y. near q (switch_radius q q1) (int x) (int y)) row_1 s1"
proof -
  let ?n = "length row_0" and ?w0 = "bit_len (q2 - 1)" and ?w1 = "bit_len (q1 - 1)"
  let ?x = "map (\<lambda>c. rescale_val c q q2) row_0" and ?y = "map (\<lambda>c. rescale_val c q q1) row_1"
  define bytes where "bytes = write_all write_bits (write_all write_bits
      (replicate (div_ceil (?n * (?w0 + ?w1)) 8) 0) 0 ?w0 ?x) (?n * ?w0) ?w1 ?y"
  have "all_below (2 ^ ?w0) ?x" "all_below (2 ^ ?w1) ?y"
    using modulus_bits_ok(4) [OF assms(3)] modulus_bits_ok(4) [OF assms(2)]
      rescale_val(2) [OF assms(1,3)] rescale_val(2) [OF assms(1,2)] by (auto simp: all_below_set)
  note pack = two_row_pack [OF modulus_bits_ok(2,3) [OF assms(3)] modulus_bits_ok(2,3) [OF assms(2)], of ?x ?n ?y, OF _ _ this]
  have sent: "switch_rlwe_rows row_0 row_1 q q1 q2 = Inr bytes"
    unfolding bytes_def by (rule switch_rlwe_rows_ok [OF assms])
  have len: "switched_rlwe_response_len ?n q1 q2 = Inr (length bytes)"
    using pack(1) assms(2-4) by (simp add: switched_rlwe_response_len_def modulus_bits_ok(1) bytes_def)
  let ?s0 = "map (\<lambda>k. rescale_val (read_bits_val bytes (k * ?w0) ?w0) q2 q) [0..<?n]"
  let ?s1 = "map (\<lambda>k. rescale_val (read_bits_val bytes (?n * ?w0 + k * ?w1) ?w1) q1 q) [0..<?n]"
  have "recover_rlwe_rows bytes ?n q1 q2 q = Inr (?s0, ?s1)"
    by (simp add: recover_rlwe_rows_def len modulus_bits_ok(1) [OF assms(2)] modulus_bits_ok(1) [OF assms(3)]
        recover_loop_ok [OF assms(3,1) modulus_bits_ok(2,3) [OF assms(3)]]
        recover_loop_ok [OF assms(2,1) modulus_bits_ok(2,3) [OF assms(2)]] del: One_nat_def)
  moreover have "list_all2 (\<lambda>x y. near q (switch_radius q q2) (int x) (int y)) row_0 ?s0"
    using pack(2) rescale_back [OF assms(1,3)] assms(4) by (simp add: list_all2_conv_all_nth bytes_def)
  moreover have "list_all2 (\<lambda>x y. near q (switch_radius q q1) (int x) (int y)) row_1 ?s1"
    using pack(3) rescale_back [OF assms(1,2)] assms(4) by (simp add: list_all2_conv_all_nth bytes_def)
  ultimately show ?thesis using sent len by blast
qed

theorem rlwe_rows_roundtrip_witness:
  "\<exists>bytes s0 s1. switch_rlwe_rows [5, 72057594037641216] [7, 12345678901] 72057594037641217 (2 ^ 20) 268369921 = Inr bytes
    \<and> switched_rlwe_response_len (length [5, 72057594037641216::nat]) (2 ^ 20) 268369921 = Inr (length bytes)
    \<and> recover_rlwe_rows bytes (length [5, 72057594037641216::nat]) (2 ^ 20) 268369921 72057594037641217 = Inr (s0, s1)
    \<and> list_all2 (\<lambda>x y. near 72057594037641217 (switch_radius 72057594037641217 268369921) (int x) (int y)) [5, 72057594037641216] s0
    \<and> list_all2 (\<lambda>x y. near 72057594037641217 (switch_radius 72057594037641217 (2 ^ 20)) (int x) (int y)) [7, 12345678901] s1"
  by (rule rlwe_rows_roundtrip) (simp_all add: good_modulus_def)

text \<open>C27. A query coefficient rounded to \<open>bits\<close> bits and lifted back by the server differs
  from the original by at most the radius of the two roundings, for every width below
  the modulus width; at or above it the transport is the identity.\<close>

theorem query_transport_close:
  assumes "good_modulus q" and "coeff < q" and "0 < bits"
  shows "\<exists>sent lifted. query_coeff_down coeff q bits = Inr sent \<and> sent < 2 ^ bits
    \<and> query_coeff_up sent q bits = Inr lifted \<and> lifted < q
    \<and> near q (if bit_len (q - 1) \<le> bits then 0 else switch_radius q (2 ^ bits)) (int coeff) (int lifted)"
proof (cases "bit_len (q - 1) \<le> bits")
  case True
  have "q - 1 < 2 ^ bits" using True by (simp only: bit_len_le_iff)
  then have "coeff < 2 ^ bits" using assms(2) by linarith
  then show ?thesis
    using True assms
    by (simp add: query_coeff_down_def query_coeff_up_def modulus_bits_ok(1) near_refl)
next
  case False
  then obtain y where y: "query_coeff_down coeff q bits = Inr y" "y < 2 ^ bits"
    "near (2 ^ bits * q) (int q div 2) (int coeff * int (2 ^ bits)) (int y * int q)"
    using query_coeff_down_near [OF assms(1,2), of bits] by auto
  obtain z where z: "query_coeff_up y q bits = Inr z" "z < q"
    "near (q * 2 ^ bits) (int (2 ^ bits) div 2) (int y * int q) (int z * int (2 ^ bits))"
    using query_coeff_up_near [OF assms(1) y(2) assms(3)] False by auto
  have "near q (switch_radius q (2 ^ bits)) (int coeff) (int z)"
    using y(3) z(3) by (intro there_and_back) simp_all
  then show ?thesis using y z False by auto
qed

theorem query_transport_close_witness:
  "\<exists>sent lifted. query_coeff_down 123456 1000003 10 = Inr sent \<and> sent < 2 ^ 10
    \<and> query_coeff_up sent 1000003 10 = Inr lifted \<and> lifted < 1000003
    \<and> near 1000003 (if bit_len (1000003 - 1) \<le> 10 then 0 else switch_radius 1000003 (2 ^ 10)) (int 123456) (int lifted)"
  by (rule query_transport_close) (simp_all add: good_modulus_def)

text \<open>The Appendix D.1 modulus switch returns the nearest multiple: scaled back, it
  differs from the scaled input by at most half of the source modulus, and approximate
  division by the degree leaves a remainder in \<open>[0, d)\<close> of the centred value.\<close>

theorem modswitch_nearest:
  assumes "0 < from_q" and "from_q < 2 ^ 63" and "0 < to_q" and "to_q < 2 ^ 63" and "0 < d"
  shows "modulus_switch_coeff x from_q to_q < to_q
    \<and> near (to_q * from_q) (int from_q div 2) (int x * int to_q) (int (modulus_switch_coeff x from_q to_q) * int from_q)
    \<and> near from_q (int d - 1) (int x) (int d * int (approx_div_by_d_coeff x d from_q))"
proof (intro conjI)
  show "modulus_switch_coeff x from_q to_q < to_q"
    and "near (to_q * from_q) (int from_q div 2) (int x * int to_q) (int (modulus_switch_coeff x from_q to_q) * int from_q)"
    using modulus_switch_coeff_near [OF assms(1-4)] by simp_all
  let ?c = "center x from_q" and ?d = "int d"
  have "(if ?c < 0 \<and> tmod ?c ?d \<noteq> 0 then tdiv ?c ?d - 1 else tdiv ?c ?d) = ?c div ?d"
  proof (cases "?c < 0")
    case True
    then have t: "tdiv ?c ?d = - ((- ?c) div ?d)" using assms(5) by (simp add: tdiv_neg)
    then have "tmod ?c ?d = - ((- ?c) mod ?d)"
      by (simp add: tmod_def minus_mod_eq_mult_div [symmetric] mult.commute)
    then show ?thesis using True t zdiv_zminus1_eq_if [of ?d "- ?c"] assms(5) by auto
  qed (use assms(5) in \<open>simp add: tdiv_nonneg\<close>)
  then have val: "int (approx_div_by_d_coeff x d from_q) = (?c div ?d) mod int from_q"
    using assms(1) by (simp add: approx_div_by_d_coeff_def Let_def rem_euclid_def)
  have "?c mod ?d < ?d" "0 \<le> ?c mod ?d" using assms(5) by simp_all
  then have "near from_q (?d - 1) ?c (?d * (?c div ?d))"
    by (intro nearI [of "- (?c mod ?d)"]) (auto simp: minus_mod_eq_mult_div)
  then have "near from_q (?d - 1) ?c (?d * ((?c div ?d) mod int from_q))"
    by (simp add: near_def mod_mult_right_eq)
  moreover have "near from_q (?d - 1) (int x) y \<longleftrightarrow> near from_q (?d - 1) ?c y" for y
    using center_props(1) [OF assms(1,2), of x] by (metis near_mod_left)
  ultimately show "near from_q (?d - 1) (int x) (?d * int (approx_div_by_d_coeff x d from_q))"
    unfolding val by simp
qed

theorem modswitch_nearest_witness:
  "modulus_switch_coeff 99 101 16 = 0 \<and> near (16 * 101) (int 101 div 2) (int 99 * int 16) (int 0 * int 101)
    \<and> near 101 (int 8 - 1) (int 99) (int 8 * int (approx_div_by_d_coeff 99 8 101))"
proof -
  have "modulus_switch_coeff 99 101 16 = 0" by code_simp
  then show ?thesis using modswitch_nearest [of 101 16 8 99] by simp
qed

end
