(* ===== verification/Rlwe_Params.thy ===== *)
theory Rlwe_Params
  imports Ipir_Prelude
begin

text \<open>
  Parameter sets: \<open>RlweParams\<close> of \<open>inspiring/src/params.rs\<close> with its extended-Euclid
  inverse, and the versioned SimplePIR profiles of \<open>ipir-sp/src/params.rs\<close>. The
  floating-point noise parameters are kept as their IEEE 754 bit patterns, which is how the
  profile check compares them; the one floating-point operation, the product with the square
  root of \<open>TAU\<close>, is an argument. So is the backing \<open>spiral_rs\<close> code, which is outside the
  repository: whether \<open>Params::init\<close> panics, and the digit width of
  \<open>spiral_rs::gadget::get_bits_per\<close>. The object \<open>init\<close> returns is represented by the four
  fields that are read back from it.
\<close>

section \<open>Model: inspiring\<close>

record gadget_params =
  bits_per :: nat
  ell :: nat

definition gadget_z :: "gadget_params \<Rightarrow> nat" where
  "gadget_z g = 2 ^ bits_per g"

record rlwe_params =
  rp_d :: nat
  rp_q :: nat
  rp_p :: nat
  rp_sigma_chi :: nat
  rp_gadget :: gadget_params
  rp_delta :: nat
  rp_d_inv :: nat
  rp_spiral_poly_len :: nat
  rp_spiral_modulus :: nat
  rp_spiral_pt_modulus :: nat
  rp_spiral_noise_width :: nat

text \<open>The arguments that stand for code outside the repository: \<open>init_panics d q noise_width p ell\<close>,
  \<open>get_bits_per q ell\<close>, and \<open>sigma * TAU.sqrt()\<close> on bit patterns.\<close>

record spiral_lib =
  init_panics :: "nat \<Rightarrow> nat \<Rightarrow> nat \<Rightarrow> nat \<Rightarrow> nat \<Rightarrow> bool"
  get_bits_per :: "nat \<Rightarrow> nat \<Rightarrow> nat"
  times_sqrt_tau :: "nat \<Rightarrow> nat"

text \<open>\<open>is_finite() && > 0.0\<close> on the bit pattern of an \<open>f64\<close>: the sign is clear, the exponent is not all
  ones, and the number is not zero.\<close>

definition positive_finite_f64 :: "nat \<Rightarrow> bool" where
  "positive_finite_f64 bits \<longleftrightarrow> 0 < bits \<and> bits < 9218868437227405312"

text \<open>The loop of \<open>mod_inverse\<close>.\<close>

lemma tdiv_remainder:
  fixes a b :: int
  assumes "b \<noteq> 0"
  shows "\<bar>a - tdiv a b * b\<bar> < \<bar>b\<bar>"
proof -
  have "a - tdiv a b * b = sgn a * (\<bar>a\<bar> - \<bar>a\<bar> div \<bar>b\<bar> * \<bar>b\<bar>)"
    by (simp add: tdiv_def algebra_simps abs_sgn sgn_mult_abs flip: mult_sgn_abs)
  then have "\<bar>a - tdiv a b * b\<bar> \<le> \<bar>a\<bar> mod \<bar>b\<bar>"
    using pos_mod_sign [of "\<bar>b\<bar>" "\<bar>a\<bar>"] assms by (simp add: abs_mult minus_div_mult_eq_mod abs_sgn_eq)
  then show ?thesis using assms pos_mod_bound [of "\<bar>b\<bar>" "\<bar>a\<bar>"] by linarith
qed

function euclid_loop :: "int \<Rightarrow> int \<Rightarrow> int \<Rightarrow> int \<Rightarrow> int \<times> int" where
  "euclid_loop old_r r old_s s =
     (if r \<noteq> 0 then
        let quotient = tdiv old_r r
        in euclid_loop r (old_r - quotient * r) s (old_s - quotient * s)
      else (old_r, old_s))"
  by pat_completeness auto
termination
  by (relation "measure (\<lambda>(old_r, r, old_s, s). nat \<bar>r\<bar>)") (use tdiv_remainder in auto)

declare euclid_loop.simps [simp del]

definition mod_inverse :: "nat \<Rightarrow> nat \<Rightarrow> nat option" where
  "mod_inverse a modulus =
     (let (old_r, old_s) = euclid_loop (int modulus) (int (a mod modulus)) 0 1
      in if old_r = 1 then Some (rem_euclid old_s modulus) else None)"

definition new_rlwe_params ::
    "spiral_lib \<Rightarrow> nat \<Rightarrow> nat \<Rightarrow> nat \<Rightarrow> nat \<Rightarrow> gadget_params \<Rightarrow> rlwe_params result" where
  "new_rlwe_params lib d q p sigma_chi gadget =
     guardR (d < 2 \<or> \<not> is_power_of_two d) (InvalidParams ''d must be a power of two greater than 1'')
    (guardR (q < 3 \<or> q mod 2 = 0) (InvalidParams ''q must be odd and at least 3'')
    (guardR (p < 2 \<or> p > q) (InvalidParams ''p must satisfy 2 <= p <= q'')
    (guardR (\<not> positive_finite_f64 sigma_chi) (InvalidParams ''sigma_chi must be positive and finite'')
    (guardR (bits_per gadget = 0 \<or> bits_per gadget \<ge> 64) (InvalidParams ''gadget.bits_per must be in [1, 63]'')
    (guardR (ell gadget = 0) (InvalidParams ''gadget.ell must be non-zero'')
    (guardR (min ((2 ^ bits_per gadget) ^ u32 (ell gadget)) (2 ^ 128 - 1) < q)
       (InvalidParams ''gadget base does not cover q'')
       (case mod_inverse d q of
          None \<Rightarrow> Inl (InvalidParams ''d is not invertible modulo q'')
        | Some d_inv \<Rightarrow>
            let noise_width = times_sqrt_tau lib sigma_chi
            in guardR (init_panics lib d q noise_width p (ell gadget)) (Panic ''spiral_rs Params::init'')
              (guardR (u32 (get_bits_per lib q (ell gadget)) \<noteq> bits_per gadget)
                (InvalidParams ''gadget.bits_per does not match spiral-rs bits_per'')
                (Inr \<lparr>rp_d = d, rp_q = q, rp_p = p, rp_sigma_chi = sigma_chi, rp_gadget = gadget,
                     rp_delta = q div p, rp_d_inv = d_inv, rp_spiral_poly_len = d, rp_spiral_modulus = q,
                     rp_spiral_pt_modulus = p, rp_spiral_noise_width = noise_width\<rparr>)))))))))"

section \<open>Model: SimplePIR profiles\<close>

definition POLY_LEN :: nat where "POLY_LEN = 2048"
definition SINGLE_CRT_Q :: nat where "SINGLE_CRT_Q = 72057594037641217"
definition Q_PRIME_1 :: nat where "Q_PRIME_1 = 2 ^ 20"
definition Q_PRIME_2 :: nat where "Q_PRIME_2 = 268369921"
definition Q2_BITS :: nat where "Q2_BITS = 28"
definition T_EXP_LEFT :: nat where "T_EXP_LEFT = 3"
definition T_EXP_RIGHT :: nat where "T_EXP_RIGHT = 2"
definition GADGET_BITS_PER :: nat where "GADGET_BITS_PER = 19"
definition GADGET_ELL :: nat where "GADGET_ELL = 3"

text \<open>The bit pattern of \<open>6.4f64\<close>.\<close>

definition SIGMA_CHI :: nat where "SIGMA_CHI = 4618891777831180698"

datatype simple_pir_profile = P14 | P16Q46 | P16Q48 | P16Q49

fun plaintext_bits :: "simple_pir_profile \<Rightarrow> nat" where
  "plaintext_bits P14 = 14"
| "plaintext_bits P16Q46 = 16"
| "plaintext_bits P16Q48 = 16"
| "plaintext_bits P16Q49 = 16"

definition plaintext_modulus :: "simple_pir_profile \<Rightarrow> nat" where
  "plaintext_modulus profile = 2 ^ plaintext_bits profile"

fun minimum_query_bits :: "simple_pir_profile \<Rightarrow> nat" where
  "minimum_query_bits P14 = 1"
| "minimum_query_bits P16Q46 = 46"
| "minimum_query_bits P16Q48 = 48"
| "minimum_query_bits P16Q49 = 49"

record ypir_scheme_params =
  num_items :: nat
  item_size_bits :: nat
  poly_len :: nat
  db_dim_1 :: nat
  db_dim_2 :: nat
  instances :: nat
  yp_db_rows :: nat
  yp_db_cols :: nat
  yp_p :: nat
  q_prime_1 :: nat
  q_prime_2 :: nat
  q2_bits :: nat
  t_exp_left :: nat
  t_exp_right :: nat
  query_bits :: nat

text \<open>\<open>checked_add\<close> and \<open>checked_next_power_of_two\<close> of \<open>u64\<close>.\<close>

definition checked_add :: "nat \<Rightarrow> nat \<Rightarrow> nat option" where
  "checked_add a b = (if a + b < 2 ^ 64 then Some (a + b) else None)"

definition checked_next_power_of_two :: "nat \<Rightarrow> nat option" where
  "checked_next_power_of_two n =
     (case filter (\<lambda>k. n \<le> 2 ^ k) [0..<64] of [] \<Rightarrow> None | k # _ \<Rightarrow> Some (2 ^ k))"

definition ok_or :: "'a option \<Rightarrow> error \<Rightarrow> 'a result" where
  "ok_or x e = (case x of None \<Rightarrow> Inl e | Some y \<Rightarrow> Inr y)"

definition build_simplepir_params ::
    "spiral_lib \<Rightarrow> (nat \<Rightarrow> nat \<Rightarrow> nat \<Rightarrow> nat) \<Rightarrow> nat \<Rightarrow> nat \<Rightarrow> simple_pir_profile
      \<Rightarrow> (rlwe_params \<times> ypir_scheme_params) result" where
  "build_simplepir_params lib query_modulus_bits items item_bits profile =
     guardR (item_bits < POLY_LEN * plaintext_bits profile \<or> items < POLY_LEN)
       (InvalidParams ''SimplePIR requires at least one polynomial of rows and item bits'')
     (bindR (ok_or (Option.bind (checked_add items (POLY_LEN - 1)) (\<lambda>n. checked_mul (n div POLY_LEN) POLY_LEN))
              (InvalidParams ''database row count overflows'')) (\<lambda>db_rows.
      bindR (ok_or (checked_next_power_of_two db_rows) (InvalidParams ''database dimension overflows'')) (\<lambda>pow.
        let dim_1 = trailing_zeros pow - 11;
            chunk_bits = POLY_LEN * plaintext_bits profile;
            inst = item_bits div chunk_bits + (if item_bits mod chunk_bits \<noteq> 0 then 1 else 0)
        in bindR (ok_or (checked_mul inst POLY_LEN) (InvalidParams ''database column count overflows'')) (\<lambda>db_cols.
           bindR (ok_or (checked_mul db_rows db_cols) (InvalidParams ''database element count overflows'')) (\<lambda>_.
           bindR (new_rlwe_params lib POLY_LEN SINGLE_CRT_Q (plaintext_modulus profile) SIGMA_CHI
                    \<lparr>bits_per = GADGET_BITS_PER, ell = GADGET_ELL\<rparr>) (\<lambda>rlwe.
             Inr (rlwe,
               \<lparr>num_items = items, item_size_bits = item_bits, poly_len = POLY_LEN, db_dim_1 = dim_1,
                db_dim_2 = 1, instances = inst, yp_db_rows = db_rows, yp_db_cols = db_cols,
                yp_p = plaintext_modulus profile, q_prime_1 = Q_PRIME_1, q_prime_2 = Q_PRIME_2,
                q2_bits = Q2_BITS, t_exp_left = T_EXP_LEFT, t_exp_right = T_EXP_RIGHT,
                query_bits = max (query_modulus_bits SINGLE_CRT_Q (plaintext_modulus profile) db_rows)
                               (minimum_query_bits profile)\<rparr>)))))))"

definition profile_mismatch ::
    "spiral_lib \<Rightarrow> (nat \<Rightarrow> nat \<Rightarrow> nat \<Rightarrow> nat) \<Rightarrow> rlwe_params \<Rightarrow> ypir_scheme_params \<Rightarrow> simple_pir_profile
      \<Rightarrow> nat \<Rightarrow> nat \<Rightarrow> nat \<Rightarrow> nat \<Rightarrow> nat \<Rightarrow> bool" where
  "profile_mismatch lib query_modulus_bits rlwe ypir profile expected_rows chunk_bits inst expected_cols expected_dim \<longleftrightarrow>
       rp_d rlwe \<noteq> POLY_LEN \<or> rp_q rlwe \<noteq> SINGLE_CRT_Q \<or> rp_p rlwe \<noteq> plaintext_modulus profile
     \<or> rp_sigma_chi rlwe \<noteq> SIGMA_CHI
     \<or> bits_per (rp_gadget rlwe) \<noteq> GADGET_BITS_PER \<or> ell (rp_gadget rlwe) \<noteq> GADGET_ELL
     \<or> rp_delta rlwe \<noteq> rp_q rlwe div rp_p rlwe
     \<or> u128 (rp_d rlwe * rp_d_inv rlwe) mod rp_q rlwe \<noteq> 1
     \<or> rp_spiral_poly_len rlwe \<noteq> rp_d rlwe \<or> rp_spiral_modulus rlwe \<noteq> rp_q rlwe
     \<or> rp_spiral_pt_modulus rlwe \<noteq> rp_p rlwe
     \<or> rp_spiral_noise_width rlwe \<noteq> times_sqrt_tau lib (rp_sigma_chi rlwe)
     \<or> num_items ypir < POLY_LEN \<or> item_size_bits ypir < chunk_bits \<or> poly_len ypir \<noteq> rp_d rlwe
     \<or> yp_p ypir \<noteq> rp_p rlwe \<or> db_dim_1 ypir \<noteq> expected_dim \<or> db_dim_2 ypir \<noteq> 1
     \<or> instances ypir \<noteq> inst \<or> yp_db_rows ypir \<noteq> expected_rows \<or> yp_db_cols ypir \<noteq> expected_cols
     \<or> yp_db_rows ypir mod rp_d rlwe \<noteq> 0 \<or> yp_db_cols ypir mod rp_d rlwe \<noteq> 0
     \<or> q_prime_1 ypir \<noteq> Q_PRIME_1 \<or> q_prime_2 ypir \<noteq> Q_PRIME_2 \<or> q2_bits ypir \<noteq> Q2_BITS
     \<or> t_exp_left ypir \<noteq> T_EXP_LEFT \<or> t_exp_right ypir \<noteq> T_EXP_RIGHT
     \<or> query_bits ypir \<noteq> max (query_modulus_bits SINGLE_CRT_Q (plaintext_modulus profile) expected_rows)
                             (minimum_query_bits profile)"

definition validate_profile_parts ::
    "spiral_lib \<Rightarrow> (nat \<Rightarrow> nat \<Rightarrow> nat \<Rightarrow> nat) \<Rightarrow> rlwe_params \<Rightarrow> ypir_scheme_params \<Rightarrow> simple_pir_profile \<Rightarrow> unit result" where
  "validate_profile_parts lib query_modulus_bits rlwe ypir profile =
     (let invalid = InvalidParams ''inconsistent SimplePIR profile parameters''
      in bindR (ok_or (map_option (\<lambda>n. n div POLY_LEN * POLY_LEN) (checked_add (num_items ypir) (POLY_LEN - 1))) invalid)
        (\<lambda>expected_rows.
         guardR (expected_rows < POLY_LEN) invalid
         (let chunk_bits = POLY_LEN * plaintext_bits profile;
              inst = item_size_bits ypir div chunk_bits + (if item_size_bits ypir mod chunk_bits \<noteq> 0 then 1 else 0)
          in bindR (ok_or (checked_mul inst POLY_LEN) invalid) (\<lambda>expected_cols.
             bindR (ok_or (checked_next_power_of_two expected_rows) invalid) (\<lambda>pow.
               guardR (profile_mismatch lib query_modulus_bits rlwe ypir profile expected_rows chunk_bits inst
                         expected_cols (trailing_zeros pow - 11)) invalid
                 (Inr ()))))))"

definition new_production_params ::
    "spiral_lib \<Rightarrow> (nat \<Rightarrow> nat \<Rightarrow> nat \<Rightarrow> nat) \<Rightarrow> nat \<Rightarrow> nat \<Rightarrow> simple_pir_profile
      \<Rightarrow> (rlwe_params \<times> ypir_scheme_params) result" where
  "new_production_params lib query_modulus_bits items item_bits profile =
     bindR (build_simplepir_params lib query_modulus_bits items item_bits profile) (\<lambda>(rlwe, ypir).
       bindR (validate_profile_parts lib query_modulus_bits rlwe ypir profile) (\<lambda>_. Inr (rlwe, ypir)))"

section \<open>The modular inverse\<close>

lemma euclid_loop_spec:
  fixes a m :: int
  assumes "0 \<le> old_r" and "0 \<le> r" and "m dvd old_s * a - old_r" and "m dvd s * a - r"
    and "euclid_loop old_r r old_s s = (g, t)"
  shows "g = gcd old_r r \<and> m dvd t * a - g"
  using assms
proof (induction old_r r old_s s rule: euclid_loop.induct)
  case (1 old_r r old_s s)
  show ?case
  proof (cases "r = 0")
    case True
    then have "g = old_r" "t = old_s"
      using "1.prems"(5) by (simp_all add: euclid_loop.simps [of old_r 0 old_s s])
    then show ?thesis using True "1.prems"(1,3) by simp
  next
    case False
    then have True: "0 < r" using "1.prems"(2) by simp
    have q: "tdiv old_r r = old_r div r" using True "1.prems"(1) by (simp add: tdiv_nonneg)
    have r': "old_r - old_r div r * r = old_r mod r" by (simp add: minus_div_mult_eq_mod)
    have "(old_s - old_r div r * s) * a - old_r mod r = (old_s * a - old_r) - old_r div r * (s * a - r)"
      unfolding r' [symmetric] by (simp add: algebra_simps)
    then have "m dvd (old_s - old_r div r * s) * a - old_r mod r"
      using "1.prems"(3,4) by (metis dvd_diff dvd_mult)
    moreover have "euclid_loop r (old_r mod r) s (old_s - old_r div r * s) = (g, t)"
      using "1.prems"(5) True q r' by (simp add: euclid_loop.simps [of old_r r] Let_def)
    ultimately have "g = gcd r (old_r mod r) \<and> m dvd t * a - g"
      using "1.IH" [OF False refl] "1.prems"(4) True q r' by (auto simp only: pos_mod_sign less_imp_le)
    then show ?thesis by (auto simp add: gcd_red_int [of old_r r, symmetric] gcd.commute)
  qed
qed

lemma mod_inverse_spec:
  assumes "1 < m"
  shows "case mod_inverse a m of
      Some b \<Rightarrow> b < m \<and> a * b mod m = 1
    | None \<Rightarrow> \<not> coprime a m"
proof -
  obtain g t where e: "euclid_loop (int m) (int (a mod m)) 0 1 = (g, t)" by fastforce
  have spec: "g = gcd (int m) (int (a mod m))" "int m dvd t * int (a mod m) - g"
    using euclid_loop_spec [of "int m" "int (a mod m)" "int m" 0 "int (a mod m)" 1 g t] e by auto
  have g: "g = int (gcd a m)" using spec(1) by (metis gcd.commute gcd_int_int_eq gcd_red_nat)
  show ?thesis
  proof (cases "g = 1")
    case True
    have "t * int (a mod m) mod int m = 1 mod int m"
      using spec(2) True by (simp add: mod_eq_dvd_iff)
    then have "int a * (t mod int m) mod int m = 1"
      using assms by (simp add: zmod_int mult.commute mod_mult_left_eq mod_mult_right_eq)
    moreover have "int (nat (t mod int m)) = t mod int m" using assms by simp
    ultimately have "int (a * nat (t mod int m) mod m) = 1" by (simp add: zmod_int)
    moreover have "nat (t mod int m) < m" using assms by (simp add: nat_less_iff)
    ultimately show ?thesis using e True by (simp add: mod_inverse_def rem_euclid_def)
  next
    case False
    then have "\<not> coprime a m" using g by (simp add: coprime_iff_gcd_eq_1)
    then show ?thesis using e False by (simp add: mod_inverse_def)
  qed
qed

section \<open>Profiles\<close>

lemmas profile_consts = POLY_LEN_def SINGLE_CRT_Q_def GADGET_BITS_PER_def GADGET_ELL_def

lemma new_rlwe_params_Inr:
  assumes "new_rlwe_params lib d q p sigma g = Inr r"
  shows "rp_d r = d" "rp_q r = q" "rp_p r = p" "rp_gadget r = g" "rp_delta r = q div p"
    "rp_spiral_poly_len r = d" "rp_spiral_modulus r = q" "rp_spiral_pt_modulus r = p"
    "rp_d_inv r < q" "d * rp_d_inv r mod q = 1" "q \<le> (2 ^ bits_per g) ^ u32 (ell g)"
    "rp_sigma_chi r = sigma" "rp_spiral_noise_width r = times_sqrt_tau lib sigma"
proof -
  have q: "1 < q" using assms by (simp add: new_rlwe_params_def)
  obtain b where b: "mod_inverse d q = Some b"
    using assms by (auto simp: new_rlwe_params_def split: option.splits)
  have r: "r = \<lparr>rp_d = d, rp_q = q, rp_p = p, rp_sigma_chi = sigma, rp_gadget = g, rp_delta = q div p, rp_d_inv = b,
      rp_spiral_poly_len = d, rp_spiral_modulus = q, rp_spiral_pt_modulus = p,
      rp_spiral_noise_width = times_sqrt_tau lib sigma\<rparr>"
    and cover: "q \<le> (2 ^ bits_per g) ^ u32 (ell g)"
    using assms b by (auto simp: new_rlwe_params_def Let_def not_less)
  show "rp_d r = d" "rp_q r = q" "rp_p r = p" "rp_gadget r = g" "rp_delta r = q div p"
    "rp_spiral_poly_len r = d" "rp_spiral_modulus r = q" "rp_spiral_pt_modulus r = p"
    "rp_sigma_chi r = sigma" "rp_spiral_noise_width r = times_sqrt_tau lib sigma" by (simp_all add: r)
  show "rp_d_inv r < q" "d * rp_d_inv r mod q = 1" using mod_inverse_spec [OF q, of d] b by (simp_all add: r)
  show "q \<le> (2 ^ bits_per g) ^ u32 (ell g)" by (fact cover)
qed

lemma ok_or_Inr [simp]: "ok_or x e = Inr y \<longleftrightarrow> x = Some y"
  by (simp add: ok_or_def split: option.splits)

lemma round_up_bounds:
  fixes n d :: nat
  assumes "0 < d"
  shows "n \<le> (n + (d - 1)) div d * d" and "(n + (d - 1)) div d * d < n + d"
proof -
  have "(n + (d - 1)) div d * d + (n + (d - 1)) mod d = n + (d - 1)" by simp
  moreover have "(n + (d - 1)) mod d < d" using assms by simp
  ultimately show "n \<le> (n + (d - 1)) div d * d" "(n + (d - 1)) div d * d < n + d" using assms by linarith+
qed

lemma build_params_Inr:
  assumes "build_simplepir_params lib qm items item_bits profile = Inr (rlwe, ypir)"
  shows "new_rlwe_params lib POLY_LEN SINGLE_CRT_Q (plaintext_modulus profile) SIGMA_CHI
           \<lparr>bits_per = GADGET_BITS_PER, ell = GADGET_ELL\<rparr> = Inr rlwe"
    and "POLY_LEN \<le> items" "POLY_LEN * plaintext_bits profile \<le> item_bits" "items + (POLY_LEN - 1) < 2 ^ 64"
    and "yp_db_rows ypir = (items + (POLY_LEN - 1)) div POLY_LEN * POLY_LEN"
    and "instances ypir = div_ceil item_bits (POLY_LEN * plaintext_bits profile)"
    and "yp_db_cols ypir = instances ypir * POLY_LEN"
    and "yp_db_rows ypir * yp_db_cols ypir < 2 ^ 64"
    and "validate_profile_parts lib qm rlwe ypir profile = Inr ()"
proof -
  note b = assms [unfolded build_simplepir_params_def Let_def]
  from b obtain pow cols where
    small: "POLY_LEN \<le> items" "POLY_LEN * plaintext_bits profile \<le> item_bits"
    and rows: "items + (POLY_LEN - 1) < 2 ^ 64"
    and pow: "checked_next_power_of_two ((items + (POLY_LEN - 1)) div POLY_LEN * POLY_LEN) = Some pow"
    and inst: "(item_bits div (POLY_LEN * plaintext_bits profile)
        + (if item_bits mod (POLY_LEN * plaintext_bits profile) \<noteq> 0 then 1 else 0)) * POLY_LEN < 2 ^ 64"
    and elems: "(items + (POLY_LEN - 1)) div POLY_LEN * POLY_LEN * cols < 2 ^ 64"
    and cols: "cols = (item_bits div (POLY_LEN * plaintext_bits profile)
        + (if item_bits mod (POLY_LEN * plaintext_bits profile) \<noteq> 0 then 1 else 0)) * POLY_LEN"
    and rlwe: "new_rlwe_params lib POLY_LEN SINGLE_CRT_Q (plaintext_modulus profile) SIGMA_CHI
        \<lparr>bits_per = GADGET_BITS_PER, ell = GADGET_ELL\<rparr> = Inr rlwe"
    and ypir: "ypir = \<lparr>num_items = items, item_size_bits = item_bits, poly_len = POLY_LEN,
        db_dim_1 = trailing_zeros pow - 11, db_dim_2 = 1,
        instances = item_bits div (POLY_LEN * plaintext_bits profile)
          + (if item_bits mod (POLY_LEN * plaintext_bits profile) \<noteq> 0 then 1 else 0),
        yp_db_rows = (items + (POLY_LEN - 1)) div POLY_LEN * POLY_LEN, yp_db_cols = cols,
        yp_p = plaintext_modulus profile, q_prime_1 = Q_PRIME_1, q_prime_2 = Q_PRIME_2,
        q2_bits = Q2_BITS, t_exp_left = T_EXP_LEFT, t_exp_right = T_EXP_RIGHT,
        query_bits = max (qm SINGLE_CRT_Q (plaintext_modulus profile) ((items + (POLY_LEN - 1)) div POLY_LEN * POLY_LEN))
                       (minimum_query_bits profile)\<rparr>"
    by (auto simp: bind_eq_Some_conv checked_add_def checked_mul_def not_less split: if_split_asm)
  show "POLY_LEN \<le> items" "POLY_LEN * plaintext_bits profile \<le> item_bits" "items + (POLY_LEN - 1) < 2 ^ 64"
    using small rows by simp_all
  show "new_rlwe_params lib POLY_LEN SINGLE_CRT_Q (plaintext_modulus profile) SIGMA_CHI
      \<lparr>bits_per = GADGET_BITS_PER, ell = GADGET_ELL\<rparr> = Inr rlwe" by (fact rlwe)
  show "yp_db_rows ypir = (items + (POLY_LEN - 1)) div POLY_LEN * POLY_LEN"
    "instances ypir = div_ceil item_bits (POLY_LEN * plaintext_bits profile)"
    "yp_db_cols ypir = instances ypir * POLY_LEN" "yp_db_rows ypir * yp_db_cols ypir < 2 ^ 64"
    using elems cols by (simp_all add: ypir div_ceil_def)
  note R = new_rlwe_params_Inr [OF rlwe]
  have "POLY_LEN * rp_d_inv rlwe < 2 ^ 128" using R(9) by (simp add: profile_consts)
  then have "u128 (POLY_LEN * rp_d_inv rlwe) mod SINGLE_CRT_Q = 1" using R(10) by (simp only: u128_id)
  moreover have "0 < (items + (POLY_LEN - Suc 0)) div POLY_LEN"
    using small(1) by (simp add: div_greater_zero_iff profile_consts)
  ultimately show "validate_profile_parts lib qm rlwe ypir profile = Inr ()"
    using small rows pow inst cols R
    by (simp add: validate_profile_parts_def profile_mismatch_def ypir Let_def checked_add_def checked_mul_def ok_or_def)
qed

section \<open>Properties\<close>

text \<open>C28. The extended-Euclid inverse is total and right: for every modulus above one it
  returns the canonical inverse, or nothing exactly when there is none.\<close>

theorem mod_inverse_correct:
  assumes "1 < modulus"
  shows "(mod_inverse a modulus = None \<longleftrightarrow> \<not> coprime a modulus)
    \<and> (\<forall>b. mod_inverse a modulus = Some b \<longrightarrow> b < modulus \<and> a * b mod modulus = 1)"
proof -
  have "coprime a modulus" if "a * b mod modulus = 1" for b
  proof (rule coprimeI)
    fix c assume "c dvd a" and "c dvd modulus"
    then have "c dvd a * b mod modulus" by (simp add: dvd_mod)
    then show "is_unit c" using that by simp
  qed
  then show ?thesis
    using mod_inverse_spec [OF assms, of a] by (auto split: option.splits)
qed

theorem mod_inverse_correct_witness:
  "mod_inverse 2048 72057594037641217 \<noteq> None \<and> mod_inverse 6 9 = None"
proof -
  have "\<not> coprime (6::nat) 9" by (rule not_coprimeI [of 3]) simp_all
  moreover have "coprime (2048::nat) 72057594037641217" using coprime_power_left_iff [of "2::nat" 11 72057594037641217] by simp
  ultimately show ?thesis
    using mod_inverse_correct [of 72057594037641217 2048] mod_inverse_correct [of 9 6] by simp
qed

text \<open>A production parameter set is the built one: the consistency check never
  refuses what the constructor derived, for any item shape and profile, so the check
  can only fail on parameters assembled elsewhere. \<close>

theorem production_params_consistent:
  "new_production_params lib query_modulus_bits items item_bits profile
     = build_simplepir_params lib query_modulus_bits items item_bits profile"
proof (cases "build_simplepir_params lib query_modulus_bits items item_bits profile")
  case (Inr r)
  then show ?thesis
    using build_params_Inr(9) [of lib query_modulus_bits items item_bits profile "fst r" "snd r"]
    by (cases r) (simp add: new_production_params_def)
qed (simp add: new_production_params_def)

text \<open>C29. The derived shape covers the request tightly: rows are the items rounded up to
  whole ring blocks, columns hold every item bit with less than one block to spare, the
  element count fits the address width, and the ring degree is invertible.\<close>

theorem production_params_shape:
  assumes "new_production_params lib query_modulus_bits items item_bits profile = Inr (rlwe, ypir)"
  shows "items \<le> yp_db_rows ypir \<and> yp_db_rows ypir < items + POLY_LEN \<and> yp_db_rows ypir mod POLY_LEN = 0
    \<and> item_bits \<le> yp_db_cols ypir * plaintext_bits profile
    \<and> (yp_db_cols ypir - POLY_LEN) * plaintext_bits profile < item_bits
    \<and> yp_db_rows ypir * yp_db_cols ypir < 2 ^ 64
    \<and> rp_d rlwe * rp_d_inv rlwe mod rp_q rlwe = 1 \<and> rp_q rlwe \<le> gadget_z (rp_gadget rlwe) ^ ell (rp_gadget rlwe)"
proof -
  have b: "build_simplepir_params lib query_modulus_bits items item_bits profile = Inr (rlwe, ypir)"
    using assms by (auto simp: new_production_params_def)
  note B = build_params_Inr [OF b] and R = new_rlwe_params_Inr [OF build_params_Inr(1) [OF b]]
  let ?c = "POLY_LEN * plaintext_bits profile"
  have c: "0 < ?c" by (cases profile) (simp_all add: profile_consts)
  have inst: "\<not> instances ypir < div_ceil item_bits ?c" "instances ypir - 1 < div_ceil item_bits ?c"
    using less_div_ceil_iff [OF c, of 0 item_bits] B(3) c by (auto simp: B(6))
  then have "item_bits \<le> instances ypir * ?c" "(instances ypir - 1) * ?c < item_bits"
    by (simp_all add: less_div_ceil_iff [OF c] not_less)
  moreover have "(yp_db_cols ypir - POLY_LEN) * plaintext_bits profile = (instances ypir - 1) * ?c"
    by (simp add: B(7) diff_mult_distrib mult.assoc)
  ultimately have cols: "item_bits \<le> yp_db_cols ypir * plaintext_bits profile"
      "(yp_db_cols ypir - POLY_LEN) * plaintext_bits profile < item_bits"
    by (simp_all only: B(7) mult.assoc)
  have rows: "items \<le> yp_db_rows ypir" "yp_db_rows ypir < items + POLY_LEN" "yp_db_rows ypir mod POLY_LEN = 0"
    unfolding B(5) using round_up_bounds [of POLY_LEN items] by (simp_all add: POLY_LEN_def)
  have "rp_d rlwe * rp_d_inv rlwe mod rp_q rlwe = 1" by (simp only: R(1,2,10))
  moreover have "u32 GADGET_ELL = GADGET_ELL" by (simp add: u32_def profile_consts)
  then have "rp_q rlwe \<le> gadget_z (rp_gadget rlwe) ^ ell (rp_gadget rlwe)"
    using R(11) by (simp add: R(2,4) gadget_z_def)
  ultimately show ?thesis using cols rows B(8) by (intro conjI)
qed

definition demo_spiral :: spiral_lib where
  "demo_spiral = \<lparr>init_panics = \<lambda>d q noise_width p ell. False, get_bits_per = \<lambda>q ell. 19,
     times_sqrt_tau = \<lambda>bits. 4625208757747562705\<rparr>"

theorem production_params_shape_witness:
  "\<exists>rlwe ypir. new_production_params demo_spiral (\<lambda>q p rows. 42) 2500 (2048 * 14 + 1) P14 = Inr (rlwe, ypir)
    \<and> 2500 \<le> yp_db_rows ypir \<and> yp_db_rows ypir < 2500 + POLY_LEN \<and> yp_db_rows ypir mod POLY_LEN = 0"
proof -
  have "\<not> isl (new_production_params demo_spiral (\<lambda>q p rows. 42) 2500 (2048 * 14 + 1) P14)" by code_simp
  then obtain r where "new_production_params demo_spiral (\<lambda>q p rows. 42) 2500 (2048 * 14 + 1) P14 = Inr r"
    by (cases "new_production_params demo_spiral (\<lambda>q p rows. 42) 2500 (2048 * 14 + 1) P14") auto
  then show ?thesis
    using production_params_shape [of demo_spiral "\<lambda>q p rows. 42" 2500 "2048 * 14 + 1" P14] by (cases r) blast
qed

end
