(* ===== verification/Ring.thy ===== *)
theory Ring
  imports Ipir_Prelude
begin

text \<open>
  The quotient ring the packing works in. A coefficient list \<open>p\<close> of length \<open>d\<close> stands for
  the polynomial \<open>p\<close> modulo \<open>X^d + 1\<close>; \<open>ext p\<close> is its coefficient function on all integers,
  with \<open>ext p (k + d) = - ext p k\<close>, so that multiplying by \<open>X^e\<close> is shifting the argument.
  Congruence of integers modulo \<open>q\<close> is \<open>eqm q\<close>. The routines of \<open>reinspiring/src/compile.rs\<close>
  on single polynomials (automorphism, rotation, schoolbook product) are modelled and
  characterised here by their action on \<open>ext\<close>.
\<close>

section \<open>Congruence\<close>

definition eqm :: "nat \<Rightarrow> int \<Rightarrow> int \<Rightarrow> bool" where
  "eqm q x y \<longleftrightarrow> int q dvd x - y"

lemma eqm_refl [simp, intro!]: "eqm q x x"
  by (simp add: eqm_def)

lemma eqm_sym: "eqm q x y \<Longrightarrow> eqm q y x"
  by (simp add: eqm_def dvd_diff_commute)

lemma eqm_trans [trans]: "eqm q x y \<Longrightarrow> eqm q y z \<Longrightarrow> eqm q x z"
  unfolding eqm_def by (metis diff_add_cancel dvd_add diff_diff_eq2 add_diff_eq)

lemma eqm_0 [simp]: "eqm 0 x y \<longleftrightarrow> x = y"
  by (simp add: eqm_def)

lemma eqm_mod_iff: "eqm q x y \<longleftrightarrow> x mod int q = y mod int q"
  by (simp add: eqm_def mod_eq_dvd_iff)

lemma eqm_add: "eqm q x y \<Longrightarrow> eqm q u v \<Longrightarrow> eqm q (x + u) (y + v)"
  unfolding eqm_mod_iff by (rule mod_add_cong)

lemma eqm_diff: "eqm q x y \<Longrightarrow> eqm q u v \<Longrightarrow> eqm q (x - u) (y - v)"
  unfolding eqm_mod_iff by (rule mod_diff_cong)

lemma eqm_minus: "eqm q x y \<Longrightarrow> eqm q (- x) (- y)"
  unfolding eqm_mod_iff by (rule mod_minus_cong)

lemma eqm_mult: "eqm q x y \<Longrightarrow> eqm q u v \<Longrightarrow> eqm q (x * u) (y * v)"
  unfolding eqm_mod_iff by (rule mod_mult_cong)

lemma eqm_sum: "(\<And>i. i \<in> A \<Longrightarrow> eqm q (f i) (g i)) \<Longrightarrow> eqm q (sum f A) (sum g A)"
  by (induction A rule: infinite_finite_induct) (auto intro: eqm_add)

lemma eqm_mod [simp]: "eqm q (x mod int q) x"
  by (simp add: eqm_mod_iff)

lemma eqm_nat_mod [simp]: "eqm q (int (x mod q)) (int x)"
  by (simp add: eqm_mod_iff zmod_int)

lemma eqm_neg_nat: "c \<le> q \<Longrightarrow> eqm q (int (q - c)) (- int c)"
  by (simp add: eqm_def of_nat_diff)

lemma eqm_nat_eq: "eqm q (int x) (int y) \<Longrightarrow> x < q \<Longrightarrow> y < q \<Longrightarrow> x = y"
  by (metis eqm_mod_iff mod_less of_nat_eq_iff zmod_int)

lemma eqm_dvd: "eqm q x y \<Longrightarrow> m dvd q \<Longrightarrow> eqm m x y"
  by (auto simp: eqm_def elim: dvd_trans [rotated])

text \<open>Wrapping 64-bit words are exact modulo a power of two.\<close>

lemma eqm_u64: "k \<le> 64 \<Longrightarrow> eqm (2 ^ k) (int (u64 x)) (int x)"
  unfolding eqm_mod_iff zmod_int [symmetric] by (simp only: u64_mod_exp)

lemma eqm_wrapping_add: "k \<le> 64 \<Longrightarrow> eqm (2 ^ k) (int (wrapping_add a b)) (int a + int b)"
  using eqm_u64 [of k "a + b"] by (simp add: wrapping_add_def)

lemma eqm_wrapping_mul: "k \<le> 64 \<Longrightarrow> eqm (2 ^ k) (int (wrapping_mul a b)) (int a * int b)"
  using eqm_u64 [of k "a * b"] by (simp add: wrapping_mul_def)

lemma eqm_wrapping_sub: "k \<le> 64 \<Longrightarrow> eqm (2 ^ k) (int (wrapping_sub a b)) (int a - int b)"
proof -
  assume k: "k \<le> 64"
  have "int (2 ^ 64 - u64 b) = 2 ^ 64 - int (u64 b)" by (simp add: of_nat_diff less_imp_le)
  moreover have "eqm (2 ^ k) (2 ^ 64) 0"
    unfolding eqm_def of_nat_power of_nat_numeral diff_0_right by (rule le_imp_power_dvd [OF k])
  then have "eqm (2 ^ k) (2 ^ 64 - int (u64 b)) (0 - int b)"
    by (rule eqm_diff) (rule eqm_u64 [OF k])
  ultimately have "eqm (2 ^ k) (int a + int (2 ^ 64 - u64 b)) (int a + (0 - int b))"
    by (intro eqm_add) simp_all
  then show ?thesis
    using eqm_trans [OF eqm_u64 [OF k, of "a + (2 ^ 64 - u64 b)"]] by (simp add: wrapping_sub_def)
qed

lemma eqm_wrapping_neg: "k \<le> 64 \<Longrightarrow> eqm (2 ^ k) (int (wrapping_neg a)) (- int a)"
  using eqm_wrapping_sub [of k 0 a] by (simp add: wrapping_neg_def)

lemma eqm_mask: "eqm (2 ^ k) (int (x AND (2 ^ k - 1))) (int x)"
  by (simp only: and_exp_minus_1 eqm_nat_mod)

lemma mask_less: "x AND (2 ^ k - 1) < (2::nat) ^ k"
  by (simp only: and_exp_minus_1) simp

lemma as_u64_mask: "is_power_of_two q \<Longrightarrow> as_u64 x AND (q - 1) = rem_euclid x q"
proof -
  assume "is_power_of_two q"
  then obtain k where k: "k < 64" "q = 2 ^ k" by (auto simp: is_power_of_two_iff)
  have "x mod 2 ^ 64 mod 2 ^ k = x mod 2 ^ k" using k(1) by (simp only: mod_mod_cancel le_imp_power_dvd less_imp_le)
  then show ?thesis unfolding k(2) and_exp_minus_1 by (simp add: as_u64_def rem_euclid_def nat_mod_as_int)
qed

lemmas eqm_arith = eqm_add eqm_diff eqm_minus eqm_mult

section \<open>Antiperiodic functions\<close>

definition antiper :: "nat \<Rightarrow> (int \<Rightarrow> int) \<Rightarrow> bool" where
  "antiper d f \<longleftrightarrow> (\<forall>k. f (k + int d) = - f k)"

lemma antiperD: "antiper d f \<Longrightarrow> f (k + int d) = - f k"
  by (simp add: antiper_def)

lemma antiper_sub: "antiper d f \<Longrightarrow> f (k - int d) = - f k"
  using antiperD [of d f "k - int d"] by simp

lemma antiper_double: "antiper d f \<Longrightarrow> f (k + 2 * int d * m) = f k"
proof (induction m rule: int_induct [where k = 0])
  case base
  then show ?case by simp
next
  case (step1 i)
  have "f (k + 2 * int d * (i + 1)) = f (((k + 2 * int d * i) + int d) + int d)"
    by (simp add: algebra_simps)
  also have "\<dots> = f (k + 2 * int d * i)" using step1.prems by (simp only: antiperD minus_minus)
  finally show ?case using step1 by simp
next
  case (step2 i)
  have "f (k + 2 * int d * (i - 1)) = f (((k + 2 * int d * i) - int d) - int d)"
    by (simp add: algebra_simps)
  also have "\<dots> = f (k + 2 * int d * i)" using step2.prems by (simp only: antiper_sub minus_minus)
  finally show ?case using step2 by simp
qed

lemma antiper_mod: "antiper d f \<Longrightarrow> f (k mod (2 * int d)) = f k"
proof -
  assume f: "antiper d f"
  have "f k = f (k mod (2 * int d) + 2 * int d * (k div (2 * int d)))"
    by (simp only: mod_mult_div_eq)
  also have "\<dots> = f (k mod (2 * int d))" by (rule antiper_double [OF f])
  finally show ?thesis by simp
qed

lemma antiper_shift: "antiper d f \<Longrightarrow> antiper d (\<lambda>k. f (k - e))"
  unfolding antiper_def by (metis add_diff_eq diff_add_eq)

lemma antiper_reflect: "antiper d f \<Longrightarrow> antiper d (\<lambda>k. f (e - k))"
proof -
  assume f: "antiper d f"
  have "f (e - (k + int d)) = - f (e - k)" for k
    using antiper_sub [OF f, of "e - k"] by (simp add: algebra_simps)
  then show ?thesis by (simp add: antiper_def)
qed

lemma antiper_sum: "(\<And>i. i \<in> A \<Longrightarrow> antiper d (f i)) \<Longrightarrow> antiper d (\<lambda>k. \<Sum>i\<in>A. f i k)"
  by (simp add: antiper_def sum_negf)

lemma antiper_add: "antiper d f \<Longrightarrow> antiper d g \<Longrightarrow> antiper d (\<lambda>k. f k + g k)"
  by (simp add: antiper_def)

lemma antiper_diff: "antiper d f \<Longrightarrow> antiper d g \<Longrightarrow> antiper d (\<lambda>k. f k - g k)"
  by (simp add: antiper_def)

lemma antiper_cmult: "antiper d f \<Longrightarrow> antiper d (\<lambda>k. c * f k)"
  by (simp add: antiper_def)

text \<open>Antiperiodic functions that agree on one period agree.\<close>

lemma antiper_eqm:
  assumes f: "antiper d f" and g: "antiper d g" and "0 < d"
    and eq: "\<And>k. k < d \<Longrightarrow> eqm q (f (int k)) (g (int k))"
  shows "eqm q (f k) (g k)"
proof -
  define m where "m = nat (k mod (2 * int d))"
  have m: "int m = k mod (2 * int d)" "m < 2 * d" using \<open>0 < d\<close> by (simp_all add: m_def nat_less_iff)
  have "eqm q (f (int m)) (g (int m))"
  proof (cases "m < d")
    case False
    then have "int m = int (m - d) + int d" by simp
    then have "f (int m) = - f (int (m - d))" "g (int m) = - g (int (m - d))"
      using f g by (simp_all only: antiperD)
    moreover have "m - d < d" using m(2) False by linarith
    ultimately show ?thesis using eq [of "m - d"] by (simp add: eqm_minus)
  qed (rule eq)
  then show ?thesis using m(1) f g by (simp add: antiper_mod)
qed

section \<open>The coefficient function\<close>

definition iext :: "int list \<Rightarrow> int \<Rightarrow> int" where
  "iext p k =
     (let d = int (length p); m = k mod (2 * d)
      in if m < d then p ! nat m else - (p ! nat (m - d)))"

lemma iext_nth: "k < length p \<Longrightarrow> iext p (int k) = p ! k"
  by (simp add: iext_def Let_def)

lemma iext_antiper: "0 < length p \<Longrightarrow> antiper (length p) (iext p)"
proof -
  assume d: "0 < length p"
  let ?d = "int (length p)"
  have "iext p (k + ?d) = - iext p k" for k
  proof -
    define m where "m = k mod (2 * ?d)"
    have m: "0 \<le> m" "m < 2 * ?d" using d by (simp_all add: m_def)
    have "(k + ?d) mod (2 * ?d) = (m + ?d) mod (2 * ?d)" by (simp only: m_def mod_add_left_eq)
    also have "\<dots> = (if m < ?d then m + ?d else m - ?d)"
    proof (cases "m < ?d")
      case True
      then show ?thesis using m by simp
    next
      case False
      have "(m + ?d) mod (2 * ?d) = (m - ?d + 2 * ?d) mod (2 * ?d)"
        by (rule arg_cong [of _ _ "\<lambda>z. z mod (2 * ?d)"]) simp
      also have "\<dots> = (m - ?d) mod (2 * ?d)" by (rule mod_add_self2)
      also have "\<dots> = m - ?d" using m False by (intro mod_pos_pos_trivial) linarith+
      finally show ?thesis using False by simp
    qed
    finally show ?thesis using m by (auto simp: iext_def Let_def m_def [symmetric])
  qed
  then show ?thesis by (simp add: antiper_def)
qed

text \<open>The extension of machine words.\<close>

definition ext :: "nat list \<Rightarrow> int \<Rightarrow> int" where
  "ext p k =
     (let d = int (length p); m = k mod (2 * d)
      in if m < d then int (p ! nat m) else - int (p ! nat (m - d)))"

lemma ext_nth: "k < length p \<Longrightarrow> ext p (int k) = int (p ! k)"
  by (simp add: ext_def Let_def)

lemma ext_iext: "0 < length p \<Longrightarrow> ext p k = iext (map int p) k"
proof -
  assume d: "0 < length p"
  let ?m = "k mod (2 * int (length p))"
  have "0 \<le> ?m" "?m < 2 * int (length p)" using d by simp_all
  then show ?thesis by (auto simp: ext_def iext_def Let_def nat_less_iff)
qed

lemma ext_antiper: "0 < length p \<Longrightarrow> antiper (length p) (ext p)"
  using iext_antiper [of "map int p"] by (simp add: antiper_def ext_iext)

lemma iext_eqm:
  assumes "0 < length p" and "antiper (length p) f"
    and "\<And>k. k < length p \<Longrightarrow> eqm q (p ! k) (f (int k))"
  shows "eqm q (iext p k) (f k)"
  using iext_antiper [OF assms(1)] assms(2,1)
  by (rule antiper_eqm) (simp add: iext_nth assms(3))

lemma ext_eqm:
  assumes "0 < length p" and "antiper (length p) f"
    and "\<And>k. k < length p \<Longrightarrow> eqm q (int (p ! k)) (f (int k))"
  shows "eqm q (ext p k) (f k)"
  using ext_antiper [OF assms(1)] assms(2,1)
  by (rule antiper_eqm) (simp add: ext_nth assms(3))

lemma ext_neg_index:
  assumes "k \<le> length p" and "0 < k"
  shows "ext p (- int k) = - int (p ! (length p - k))"
proof -
  have "ext p (int (length p - k) - int (length p)) = - ext p (int (length p - k))"
    using assms by (intro antiper_sub ext_antiper) auto
  moreover have "ext p (int (length p - k)) = int (p ! (length p - k))"
    using assms by (intro ext_nth) simp
  ultimately show ?thesis using assms by (simp add: of_nat_diff)
qed

section \<open>Accumulating loops\<close>

text \<open>A loop that adds \<open>v i\<close> to cell \<open>idx i\<close> modulo \<open>q\<close>: weighting the cells by a function
  weights the additions, so the final list is known up to congruence.\<close>

lemma accumulate_pairing:
  assumes "\<And>i out. i \<in> set xs \<Longrightarrow> length out = d \<Longrightarrow> all_below q out \<Longrightarrow>
      idx i < d \<and> upd i out < q \<and> eqm q (int (upd i out)) (int (out ! idx i) + v i)"
    and "length out0 = d" and "all_below q out0"
  shows "length (fold (\<lambda>i out. out[idx i := upd i out]) xs out0) = d
    \<and> all_below q (fold (\<lambda>i out. out[idx i := upd i out]) xs out0)
    \<and> eqm q (\<Sum>j<d. int (fold (\<lambda>i out. out[idx i := upd i out]) xs out0 ! j) * w j)
        ((\<Sum>j<d. int (out0 ! j) * w j) + (\<Sum>i\<leftarrow>xs. v i * w (idx i)))"
  using assms
proof (induction xs arbitrary: out0)
  case Nil
  then show ?case by simp
next
  case (Cons x xs)
  let ?o = "out0[idx x := upd x out0]"
  have x: "idx x < d" "upd x out0 < q" "eqm q (int (upd x out0)) (int (out0 ! idx x) + v x)"
    using Cons.prems(1) [of x out0] Cons.prems(2,3) by simp_all
  have o: "length ?o = d" "all_below q ?o"
    using Cons.prems(2,3) x(2) set_update_subset_insert [of out0 "idx x" "upd x out0"]
    by (auto simp: all_below_set)
  have split: "(\<Sum>j<d. g j) = g (idx x) + (\<Sum>j\<in>{..<d} - {idx x}. g j)" for g :: "nat \<Rightarrow> int"
    using x(1) by (simp add: sum.remove)
  have "(\<Sum>j<d. int (?o ! j) * w j) = int (upd x out0) * w (idx x) + (\<Sum>j\<in>{..<d} - {idx x}. int (out0 ! j) * w j)"
    unfolding split using x(1) Cons.prems(2) by (simp add: nth_list_update)
  also have "eqm q \<dots> ((int (out0 ! idx x) + v x) * w (idx x) + (\<Sum>j\<in>{..<d} - {idx x}. int (out0 ! j) * w j))"
    using x(3) by (intro eqm_add eqm_mult) simp_all
  also have "(int (out0 ! idx x) + v x) * w (idx x) + (\<Sum>j\<in>{..<d} - {idx x}. int (out0 ! j) * w j)
      = (\<Sum>j<d. int (out0 ! j) * w j) + v x * w (idx x)"
    unfolding split [of "\<lambda>j. int (out0 ! j) * w j"] by (simp add: algebra_simps)
  finally have one: "eqm q (\<Sum>j<d. int (?o ! j) * w j) ((\<Sum>j<d. int (out0 ! j) * w j) + v x * w (idx x))" .
  have IH: "length (fold (\<lambda>i out. out[idx i := upd i out]) xs ?o) = d
    \<and> all_below q (fold (\<lambda>i out. out[idx i := upd i out]) xs ?o)
    \<and> eqm q (\<Sum>j<d. int (fold (\<lambda>i out. out[idx i := upd i out]) xs ?o ! j) * w j)
      ((\<Sum>j<d. int (?o ! j) * w j) + (\<Sum>i\<leftarrow>xs. v i * w (idx i)))"
    using Cons.prems(1) o by (intro Cons.IH) auto
  have "eqm q ((\<Sum>j<d. int (?o ! j) * w j) + (\<Sum>i\<leftarrow>xs. v i * w (idx i)))
      (((\<Sum>j<d. int (out0 ! j) * w j) + v x * w (idx x)) + (\<Sum>i\<leftarrow>xs. v i * w (idx i)))"
    by (rule eqm_add [OF one eqm_refl])
  then have "eqm q (\<Sum>j<d. int (fold (\<lambda>i out. out[idx i := upd i out]) (x # xs) out0 ! j) * w j)
      ((\<Sum>j<d. int (out0 ! j) * w j) + (\<Sum>i\<leftarrow>x # xs. v i * w (idx i)))"
    using eqm_trans [OF conjunct2 [OF conjunct2 [OF IH]]] by (simp only: fold.simps comp_apply list.map sum_list.Cons add.assoc)
  then show ?case using IH by simp
qed

section \<open>Routines on single polynomials\<close>

subsection \<open>Model\<close>

definition tau_coeffs :: "nat list \<Rightarrow> nat \<Rightarrow> nat \<Rightarrow> nat list" where
  "tau_coeffs p g q =
     (let d = length p; two_d = 2 * d
      in fold (\<lambda>i out.
            let c = p ! i; e = u64 (i * g) mod two_d
            in if e < d then out[e := u64 (out ! e + c) mod q]
               else out[e - d := (u64 (out ! (e - d) + q) - c mod q) mod q])
          [0..<d] (replicate d 0))"

definition schoolbook_negacyclic :: "nat list \<Rightarrow> nat list \<Rightarrow> nat \<Rightarrow> nat list" where
  "schoolbook_negacyclic a b q =
     (let d = length a;
          raw = fold (\<lambda>i raw.
                  let ai = a ! i mod q
                  in if ai = 0 then raw
                     else fold (\<lambda>j raw. raw[i + j := raw ! (i + j) + int ai * int (b ! j mod q)]) [0..<d] raw)
                [0..<d] (replicate (2 * d) 0)
      in map (\<lambda>k. rem_euclid (raw ! k - raw ! (k + d)) q) [0..<d])"

definition rotate_by_x_power :: "nat list \<Rightarrow> nat \<Rightarrow> nat \<Rightarrow> nat list" where
  "rotate_by_x_power p exp_mod_2d q =
     (let d = length p;
          e = exp_mod_2d mod (2 * d);
          (idx, sign_pos) = (if e < d then (e, True) else (e - d, False))
      in fold (\<lambda>i out.
            let dst = (i + idx) mod d; wraps = i + idx \<ge> d;
                c0 = p ! i mod q;
                c1 = (if wraps then (q - c0) mod q else c0);
                c = (if \<not> sign_pos then (q - c1) mod q else c1)
            in out[dst := u64 (out ! dst + c) mod q])
          [0..<d] (replicate d 0))"

definition shift_negacyclic :: "nat list \<Rightarrow> nat \<Rightarrow> nat \<Rightarrow> nat list" where
  "shift_negacyclic p shift q =
     (let d = length p
      in fold (\<lambda>i out.
            let dst = (i + shift) mod d; wraps = i + shift \<ge> d;
                c0 = p ! i mod q;
                c = (if wraps then (q - c0) mod q else c0)
            in out[dst := u64 (out ! dst + c) mod q])
          [0..<d] (replicate d 0))"

text \<open>A canonical coefficient vector under a modulus the 64-bit sums cannot overflow.\<close>

definition canon :: "nat \<Rightarrow> nat \<Rightarrow> nat list \<Rightarrow> bool" where
  "canon q d p \<longleftrightarrow> 0 < q \<and> q \<le> 2 ^ 62 \<and> 0 < d \<and> length p = d \<and> all_below q p"

lemma canonD:
  assumes "canon q d p"
  shows "0 < q" "q \<le> 2 ^ 62" "0 < d" "length p = d" "all_below q p" "k < d \<Longrightarrow> p ! k < q"
  using assms by (auto simp: canon_def dest: all_below_nth)

lemma canon_antiper: "canon q d p \<Longrightarrow> antiper d (ext p)"
  using ext_antiper [of p] by (auto simp: canon_def)

lemma canon_pairing_nth:
  assumes "length p = d" and "k < d"
  shows "(\<Sum>j<d. int (p ! j) * (if j = k then 1 else 0)) = int (p ! k)"
  using assms by (simp add: if_distrib cong: if_cong)

lemma add_no_wrap: "a < q \<Longrightarrow> b \<le> q \<Longrightarrow> q \<le> 2 ^ 62 \<Longrightarrow> u64 (a + b) = a + b"
  by (intro u64_id) simp

subsection \<open>Automorphism\<close>

lemma tau_coeffs_pairing:
  assumes p: "canon q d p" and g: "d * g < 2 ^ 64" and f: "antiper d f"
  shows "canon q d (tau_coeffs p g q)"
    and "eqm q (\<Sum>j<d. int (tau_coeffs p g q ! j) * f (int j)) (\<Sum>i<d. int (p ! i) * f (int i * int g))"
proof -
  define e where "e i = u64 (i * g) mod (2 * d)" for i
  define idx where "idx i = (if e i < d then e i else e i - d)" for i
  define upd where "upd i out = (if e i < d then u64 (out ! idx i + p ! i) mod q
      else (u64 (out ! idx i + q) - p ! i mod q) mod q)" for i out
  define v where "v i = (if e i < d then int (p ! i) else - int (p ! i))" for i
  have d: "0 < d" "length p = d" using p by (auto dest: canonD)
  have e: "e i < 2 * d" "int (e i) = (int i * int g) mod (2 * int d)" if "i < d" for i
  proof -
    have "i * g < 2 ^ 64" using that g le_less_trans [OF mult_le_mono1 [of i d g]] by simp
    then show "int (e i) = (int i * int g) mod (2 * int d)" by (simp only: e_def u64_id) (simp add: zmod_int)
  qed (use d in \<open>simp add: e_def\<close>)
  have code: "tau_coeffs p g q = fold (\<lambda>i out. out[idx i := upd i out]) [0..<d] (replicate d 0)"
    by (auto simp: tau_coeffs_def Let_def d(2) e_def idx_def upd_def intro!: fold_cong)
  have step: "idx i < d \<and> upd i out < q \<and> eqm q (int (upd i out)) (int (out ! idx i) + v i)"
    if i: "i \<in> set [0..<d]" and out: "length out = d" "all_below q out" for i out
  proof -
    have idx: "idx i < d" using e(1) [of i] i by (auto simp: idx_def)
    have b: "out ! idx i < q" "p ! i < q" using all_below_nth [OF out(2)] idx out(1) canonD(6) [OF p] i by auto
    have "eqm q (int (upd i out)) (int (out ! idx i) + v i)"
    proof (cases "e i < d")
      case True
      then show ?thesis
        using eqm_nat_mod [of q "out ! idx i + p ! i"] b canonD(2) [OF p] by (simp add: upd_def v_def add_no_wrap)
    next
      case False
      have "eqm q (int ((out ! idx i + q - p ! i) mod q)) (int (out ! idx i + q - p ! i))" by simp
      also have "eqm q (int (out ! idx i + q - p ! i)) (int (out ! idx i) - int (p ! i))"
        using b by (simp add: eqm_def of_nat_diff)
      finally show ?thesis using False b canonD(2) [OF p] by (simp add: upd_def v_def add_no_wrap)
    qed
    then show ?thesis using idx canonD(1) [OF p] by (simp add: upd_def)
  qed
  have zero: "all_below q (replicate d 0)" using canonD(1) [OF p] by (simp add: all_below_set)
  note P = accumulate_pairing [of "[0..<d]" d q idx upd v "replicate d 0" "\<lambda>j. f (int j)", OF step _ zero, folded code]
  show "canon q d (tau_coeffs p g q)" using P p by (simp add: canon_def)
  have "v i * f (int (idx i)) = int (p ! i) * f (int i * int g)" if "i < d" for i
  proof -
    have "f (int i * int g) = f (int (e i))" using e(2) [OF that] antiper_mod [OF f] by simp
    moreover have "f (int (e i)) = - f (int (e i - d))" if "\<not> e i < d"
      using antiperD [OF f, of "int (e i - d)"] that by (simp add: of_nat_diff)
    ultimately show ?thesis by (auto simp: v_def idx_def)
  qed
  then have "(\<Sum>i\<leftarrow>[0..<d]. v i * f (int (idx i))) = (\<Sum>i<d. int (p ! i) * f (int i * int g))"
    by (simp add: interv_sum_list_conv_sum_set_nat atLeast0LessThan)
  moreover have "(\<Sum>j<d. int (replicate d 0 ! j) * f (int j)) = 0" by simp
  ultimately show "eqm q (\<Sum>j<d. int (tau_coeffs p g q ! j) * f (int j)) (\<Sum>i<d. int (p ! i) * f (int i * int g))"
    using P by simp
qed

subsection \<open>From weights to coefficients\<close>

definition delta :: "nat \<Rightarrow> int \<Rightarrow> int" where
  "delta d x = (if x mod (2 * int d) = 0 then 1 else if x mod (2 * int d) = int d then - 1 else 0)"

lemma delta_antiper: "0 < d \<Longrightarrow> antiper d (delta d)"
proof -
  assume d: "0 < d"
  have "delta d (k + int d) = - delta d k" for k
  proof -
    define m where "m = k mod (2 * int d)"
    have m: "0 \<le> m" "m < 2 * int d" using d by (simp_all add: m_def)
    have "(k + int d) mod (2 * int d) = (m + int d) mod (2 * int d)" by (simp only: m_def mod_add_left_eq)
    moreover have "(m + int d) mod (2 * int d) = (if m < int d then m + int d else m - int d)"
    proof (cases "m < int d")
      case False
      have "(m + int d) mod (2 * int d) = (m - int d + 2 * int d) mod (2 * int d)"
        by (rule arg_cong [of _ _ "\<lambda>z. z mod (2 * int d)"]) simp
      also have "\<dots> = m - int d" using m False by (simp only: mod_add_self2) (simp add: mod_pos_pos_trivial)
      finally show ?thesis using False by simp
    qed (use m in simp)
    ultimately show ?thesis using m d by (auto simp: delta_def m_def [symmetric])
  qed
  then show ?thesis by (simp add: antiper_def)
qed

lemma delta_small: "\<bar>x\<bar> < int d \<Longrightarrow> delta d x = (if x = 0 then 1 else 0)"
proof -
  assume x: "\<bar>x\<bar> < int d"
  have "x mod (2 * int d) = (if 0 \<le> x then x else x + 2 * int d)"
  proof (cases "0 \<le> x")
    case False
    have "x mod (2 * int d) = (x + 2 * int d) mod (2 * int d)" by simp
    also have "\<dots> = x + 2 * int d" using x False by (intro mod_pos_pos_trivial) linarith+
    finally show ?thesis using False by simp
  qed (use x in simp)
  then show ?thesis using x by (auto simp: delta_def)
qed

lemma delta_pairing: "k < d \<Longrightarrow> length p = d \<Longrightarrow> (\<Sum>j<d. int (p ! j) * delta d (int k - int j)) = int (p ! k)"
proof -
  assume h: "k < d" "length p = d"
  have "(\<Sum>j<d. int (p ! j) * delta d (int k - int j)) = (\<Sum>j<d. if j = k then int (p ! j) else 0)"
  proof (rule sum.cong [OF refl])
    fix j assume "j \<in> {..<d}"
    then have "\<bar>int k - int j\<bar> < int d" using h by auto
    then show "int (p ! j) * delta d (int k - int j) = (if j = k then int (p ! j) else 0)"
      by (simp add: delta_small)
  qed
  then show ?thesis using h by simp
qed

lemma ext_delta:
  assumes "0 < d" and "length p = d"
  shows "ext p m = (\<Sum>i<d. int (p ! i) * delta d (m - int i))"
proof -
  have "antiper d (\<lambda>m. \<Sum>i<d. int (p ! i) * delta d (m - int i))"
    using delta_antiper [OF assms(1)] by (intro antiper_sum antiper_cmult antiper_shift)
  then have "eqm 0 (ext p m) (\<Sum>i<d. int (p ! i) * delta d (m - int i))"
    using assms by (intro ext_eqm) (simp_all add: delta_pairing)
  then show ?thesis by (simp add: eqm_def)
qed

lemma pairing_ext:
  assumes "0 < d" and "length out = d"
    and "\<And>f. antiper d f \<Longrightarrow> eqm q (\<Sum>j<d. int (out ! j) * f (int j)) (\<Sum>i<n. c i * f (h i))"
  shows "eqm q (ext out m) (\<Sum>i<n. c i * delta d (m - h i))"
  using assms(3) [of "\<lambda>k. delta d (m - k)"] delta_antiper [OF assms(1)] ext_delta [OF assms(1,2)]
  by (simp add: antiper_reflect)

subsection \<open>Rotation\<close>

text \<open>The signed coefficient both rotation loops move.\<close>

definition rot_coeff :: "nat list \<Rightarrow> nat \<Rightarrow> nat \<Rightarrow> nat \<Rightarrow> bool \<Rightarrow> nat \<Rightarrow> nat" where
  "rot_coeff p q d s neg i =
     (let c0 = p ! i mod q; c1 = (if i + s \<ge> d then (q - c0) mod q else c0)
      in if neg then (q - c1) mod q else c1)"

lemma rotation_loop:
  fixes neg :: bool
  assumes p: "canon q d p" and f: "antiper d f" and s: "s < d"
  defines "out \<equiv> fold (\<lambda>i out. out[(i + s) mod d := u64 (out ! ((i + s) mod d) + rot_coeff p q d s neg i) mod q])
      [0..<d] (replicate d 0)"
  shows "canon q d out"
    and "eqm q (\<Sum>j<d. int (out ! j) * f (int j))
      (\<Sum>i<d. int (p ! i) * f (int i + (if neg then int s + int d else int s)))"
proof -
  let ?c = "rot_coeff p q d s neg"
  have q: "0 < q" "q \<le> 2 ^ 62" "0 < d" using canonD [OF p] by simp_all
  have c: "?c i < q" "eqm q (int (?c i)) ((if i + s \<ge> d \<longleftrightarrow> neg then 1 else - 1) * int (p ! i))" if "i < d" for i
  proof -
    have flip: "eqm q (int ((q - x) mod q)) (- int x)" if "x < q" for x
      using eqm_trans [OF eqm_nat_mod eqm_neg_nat [of x q]] that by simp
    have p0: "p ! i < q" using canonD(6) [OF p that] .
    have "(q - p ! i) mod q < q" using q by simp
    then show "eqm q (int (?c i)) ((if i + s \<ge> d \<longleftrightarrow> neg then 1 else - 1) * int (p ! i))"
      using p0 flip [OF p0] eqm_trans [OF flip eqm_minus [OF flip [OF p0]]]
      by (auto simp: rot_coeff_def Let_def)
    show "?c i < q" using q p0 by (auto simp: rot_coeff_def Let_def)
  qed
  have step: "(i + s) mod d < d \<and> u64 (o' ! ((i + s) mod d) + ?c i) mod q < q
      \<and> eqm q (int (u64 (o' ! ((i + s) mod d) + ?c i) mod q)) (int (o' ! ((i + s) mod d)) + int (?c i))"
    if "i \<in> set [0..<d]" "length o' = d" "all_below q o'" for i o'
  proof -
    have "u64 (o' ! ((i + s) mod d) + ?c i) = o' ! ((i + s) mod d) + ?c i"
      using c(1) [of i] that q by (intro add_no_wrap [of _ q]) (auto simp: all_below_nth)
    then show ?thesis using eqm_nat_mod [of q "o' ! ((i + s) mod d) + ?c i"] q by simp
  qed
  have zero: "all_below q (replicate d 0)" using q by (simp add: all_below_set)
  note P = accumulate_pairing [of "[0..<d]" d q "\<lambda>i. (i + s) mod d"
      "\<lambda>i o'. u64 (o' ! ((i + s) mod d) + ?c i) mod q" "\<lambda>i. int (?c i)" "replicate d 0" "\<lambda>j. f (int j)",
      OF step _ zero, folded out_def]
  show "canon q d out" using P p by (simp add: canon_def)
  have "eqm q (int (?c i) * f (int ((i + s) mod d))) (int (p ! i) * f (int i + (if neg then int s + int d else int s)))"
    if "i < d" for i
  proof -
    have dst: "int ((i + s) mod d) = int i + int s - (if i + s \<ge> d then int d else 0)"
    proof (cases "i + s \<ge> d")
      case True
      then have "(i + s) mod d = i + s - d" using that s by (simp add: le_mod_geq)
      then show ?thesis using True by (simp add: of_nat_diff)
    qed simp
    have "f (int i + (if neg then int s + int d else int s))
        = (if i + s \<ge> d \<longleftrightarrow> neg then 1 else - 1) * f (int ((i + s) mod d))"
      unfolding dst using antiperD [OF f, of "int i + int s"] antiper_sub [OF f, of "int i + int s"]
      by (auto simp: add.assoc)
    then show ?thesis
      using eqm_mult [OF c(2) [OF that] eqm_refl, of "f (int ((i + s) mod d))"]
      by (auto simp: algebra_simps)
  qed
  then have "eqm q (\<Sum>i<d. int (?c i) * f (int ((i + s) mod d)))
      (\<Sum>i<d. int (p ! i) * f (int i + (if neg then int s + int d else int s)))"
    by (intro eqm_sum) simp
  moreover have "(\<Sum>i\<leftarrow>[0..<d]. int (?c i) * f (int ((i + s) mod d))) = (\<Sum>i<d. int (?c i) * f (int ((i + s) mod d)))"
    by (simp add: interv_sum_list_conv_sum_set_nat atLeast0LessThan)
  moreover have "eqm q (\<Sum>j<d. int (out ! j) * f (int j)) (\<Sum>i\<leftarrow>[0..<d]. int (?c i) * f (int ((i + s) mod d)))"
    using P by simp
  ultimately show "eqm q (\<Sum>j<d. int (out ! j) * f (int j))
      (\<Sum>i<d. int (p ! i) * f (int i + (if neg then int s + int d else int s)))"
    by (simp only: eqm_trans)
qed

lemma rotate_by_x_power_ext:
  assumes p: "canon q d p"
  shows "canon q d (rotate_by_x_power p e q)" and "eqm q (ext (rotate_by_x_power p e q) k) (ext p (k - int e))"
proof -
  define e' where "e' = e mod (2 * d)"
  define neg where "neg = (\<not> e' < d)"
  define s where "s = (if neg then e' - d else e')"
  have d: "0 < d" "length p = d" using canonD [OF p] by simp_all
  have e': "e' < 2 * d" using d by (simp add: e'_def)
  have s: "s < d" and total: "(if neg then int s + int d else int s) = int e'"
    using e' by (auto simp: s_def neg_def of_nat_diff)
  have code: "rotate_by_x_power p e q = fold (\<lambda>i out. out[(i + s) mod d := u64 (out ! ((i + s) mod d)
      + rot_coeff p q d s neg i) mod q]) [0..<d] (replicate d 0)"
    by (simp add: rot_coeff_def rotate_by_x_power_def Let_def d(2) e'_def [symmetric] neg_def s_def split: if_splits)
  note R = rotation_loop [OF p _ s, where neg = neg, folded code, unfolded total]
  show c: "canon q d (rotate_by_x_power p e q)" using R(1) [OF delta_antiper [OF d(1)]] .
  have "eqm q (ext (rotate_by_x_power p e q) k) (\<Sum>i<d. int (p ! i) * delta d (k - (int i + int e')))"
    using R(2) canonD(4) [OF c] by (intro pairing_ext [OF d(1)]) simp_all
  also have "(\<Sum>i<d. int (p ! i) * delta d (k - (int i + int e'))) = ext p (k - int e')"
    unfolding ext_delta [OF d] by (simp add: algebra_simps)
  also have "ext p (k - int e') = ext p (k - int e)"
  proof -
    have "k - int e' = (k - int e) + 2 * int d * (int e div (2 * int d))"
      by (simp add: e'_def zmod_int minus_mod_eq_mult_div [symmetric] algebra_simps)
    then show ?thesis using antiper_double [OF canon_antiper [OF p]] by (simp only:)
  qed
  finally show "eqm q (ext (rotate_by_x_power p e q) k) (ext p (k - int e))" .
qed

lemma shift_negacyclic_ext:
  assumes p: "canon q d p" and "s < d"
  shows "canon q d (shift_negacyclic p s q)" and "eqm q (ext (shift_negacyclic p s q) k) (ext p (k - int s))"
proof -
  have d: "0 < d" "length p = d" using canonD [OF p] by simp_all
  have code: "shift_negacyclic p s q = fold (\<lambda>i out. out[(i + s) mod d := u64 (out ! ((i + s) mod d)
      + rot_coeff p q d s False i) mod q]) [0..<d] (replicate d 0)"
    by (simp add: rot_coeff_def shift_negacyclic_def Let_def d(2))
  note R = rotation_loop [OF p _ assms(2), where neg = False, folded code]
  show c: "canon q d (shift_negacyclic p s q)" using R(1) [OF delta_antiper [OF d(1)]] .
  have "eqm q (ext (shift_negacyclic p s q) k) (\<Sum>i<d. int (p ! i) * delta d (k - (int i + int s)))"
    using R(2) canonD(4) [OF c] by (intro pairing_ext [OF d(1)]) simp_all
  also have "(\<Sum>i<d. int (p ! i) * delta d (k - (int i + int s))) = ext p (k - int s)"
    unfolding ext_delta [OF d] by (simp add: algebra_simps)
  finally show "eqm q (ext (shift_negacyclic p s q) k) (ext p (k - int s))" .
qed

subsection \<open>The schoolbook product\<close>

lemma accumulate_int:
  fixes raw0 :: "int list"
  assumes "\<And>i. i \<in> set xs \<Longrightarrow> idx i < length raw0" and "k < length raw0"
  shows "length (fold (\<lambda>i raw. raw[idx i := raw ! idx i + v i]) xs raw0) = length raw0
    \<and> fold (\<lambda>i raw. raw[idx i := raw ! idx i + v i]) xs raw0 ! k
      = raw0 ! k + (\<Sum>i\<leftarrow>xs. if idx i = k then v i else 0)"
  using assms
proof (induction xs arbitrary: raw0)
  case (Cons x xs)
  then show ?case using Cons.IH [of "raw0[idx x := raw0 ! idx x + v x]"] by (auto simp: nth_list_update)
qed simp

lemma accumulate_int_nested:
  fixes raw0 :: "int list" and n d :: nat
  assumes "n \<le> d" and "length raw0 = 2 * d" and "k < 2 * d"
  shows "length (fold (\<lambda>i raw. if a i = 0 then raw
        else fold (\<lambda>j raw. raw[i + j := raw ! (i + j) + a i * b j]) [0..<d] raw) [0..<n] raw0) = 2 * d
    \<and> fold (\<lambda>i raw. if a i = 0 then raw
        else fold (\<lambda>j raw. raw[i + j := raw ! (i + j) + a i * b j]) [0..<d] raw) [0..<n] raw0 ! k
      = raw0 ! k + (\<Sum>i<n. \<Sum>j<d. if i + j = k then a i * b j else 0)"
  using assms(1)
proof (induction n)
  case 0
  then show ?case using assms by simp
next
  case (Suc n)
  let ?F = "fold (\<lambda>i raw. if a i = 0 then raw
        else fold (\<lambda>j raw. raw[i + j := raw ! (i + j) + a i * b j]) [0..<d] raw) [0..<n] raw0"
  have IH: "length ?F = 2 * d" "?F ! k = raw0 ! k + (\<Sum>i<n. \<Sum>j<d. if i + j = k then a i * b j else 0)"
    using Suc by simp_all
  have inner: "length (fold (\<lambda>j raw. raw[n + j := raw ! (n + j) + a n * b j]) [0..<d] ?F) = 2 * d
      \<and> fold (\<lambda>j raw. raw[n + j := raw ! (n + j) + a n * b j]) [0..<d] ?F ! k
        = ?F ! k + (\<Sum>j\<leftarrow>[0..<d]. if n + j = k then a n * b j else 0)"
    using accumulate_int [of "[0..<d]" "\<lambda>j. n + j" ?F k "\<lambda>j. a n * b j"] IH(1) Suc.prems assms(3) by simp
  show ?case
  proof (cases "a n = 0")
    case True
    then have "(\<Sum>j<d. if n + j = k then a n * b j else 0) = 0" by (intro sum.neutral) simp
    then show ?thesis using IH True by simp
  next
    case False
    then show ?thesis
      using inner IH(2) by (simp add: interv_sum_list_conv_sum_set_nat atLeast0LessThan)
  qed
qed

lemma negacyclic_index:
  assumes "length a = d" and "k < d" and "j < d"
  shows "(\<Sum>i<d. (if i + j = k then int (a ! i) else 0)) - (\<Sum>i<d. (if i + j = k + d then int (a ! i) else 0))
    = ext a (int k - int j)"
proof (cases "j \<le> k")
  case True
  have "(\<Sum>i<d. (if i + j = k then int (a ! i) else 0)) = (\<Sum>i<d. if i = k - j then int (a ! i) else 0)"
    using True by (intro sum.cong) auto
  moreover have "(\<Sum>i<d. (if i + j = k + d then int (a ! i) else 0)) = 0"
    using True assms by (intro sum.neutral) auto
  moreover have "int k - int j = int (k - j)" using True by simp
  ultimately show ?thesis using assms True ext_nth [of "k - j" a] by simp
next
  case False
  have "(\<Sum>i<d. (if i + j = k then int (a ! i) else 0)) = 0"
    using False by (intro sum.neutral) auto
  moreover have "(\<Sum>i<d. (if i + j = k + d then int (a ! i) else 0)) = (\<Sum>i<d. if i = k + d - j then int (a ! i) else 0)"
    using False assms by (intro sum.cong) auto
  moreover have "int k - int j = - int (j - k)" using False by simp
  moreover have "d - (j - k) = k + d - j" using False assms by simp
  moreover have "k + d - j < d" "j - k \<le> length a" using False assms by simp_all
  ultimately show ?thesis using assms False ext_neg_index [of "j - k" a] by simp
qed

lemma schoolbook_negacyclic_nth:
  assumes a: "canon q d a" and b: "canon q d b"
  shows "canon q d (schoolbook_negacyclic a b q)"
    and "k < d \<Longrightarrow> eqm q (int (schoolbook_negacyclic a b q ! k)) (\<Sum>j<d. int (b ! j) * ext a (int k - int j))"
proof -
  have q: "0 < q" and d: "length a = d" using canonD [OF a] by simp_all
  let ?raw = "fold (\<lambda>i raw. if int (a ! i mod q) = 0 then raw
      else fold (\<lambda>j raw. raw[i + j := raw ! (i + j) + int (a ! i mod q) * int (b ! j mod q)]) [0..<d] raw)
      [0..<d] (replicate (2 * d) 0)"
  have code: "schoolbook_negacyclic a b q = map (\<lambda>k. rem_euclid (?raw ! k - ?raw ! (k + d)) q) [0..<d]"
    by (simp add: schoolbook_negacyclic_def Let_def d)
  show "canon q d (schoolbook_negacyclic a b q)"
    using canonD [OF a] by (auto simp: canon_def code all_below_set rem_euclid_def nat_less_iff)
  show "eqm q (int (schoolbook_negacyclic a b q ! k)) (\<Sum>j<d. int (b ! j) * ext a (int k - int j))" if k: "k < d"
  proof -
    have am: "a ! i mod q = a ! i" "b ! i mod q = b ! i" if "i < d" for i
      using canonD(6) [OF a that] canonD(6) [OF b that] by simp_all
    have reduced: "(\<Sum>i<d. \<Sum>j<d. if i + j = k' then int (a ! i mod q) * int (b ! j mod q) else 0)
        = (\<Sum>i<d. \<Sum>j<d. if i + j = k' then int (a ! i) * int (b ! j) else 0)" for k'
      by (intro sum.cong refl) (simp add: am)
    have raw: "?raw ! k' = (\<Sum>i<d. \<Sum>j<d. if i + j = k' then int (a ! i) * int (b ! j) else 0)" if "k' < 2 * d" for k'
      using accumulate_int_nested [of d d "replicate (2 * d) 0" k' "\<lambda>i. int (a ! i mod q)" "\<lambda>j. int (b ! j mod q)"] that reduced [of k']
      by simp
    have swap: "(\<Sum>i<d. \<Sum>j<d. if i + j = k' then int (a ! i) * int (b ! j) else 0)
        = (\<Sum>j<d. int (b ! j) * (\<Sum>i<d. if i + j = k' then int (a ! i) else 0))" for k'
      by (subst sum.swap) (auto simp: sum_distrib_left intro!: sum.cong)
    have "?raw ! k - ?raw ! (k + d) = (\<Sum>j<d. int (b ! j) * ext a (int k - int j))"
      using raw [of k] raw [of "k + d"] k negacyclic_index [OF d k]
      by (simp add: swap right_diff_distrib [symmetric] sum_subtractf [symmetric])
    moreover have "eqm q (int (rem_euclid (?raw ! k - ?raw ! (k + d)) q)) (?raw ! k - ?raw ! (k + d))"
      using q by (simp add: rem_euclid_def)
    ultimately show ?thesis using k by (simp add: code)
  qed
qed

end
