(* ===== verification/Matrix.thy ===== *)
theory Matrix
  imports Ring
begin

text \<open>
  \<open>reinspiring/src/matrix.rs\<close>: the row-major packing matrix \<open>H'\<close>, its matrix-vector
  product and the horizontal concatenation of square blocks. Loops that assign every
  cell once are tabulations (\<open>mat_of\<close>).
\<close>

section \<open>Model\<close>

record packing_matrix =
  pm_rows :: nat
  pm_cols :: nat
  pm_q :: nat
  pm_data :: "nat list"

definition zero_matrix :: "nat \<Rightarrow> nat \<Rightarrow> nat \<Rightarrow> packing_matrix" where
  "zero_matrix rows cols q = \<lparr>pm_rows = rows, pm_cols = cols, pm_q = q, pm_data = replicate (rows * cols) 0\<rparr>"

definition mget :: "packing_matrix \<Rightarrow> nat \<Rightarrow> nat \<Rightarrow> nat" where
  "mget m r c = pm_data m ! (r * pm_cols m + c)"

definition mat_of :: "nat \<Rightarrow> nat \<Rightarrow> nat \<Rightarrow> (nat \<Rightarrow> nat \<Rightarrow> nat) \<Rightarrow> packing_matrix" where
  "mat_of rows cols q f =
     \<lparr>pm_rows = rows, pm_cols = cols, pm_q = q,
      pm_data = concat (map (\<lambda>r. map (f r) [0..<cols]) [0..<rows])\<rparr>"

definition infinity_norm_centered :: "packing_matrix \<Rightarrow> nat" where
  "infinity_norm_centered m =
     (let half = pm_q m div 2
      in fold (\<lambda>x acc. let c = x mod pm_q m in max acc (if c > half then pm_q m - c else c)) (pm_data m) 0)"

definition matvec :: "packing_matrix \<Rightarrow> nat list \<Rightarrow> nat list \<Rightarrow> nat list result" where
  "matvec m v out =
     guardR (pm_q m < 2 \<or> pm_q m > 2 ^ 56 \<or> pm_cols m > 32768
             \<or> checked_mul (pm_rows m) (pm_cols m) \<noteq> Some (length (pm_data m))
             \<or> list_ex (\<lambda>x. x \<ge> pm_q m) (pm_data m))
       (InvalidParams ''invalid matrix shape, modulus or coefficient'')
    (guardR (length v \<noteq> pm_cols m) (LweShape ''matvec: wrong vector length'')
    (guardR (length out \<noteq> pm_rows m) (LweShape ''matvec: wrong output length'')
       (let q = pm_q m; reduced = map (\<lambda>x. x mod q) v; cols = pm_cols m
        in if is_power_of_two q
           then Inr (map (\<lambda>r.
                  let row = take cols (drop (r * cols) (pm_data m));
                      acc = fold (\<lambda>(a, b) acc. u128 (acc + a * (b AND (q - 1)))) (zip row reduced) 0
                  in u64 (acc AND (q - 1))) [0..<length out])
           else Inr (map (\<lambda>r.
                  let row = take cols (drop (r * cols) (pm_data m));
                      acc = fold (\<lambda>(a, b) acc. u128 (acc + a * b)) (zip row reduced) 0
                  in u64 (acc mod q)) [0..<length out]))))"

fun hstack_check :: "nat \<Rightarrow> nat \<Rightarrow> packing_matrix list \<Rightarrow> nat \<Rightarrow> nat result" where
  "hstack_check rows q [] cols = Inr cols"
| "hstack_check rows q (b # bs) cols =
     guardR (pm_rows b \<noteq> rows \<or> pm_q b \<noteq> q) (PreprocessMismatch ''hstack block shape/modulus mismatch'')
       (guardR (pm_cols b \<noteq> rows) (PreprocessMismatch ''hstack expects square d x d blocks'')
         (hstack_check rows q bs (cols + pm_cols b)))"

definition hstack :: "packing_matrix list \<Rightarrow> packing_matrix result" where
  "hstack blocks =
     (case blocks of [] \<Rightarrow> Inl (InvalidParams ''hstack requires at least one block'')
      | b0 # _ \<Rightarrow>
          bindR (hstack_check (pm_rows b0) (pm_q b0) blocks 0) (\<lambda>cols.
            Inr \<lparr>pm_rows = pm_rows b0, pm_cols = cols, pm_q = pm_q b0,
                 pm_data = concat (map (\<lambda>r. concat (map (\<lambda>b. map (mget b r) [0..<pm_cols b]) blocks))
                             [0..<pm_rows b0])\<rparr>))"

section \<open>Tabulated matrices\<close>

lemma mat_of_simps [simp]:
  "pm_rows (mat_of rows cols q f) = rows" "pm_cols (mat_of rows cols q f) = cols" "pm_q (mat_of rows cols q f) = q"
  by (simp_all add: mat_of_def)

lemma length_mat_of [simp]: "length (pm_data (mat_of rows cols q f)) = rows * cols"
  by (simp add: mat_of_def length_concat_rows [of _ cols])

lemma mget_mat_of [simp]: "r < rows \<Longrightarrow> c < cols \<Longrightarrow> mget (mat_of rows cols q f) r c = f r c"
  by (simp add: mget_def) (simp add: mat_of_def nth_concat_rows)

text \<open>A well-shaped canonical matrix, and equality by entries.\<close>

definition wf_matrix :: "packing_matrix \<Rightarrow> bool" where
  "wf_matrix m \<longleftrightarrow> length (pm_data m) = pm_rows m * pm_cols m \<and> all_below (pm_q m) (pm_data m)"

lemma wf_matrix_mat_of: "(\<And>r c. r < rows \<Longrightarrow> c < cols \<Longrightarrow> f r c < q) \<Longrightarrow> wf_matrix (mat_of rows cols q f)"
  by (auto simp: wf_matrix_def all_below_set) (auto simp: mat_of_def)

lemma matrix_eqI:
  assumes "pm_rows a = pm_rows b" "pm_cols a = pm_cols b" "pm_q a = pm_q b"
    and "length (pm_data a) = pm_rows a * pm_cols a" "length (pm_data b) = pm_rows b * pm_cols b"
    and eq: "\<And>r c. r < pm_rows a \<Longrightarrow> c < pm_cols a \<Longrightarrow> mget a r c = mget b r c"
  shows "a = b"
proof -
  have "pm_data a = pm_data b"
  proof (rule nth_equalityI)
    fix i assume i: "i < length (pm_data a)"
    then have "0 < pm_cols a" using assms(4) by (cases "pm_cols a") auto
    then have "i div pm_cols a < pm_rows a" "i mod pm_cols a < pm_cols a"
      using i assms(4) by (simp_all add: less_mult_imp_div_less)
    then show "pm_data a ! i = pm_data b ! i"
      using eq [of "i div pm_cols a" "i mod pm_cols a"] assms(2) by (simp add: mget_def)
  qed (use assms in simp)
  then show ?thesis using assms by simp
qed

lemma wf_mget_less: "wf_matrix m \<Longrightarrow> r < pm_rows m \<Longrightarrow> c < pm_cols m \<Longrightarrow> mget m r c < pm_q m"
  using row_slot [of r "pm_rows m" c "pm_cols m"] by (auto simp: wf_matrix_def mget_def dest: all_below_nth)

section \<open>The product\<close>

text \<open>The exact product, reduced.\<close>

definition matvec_spec :: "packing_matrix \<Rightarrow> nat list \<Rightarrow> nat list" where
  "matvec_spec m v = map (\<lambda>r. (\<Sum>c<pm_cols m. mget m r c * v ! c) mod pm_q m) [0..<pm_rows m]"

lemma dot_fold:
  assumes "length row = length v" and "\<And>i. i < length v \<Longrightarrow> row ! i \<le> B" and "\<And>i. i < length v \<Longrightarrow> v ! i \<le> B"
    and "s + length v * (B * B) < 2 ^ 128"
  shows "fold (\<lambda>(a, b) acc. u128 (acc + a * b)) (zip row v) s = s + (\<Sum>i<length v. row ! i * v ! i)"
  using assms
proof (induction row v arbitrary: s rule: list_induct2)
  case Nil
  then show ?case by simp
next
  case (Cons a row b v)
  have "a \<le> B" "b \<le> B" using Cons.prems(1) [of 0] Cons.prems(2) [of 0] by simp_all
  then have ab: "a * b \<le> B * B" by (intro mult_le_mono)
  then have "u128 (s + a * b) = s + a * b" using Cons.prems(3) by (intro u128_id) simp
  moreover have "fold (\<lambda>(a, b) acc. u128 (acc + a * b)) (zip row v) (s + a * b)
      = (s + a * b) + (\<Sum>i<length v. row ! i * v ! i)"
  proof (rule Cons.IH)
    show "row ! i \<le> B" "v ! i \<le> B" if "i < length v" for i
      using that Cons.prems(1) [of "Suc i"] Cons.prems(2) [of "Suc i"] by simp_all
    show "s + a * b + length v * (B * B) < 2 ^ 128" using Cons.prems(3) ab by simp
  qed
  ultimately show ?case by (simp add: sum.lessThan_Suc_shift add.assoc del: sum.lessThan_Suc)
qed

lemma matvec_ok:
  assumes "wf_matrix m" and "2 \<le> pm_q m" and "pm_q m \<le> 2 ^ 56" and "pm_cols m \<le> 32768"
    and "pm_rows m * pm_cols m < 2 ^ 64" and "length v = pm_cols m" and "length out = pm_rows m"
  shows "matvec m v out = Inr (matvec_spec m v)"
proof -
  let ?q = "pm_q m" and ?cols = "pm_cols m"
  let ?red = "map (\<lambda>x. x mod ?q) v"
  define row where "row r = take ?cols (drop (r * ?cols) (pm_data m))" for r
  have data: "length (pm_data m) = pm_rows m * ?cols" "all_below ?q (pm_data m)"
    using assms(1) by (auto simp: wf_matrix_def)
  have ok: "\<not> list_ex (\<lambda>x. x \<ge> ?q) (pm_data m)" using data(2) by (auto simp: list_ex_iff all_below_set)
  have rowp: "length (row r) = ?cols" "\<And>c. c < ?cols \<Longrightarrow> row r ! c = mget m r c" if "r < pm_rows m" for r
  proof -
    have "r * ?cols + ?cols \<le> pm_rows m * ?cols"
      using mult_le_mono1 [of "Suc r" "pm_rows m" ?cols] that by simp
    then show "length (row r) = ?cols" using data(1) by (simp add: row_def)
    show "row r ! c = mget m r c" if "c < ?cols" for c
    proof -
      have "r * ?cols \<le> length (pm_data m)" using \<open>r * ?cols + ?cols \<le> _\<close> data(1) by linarith
      then show ?thesis using that by (simp add: row_def mget_def nth_drop)
    qed
  qed
  have acc: "fold (\<lambda>(a, b) acc. u128 (acc + a * b)) (zip (row r) ?red) 0 = (\<Sum>c<?cols. mget m r c * (v ! c mod ?q))"
    if r: "r < pm_rows m" for r
  proof -
    have "fold (\<lambda>(a, b) acc. u128 (acc + a * b)) (zip (row r) ?red) 0 = 0 + (\<Sum>i<length ?red. row r ! i * ?red ! i)"
    proof (rule dot_fold [where B = "2 ^ 56"])
      show "length (row r) = length ?red" using rowp(1) [OF r] assms(6) by simp
      show "row r ! i \<le> 2 ^ 56" if "i < length ?red" for i
        using that rowp(2) [OF r, of i] wf_mget_less [OF assms(1) r, of i] assms(3,6) by simp
      show "?red ! i \<le> 2 ^ 56" if "i < length ?red" for i
      proof -
        have "v ! i mod ?q < ?q" using assms(2) by simp
        then have "v ! i mod ?q \<le> 2 ^ 56" using assms(3) by linarith
        then show ?thesis using that by simp
      qed
      have "length ?red * (2 ^ 56 * 2 ^ 56) \<le> 32768 * (2 ^ 56 * 2 ^ 56)"
        using assms(4,6) by (intro mult_le_mono1) simp
      then show "0 + length ?red * (2 ^ 56 * 2 ^ 56) < 2 ^ 128" by simp
    qed
    also have "\<dots> = (\<Sum>c<?cols. mget m r c * (v ! c mod ?q))"
      using rowp(2) [OF r] assms(6) by simp
    finally show ?thesis .
  qed
  have modsum: "(\<Sum>c<?cols. mget m r c * (v ! c mod ?q)) mod ?q = (\<Sum>c<?cols. mget m r c * v ! c) mod ?q" for r
    by (subst (1 2) mod_sum_eq [symmetric]) (simp add: mod_mult_right_eq)
  have small: "u64 (x mod ?q) = x mod ?q" for x
  proof (rule u64_id)
    have "x mod ?q < ?q" using assms(2) by simp
    then have "x mod ?q < 2 ^ 56" using assms(3) by linarith
    then show "x mod ?q < 2 ^ 64" by (rule less_trans) simp
  qed
  show ?thesis
  proof (cases "is_power_of_two ?q")
    case True
    then obtain k where k: "?q = 2 ^ k" by (auto simp: is_power_of_two_iff)
    have "fold (\<lambda>(a, b) acc. u128 (acc + a * (b AND (?q - 1)))) (zip (row r) ?red) 0
        = fold (\<lambda>(a, b) acc. u128 (acc + a * b)) (zip (row r) ?red) 0" for r
      unfolding k and_exp_minus_1 by (intro fold_cong) (auto dest!: set_zip_rightD)
    then show ?thesis
      using assms ok acc modsum small k True data(1)
      by (simp add: matvec_def matvec_spec_def Let_def checked_mul_def and_exp_minus_Suc_0 flip: row_def)
  next
    case False
    then show ?thesis
      using assms ok acc modsum small data(1)
      by (simp add: matvec_def matvec_spec_def Let_def checked_mul_def flip: row_def)
  qed
qed

end
