(* ===== verification/Compile.thy ===== *)
theory Compile
  imports Matrix
begin

text \<open>
  \<open>reinspiring/src/compile.rs\<close>: the packing matrix \<open>M = \<Sum>\<^sub>i Neg(t\<^sub>i) P(\<tau>\<^sub>i)\<close> built three ways, by
  explicit matrix products, by fused columns, and by a ring FFT at the powers of \<open>X\<^sup>2\<close>.
  The specification is one formula: entry \<open>(r, c)\<close> is the sum over the steps \<open>i\<close> of
  coefficient \<open>r - c g\<^sub>i\<close> of \<open>t\<^sub>i\<close>, extended antiperiodically.
\<close>

section \<open>Model: the naive algorithms\<close>

definition basis :: "nat \<Rightarrow> nat \<Rightarrow> nat list" where
  "basis d c = (replicate d 0)[c := 1]"

definition negacyclic_matrix :: "nat list \<Rightarrow> nat \<Rightarrow> packing_matrix" where
  "negacyclic_matrix t q =
     (let d = length t
      in mat_of d d q (\<lambda>r c. if r \<ge> c then t ! (r - c) mod q else (q - t ! (r + d - c) mod q) mod q))"

definition signed_perm_matrix :: "nat \<Rightarrow> nat \<Rightarrow> nat \<Rightarrow> packing_matrix" where
  "signed_perm_matrix d g q =
     (let cols = map (\<lambda>c. tau_coeffs (basis d c) g q) [0..<d]
      in mat_of d d q (\<lambda>r c. cols ! c ! r mod q))"

definition matmul_square :: "packing_matrix \<Rightarrow> packing_matrix \<Rightarrow> packing_matrix" where
  "matmul_square a b =
     (let d = pm_rows a; q = pm_q a
      in mat_of d d q (\<lambda>i j. fold (\<lambda>k acc. if mget a i k = 0 then acc
             else u64 (u128 (acc + mget a i k * mget b k j) mod q)) [0..<d] 0))"

definition mat_add_into :: "packing_matrix \<Rightarrow> packing_matrix \<Rightarrow> packing_matrix" where
  "mat_add_into dst src =
     dst\<lparr>pm_data := map2 (\<lambda>d s. u64 (d + s) mod pm_q dst) (pm_data dst) (pm_data src)\<rparr>"

fun compile_naive_loop :: "nat \<Rightarrow> nat \<Rightarrow> packing_matrix \<Rightarrow> (nat list \<times> nat) list \<Rightarrow> packing_matrix result" where
  "compile_naive_loop d q m [] = Inr m"
| "compile_naive_loop d q m ((t, g) # rest) =
     guardR (length t \<noteq> d) (PreprocessMismatch ''compile_naive: polynomial degree mismatch'')
       (compile_naive_loop d q
         (mat_add_into m (matmul_square (negacyclic_matrix t q) (signed_perm_matrix d g q))) rest)"

definition compile_naive :: "nat list list \<Rightarrow> nat list \<Rightarrow> nat \<Rightarrow> packing_matrix result" where
  "compile_naive ts exponents q =
     guardR (length ts \<noteq> length exponents) (PreprocessMismatch ''compile_naive: ts/exponents length mismatch'')
       (guardR (ts = []) (InvalidParams ''compile_naive: empty input'')
         (let d = length (ts ! 0)
          in compile_naive_loop d q (zero_matrix d d q) (zip ts exponents)))"

definition accumulate_neg_perm :: "packing_matrix \<Rightarrow> nat list \<Rightarrow> nat \<Rightarrow> packing_matrix" where
  "accumulate_neg_perm m t g =
     (let d = length t; q = pm_q m;
          cols = map (\<lambda>c. schoolbook_negacyclic t (tau_coeffs (basis d c) g q) q) [0..<d]
      in mat_of d d q (\<lambda>r c. u64 (u128 (mget m r c + cols ! c ! r) mod q)))"

fun compile_fused_loop :: "nat \<Rightarrow> packing_matrix \<Rightarrow> (nat list \<times> nat) list \<Rightarrow> packing_matrix result" where
  "compile_fused_loop d m [] = Inr m"
| "compile_fused_loop d m ((t, g) # rest) =
     guardR (length t \<noteq> d) (PreprocessMismatch ''compile: polynomial degree mismatch'')
       (compile_fused_loop d (accumulate_neg_perm m t g) rest)"

definition compile_naive_fused :: "nat list list \<Rightarrow> nat list \<Rightarrow> nat \<Rightarrow> packing_matrix result" where
  "compile_naive_fused ts exponents q =
     guardR (length ts \<noteq> length exponents) (PreprocessMismatch ''compile: ts/exponents length mismatch'')
       (guardR (ts = []) (InvalidParams ''compile: empty input'')
         (let d = length (ts ! 0)
          in compile_fused_loop d (zero_matrix d d q) (zip ts exponents)))"

section \<open>Specification\<close>

definition compile_entry :: "(nat list \<times> nat) list \<Rightarrow> nat \<Rightarrow> nat \<Rightarrow> int" where
  "compile_entry steps r c = (\<Sum>(t, g)\<leftarrow>steps. ext t (int r - int c * int g))"

definition compile_spec :: "nat \<Rightarrow> nat \<Rightarrow> (nat list \<times> nat) list \<Rightarrow> packing_matrix" where
  "compile_spec d q steps = mat_of d d q (\<lambda>r c. nat (compile_entry steps r c mod int q))"

text \<open>The steps a caller passes: canonical polynomials of one degree and exponents that
  name automorphisms of the ring.\<close>

definition good_steps :: "nat \<Rightarrow> nat \<Rightarrow> (nat list \<times> nat) list \<Rightarrow> bool" where
  "good_steps q d steps \<longleftrightarrow> 0 < d \<and> d < 2 ^ 31 \<and> 1 < q \<and> q \<le> 2 ^ 62
     \<and> list_all (\<lambda>(t, g). length t = d \<and> all_below q t \<and> g < 2 * d) steps"

lemma good_steps_Cons [simp]:
  "good_steps q d ((t, g) # steps) \<longleftrightarrow> canon q d t \<and> g < 2 * d \<and> good_steps q d steps"
  by (auto simp: good_steps_def canon_def)

lemma good_steps_exp: "good_steps q d steps \<Longrightarrow> g < 2 * d \<Longrightarrow> d * g < 2 ^ 64"
proof -
  assume h: "good_steps q d steps" "g < 2 * d"
  have "d * g \<le> (2 ^ 31 - 1) * (2 ^ 32 - 1)" using h by (intro mult_le_mono) (auto simp: good_steps_def)
  also have "\<dots> < 2 ^ 64" by simp
  finally show ?thesis .
qed

lemma basis_canon: "c < d \<Longrightarrow> 1 < q \<Longrightarrow> q \<le> 2 ^ 62 \<Longrightarrow> canon q d (basis d c)"
  by (auto simp: canon_def basis_def all_below_set dest!: subsetD [OF set_update_subset_insert])

lemma basis_pairing: "c < d \<Longrightarrow> (\<Sum>i<d. int (basis d c ! i) * F i) = F c"
proof -
  assume c: "c < d"
  have "(\<Sum>i<d. int (basis d c ! i) * F i) = (\<Sum>i<d. if i = c then F i else 0)"
    using c by (intro sum.cong) (auto simp: basis_def nth_list_update)
  then show ?thesis using c by simp
qed

lemma compile_matrix_eqI:
  assumes "pm_rows m = d" "pm_cols m = d" "pm_q m = q" "length (pm_data m) = d * d" "0 < q"
    and "\<And>r c. r < d \<Longrightarrow> c < d \<Longrightarrow> mget m r c < q"
    and "\<And>r c. r < d \<Longrightarrow> c < d \<Longrightarrow> eqm q (int (mget m r c)) (compile_entry steps r c)"
  shows "m = compile_spec d q steps"
proof (rule matrix_eqI)
  fix r c assume "r < pm_rows m" "c < pm_cols m"
  then have rc: "r < d" "c < d" using assms by simp_all
  have "eqm q (int (mget m r c)) (int (nat (compile_entry steps r c mod int q)))"
    using eqm_trans [OF assms(7) [OF rc] eqm_sym [OF eqm_mod]] assms(5) by simp
  then have "mget m r c = nat (compile_entry steps r c mod int q)"
    using assms(6) [OF rc] assms(5) by (intro eqm_nat_eq [of q]) (simp_all add: nat_less_iff)
  then show "mget m r c = mget (compile_spec d q steps) r c" using rc by (simp add: compile_spec_def)
qed (use assms in \<open>simp_all add: compile_spec_def\<close>)

section \<open>The fused algorithm\<close>

lemma tau_basis:
  assumes "good_steps q d steps" and "g < 2 * d" and "c < d" and "antiper d f"
  shows "canon q d (tau_coeffs (basis d c) g q)"
    and "eqm q (\<Sum>j<d. int (tau_coeffs (basis d c) g q ! j) * f (int j)) (f (int c * int g))"
proof -
  have b: "canon q d (basis d c)" using assms(1,3) by (intro basis_canon) (auto simp: good_steps_def)
  note T = tau_coeffs_pairing [OF b good_steps_exp [OF assms(1,2)] assms(4)]
  show "canon q d (tau_coeffs (basis d c) g q)" by (rule T)
  show "eqm q (\<Sum>j<d. int (tau_coeffs (basis d c) g q ! j) * f (int j)) (f (int c * int g))"
    using T(2) assms(3) by (simp add: basis_pairing)
qed

text \<open>One column: the coefficients of \<open>t \<tau>(X\<^sup>c)\<close>.\<close>

lemma fused_column:
  assumes "good_steps q d steps" and t: "canon q d t" and "g < 2 * d" and "c < d" and "r < d"
  shows "schoolbook_negacyclic t (tau_coeffs (basis d c) g q) q ! r < q"
    and "eqm q (int (schoolbook_negacyclic t (tau_coeffs (basis d c) g q) q ! r)) (ext t (int r - int c * int g))"
proof -
  have f: "antiper d (\<lambda>k. ext t (int r - k))" using canon_antiper [OF t] by (rule antiper_reflect)
  note T = tau_basis [OF assms(1,3,4) f]
  show "schoolbook_negacyclic t (tau_coeffs (basis d c) g q) q ! r < q"
    using schoolbook_negacyclic_nth(1) [OF t T(1)] assms(5) by (rule canonD)
  show "eqm q (int (schoolbook_negacyclic t (tau_coeffs (basis d c) g q) q ! r)) (ext t (int r - int c * int g))"
    using eqm_trans [OF schoolbook_negacyclic_nth(2) [OF t T(1) assms(5)] T(2)] .
qed

lemma entry_sum_no_wrap: "a < q \<Longrightarrow> b < q \<Longrightarrow> q \<le> 2 ^ 62 \<Longrightarrow> u64 (u128 (a + b) mod q) = (a + b) mod q"
proof -
  assume h: "a < q" "b < q" "q \<le> 2 ^ 62"
  then have "u128 (a + b) = a + b" by (intro u128_id) simp
  moreover have "(a + b) mod q < 2 ^ 64"
    by (rule less_le_trans [OF mod_less_divisor]) (use h in simp_all)
  ultimately show ?thesis by (simp only: u64_id)
qed

lemma compile_fused_loop_ok:
  assumes "good_steps q d steps" and "good_steps q d done"
  shows "compile_fused_loop d (compile_spec d q done) steps = Inr (compile_spec d q (done @ steps))"
  using assms
proof (induction steps arbitrary: "done")
  case Nil
  then show ?case by simp
next
  case (Cons s steps)
  obtain t g where s: "s = (t, g)" by (cases s)
  have tg: "canon q d t" "g < 2 * d" "good_steps q d steps" using Cons.prems(1) s by simp_all
  have q: "0 < q" "q \<le> 2 ^ 62" "length t = d" using canonD [OF tg(1)] by simp_all
  have "accumulate_neg_perm (compile_spec d q done) t g = compile_spec d q (done @ [s])"
  proof (rule compile_matrix_eqI)
    fix r c assume rc: "r < d" "c < d"
    note F = fused_column [OF Cons.prems(1) tg(1,2) rc(2,1)]
    have old: "mget (compile_spec d q done) r c < q"
      "eqm q (int (mget (compile_spec d q done) r c)) (compile_entry done r c)"
      using rc q by (simp_all add: compile_spec_def nat_less_iff)
    have new: "mget (accumulate_neg_perm (compile_spec d q done) t g) r c
        = (mget (compile_spec d q done) r c + schoolbook_negacyclic t (tau_coeffs (basis d c) g q) q ! r) mod q"
      using rc q(3) entry_sum_no_wrap [OF old(1) F(1) q(2)]
      by (simp add: accumulate_neg_perm_def Let_def) (simp add: compile_spec_def)
    then show "mget (accumulate_neg_perm (compile_spec d q done) t g) r c < q" using q by simp
    show "eqm q (int (mget (accumulate_neg_perm (compile_spec d q done) t g) r c)) (compile_entry (done @ [s]) r c)"
      using eqm_trans [OF eqm_nat_mod, of q _ "compile_entry done r c + ext t (int r - int c * int g)"]
        eqm_add [OF old(2) F(2)] unfolding new by (simp add: compile_entry_def s)
  qed (use q in \<open>simp_all add: accumulate_neg_perm_def Let_def compile_spec_def\<close>)
  moreover have "good_steps q d (done @ [s])" using Cons.prems s by (auto simp: good_steps_def)
  ultimately show ?case using Cons.IH [of "done @ [s]"] tg(3) q(3) s by simp
qed

lemma zero_is_spec: "zero_matrix d d q = compile_spec d q []"
proof (rule matrix_eqI)
  fix r c assume "r < pm_rows (zero_matrix d d q)" "c < pm_cols (zero_matrix d d q)"
  then have "r < d" "c < d" by (simp_all add: zero_matrix_def)
  then have "mget (zero_matrix d d q) r c = 0" "mget (compile_spec d q []) r c = 0"
    by (simp_all add: compile_spec_def compile_entry_def) (simp add: zero_matrix_def mget_def row_slot)
  then show "mget (zero_matrix d d q) r c = mget (compile_spec d q []) r c" by simp
qed (simp_all add: zero_matrix_def compile_spec_def)

lemma compile_naive_fused_ok:
  assumes "good_steps q d (zip ts gs)" and "length ts = length gs" and "ts \<noteq> []"
  shows "compile_naive_fused ts gs q = Inr (compile_spec d q (zip ts gs))"
proof -
  have "length (ts ! 0) = d" using assms by (cases ts; cases gs) (auto simp: good_steps_def)
  moreover have "good_steps q d []" using assms(1) by (simp add: good_steps_def)
  ultimately show ?thesis
    using assms compile_fused_loop_ok [OF assms(1), of "[]"]
    by (simp add: compile_naive_fused_def Let_def zero_is_spec)
qed

section \<open>The explicit matrix products\<close>

lemma negacyclic_matrix_entry:
  assumes t: "canon q d t" and "r < d" and "c < d"
  shows "mget (negacyclic_matrix t q) r c < q"
    and "eqm q (int (mget (negacyclic_matrix t q) r c)) (ext t (int r - int c))"
proof -
  note q = canonD(1,4) [OF t]
  have e: "mget (negacyclic_matrix t q) r c
      = (if r \<ge> c then t ! (r - c) mod q else (q - t ! (r + d - c) mod q) mod q)"
    using assms q by (simp add: negacyclic_matrix_def Let_def)
  show "mget (negacyclic_matrix t q) r c < q" using q by (simp add: e)
  show "eqm q (int (mget (negacyclic_matrix t q) r c)) (ext t (int r - int c))"
  proof (cases "r \<ge> c")
    case True
    then have "ext t (int r - int c) = int (t ! (r - c))"
      using ext_nth [of "r - c" t] assms(2) q by (simp add: of_nat_diff)
    then show ?thesis using True by (simp add: e)
  next
    case False
    have less: "t ! (r + d - c) < q" using False assms by (intro canonD(6) [OF t]) simp
    have "ext t (int r - int c) = - int (t ! (r + d - c))"
      using ext_neg_index [of "c - r" t] False assms(3) q by (simp add: of_nat_diff add.commute)
    moreover have "eqm q (int ((q - t ! (r + d - c)) mod q)) (- int (t ! (r + d - c)))"
      using eqm_trans [OF eqm_nat_mod eqm_neg_nat] less by simp
    ultimately show ?thesis using False less by (simp add: e)
  qed
qed

lemma matmul_fold:
  assumes "0 < q" and "q \<le> 2 ^ 62" and "\<And>k. k < n \<Longrightarrow> a k < q \<and> b k < q"
  shows "fold (\<lambda>k acc. if a k = 0 then acc else u64 (u128 (acc + a k * b k) mod q)) [0..<n] 0
    = (\<Sum>k<n. a k * b k) mod q"
  using assms(3)
proof (induction n)
  case 0
  then show ?case by simp
next
  case (Suc n)
  let ?s = "(\<Sum>k<n. a k * b k) mod q"
  have ab: "a n < q" "b n < q" and s: "?s < q" using Suc.prems [of n] assms(1) by simp_all
  have "a n * b n \<le> 2 ^ 62 * 2 ^ 62" using ab assms(2) by (intro mult_le_mono) linarith+
  moreover have "?s \<le> 2 ^ 62" using s assms(2) by linarith
  ultimately have c: "u128 (?s + a n * b n) = ?s + a n * b n" by (intro u128_id) simp
  have "(?s + a n * b n) mod q < 2 ^ 64"
    by (rule less_le_trans [OF mod_less_divisor]) (use assms in simp_all)
  then have "u64 (u128 (?s + a n * b n) mod q) = (?s + a n * b n) mod q" by (simp only: c u64_id)
  also have "\<dots> = (\<Sum>k<Suc n. a k * b k) mod q" by (simp add: mod_add_left_eq)
  finally show ?case using Suc by simp
qed

lemma naive_product:
  assumes "good_steps q d steps" and t: "canon q d t" and "g < 2 * d" and "r < d" and "c < d"
  defines "m \<equiv> matmul_square (negacyclic_matrix t q) (signed_perm_matrix d g q)"
  shows "mget m r c < q" and "eqm q (int (mget m r c)) (ext t (int r - int c * int g))"
proof -
  have q: "0 < q" "q \<le> 2 ^ 62" "length t = d" using canonD [OF t] by simp_all
  have f: "antiper d (\<lambda>k. ext t (int r - k))" using canon_antiper [OF t] by (rule antiper_reflect)
  note T = tau_basis [OF assms(1,3,5) f]
  let ?a = "\<lambda>k. mget (negacyclic_matrix t q) r k" and ?b = "\<lambda>k. tau_coeffs (basis d c) g q ! k"
  have b: "mget (signed_perm_matrix d g q) k c = ?b k" if "k < d" for k
    using that assms(5) canonD(6) [OF T(1) that] by (simp add: signed_perm_matrix_def Let_def)
  have neg: "pm_rows (negacyclic_matrix t q) = d" "pm_q (negacyclic_matrix t q) = q"
    using q(3) by (simp_all add: negacyclic_matrix_def Let_def)
  have "mget m r c = fold (\<lambda>k acc. if ?a k = 0 then acc else u64 (u128 (acc + ?a k * ?b k) mod q)) [0..<d] 0"
  proof -
    have "fold (\<lambda>k acc. if ?a k = 0 then acc else u64 (u128 (acc + ?a k * mget (signed_perm_matrix d g q) k c) mod q)) [0..<d] 0
        = fold (\<lambda>k acc. if ?a k = 0 then acc else u64 (u128 (acc + ?a k * ?b k) mod q)) [0..<d] 0"
      using b by (intro fold_cong) auto
    then show ?thesis using assms(4,5) by (simp add: m_def matmul_square_def Let_def neg)
  qed
  also have "\<dots> = (\<Sum>k<d. ?a k * ?b k) mod q"
    using negacyclic_matrix_entry(1) [OF t assms(4)] canonD(6) [OF T(1)] q by (intro matmul_fold) auto
  finally have m: "mget m r c = (\<Sum>k<d. ?a k * ?b k) mod q" .
  show "mget m r c < q" using m q by simp
  have "eqm q (int (mget m r c)) (\<Sum>k<d. int (?a k) * int (?b k))" unfolding m
    using eqm_nat_mod [of q "\<Sum>k<d. ?a k * ?b k"] by (simp del: eqm_nat_mod)
  also have "eqm q (\<Sum>k<d. int (?a k) * int (?b k)) (\<Sum>k<d. int (?b k) * ext t (int r - int k))"
  proof (rule eqm_sum)
    fix k assume "k \<in> {..<d}"
    then show "eqm q (int (?a k) * int (?b k)) (int (?b k) * ext t (int r - int k))"
      using eqm_mult [OF negacyclic_matrix_entry(2) [OF t assms(4), of k] eqm_refl, of "int (?b k)"]
      by (simp only: mult.commute [of "int (?b k)"] lessThan_iff)
  qed
  also have "eqm q \<dots> (ext t (int r - int c * int g))" by (rule T(2))
  finally show "eqm q (int (mget m r c)) (ext t (int r - int c * int g))" .
qed

lemma mat_add_mget:
  assumes "length (pm_data a) = d * d" "length (pm_data b) = d * d" "pm_cols a = d" "pm_cols b = d"
    and "r < d" "c < d" "mget a r c < pm_q a" "mget b r c < pm_q a" "pm_q a \<le> 2 ^ 62"
  shows "mget (mat_add_into a b) r c = (mget a r c + mget b r c) mod pm_q a"
  using assms row_slot [of r d c d] add_no_wrap [of "mget a r c" "pm_q a" "mget b r c"]
  by (simp add: mat_add_into_def mget_def)

lemma compile_naive_loop_ok:
  assumes "good_steps q d steps" and "good_steps q d done"
  shows "compile_naive_loop d q (compile_spec d q done) steps = Inr (compile_spec d q (done @ steps))"
  using assms
proof (induction steps arbitrary: "done")
  case Nil
  then show ?case by simp
next
  case (Cons s steps)
  obtain t g where s: "s = (t, g)" by (cases s)
  have tg: "canon q d t" "g < 2 * d" "good_steps q d steps" using Cons.prems(1) s by simp_all
  have q: "0 < q" "q \<le> 2 ^ 62" "length t = d" using canonD [OF tg(1)] by simp_all
  let ?p = "matmul_square (negacyclic_matrix t q) (signed_perm_matrix d g q)"
  have shape: "pm_cols ?p = d" "length (pm_data ?p) = d * d"
    using q(3) by (simp_all add: matmul_square_def negacyclic_matrix_def Let_def)
  have "mat_add_into (compile_spec d q done) ?p = compile_spec d q (done @ [s])"
  proof (rule compile_matrix_eqI)
    fix r c assume rc: "r < d" "c < d"
    note F = naive_product [OF Cons.prems(1) tg(1,2) rc]
    have old: "mget (compile_spec d q done) r c < q"
      "eqm q (int (mget (compile_spec d q done) r c)) (compile_entry done r c)"
      using rc q by (simp_all add: compile_spec_def nat_less_iff)
    have new: "mget (mat_add_into (compile_spec d q done) ?p) r c
        = (mget (compile_spec d q done) r c + mget ?p r c) mod q"
      using mat_add_mget [of "compile_spec d q done" d ?p r c] shape rc old(1) F(1) q(2)
      by (simp add: compile_spec_def)
    then show "mget (mat_add_into (compile_spec d q done) ?p) r c < q" using q by simp
    show "eqm q (int (mget (mat_add_into (compile_spec d q done) ?p) r c)) (compile_entry (done @ [s]) r c)"
      using eqm_trans [OF eqm_nat_mod, of q _ "compile_entry done r c + ext t (int r - int c * int g)"]
        eqm_add [OF old(2) F(2)] unfolding new by (simp add: compile_entry_def s)
  qed (use q shape in \<open>simp_all add: mat_add_into_def compile_spec_def\<close>)
  moreover have "good_steps q d (done @ [s])" using Cons.prems s by (auto simp: good_steps_def)
  ultimately show ?case using Cons.IH [of "done @ [s]"] tg(3) q(3) s by simp
qed

lemma compile_naive_ok:
  assumes "good_steps q d (zip ts gs)" and "length ts = length gs" and "ts \<noteq> []"
  shows "compile_naive ts gs q = Inr (compile_spec d q (zip ts gs))"
proof -
  have "length (ts ! 0) = d" using assms by (cases ts; cases gs) (auto simp: good_steps_def)
  moreover have "good_steps q d []" using assms(1) by (simp add: good_steps_def)
  ultimately show ?thesis
    using assms compile_naive_loop_ok [OF assms(1), of "[]"]
    by (simp add: compile_naive_def Let_def zero_is_spec)
qed

end
