(* ===== verification/Ring_Fft.thy ===== *)
theory Ring_Fft
  imports Compile
begin

text \<open>
  The fast compiler of \<open>reinspiring/src/compile.rs\<close> (Lemma 9): an in-place ring FFT over
  \<open>Z\<^sub>q[X]/(X\<^sup>d + 1)\<close> whose roots of unity are the powers of \<open>X\<^sup>2\<close>, so every twiddle is a rotation
  of coefficients. The two butterfly bodies of the source (masked wrapping words for a
  power-of-two modulus, modular words otherwise) are providers of one contract, and the
  transform is proved once over the contract.
\<close>

section \<open>Model\<close>

text \<open>The bit-reversal counter: clear the leading ones, set the next bit.\<close>

function bitrev_carry :: "nat \<Rightarrow> nat \<Rightarrow> nat" where
  "bitrev_carry j bt = (if j AND bt \<noteq> 0 then bitrev_carry (j XOR bt) (bt div 2) else j XOR bt)"
  by pat_completeness auto
termination
proof (relation "measure snd")
  fix j bt :: nat assume "j AND bt \<noteq> 0"
  then have "0 < bt" by (cases "bt = 0") auto
  then show "((j XOR bt, bt div 2), j, bt) \<in> measure snd" by simp
qed simp

declare bitrev_carry.simps [simp del]

definition bitrev_step :: "nat \<Rightarrow> nat \<Rightarrow> nat \<times> 'a list \<Rightarrow> nat \<times> 'a list" where
  "bitrev_step n i st =
     (case st of (j, a) \<Rightarrow>
        let j' = bitrev_carry j (n div 2)
        in (j', if i < j' then a[i := a ! j', j' := a ! i] else a))"

definition bit_reverse :: "'a list \<Rightarrow> 'a list" where
  "bit_reverse a = (let n = length a in snd (fold (bitrev_step n) [1..<n] (0, a)))"

definition butterfly_pow2 :: "nat \<Rightarrow> nat \<Rightarrow> nat \<Rightarrow> nat list \<Rightarrow> nat list \<Rightarrow> nat list \<times> nat list" where
  "butterfly_pow2 d q e u v =
     (let mask = q - 1; rot = e AND (2 * d - 1);
          t = (\<lambda>i. let src = (i + 2 * d - rot) AND (2 * d - 1)
                   in if src \<ge> d then wrapping_neg (v ! (src - d)) else v ! src)
      in (map (\<lambda>i. wrapping_add (u ! i) (t i) AND mask) [0..<d],
          map (\<lambda>i. wrapping_sub (u ! i) (t i) AND mask) [0..<d]))"

definition butterfly_mod :: "nat \<Rightarrow> nat \<Rightarrow> nat \<Rightarrow> nat list \<Rightarrow> nat list \<Rightarrow> nat list \<times> nat list" where
  "butterfly_mod d q e u v =
     (let v' = rotate_by_x_power v (e mod (2 * d)) q
      in (map (\<lambda>t. u64 (u ! t + v' ! t) mod q) [0..<d],
          map (\<lambda>t. (u64 (u ! t + q) - v' ! t) mod q) [0..<d]))"

definition fft_block ::
    "(nat \<Rightarrow> 'a \<Rightarrow> 'a \<Rightarrow> 'a \<times> 'a) \<Rightarrow> nat \<Rightarrow> nat \<Rightarrow> 'a list \<Rightarrow> 'a list" where
  "fft_block bf n len block =
     (let half = len div 2; step = n div len;
          left = take half block; right = drop half block;
          prs = map (\<lambda>k. bf (2 * step * k) (left ! k) (right ! k)) [0..<half]
      in map fst prs @ map snd prs)"

definition fft_stage ::
    "(nat \<Rightarrow> 'a \<Rightarrow> 'a \<Rightarrow> 'a \<times> 'a) \<Rightarrow> nat \<Rightarrow> nat \<Rightarrow> 'a list \<Rightarrow> 'a list" where
  "fft_stage bf n len a = concat (map (fft_block bf n len) (chunks_exact len a))"

function fft_stages ::
    "(nat \<Rightarrow> 'a \<Rightarrow> 'a \<Rightarrow> 'a \<times> 'a) \<Rightarrow> nat \<Rightarrow> nat \<Rightarrow> 'a list \<Rightarrow> 'a list" where
  "fft_stages bf n len a =
     (if 0 < len \<and> len \<le> n then fft_stages bf n (len * 2) (fft_stage bf n len a) else a)"
  by pat_completeness auto
termination
  by (relation "measure (\<lambda>(bf, n, len, a). n + 1 - len)") auto

declare fft_stages.simps [simp del]

definition ring_fft_inplace :: "nat list list \<Rightarrow> nat \<Rightarrow> nat list list" where
  "ring_fft_inplace a q =
     (let n = length a; a' = bit_reverse a; d = length (a' ! 0)
      in if is_power_of_two q \<and> is_power_of_two d
         then fft_stages (butterfly_pow2 d q) n 2 a'
         else fft_stages (butterfly_mod d q) n 2 a')"

definition compile_validated_fft :: "nat list list \<Rightarrow> nat \<Rightarrow> packing_matrix" where
  "compile_validated_fft a0 q =
     (let d = length a0; a = ring_fft_inplace a0 q
      in if is_power_of_two q
         then mat_of d d q (\<lambda>r j. let x = a ! j ! ((r + d - j) AND (d - 1))
                                  in (if r < j then wrapping_neg x else x) AND (q - 1))
         else let cols = map (\<lambda>j. shift_negacyclic (a ! j) j q) [0..<d]
              in mat_of d d q (\<lambda>r j. cols ! j ! r))"

definition generating_poly :: "nat \<Rightarrow> nat \<Rightarrow> (nat list \<times> nat) list \<Rightarrow> nat list list" where
  "generating_poly d q steps =
     fold (\<lambda>(t, g) p_hat. p_hat[(g - 1) div 2 := map2 (\<lambda>dst x. u64 (dst + x) mod q) (p_hat ! ((g - 1) div 2)) t])
       steps (replicate d (replicate d 0))"

definition compile_fast :: "nat list list \<Rightarrow> nat list \<Rightarrow> nat \<Rightarrow> packing_matrix result" where
  "compile_fast ts exponents q =
     guardR (ts = [] \<or> length ts \<noteq> length exponents \<or> \<not> (2 \<le> q \<and> q \<le> 2 ^ 62)) (InvalidParams ''invalid Compile inputs'')
       (let d = length (ts ! 0)
        in guardR (\<not> (2 \<le> d \<and> d \<le> 4096) \<or> \<not> is_power_of_two d
                   \<or> list_ex (\<lambda>t. length t \<noteq> d \<or> list_ex (\<lambda>x. x \<ge> q) t) ts
                   \<or> list_ex (\<lambda>g. g mod 2 = 0 \<or> g \<ge> 2 * d) exponents)
             (InvalidParams ''invalid Compile degree, coefficient or automorphism'')
             (Inr (compile_validated_fft (generating_poly d q (zip ts exponents)) q)))"

definition compile_fast_ring_fft :: "nat list list \<Rightarrow> nat \<Rightarrow> packing_matrix result" where
  "compile_fast_ring_fft p_hat q =
     (let d = length p_hat
      in guardR (\<not> (2 \<le> d \<and> d \<le> 4096) \<or> \<not> is_power_of_two d \<or> \<not> (2 \<le> q \<and> q \<le> 2 ^ 62))
           (InvalidParams ''compile_fast_ring_fft: d must be a power of two'')
           (guardR (list_ex (\<lambda>p. length p \<noteq> d \<or> list_ex (\<lambda>x. x \<ge> q) p) p_hat)
             (PreprocessMismatch ''compile_fast_ring_fft: noncanonical coefficient or degree mismatch'')
             (Inr (compile_validated_fft p_hat q))))"

definition ring_fft_eval_pow2 :: "nat list list \<Rightarrow> nat \<Rightarrow> nat list list" where
  "ring_fft_eval_pow2 polys q = (if polys = [] then [] else ring_fft_inplace polys q)"

section \<open>Bit reversal\<close>

fun rev_bits :: "nat \<Rightarrow> nat \<Rightarrow> nat" where
  "rev_bits 0 i = 0"
| "rev_bits (Suc L) i = (i mod 2) * 2 ^ L + rev_bits L (i div 2)"

lemma rev_bits_less: "rev_bits L i < 2 ^ L"
proof (induction L arbitrary: i)
  case (Suc L)
  have "i mod 2 * 2 ^ L \<le> 1 * 2 ^ L" by (intro mult_le_mono1) (simp add: less_Suc_eq_le [symmetric])
  then have "i mod 2 * 2 ^ L + rev_bits L (i div 2) < 1 * 2 ^ L + 2 ^ L" using Suc by (rule add_le_less_mono)
  then show ?case by simp
qed simp

lemma bit_concat:
  fixes c r :: nat
  assumes "r < 2 ^ L"
  shows "bit (c * 2 ^ L + r) k \<longleftrightarrow> (if k < L then bit r k else bit c (k - L))"
proof -
  have "push_bit L c + r = push_bit L c OR r"
    by (rule disjunctive_add) (use bit_less_exp [OF assms] in \<open>force simp: bit_push_bit_iff_nat\<close>)
  then have "c * 2 ^ L + r = push_bit L c OR r" by (simp add: push_bit_eq_mult)
  then show ?thesis using bit_less_exp [OF assms, of k] by (auto simp: bit_or_iff bit_push_bit_iff_nat)
qed

lemma bit_rev_bits: "bit (rev_bits L i) k \<longleftrightarrow> k < L \<and> bit i (L - 1 - k)"
proof (induction L arbitrary: i k)
  case (Suc L)
  show ?case
  proof (cases "k < L")
    case True
    then have "L - k = Suc (L - 1 - k)" by simp
    then show ?thesis
      using True Suc.IH [of "i div 2" k] bit_concat [OF rev_bits_less, of "i mod 2" L "i div 2" k] by (simp add: bit_Suc)
  next
    case False
    have "bit (i mod 2) (k - L) \<longleftrightarrow> k = L \<and> odd i"
      using False by (cases "odd i") (auto simp: bit_Suc_0_iff odd_iff_mod_2_eq_one)
    then show ?thesis
      using False bit_concat [OF rev_bits_less, of "i mod 2" L "i div 2" k] by (auto simp: bit_0)
  qed
qed simp

lemma rev_bits_involution: "i < 2 ^ L \<Longrightarrow> rev_bits L (rev_bits L i) = i"
  by (rule bit_eqI) (auto simp: bit_rev_bits dest: bit_less_exp)

lemma top_bit:
  fixes r :: nat
  assumes "r < 2 ^ L"
  shows "(2 ^ L + r) AND 2 ^ L \<noteq> 0" "r AND 2 ^ L = 0" "(2 ^ L + r) XOR 2 ^ L = r" "r XOR 2 ^ L = 2 ^ L + r"
proof -
  have b: "bit (2 ^ L + r) k \<longleftrightarrow> (if k < L then bit r k else k = L)" for k
    using bit_concat [OF assms, of 1 k] by (auto simp: bit_Suc_0_iff)
  have r: "bit r k \<Longrightarrow> k < L" for k using bit_less_exp [OF assms] .
  show "(2 ^ L + r) AND 2 ^ L \<noteq> 0"
    using b [of L] by (metis bit_0_eq bit_and_iff bit_exp_iff bot_apply bot_bool_def less_irrefl possible_bit_nat)
  show "r AND 2 ^ L = 0" using r by (intro bit_eqI) (auto simp: bit_and_iff bit_exp_iff)
  show "(2 ^ L + r) XOR 2 ^ L = r" using r b by (intro bit_eqI) (auto simp: bit_xor_iff bit_exp_iff)
  show "r XOR 2 ^ L = 2 ^ L + r" using r b by (intro bit_eqI) (auto simp: bit_xor_iff bit_exp_iff)
qed

lemma carry_steps:
  fixes r :: nat
  assumes "r < 2 ^ L"
  shows "bitrev_carry r (2 ^ L) = 2 ^ L + r" "bitrev_carry (2 ^ L + r) (2 ^ L) = bitrev_carry r (2 ^ L div 2)"
  by (subst bitrev_carry.simps, simp only: top_bit [OF assms] simp_thms if_True if_False)+

lemma bitrev_carry_rev: "Suc i < 2 ^ Suc L \<Longrightarrow> bitrev_carry (rev_bits (Suc L) i) (2 ^ L) = rev_bits (Suc L) (Suc i)"
proof (induction L arbitrary: i)
  case 0
  then have "i = 0" by simp
  then show ?case by (simp add: bitrev_carry.simps [of 0])
next
  case (Suc L)
  define r where "r = rev_bits (Suc L) (i div 2)"
  have r: "r < 2 ^ Suc L" unfolding r_def by (rule rev_bits_less)
  note step = rev_bits.simps(2) [of "Suc L"]
  show ?case
  proof (cases "even i")
    case True
    then have "Suc i div 2 = i div 2" "Suc i mod 2 = 1" "i mod 2 = 0" by (simp_all add: mod_Suc)
    then show ?thesis using carry_steps(1) [OF r] by (simp only: step r_def [symmetric] mult_0 mult_1 add_0)
  next
    case False
    then have i: "Suc i div 2 = Suc (i div 2)" "Suc i mod 2 = 0" "i mod 2 = 1"
      by (simp_all add: mod_Suc odd_iff_mod_2_eq_one)
    have "Suc (i div 2) < 2 ^ Suc L" using Suc.prems False by (auto elim: oddE)
    then have "bitrev_carry r (2 ^ L) = rev_bits (Suc L) (Suc (i div 2))"
      unfolding r_def by (rule Suc.IH)
    moreover have "2 ^ Suc L div 2 = (2 ^ L :: nat)" by simp
    ultimately show ?thesis
      using carry_steps(2) [OF r] by (simp only: step i r_def [symmetric] mult_0 mult_1 add_0)
  qed
qed

text \<open>The loop after the indices below \<open>m\<close>: a cell is final once it or its mirror was visited.\<close>

lemma bitrev_loop:
  assumes "length a = 2 ^ Suc L" and "1 \<le> m" and "m \<le> 2 ^ Suc L"
  defines "r \<equiv> rev_bits (Suc L)"
  shows "\<exists>b. fold (bitrev_step (2 ^ Suc L)) [1..<m] (0, a) = (r (m - 1), b) \<and> length b = 2 ^ Suc L
    \<and> (\<forall>x<2 ^ Suc L. b ! x = (if x < m \<or> r x < m then a ! r x else a ! x))"
  using assms(2,3)
proof (induction m rule: dec_induct)
  case base
  have "r 0 = 0" by (rule bit_eqI) (simp add: r_def bit_rev_bits)
  moreover have "x = 0" if "r x = 0" "x < 2 ^ Suc L" for x
    using rev_bits_involution [OF that(2)] that(1) \<open>r 0 = 0\<close> by (simp add: r_def del: rev_bits.simps)
  ultimately show ?case using assms(1) by auto
next
  case (step m)
  let ?n = "2 ^ Suc L :: nat"
  obtain b where b: "fold (bitrev_step ?n) [1..<m] (0, a) = (r (m - 1), b)" "length b = ?n"
    "\<And>x. x < ?n \<Longrightarrow> b ! x = (if x < m \<or> r x < m then a ! r x else a ! x)"
    using step by auto
  have m: "m < ?n" "1 \<le> m" using step by simp_all
  have inv: "r (r x) = x" if "x < ?n" for x using rev_bits_involution [OF that] by (simp add: r_def del: rev_bits.simps)
  have rl: "r x < ?n" for x unfolding r_def by (rule rev_bits_less)
  have "?n div 2 = 2 ^ L" by simp
  then have carry: "bitrev_carry (r (m - 1)) (?n div 2) = r m"
    using bitrev_carry_rev [of "m - 1" L] m by (simp add: r_def del: rev_bits.simps)
  let ?b = "if m < r m then b[m := b ! r m, r m := b ! m] else b"
  have "fold (bitrev_step ?n) [1..<Suc m] (0, a) = (r m, ?b)"
    using b(1) m(2) carry by (simp add: bitrev_step_def Let_def)
  moreover have "?b ! x = (if x < Suc m \<or> r x < Suc m then a ! r x else a ! x)" if x: "x < ?n" for x
  proof -
    have eqs: "x = r m \<longleftrightarrow> r x = m" using inv [OF x] inv [OF m(1)] by auto
    show ?thesis
    proof (cases "m < r m")
      case True
      have old: "b ! m = a ! m" "b ! r m = a ! r m"
        using b(3) [OF m(1)] b(3) [OF rl, of m] True inv [OF m(1)] by auto
      consider "x = m" | "x = r m" "x \<noteq> m" | "x \<noteq> m" "x \<noteq> r m" by blast
      then show ?thesis
      proof cases
        case 1
        then show ?thesis using True old m b(2) by (simp add: nth_list_update)
      next
        case 2
        then show ?thesis using True old m b(2) rl [of m] inv [OF m(1)] eqs by (simp add: nth_list_update)
      next
        case 3
        then have "x < Suc m \<or> r x < Suc m \<longleftrightarrow> x < m \<or> r x < m" using eqs by (auto simp: less_Suc_eq)
        then show ?thesis using 3 True b(3) [OF x] by simp
      qed
    next
      case False
      have "b ! x = (if x < Suc m \<or> r x < Suc m then a ! r x else a ! x)"
        using b(3) [OF x] False eqs by (auto simp: less_Suc_eq not_less)
      then show ?thesis using False by simp
    qed
  qed
  ultimately show ?case using b(2) by auto
qed

lemma bit_reverse_nth:
  assumes "length a = 2 ^ L" and "i < 2 ^ L"
  shows "length (bit_reverse a) = 2 ^ L" and "bit_reverse a ! i = a ! rev_bits L i"
proof -
  have "length (bit_reverse a) = 2 ^ L \<and> bit_reverse a ! i = a ! rev_bits L i"
  proof (cases L)
    case 0
    then show ?thesis using assms by (simp add: bit_reverse_def)
  next
    case (Suc K)
    then show ?thesis
      using bitrev_loop [of a K "2 ^ Suc K"] assms rev_bits_less [of L i]
      by (auto simp: bit_reverse_def Let_def simp del: rev_bits.simps power_Suc)
  qed
  then show "length (bit_reverse a) = 2 ^ L" "bit_reverse a ! i = a ! rev_bits L i" by simp_all
qed

section \<open>The transform\<close>

text \<open>Stage \<open>s\<close> of the decimation in time: cell \<open>k\<close> of block \<open>b\<close> holds the transform of the
  subsequence that bit reversal put into the block.\<close>

definition dft :: "nat \<Rightarrow> (nat \<Rightarrow> int \<Rightarrow> int) \<Rightarrow> nat \<Rightarrow> nat \<Rightarrow> nat \<Rightarrow> int \<Rightarrow> int" where
  "dft L orig s b k x =
     (\<Sum>m<2 ^ s. orig (rev_bits (L - s) b + 2 ^ (L - s) * m) (x - 2 * 2 ^ (L - s) * int k * int m))"

lemma sum_even_odd: "(\<Sum>m<2 * n. g m) = (\<Sum>m<n. g (2 * m)) + (\<Sum>m<n. g (2 * m + 1))" for g :: "nat \<Rightarrow> int"
  by (induction n) (simp_all add: algebra_simps)

lemma dft_split:
  assumes "s < L"
  shows "dft L orig (Suc s) b k x
    = dft L orig s (2 * b) k x + dft L orig s (2 * b + 1) k (x - 2 * 2 ^ (L - Suc s) * int k)"
proof -
  define K where "K = L - Suc s"
  have K: "L - s = Suc K" using assms by (simp add: K_def)
  let ?g = "\<lambda>m. orig (rev_bits K b + 2 ^ K * m) (x - 2 * 2 ^ K * int k * int m)"
  have "dft L orig (Suc s) b k x = (\<Sum>m<2 * 2 ^ s. ?g m)" by (simp add: dft_def K_def)
  also have "\<dots> = (\<Sum>m<2 ^ s. ?g (2 * m)) + (\<Sum>m<2 ^ s. ?g (2 * m + 1))" by (rule sum_even_odd)
  also have "(\<Sum>m<2 ^ s. ?g (2 * m)) = dft L orig s (2 * b) k x"
    unfolding dft_def K by (intro sum.cong) (simp_all add: mult.assoc mult.left_commute)
  also have "(\<Sum>m<2 ^ s. ?g (2 * m + 1)) = dft L orig s (2 * b + 1) k (x - 2 * 2 ^ K * int k)"
  proof -
    have rev: "rev_bits (Suc K) (2 * b + 1) = 2 ^ K + rev_bits K b" by simp
    show ?thesis unfolding dft_def K rev by (intro sum.cong) (simp_all add: algebra_simps)
  qed
  finally show ?thesis by (simp add: K_def)
qed

lemma dft_antiper:
  assumes "\<And>i. i < 2 ^ L \<Longrightarrow> antiper d (orig i)" and "s \<le> L"
  shows "antiper d (dft L orig s b k)"
  unfolding dft_def
proof (intro antiper_sum antiper_shift assms(1))
  fix m assume "m \<in> {..<(2::nat) ^ s}"
  then have "rev_bits (L - s) b + 2 ^ (L - s) * m < 2 ^ (L - s) + 2 ^ (L - s) * (2 ^ s - 1)"
    by (intro add_less_le_mono rev_bits_less mult_le_mono2) auto
  also have "\<dots> = 2 ^ (L - s) * 2 ^ s" by (simp add: algebra_simps)
  also have "\<dots> = 2 ^ L" using assms(2) by (simp flip: power_add)
  finally show "rev_bits (L - s) b + 2 ^ (L - s) * m < 2 ^ L" .
qed

lemma dft_periodic:
  assumes "\<And>i. i < 2 ^ L \<Longrightarrow> antiper (2 ^ L) (orig i)" and "s \<le> L"
  shows "dft L orig s b (k + 2 ^ s) x = dft L orig s b k x"
  unfolding dft_def
proof (rule sum.cong [OF refl])
  fix m assume m: "m \<in> {..<(2::nat) ^ s}"
  let ?i = "rev_bits (L - s) b + 2 ^ (L - s) * m"
  have "?i < 2 ^ (L - s) + 2 ^ (L - s) * (2 ^ s - 1)"
    using m by (intro add_less_le_mono rev_bits_less mult_le_mono2) auto
  also have "\<dots> = 2 ^ (L - s) * 2 ^ s" by (simp add: algebra_simps)
  finally have i: "?i < 2 ^ L" using assms(2) by (simp flip: power_add)
  have two: "(2::int) ^ (L - s) * 2 ^ s = int (2 ^ L)" using assms(2) by (simp flip: power_add)
  have "x - 2 * 2 ^ (L - s) * int (k + 2 ^ s) * int m
      = (x - 2 * 2 ^ (L - s) * int k * int m) + 2 * (2 ^ (L - s) * 2 ^ s) * (- int m)"
    by (simp add: algebra_simps)
  also have "\<dots> = (x - 2 * 2 ^ (L - s) * int k * int m) + 2 * int (2 ^ L) * (- int m)"
    by (simp only: two)
  finally have e: "x - 2 * 2 ^ (L - s) * int (k + 2 ^ s) * int m
      = (x - 2 * 2 ^ (L - s) * int k * int m) + 2 * int (2 ^ L) * (- int m)" .
  show "orig ?i (x - 2 * 2 ^ (L - s) * int (k + 2 ^ s) * int m)
      = orig ?i (x - 2 * 2 ^ (L - s) * int k * int m)"
    unfolding e by (rule antiper_double [OF assms(1) [OF i]])
qed

lemma dft_split_upper:
  assumes "\<And>i. i < 2 ^ L \<Longrightarrow> antiper (2 ^ L) (orig i)" and "s < L"
  shows "dft L orig (Suc s) b (k + 2 ^ s) x
    = dft L orig s (2 * b) k x - dft L orig s (2 * b + 1) k (x - 2 * 2 ^ (L - Suc s) * int k)"
proof -
  have sL: "s \<le> L" using assms(2) by simp
  have "Suc (L - Suc s + s) = L" using assms(2) by simp
  then have two: "(2::int) * 2 ^ (L - Suc s) * 2 ^ s = int (2 ^ L)"
    by (simp flip: power_add power_Suc)
  have "x - 2 * 2 ^ (L - Suc s) * int (k + 2 ^ s) = (x - 2 * 2 ^ (L - Suc s) * int k) - 2 * 2 ^ (L - Suc s) * 2 ^ s"
    by (simp add: algebra_simps)
  then have e: "x - 2 * 2 ^ (L - Suc s) * int (k + 2 ^ s) = (x - 2 * 2 ^ (L - Suc s) * int k) - int (2 ^ L)"
    by (simp only: two)
  note per = dft_periodic [of L orig s, OF _ sL] and anti = dft_antiper [of L "2 ^ L" orig s, OF _ sL]
  have "dft L orig s (2 * b + 1) k (y - int (2 ^ L)) = - dft L orig s (2 * b + 1) k y" for y
    using assms(1) by (intro antiper_sub anti) simp
  then have "dft L orig (Suc s) b (k + 2 ^ s) x
      = dft L orig s (2 * b) k x + - dft L orig s (2 * b + 1) k (x - 2 * 2 ^ (L - Suc s) * int k)"
    using assms(1) by (simp only: dft_split [OF assms(2), of orig b "k + 2 ^ s" x] per e)
  then show ?thesis by simp
qed

section \<open>The butterfly contract\<close>

text \<open>A butterfly with exponent \<open>e\<close> returns \<open>u + X\<^sup>e v\<close> and \<open>u - X\<^sup>e v\<close>. A cell denotes an antiperiodic
  function through \<open>val\<close>, exact modulo \<open>q\<close> (over the integers for \<open>q = 0\<close>), and \<open>ok\<close> is what holds of
  the cells after a number of stages, the last one allowed being \<open>stages\<close>.\<close>

locale ring_butterfly =
  fixes q L stages :: nat and ok :: "nat \<Rightarrow> 'a \<Rightarrow> bool" and val :: "'a \<Rightarrow> int \<Rightarrow> int" and bf :: "nat \<Rightarrow> 'a \<Rightarrow> 'a \<Rightarrow> 'a \<times> 'a"
  assumes bf_ok: "s < stages \<Longrightarrow> e < 2 ^ L \<Longrightarrow> ok s u \<Longrightarrow> ok s v \<Longrightarrow> ok (Suc s) (fst (bf e u v)) \<and> ok (Suc s) (snd (bf e u v))"
    and bf_sum: "s < stages \<Longrightarrow> e < 2 ^ L \<Longrightarrow> ok s u \<Longrightarrow> ok s v \<Longrightarrow> eqm q (val (fst (bf e u v)) x) (val u x + val v (x - int e))"
    and bf_diff: "s < stages \<Longrightarrow> e < 2 ^ L \<Longrightarrow> ok s u \<Longrightarrow> ok s v \<Longrightarrow> eqm q (val (snd (bf e u v)) x) (val u x - val v (x - int e))"
begin

lemma fft_stage_nth:
  assumes "length a = 2 ^ L" and "s < L" and "b < 2 ^ (L - Suc s)" and "k < 2 ^ s"
  shows "fft_stage bf (2 ^ L) (2 ^ Suc s) a ! (b * 2 ^ Suc s + k)
      = fst (bf (2 * 2 ^ (L - Suc s) * k) (a ! (b * 2 ^ Suc s + k)) (a ! (b * 2 ^ Suc s + (k + 2 ^ s))))"
    and "fft_stage bf (2 ^ L) (2 ^ Suc s) a ! (b * 2 ^ Suc s + (k + 2 ^ s))
      = snd (bf (2 * 2 ^ (L - Suc s) * k) (a ! (b * 2 ^ Suc s + k)) (a ! (b * 2 ^ Suc s + (k + 2 ^ s))))"
    and "length (fft_stage bf (2 ^ L) (2 ^ Suc s) a) = 2 ^ L"
proof -
  let ?len = "2 ^ Suc s :: nat" and ?B = "2 ^ (L - Suc s) :: nat"
  have n: "2 ^ L = ?B * ?len" using assms(2) by (simp flip: power_add power_Suc)
  have step: "2 ^ L div ?len = ?B" using n by simp
  have chunks: "chunks_exact ?len a = map (chunk_at ?len a) [0..<?B]"
    using assms(1) n by (intro chunks_exact_chunk_at) simp_all
  let ?rows = "map (fft_block bf (2 ^ L) ?len) (map (chunk_at ?len a) [0..<?B])"
  have lens: "\<forall>xs\<in>set ?rows. length xs = ?len"
    by (auto simp: fft_block_def Let_def)
  have stage: "fft_stage bf (2 ^ L) ?len a = concat ?rows" by (simp only: fft_stage_def chunks)
  have k: "k < ?len" "k + 2 ^ s < ?len" using assms(4) by simp_all
  have row: "?rows ! b = fft_block bf (2 ^ L) ?len (chunk_at ?len a b)" "b < length ?rows"
    using assms(3) by simp_all
  have at: "chunk_at ?len a b ! k = a ! (b * ?len + k)" "chunk_at ?len a b ! (k + 2 ^ s) = a ! (b * ?len + (k + 2 ^ s))"
    using k by (simp_all only: nth_chunk_at)
  have half: "?len div 2 = 2 ^ s" by simp
  have blk: "fft_block bf (2 ^ L) ?len (chunk_at ?len a b) ! k
      = fst (bf (2 * ?B * k) (chunk_at ?len a b ! k) (chunk_at ?len a b ! (k + 2 ^ s)))"
    "fft_block bf (2 ^ L) ?len (chunk_at ?len a b) ! (k + 2 ^ s)
      = snd (bf (2 * ?B * k) (chunk_at ?len a b ! k) (chunk_at ?len a b ! (k + 2 ^ s)))"
    unfolding fft_block_def Let_def step half using assms(4)
    by (simp_all add: nth_append add.commute del: power_Suc)
  show "length (fft_stage bf (2 ^ L) ?len a) = 2 ^ L"
    unfolding stage length_concat_rows [OF lens] using n by simp
  show "fft_stage bf (2 ^ L) ?len a ! (b * ?len + k)
      = fst (bf (2 * ?B * k) (a ! (b * ?len + k)) (a ! (b * ?len + (k + 2 ^ s))))"
    "fft_stage bf (2 ^ L) ?len a ! (b * ?len + (k + 2 ^ s))
      = snd (bf (2 * ?B * k) (a ! (b * ?len + k)) (a ! (b * ?len + (k + 2 ^ s))))"
    unfolding stage nth_concat_rows [OF lens row(2) k(1)] nth_concat_rows [OF lens row(2) k(2)] row(1) blk at
    by (rule refl)+
qed

definition stage_ok :: "(nat \<Rightarrow> int \<Rightarrow> int) \<Rightarrow> nat \<Rightarrow> 'a list \<Rightarrow> bool" where
  "stage_ok orig s a \<longleftrightarrow> length a = 2 ^ L \<and> (\<forall>b<2 ^ (L - s). \<forall>k<2 ^ s.
     ok s (a ! (b * 2 ^ s + k)) \<and> (\<forall>x. eqm q (val (a ! (b * 2 ^ s + k)) x) (dft L orig s b k x)))"

lemma stage_ok_step:
  assumes orig: "\<And>i. i < 2 ^ L \<Longrightarrow> antiper (2 ^ L) (orig i)"
    and ok: "stage_ok orig s a" and s: "s < L" and ss: "s < stages"
  shows "stage_ok orig (Suc s) (fft_stage bf (2 ^ L) (2 ^ Suc s) a)"
  unfolding stage_ok_def
proof (intro conjI allI impI)
  have len: "length a = 2 ^ L" using ok by (simp add: stage_ok_def)
  show "length (fft_stage bf (2 ^ L) (2 ^ Suc s) a) = 2 ^ L"
    using fft_stage_nth(3) [OF len s, of 0 0] by simp
  fix b j :: nat assume b: "b < 2 ^ (L - Suc s)" and j: "j < 2 ^ Suc s"
  define k where "k = j mod 2 ^ s"
  have k: "k < 2 ^ s" and jk: "j = k \<or> j = k + 2 ^ s"
    using j mod_add_self2 [of "j - 2 ^ s" "2 ^ s"] by (cases "j < 2 ^ s"; simp add: k_def le_mod_geq)+
  have b2: "2 * b < 2 ^ (L - s)" "2 * b + 1 < 2 ^ (L - s)"
  proof -
    have "L - s = Suc (L - Suc s)" using s by simp
    then have "(2::nat) ^ (L - s) = 2 * 2 ^ (L - Suc s)" by (simp only: power_Suc)
    then show "2 * b < 2 ^ (L - s)" "2 * b + 1 < 2 ^ (L - s)" using b by simp_all
  qed
  have idx: "b * 2 ^ Suc s + k = 2 * b * 2 ^ s + k" "b * 2 ^ Suc s + (k + 2 ^ s) = (2 * b + 1) * 2 ^ s + k"
    by (simp_all add: algebra_simps)
  let ?u = "a ! (2 * b * 2 ^ s + k)" and ?v = "a ! ((2 * b + 1) * 2 ^ s + k)" and ?e = "2 * 2 ^ (L - Suc s) * k :: nat"
  have u: "ok s ?u" "\<And>x. eqm q (val ?u x) (dft L orig s (2 * b) k x)"
    and v: "ok s ?v" "\<And>x. eqm q (val ?v x) (dft L orig s (2 * b + 1) k x)"
    using ok b2 k unfolding stage_ok_def by blast+
  note N = fft_stage_nth [OF len s b k, unfolded idx]
  have e: "int ?e = 2 * 2 ^ (L - Suc s) * int k" by simp
  have "2 * 2 ^ (L - Suc s) * k < 2 * 2 ^ (L - Suc s) * 2 ^ s" using k by simp
  also have "\<dots> = 2 ^ L" using s by (simp flip: power_add power_Suc)
  finally have es: "?e < 2 ^ L" .
  note B = bf_ok [OF ss es u(1) v(1)] bf_sum [OF ss es u(1) v(1)] bf_diff [OF ss es u(1) v(1)]
  from jk show "ok (Suc s) (fft_stage bf (2 ^ L) (2 ^ Suc s) a ! (b * 2 ^ Suc s + j))"
    using B(1) N idx by (elim disjE) (simp_all only:)
  fix x
  have "eqm q (val (fst (bf ?e ?u ?v)) x) (dft L orig (Suc s) b k x)"
    using eqm_trans [OF B(2) [of x] eqm_add [OF u(2) v(2)]] by (simp only: dft_split [OF s] e)
  moreover have "eqm q (val (snd (bf ?e ?u ?v)) x) (dft L orig (Suc s) b (k + 2 ^ s) x)"
    using eqm_trans [OF B(3) [of x] eqm_diff [OF u(2) v(2)]] dft_split_upper [OF orig s, where b = b and k = k and x = x]
    by (simp only: e)
  ultimately show "eqm q (val (fft_stage bf (2 ^ L) (2 ^ Suc s) a ! (b * 2 ^ Suc s + j)) x) (dft L orig (Suc s) b j x)"
    using jk N idx by (elim disjE) (simp_all only:)
qed

lemma fft_stages_ok:
  assumes orig: "\<And>i. i < 2 ^ L \<Longrightarrow> antiper (2 ^ L) (orig i)" and L: "L \<le> stages"
    and "stage_ok orig s a" and "s \<le> L"
  shows "stage_ok orig L (fft_stages bf (2 ^ L) (2 ^ Suc s) a)"
  using assms(3,4)
proof (induction "L - s" arbitrary: s a)
  case 0
  then have "s = L" by simp
  then show ?case using 0 by (simp add: fft_stages.simps)
next
  case (Suc m)
  then have s: "s < L" by simp
  then have "(2::nat) ^ Suc s \<le> 2 ^ L" by (intro power_increasing) simp_all
  then have "fft_stages bf (2 ^ L) (2 ^ Suc s) a = fft_stages bf (2 ^ L) (2 ^ Suc (Suc s)) (fft_stage bf (2 ^ L) (2 ^ Suc s) a)"
    by (subst fft_stages.simps) (simp add: mult.commute)
  then show ?case
    using Suc.hyps(1) [of "Suc s"] Suc.hyps(2) stage_ok_step [OF orig Suc.prems(1) s] s L by simp
qed

text \<open>The whole transform: cell \<open>j\<close> holds \<open>P(X\<^sup>2\<^sup>j)\<close>.\<close>

lemma stage_ok_start:
  assumes L: "length orig = 2 ^ L" and "\<forall>p\<in>set orig. ok 0 p"
  shows "stage_ok (\<lambda>i. val (orig ! i)) 0 (bit_reverse orig)"
  unfolding stage_ok_def
proof (intro conjI allI impI)
  show "length (bit_reverse orig) = 2 ^ L" using bit_reverse_nth(1) [OF L, of 0] by simp
  fix b k :: nat assume "b < 2 ^ (L - 0)" "k < 2 ^ 0"
  then have b: "b < 2 ^ L" and k: "k = 0" by simp_all
  have e: "bit_reverse orig ! (b * 2 ^ 0 + k) = orig ! rev_bits L b" using bit_reverse_nth(2) [OF L b] k by simp
  show "ok 0 (bit_reverse orig ! (b * 2 ^ 0 + k))" unfolding e using assms rev_bits_less [of L b] by simp
  show "eqm q (val (bit_reverse orig ! (b * 2 ^ 0 + k)) x) (dft L (\<lambda>i. val (orig ! i)) 0 b k x)" for x
    unfolding e by (simp add: dft_def)
qed

lemma stage_ok_end:
  assumes "stage_ok (\<lambda>i. val (orig ! i)) L out" and "j < 2 ^ L"
  shows "length out = 2 ^ L" and "ok L (out ! j)"
    and "eqm q (val (out ! j) x) (\<Sum>i<2 ^ L. val (orig ! i) (x - 2 * int j * int i))"
proof -
  show "length out = 2 ^ L" "ok L (out ! j)" using assms unfolding stage_ok_def by auto
  have "eqm q (val (out ! j) x) (dft L (\<lambda>i. val (orig ! i)) L 0 j x)" using assms unfolding stage_ok_def by auto
  then show "eqm q (val (out ! j) x) (\<Sum>i<2 ^ L. val (orig ! i) (x - 2 * int j * int i))"
    by (simp add: dft_def)
qed

lemma transform:
  assumes "length orig = 2 ^ L" and "L \<le> stages" and "\<forall>p\<in>set orig. ok 0 p" and "\<And>p. p \<in> set orig \<Longrightarrow> antiper (2 ^ L) (val p)"
    and "j < 2 ^ L"
  defines "out \<equiv> fft_stages bf (2 ^ L) 2 (bit_reverse orig)"
  shows "length out = 2 ^ L" and "ok L (out ! j)"
    and "eqm q (val (out ! j) x) (\<Sum>i<2 ^ L. val (orig ! i) (x - 2 * int j * int i))"
proof -
  have "stage_ok (\<lambda>i. val (orig ! i)) L out"
    using fft_stages_ok [OF _ assms(2) stage_ok_start [OF assms(1,3)]] assms(1,4) by (simp add: out_def)
  then show "length out = 2 ^ L" "ok L (out ! j)"
    "eqm q (val (out ! j) x) (\<Sum>i<2 ^ L. val (orig ! i) (x - 2 * int j * int i))"
    using assms(5) by (rule stage_ok_end)+
qed

end

section \<open>Both butterflies meet the contract\<close>

lemma canon_map:
  assumes "canon q d u" and "\<And>i. i < d \<Longrightarrow> g i < q"
  shows "canon q d (map g [0..<d])"
  using canonD [OF assms(1)] assms(2) by (auto simp: canon_def all_below_set)

lemma ext_map:
  assumes "canon q d u" and "antiper d f" and "\<And>i. i < d \<Longrightarrow> eqm q (int (g i)) (f (int i))"
  shows "eqm q (ext (map g [0..<d]) x) (f x)"
  using canonD [OF assms(1)] assms(2,3) by (intro ext_eqm) simp_all

lemma ext_twiddle_antiper:
  assumes "canon q d u" and "canon q d v"
  shows "antiper d (\<lambda>x. ext u x + ext v (x - e))" "antiper d (\<lambda>x. ext u x - ext v (x - e))"
  using assms
  by (simp_all add: antiper_add [OF canon_antiper antiper_shift [OF canon_antiper]]
      antiper_diff [OF canon_antiper antiper_shift [OF canon_antiper]])

interpretation mod_butterfly: ring_butterfly q L n "\<lambda>s. canon q d" ext "butterfly_mod d q" for q d L n
proof (unfold_locales)
  fix u v e x assume u: "canon q d u" and v: "canon q d v"
  let ?v = "rotate_by_x_power v (e mod (2 * d)) q"
  note R = rotate_by_x_power_ext [OF v, of "e mod (2 * d)"]
  have q: "0 < q" "q \<le> 2 ^ 62" using canonD [OF u] by simp_all
  have b: "u ! i < q" "?v ! i < q" if "i < d" for i using canonD(6) [OF u that] canonD(6) [OF R(1) that] .
  have w: "u64 (u ! i + ?v ! i) = u ! i + ?v ! i" "u64 (u ! i + q) = u ! i + q" if "i < d" for i
    using b [OF that] q by (auto intro: add_no_wrap)
  have vi: "eqm q (int (?v ! i)) (ext v (int i - int e))" if "i < d" for i
  proof -
    have "int i - int (e mod (2 * d)) = (int i - int e) + 2 * int d * (int e div (2 * int d))"
      by (simp add: zmod_int minus_mod_eq_mult_div [symmetric] algebra_simps)
    then have "ext v (int i - int (e mod (2 * d))) = ext v (int i - int e)"
      by (simp only: antiper_double [OF canon_antiper [OF v]])
    then show ?thesis
      using R(2) [of "int i"] ext_nth [of i ?v] canonD(4) [OF R(1)] that by simp
  qed
  have sum: "eqm q (int (u64 (u ! i + ?v ! i) mod q)) (ext u (int i) + ext v (int i - int e))" if "i < d" for i
    using eqm_trans [OF eqm_nat_mod, of q "u ! i + ?v ! i"] eqm_add [OF eqm_refl vi [OF that]]
      w [OF that] ext_nth [of i u] canonD(4) [OF u] that by simp
  have diff: "eqm q (int ((u64 (u ! i + q) - ?v ! i) mod q)) (ext u (int i) - ext v (int i - int e))" if "i < d" for i
  proof -
    have "eqm q (int ((u ! i + q - ?v ! i) mod q)) (int (u ! i + q - ?v ! i))" by simp
    also have "eqm q \<dots> (int (u ! i) - int (?v ! i))" using b [OF that] by (simp add: eqm_def of_nat_diff)
    also have "eqm q \<dots> (int (u ! i) - ext v (int i - int e))" by (rule eqm_diff [OF eqm_refl vi [OF that]])
    finally show ?thesis using w [OF that] ext_nth [of i u] canonD(4) [OF u] that by simp
  qed
  show "canon q d (fst (butterfly_mod d q e u v)) \<and> canon q d (snd (butterfly_mod d q e u v))"
    using q canon_map [OF u] by (simp add: butterfly_mod_def Let_def)
  show "eqm q (ext (fst (butterfly_mod d q e u v)) x) (ext u x + ext v (x - int e))"
    "eqm q (ext (snd (butterfly_mod d q e u v)) x) (ext u x - ext v (x - int e))"
    using ext_map [OF u ext_twiddle_antiper(1) [OF u v] sum] ext_map [OF u ext_twiddle_antiper(2) [OF u v] diff]
    by (simp_all add: butterfly_mod_def Let_def)
qed

lemma canon_exp: "canon (2 ^ k) d u \<Longrightarrow> k \<le> 64"
proof -
  assume "canon (2 ^ k) d u"
  then have "(2::nat) ^ k \<le> 2 ^ 62" by (simp add: canon_def)
  then show ?thesis by (simp only: power_increasing_iff)
qed

lemma pow2_source:
  fixes e i k L :: nat
  assumes v: "canon (2 ^ k) (2 ^ L) v" and "i < 2 ^ L"
  defines "d \<equiv> 2 ^ L" and "src \<equiv> (i + 2 * 2 ^ L - (e AND (2 * 2 ^ L - 1))) AND (2 * 2 ^ L - 1)"
  shows "eqm (2 ^ k) (int (if src \<ge> d then wrapping_neg (v ! (src - d)) else v ! src)) (ext v (int i - int e))"
proof -
  have mask: "x AND (2 * d - 1) = x mod (2 * d)" for x :: nat
    unfolding d_def power_Suc [symmetric] by (rule and_exp_minus_1)
  have d: "0 < d" "length v = d" using canonD [OF v] by (simp_all add: d_def)
  have "e mod (2 * d) \<le> 2 * d" using d by (simp add: less_imp_le)
  then have "int src = (int i + 2 * int d - int e mod (2 * int d)) mod (2 * int d)"
    unfolding src_def d_def [symmetric] mask by (simp add: zmod_int of_nat_diff)
  also have "\<dots> = ((int i - int e) + 2 * int d) mod (2 * int d)"
    unfolding mod_diff_right_eq by (simp only: diff_add_eq)
  finally have src: "int src = (int i - int e) mod (2 * int d)" by (simp only: mod_add_self2)
  have "ext v (int i - int e) = (if src \<ge> d then - int (v ! (src - d)) else int (v ! src))"
    by (simp add: ext_def Let_def d(2) nat_diff_distrib' flip: src)
  then show ?thesis using eqm_wrapping_neg [OF canon_exp [OF v]] by simp
qed

interpretation pow2_butterfly: ring_butterfly "2 ^ k" L n "\<lambda>s. canon (2 ^ k) (2 ^ L)" ext "butterfly_pow2 (2 ^ L) (2 ^ k)" for k L n
proof (unfold_locales)
  let ?q = "2 ^ k :: nat" and ?d = "2 ^ L :: nat"
  fix u v e x assume u: "canon ?q ?d u" and v: "canon ?q ?d v"
  define t where "t i = (let src = (i + 2 * ?d - (e AND (2 * ?d - 1))) AND (2 * ?d - 1)
      in if src \<ge> ?d then wrapping_neg (v ! (src - ?d)) else v ! src)" for i
  have code: "butterfly_pow2 ?d ?q e u v = (map (\<lambda>i. wrapping_add (u ! i) (t i) AND (?q - 1)) [0..<?d],
      map (\<lambda>i. wrapping_sub (u ! i) (t i) AND (?q - 1)) [0..<?d])"
    by (simp only: butterfly_pow2_def t_def Let_def)
  have t: "eqm ?q (int (t i)) (ext v (int i - int e))" if "i < ?d" for i
    using pow2_source [OF v that] by (simp only: t_def Let_def)
  have ui: "ext u (int i) = int (u ! i)" if "i < ?d" for i using ext_nth [of i u] canonD(4) [OF u] that by simp
  note k = canon_exp [OF u]
  have sum: "eqm ?q (int (wrapping_add (u ! i) (t i) AND (?q - 1))) (ext u (int i) + ext v (int i - int e))" if "i < ?d" for i
    using eqm_trans [OF eqm_mask eqm_trans [OF eqm_wrapping_add [OF k] eqm_add [OF eqm_refl t [OF that]]]]
    by (simp only: ui [OF that])
  have diff: "eqm ?q (int (wrapping_sub (u ! i) (t i) AND (?q - 1))) (ext u (int i) - ext v (int i - int e))" if "i < ?d" for i
    using eqm_trans [OF eqm_mask eqm_trans [OF eqm_wrapping_sub [OF k] eqm_diff [OF eqm_refl t [OF that]]]]
    by (simp only: ui [OF that])
  show "canon ?q ?d (fst (butterfly_pow2 ?d ?q e u v)) \<and> canon ?q ?d (snd (butterfly_pow2 ?d ?q e u v))"
    unfolding code fst_conv snd_conv by (intro conjI canon_map [OF u] mask_less)
  show "eqm ?q (ext (fst (butterfly_pow2 ?d ?q e u v)) x) (ext u x + ext v (x - int e))"
    "eqm ?q (ext (snd (butterfly_pow2 ?d ?q e u v)) x) (ext u x - ext v (x - int e))"
    using ext_map [OF u ext_twiddle_antiper(1) [OF u v] sum] ext_map [OF u ext_twiddle_antiper(2) [OF u v] diff]
    unfolding code by simp_all
qed

section \<open>The compiled matrix\<close>

text \<open>The transform of canonical input, for either kind of modulus.\<close>

lemma ring_fft_inplace_ok:
  assumes "d = 2 ^ L" and "length orig = d" and "\<forall>p\<in>set orig. canon q d p" and "j < d"
  shows "length (ring_fft_inplace orig q) = d" and "canon q d (ring_fft_inplace orig q ! j)"
    and "eqm q (ext (ring_fft_inplace orig q ! j) x) (\<Sum>i<d. ext (orig ! i) (x - 2 * int j * int i))"
proof -
  have L: "length orig = 2 ^ L" "0 < d" using assms(1,2) by simp_all
  have "bit_reverse orig ! 0 \<in> set orig" using bit_reverse_nth(2) [OF L(1), of 0] rev_bits_less [of L 0] L by simp
  then have d: "length (bit_reverse orig ! 0) = d" using assms(3) by (auto dest: canonD(4))
  have run: "ring_fft_inplace orig q = (if is_power_of_two q \<and> is_power_of_two d
      then fft_stages (butterfly_pow2 d q) d 2 (bit_reverse orig) else fft_stages (butterfly_mod d q) d 2 (bit_reverse orig))"
    by (simp only: ring_fft_inplace_def Let_def d assms(2))
  have anti: "antiper (2 ^ L) (ext p)" if "p \<in> set orig" for p using canon_antiper [of q d p] assms(1,3) that by simp
  have "length (ring_fft_inplace orig q) = d \<and> canon q d (ring_fft_inplace orig q ! j)
      \<and> eqm q (ext (ring_fft_inplace orig q ! j) x) (\<Sum>i<d. ext (orig ! i) (x - 2 * int j * int i))"
  proof (cases "is_power_of_two q \<and> is_power_of_two d")
    case True
    then obtain k where k: "q = 2 ^ k" by (auto simp: is_power_of_two_iff)
    have cn: "\<forall>p\<in>set orig. canon (2 ^ k) (2 ^ L) p" and j: "j < 2 ^ L" using assms k by simp_all
    show ?thesis
      using pow2_butterfly.transform [OF L(1) order_refl cn anti j] run True k assms(1) by simp
  next
    case False
    have j: "j < 2 ^ L" using assms by simp
    show ?thesis using mod_butterfly.transform [OF L(1) order_refl assms(3) anti j] False run assms(1) by auto
  qed
  then show "length (ring_fft_inplace orig q) = d" "canon q d (ring_fft_inplace orig q ! j)"
    "eqm q (ext (ring_fft_inplace orig q ! j) x) (\<Sum>i<d. ext (orig ! i) (x - 2 * int j * int i))" by simp_all
qed

text \<open>Column \<open>j\<close> of the emitted matrix is \<open>X\<^sup>j\<close> times cell \<open>j\<close> of the transform.\<close>

lemma validated_entry:
  assumes "d = 2 ^ L" and "length orig = d" and "\<forall>p\<in>set orig. canon q d p" and r: "r < d" and j: "j < d"
  shows "mget (compile_validated_fft orig q) r j < q"
    and "eqm q (int (mget (compile_validated_fft orig q) r j)) (ext (ring_fft_inplace orig q ! j) (int r - int j))"
proof -
  define a where "a = ring_fft_inplace orig q"
  have a: "canon q d (a ! j)" unfolding a_def by (rule ring_fft_inplace_ok(2) [OF assms(1-3) j])
  have q: "0 < q" "length (a ! j) = d" using canonD [OF a] by simp_all
  have "mget (compile_validated_fft orig q) r j < q
    \<and> eqm q (int (mget (compile_validated_fft orig q) r j)) (ext (a ! j) (int r - int j))"
  proof (cases "is_power_of_two q")
    case True
    then obtain k where k: "q = 2 ^ k" by (auto simp: is_power_of_two_iff)
    let ?x = "a ! j ! ((r + d - j) AND (d - 1))"
    have m: "mget (compile_validated_fft orig q) r j = (if r < j then wrapping_neg ?x else ?x) AND (2 ^ k - 1)"
      using True r j k by (simp add: compile_validated_fft_def Let_def assms(2) a_def del: One_nat_def)
    have "(r + d - j) AND (d - 1) = (r + d - j) mod d" unfolding assms(1) by (rule and_exp_minus_1)
    also have "\<dots> = (if r < j then r + d - j else r - j)" using r j by (simp add: le_mod_geq)
    finally have "ext (a ! j) (int r - int j) = (if r < j then - int ?x else int ?x)"
      using ext_neg_index [of "j - r" "a ! j"] ext_nth [of "r - j" "a ! j"] r j q
      by (cases "r < j") (simp_all add: of_nat_diff add.commute)
    then show ?thesis
      unfolding m unfolding k using mask_less eqm_mask eqm_trans [OF eqm_mask eqm_wrapping_neg [OF canon_exp [OF a [unfolded k]]]]
      by (simp del: One_nat_def)
  next
    case False
    then have "mget (compile_validated_fft orig q) r j = shift_negacyclic (a ! j) j q ! r"
      using r j by (simp add: compile_validated_fft_def Let_def assms(2) a_def)
    moreover note S = shift_negacyclic_ext(1) [OF a j] shift_negacyclic_ext(2) [OF a j, of "int r"]
    ultimately show ?thesis
      using canonD(6) [OF S(1) r] S(2) r ext_nth [of r "shift_negacyclic (a ! j) j q"] canonD(4) [OF S(1)]
      by simp
  qed
  then show "mget (compile_validated_fft orig q) r j < q"
    "eqm q (int (mget (compile_validated_fft orig q) r j)) (ext (ring_fft_inplace orig q ! j) (int r - int j))"
    by (simp_all add: a_def)
qed

text \<open>The generating polynomial collects every step at the slot of its exponent.\<close>

lemma generating_step:
  assumes "length P = d" and "\<forall>p\<in>set P. canon q d p" and t: "canon q d t" and "k < d"
  defines "P' \<equiv> P[k := map2 (\<lambda>dst x. u64 (dst + x) mod q) (P ! k) t]"
  shows "length P' = d" and "\<forall>p\<in>set P'. canon q d p"
    and "eqm q (\<Sum>i<d. ext (P' ! i) (X i)) ((\<Sum>i<d. ext (P ! i) (X i)) + ext t (X k))"
proof -
  let ?p = "map2 (\<lambda>dst x. u64 (dst + x) mod q) (P ! k) t"
  have Pk: "canon q d (P ! k)" using assms by simp
  have len: "length (P ! k) = d" "length t = d" using canonD [OF Pk] canonD [OF t] by simp_all
  have code: "?p = map (\<lambda>i. (P ! k ! i + t ! i) mod q) [0..<d]"
    using len canonD(6) [OF Pk] less_imp_le [OF canonD(6) [OF t]] canonD(2) [OF t]
    by (intro nth_equalityI) (simp_all add: add_no_wrap [of _ q])
  have p: "canon q d ?p" unfolding code using canonD(1) [OF t] by (intro canon_map [OF t]) simp
  have e: "eqm q (ext ?p x) (ext (P ! k) x + ext t x)" for x
    unfolding code
  proof (rule ext_map [OF t antiper_add [OF canon_antiper [OF Pk] canon_antiper [OF t]]])
    fix i assume "i < d"
    then show "eqm q (int ((P ! k ! i + t ! i) mod q)) (ext (P ! k) (int i) + ext t (int i))"
      using eqm_nat_mod [of q "P ! k ! i + t ! i"] len by (simp add: ext_nth)
  qed
  show "length P' = d" "\<forall>p\<in>set P'. canon q d p"
    using assms p by (auto simp: P'_def dest!: subsetD [OF set_update_subset_insert])
  have split: "(\<Sum>i<d. f i) = f k + (\<Sum>i\<in>{..<d} - {k}. f i)" for f :: "nat \<Rightarrow> int"
    using assms(4) by (simp add: sum.remove)
  have "(\<Sum>i\<in>{..<d} - {k}. ext (P' ! i) (X i)) = (\<Sum>i\<in>{..<d} - {k}. ext (P ! i) (X i))"
    by (intro sum.cong) (auto simp: P'_def)
  then show "eqm q (\<Sum>i<d. ext (P' ! i) (X i)) ((\<Sum>i<d. ext (P ! i) (X i)) + ext t (X k))"
    unfolding split [of "\<lambda>i. ext (P' ! i) (X i)"] split [of "\<lambda>i. ext (P ! i) (X i)"]
    using eqm_add [OF e [of "X k"] eqm_refl, of "\<Sum>i\<in>{..<d} - {k}. ext (P ! i) (X i)"] assms(1,4)
    by (simp add: P'_def ac_simps)
qed

lemma generating_loop:
  assumes "length P = d" and "\<forall>p\<in>set P. canon q d p" and "good_steps q d steps"
  defines "P' \<equiv> fold (\<lambda>(t, g) p_hat. p_hat[(g - 1) div 2 :=
      map2 (\<lambda>dst x. u64 (dst + x) mod q) (p_hat ! ((g - 1) div 2)) t]) steps P"
  shows "length P' = d \<and> (\<forall>p\<in>set P'. canon q d p)
    \<and> eqm q (\<Sum>i<d. ext (P' ! i) (X i)) ((\<Sum>i<d. ext (P ! i) (X i)) + (\<Sum>(t, g)\<leftarrow>steps. ext t (X ((g - 1) div 2))))"
  using assms(1-3) unfolding P'_def
proof (induction steps arbitrary: P)
  case Nil
  then show ?case by simp
next
  case (Cons s steps)
  obtain t g where s: "s = (t, g)" by (cases s)
  have tg: "canon q d t" "(g - 1) div 2 < d" "good_steps q d steps" using Cons.prems(3) s canonD(3) by fastforce+
  note step = generating_step [OF Cons.prems(1,2) tg(1,2)]
  show ?case
    using Cons.IH [OF step(1,2) tg(3)] eqm_trans [OF _ eqm_add [OF step(3) eqm_refl]]
    by (simp add: s add.assoc)
qed

lemma generating_poly_ok:
  assumes "good_steps q d steps"
  shows "length (generating_poly d q steps) = d" and "\<forall>p\<in>set (generating_poly d q steps). canon q d p"
    and "eqm q (\<Sum>i<d. ext (generating_poly d q steps ! i) (X i)) (\<Sum>(t, g)\<leftarrow>steps. ext t (X ((g - 1) div 2)))"
proof -
  have z: "canon q d (replicate d 0)" using assms by (auto simp: good_steps_def canon_def all_below_set)
  have "ext (replicate d 0) x = 0" for x using assms by (auto simp: ext_def Let_def good_steps_def nat_less_iff)
  then have "(\<Sum>i<d. ext (replicate d (replicate d 0) ! i) (X i)) = 0" by simp
  then show "length (generating_poly d q steps) = d" "\<forall>p\<in>set (generating_poly d q steps). canon q d p"
    "eqm q (\<Sum>i<d. ext (generating_poly d q steps ! i) (X i)) (\<Sum>(t, g)\<leftarrow>steps. ext t (X ((g - 1) div 2)))"
    using generating_loop [of "replicate d (replicate d 0)" d q steps X] z assms by (simp_all add: generating_poly_def)
qed

lemma compile_validated_fft_ok:
  assumes "d = 2 ^ L" and good: "good_steps q d steps" and odd: "\<forall>(t, g)\<in>set steps. odd g"
  shows "compile_validated_fft (generating_poly d q steps) q = compile_spec d q steps"
proof (rule compile_matrix_eqI)
  let ?P = "generating_poly d q steps"
  note P = generating_poly_ok(1,2) [OF good]
  have len: "length ?P = d" by (rule P)
  show "pm_rows (compile_validated_fft ?P q) = d" "pm_cols (compile_validated_fft ?P q) = d"
    "pm_q (compile_validated_fft ?P q) = q" "length (pm_data (compile_validated_fft ?P q)) = d * d"
    using len by (simp_all add: compile_validated_fft_def Let_def)
  show "0 < q" using good by (simp add: good_steps_def)
  fix r c assume rc: "r < d" "c < d"
  note E = validated_entry [OF assms(1) P rc]
  show "mget (compile_validated_fft ?P q) r c < q" by (rule E)
  have "(\<Sum>(t, g)\<leftarrow>steps. ext t (int r - int c - 2 * int c * int ((g - 1) div 2))) = compile_entry steps r c"
    unfolding compile_entry_def
  proof (intro arg_cong [where f = sum_list] map_cong [OF refl])
    fix s assume s: "s \<in> set steps"
    obtain t g where [simp]: "s = (t, g)" by (cases s)
    have "odd g" using odd s by auto
    then obtain m where g: "g = 2 * m + 1" by (rule oddE)
    show "(case s of (t, g) \<Rightarrow> ext t (int r - int c - 2 * int c * int ((g - 1) div 2)))
        = (case s of (t, g) \<Rightarrow> ext t (int r - int c * int g))"
      by (simp add: g algebra_simps)
  qed
  then show "eqm q (int (mget (compile_validated_fft ?P q) r c)) (compile_entry steps r c)"
    using eqm_trans [OF eqm_trans [OF E(2) ring_fft_inplace_ok(3) [OF assms(1) P rc(2)]]
        generating_poly_ok(3) [OF good, of "\<lambda>i. int r - int c - 2 * int c * int i"]]
    by simp
qed

text \<open>The checks of \<open>compile_fast\<close>, as the inputs they let through.\<close>

definition fast_inputs :: "nat list list \<Rightarrow> nat list \<Rightarrow> nat \<Rightarrow> bool" where
  "fast_inputs ts gs q \<longleftrightarrow> ts \<noteq> [] \<and> length ts = length gs \<and> 2 \<le> q \<and> q \<le> 2 ^ 62
     \<and> 2 \<le> length (hd ts) \<and> length (hd ts) \<le> 4096 \<and> is_power_of_two (length (hd ts))
     \<and> list_all (\<lambda>t. length (hd ts) = length t \<and> all_below q t) ts
     \<and> list_all (\<lambda>g. odd g \<and> g < 2 * length (hd ts)) gs"

lemma fast_inputs_good:
  assumes "fast_inputs ts gs q"
  shows "good_steps q (length (hd ts)) (zip ts gs)" "\<forall>(t, g)\<in>set (zip ts gs). odd g" "length ts = length gs" "ts \<noteq> []"
proof -
  have step: "length (hd ts) = length t \<and> all_below q t \<and> odd g \<and> g < 2 * length (hd ts)" if "(t, g) \<in> set (zip ts gs)" for t g
    using set_zip_leftD [OF that] set_zip_rightD [OF that] assms unfolding fast_inputs_def list_all_iff by blast
  have d: "0 < length (hd ts)" "length (hd ts) < 2 ^ 31" "1 < q" "q \<le> 2 ^ 62" using assms by (auto simp: fast_inputs_def)
  then show "good_steps q (length (hd ts)) (zip ts gs)"
    unfolding good_steps_def list_all_iff using step by fastforce
  show "\<forall>(t, g)\<in>set (zip ts gs). odd g" using step by blast
  show "length ts = length gs" "ts \<noteq> []" using assms by (simp_all add: fast_inputs_def)
qed

lemma compile_fast_ok:
  assumes "fast_inputs ts gs q"
  shows "compile_fast ts gs q = Inr (compile_spec (length (hd ts)) q (zip ts gs))"
proof -
  let ?d = "length (hd ts)"
  obtain L where "?d = 2 ^ L" using assms by (auto simp: fast_inputs_def is_power_of_two_iff)
  then have "compile_validated_fft (generating_poly ?d q (zip ts gs)) q = compile_spec ?d q (zip ts gs)"
    using fast_inputs_good [OF assms] by (intro compile_validated_fft_ok)
  then show ?thesis
    using assms
    by (auto simp: compile_fast_def fast_inputs_def Let_def hd_conv_nth list_ex_iff list_all_iff all_below_set
        not_le even_iff_mod_2_eq_zero)
qed

lemma compile_fast_rejects:
  assumes "\<not> fast_inputs ts gs q"
  shows "\<exists>msg. compile_fast ts gs q = Inl (InvalidParams msg)"
  using assms
  by (auto simp: compile_fast_def fast_inputs_def guardR_def Let_def hd_conv_nth list_ex_iff list_all_iff all_below_set
      not_le even_iff_mod_2_eq_zero)

text \<open>C5. All three compilers agree. On every input that the fast compiler accepts, the ring FFT
  (either butterfly), the fused accumulation and the explicit matrix products return the same
  matrix, whose entry \<open>(r, c)\<close> is the coefficient of \<open>X\<^sup>r\<close> in \<open>\<Sum> t\<^sub>i \<tau>\<^sub>i(X\<^sup>c)\<close> modulo \<open>q\<close>; on every
  other input the fast compiler returns \<open>InvalidParams\<close>.\<close>

theorem compile_equivalence:
  "if fast_inputs ts gs q
   then compile_fast ts gs q = Inr (compile_spec (length (hd ts)) q (zip ts gs))
     \<and> compile_naive_fused ts gs q = compile_fast ts gs q \<and> compile_naive ts gs q = compile_fast ts gs q
   else \<exists>msg. compile_fast ts gs q = Inl (InvalidParams msg)"
  using compile_fast_ok [of ts gs q] compile_fast_rejects [of ts gs q] fast_inputs_good [of ts gs q]
    compile_naive_fused_ok [of q "length (hd ts)" ts gs] compile_naive_ok [of q "length (hd ts)" ts gs] by simp

section \<open>What the compiled matrix computes\<close>

text \<open>The image of \<open>y\<close> under the packing: \<open>\<Sum> t\<^sub>i \<tau>\<^sub>i(y)\<close>, by the automorphism and the schoolbook
  product of the ring.\<close>

definition packing_image :: "nat \<Rightarrow> (nat list \<times> nat) list \<Rightarrow> nat list \<Rightarrow> nat list" where
  "packing_image q steps y =
     map (\<lambda>r. (\<Sum>(t, g)\<leftarrow>steps. schoolbook_negacyclic t (tau_coeffs y g q) q ! r) mod q) [0..<length y]"

lemma step_image:
  assumes "good_steps q d steps" and t: "canon q d t" and "g < 2 * d" and y: "canon q d y" and "r < d"
  shows "eqm q (\<Sum>c<d. int (y ! c) * ext t (int r - int c * int g)) (int (schoolbook_negacyclic t (tau_coeffs y g q) q ! r))"
proof -
  have f: "antiper d (\<lambda>k. ext t (int r - k))" using canon_antiper [OF t] by (rule antiper_reflect)
  note T = tau_coeffs_pairing [OF y good_steps_exp [OF assms(1,3)] f]
  show ?thesis
    by (rule eqm_sym [OF eqm_trans [OF schoolbook_negacyclic_nth(2) [OF t T(1) assms(5)] T(2)]])
qed

lemma steps_image:
  assumes "good_steps q d steps" and y: "canon q d y" and r: "r < d"
  shows "eqm q (\<Sum>c<d. int (y ! c) * compile_entry steps r c)
    (int (\<Sum>(t, g)\<leftarrow>steps. schoolbook_negacyclic t (tau_coeffs y g q) q ! r))"
  using assms(1)
proof (induction steps)
  case Nil
  then show ?case by (simp add: compile_entry_def)
next
  case (Cons s steps)
  obtain t g where s: "s = (t, g)" by (cases s)
  have "(\<Sum>c<d. int (y ! c) * compile_entry (s # steps) r c)
      = (\<Sum>c<d. int (y ! c) * ext t (int r - int c * int g)) + (\<Sum>c<d. int (y ! c) * compile_entry steps r c)"
    by (simp add: s compile_entry_def distrib_left sum.distrib)
  then show ?case
    using eqm_add [OF step_image [OF Cons.prems _ _ y r] Cons.IH] Cons.prems by (simp add: s)
qed

text \<open>C6. Packing by one matrix product. Whatever the fast compiler returns, multiplying it by a
  canonical polynomial gives \<open>\<Sum> t\<^sub>i \<tau>\<^sub>i(y)\<close>: the online product of the packing applies all the
  automorphisms and ring products of the steps at once, without overflow for moduli up to 56 bits.\<close>

theorem compile_matvec:
  assumes "compile_fast ts gs q = Inr m" and "q \<le> 2 ^ 56"
    and "length y = length (hd ts)" and "all_below q y" and "length out = length (hd ts)"
  shows "matvec m y out = Inr (packing_image q (zip ts gs) y)"
proof -
  let ?d = "length (hd ts)" and ?steps = "zip ts gs"
  have ok: "fast_inputs ts gs q" using compile_fast_rejects [of ts gs q] assms(1) by auto
  note good = fast_inputs_good(1) [OF ok]
  have d: "0 < ?d" "?d \<le> 4096" "2 \<le> q" using ok by (auto simp: fast_inputs_def)
  have m: "m = compile_spec ?d q ?steps" using compile_fast_ok [OF ok] assms(1) by simp
  have y: "canon q ?d y" using d assms(2-4) by (simp add: canon_def)
  have "matvec m y out = Inr (matvec_spec m y)"
  proof (rule matvec_ok)
    show "wf_matrix m" unfolding m compile_spec_def using d by (intro wf_matrix_mat_of) (simp add: nat_less_iff)
    show "pm_rows m * pm_cols m < 2 ^ 64"
      using mult_le_mono [OF d(2) d(2)] by (simp add: m compile_spec_def)
  qed (use assms d in \<open>simp_all add: m compile_spec_def\<close>)
  also have "matvec_spec m y = packing_image q ?steps y"
  proof (rule nth_equalityI)
    fix r assume "r < length (matvec_spec m y)"
    then have r: "r < ?d" by (simp add: m matvec_spec_def compile_spec_def)
    have "eqm q (int (\<Sum>c<?d. nat (compile_entry ?steps r c mod int q) * y ! c)) (\<Sum>c<?d. int (y ! c) * compile_entry ?steps r c)"
      using d(3) by (simp add: mult.commute) (intro eqm_sum eqm_mult eqm_refl eqm_mod)
    then have "eqm q (int (\<Sum>c<?d. nat (compile_entry ?steps r c mod int q) * y ! c))
        (int (\<Sum>(t, g)\<leftarrow>?steps. schoolbook_negacyclic t (tau_coeffs y g q) q ! r))"
      using steps_image [OF good y r] by (rule eqm_trans)
    then have "(\<Sum>c<?d. nat (compile_entry ?steps r c mod int q) * y ! c) mod q
        = (\<Sum>(t, g)\<leftarrow>?steps. schoolbook_negacyclic t (tau_coeffs y g q) q ! r) mod q"
      unfolding eqm_mod_iff zmod_int [symmetric] of_nat_eq_iff .
    then show "matvec_spec m y ! r = packing_image q ?steps y ! r"
      using r assms(3) by (simp add: matvec_spec_def packing_image_def m compile_spec_def)
  qed (use assms(3) in \<open>simp add: m matvec_spec_def packing_image_def compile_spec_def\<close>)
  finally show ?thesis .
qed

theorem compile_matvec_witness:
  "\<exists>m. compile_fast [[1, 2], [3, 4]] [1, 3] 17 = Inr m
     \<and> matvec m [5, 6] [0, 0] = Inr (packing_image 17 (zip [[1, 2], [3, 4]] [1, 3]) [5, 6])"
proof -
  have "fast_inputs [[1, 2], [3, 4]] [1, 3] 17" by code_simp
  then obtain m where "compile_fast [[1, 2], [3, 4]] [1, 3] 17 = Inr m" using compile_fast_ok by blast
  moreover from this have "matvec m [5, 6] [0, 0] = Inr (packing_image 17 (zip [[1, 2], [3, 4]] [1, 3]) [5, 6])"
    by (rule compile_matvec) simp_all
  ultimately show ?thesis by blast
qed

end
