(* ===== verification/Lift.thy ===== *)
theory Lift
  imports Ring
begin

text \<open>
  Exact negacyclic products over a composite or power-of-two modulus, by number-theoretic
  transforms at auxiliary primes and signed Chinese remaindering
  (\<open>reinspiring/src/lift_ntt.rs\<close>). The transforms belong to the spiral-rs package: an
  \<open>ntt_engine\<close> is the record of its four functions that the file calls, and
  \<open>ntt_laws\<close> states what the file relies on. A spiral parameter object is represented by the
  one modulus it carries.
\<close>

section \<open>Model: contexts and operands\<close>

record ntt_engine =
  to_ntt :: "nat \<Rightarrow> nat list \<Rightarrow> nat list"
  ntt_multiply :: "nat \<Rightarrow> nat list \<Rightarrow> nat list \<Rightarrow> nat list"
  from_ntt :: "nat \<Rightarrow> nat list \<Rightarrow> nat list"
  invert_uint_mod :: "nat \<Rightarrow> nat \<Rightarrow> nat option"

definition PRIMES :: "nat list" where
  "PRIMES = [4398046568449, 4398046666753, 4398046781441]"

record lift_context =
  lc_d :: nat
  lc_q :: nat
  lc_params :: "nat list"
  lc_product :: nat
  lc_inverses :: "nat list"

text \<open>Transforms are indexed limb, prime, coefficient; those of a public dot prime, operand,
  coefficient.\<close>

record prepared_lift_operand =
  plo_d :: nat
  plo_q :: nat
  plo_transforms :: "nat list list list"
  plo_sum_fits_two :: bool

record prepared_lift_right =
  plr_d :: nat
  plr_q :: nat
  plr_transforms :: "nat list list list"

record prepared_public_dot =
  ppd_d :: nat
  ppd_q :: nat
  ppd_right_bound :: nat
  ppd_transforms :: "nat list list list"

definition plo_storage_bytes :: "prepared_lift_operand \<Rightarrow> nat" where
  "plo_storage_bytes a = (\<Sum>x\<leftarrow>concat (plo_transforms a). length x * 8)"

definition centered :: "nat \<Rightarrow> nat \<Rightarrow> int" where
  "centered x q = (if x > q div 2 then int x - int q else int x)"

definition checked_mul_u128 :: "nat \<Rightarrow> nat \<Rightarrow> nat option" where
  "checked_mul_u128 a b = (if a * b < 2 ^ 128 then Some (a * b) else None)"

definition checked_add_u128 :: "nat \<Rightarrow> nat \<Rightarrow> nat option" where
  "checked_add_u128 a b = (if a + b < 2 ^ 128 then Some (a + b) else None)"

definition new_lift_context :: "ntt_engine \<Rightarrow> nat \<Rightarrow> nat \<Rightarrow> lift_context result" where
  "new_lift_context eng d q =
     guardR (\<not> (2 \<le> d \<and> d \<le> 4096) \<or> \<not> is_power_of_two d \<or> \<not> (2 \<le> q \<and> q \<le> 2 ^ 56))
       (InvalidParams ''unsupported lifted product parameters'')
       (let product = prod_list PRIMES
        in case Option.bind (checked_mul_u128 d q) (\<lambda>x. checked_mul_u128 x q) of
             None \<Rightarrow> Inl (InvalidParams ''lift bound overflow'')
           | Some need \<Rightarrow>
               guardR (product \<le> need) (InvalidParams ''insufficient CRT reconstruction capacity'')
                 (case (invert_uint_mod eng (PRIMES ! 0 mod PRIMES ! 1) (PRIMES ! 1),
                        invert_uint_mod eng (PRIMES ! 0 * PRIMES ! 1 mod PRIMES ! 2) (PRIMES ! 2)) of
                    (Some i1, Some i2) \<Rightarrow>
                      Inr \<lparr>lc_d = d, lc_q = q, lc_params = PRIMES, lc_product = product, lc_inverses = [i1, i2]\<rparr>
                  | _ \<Rightarrow> Inl (Panic ''unwrap on None'')))"

definition validate_lift :: "lift_context \<Rightarrow> nat list \<Rightarrow> unit result" where
  "validate_lift ctx a =
     guardR (length a \<noteq> lc_d ctx \<or> list_ex (\<lambda>x. x \<ge> lc_q ctx) a)
       (LweShape ''noncanonical lifted polynomial or wrong degree'') (Inr ())"

text \<open>The raw polynomial filled from the centred residues of a coefficient slice; a spiral
  polynomial starts as zero.\<close>

definition lift_raw :: "lift_context \<Rightarrow> nat \<Rightarrow> nat list \<Rightarrow> nat list" where
  "lift_raw ctx m poly =
     map (\<lambda>i. if i < length poly then rem_euclid (centered (poly ! i) (lc_q ctx)) m else 0) [0..<lc_d ctx]"

definition lift_transform :: "ntt_engine \<Rightarrow> lift_context \<Rightarrow> nat \<Rightarrow> nat list \<Rightarrow> nat list" where
  "lift_transform eng ctx m poly = to_ntt eng m (lift_raw ctx m poly)"

section \<open>Model: reconstruction\<close>

text \<open>Garner's loop over the remaining primes, with a residue and an inverse each.\<close>

fun garner :: "(nat \<times> nat \<times> nat) list \<Rightarrow> nat \<Rightarrow> nat \<Rightarrow> nat" where
  "garner [] x m = x"
| "garner ((p, r, w) # rest) x m =
     (let delta = (r + p - x mod p) mod p
      in garner rest (u128 (x + u128 (m * (u128 (delta * w) mod p)))) (u128 (m * p)))"

definition reconstruct :: "lift_context \<Rightarrow> nat list list \<Rightarrow> nat \<Rightarrow> nat" where
  "reconstruct ctx residues i =
     garner (map (\<lambda>j. (PRIMES ! j, residues ! j ! i, lc_inverses ctx ! (j - 1))) [1..<length residues])
       (residues ! 0 ! i) (PRIMES ! 0)"

definition lift_signed :: "nat \<Rightarrow> nat \<Rightarrow> int" where
  "lift_signed product x = (if x > product div 2 then i128 (int x) - i128 (int product) else i128 (int x))"

definition reconstruct_two :: "lift_context \<Rightarrow> nat \<Rightarrow> nat \<Rightarrow> nat" where
  "reconstruct_two ctx r0 r1 =
     (let p0 = PRIMES ! 0; p1 = PRIMES ! 1; product = p0 * p1;
          delta0 = r1 + p1 - r0;
          delta = (if delta0 \<ge> p1 then delta0 - p1 else delta0);
          x = u128 (r0 + u128 (p0 * (u128 (delta * lc_inverses ctx ! 0) mod p1)));
          sgnd = lift_signed product x
      in if is_power_of_two (lc_q ctx) then as_u64 sgnd AND (lc_q ctx - 1) else rem_euclid sgnd (lc_q ctx))"

section \<open>Model: products\<close>

definition lift_multiply :: "ntt_engine \<Rightarrow> lift_context \<Rightarrow> nat list \<Rightarrow> nat list \<Rightarrow> nat list result" where
  "lift_multiply eng ctx a b =
     bindR (validate_lift ctx a) (\<lambda>_. bindR (validate_lift ctx b) (\<lambda>_.
       let residues = map (\<lambda>m. from_ntt eng m (ntt_multiply eng m (lift_transform eng ctx m a) (lift_transform eng ctx m b)))
             (lc_params ctx)
       in Inr (map (\<lambda>i. rem_euclid (lift_signed (lc_product ctx) (reconstruct ctx residues i)) (lc_q ctx)) [0..<lc_d ctx])))"

definition lift_sum :: "ntt_engine \<Rightarrow> lift_context \<Rightarrow> nat list list \<Rightarrow> nat list list \<Rightarrow> nat list result" where
  "lift_sum eng ctx a b =
     guardR (a = [] \<or> length a \<noteq> length b) (LweShape ''lifted limb count mismatch'')
       (mapR (\<lambda>products. fold (\<lambda>x out. map2 (\<lambda>dst y. u64 (dst + y) mod lc_q ctx) out x) products (replicate (lc_d ctx) 0))
         (collectR (\<lambda>(x, y). lift_multiply eng ctx x y) (zip a b)))"

definition mul_mod_q :: "ntt_engine \<Rightarrow> nat list \<Rightarrow> nat list \<Rightarrow> nat \<Rightarrow> nat list result" where
  "mul_mod_q eng a b q =
     (case bindR (new_lift_context eng (length a) q) (\<lambda>ctx. lift_multiply eng ctx a b) of
        Inr c \<Rightarrow> Inr c
      | Inl _ \<Rightarrow> Inl (Panic ''valid lifted product''))"

definition leftover_sum :: "ntt_engine \<Rightarrow> nat list list \<Rightarrow> nat list list \<Rightarrow> nat \<Rightarrow> nat list result" where
  "leftover_sum eng a b q =
     guardR (a = []) (LweShape ''empty leftover'')
       (bindR (new_lift_context eng (length (hd a)) q) (\<lambda>ctx. lift_sum eng ctx a b))"

definition lifted_mul_mod_q :: "ntt_engine \<Rightarrow> nat list \<Rightarrow> nat list \<Rightarrow> nat \<Rightarrow> nat \<Rightarrow> nat list result" where
  "lifted_mul_mod_q eng a b q lift_q =
     (case Option.bind (checked_mul_u128 (length a) q) (\<lambda>x. checked_mul_u128 x q) of
        None \<Rightarrow> Inl (InvalidParams ''single lift modulus cannot reconstruct product'')
      | Some need \<Rightarrow>
          guardR (lift_q \<le> need) (InvalidParams ''single lift modulus cannot reconstruct product'')
            (bindR (new_lift_context eng (length a) q) (\<lambda>ctx. lift_multiply eng ctx a b)))"

section \<open>Model: prepared operands\<close>

definition max_abs :: "lift_context \<Rightarrow> nat list \<Rightarrow> nat" where
  "max_abs ctx poly = Max (set (map (\<lambda>x. nat \<bar>centered x (lc_q ctx)\<bar>) poly))"

definition prepare_right_primes ::
    "ntt_engine \<Rightarrow> lift_context \<Rightarrow> nat list list \<Rightarrow> nat \<Rightarrow> prepared_lift_right result" where
  "prepare_right_primes eng ctx b count =
     guardR (b = []) (LweShape ''empty prepared right operand'')
       (mapR (\<lambda>transforms. \<lparr>plr_d = lc_d ctx, plr_q = lc_q ctx, plr_transforms = transforms\<rparr>)
         (collectR (\<lambda>poly. mapR (\<lambda>_. map (\<lambda>m. lift_transform eng ctx m poly) (take count (lc_params ctx)))
            (validate_lift ctx poly)) b))"

definition prepare_right :: "ntt_engine \<Rightarrow> lift_context \<Rightarrow> nat list list \<Rightarrow> prepared_lift_right result" where
  "prepare_right eng ctx b = prepare_right_primes eng ctx b 3"

definition prepare_bounded_right ::
    "ntt_engine \<Rightarrow> lift_context \<Rightarrow> nat list list \<Rightarrow> nat \<Rightarrow> prepared_lift_right result" where
  "prepare_bounded_right eng ctx b left_bound =
     guardR (left_bound > lc_q ctx div 2) (InvalidParams ''invalid public left bound'')
       (let bound = 2 * lc_d ctx * left_bound * (lc_q ctx div 2);
            count = (if bound < PRIMES ! 0 * PRIMES ! 1 then 2 else 3)
        in prepare_right_primes eng ctx b count)"

definition prepare_public :: "ntt_engine \<Rightarrow> lift_context \<Rightarrow> nat list list \<Rightarrow> prepared_lift_operand result" where
  "prepare_public eng ctx a =
     guardR (a = []) (LweShape ''empty prepared operand'')
       (mapR (\<lambda>transforms.
           \<lparr>plo_d = lc_d ctx, plo_q = lc_q ctx, plo_transforms = transforms,
            plo_sum_fits_two =
              (case Option.bind (fold (\<lambda>poly sum. Option.bind sum (\<lambda>s. checked_add_u128 s (max_abs ctx poly))) a (Some 0))
                      (\<lambda>sum. checked_mul_u128 sum (2 * lc_d ctx * (lc_q ctx div 2))) of
                 None \<Rightarrow> False
               | Some bound \<Rightarrow> bound < PRIMES ! 0 * PRIMES ! 1)\<rparr>)
         (collectR (\<lambda>poly. mapR (\<lambda>_.
             let bound = 2 * lc_d ctx * max_abs ctx poly * (lc_q ctx div 2);
                 count = (if PRIMES ! 0 * PRIMES ! 1 > bound then 2 else 3)
             in map (\<lambda>m. lift_transform eng ctx m poly) (take count (lc_params ctx)))
            (validate_lift ctx poly)) a))"

definition prepare_public_dot ::
    "ntt_engine \<Rightarrow> lift_context \<Rightarrow> nat list list \<Rightarrow> nat \<Rightarrow> prepared_public_dot result" where
  "prepare_public_dot eng ctx a right_bound =
     guardR (a = [] \<or> right_bound > lc_q ctx div 2) (LweShape ''invalid public dot bound or shape'')
       (bindR (collectR (\<lambda>poly. mapR (\<lambda>_. max_abs ctx poly) (validate_lift ctx poly)) a) (\<lambda>maxima.
         case Option.bind (fold (\<lambda>m sum. Option.bind sum (\<lambda>s. checked_add_u128 s m)) maxima (Some 0)) (\<lambda>s.
                Option.bind (checked_mul_u128 s (lc_d ctx)) (\<lambda>x.
                Option.bind (checked_mul_u128 x right_bound) (\<lambda>x. checked_mul_u128 x 2))) of
           None \<Rightarrow> Inl (InvalidParams ''public dot bound overflow'')
         | Some need \<Rightarrow>
             guardR (\<not> need < PRIMES ! 0 * PRIMES ! 1 \<and> \<not> need < lc_product ctx)
               (InvalidParams ''insufficient public dot CRT capacity'')
               (let count = (if need < PRIMES ! 0 * PRIMES ! 1 then 2 else 3)
                in Inr \<lparr>ppd_d = lc_d ctx, ppd_q = lc_q ctx, ppd_right_bound = right_bound,
                        ppd_transforms = map (\<lambda>m. map (lift_transform eng ctx m) a) (take count (lc_params ctx))\<rparr>)))"

definition prepare_decode_masks ::
    "ntt_engine \<Rightarrow> lift_context \<Rightarrow> nat list list \<Rightarrow> nat \<Rightarrow> prepared_lift_operand result" where
  "prepare_decode_masks eng ctx masks support =
     bindR (prepare_public_dot eng ctx masks support) (\<lambda>dot.
       guardR (length (ppd_transforms dot) \<noteq> 2) (InvalidParams ''decoder requires two-prime capacity'')
         (Inr \<lparr>plo_d = lc_d ctx, plo_q = lc_q ctx,
               plo_transforms = map (\<lambda>i. map (\<lambda>p. p ! i) (ppd_transforms dot)) [0..<length masks],
               plo_sum_fits_two = True\<rparr>))"

definition prepare_decode_secret :: "ntt_engine \<Rightarrow> lift_context \<Rightarrow> nat list \<Rightarrow> bool \<Rightarrow> prepared_lift_right" where
  "prepare_decode_secret eng ctx secret conjugate =
     (let first = map (\<lambda>m. lift_transform eng ctx m secret) (take 2 (lc_params ctx))
      in \<lparr>plr_d = lc_d ctx, plr_q = lc_q ctx,
          plr_transforms = (if conjugate then [first, map rev first] else [first])\<rparr>)"

section \<open>Model: sums of products\<close>

definition add_reduce :: "nat \<Rightarrow> nat list \<Rightarrow> nat list \<Rightarrow> nat list" where
  "add_reduce m xs ys = map2 (\<lambda>dst x. let v = dst + x in if v \<ge> m then v - m else v) xs ys"

definition sum_cached_two ::
    "ntt_engine \<Rightarrow> lift_context \<Rightarrow> prepared_lift_operand \<Rightarrow> prepared_lift_right \<Rightarrow> nat list" where
  "sum_cached_two eng ctx a b =
     (let residues = map (\<lambda>j. let m = lc_params ctx ! j in
            from_ntt eng m (fold (\<lambda>(lhs, rhs) sum. add_reduce m sum (ntt_multiply eng m (lhs ! j) (rhs ! j)))
              (zip (plo_transforms a) (plr_transforms b)) (replicate (lc_d ctx) 0))) [0..<2]
      in map (\<lambda>i. reconstruct_two ctx (residues ! 0 ! i) (residues ! 1 ! i)) [0..<lc_d ctx])"

definition sum_cached_limb ::
    "ntt_engine \<Rightarrow> lift_context \<Rightarrow> nat list list \<times> nat list list \<Rightarrow> nat list \<Rightarrow> nat list" where
  "sum_cached_limb eng ctx limb result =
     (case limb of (left_primes, right_primes) \<Rightarrow>
        let residues = map (\<lambda>((m, lhs), rhs). from_ntt eng m (ntt_multiply eng m lhs rhs))
              (zip (zip (lc_params ctx) left_primes) right_primes);
            product = prod_list (take (length residues) PRIMES)
        in map (\<lambda>i. u64 (result ! i + rem_euclid (lift_signed product (reconstruct ctx residues i)) (lc_q ctx)) mod lc_q ctx)
             [0..<length result])"

definition sum_cached ::
    "ntt_engine \<Rightarrow> lift_context \<Rightarrow> prepared_lift_operand \<Rightarrow> prepared_lift_right \<Rightarrow> nat list result" where
  "sum_cached eng ctx a b =
     guardR (plo_d a \<noteq> lc_d ctx \<or> plr_d b \<noteq> lc_d ctx \<or> plo_q a \<noteq> lc_q ctx \<or> plr_q b \<noteq> lc_q ctx
         \<or> length (plo_transforms a) \<noteq> length (plr_transforms b)
         \<or> list_ex (\<lambda>(left, right). length left > length right) (zip (plo_transforms a) (plr_transforms b)))
       (LweShape ''cached operand mismatch'')
       (if plo_sum_fits_two a then Inr (sum_cached_two eng ctx a b)
        else Inr (fold (sum_cached_limb eng ctx) (zip (plo_transforms a) (plr_transforms b)) (replicate (lc_d ctx) 0)))"

fun sum_prepared_loop ::
    "ntt_engine \<Rightarrow> lift_context \<Rightarrow> (nat list list \<times> nat list) list \<Rightarrow> nat list \<Rightarrow> nat list result" where
  "sum_prepared_loop eng ctx [] result = Inr result"
| "sum_prepared_loop eng ctx ((primes, poly) # rest) result =
     bindR (validate_lift ctx poly) (\<lambda>_.
       let residues = map (\<lambda>(m, lhs). from_ntt eng m (ntt_multiply eng m lhs (lift_transform eng ctx m poly)))
             (zip (lc_params ctx) primes);
           product = prod_list (take (length primes) PRIMES)
       in sum_prepared_loop eng ctx rest
            (map (\<lambda>i. let sgnd = lift_signed product (reconstruct ctx residues i)
                      in if is_power_of_two (lc_q ctx) then wrapping_add (result ! i) (as_u64 sgnd) AND (lc_q ctx - 1)
                         else u64 (result ! i + rem_euclid sgnd (lc_q ctx)) mod lc_q ctx) [0..<length result]))"

definition sum_prepared ::
    "ntt_engine \<Rightarrow> lift_context \<Rightarrow> prepared_lift_operand \<Rightarrow> nat list list \<Rightarrow> nat list result" where
  "sum_prepared eng ctx a b =
     guardR (plo_d a \<noteq> lc_d ctx \<or> plo_q a \<noteq> lc_q ctx \<or> length (plo_transforms a) \<noteq> length b)
       (LweShape ''prepared operand mismatch'')
       (sum_prepared_loop eng ctx (zip (plo_transforms a) b) (replicate (lc_d ctx) 0))"

text \<open>The right operand of a public dot: bounded coefficients skip the division.\<close>

definition dot_raw :: "lift_context \<Rightarrow> nat \<Rightarrow> nat \<Rightarrow> nat list \<Rightarrow> nat list" where
  "dot_raw ctx right_bound m poly =
     map (\<lambda>x. let sgnd = centered x (lc_q ctx)
              in if right_bound < m then if sgnd < 0 then as_u64 (sgnd + int m) else as_u64 sgnd
                 else rem_euclid sgnd m) poly"

definition public_dot ::
    "ntt_engine \<Rightarrow> lift_context \<Rightarrow> prepared_public_dot \<Rightarrow> nat list list \<Rightarrow> nat list result" where
  "public_dot eng ctx a b =
     guardR (ppd_d a \<noteq> lc_d ctx \<or> ppd_q a \<noteq> lc_q ctx \<or> length (ppd_transforms a ! 0) \<noteq> length b)
       (LweShape ''public dot context or shape mismatch'')
       (bindR (collectR (\<lambda>poly. bindR (validate_lift ctx poly) (\<lambda>_.
            guardR (list_ex (\<lambda>x. nat \<bar>centered x (lc_q ctx)\<bar> > ppd_right_bound a) poly)
              (LweShape ''public dot coefficient exceeds bound'') (Inr ()))) b) (\<lambda>_.
         let residues = map (\<lambda>(m, operands). from_ntt eng m
               (fold (\<lambda>(lhs, rhs) sum. add_reduce m sum
                   (ntt_multiply eng m lhs (to_ntt eng m (dot_raw ctx (ppd_right_bound a) m rhs))))
                 (zip operands b) (replicate (lc_d ctx) 0))) (zip (lc_params ctx) (ppd_transforms a))
         in if length residues = 2
            then Inr (map (\<lambda>i. reconstruct_two ctx (residues ! 0 ! i) (residues ! 1 ! i)) [0..<lc_d ctx])
            else let product = prod_list (take (length residues) PRIMES)
                 in Inr (map (\<lambda>i. rem_euclid (lift_signed product (reconstruct ctx residues i)) (lc_q ctx)) [0..<lc_d ctx])))"

section \<open>Signed Chinese remaindering\<close>

definition good_ctx :: "lift_context \<Rightarrow> bool" where
  "good_ctx ctx \<longleftrightarrow> 2 \<le> lc_d ctx \<and> lc_d ctx \<le> 4096 \<and> is_power_of_two (lc_d ctx) \<and> 2 \<le> lc_q ctx \<and> lc_q ctx \<le> 2 ^ 56
     \<and> lc_d ctx * lc_q ctx * lc_q ctx < prod_list PRIMES \<and> lc_params ctx = PRIMES \<and> lc_product ctx = prod_list PRIMES
     \<and> lc_inverses ctx ! 0 < PRIMES ! 1 \<and> PRIMES ! 0 * lc_inverses ctx ! 0 mod PRIMES ! 1 = 1
     \<and> lc_inverses ctx ! 1 < PRIMES ! 2 \<and> PRIMES ! 0 * PRIMES ! 1 * lc_inverses ctx ! 1 mod PRIMES ! 2 = 1"

lemma primes_simps:
  "PRIMES ! 0 = 4398046568449" "PRIMES ! Suc 0 = 4398046666753" "PRIMES ! 2 = 4398046781441" "length PRIMES = 3"
  "take 2 PRIMES = [4398046568449, 4398046666753]" "take 3 PRIMES = PRIMES"
  by (simp_all add: PRIMES_def)

lemma inverse_coprime: "m * w mod p = 1 \<Longrightarrow> 1 < p \<Longrightarrow> coprime m p" for m w p :: nat
proof (rule coprimeI)
  fix c assume "m * w mod p = 1" and "c dvd m" and "c dvd p"
  then show "is_unit c" by (metis dvd_mod dvd_mult2)
qed

lemma eqm_coprime_mult: "coprime m p \<Longrightarrow> eqm m x y \<Longrightarrow> eqm p x y \<Longrightarrow> eqm (m * p) x y"
  by (simp add: eqm_def divides_mult coprime_int_iff)

text \<open>One step of Garner's loop extends a residue modulo \<open>m\<close> to one modulo \<open>m * p\<close>.\<close>

lemma garner_step:
  assumes x: "x < m" "eqm m (int x) S" and r: "r < p" "eqm p (int r) S"
    and w: "w < p" "m * w mod p = 1" and "1 < p" and "p < 2 ^ 64" and "m * p < 2 ^ 128"
  defines "x' \<equiv> x + m * ((r + p - x mod p) mod p * w mod p)"
  shows "garner ((p, r, w) # rest) x m = garner rest x' (m * p)" and "x' < m * p" and "eqm (m * p) (int x') S"
proof -
  let ?delta = "(r + p - x mod p) mod p"
  let ?t = "?delta * w mod p"
  have t: "?t \<le> p - 1" "?delta < p" using assms(7) by (simp_all add: less_Suc_eq_le [symmetric])
  have "x' < m + m * (p - 1)" unfolding x'_def by (intro add_less_le_mono x(1) mult_le_mono2 t(1))
  also have "m + m * (p - 1) = m * p" using assms(7) by (cases p) simp_all
  finally show less: "x' < m * p" .
  have "?delta * w \<le> p * p" using t(2) w(1) by (intro mult_le_mono) simp_all
  also have "\<dots> < 2 ^ 64 * 2 ^ 64" using assms(8) by (intro mult_strict_mono) simp_all
  finally have "u128 (?delta * w) = ?delta * w" by (intro u128_id) simp
  moreover have "u128 x' = x'" "u128 (m * p) = m * p" using less assms(9) by (simp_all add: u128_id)
  moreover have "u128 (m * ?t) = m * ?t" using less assms(9) by (intro u128_id) (simp add: x'_def)
  ultimately show "garner ((p, r, w) # rest) x m = garner rest x' (m * p)"
    by (simp add: Let_def x'_def)
  have "eqm m (int x' ) (int x)" by (simp add: x'_def eqm_def)
  then have m: "eqm m (int x') S" using x(2) by (rule eqm_trans)
  have "eqm p (int ?t) (int ?delta * int w)" using eqm_nat_mod [of p "?delta * w"] by simp
  moreover have "eqm p (int ?delta) (int r - int x)"
  proof -
    have "eqm p (int ?delta) (int (r + p - x mod p))" by (rule eqm_nat_mod)
    also have "int (r + p - x mod p) = int r + int p - int (x mod p)"
      using assms(7) by (simp add: of_nat_diff trans_le_add2 less_imp_le)
    also have "eqm p \<dots> (int r + 0 - int x)"
      by (intro eqm_diff eqm_add eqm_nat_mod) (simp_all add: eqm_def)
    finally show ?thesis by simp
  qed
  ultimately have "eqm p (int ?t) ((int r - int x) * int w)" using eqm_trans [OF _ eqm_mult [OF _ eqm_refl]] by blast
  then have "eqm p (int x') (int x + int m * ((int r - int x) * int w))"
    by (simp add: x'_def eqm_add eqm_mult del: of_nat_mod)
  also have "\<dots> = int x + (int m * int w) * (int r - int x)" by simp
  also have "eqm p \<dots> (int x + 1 * (int r - int x))"
  proof (intro eqm_add eqm_mult eqm_refl)
    show "eqm p (int m * int w) 1" using eqm_sym [OF eqm_nat_mod [of p "m * w"]] by (simp add: w(2))
  qed
  finally have "eqm p (int x') S" using eqm_trans [OF _ r(2)] by simp
  then show "eqm (m * p) (int x') S" using m inverse_coprime [OF w(2) assms(7)] by (intro eqm_coprime_mult)
qed

lemma lift_signed_ok:
  assumes "x < P" and "eqm P (int x) S" and "2 * \<bar>S\<bar> < int P" and "P < 2 ^ 127"
  shows "lift_signed P x = S"
proof -
  have "int x = S mod int P" using assms(1,2) by (simp add: eqm_mod_iff)
  also have "\<dots> = (if 0 \<le> S then S else S + int P)"
  proof (cases "0 \<le> S")
    case False
    have "S mod int P = (S + int P) mod int P" by simp
    also have "\<dots> = S + int P" using False assms(3) by (intro mod_pos_pos_trivial) simp_all
    finally show ?thesis using False by simp
  qed (use assms(3) in simp)
  finally have x: "int x = (if 0 \<le> S then S else S + int P)" .
  have "i128 (int x) = int x" "i128 (int P) = int P" using assms(1,4) by (simp_all add: i128_id)
  moreover have "x > P div 2 \<longleftrightarrow> S < 0" using x assms(3) by (auto split: if_splits)
  ultimately show ?thesis using x by (cases "S < 0") (simp_all add: lift_signed_def)
qed

lemma primes_bounds:
  "1 < PRIMES ! 1" "PRIMES ! 1 < 2 ^ 64" "PRIMES ! 0 * PRIMES ! 1 < 2 ^ 128"
  "1 < PRIMES ! 2" "PRIMES ! 2 < 2 ^ 64" "PRIMES ! 0 * PRIMES ! 1 * PRIMES ! 2 < 2 ^ 128"
  by (simp_all add: PRIMES_def)

lemma primes_products:
  "prod_list (take 2 PRIMES) = PRIMES ! 0 * PRIMES ! 1" "prod_list (take 3 PRIMES) = PRIMES ! 0 * PRIMES ! 1 * PRIMES ! 2"
  by (simp_all add: PRIMES_def)

lemma reconstruct_unfold:
  "length residues = 2 \<Longrightarrow> reconstruct ctx residues i
     = garner [(PRIMES ! 1, residues ! 1 ! i, lc_inverses ctx ! 0)] (residues ! 0 ! i) (PRIMES ! 0)"
  "length residues = 3 \<Longrightarrow> reconstruct ctx residues i
     = garner [(PRIMES ! 1, residues ! 1 ! i, lc_inverses ctx ! 0), (PRIMES ! 2, residues ! 2 ! i, lc_inverses ctx ! 1)]
         (residues ! 0 ! i) (PRIMES ! 0)"
proof -
  have "[1..<2] = [1::nat]" "[1..<3] = [1, 2::nat]" "(1::nat) - 1 = 0" "(2::nat) - 1 = 1" by (simp_all add: upt_rec)
  then show "length residues = 2 \<Longrightarrow> reconstruct ctx residues i
     = garner [(PRIMES ! 1, residues ! 1 ! i, lc_inverses ctx ! 0)] (residues ! 0 ! i) (PRIMES ! 0)"
    "length residues = 3 \<Longrightarrow> reconstruct ctx residues i
     = garner [(PRIMES ! 1, residues ! 1 ! i, lc_inverses ctx ! 0), (PRIMES ! 2, residues ! 2 ! i, lc_inverses ctx ! 1)]
         (residues ! 0 ! i) (PRIMES ! 0)"
    by (simp_all only: reconstruct_def list.map)
qed

lemma reconstruct_ok:
  assumes good: "good_ctx ctx" and n: "length residues = 2 \<or> length residues = 3"
    and res: "\<And>j. j < length residues \<Longrightarrow> residues ! j ! i < PRIMES ! j \<and> eqm (PRIMES ! j) (int (residues ! j ! i)) S"
  shows "reconstruct ctx residues i < prod_list (take (length residues) PRIMES)
    \<and> eqm (prod_list (take (length residues) PRIMES)) (int (reconstruct ctx residues i)) S"
proof -
  let ?r = "\<lambda>j. residues ! j ! i" and ?p = "\<lambda>j. PRIMES ! j" and ?w = "lc_inverses ctx"
  have inv: "?w ! 0 < ?p 1" "?p 0 * ?w ! 0 mod ?p 1 = 1" "?w ! 1 < ?p 2" "?p 0 * ?p 1 * ?w ! 1 mod ?p 2 = 1"
    using good unfolding good_ctx_def by simp_all
  have "0 < length residues" "1 < length residues" using n by auto
  then have r: "?r 0 < ?p 0" "eqm (?p 0) (int (?r 0)) S" "?r 1 < ?p 1" "eqm (?p 1) (int (?r 1)) S" using res by blast+
  note s1 = garner_step [OF r inv(1,2) primes_bounds(1-3)]
  from n show ?thesis
  proof
    assume two: "length residues = 2"
    show ?thesis
      unfolding two primes_products reconstruct_unfold(1) [OF two] s1(1) garner.simps(1) using s1(2,3) by (rule conjI)
  next
    assume three: "length residues = 3"
    then have r2: "?r 2 < ?p 2" "eqm (?p 2) (int (?r 2)) S" using res [of 2] by simp_all
    note s2 = garner_step [OF s1(2,3) r2 inv(3,4) primes_bounds(4-6)]
    show ?thesis
      unfolding three primes_products reconstruct_unfold(2) [OF three] s1(1) s2(1) garner.simps(1) using s2(2,3) by (rule conjI)
  qed
qed

lemma reconstruct_two_ok:
  assumes good: "good_ctx ctx" and r: "r0 < PRIMES ! 0" "eqm (PRIMES ! 0) (int r0) S"
    "r1 < PRIMES ! 1" "eqm (PRIMES ! 1) (int r1) S" and S: "2 * \<bar>S\<bar> < int (PRIMES ! 0 * PRIMES ! 1)"
  shows "reconstruct_two ctx r0 r1 = rem_euclid S (lc_q ctx)"
proof -
  have inv: "lc_inverses ctx ! 0 < PRIMES ! 1" "PRIMES ! 0 * lc_inverses ctx ! 0 mod PRIMES ! 1 = 1"
    using good unfolding good_ctx_def by simp_all
  note s = garner_step(1) [OF r inv primes_bounds(1-3), of "[]"] garner_step(2,3) [OF r inv primes_bounds(1-3)]
  let ?delta0 = "r1 + PRIMES ! 1 - r0"
  have "r0 < PRIMES ! 1" using r(1) by (simp add: PRIMES_def)
  then have "r0 mod PRIMES ! 1 = r0" "(r1 + PRIMES ! 1 - r0) mod PRIMES ! 1
      = (if ?delta0 \<ge> PRIMES ! 1 then ?delta0 - PRIMES ! 1 else ?delta0)"
    using r(3) by (simp_all add: le_mod_geq)
  then have x: "u128 (r0 + u128 (PRIMES ! 0 * (u128 ((if ?delta0 \<ge> PRIMES ! 1 then ?delta0 - PRIMES ! 1 else ?delta0)
      * lc_inverses ctx ! 0) mod PRIMES ! 1)))
      = r0 + PRIMES ! 0 * ((r1 + PRIMES ! 1 - r0 mod PRIMES ! 1) mod PRIMES ! 1 * lc_inverses ctx ! 0 mod PRIMES ! 1)"
    using s(1) by (simp only: garner.simps Let_def)
  have sg: "lift_signed (PRIMES ! 0 * PRIMES ! 1) (r0 + PRIMES ! 0 * ((r1 + PRIMES ! 1 - r0 mod PRIMES ! 1) mod PRIMES ! 1
      * lc_inverses ctx ! 0 mod PRIMES ! 1)) = S"
    by (rule lift_signed_ok [OF s(2,3) S]) (simp add: PRIMES_def)
  show ?thesis
    unfolding reconstruct_two_def Let_def x sg by (simp add: as_u64_mask del: One_nat_def)
qed

section \<open>The integer product behind the transforms\<close>

text \<open>The negacyclic product of integer polynomials, coefficient \<open>k\<close>.\<close>

definition nega_prod :: "int list \<Rightarrow> int list \<Rightarrow> nat \<Rightarrow> int" where
  "nega_prod a b k = (\<Sum>j<length b. b ! j * (if j \<le> k then a ! (k - j) else - a ! (k + length a - j)))"

definition centred :: "nat \<Rightarrow> nat list \<Rightarrow> int list" where
  "centred q p = map (\<lambda>x. centered x q) p"

lemma length_centred [simp]: "length (centred q p) = length p"
  by (simp add: centred_def)

lemma nth_centred [simp]: "i < length p \<Longrightarrow> centred q p ! i = centered (p ! i) q"
  by (simp add: centred_def)

lemma centered_eqm: "eqm q (int x) (centered x q)"
  by (simp add: centered_def eqm_def)

lemma centered_bound: "x < q \<Longrightarrow> \<bar>centered x q\<bar> \<le> int (q div 2)"
  by (auto simp: centered_def)

lemma nega_prod_bound:
  assumes "length a = d" and "length b = d" and "k < d"
    and "\<And>i. i < d \<Longrightarrow> \<bar>a ! i\<bar> \<le> A" and "\<And>i. i < d \<Longrightarrow> \<bar>b ! i\<bar> \<le> B"
  shows "\<bar>nega_prod a b k\<bar> \<le> int d * (A * B)"
proof -
  have A: "0 \<le> A" using assms(3) assms(4) [of k] by (meson abs_ge_zero order_trans)
  have "\<bar>nega_prod a b k\<bar> \<le> (\<Sum>j<d. \<bar>b ! j * (if j \<le> k then a ! (k - j) else - a ! (k + d - j))\<bar>)"
    unfolding nega_prod_def assms(1,2) by (rule sum_abs)
  also have "\<dots> \<le> (\<Sum>j<d. B * A)"
  proof (rule sum_mono)
    fix j assume j: "j \<in> {..<d}"
    have "\<bar>if j \<le> k then a ! (k - j) else - a ! (k + d - j)\<bar> \<le> A"
      using assms(3) j by (auto intro!: assms(4))
    then show "\<bar>b ! j * (if j \<le> k then a ! (k - j) else - a ! (k + d - j))\<bar> \<le> B * A"
      unfolding abs_mult using assms(5) [of j] j A by (intro mult_mono) auto
  qed
  finally show ?thesis by (simp add: mult.commute)
qed

text \<open>Modulo \<open>m\<close> it is the reference product of any polynomials with these residues.\<close>

lemma nega_prod_schoolbook:
  assumes a: "canon m d a'" and b: "canon m d b'" and len: "length a = d" "length b = d" and "k < d"
    and "\<And>i. i < d \<Longrightarrow> eqm m (int (a' ! i)) (a ! i)" and "\<And>i. i < d \<Longrightarrow> eqm m (int (b' ! i)) (b ! i)"
  shows "eqm m (int (schoolbook_negacyclic a' b' m ! k)) (nega_prod a b k)"
proof (rule eqm_trans [OF schoolbook_negacyclic_nth(2) [OF a b \<open>k < d\<close>]])
  have d: "length a' = d" using canonD [OF a] by simp
  show "eqm m (\<Sum>j<d. int (b' ! j) * ext a' (int k - int j)) (nega_prod a b k)"
    unfolding nega_prod_def len
  proof (intro eqm_sum eqm_mult)
    fix j assume "j \<in> {..<d}"
    then have j: "j < d" by simp
    show "eqm m (int (b' ! j)) (b ! j)" using assms(7) j by simp
    show "eqm m (ext a' (int k - int j)) (if j \<le> k then a ! (k - j) else - a ! (k + d - j))"
    proof (cases "j \<le> k")
      case True
      then show ?thesis using ext_nth [of "k - j" a'] assms(5,6) d by (simp add: of_nat_diff)
    next
      case False
      then have "ext a' (int k - int j) = - int (a' ! (k + d - j))"
        using ext_neg_index [of "j - k" a'] j d by (simp add: of_nat_diff add.commute)
      then show ?thesis using False \<open>k < d\<close> assms(6) [of "k + d - j"] j by (simp add: eqm_minus)
    qed
  qed
qed

section \<open>What is assumed of the transforms\<close>

text \<open>For each auxiliary prime: transforming, multiplying pointwise and transforming back is the
  negacyclic product; the inverse transform is additive on canonical vectors; and
  \<open>invert_uint_mod\<close> returns modular inverses, under every modulus greater than one.\<close>

definition ntt_laws :: "ntt_engine \<Rightarrow> nat \<Rightarrow> bool" where
  "ntt_laws eng d \<longleftrightarrow>
     (\<forall>m\<in>set PRIMES.
        (\<forall>a b. canon m d a \<and> canon m d b \<longrightarrow>
           canon m d (ntt_multiply eng m (to_ntt eng m a) (to_ntt eng m b))
           \<and> from_ntt eng m (ntt_multiply eng m (to_ntt eng m a) (to_ntt eng m b)) = schoolbook_negacyclic a b m)
        \<and> (\<forall>x y. canon m d x \<and> canon m d y \<longrightarrow> canon m d (from_ntt eng m x)
           \<and> from_ntt eng m (add_reduce m x y) = add_reduce m (from_ntt eng m x) (from_ntt eng m y)))
     \<and> (\<forall>x m w. 1 < m \<longrightarrow> invert_uint_mod eng x m = Some w \<longrightarrow> w < m \<and> x * w mod m = 1)"

lemma new_lift_context_good:
  assumes "ntt_laws eng d" and "new_lift_context eng d q = Inr ctx"
  shows "good_ctx ctx" "lc_d ctx = d" "lc_q ctx = q"
proof -
  have law: "invert_uint_mod eng x m = Some w \<Longrightarrow> w < m \<and> x * w mod m = 1" if "1 < m" for x m w
    using assms(1) that by (simp add: ntt_laws_def)
  have primes: "1 < PRIMES ! 1" "1 < PRIMES ! 2" by (simp_all add: PRIMES_def)
  obtain need i1 i2 where ok: "2 \<le> d" "d \<le> 4096" "is_power_of_two d" "2 \<le> q" "q \<le> 2 ^ 56"
    "Option.bind (checked_mul_u128 d q) (\<lambda>x. checked_mul_u128 x q) = Some need" "need < prod_list PRIMES"
    "invert_uint_mod eng (PRIMES ! 0 mod PRIMES ! 1) (PRIMES ! 1) = Some i1"
    "invert_uint_mod eng (PRIMES ! 0 * PRIMES ! 1 mod PRIMES ! 2) (PRIMES ! 2) = Some i2"
    "ctx = \<lparr>lc_d = d, lc_q = q, lc_params = PRIMES, lc_product = prod_list PRIMES, lc_inverses = [i1, i2]\<rparr>"
    using assms(2) by (auto simp: new_lift_context_def guardR_def Let_def not_le split: if_splits option.splits)
  then have "need = d * q * q" by (auto simp: checked_mul_u128_def split: if_splits Option.bind_splits)
  moreover have "PRIMES ! 0 * i1 mod PRIMES ! 1 = 1" "PRIMES ! 0 * PRIMES ! 1 * i2 mod PRIMES ! 2 = 1"
    using law [OF primes(1) ok(8)] law [OF primes(2) ok(9)] by (simp_all only: mod_mult_left_eq)
  ultimately show "good_ctx ctx" "lc_d ctx = d" "lc_q ctx = q"
    using ok law [OF primes(1) ok(8)] law [OF primes(2) ok(9)] by (simp_all add: good_ctx_def)
qed

section \<open>Exactness of the residues\<close>

definition lift_valid :: "lift_context \<Rightarrow> nat list \<Rightarrow> bool" where
  "lift_valid ctx p \<longleftrightarrow> length p = lc_d ctx \<and> all_below (lc_q ctx) p"

lemma validate_lift_iff: "validate_lift ctx p = (if lift_valid ctx p then Inr ()
    else Inl (LweShape ''noncanonical lifted polynomial or wrong degree''))"
  by (auto simp: validate_lift_def lift_valid_def guardR_def list_ex_iff all_below_set not_less)

lemma validate_lift_ok [simp]: "lift_valid ctx p \<Longrightarrow> validate_lift ctx p = Inr ()"
  by (simp add: validate_lift_iff)

lemma good_ctxD:
  assumes "good_ctx ctx"
  shows "0 < lc_d ctx" "lc_q ctx \<le> 2 ^ 56" "0 < lc_q ctx" "lc_params ctx = PRIMES" "lc_product ctx = prod_list PRIMES"
  using assms by (auto simp: good_ctx_def)

lemma primes_range: "m \<in> set PRIMES \<Longrightarrow> 0 < m \<and> m \<le> 2 ^ 62"
  by (auto simp: PRIMES_def)

lemma rem_euclid_less: "0 < m \<Longrightarrow> rem_euclid x m < m"
  by (simp add: rem_euclid_def nat_less_iff)

lemma rem_euclid_eqm: "0 < m \<Longrightarrow> eqm m (int (rem_euclid x m)) x"
  by (simp add: rem_euclid_def)

lemma rem_euclid_unique: "r < m \<Longrightarrow> eqm m (int r) x \<Longrightarrow> rem_euclid x m = r"
  by (rule eqm_nat_eq [of m]) (auto intro: eqm_trans [OF rem_euclid_eqm eqm_sym] rem_euclid_less)

lemma valid_canon: "good_ctx ctx \<Longrightarrow> lift_valid ctx p \<Longrightarrow> canon (lc_q ctx) (lc_d ctx) p"
  by (auto simp: good_ctx_def lift_valid_def canon_def)

lemma lift_raw_ok:
  assumes "good_ctx ctx" and "lift_valid ctx p" and "m \<in> set PRIMES"
  shows "canon m (lc_d ctx) (lift_raw ctx m p)"
    and "i < lc_d ctx \<Longrightarrow> eqm m (int (lift_raw ctx m p ! i)) (centred (lc_q ctx) p ! i)"
proof -
  have m: "0 < m" "m \<le> 2 ^ 62" using primes_range [OF assms(3)] by simp_all
  have len: "length p = lc_d ctx" using assms(2) by (simp add: lift_valid_def)
  show "canon m (lc_d ctx) (lift_raw ctx m p)"
    using m good_ctxD(1) [OF assms(1)] len by (auto simp: canon_def lift_raw_def all_below_set rem_euclid_less)
  show "i < lc_d ctx \<Longrightarrow> eqm m (int (lift_raw ctx m p ! i)) (centred (lc_q ctx) p ! i)"
    using len m rem_euclid_eqm by (simp add: lift_raw_def)
qed

text \<open>One product.\<close>

lemma product_residue:
  assumes laws: "ntt_laws eng (lc_d ctx)" and good: "good_ctx ctx" and a: "lift_valid ctx a"
    and b: "canon m (lc_d ctx) b'" "\<And>i. i < lc_d ctx \<Longrightarrow> eqm m (int (b' ! i)) (c ! i)" "length c = lc_d ctx"
    and m: "m \<in> set PRIMES" and k: "k < lc_d ctx"
  defines "v \<equiv> ntt_multiply eng m (lift_transform eng ctx m a) (to_ntt eng m b')"
  shows "canon m (lc_d ctx) v" and "from_ntt eng m v ! k < m"
    and "eqm m (int (from_ntt eng m v ! k)) (nega_prod (centred (lc_q ctx) a) c k)"
proof -
  note A = lift_raw_ok [OF good a m]
  have v: "canon m (lc_d ctx) v" "from_ntt eng m v = schoolbook_negacyclic (lift_raw ctx m a) b' m"
    using laws m A(1) b(1) by (auto simp: ntt_laws_def v_def lift_transform_def)
  show "canon m (lc_d ctx) v" by (rule v)
  show "from_ntt eng m v ! k < m" unfolding v(2) by (rule canonD(6) [OF schoolbook_negacyclic_nth(1) [OF A(1) b(1)] k])
  show "eqm m (int (from_ntt eng m v ! k)) (nega_prod (centred (lc_q ctx) a) c k)"
    unfolding v(2) using a by (intro nega_prod_schoolbook [OF A(1) b(1)] A(2) b(2) k) (simp_all add: lift_valid_def b(3))
qed

lemma transform_residue:
  assumes "ntt_laws eng (lc_d ctx)" and "good_ctx ctx" and "lift_valid ctx a" and "lift_valid ctx b"
    and "m \<in> set PRIMES" and "k < lc_d ctx"
  defines "v \<equiv> ntt_multiply eng m (lift_transform eng ctx m a) (lift_transform eng ctx m b)"
  shows "canon m (lc_d ctx) v" and "from_ntt eng m v ! k < m"
    and "eqm m (int (from_ntt eng m v ! k)) (nega_prod (centred (lc_q ctx) a) (centred (lc_q ctx) b) k)"
  using product_residue [OF assms(1-3) lift_raw_ok [OF assms(2,4,5)] _ assms(5,6)] assms(4)
  unfolding v_def lift_transform_def lift_valid_def by simp_all

text \<open>A sum accumulated in the transform domain.\<close>

lemma add_reduce_nth:
  assumes "canon m d x" and "canon m d y"
  shows "canon m d (add_reduce m x y)" and "k < d \<Longrightarrow> eqm m (int (add_reduce m x y ! k)) (int (x ! k) + int (y ! k))"
proof -
  have len: "length x = d" "length y = d" using assms by (auto dest: canonD)
  have "add_reduce m x y ! i < m" if "i < d" for i
    using canonD(6) [OF assms(1) that] canonD(6) [OF assms(2) that] len that by (auto simp: add_reduce_def Let_def)
  moreover have "length (add_reduce m x y) = d" using len by (simp add: add_reduce_def)
  ultimately show "canon m d (add_reduce m x y)"
    using canonD [OF assms(1)] by (auto simp: canon_def all_below_set in_set_conv_nth)
  show "k < d \<Longrightarrow> eqm m (int (add_reduce m x y ! k)) (int (x ! k) + int (y ! k))"
    using len by (auto simp: add_reduce_def Let_def eqm_def of_nat_diff)
qed

lemma from_ntt_zero:
  assumes "ntt_laws eng d" and "m \<in> set PRIMES" and "0 < d" and "k < d"
  shows "canon m d (replicate d 0)" and "from_ntt eng m (replicate d 0) ! k = 0"
proof -
  have m: "0 < m" "m \<le> 2 ^ 62" using primes_range [OF assms(2)] by simp_all
  then show z: "canon m d (replicate d 0)" using assms(3) by (auto simp: canon_def all_below_set)
  have "add_reduce m (replicate d 0) (replicate d 0) = replicate d 0"
    using m by (simp add: add_reduce_def zip_replicate)
  then have F: "canon m d (from_ntt eng m (replicate d 0))"
    "from_ntt eng m (replicate d 0) = add_reduce m (from_ntt eng m (replicate d 0)) (from_ntt eng m (replicate d 0))"
    using assms(1,2) z unfolding ntt_laws_def by metis+
  let ?x = "from_ntt eng m (replicate d 0) ! k"
  have "eqm m (int ?x) (int ?x + int ?x)" using add_reduce_nth(2) [OF F(1) F(1) assms(4)] F(2) by simp
  then have "eqm m (int 0) (int ?x)" by (simp add: eqm_def)
  then show "?x = 0" using eqm_nat_eq [of m 0 ?x] canonD(6) [OF F(1) assms(4)] m by simp
qed

lemma fold_add_reduce:
  assumes laws: "ntt_laws eng d" and m: "m \<in> set PRIMES" and k: "k < d"
    and "canon m d acc" and "eqm m (int (from_ntt eng m acc ! k)) s"
    and "\<And>z. z \<in> set zs \<Longrightarrow> canon m d (g z) \<and> eqm m (int (from_ntt eng m (g z) ! k)) (h z)"
  shows "canon m d (fold (\<lambda>z acc. add_reduce m acc (g z)) zs acc)
    \<and> eqm m (int (from_ntt eng m (fold (\<lambda>z acc. add_reduce m acc (g z)) zs acc) ! k)) (s + (\<Sum>z\<leftarrow>zs. h z))"
  using assms(4-6)
proof (induction zs arbitrary: acc s)
  case (Cons z zs)
  have z: "canon m d (g z)" "eqm m (int (from_ntt eng m (g z) ! k)) (h z)" using Cons.prems(3) [of z] by simp_all
  have F: "canon m d (from_ntt eng m acc)" "canon m d (from_ntt eng m (g z))"
    "from_ntt eng m (add_reduce m acc (g z)) = add_reduce m (from_ntt eng m acc) (from_ntt eng m (g z))"
    using laws m Cons.prems(1) z(1) unfolding ntt_laws_def by metis+
  have "eqm m (int (from_ntt eng m (add_reduce m acc (g z)) ! k)) (s + h z)"
    unfolding F(3) using eqm_trans [OF add_reduce_nth(2) [OF F(1,2) k] eqm_add [OF Cons.prems(2) z(2)]] .
  then show ?case
    using Cons.IH [OF add_reduce_nth(1) [OF Cons.prems(1) z(1)], of "s + h z"] Cons.prems(3) by (simp add: add.assoc)
qed simp

section \<open>Exact products\<close>

lemma schoolbook_rem:
  assumes good: "good_ctx ctx" and a: "lift_valid ctx a" and b: "lift_valid ctx b" and "k < lc_d ctx"
    and "length c = lc_d ctx" and "\<And>i. i < lc_d ctx \<Longrightarrow> eqm (lc_q ctx) (int (b ! i)) (c ! i)"
  shows "schoolbook_negacyclic a b (lc_q ctx) ! k = rem_euclid (nega_prod (centred (lc_q ctx) a) c k) (lc_q ctx)"
proof (rule sym, rule rem_euclid_unique)
  note A = valid_canon [OF good a] and B = valid_canon [OF good b]
  show "schoolbook_negacyclic a b (lc_q ctx) ! k < lc_q ctx"
    by (rule canonD(6) [OF schoolbook_negacyclic_nth(1) [OF A B] assms(4)])
  show "eqm (lc_q ctx) (int (schoolbook_negacyclic a b (lc_q ctx) ! k)) (nega_prod (centred (lc_q ctx) a) c k)"
    using a b assms(5,6) by (intro nega_prod_schoolbook [OF A B] assms(4)) (simp_all add: lift_valid_def centered_eqm)
qed

lemma valid_centred: "lift_valid ctx p \<Longrightarrow> i < lc_d ctx \<Longrightarrow> eqm (lc_q ctx) (int (p ! i)) (centred (lc_q ctx) p ! i)"
  by (simp add: lift_valid_def centered_eqm)

lemma valid_bound: "lift_valid ctx p \<Longrightarrow> i < lc_d ctx \<Longrightarrow> \<bar>centred (lc_q ctx) p ! i\<bar> \<le> int (lc_q ctx div 2)"
  by (auto simp: lift_valid_def intro!: centered_bound dest: all_below_nth)

lemma max_abs_bound: "lift_valid ctx p \<Longrightarrow> i < lc_d ctx \<Longrightarrow> \<bar>centred (lc_q ctx) p ! i\<bar> \<le> int (max_abs ctx p)"
proof -
  assume p: "lift_valid ctx p" "i < lc_d ctx"
  then have "nat \<bar>centered (p ! i) (lc_q ctx)\<bar> \<le> max_abs ctx p"
    unfolding max_abs_def by (intro Max_ge) (auto simp: lift_valid_def)
  then show ?thesis using p by (simp add: lift_valid_def nat_le_iff)
qed

lemma max_abs_le: "lift_valid ctx p \<Longrightarrow> 0 < lc_d ctx \<Longrightarrow> max_abs ctx p \<le> lc_q ctx div 2"
  unfolding max_abs_def
  by (intro Max.boundedI) (auto simp: lift_valid_def nat_le_iff all_below_set intro!: centered_bound)

text \<open>Any product fits the three primes.\<close>

lemma product_capacity:
  assumes "good_ctx ctx" and "A \<le> lc_q ctx div 2" and "B \<le> lc_q ctx div 2"
  shows "2 * (lc_d ctx * (A * B)) < prod_list PRIMES"
proof -
  let ?d = "lc_d ctx" and ?q = "lc_q ctx"
  have "2 * (?d * (A * B)) = ?d * (2 * A) * B" by simp
  also have "\<dots> \<le> ?d * ?q * ?q" using assms(2,3) by (intro mult_le_mono) simp_all
  finally show ?thesis using assms(1) unfolding good_ctx_def by linarith
qed

lemma lift_multiply_ok:
  assumes laws: "ntt_laws eng (lc_d ctx)" and good: "good_ctx ctx" and a: "lift_valid ctx a" and b: "lift_valid ctx b"
  shows "lift_multiply eng ctx a b = Inr (schoolbook_negacyclic a b (lc_q ctx))"
proof -
  let ?q = "lc_q ctx" and ?d = "lc_d ctx"
  let ?res = "map (\<lambda>m. from_ntt eng m (ntt_multiply eng m (lift_transform eng ctx m a) (lift_transform eng ctx m b))) PRIMES"
  have "rem_euclid (lift_signed (prod_list PRIMES) (reconstruct ctx ?res k)) ?q = schoolbook_negacyclic a b ?q ! k" if k: "k < ?d" for k
  proof -
    let ?S = "nega_prod (centred ?q a) (centred ?q b) k"
    have "\<bar>?S\<bar> \<le> int ?d * (int (?q div 2) * int (?q div 2))"
      using a b by (intro nega_prod_bound k valid_bound) (simp_all add: lift_valid_def)
    moreover have "2 * (?d * (?q div 2 * (?q div 2))) < prod_list PRIMES" by (rule product_capacity [OF good]) simp_all
    then have "2 * (int ?d * (int (?q div 2) * int (?q div 2))) < int (prod_list PRIMES)"
      unfolding of_nat_mult [symmetric] by linarith
    ultimately have S: "2 * \<bar>?S\<bar> < int (prod_list PRIMES)" by linarith
    have R: "reconstruct ctx ?res k < prod_list PRIMES" "eqm (prod_list PRIMES) (int (reconstruct ctx ?res k)) ?S"
      using reconstruct_ok [OF good, of ?res k ?S] transform_residue(2,3) [OF laws good a b _ k] by (simp_all add: primes_simps)
    have "lift_signed (prod_list PRIMES) (reconstruct ctx ?res k) = ?S"
      by (rule lift_signed_ok [OF R S]) (simp add: PRIMES_def)
    then show ?thesis
      using schoolbook_rem [OF good a b k _ valid_centred [OF b]] b by (simp add: lift_valid_def)
  qed
  moreover have "length (schoolbook_negacyclic a b ?q) = ?d"
    by (rule canonD(4) [OF schoolbook_negacyclic_nth(1) [OF valid_canon [OF good a] valid_canon [OF good b]]])
  ultimately have "map (\<lambda>k. rem_euclid (lift_signed (prod_list PRIMES) (reconstruct ctx ?res k)) ?q) [0..<?d]
      = schoolbook_negacyclic a b ?q"
    by (intro nth_equalityI) simp_all
  then show ?thesis
    using a b good_ctxD(4,5) [OF good] by (simp add: lift_multiply_def Let_def bindR_def)
qed

section \<open>Exact sums of products\<close>

text \<open>The reference: a sum of ring products modulo \<open>q\<close>.\<close>

definition ring_dot :: "nat \<Rightarrow> nat \<Rightarrow> nat list list \<Rightarrow> nat list list \<Rightarrow> nat list" where
  "ring_dot q d as bs = map (\<lambda>k. (\<Sum>(a, b)\<leftarrow>zip as bs. schoolbook_negacyclic a b q ! k) mod q) [0..<d]"

lemma fold_zip_index:
  assumes "length xs = length ys"
  shows "fold (\<lambda>(x, y) acc. f x y acc) (zip xs ys) z = fold (\<lambda>i acc. f (xs ! i) (ys ! i) acc) [0..<length xs] z"
proof -
  have "zip xs ys = map (\<lambda>i. (xs ! i, ys ! i)) [0..<length xs]"
    using assms by (intro nth_equalityI) simp_all
  then show ?thesis by (simp add: fold_map comp_def)
qed

definition int_dot :: "nat \<Rightarrow> nat list list \<Rightarrow> int list list \<Rightarrow> nat \<Rightarrow> int" where
  "int_dot q as cs k = (\<Sum>i\<leftarrow>[0..<length as]. nega_prod (centred q (as ! i)) (cs ! i) k)"

lemma ring_dot_rem:
  assumes good: "good_ctx ctx" and "length as = length bs" and "length cs = length bs"
    and "\<And>i. i < length as \<Longrightarrow> lift_valid ctx (as ! i) \<and> lift_valid ctx (bs ! i) \<and> length (cs ! i) = lc_d ctx
      \<and> (\<forall>t<lc_d ctx. eqm (lc_q ctx) (int (bs ! i ! t)) (cs ! i ! t))"
  shows "ring_dot (lc_q ctx) (lc_d ctx) as bs = map (\<lambda>k. rem_euclid (int_dot (lc_q ctx) as cs k) (lc_q ctx)) [0..<lc_d ctx]"
proof (rule nth_equalityI)
  fix k assume "k < length (ring_dot (lc_q ctx) (lc_d ctx) as bs)"
  then have k: "k < lc_d ctx" by (simp add: ring_dot_def)
  let ?q = "lc_q ctx"
  have "zip as bs = map (\<lambda>i. (as ! i, bs ! i)) [0..<length as]" using assms(2) by (intro nth_equalityI) simp_all
  then have "(\<Sum>(a, b)\<leftarrow>zip as bs. schoolbook_negacyclic a b ?q ! k) = (\<Sum>i\<leftarrow>[0..<length as]. schoolbook_negacyclic (as ! i) (bs ! i) ?q ! k)"
    by (simp add: comp_def)
  also have "\<dots> = (\<Sum>i\<leftarrow>[0..<length as]. rem_euclid (nega_prod (centred ?q (as ! i)) (cs ! i) k) ?q)"
    using assms(4) by (intro arg_cong [where f = sum_list] map_cong refl schoolbook_rem [OF good _ _ k]) auto
  finally have sum: "(\<Sum>(a, b)\<leftarrow>zip as bs. schoolbook_negacyclic a b ?q ! k)
      = (\<Sum>i\<leftarrow>[0..<length as]. rem_euclid (nega_prod (centred ?q (as ! i)) (cs ! i) k) ?q)" .
  have "eqm ?q (int (\<Sum>i\<leftarrow>xs. rem_euclid (f i) ?q)) (\<Sum>i\<leftarrow>xs. f i)" for f and xs :: "nat list"
    using good_ctxD(3) [OF good] by (induction xs) (auto intro: eqm_add rem_euclid_eqm)
  then have "rem_euclid (int_dot ?q as cs k) ?q = (\<Sum>i\<leftarrow>[0..<length as]. rem_euclid (nega_prod (centred ?q (as ! i)) (cs ! i) k) ?q) mod ?q"
    unfolding int_dot_def using good_ctxD(3) [OF good]
    by (intro rem_euclid_unique eqm_trans [OF eqm_nat_mod]) simp_all
  then show "ring_dot ?q (lc_d ctx) as bs ! k = map (\<lambda>k. rem_euclid (int_dot ?q as cs k) ?q) [0..<lc_d ctx] ! k"
    using k sum by (simp add: ring_dot_def)
qed (simp add: ring_dot_def)

lemma dot_residue:
  assumes laws: "ntt_laws eng (lc_d ctx)" and good: "good_ctx ctx" and m: "m \<in> set PRIMES" and k: "k < lc_d ctx"
    and ops: "\<And>i. i < length as \<Longrightarrow> lift_valid ctx (as ! i) \<and> canon m (lc_d ctx) (B i) \<and> length (cs ! i) = lc_d ctx
      \<and> (\<forall>t<lc_d ctx. eqm m (int (B i ! t)) (cs ! i ! t))"
  defines "v \<equiv> fold (\<lambda>i acc. add_reduce m acc (ntt_multiply eng m (lift_transform eng ctx m (as ! i)) (to_ntt eng m (B i))))
      [0..<length as] (replicate (lc_d ctx) 0)"
  shows "from_ntt eng m v ! k < m \<and> eqm m (int (from_ntt eng m v ! k)) (int_dot (lc_q ctx) as cs k)"
proof -
  note Z = from_ntt_zero [OF laws m good_ctxD(1) [OF good] k]
  have z: "eqm m (int (from_ntt eng m (replicate (lc_d ctx) 0) ! k)) 0" by (simp only: Z(2)) simp
  have step: "canon m (lc_d ctx) (ntt_multiply eng m (lift_transform eng ctx m (as ! i)) (to_ntt eng m (B i)))
      \<and> eqm m (int (from_ntt eng m (ntt_multiply eng m (lift_transform eng ctx m (as ! i)) (to_ntt eng m (B i))) ! k))
          (nega_prod (centred (lc_q ctx) (as ! i)) (cs ! i) k)" if "i \<in> set [0..<length as]" for i
  proof -
    have i: "i < length as" using that by simp
    show ?thesis
      using product_residue(1,3) [OF laws good _ _ _ _ m k, of "as ! i" "B i" "cs ! i"] ops [OF i] by blast
  qed
  have v: "canon m (lc_d ctx) v \<and> eqm m (int (from_ntt eng m v ! k)) (0 + int_dot (lc_q ctx) as cs k)"
    unfolding v_def int_dot_def by (rule fold_add_reduce [OF laws m k Z(1) z]) (rule step)
  then have "canon m (lc_d ctx) (from_ntt eng m v)" using laws m unfolding ntt_laws_def by blast
  then show ?thesis using canonD(6) [OF _ k] v by simp
qed

lemma int_dot_bound:
  assumes "k < d" and "length cs = length as"
    and "\<And>i. i < length as \<Longrightarrow> length (as ! i) = d \<and> length (cs ! i) = d
      \<and> (\<forall>t<d. \<bar>centred q (as ! i) ! t\<bar> \<le> int (A (as ! i)) \<and> \<bar>cs ! i ! t\<bar> \<le> int B)"
  shows "2 * \<bar>int_dot q as cs k\<bar> \<le> int ((\<Sum>a\<leftarrow>as. A a) * d * B * 2)"
proof -
  have each: "\<bar>nega_prod (centred q (as ! i)) (cs ! i) k\<bar> \<le> int (d * (A (as ! i) * B))" if "i < length as" for i
    unfolding of_nat_mult using assms(3) [OF that] assms(1) by (intro nega_prod_bound) (simp_all del: nth_centred)
  have factor: "(\<Sum>i\<leftarrow>xs. d * (f i * B)) = (\<Sum>i\<leftarrow>xs. f i) * d * B" for f :: "nat \<Rightarrow> nat" and xs
    by (induction xs) (simp_all add: algebra_simps)
  have int_list_sum: "(\<Sum>i\<leftarrow>xs. int (f i)) = int (\<Sum>i\<leftarrow>xs. f i)" for f :: "nat \<Rightarrow> nat" and xs
    by (induction xs) simp_all
  have "\<bar>\<Sum>i\<leftarrow>xs. f i\<bar> \<le> (\<Sum>i\<leftarrow>xs. \<bar>f i\<bar>)" for f :: "nat \<Rightarrow> int" and xs
    by (induction xs) simp_all
  then have "\<bar>int_dot q as cs k\<bar> \<le> (\<Sum>i\<leftarrow>[0..<length as]. \<bar>nega_prod (centred q (as ! i)) (cs ! i) k\<bar>)"
    unfolding int_dot_def .
  also have "\<dots> \<le> (\<Sum>i\<leftarrow>[0..<length as]. int (d * (A (as ! i) * B)))"
    using each by (intro sum_list_mono) simp
  also have "\<dots> = int (\<Sum>i\<leftarrow>[0..<length as]. d * (A (as ! i) * B))"
    by (rule int_list_sum)
  also have "(\<Sum>i\<leftarrow>[0..<length as]. d * (A (as ! i) * B)) = (\<Sum>i\<leftarrow>[0..<length as]. A (as ! i)) * d * B"
    using factor [of "\<lambda>i. A (as ! i)" "[0..<length as]"] .
  also have "(\<Sum>i\<leftarrow>[0..<length as]. A (as ! i)) = (\<Sum>a\<leftarrow>as. A a)"
    using arg_cong [OF map_nth [of as], of "\<lambda>xs. sum_list (map A xs)"] by (simp add: comp_def)
  finally show ?thesis by simp
qed

lemma option_sum: 
  "fold (\<lambda>m sum. Option.bind sum (\<lambda>s. checked_add_u128 s m)) xs (Some z) = Some t \<Longrightarrow> t = z + sum_list xs"
proof (induction xs arbitrary: z)
  case (Cons x xs)
  have none: "fold (\<lambda>m sum. Option.bind sum (\<lambda>s. checked_add_u128 s m)) ys None = None" for ys :: "nat list"
    by (induction ys) simp_all
  show ?case
  proof (cases "checked_add_u128 z x")
    case None
    then show ?thesis using Cons.prems none by simp
  next
    case (Some y)
    then have "y = z + x" by (simp add: checked_add_u128_def split: if_splits)
    then show ?thesis using Cons.prems Some Cons.IH [of "z + x"] by (simp add: add.assoc)
  qed
qed simp

text \<open>A prepared public dot.\<close>

definition dot_for :: "ntt_engine \<Rightarrow> lift_context \<Rightarrow> nat list list \<Rightarrow> prepared_public_dot \<Rightarrow> bool" where
  "dot_for eng ctx as dot \<longleftrightarrow> as \<noteq> [] \<and> (\<forall>a\<in>set as. lift_valid ctx a) \<and> ppd_d dot = lc_d ctx \<and> ppd_q dot = lc_q ctx
     \<and> ppd_right_bound dot \<le> lc_q ctx div 2
     \<and> (length (ppd_transforms dot) = 2 \<or> length (ppd_transforms dot) = 3)
     \<and> ppd_transforms dot = map (\<lambda>m. map (lift_transform eng ctx m) as) (take (length (ppd_transforms dot)) PRIMES)
     \<and> (\<Sum>a\<leftarrow>as. max_abs ctx a) * lc_d ctx * ppd_right_bound dot * 2 < prod_list (take (length (ppd_transforms dot)) PRIMES)"

lemma collectR_max_abs:
  "collectR (\<lambda>poly. mapR (\<lambda>_. f poly) (validate_lift ctx poly)) a = Inr ys
     \<Longrightarrow> (\<forall>x\<in>set a. lift_valid ctx x) \<and> ys = map f a"
  by (induction a arbitrary: ys) (auto simp: bindR_def mapR_def validate_lift_iff split: if_splits sum.splits)

lemma prepare_public_dot_for:
  assumes good: "good_ctx ctx" and "prepare_public_dot eng ctx a right_bound = Inr dot"
  shows "dot_for eng ctx a dot" "ppd_right_bound dot = right_bound"
proof -
  obtain maxima where "collectR (\<lambda>poly. mapR (\<lambda>_. max_abs ctx poly) (validate_lift ctx poly)) a = Inr maxima"
    using assms(2) by (auto simp: prepare_public_dot_def guardR_def bindR_def split: if_splits sum.splits)
  note mx = this collectR_max_abs [OF this]
  obtain s need where s: "fold (\<lambda>m sum. Option.bind sum (\<lambda>s. checked_add_u128 s m)) maxima (Some 0) = Some s"
    "need = s * lc_d ctx * right_bound * 2"
    and ok: "a \<noteq> []" "right_bound \<le> lc_q ctx div 2" "need < PRIMES ! 0 * PRIMES ! 1 \<or> need < lc_product ctx"
    "dot = \<lparr>ppd_d = lc_d ctx, ppd_q = lc_q ctx, ppd_right_bound = right_bound, ppd_transforms =
      map (\<lambda>m. map (lift_transform eng ctx m) a) (take (if need < PRIMES ! 0 * PRIMES ! 1 then 2 else 3) (lc_params ctx))\<rparr>"
    using assms(2) mx(1)
    by (auto simp: prepare_public_dot_def guardR_def bindR_def Let_def checked_mul_u128_def
        split: if_splits option.splits Option.bind_splits)
  have "s = (\<Sum>x\<leftarrow>a. max_abs ctx x)" using option_sum [OF s(1)] mx(2) by simp
  then have need: "need = (\<Sum>x\<leftarrow>a. max_abs ctx x) * lc_d ctx * right_bound * 2" using s(2) by simp
  show "ppd_right_bound dot = right_bound" using ok(4) by simp
  show "dot_for eng ctx a dot"
    using ok mx(2) good_ctxD(4,5) [OF good]
    by (cases "need < PRIMES ! 0 * PRIMES ! 1")
      (simp_all only: dot_for_def need if_True if_False, simp_all add: PRIMES_def)
qed

lemma as_u64_small: "0 \<le> x \<Longrightarrow> x < 2 ^ 64 \<Longrightarrow> int (as_u64 x) = x"
  by (simp add: as_u64_def)

lemma dot_raw_ok:
  assumes good: "good_ctx ctx" and p: "lift_valid ctx p" and m: "m \<in> set PRIMES"
    and bound: "\<forall>t<lc_d ctx. \<bar>centred (lc_q ctx) p ! t\<bar> \<le> int B"
  shows "canon m (lc_d ctx) (dot_raw ctx B m p)"
    and "\<forall>t<lc_d ctx. eqm m (int (dot_raw ctx B m p ! t)) (centred (lc_q ctx) p ! t)"
proof -
  have m: "0 < m" "m \<le> 2 ^ 62" using primes_range [OF m] by simp_all
  have len: "length p = lc_d ctx" using p by (simp add: lift_valid_def)
  have el: "dot_raw ctx B m p ! t < m \<and> eqm m (int (dot_raw ctx B m p ! t)) (centered (p ! t) (lc_q ctx))" if t: "t < lc_d ctx" for t
  proof (cases "B < m")
    case True
    let ?c = "centered (p ! t) (lc_q ctx)"
    have c: "- int m < ?c" "?c < int m" using bound t len True by auto
    have "int (dot_raw ctx B m p ! t) = (if ?c < 0 then ?c + int m else ?c)"
      using True t len m c by (simp add: dot_raw_def Let_def as_u64_small)
    moreover from this have "int (dot_raw ctx B m p ! t) < int m" using c by (simp split: if_splits)
    ultimately show ?thesis by (auto simp: eqm_def)
  next
    case False
    then show ?thesis using t len m by (simp add: dot_raw_def Let_def rem_euclid_less rem_euclid_eqm)
  qed
  have "length (dot_raw ctx B m p) = lc_d ctx" using len by (simp add: dot_raw_def)
  then show "canon m (lc_d ctx) (dot_raw ctx B m p)"
    using el m good_ctxD(1) [OF good] by (auto simp: canon_def all_below_set in_set_conv_nth)
  show "\<forall>t<lc_d ctx. eqm m (int (dot_raw ctx B m p ! t)) (centred (lc_q ctx) p ! t)" using el len by simp
qed

lemma collectR_unit:
  "collectR f xs = (if \<forall>x\<in>set xs. f x = Inr () then Inr (replicate (length xs) ())
    else Inl (projl (f (hd (dropWhile (\<lambda>x. f x = Inr ()) xs)))))" for f :: "'a \<Rightarrow> unit result"
proof (induction xs)
  case (Cons x xs)
  then show ?case by (cases "f x") (auto simp: bindR_def)
qed simp

lemma dot_signed_ok:
  assumes laws: "ntt_laws eng (lc_d ctx)" and good: "good_ctx ctx"
    and dot: "dot_for eng ctx as dot" and "length bs = length as"
    and ops: "\<And>b. b \<in> set bs \<Longrightarrow> lift_valid ctx b \<and> (\<forall>t<lc_d ctx. \<bar>centred (lc_q ctx) b ! t\<bar> \<le> int (ppd_right_bound dot))"
  shows "public_dot eng ctx dot bs = Inr (ring_dot (lc_q ctx) (lc_d ctx) as bs)"
proof -
  let ?q = "lc_q ctx" and ?d = "lc_d ctx" and ?n = "length (ppd_transforms dot)" and ?B = "ppd_right_bound dot"
  let ?cs = "map (centred ?q) bs"
  have D: "as \<noteq> []" "\<And>a. a \<in> set as \<Longrightarrow> lift_valid ctx a" "ppd_d dot = ?d" "ppd_q dot = ?q"
    "?n = 2 \<or> ?n = 3" "ppd_transforms dot = map (\<lambda>m. map (lift_transform eng ctx m) as) (take ?n PRIMES)"
    "(\<Sum>a\<leftarrow>as. max_abs ctx a) * ?d * ?B * 2 < prod_list (take ?n PRIMES)"
    using dot by (auto simp: dot_for_def)
  define res where "res = map (\<lambda>(m, operands). from_ntt eng m
      (fold (\<lambda>(lhs, rhs) sum. add_reduce m sum (ntt_multiply eng m lhs (to_ntt eng m (dot_raw ctx ?B m rhs))))
        (zip operands bs) (replicate ?d 0))) (zip PRIMES (ppd_transforms dot))"
  have len: "length res = ?n" using D(5) by (auto simp: res_def primes_simps)
  have nth: "res ! j = from_ntt eng (PRIMES ! j) (fold (\<lambda>i acc. add_reduce (PRIMES ! j) acc
      (ntt_multiply eng (PRIMES ! j) (lift_transform eng ctx (PRIMES ! j) (as ! i))
        (to_ntt eng (PRIMES ! j) (dot_raw ctx ?B (PRIMES ! j) (bs ! i))))) [0..<length as] (replicate ?d 0))" if j: "j < ?n" for j
  proof -
    have j3: "j < length PRIMES" using j D(5) by (auto simp: primes_simps)
    then have t: "ppd_transforms dot ! j = map (lift_transform eng ctx (PRIMES ! j)) as" using j by (subst D(6)) simp
    have step: "fold (\<lambda>i acc. add_reduce (PRIMES ! j) acc (ntt_multiply eng (PRIMES ! j) (map (lift_transform eng ctx (PRIMES ! j)) as ! i)
          (to_ntt eng (PRIMES ! j) (dot_raw ctx ?B (PRIMES ! j) (bs ! i))))) [0..<length as] z
        = fold (\<lambda>i acc. add_reduce (PRIMES ! j) acc (ntt_multiply eng (PRIMES ! j) (lift_transform eng ctx (PRIMES ! j) (as ! i))
          (to_ntt eng (PRIMES ! j) (dot_raw ctx ?B (PRIMES ! j) (bs ! i))))) [0..<length as] z" for z
      by (intro fold_cong) simp_all
    show ?thesis
      using j j3 assms(4) by (simp add: res_def t fold_zip_index step)
  qed
  have valid: "lift_valid ctx (as ! i)" "lift_valid ctx (bs ! i)" "\<forall>t<?d. \<bar>centred ?q (bs ! i) ! t\<bar> \<le> int ?B" if "i < length as" for i
    using that D(2) ops assms(4) by (auto simp del: nth_centred)
  have residue: "res ! j ! k < PRIMES ! j \<and> eqm (PRIMES ! j) (int (res ! j ! k)) (int_dot ?q as ?cs k)" if "j < ?n" "k < ?d" for j k
    unfolding nth [OF that(1)]
  proof (rule dot_residue [OF laws good _ that(2)])
    show m: "PRIMES ! j \<in> set PRIMES" using that(1) D(5) by (auto simp: primes_simps intro!: nth_mem)
    fix i assume i: "i < length as"
    show "lift_valid ctx (as ! i) \<and> canon (PRIMES ! j) ?d (dot_raw ctx ?B (PRIMES ! j) (bs ! i)) \<and> length (?cs ! i) = ?d
      \<and> (\<forall>t<?d. eqm (PRIMES ! j) (int (dot_raw ctx ?B (PRIMES ! j) (bs ! i) ! t)) (?cs ! i ! t))"
      using valid [OF i] dot_raw_ok [OF good valid(2) [OF i] m valid(3) [OF i]] i assms(4) by (simp add: lift_valid_def)
  qed
  have S: "2 * \<bar>int_dot ?q as ?cs k\<bar> < int (prod_list (take ?n PRIMES))" if k: "k < ?d" for k
  proof -
    have "2 * \<bar>int_dot ?q as ?cs k\<bar> \<le> int ((\<Sum>a\<leftarrow>as. max_abs ctx a) * ?d * ?B * 2)"
      using valid max_abs_bound assms(4)
      by (intro int_dot_bound k) (auto simp: lift_valid_def simp del: nth_centred)
    then show ?thesis using D(7) by linarith
  qed
  have coeff: "(if length res = 2 then reconstruct_two ctx (res ! 0 ! k) (res ! 1 ! k)
      else rem_euclid (lift_signed (prod_list (take (length res) PRIMES)) (reconstruct ctx res k)) ?q) = rem_euclid (int_dot ?q as ?cs k) ?q"
    if k: "k < ?d" for k
  proof (cases "?n = 2")
    case True
    then have "reconstruct_two ctx (res ! 0 ! k) (res ! 1 ! k) = rem_euclid (int_dot ?q as ?cs k) ?q"
      using residue [of 0 k] residue [of 1 k] S [OF k] k
      by (intro reconstruct_two_ok [OF good]) (simp_all add: primes_products)
    then show ?thesis using True len by simp
  next
    case False
    then have n: "?n = 3" using D(5) by simp
    have R: "reconstruct ctx res k < prod_list (take (length res) PRIMES)
        \<and> eqm (prod_list (take (length res) PRIMES)) (int (reconstruct ctx res k)) (int_dot ?q as ?cs k)"
      using residue k by (intro reconstruct_ok [OF good]) (simp_all add: len n)
    have "lift_signed (prod_list (take (length res) PRIMES)) (reconstruct ctx res k) = int_dot ?q as ?cs k"
      using R S [OF k] len n by (intro lift_signed_ok) (simp_all add: PRIMES_def)
    then show ?thesis using n len by simp
  qed
  have checks: "collectR (\<lambda>poly. bindR (validate_lift ctx poly) (\<lambda>_. guardR (list_ex (\<lambda>x. nat \<bar>centered x ?q\<bar> > ?B) poly)
      (LweShape ''public dot coefficient exceeds bound'') (Inr ()))) bs = Inr (replicate (length bs) ())"
  proof -
    have "\<not> list_ex (\<lambda>x. nat \<bar>centered x ?q\<bar> > ?B) b" if b: "b \<in> set bs" for b
    proof
      assume "list_ex (\<lambda>x. nat \<bar>centered x ?q\<bar> > ?B) b"
      then obtain t where "t < length b" "nat \<bar>centered (b ! t) ?q\<bar> > ?B" by (auto simp: list_ex_length)
      then show False using ops [OF b] by (auto simp: lift_valid_def)
    qed
    then show ?thesis unfolding collectR_unit using ops by (auto simp: bindR_def guardR_def)
  qed
  have "length (ppd_transforms dot ! 0) = length bs" using D(5) assms(4) by (subst D(6)) (auto simp: primes_simps)
  then have run: "public_dot eng ctx dot bs = (if length res = 2
      then Inr (map (\<lambda>i. reconstruct_two ctx (res ! 0 ! i) (res ! 1 ! i)) [0..<?d])
      else Inr (map (\<lambda>i. rem_euclid (lift_signed (prod_list (take (length res) PRIMES)) (reconstruct ctx res i)) ?q) [0..<?d]))"
    unfolding public_dot_def checks using D(3,4) good_ctxD(4) [OF good]
    by (simp add: bindR_def guardR_def Let_def flip: res_def)
  have ref: "ring_dot ?q ?d as bs = map (\<lambda>k. rem_euclid (int_dot ?q as ?cs k) ?q) [0..<?d]"
    using valid assms(4) valid_centred by (intro ring_dot_rem [OF good]) (simp_all add: lift_valid_def centered_eqm)
  have "public_dot eng ctx dot bs = Inr (map (\<lambda>k. if length res = 2 then reconstruct_two ctx (res ! 0 ! k) (res ! 1 ! k)
      else rem_euclid (lift_signed (prod_list (take (length res) PRIMES)) (reconstruct ctx res k)) ?q) [0..<?d])"
    unfolding run by simp
  also have "\<dots> = Inr (ring_dot ?q ?d as bs)" unfolding ref by (intro arg_cong [where f = Inr] map_cong refl coeff) simp
  finally show ?thesis .
qed

section \<open>Limb-wise reconstruction\<close>

text \<open>A cached limb: the transforms of a valid polynomial at enough primes for its public bound.\<close>

definition limb_for :: "ntt_engine \<Rightarrow> lift_context \<Rightarrow> nat list \<Rightarrow> nat list list \<Rightarrow> bool" where
  "limb_for eng ctx a primes \<longleftrightarrow> lift_valid ctx a \<and> (length primes = 2 \<or> length primes = 3)
     \<and> primes = map (\<lambda>m. lift_transform eng ctx m a) (take (length primes) PRIMES)
     \<and> 2 * (lc_d ctx * (max_abs ctx a * (lc_q ctx div 2))) < prod_list (take (length primes) PRIMES)"

lemma limb_nth:
  assumes "limb_for eng ctx a primes" and "j < 2"
  shows "primes ! j = lift_transform eng ctx (PRIMES ! j) a"
proof -
  have "primes ! j = map (\<lambda>m. lift_transform eng ctx m a) (take (length primes) PRIMES) ! j"
    using assms(1) unfolding limb_for_def by metis
  then show ?thesis using assms by (auto simp: limb_for_def primes_simps(4))
qed

lemma limb_product:
  assumes laws: "ntt_laws eng (lc_d ctx)" and good: "good_ctx ctx" and a: "lift_valid ctx a" and b: "lift_valid ctx b"
    and n: "n = 2 \<or> n = 3" and cap: "2 * (lc_d ctx * (max_abs ctx a * (lc_q ctx div 2))) < prod_list (take n PRIMES)" and k: "k < lc_d ctx"
  defines "res \<equiv> map (\<lambda>m. from_ntt eng m (ntt_multiply eng m (lift_transform eng ctx m a) (lift_transform eng ctx m b))) (take n PRIMES)"
  shows "lift_signed (prod_list (take n PRIMES)) (reconstruct ctx res k) = nega_prod (centred (lc_q ctx) a) (centred (lc_q ctx) b) k"
proof -
  let ?S = "nega_prod (centred (lc_q ctx) a) (centred (lc_q ctx) b) k" and ?q = "lc_q ctx"
  have len: "length res = n" using n by (auto simp: res_def primes_simps)
  have "\<bar>?S\<bar> \<le> int (lc_d ctx) * (int (max_abs ctx a) * int (?q div 2))"
    using a b by (intro nega_prod_bound k valid_bound max_abs_bound) (simp_all add: lift_valid_def)
  then have S: "2 * \<bar>?S\<bar> < int (prod_list (take n PRIMES))" using cap unfolding of_nat_mult [symmetric] by linarith
  have R: "reconstruct ctx res k < prod_list (take (length res) PRIMES)
      \<and> eqm (prod_list (take (length res) PRIMES)) (int (reconstruct ctx res k)) ?S"
  proof (rule reconstruct_ok [OF good])
    show "length res = 2 \<or> length res = 3" using n len by simp
    fix j assume "j < length res"
    then have j: "j < n" "j < length PRIMES" using len n by (auto simp: primes_simps)
    then have "res ! j = from_ntt eng (PRIMES ! j) (ntt_multiply eng (PRIMES ! j) (lift_transform eng ctx (PRIMES ! j) a)
        (lift_transform eng ctx (PRIMES ! j) b))" by (simp add: res_def)
    then show "res ! j ! k < PRIMES ! j \<and> eqm (PRIMES ! j) (int (res ! j ! k)) ?S"
      using transform_residue(2,3) [OF laws good a b nth_mem [OF j(2)] k] by simp
  qed
  show ?thesis using R S n unfolding len by (intro lift_signed_ok) (auto simp: PRIMES_def)
qed

text \<open>The running sum: canonical and congruent to the integer tot.\<close>

definition running :: "lift_context \<Rightarrow> nat list \<Rightarrow> (nat \<Rightarrow> int) \<Rightarrow> bool" where
  "running ctx acc tot \<longleftrightarrow> length acc = lc_d ctx \<and> (\<forall>k<lc_d ctx. acc ! k < lc_q ctx \<and> eqm (lc_q ctx) (int (acc ! k)) (tot k))"

lemma running_zero: "good_ctx ctx \<Longrightarrow> running ctx (replicate (lc_d ctx) 0) (\<lambda>k. 0)"
  by (auto simp: running_def good_ctx_def)

lemma running_eq: "running ctx acc tot \<Longrightarrow> acc = map (\<lambda>k. rem_euclid (tot k) (lc_q ctx)) [0..<lc_d ctx]"
  by (intro nth_equalityI) (auto simp: running_def rem_euclid_unique)

lemma running_step:
  assumes good: "good_ctx ctx" and acc: "running ctx acc tot"
    and new: "\<And>k. k < lc_d ctx \<Longrightarrow> f k = u64 (acc ! k + rem_euclid (s k) (lc_q ctx)) mod lc_q ctx
      \<or> (is_power_of_two (lc_q ctx) \<and> f k = wrapping_add (acc ! k) (as_u64 (s k)) AND (lc_q ctx - 1))"
  shows "running ctx (map f [0..<lc_d ctx]) (\<lambda>k. tot k + s k)"
proof -
  let ?q = "lc_q ctx"
  have q: "0 < ?q" "?q \<le> 2 ^ 62" using good by (auto simp: good_ctx_def)
  have "f k < ?q \<and> eqm ?q (int (f k)) (tot k + s k)" if k: "k < lc_d ctx" for k
  proof -
    have a: "acc ! k < ?q" "eqm ?q (int (acc ! k)) (tot k)" using acc k by (auto simp: running_def)
    from new [OF k] show ?thesis
    proof (elim disjE conjE)
      assume f: "f k = u64 (acc ! k + rem_euclid (s k) ?q) mod ?q"
      have "u64 (acc ! k + rem_euclid (s k) ?q) = acc ! k + rem_euclid (s k) ?q"
        using add_no_wrap [OF a(1) less_imp_le [OF rem_euclid_less [OF q(1)]] q(2)] .
      then show ?thesis
        using f q eqm_trans [OF eqm_nat_mod [of ?q "acc ! k + rem_euclid (s k) ?q"]] eqm_add [OF a(2) rem_euclid_eqm [OF q(1)]] by simp
    next
      assume "is_power_of_two ?q" and f: "f k = wrapping_add (acc ! k) (as_u64 (s k)) AND (?q - 1)"
      then obtain e where e: "e < 64" "?q = 2 ^ e" by (auto simp: is_power_of_two_iff)
      have "eqm (2 ^ 64) (int (as_u64 (s k))) (s k)" by (simp add: as_u64_def eqm_mod_iff)
      then have s: "eqm (2 ^ e) (int (as_u64 (s k))) (s k)"
        by (rule eqm_dvd) (rule le_imp_power_dvd [OF less_imp_le [OF e(1)]])
      show ?thesis
        unfolding f e(2)
        using mask_less eqm_trans [OF eqm_mask eqm_trans [OF eqm_wrapping_add [OF less_imp_le [OF e(1)]] eqm_add [OF a(2) [unfolded e(2)] s]]]
        by blast
    qed
  qed
  then show ?thesis by (simp add: running_def)
qed

definition zip_dot :: "nat \<Rightarrow> nat list list \<Rightarrow> nat list list \<Rightarrow> nat \<Rightarrow> int" where
  "zip_dot q as bs k = (\<Sum>(a, b)\<leftarrow>zip as bs. nega_prod (centred q a) (centred q b) k)"

lemma zip_dot_simps [simp]:
  "zip_dot q [] bs k = 0" "zip_dot q (a # as) (b # bs) k = nega_prod (centred q a) (centred q b) k + zip_dot q as bs k"
  by (simp_all add: zip_dot_def)

lemma ring_dot_zip:
  assumes "good_ctx ctx" and "length as = length bs" and "list_all (lift_valid ctx) as" and "list_all (lift_valid ctx) bs"
  shows "ring_dot (lc_q ctx) (lc_d ctx) as bs = map (\<lambda>k. rem_euclid (zip_dot (lc_q ctx) as bs k) (lc_q ctx)) [0..<lc_d ctx]"
proof -
  have "zip as bs = map (\<lambda>i. (as ! i, bs ! i)) [0..<length as]" using assms(2) by (intro nth_equalityI) simp_all
  then have "zip_dot (lc_q ctx) as bs k = int_dot (lc_q ctx) as (map (centred (lc_q ctx)) bs) k" for k
    using assms(2) by (auto simp: zip_dot_def int_dot_def comp_def intro!: arg_cong [where f = sum_list])
  then show ?thesis
    using assms by (subst ring_dot_rem [where cs = "map (centred (lc_q ctx)) bs"])
      (auto simp: list_all_length lift_valid_def centered_eqm)
qed

lemma zip_transforms:
  assumes "n \<le> length ps"
  shows "map g (zip ps (map f (take n ps))) = map (\<lambda>m. g (m, f m)) (take n ps)"
    and "n \<le> n' \<Longrightarrow> n' \<le> length ps \<Longrightarrow>
      map g' (zip (zip ps (map f (take n ps))) (map h (take n' ps))) = map (\<lambda>m. g' ((m, f m), h m)) (take n ps)"
  using assms by (auto intro!: nth_equalityI)

lemma sum_prepared_loop_ok:
  assumes laws: "ntt_laws eng (lc_d ctx)" and good: "good_ctx ctx"
    and "list_all2 (limb_for eng ctx) as primes" and "length bs = length as" and "list_all (lift_valid ctx) bs" and "running ctx acc tot"
  shows "\<exists>acc'. sum_prepared_loop eng ctx (zip primes bs) acc = Inr acc' \<and> running ctx acc' (\<lambda>k. tot k + zip_dot (lc_q ctx) as bs k)"
  using assms(3-6)
proof (induction as primes arbitrary: bs acc tot rule: list_all2_induct)
  case Nil
  then show ?case by simp
next
  case (Cons a as prs primes)
  obtain b bs' where bs: "bs = b # bs'" using Cons.prems(1) by (cases bs) auto
  have b: "lift_valid ctx b" using Cons.prems(2) bs by simp
  let ?n = "length prs"
  have L: "lift_valid ctx a" "?n = 2 \<or> ?n = 3" "prs = map (\<lambda>m. lift_transform eng ctx m a) (take ?n PRIMES)"
    "2 * (lc_d ctx * (max_abs ctx a * (lc_q ctx div 2))) < prod_list (take ?n PRIMES)"
    using Cons.hyps(1) by (auto simp: limb_for_def)
  let ?res = "map (\<lambda>m. from_ntt eng m (ntt_multiply eng m (lift_transform eng ctx m a) (lift_transform eng ctx m b))) (take ?n PRIMES)"
  have zip: "map (\<lambda>(m, lhs). from_ntt eng m (ntt_multiply eng m lhs (lift_transform eng ctx m b))) (zip PRIMES prs) = ?res"
    using L(2) by (subst L(3), subst zip_transforms(1)) (auto simp: primes_simps(4))
  note P = limb_product [OF laws good L(1) b L(2,4)]
  define f where "f = (\<lambda>i. if is_power_of_two (lc_q ctx)
      then wrapping_add (acc ! i) (as_u64 (lift_signed (prod_list (take ?n PRIMES)) (reconstruct ctx ?res i))) AND (lc_q ctx - 1)
      else u64 (acc ! i + rem_euclid (lift_signed (prod_list (take ?n PRIMES)) (reconstruct ctx ?res i)) (lc_q ctx)) mod lc_q ctx)"
  have new: "running ctx (map f [0..<lc_d ctx]) (\<lambda>k. tot k + nega_prod (centred (lc_q ctx) a) (centred (lc_q ctx) b) k)"
    by (rule running_step [OF good Cons.prems(3)]) (simp add: f_def P)
  have len: "length acc = lc_d ctx" using Cons.prems(3) by (simp add: running_def)
  have "sum_prepared_loop eng ctx (zip (prs # primes) bs) acc = sum_prepared_loop eng ctx (zip primes bs') (map f [0..<lc_d ctx])"
    using b good_ctxD(4) [OF good] len by (simp add: bs bindR_def Let_def zip f_def)
  then show ?case
    using Cons.IH [OF _ _ new, of bs'] Cons.prems bs by (simp add: add.assoc)
qed

lemma sum_cached_fold:
  assumes laws: "ntt_laws eng (lc_d ctx)" and good: "good_ctx ctx"
    and "list_all2 (limb_for eng ctx) as primes" and "length bs = length as" and "length rights = length bs"
    and "\<And>i. i < length bs \<Longrightarrow> lift_valid ctx (bs ! i) \<and> (\<exists>n. length (primes ! i) \<le> n \<and> n \<le> 3 \<and> rights ! i = map (\<lambda>m. lift_transform eng ctx m (bs ! i)) (take n PRIMES))"
    and "running ctx acc tot"
  shows "running ctx (fold (sum_cached_limb eng ctx) (zip primes rights) acc) (\<lambda>k. tot k + zip_dot (lc_q ctx) as bs k)"
  using assms(3-7)
proof (induction as primes arbitrary: bs rights acc tot rule: list_all2_induct)
  case Nil
  then show ?case by simp
next
  case (Cons a as prs primes)
  obtain b bs' r rights' where bs: "bs = b # bs'" "rights = r # rights'" using Cons.prems(1,2) by (cases bs; cases rights) auto
  let ?n = "length prs"
  have L: "lift_valid ctx a" "?n = 2 \<or> ?n = 3" "prs = map (\<lambda>m. lift_transform eng ctx m a) (take ?n PRIMES)"
    "2 * (lc_d ctx * (max_abs ctx a * (lc_q ctx div 2))) < prod_list (take ?n PRIMES)"
    using Cons.hyps(1) by (auto simp: limb_for_def)
  obtain n where b: "lift_valid ctx b" "?n \<le> n" "n \<le> 3" "r = map (\<lambda>m. lift_transform eng ctx m b) (take n PRIMES)"
    using Cons.prems(3) [of 0] bs by auto
  let ?res = "map (\<lambda>m. from_ntt eng m (ntt_multiply eng m (lift_transform eng ctx m a) (lift_transform eng ctx m b))) (take ?n PRIMES)"
  have zip: "map (\<lambda>((m, lhs), rhs). from_ntt eng m (ntt_multiply eng m lhs rhs)) (zip (zip PRIMES prs) r) = ?res"
    using L(2) b(2,3) unfolding b(4) by (subst L(3), subst zip_transforms(2)) (auto simp: primes_simps(4))
  note P = limb_product [OF laws good L(1) b(1) L(2,4)]
  have len: "length acc = lc_d ctx" "length ?res = ?n" using Cons.prems(4) L(2) by (auto simp: running_def primes_simps)
  define f where "f = (\<lambda>i. u64 (acc ! i + rem_euclid (lift_signed (prod_list (take ?n PRIMES)) (reconstruct ctx ?res i)) (lc_q ctx)) mod lc_q ctx)"
  have new: "running ctx (map f [0..<lc_d ctx]) (\<lambda>k. tot k + nega_prod (centred (lc_q ctx) a) (centred (lc_q ctx) b) k)"
    by (rule running_step [OF good Cons.prems(4)]) (simp add: f_def P)
  have rest: "lift_valid ctx (bs' ! i) \<and> (\<exists>n. length (primes ! i) \<le> n \<and> n \<le> 3 \<and> rights' ! i = map (\<lambda>m. lift_transform eng ctx m (bs' ! i)) (take n PRIMES))"
    if "i < length bs'" for i using Cons.prems(3) [of "Suc i"] that bs by simp
  have "sum_cached_limb eng ctx (prs, r) acc = map f [0..<lc_d ctx]"
    unfolding sum_cached_limb_def prod.case good_ctxD(4) [OF good] zip Let_def len f_def by (rule refl)
  then show ?case
    using Cons.IH [OF _ _ rest new] Cons.prems(1,2) bs by (simp add: add.assoc)
qed

section \<open>Prepared operands are what the sums need\<close>

definition operand_for :: "ntt_engine \<Rightarrow> lift_context \<Rightarrow> nat list list \<Rightarrow> prepared_lift_operand \<Rightarrow> bool" where
  "operand_for eng ctx as op \<longleftrightarrow> plo_d op = lc_d ctx \<and> plo_q op = lc_q ctx \<and> list_all2 (limb_for eng ctx) as (plo_transforms op)
     \<and> (plo_sum_fits_two op \<longrightarrow> (\<Sum>a\<leftarrow>as. max_abs ctx a) * lc_d ctx * (lc_q ctx div 2) * 2 < PRIMES ! 0 * PRIMES ! 1)"

definition right_for :: "ntt_engine \<Rightarrow> lift_context \<Rightarrow> nat list list \<Rightarrow> prepared_lift_right \<Rightarrow> nat \<Rightarrow> bool" where
  "right_for eng ctx bs r n \<longleftrightarrow> plr_d r = lc_d ctx \<and> plr_q r = lc_q ctx \<and> list_all (lift_valid ctx) bs
     \<and> plr_transforms r = map (\<lambda>b. map (\<lambda>m. lift_transform eng ctx m b) (take n PRIMES)) bs"

lemma prepare_right_primes_for:
  assumes "good_ctx ctx" and "prepare_right_primes eng ctx bs n = Inr r"
  shows "right_for eng ctx bs r n"
proof -
  obtain ts where ts: "collectR (\<lambda>poly. mapR (\<lambda>_. map (\<lambda>m. lift_transform eng ctx m poly) (take n (lc_params ctx))) (validate_lift ctx poly)) bs = Inr ts"
    "r = \<lparr>plr_d = lc_d ctx, plr_q = lc_q ctx, plr_transforms = ts\<rparr>"
    using assms(2) by (auto simp: prepare_right_primes_def guardR_def mapR_def split: if_splits sum.splits)
  then show ?thesis
    using collectR_max_abs [OF ts(1)] good_ctxD(4) [OF assms(1)] by (simp add: right_for_def list_all_iff)
qed

lemma prepare_public_for:
  assumes good: "good_ctx ctx" and "prepare_public eng ctx as = Inr op"
  shows "operand_for eng ctx as op"
proof -
  let ?d = "lc_d ctx" and ?q = "lc_q ctx"
  define T where "T = (\<lambda>a. map (\<lambda>m. lift_transform eng ctx m a)
      (take (if PRIMES ! 0 * PRIMES ! 1 > 2 * ?d * max_abs ctx a * (?q div 2) then 2 else 3) (lc_params ctx)))"
  obtain ts where ts: "collectR (\<lambda>poly. mapR (\<lambda>_. T poly) (validate_lift ctx poly)) as = Inr ts"
    and op: "plo_d op = ?d" "plo_q op = ?q" "plo_transforms op = ts"
    "plo_sum_fits_two op = (case Option.bind (fold (\<lambda>poly sum. Option.bind sum (\<lambda>s. checked_add_u128 s (max_abs ctx poly))) as (Some 0))
                      (\<lambda>sum. checked_mul_u128 sum (2 * ?d * (?q div 2))) of None \<Rightarrow> False | Some bound \<Rightarrow> bound < PRIMES ! 0 * PRIMES ! 1)"
    using assms(2) unfolding T_def
    by (auto simp: prepare_public_def guardR_def mapR_def Let_def split: if_splits sum.splits)
  have C: "\<forall>a\<in>set as. lift_valid ctx a" "ts = map T as" using collectR_max_abs [OF ts] by simp_all
  have limb: "limb_for eng ctx a (T a)" if a: "lift_valid ctx a" for a
  proof -
    have "2 * (?d * (max_abs ctx a * (?q div 2))) < prod_list (take 3 PRIMES)"
      using product_capacity [OF good max_abs_le [OF a good_ctxD(1) [OF good]] order_refl] by (simp add: primes_simps)
    then show ?thesis
      using a good_ctxD(4) [OF good]
      by (cases "PRIMES ! 0 * PRIMES ! 1 > 2 * ?d * max_abs ctx a * (?q div 2)")
        (simp_all add: limb_for_def T_def primes_simps(4) primes_products mult.assoc)
  qed
  have "(\<Sum>a\<leftarrow>as. max_abs ctx a) * ?d * (?q div 2) * 2 < PRIMES ! 0 * PRIMES ! 1" if fits: "plo_sum_fits_two op"
  proof -
    have shape: "fold (\<lambda>poly sum. Option.bind sum (\<lambda>s. checked_add_u128 s (max_abs ctx poly))) as (Some 0)
        = fold (\<lambda>m sum. Option.bind sum (\<lambda>s. checked_add_u128 s m)) (map (max_abs ctx) as) (Some 0)"
      by (simp add: fold_map comp_def)
    obtain s where s: "fold (\<lambda>m sum. Option.bind sum (\<lambda>s. checked_add_u128 s m)) (map (max_abs ctx) as) (Some 0) = Some s"
      "s * (2 * ?d * (?q div 2)) < PRIMES ! 0 * PRIMES ! 1"
      using fits unfolding op(4) shape by (auto simp: checked_mul_u128_def split: option.splits Option.bind_splits if_splits)
    then show ?thesis using option_sum [OF s(1)] by (simp add: ac_simps)
  qed
  then show ?thesis
    using op(1-3) C limb by (auto simp: operand_for_def list_all2_map2 intro!: list_all2_same [THEN iffD2])
qed

lemma sum_prepared_ok:
  assumes "ntt_laws eng (lc_d ctx)" and good: "good_ctx ctx" and op: "operand_for eng ctx as op"
    and "length bs = length as" and "list_all (lift_valid ctx) bs"
  shows "sum_prepared eng ctx op bs = Inr (ring_dot (lc_q ctx) (lc_d ctx) as bs)"
proof -
  have L: "list_all2 (limb_for eng ctx) as (plo_transforms op)" using op by (simp add: operand_for_def)
  obtain acc where acc: "sum_prepared_loop eng ctx (zip (plo_transforms op) bs) (replicate (lc_d ctx) 0) = Inr acc"
    "running ctx acc (\<lambda>k. 0 + zip_dot (lc_q ctx) as bs k)"
    using sum_prepared_loop_ok [OF assms(1,2) L assms(4,5) running_zero [OF good]] by blast
  have "list_all (lift_valid ctx) as" using L by (auto simp: list_all2_conv_all_nth list_all_length limb_for_def)
  then have "acc = ring_dot (lc_q ctx) (lc_d ctx) as bs"
    using running_eq [OF acc(2)] ring_dot_zip [OF good _ _ assms(5), of as] assms(4) by simp
  then show ?thesis
    using acc(1) op list_all2_lengthD [OF L] assms(4) by (simp add: sum_prepared_def guardR_def operand_for_def)
qed

text \<open>The two-prime sum, for any right operand given by integer coefficients.\<close>

lemma sum_cached_two_ok:
  assumes laws: "ntt_laws eng (lc_d ctx)" and good: "good_ctx ctx"
    and len: "length (plo_transforms a) = length as" "length (plr_transforms b) = length as"
    and left: "\<And>i j. i < length as \<Longrightarrow> j < 2 \<Longrightarrow> lift_valid ctx (as ! i) \<and> plo_transforms a ! i ! j = lift_transform eng ctx (PRIMES ! j) (as ! i)"
    and right: "\<And>i j. i < length as \<Longrightarrow> j < 2 \<Longrightarrow> plr_transforms b ! i ! j = to_ntt eng (PRIMES ! j) (B j i) \<and> canon (PRIMES ! j) (lc_d ctx) (B j i)
      \<and> length (cs ! i) = lc_d ctx \<and> (\<forall>t<lc_d ctx. eqm (PRIMES ! j) (int (B j i ! t)) (cs ! i ! t))"
    and cap: "\<And>k. k < lc_d ctx \<Longrightarrow> 2 * \<bar>int_dot (lc_q ctx) as cs k\<bar> < int (PRIMES ! 0 * PRIMES ! 1)"
  shows "sum_cached_two eng ctx a b = map (\<lambda>k. rem_euclid (int_dot (lc_q ctx) as cs k) (lc_q ctx)) [0..<lc_d ctx]"
proof -
  let ?d = "lc_d ctx"
  define res where "res = map (\<lambda>j. let m = lc_params ctx ! j in
      from_ntt eng m (fold (\<lambda>(lhs, rhs) sum. add_reduce m sum (ntt_multiply eng m (lhs ! j) (rhs ! j)))
        (zip (plo_transforms a) (plr_transforms b)) (replicate ?d 0))) [0..<2]"
  have "res ! j ! k < PRIMES ! j \<and> eqm (PRIMES ! j) (int (res ! j ! k)) (int_dot (lc_q ctx) as cs k)" if j: "j < 2" and k: "k < ?d" for j k
  proof -
    let ?m = "PRIMES ! j"
    have m: "?m \<in> set PRIMES" using j by (simp add: primes_simps(4))
    have step: "fold (\<lambda>i acc. add_reduce ?m acc (ntt_multiply eng ?m (plo_transforms a ! i ! j) (plr_transforms b ! i ! j))) [0..<length as] z
        = fold (\<lambda>i acc. add_reduce ?m acc (ntt_multiply eng ?m (lift_transform eng ctx ?m (as ! i)) (to_ntt eng ?m (B j i)))) [0..<length as] z" for z
      using left right j by (intro fold_cong) simp_all
    have nth: "res ! j = from_ntt eng ?m (fold (\<lambda>i acc. add_reduce ?m acc (ntt_multiply eng ?m (lift_transform eng ctx ?m (as ! i)) (to_ntt eng ?m (B j i))))
        [0..<length as] (replicate ?d 0))"
      using j len good_ctxD(4) [OF good] by (simp add: res_def Let_def fold_zip_index step)
    show ?thesis
      unfolding nth using left right j by (intro dot_residue [OF laws good m k]) blast
  qed
  then have "reconstruct_two ctx (res ! 0 ! k) (res ! 1 ! k) = rem_euclid (int_dot (lc_q ctx) as cs k) (lc_q ctx)" if "k < ?d" for k
    using that cap [OF that] by (intro reconstruct_two_ok [OF good]) simp_all
  then have "map (\<lambda>k. reconstruct_two ctx (res ! 0 ! k) (res ! 1 ! k)) [0..<?d]
      = map (\<lambda>k. rem_euclid (int_dot (lc_q ctx) as cs k) (lc_q ctx)) [0..<?d]"
    by (intro map_cong refl) simp
  then show ?thesis unfolding res_def by (simp only: sum_cached_two_def Let_def)
qed

lemma sum_cached_ok:
  assumes laws: "ntt_laws eng (lc_d ctx)" and good: "good_ctx ctx" and op: "operand_for eng ctx as op"
    and r: "right_for eng ctx bs r n" and len: "length bs = length as"
    and n: "2 \<le> n" "n \<le> 3" "\<And>i. i < length as \<Longrightarrow> length (plo_transforms op ! i) \<le> n"
  shows "sum_cached eng ctx op r = Inr (ring_dot (lc_q ctx) (lc_d ctx) as bs)"
proof -
  let ?q = "lc_q ctx" and ?d = "lc_d ctx"
  have L: "list_all2 (limb_for eng ctx) as (plo_transforms op)" using op by (simp add: operand_for_def)
  have R: "list_all (lift_valid ctx) bs" "plr_transforms r = map (\<lambda>b. map (\<lambda>m. lift_transform eng ctx m b) (take n PRIMES)) bs"
    using r by (simp_all add: right_for_def)
  have lens: "length (plo_transforms op) = length as" "length (plr_transforms r) = length as" using list_all2_lengthD [OF L] R(2) len by simp_all
  have limb: "limb_for eng ctx (as ! i) (plo_transforms op ! i)" if "i < length as" for i using L that by (rule list_all2_nthD)
  have as: "list_all (lift_valid ctx) as" using limb by (auto simp: list_all_length limb_for_def)
  have bs: "i < length bs \<Longrightarrow> lift_valid ctx (bs ! i)" for i using R(1) by (simp add: list_all_length)
  have shape: "\<not> list_ex (\<lambda>(left, right). length left > length right) (zip (plo_transforms op) (plr_transforms r))"
    using n lens len by (fastforce simp: list_ex_length R(2) not_less primes_simps(4))
  have body: "(if plo_sum_fits_two op then sum_cached_two eng ctx op r
      else fold (sum_cached_limb eng ctx) (zip (plo_transforms op) (plr_transforms r)) (replicate ?d 0)) = ring_dot ?q ?d as bs"
  proof (cases "plo_sum_fits_two op")
    case False
    have "running ctx (fold (sum_cached_limb eng ctx) (zip (plo_transforms op) (plr_transforms r)) (replicate ?d 0)) (\<lambda>k. 0 + zip_dot ?q as bs k)"
    proof (rule sum_cached_fold [OF laws good L len _ _ running_zero [OF good]])
      show "length (plr_transforms r) = length bs" using lens len by simp
      fix i assume i: "i < length bs"
      then show "lift_valid ctx (bs ! i) \<and> (\<exists>n. length (plo_transforms op ! i) \<le> n \<and> n \<le> 3
          \<and> plr_transforms r ! i = map (\<lambda>m. lift_transform eng ctx m (bs ! i)) (take n PRIMES))"
        using bs n len by (auto simp: R(2))
    qed
    then show ?thesis using False running_eq ring_dot_zip [OF good len [symmetric] as R(1)] by simp
  next
    case True
    let ?cs = "map (centred ?q) bs"
    have sum: "(\<Sum>a\<leftarrow>as. max_abs ctx a) * ?d * (?q div 2) * 2 < PRIMES ! 0 * PRIMES ! 1" using op True by (simp add: operand_for_def)
    have "sum_cached_two eng ctx op r = map (\<lambda>k. rem_euclid (int_dot ?q as ?cs k) ?q) [0..<?d]"
    proof (rule sum_cached_two_ok [OF laws good lens])
      fix i j :: nat assume i: "i < length as" and j: "j < 2"
      show "lift_valid ctx (as ! i) \<and> plo_transforms op ! i ! j = lift_transform eng ctx (PRIMES ! j) (as ! i)"
        using limb_nth [OF limb [OF i] j] limb [OF i] by (simp add: limb_for_def)
      have m: "PRIMES ! j \<in> set PRIMES" using j by (simp add: primes_simps(4))
      show "plr_transforms r ! i ! j = to_ntt eng (PRIMES ! j) (lift_raw ctx (PRIMES ! j) (bs ! i)) \<and> canon (PRIMES ! j) ?d (lift_raw ctx (PRIMES ! j) (bs ! i))
        \<and> length (?cs ! i) = ?d \<and> (\<forall>t<?d. eqm (PRIMES ! j) (int (lift_raw ctx (PRIMES ! j) (bs ! i) ! t)) (?cs ! i ! t))"
        using i j n len lift_raw_ok [OF good bs m] bs [of i] by (simp add: R(2) lift_transform_def primes_simps(4) lift_valid_def del: nth_centred)
    next
      fix k assume k: "k < ?d"
      have "2 * \<bar>int_dot ?q as ?cs k\<bar> \<le> int ((\<Sum>a\<leftarrow>as. max_abs ctx a) * ?d * (?q div 2) * 2)"
        using as bs len max_abs_bound valid_bound
        by (intro int_dot_bound k) (auto simp: list_all_length lift_valid_def simp del: nth_centred)
      then show "2 * \<bar>int_dot ?q as ?cs k\<bar> < int (PRIMES ! 0 * PRIMES ! 1)" using sum by linarith
    qed
    then show ?thesis
      using True as bs len by (subst ring_dot_rem [OF good, where cs = ?cs]) (auto simp: list_all_length lift_valid_def centered_eqm)
  qed
  show ?thesis
    using body shape lens op r by (simp add: sum_cached_def guardR_def operand_for_def right_for_def split: if_splits)
qed

lemma lift_sum_ok:
  assumes laws: "ntt_laws eng (lc_d ctx)" and good: "good_ctx ctx" and "as \<noteq> []" and len: "length as = length bs"
    and as: "list_all (lift_valid ctx) as" and bs: "list_all (lift_valid ctx) bs"
  shows "lift_sum eng ctx as bs = Inr (ring_dot (lc_q ctx) (lc_d ctx) as bs)"
proof -
  let ?q = "lc_q ctx" and ?d = "lc_d ctx"
  have products: "collectR (\<lambda>(x, y). lift_multiply eng ctx x y) (zip as bs) = Inr (map (\<lambda>(x, y). schoolbook_negacyclic x y ?q) (zip as bs))"
    using len as bs by (induction as bs rule: list_induct2) (simp_all add: bindR_def lift_multiply_ok [OF laws good])
  have fold: "running ctx (fold (\<lambda>x out. map2 (\<lambda>dst y. u64 (dst + y) mod ?q) out x) (map (\<lambda>(x, y). schoolbook_negacyclic x y ?q) (zip as bs)) acc)
      (\<lambda>k. tot k + int (\<Sum>(a, b)\<leftarrow>zip as bs. schoolbook_negacyclic a b ?q ! k))" if "running ctx acc tot" for acc tot
    using len as bs that
  proof (induction as bs arbitrary: acc tot rule: list_induct2)
    case (Cons a as b bs)
    let ?p = "schoolbook_negacyclic a b ?q"
    have p: "canon ?q ?d ?p" using Cons.prems by (intro schoolbook_negacyclic_nth(1) valid_canon [OF good]) simp_all
    then have pl: "length ?p = ?d" "\<And>k. k < ?d \<Longrightarrow> rem_euclid (int (?p ! k)) ?q = ?p ! k"
      using canonD(6) [OF p] by (auto dest: canonD(4) intro: rem_euclid_unique)
    have "length acc = ?d" using Cons.prems(3) by (simp add: running_def)
    then have "map2 (\<lambda>dst y. u64 (dst + y) mod ?q) acc ?p = map (\<lambda>k. u64 (acc ! k + ?p ! k) mod ?q) [0..<?d]"
      using pl by (intro nth_equalityI) simp_all
    then have new: "running ctx (map2 (\<lambda>dst y. u64 (dst + y) mod ?q) acc ?p) (\<lambda>k. tot k + int (?p ! k))"
      using running_step [OF good Cons.prems(3), of "\<lambda>k. u64 (acc ! k + ?p ! k) mod ?q" "\<lambda>k. int (?p ! k)"] pl by simp
    show ?case
      using Cons.IH [OF _ _ new] Cons.prems(1,2) by (simp add: add.assoc)
  qed simp
  have "rem_euclid (0 + int s) ?q = s mod ?q" for s by (simp add: rem_euclid_def zmod_int [symmetric] del: of_nat_mod)
  then show ?thesis
    using running_eq [OF fold [OF running_zero [OF good]]] assms(3) len
    by (simp add: lift_sum_def guardR_def products mapR_def ring_dot_def)
qed

section \<open>Properties\<close>

text \<open>C30. Products through the auxiliary primes are exact: over any supported degree and modulus,
  the lifted product is the negacyclic product modulo \<open>q\<close> of the reference definition, and any
  operand that is not canonical or has another degree is refused.\<close>

theorem lift_multiply_exact:
  assumes "ntt_laws eng d" and "new_lift_context eng d q = Inr ctx"
  shows "lift_multiply eng ctx a b =
    (if length a = d \<and> all_below q a \<and> length b = d \<and> all_below q b then Inr (schoolbook_negacyclic a b q)
     else Inl (LweShape ''noncanonical lifted polynomial or wrong degree''))"
proof -
  note G = new_lift_context_good [OF assms]
  show ?thesis
    using lift_multiply_ok [of eng ctx a b] assms(1) G
    by (auto simp: lift_multiply_def bindR_def validate_lift_iff lift_valid_def)
qed

text \<open>C31. The three ways of summing ring products agree: multiplying limb by limb, caching the
  transforms of the left operands, and caching those of both sides, with the number of primes
  and the shape of the accumulation chosen from public bounds, all give the exact sum.\<close>

theorem lift_sums_agree:
  assumes "ntt_laws eng d" and "new_lift_context eng d q = Inr ctx"
    and "prepare_public eng ctx as = Inr op" and "prepare_right eng ctx bs = Inr right" and "length as = length bs"
  shows "lift_sum eng ctx as bs = Inr (ring_dot q d as bs)
    \<and> sum_prepared eng ctx op bs = Inr (ring_dot q d as bs)
    \<and> sum_cached eng ctx op right = Inr (ring_dot q d as bs)"
proof -
  note G = new_lift_context_good [OF assms(1,2)]
  have laws: "ntt_laws eng (lc_d ctx)" using assms(1) G by simp
  have op: "operand_for eng ctx as op" by (rule prepare_public_for [OF G(1) assms(3)])
  have r: "right_for eng ctx bs right 3"
    using prepare_right_primes_for [OF G(1)] assms(4) by (simp add: prepare_right_def)
  have bs: "list_all (lift_valid ctx) bs" using r by (simp add: right_for_def)
  have L: "list_all2 (limb_for eng ctx) as (plo_transforms op)" using op by (simp add: operand_for_def)
  then have as: "list_all (lift_valid ctx) as" and limbs: "i < length as \<Longrightarrow> length (plo_transforms op ! i) \<le> 3" for i
    by (auto simp: list_all2_conv_all_nth list_all_length limb_for_def)
  have ne: "as \<noteq> []" using assms(3) by (auto simp: prepare_public_def guardR_def)
  show ?thesis
    using lift_sum_ok [OF laws G(1) ne assms(5) as bs] sum_prepared_ok [OF laws G(1) op _ bs]
      sum_cached_ok [OF laws G(1) op r _ _ _ limbs] assms(5) G by simp
qed

text \<open>C12. A public dot product is exact or refused: once the capacity check of the preparation has
  passed, every vector of canonical operands within the announced bound gives the exact sum,
  with two or three primes, and every other vector is an error.\<close>

theorem public_dot_exact:
  assumes "ntt_laws eng d" and "new_lift_context eng d q = Inr ctx"
    and "prepare_public_dot eng ctx as B = Inr dot" and "length bs = length as"
  shows "if list_all (\<lambda>b. length b = d \<and> all_below q b \<and> list_all (\<lambda>x. \<bar>centered x q\<bar> \<le> int B) b) bs
     then public_dot eng ctx dot bs = Inr (ring_dot q d as bs)
     else \<exists>msg. public_dot eng ctx dot bs = Inl (LweShape msg)"
proof -
  note G = new_lift_context_good [OF assms(1,2)]
  note D = prepare_public_dot_for [OF G(1) assms(3)]
  have laws: "ntt_laws eng (lc_d ctx)" using assms(1) G by simp
  let ?ok = "\<lambda>b. length b = d \<and> all_below q b \<and> list_all (\<lambda>x. \<bar>centered x q\<bar> \<le> int B) b"
  show ?thesis
  proof (cases "list_all ?ok bs")
    case True
    then have "public_dot eng ctx dot bs = Inr (ring_dot (lc_q ctx) (lc_d ctx) as bs)"
      using G D(2) by (intro dot_signed_ok [OF laws G(1) D(1) assms(4)]) (auto simp: list_all_iff lift_valid_def list_all_length)
    then show ?thesis using True G by simp
  next
    case False
    let ?f = "\<lambda>poly. bindR (validate_lift ctx poly) (\<lambda>_. guardR (list_ex (\<lambda>x. nat \<bar>centered x (lc_q ctx)\<bar> > ppd_right_bound dot) poly)
      (LweShape ''public dot coefficient exceeds bound'') (Inr ()))"
    have gt: "ppd_right_bound dot < nat \<bar>x\<bar> \<longleftrightarrow> \<not> \<bar>x\<bar> \<le> int B" for x using D(2) by auto
    have f: "?f b = Inr () \<longleftrightarrow> ?ok b" "?f b \<noteq> Inr () \<Longrightarrow> \<exists>msg. ?f b = Inl (LweShape msg)" for b
      using G by (auto simp: bindR_def validate_lift_iff guardR_def lift_valid_def list_ex_iff list_all_iff gt)
    have "\<exists>msg. collectR ?f bs = Inl (LweShape msg)"
      using False
    proof (induction bs)
      case (Cons b bs)
      then show ?case using f [of b] by (cases "?ok b") (auto simp: bindR_def)
    qed simp
    then show ?thesis using False by (auto simp: public_dot_def guardR_def bindR_def)
  qed
qed

section \<open>The assumptions can hold\<close>

text \<open>An engine that keeps polynomials in coefficient form satisfies the laws at every degree.\<close>

definition coefficient_engine :: ntt_engine where
  "coefficient_engine =
     \<lparr>to_ntt = \<lambda>m p. p, ntt_multiply = \<lambda>m a b. schoolbook_negacyclic a b m, from_ntt = \<lambda>m x. x,
      invert_uint_mod = \<lambda>x m. if x = 4398046568449 \<and> m = 4398046666753 then Some 3298579739309
                              else if x = 24427626496 \<and> m = 4398046781441 then Some 3177758297238 else None\<rparr>"

lemma coefficient_engine_laws: "ntt_laws coefficient_engine d"
  unfolding ntt_laws_def coefficient_engine_def
  by (auto intro: schoolbook_negacyclic_nth(1) split: if_splits)

lemma coefficient_engine_context:
  "new_lift_context coefficient_engine 4 (2 ^ 20)
     = Inr \<lparr>lc_d = 4, lc_q = 2 ^ 20, lc_params = PRIMES, lc_product = prod_list PRIMES, lc_inverses = [3298579739309, 3177758297238]\<rparr>"
proof -
  have "is_power_of_two 4" unfolding is_power_of_two_iff by (rule exI [of _ 2]) simp
  then show ?thesis
    by (simp add: new_lift_context_def guardR_def checked_mul_u128_def coefficient_engine_def PRIMES_def)
qed

theorem lift_multiply_exact_witness:
  "\<exists>ctx. new_lift_context coefficient_engine 4 (2 ^ 20) = Inr ctx
     \<and> lift_multiply coefficient_engine ctx [1, 2, 3, 1048575] [5, 6, 7, 8]
         = Inr (schoolbook_negacyclic [1, 2, 3, 1048575] [5, 6, 7, 8] (2 ^ 20))
     \<and> lift_multiply coefficient_engine ctx [1, 2, 3, 1048576] [5, 6, 7, 8]
         = Inl (LweShape ''noncanonical lifted polynomial or wrong degree'')"
  using coefficient_engine_context
    lift_multiply_exact [OF coefficient_engine_laws coefficient_engine_context, of "[1, 2, 3, 1048575]" "[5, 6, 7, 8]"]
    lift_multiply_exact [OF coefficient_engine_laws coefficient_engine_context, of "[1, 2, 3, 1048576]" "[5, 6, 7, 8]"]
  by simp

theorem lift_sums_agree_witness:
  "\<exists>ctx op right. new_lift_context coefficient_engine 4 (2 ^ 20) = Inr ctx
     \<and> prepare_public coefficient_engine ctx [[1, 2, 3, 4]] = Inr op \<and> prepare_right coefficient_engine ctx [[5, 6, 7, 1048575]] = Inr right
     \<and> sum_cached coefficient_engine ctx op right = Inr (ring_dot (2 ^ 20) 4 [[1, 2, 3, 4]] [[5, 6, 7, 1048575]])"
proof -
  let ?ctx = "\<lparr>lc_d = 4, lc_q = 2 ^ 20, lc_params = PRIMES, lc_product = prod_list PRIMES, lc_inverses = [3298579739309, 3177758297238]\<rparr>"
  obtain op where op: "prepare_public coefficient_engine ?ctx [[1, 2, 3, 4]] = Inr op"
    by (simp add: prepare_public_def guardR_def bindR_def mapR_def validate_lift_iff lift_valid_def)
  obtain right where right: "prepare_right coefficient_engine ?ctx [[5, 6, 7, 1048575]] = Inr right"
    by (simp add: prepare_right_def prepare_right_primes_def guardR_def bindR_def mapR_def validate_lift_iff lift_valid_def)
  show ?thesis
    using coefficient_engine_context op right
      lift_sums_agree [OF coefficient_engine_laws coefficient_engine_context op right] by (auto simp del: prod_list.Cons)
qed

theorem public_dot_exact_witness:
  "\<exists>ctx dot. new_lift_context coefficient_engine 4 (2 ^ 20) = Inr ctx
     \<and> prepare_public_dot coefficient_engine ctx [[1, 2, 3, 4]] 8 = Inr dot
     \<and> public_dot coefficient_engine ctx dot [[5, 6, 7, 1048575]] = Inr (ring_dot (2 ^ 20) 4 [[1, 2, 3, 4]] [[5, 6, 7, 1048575]])"
proof -
  let ?ctx = "\<lparr>lc_d = 4, lc_q = 2 ^ 20, lc_params = PRIMES, lc_product = prod_list PRIMES, lc_inverses = [3298579739309, 3177758297238]\<rparr>"
  have "\<not> isl (prepare_public_dot coefficient_engine ?ctx [[1, 2, 3, 4]] 8)" by code_simp
  then obtain dot where dot: "prepare_public_dot coefficient_engine ?ctx [[1, 2, 3, 4]] 8 = Inr dot"
    by (cases "prepare_public_dot coefficient_engine ?ctx [[1, 2, 3, 4]] 8") auto
  show ?thesis
    using coefficient_engine_context dot
      public_dot_exact [OF coefficient_engine_laws coefficient_engine_context dot, of "[[5, 6, 7, 1048575]]"]
    by (auto simp: centered_def)
qed

end
