(* ===== verification/Native_Dot.thy ===== *)
theory Native_Dot
  imports Bit_Store Ring
begin

text \<open>
  The low-word dot products of \<open>reinspiring/src/native_kernel.rs\<close>: the portable loops and the
  AVX2 and AVX-512 bodies they dispatch to, lane by lane. A vector register is the list of its
  lanes; an integer column is given by its elements already extended to 64-bit words, as the
  converting loads do. Which bodies run is decided by the processor: \<open>cpu_features\<close> is a
  parameter of the dispatchers, and every choice gives the same low 64 bits.
\<close>

section \<open>Model\<close>

record cpu_features =
  has_avx2 :: bool
  has_avx512 :: bool
  has_vnni :: bool
  has_vbmi :: bool

text \<open>The scalar loop, on extended words.\<close>

definition scalar_dot :: "nat list \<Rightarrow> nat list \<Rightarrow> nat" where
  "scalar_dot a b = fold (\<lambda>(x, y) s. wrapping_add s (wrapping_mul x y)) (zip a b) 0"

definition scalar_i32 :: "int list \<Rightarrow> nat list \<Rightarrow> nat" where
  "scalar_i32 a b = scalar_dot (map as_u64 a) b"

text \<open>AVX-512: four accumulators of eight lanes, 32 elements per step.\<close>

definition lane_sum_512 :: "nat list \<Rightarrow> nat list \<Rightarrow> nat \<Rightarrow> nat \<Rightarrow> nat \<Rightarrow> nat" where
  "lane_sum_512 a b steps j lane =
     fold (\<lambda>t s. wrapping_add s (wrapping_mul (a ! (t * 32 + (j * 8 + lane))) (b ! (t * 32 + (j * 8 + lane))))) [0..<steps] 0"

definition dot_512 :: "nat list \<Rightarrow> nat list \<Rightarrow> nat" where
  "dot_512 a b =
     (let steps = length a div 32;
          sums = lane_sum_512 a b steps;
          words = map (\<lambda>lane. wrapping_add (wrapping_add (sums 0 lane) (sums 1 lane)) (wrapping_add (sums 2 lane) (sums 3 lane))) [0..<8];
          tail = scalar_dot (drop (steps * 32) a) (drop (steps * 32) b)
      in fold (\<lambda>w s. wrapping_add s w) words tail)"

text \<open>AVX2: the 64-bit product is assembled from 32-bit halves.\<close>

definition mul64 :: "nat \<Rightarrow> nat \<Rightarrow> nat" where
  "mul64 a b =
     (let low = (a mod 2 ^ 32) * (b mod 2 ^ 32);
          cross = wrapping_add ((a div 2 ^ 32 mod 2 ^ 32) * (b mod 2 ^ 32)) ((a mod 2 ^ 32) * (b div 2 ^ 32 mod 2 ^ 32))
      in wrapping_add low (u64 (cross * 2 ^ 32)))"

definition dot_avx2 :: "nat list \<Rightarrow> nat list \<Rightarrow> nat" where
  "dot_avx2 a b =
     (let steps = length a div 4;
          words = map (\<lambda>lane. fold (\<lambda>t s. wrapping_add s (mul64 (a ! (t * 4 + lane)) (b ! (t * 4 + lane)))) [0..<steps] 0) [0..<4];
          tail = scalar_dot (drop (steps * 4) a) (drop (steps * 4) b)
      in fold (\<lambda>w s. wrapping_add s w) words tail)"

text \<open>The bodies differ only in the extension of the loaded column: bytes and 16-bit words are
  extended by zeros, 32-bit words by the sign.\<close>

definition u8_dot_512 :: "nat list \<Rightarrow> nat list \<Rightarrow> nat" where
  "u8_dot_512 a b = dot_512 a b"

definition u16_dot_512 :: "nat list \<Rightarrow> nat list \<Rightarrow> nat" where
  "u16_dot_512 a b = dot_512 a b"

definition i32_dot_512 :: "int list \<Rightarrow> nat list \<Rightarrow> nat" where
  "i32_dot_512 a b = dot_512 (map as_u64 a) b"

definition u8_dot_avx2 :: "nat list \<Rightarrow> nat list \<Rightarrow> nat" where
  "u8_dot_avx2 a b = dot_avx2 a b"

definition u16_dot_avx2 :: "nat list \<Rightarrow> nat list \<Rightarrow> nat" where
  "u16_dot_avx2 a b = dot_avx2 a b"

definition i32_dot_avx2 :: "int list \<Rightarrow> nat list \<Rightarrow> nat" where
  "i32_dot_avx2 a b = dot_avx2 (map as_u64 a) b"

definition dot_u8 :: "cpu_features \<Rightarrow> nat list \<Rightarrow> nat list \<Rightarrow> nat result" where
  "dot_u8 cpu a b =
     guardR (length a \<noteq> length b) (Panic ''assertion failed: a.len() == b.len()'')
       (Inr (if has_avx512 cpu then u8_dot_512 a b else if has_avx2 cpu then u8_dot_avx2 a b else scalar_dot a b))"

definition dot_u16 :: "cpu_features \<Rightarrow> nat list \<Rightarrow> nat list \<Rightarrow> nat result" where
  "dot_u16 cpu a b =
     guardR (length a \<noteq> length b) (Panic ''assertion failed: a.len() == b.len()'')
       (Inr (if has_avx512 cpu then u16_dot_512 a b else if has_avx2 cpu then u16_dot_avx2 a b else scalar_dot a b))"

definition dot_i32 :: "cpu_features \<Rightarrow> int list \<Rightarrow> nat list \<Rightarrow> nat result" where
  "dot_i32 cpu a b =
     guardR (length a \<noteq> length b) (Panic ''assertion failed: a.len() == b.len()'')
       (Inr (if has_avx512 cpu then i32_dot_512 a b else if has_avx2 cpu then i32_dot_avx2 a b else scalar_i32 a b))"

text \<open>Four rows at once; the AVX-512 body keeps four accumulators per row.\<close>

definition i32_rows4_512 :: "int list \<Rightarrow> nat list \<Rightarrow> nat list" where
  "i32_rows4_512 a b = map (\<lambda>r. dot_512 (map as_u64 (take (length b) (drop (r * length b) a))) b) [0..<4]"

definition dot_i32_rows4 :: "cpu_features \<Rightarrow> int list \<Rightarrow> nat list \<Rightarrow> nat list result" where
  "dot_i32_rows4 cpu a b =
     guardR (length a \<noteq> 4 * length b) (Panic ''assertion failed: a.len() == 4 * b.len()'')
       (if has_avx512 cpu then Inr (i32_rows4_512 a b)
        else collectR (\<lambda>r. dot_i32 cpu (take (length b) (drop (r * length b) a)) b) [0..<4])"

section \<open>Sums of words\<close>

definition dot_sum :: "nat list \<Rightarrow> nat list \<Rightarrow> nat" where
  "dot_sum a b = (\<Sum>i<length a. a ! i * b ! i)"

lemma fold_wrapping: "s < 2 ^ 64 \<Longrightarrow> fold (\<lambda>x s. wrapping_add s (f x)) xs s = u64 (s + (\<Sum>x\<leftarrow>xs. f x))"
proof (induction xs arbitrary: s)
  case Nil
  then show ?case by (simp add: u64_id)
next
  case (Cons x xs)
  then show ?case by (simp add: wrapping_add_def u64_arith add.assoc)
qed

lemma u64_sum_list: "u64 (z + (\<Sum>x\<leftarrow>xs. u64 (f x))) = u64 (z + (\<Sum>x\<leftarrow>xs. f x))"
proof (induction xs arbitrary: z)
  case (Cons x xs)
  have "u64 (z + (u64 (f x) + (\<Sum>x\<leftarrow>xs. u64 (f x)))) = u64 ((z + u64 (f x)) + (\<Sum>x\<leftarrow>xs. f x))"
    using Cons [of "z + u64 (f x)"] by (simp add: add.assoc)
  also have "\<dots> = u64 (u64 (f x) + (z + (\<Sum>x\<leftarrow>xs. f x)))" by (simp add: ac_simps)
  also have "\<dots> = u64 (f x + (z + (\<Sum>x\<leftarrow>xs. f x)))" by (rule u64_arith)
  finally show ?case by (simp add: ac_simps)
qed simp

lemma scalar_dot_sum: "length a = length b \<Longrightarrow> scalar_dot a b = u64 (dot_sum a b)"
proof -
  assume len: "length a = length b"
  have "scalar_dot a b = fold (\<lambda>z s. wrapping_add s (wrapping_mul (fst z) (snd z))) (zip a b) 0"
    by (simp add: scalar_dot_def case_prod_beta')
  also have "\<dots> = u64 (0 + (\<Sum>z\<leftarrow>zip a b. u64 (fst z * snd z)))"
    by (subst fold_wrapping) (simp_all add: wrapping_mul_def)
  also have "\<dots> = u64 (\<Sum>z\<leftarrow>zip a b. fst z * snd z)" using u64_sum_list [of 0] by simp
  also have "(\<Sum>z\<leftarrow>zip a b. fst z * snd z) = dot_sum a b"
    using len by (simp add: dot_sum_def sum_list_sum_nth atLeast0LessThan)
  finally show ?thesis .
qed

lemma dot_sum_split:
  assumes "k \<le> length a" and "length a = length b"
  shows "dot_sum a b = (\<Sum>i<k. a ! i * b ! i) + dot_sum (drop k a) (drop k b)"
proof -
  have "(\<Sum>i<length a. a ! i * b ! i) = (\<Sum>i<k. a ! i * b ! i) + (\<Sum>i = k..<length a. a ! i * b ! i)"
    using assms(1) by (simp add: atLeast0LessThan [symmetric] sum.atLeastLessThan_concat)
  also have "(\<Sum>i = k..<length a. a ! i * b ! i) = (\<Sum>i<length a - k. a ! (k + i) * b ! (k + i))"
    using assms(1) by (subst sum.atLeastLessThan_shift_0) (simp add: atLeast0LessThan)
  finally show ?thesis using assms by (simp add: dot_sum_def)
qed

text \<open>Grouping a sum into steps of \<open>w\<close> lanes.\<close>

lemma sum_steps: "(\<Sum>lane<w. \<Sum>t<n. h (t * w + lane)) = (\<Sum>i<n * w. h i)" for h :: "nat \<Rightarrow> nat"
proof (induction n)
  case (Suc n)
  have "(\<Sum>i<Suc n * w. h i) = (\<Sum>i<n * w. h i) + (\<Sum>i = n * w..<n * w + w. h i)"
    by (simp add: atLeast0LessThan [symmetric] add.commute [of w] sum.atLeastLessThan_concat)
  also have "(\<Sum>i = n * w..<n * w + w. h i) = (\<Sum>lane<w. h (n * w + lane))"
    by (subst sum.atLeastLessThan_shift_0) (simp add: atLeast0LessThan)
  finally show ?case using Suc by (simp add: sum.distrib)
qed simp

lemma lane_words:
  assumes "words = map (\<lambda>lane. u64 (g lane)) [0..<w]" and "tail < 2 ^ 64"
  shows "fold (\<lambda>x s. wrapping_add s x) words tail = u64 (tail + (\<Sum>lane<w. g lane))"
proof -
  have "fold (\<lambda>x s. wrapping_add s x) words tail = u64 (tail + (\<Sum>lane\<leftarrow>[0..<w]. u64 (g lane)))"
    using fold_wrapping [OF assms(2), of "\<lambda>x. x" words] by (simp add: assms(1) comp_def)
  then show ?thesis unfolding u64_sum_list by (simp add: sum_list_distinct_conv_sum_set atLeast0LessThan)
qed

lemma fold_wrapping_mul: "fold (\<lambda>t s. wrapping_add s (wrapping_mul (f t) (g t))) [0..<n] 0 = u64 (\<Sum>t<n. f t * g t)"
proof -
  have "fold (\<lambda>t s. wrapping_add s (wrapping_mul (f t) (g t))) [0..<n] 0 = u64 (0 + (\<Sum>t\<leftarrow>[0..<n]. u64 (f t * g t)))"
    by (subst fold_wrapping) (simp_all add: wrapping_mul_def)
  also have "\<dots> = u64 (\<Sum>t\<leftarrow>[0..<n]. f t * g t)" using u64_sum_list [of 0] by simp
  finally show ?thesis by (simp add: sum_list_distinct_conv_sum_set atLeast0LessThan)
qed

lemma tail_split:
  assumes "length a = length b" and "steps = length a div w"
  shows "u64 (u64 (dot_sum (drop (steps * w) a) (drop (steps * w) b)) + (\<Sum>i<steps * w. a ! i * b ! i)) = u64 (dot_sum a b)"
  using dot_sum_split [of "steps * w" a b] assms by (simp add: u64_arith add.commute)

lemma dot_512_sum:
  assumes "length a = length b"
  shows "dot_512 a b = u64 (dot_sum a b)"
proof -
  define steps where "steps = length a div 32"
  let ?h = "\<lambda>i. a ! i * b ! i"
  define lane where "lane j l = (\<Sum>t<steps. ?h (t * 32 + (j * 8 + l)))" for j l
  let ?g = "\<lambda>l. (lane 0 l + lane 1 l) + (lane 2 l + lane 3 l)"
  have ls: "lane_sum_512 a b steps j l = u64 (lane j l)" for j l
    unfolding lane_sum_512_def lane_def by (rule fold_wrapping_mul)
  have words: "map (\<lambda>l. wrapping_add (wrapping_add (lane_sum_512 a b steps 0 l) (lane_sum_512 a b steps 1 l))
      (wrapping_add (lane_sum_512 a b steps 2 l) (lane_sum_512 a b steps 3 l))) [0..<8] = map (\<lambda>l. u64 (?g l)) [0..<8]"
    unfolding ls by (simp add: wrapping_add_def u64_arith)
  have "(\<Sum>i<steps * 32. ?h i) = (\<Sum>r<32. \<Sum>t<steps. ?h (t * 32 + r))" by (rule sum_steps [symmetric])
  also have "\<dots> = (\<Sum>l<8. \<Sum>j<4. \<Sum>t<steps. ?h (t * 32 + (j * 8 + l)))"
    using sum_steps [of "\<lambda>r. \<Sum>t<steps. ?h (t * 32 + r)" 8 4] by simp
  also have "\<dots> = (\<Sum>l<8. ?g l)" by (simp add: lane_def numeral_eq_Suc)
  finally have all: "(\<Sum>l<8. ?g l) = (\<Sum>i<steps * 32. ?h i)" by simp
  have "dot_512 a b = u64 (u64 (dot_sum (drop (steps * 32) a) (drop (steps * 32) b)) + (\<Sum>l<8. ?g l))"
    unfolding dot_512_def Let_def steps_def [symmetric] using assms
    by (subst lane_words [OF words]) (simp_all add: scalar_dot_sum)
  then show ?thesis unfolding all using tail_split [OF assms steps_def] by simp
qed

lemma u64_add_mult: "u64 (x + u64 c * y) = u64 (x + c * y)"
  by (metis u64_arith(2,3))

lemma mul64_ok:
  assumes "a < 2 ^ 64" and "b < 2 ^ 64"
  shows "mul64 a b = u64 (a * b)"
proof -
  define al ah bl bh where "al = a mod 2 ^ 32" and "ah = a div 2 ^ 32" and "bl = b mod 2 ^ 32" and "bh = b div 2 ^ 32"
  have a: "a = ah * 2 ^ 32 + al" "ah mod 2 ^ 32 = ah" and b: "b = bh * 2 ^ 32 + bl" "bh mod 2 ^ 32 = bh"
    using assms by (simp_all add: al_def ah_def bl_def bh_def div_mult_mod_eq less_mult_imp_div_less)
  have "mul64 a b = u64 (al * bl + (ah * bl + al * bh) * 2 ^ 32)"
    unfolding mul64_def Let_def wrapping_add_def u64_arith u64_add_mult
    by (simp only: al_def [symmetric] ah_def [symmetric] bl_def [symmetric] bh_def [symmetric] a(2) b(2))
  also have "\<dots> = u64 (al * bl + (ah * bl + al * bh) * 2 ^ 32 + 2 ^ 64 * (ah * bh))"
    by (simp add: u64_def)
  also have "al * bl + (ah * bl + al * bh) * 2 ^ 32 + 2 ^ 64 * (ah * bh) = a * b"
    unfolding a(1) b(1) by (simp add: algebra_simps)
  finally show ?thesis .
qed

lemma dot_avx2_sum:
  assumes "length a = length b" and "all_below (2 ^ 64) a" and "all_below (2 ^ 64) b"
  shows "dot_avx2 a b = u64 (dot_sum a b)"
proof -
  define steps where "steps = length a div 4"
  let ?g = "\<lambda>l. \<Sum>t<steps. a ! (t * 4 + l) * b ! (t * 4 + l)"
  have "t * 4 + l < length a" if "t < steps" "l < 4" for t l
    using that div_times_less_eq_dividend [of "length a" 4] mult_le_mono1 [of "Suc t" steps 4] by (simp add: steps_def)
  then have mul: "mul64 (a ! (t * 4 + l)) (b ! (t * 4 + l)) = wrapping_mul (a ! (t * 4 + l)) (b ! (t * 4 + l))" if "t < steps" "l < 4" for t l
    using that assms by (simp add: mul64_ok wrapping_mul_def all_below_nth)
  have "fold (\<lambda>t s. wrapping_add s (mul64 (a ! (t * 4 + l)) (b ! (t * 4 + l)))) [0..<steps] 0
      = fold (\<lambda>t s. wrapping_add s (wrapping_mul (a ! (t * 4 + l)) (b ! (t * 4 + l)))) [0..<steps] 0" if "l < 4" for l
    using mul that by (intro fold_cong) simp_all
  then have words: "map (\<lambda>l. fold (\<lambda>t s. wrapping_add s (mul64 (a ! (t * 4 + l)) (b ! (t * 4 + l)))) [0..<steps] 0) [0..<4]
      = map (\<lambda>l. u64 (?g l)) [0..<4]"
    by (simp add: fold_wrapping_mul)
  have "dot_avx2 a b = u64 (u64 (dot_sum (drop (steps * 4) a) (drop (steps * 4) b)) + (\<Sum>l<4. ?g l))"
    unfolding dot_avx2_def Let_def steps_def [symmetric] using assms
    by (subst lane_words [OF words]) (simp_all add: scalar_dot_sum)
  also have "(\<Sum>l<4. ?g l) = (\<Sum>i<steps * 4. a ! i * b ! i)" by (rule sum_steps)
  finally show ?thesis using tail_split [OF assms(1) steps_def] by simp
qed

section \<open>The contract of a dot product\<close>

text \<open>The low word of the integer sum. Masked to \<open>k\<close> bits it is the sum modulo \<open>2\<^sup>k\<close>, also when
  the first operand stands for signed integers.\<close>

locale word_dot =
  fixes dot :: "nat list \<Rightarrow> nat list \<Rightarrow> nat"
  assumes dot_low_word: "length a = length b \<Longrightarrow> all_below (2 ^ 64) a \<Longrightarrow> all_below (2 ^ 64) b \<Longrightarrow> dot a b = u64 (dot_sum a b)"
begin

lemma masked:
  assumes "length a = length b" and "all_below (2 ^ 64) a" and "all_below (2 ^ 64) b" and "k \<le> 64"
  shows "dot a b AND (2 ^ k - 1) = dot_sum a b mod 2 ^ k"
  unfolding and_exp_minus_1 dot_low_word [OF assms(1-3)] using assms(4) by (rule u64_mod_exp)

lemma masked_signed:
  assumes "length a = length b" and "all_below (2 ^ 64) b" and "k \<le> 64"
  shows "dot (map as_u64 a) b AND (2 ^ k - 1) = nat ((\<Sum>i<length b. a ! i * int (b ! i)) mod 2 ^ k)"
proof -
  have as: "all_below (2 ^ 64) (map as_u64 a)" by (auto simp: all_below_set as_u64_def nat_less_iff)
  have "eqm (2 ^ 64) (int (as_u64 x)) x" for x by (simp add: as_u64_def eqm_mod_iff)
  then have "eqm (2 ^ k) (int (as_u64 x)) x" for x by (rule eqm_dvd) (rule le_imp_power_dvd [OF assms(3)])
  then have "eqm (2 ^ k) (int (dot_sum (map as_u64 a) b)) (\<Sum>i<length b. a ! i * int (b ! i))"
    unfolding dot_sum_def of_nat_sum of_nat_mult using assms(1) by (auto intro!: eqm_sum eqm_mult)
  then have "int (dot_sum (map as_u64 a) b mod 2 ^ k) = (\<Sum>i<length b. a ! i * int (b ! i)) mod 2 ^ k"
    by (simp add: eqm_mod_iff zmod_int)
  then show ?thesis using masked [OF _ as assms(2,3)] assms(1) by (metis length_map nat_int)
qed

end

interpretation scalar_word: word_dot scalar_dot
  by unfold_locales (rule scalar_dot_sum)

interpretation avx512_word: word_dot dot_512
  by unfold_locales (rule dot_512_sum)

interpretation avx2_word: word_dot dot_avx2
  by unfold_locales (rule dot_avx2_sum)

interpretation dispatch_word: word_dot "\<lambda>a b. if has_avx512 cpu then dot_512 a b else if has_avx2 cpu then dot_avx2 a b else scalar_dot a b" for cpu
  by unfold_locales (simp add: scalar_word.dot_low_word avx512_word.dot_low_word avx2_word.dot_low_word)

lemma dot_dispatch_ok:
  assumes "length a = length b" and "all_below (2 ^ 64) a" and "all_below (2 ^ 64) b"
  shows "dot_u8 cpu a b = Inr (u64 (dot_sum a b))" and "dot_u16 cpu a b = Inr (u64 (dot_sum a b))"
  using dispatch_word.dot_low_word [of a b cpu] assms
  by (simp_all add: dot_u8_def dot_u16_def u8_dot_512_def u16_dot_512_def u8_dot_avx2_def u16_dot_avx2_def split: if_splits)

text \<open>The low word of a signed dot product.\<close>

definition int_dot_sum :: "int list \<Rightarrow> nat list \<Rightarrow> int" where
  "int_dot_sum a b = (\<Sum>i<length b. a ! i * int (b ! i))"

lemma as_u64_words [simp]: "all_below (2 ^ 64) (map as_u64 a)"
  by (auto simp: all_below_set as_u64_def nat_less_iff)

lemma dot_sum_signed: "length a = length b \<Longrightarrow> u64 (dot_sum (map as_u64 a) b) = as_u64 (int_dot_sum a b)"
proof -
  assume len: "length a = length b"
  have "eqm (2 ^ 64) (int (as_u64 x)) x" for x by (simp add: as_u64_def eqm_mod_iff)
  then have "eqm (2 ^ 64) (int (dot_sum (map as_u64 a) b)) (int_dot_sum a b)"
    unfolding dot_sum_def int_dot_sum_def of_nat_sum of_nat_mult using len by (auto intro!: eqm_sum eqm_mult)
  then show ?thesis by (simp add: u64_def as_u64_def eqm_mod_iff nat_mod_as_int)
qed

lemma dot_i32_ok: "length a = length b \<Longrightarrow> all_below (2 ^ 64) b \<Longrightarrow> dot_i32 cpu a b = Inr (as_u64 (int_dot_sum a b))"
  using dispatch_word.dot_low_word [of "map as_u64 a" b cpu, OF _ as_u64_words]
  by (simp add: dot_i32_def i32_dot_512_def i32_dot_avx2_def scalar_i32_def dot_sum_signed split: if_splits)

lemma dot_i32_rows4_ok:
  assumes "length a = 4 * length b" and "all_below (2 ^ 64) b"
  shows "dot_i32_rows4 cpu a b = Inr (map (\<lambda>r. as_u64 (int_dot_sum (take (length b) (drop (r * length b) a)) b)) [0..<4])"
proof -
  have len: "length (take (length b) (drop (r * length b) a)) = length b" if "r < 4" for r
  proof -
    have "1 * length b \<le> (4 - r) * length b" using that by (intro mult_le_mono1) simp
    then show ?thesis using assms(1) by (simp add: diff_mult_distrib)
  qed
  have "dot_512 (map as_u64 (take (length b) (drop (r * length b) a))) b
      = as_u64 (int_dot_sum (take (length b) (drop (r * length b) a)) b)" if "r < 4" for r
    using len [OF that] assms(2) by (simp add: dot_512_sum dot_sum_signed)
  moreover have "collectR (\<lambda>r. dot_i32 cpu (take (length b) (drop (r * length b) a)) b) [0..<4]
      = Inr (map (\<lambda>r. as_u64 (int_dot_sum (take (length b) (drop (r * length b) a)) b)) [0..<4])"
    using len assms(2) by (intro collectR_all_Inr) (simp add: dot_i32_ok)
  ultimately show ?thesis using assms(1) by (simp add: dot_i32_rows4_def i32_rows4_512_def)
qed

section \<open>Property\<close>

text \<open>C32. Whatever the processor supports, the column kernels return the low 64 bits of the integer dot
  product: reduced by a power-of-two mask it is the product modulo \<open>2 ^ k\<close>, for unsigned columns and for
  signed ones, and only a length mismatch is an error.\<close>

theorem dot_kernels_agree:
  assumes "all_below 65536 a" and "all_below (2 ^ 64) b" and "k \<le> 64"
  shows "mapR (\<lambda>s. s AND (2 ^ k - 1)) (dot_u16 cpu a b) = (if length a = length b then Inr (dot_sum a b mod 2 ^ k) else Inl (Panic ''assertion failed: a.len() == b.len()''))
    \<and> mapR (\<lambda>s. s AND (2 ^ k - 1)) (dot_i32 cpu c b) = (if length c = length b then Inr (nat (int_dot_sum c b mod 2 ^ k)) else Inl (Panic ''assertion failed: a.len() == b.len()''))"
proof -
  have "all_below (2 ^ 64) a" by (rule all_below_mono [OF assms(1)]) simp
  moreover have "as_u64 z mod 2 ^ k = nat (z mod 2 ^ k)" for z
  proof -
    have "(2::int) ^ k dvd 2 ^ 64" using assms(3) by (rule le_imp_power_dvd)
    then have "int (as_u64 z mod 2 ^ k) = z mod 2 ^ k" using mod_mod_cancel [of "2 ^ k" "2 ^ 64" z] by (simp add: as_u64_def zmod_int)
    then show ?thesis by linarith
  qed
  ultimately show ?thesis
    using assms dot_dispatch_ok(2) [of a b cpu] dot_i32_ok [of c b cpu]
    by (cases "length a = length b"; cases "length c = length b")
      (simp_all add: and_exp_minus_Suc_0 u64_mod_exp, simp_all add: dot_u16_def dot_i32_def)
qed

theorem dot_kernels_agree_witness:
  "mapR (\<lambda>s. s AND (2 ^ 10 - 1)) (dot_u16 \<lparr>has_avx2 = True, has_avx512 = False, has_vnni = False, has_vbmi = False\<rparr> [65535, 2] [2 ^ 63 + 5, 7]) = Inr (dot_sum [65535, 2] [2 ^ 63 + 5, 7] mod 2 ^ 10)
    \<and> mapR (\<lambda>s. s AND (2 ^ 10 - 1)) (dot_i32 \<lparr>has_avx2 = True, has_avx512 = False, has_vnni = False, has_vbmi = False\<rparr> [-3, 2] [2 ^ 63 + 5, 7]) = Inr (nat (int_dot_sum [-3, 2] [2 ^ 63 + 5, 7] mod 2 ^ 10))"
  using dot_kernels_agree [of "[65535, 2]" "[2 ^ 63 + 5, 7]" 10 _ "[-3, 2]"] by simp

end
