(* ===== verification/Native_Query.thy ===== *)
theory Native_Query
  imports Native_Dot
begin

text \<open>
  The prepared query of \<open>reinspiring/src/native_kernel.rs\<close>: signed radix-256 digits of the query
  words, the byte-tile layouts of 8-bit and 16-bit database bands, and the multiplications over
  them, with the portable loops and the AVX-512 VNNI bodies. The byte dot-product instruction is
  \<open>dpbusd\<close>, with its 32-bit accumulator at its width.
\<close>

section \<open>Model\<close>

definition i8 :: "nat \<Rightarrow> int" where
  "i8 b = (if b < 128 then int b else int b - 256)"

definition i32 :: "int \<Rightarrow> int" where
  "i32 x = (x + 2 ^ 31) mod 2 ^ 32 - 2 ^ 31"

text \<open>The indices of \<open>(a..b).step_by(s)\<close>.\<close>

definition step_by :: "nat \<Rightarrow> nat \<Rightarrow> nat \<Rightarrow> nat list" where
  "step_by a b s = map (\<lambda>t. a + t * s) [0..<div_ceil (b - a) s]"

record prepared_query =
  pq_words :: "nat list"
  pq_digits :: "int list list"
  pq_skip :: nat
  pq_mask :: nat

primrec word_digits :: "nat \<Rightarrow> nat \<Rightarrow> int list" where
  "word_digits 0 x = []"
| "word_digits (Suc n) x = i8 (u8 x) # word_digits n (drop_bit 8 (u64 (x + 128)))"

definition byte_digits :: "nat list \<Rightarrow> nat \<Rightarrow> int list list \<times> nat" where
  "byte_digits words q =
     (let limbs = div_ceil (trailing_zeros q) 8;
          digits = map (\<lambda>j. map (\<lambda>x. word_digits limbs x ! j) words) [0..<limbs];
          skip = length (takeWhile (list_all (\<lambda>x. x = 0)) (take (limbs - 1) digits))
      in (drop skip digits, skip))"

definition new_query :: "cpu_features \<Rightarrow> nat list \<Rightarrow> nat \<Rightarrow> prepared_query result" where
  "new_query cpu words q =
     guardR (\<not> is_power_of_two q \<or> \<not> (2 \<le> q \<and> q \<le> 2 ^ 56) \<or> list_ex (\<lambda>x. x \<ge> q) words) (InvalidParams ''invalid native dot query'')
       (let (digits, skip) = (if has_vnni cpu then byte_digits words q else ([], 0))
        in Inr \<lparr>pq_words = words, pq_digits = digits, pq_skip = skip, pq_mask = q - 1\<rparr>)"

definition skipped_low_digits :: "prepared_query \<Rightarrow> nat" where
  "skipped_low_digits p = pq_skip p"

definition query_dot_u8 :: "cpu_features \<Rightarrow> prepared_query \<Rightarrow> nat list \<Rightarrow> nat result" where
  "query_dot_u8 cpu p column =
     guardR (length column \<noteq> length (pq_words p)) (Panic ''assertion failed: column.len()'')
       (mapR (\<lambda>s. s AND pq_mask p) (dot_u8 cpu column (pq_words p)))"

subsection \<open>Tiles\<close>

text \<open>The assignments to the scratch band touch every element once: element \<open>row * 16 + col * 4 + k\<close>
  of a byte tile, and the low and high planes of a 16-bit tile.\<close>

definition tile_u8 :: "nat \<Rightarrow> nat list \<Rightarrow> nat list" where
  "tile_u8 rows band = map (\<lambda>i. let row = i div 64 * 4; col = i mod 64 div 4; k = i mod 4 in band ! (col * rows + row + k)) [0..<rows * 16]"

definition interleave_u8_columns :: "nat \<Rightarrow> nat list \<Rightarrow> nat list result" where
  "interleave_u8_columns rows db =
     guardR (\<not> (0 < rows \<and> rows mod 4 = 0 \<and> length db mod (rows * 16) = 0)) (Panic ''assertion failed: rows'')
       (Inr (concat (map (tile_u8 rows) (chunks_exact (rows * 16) db))))"

definition tile_u16 :: "nat \<Rightarrow> nat list \<Rightarrow> nat list" where
  "tile_u16 rows band = map (\<lambda>i.
     let row = i div 64 * 4; col = i mod 32 div 2; pair = i mod 2;
         x = band ! (col * rows + row + 2 * pair); y = band ! (col * rows + row + 2 * pair + 1)
     in if i mod 64 < 32 then (x AND 255) OR push_bit 8 (y AND 255) else drop_bit 8 x OR (y AND 65280)) [0..<rows * 16]"

definition interleave_columns :: "nat \<Rightarrow> nat list \<Rightarrow> nat list result" where
  "interleave_columns rows db =
     guardR (\<not> (0 < rows \<and> rows mod 4 = 0 \<and> length db mod (rows * 16) = 0)) (Panic ''assertion failed: rows'')
       (Inr (concat (map (tile_u16 rows) (chunks_exact (rows * 16) db))))"

subsection \<open>The byte dot-product bodies\<close>

text \<open>One 32-bit lane of the byte dot product: four unsigned bytes by four signed bytes.\<close>

definition dpbusd :: "int \<Rightarrow> (nat \<Rightarrow> nat) \<Rightarrow> (nat \<Rightarrow> int) \<Rightarrow> int" where
  "dpbusd acc x y = i32 (acc + (\<Sum>k\<leftarrow>[0..<4]. int (x k) * y k))"

text \<open>Byte \<open>b\<close> of a vector loaded from 16-bit words.\<close>

definition mem_byte :: "nat list \<Rightarrow> nat \<Rightarrow> nat" where
  "mem_byte ws b = drop_bit (8 * (b mod 2)) (ws ! (b div 2)) AND 255"

definition tile_lane :: "(nat \<Rightarrow> nat) \<Rightarrow> int list \<Rightarrow> nat \<Rightarrow> nat \<Rightarrow> nat \<Rightarrow> int" where
  "tile_lane byte digit col start stop =
     fold (\<lambda>row acc. dpbusd acc (\<lambda>k. byte (row * 16 + (col * 4 + k))) (\<lambda>k. digit ! (row + k))) (step_by start stop 4) 0"

definition shifted :: "int \<Rightarrow> nat \<Rightarrow> nat" where
  "shifted x shift = u64 (push_bit shift (as_u64 x))"

definition interleaved_inner :: "nat list \<Rightarrow> int list list \<Rightarrow> nat \<Rightarrow> nat \<Rightarrow> nat list" where
  "interleaved_inner db digits msk base =
     (let rows = length db div 16; L = length digits;
          low = (\<lambda>b. mem_byte db (b div 64 * 128 + b mod 64)); high = (\<lambda>b. mem_byte db (b div 64 * 128 + 64 + b mod 64))
      in map (\<lambda>col. fold (\<lambda>start out.
               fold (\<lambda>j out.
                 let shift = base + 8 * j; stop = min (start + 65536) rows;
                     out = wrapping_add out (shifted (tile_lane low (digits ! j) col start stop) shift)
                 in if j + 1 < L then wrapping_add out (shifted (tile_lane high (digits ! j) col start stop) (shift + 8)) else out)
               [0..<L] out) (step_by 0 rows 65536) 0 AND msk) [0..<16])"

definition interleaved_u8_inner :: "nat list \<Rightarrow> int list list \<Rightarrow> nat \<Rightarrow> nat \<Rightarrow> nat list" where
  "interleaved_u8_inner db digits msk base =
     (let rows = length db div 16
      in map (\<lambda>col. fold (\<lambda>start out.
               fold (\<lambda>j out. wrapping_add out (shifted (tile_lane (\<lambda>b. db ! b) (digits ! j) col start (min (start + 65536) rows)) (base + 8 * j)))
                 [0..<length digits] out) (step_by 0 rows 65536) 0 AND msk) [0..<16])"

definition interleaved_vnni :: "nat list \<Rightarrow> int list list \<Rightarrow> nat \<Rightarrow> nat \<Rightarrow> nat list result" where
  "interleaved_vnni db digits msk base =
     guardR (\<not> (1 \<le> length digits \<and> length digits \<le> 7)) (Panic ''unreachable'') (Inr (interleaved_inner db digits msk base))"

definition interleaved_u8_vnni :: "nat list \<Rightarrow> int list list \<Rightarrow> nat \<Rightarrow> nat \<Rightarrow> nat list result" where
  "interleaved_u8_vnni db digits msk base =
     guardR (\<not> (1 \<le> length digits \<and> length digits \<le> 7)) (Panic ''unreachable'') (Inr (interleaved_u8_inner db digits msk base))"

definition portable_u8 :: "nat list \<Rightarrow> nat list \<Rightarrow> nat \<Rightarrow> nat list" where
  "portable_u8 words band msk =
     map (\<lambda>col. fold (\<lambda>row dst. fold (\<lambda>k dst. wrapping_add dst (wrapping_mul (band ! (row * 16 + col * 4 + k)) (words ! (row + k)))) [0..<4] dst)
       (step_by 0 (length words) 4) 0 AND msk) [0..<16]"

definition portable_u16 :: "nat list \<Rightarrow> nat list \<Rightarrow> nat \<Rightarrow> nat list" where
  "portable_u16 words band msk =
     map (\<lambda>col. fold (\<lambda>row dst. fold (\<lambda>k dst.
         let lane = col * 4 + k;
             lo = drop_bit (lane mod 2 * 8) (band ! (row * 16 + lane div 2)) AND 255;
             hi = drop_bit (lane mod 2 * 8) (band ! (row * 16 + 32 + lane div 2)) AND 255
         in wrapping_add dst (wrapping_mul (lo OR u16 (push_bit 8 hi)) (words ! (row + k)))) [0..<4] dst)
       (step_by 0 (length words) 4) 0 AND msk) [0..<16]"

definition multiply_interleaved_u8 :: "prepared_query \<Rightarrow> nat list \<Rightarrow> nat \<Rightarrow> nat list result" where
  "multiply_interleaved_u8 p db out_len =
     (let rows = length (pq_words p)
      in guardR (\<not> (0 < rows \<and> rows mod 4 = 0 \<and> out_len mod 16 = 0)) (Panic ''assertion failed: rows'')
        (guardR (checked_mul rows out_len = None) (Panic ''matrix size'')
        (guardR (length db \<noteq> rows * out_len) (Panic ''assertion failed: db.len()'')
          (mapR concat (collectR (\<lambda>band.
             if pq_digits p \<noteq> [] then interleaved_u8_vnni band (pq_digits p) (pq_mask p) (8 * pq_skip p)
             else Inr (portable_u8 (pq_words p) band (pq_mask p))) (chunks_exact (rows * 16) db))))))"

definition multiply_interleaved :: "prepared_query \<Rightarrow> nat list \<Rightarrow> nat \<Rightarrow> nat list result" where
  "multiply_interleaved p db out_len =
     (let rows = length (pq_words p)
      in guardR (\<not> (0 < rows \<and> rows mod 4 = 0 \<and> out_len mod 16 = 0)) (Panic ''assertion failed: rows'')
        (guardR (checked_mul rows out_len = None) (Panic ''matrix size'')
        (guardR (length db \<noteq> rows * out_len) (Panic ''assertion failed: db.len()'')
          (mapR concat (collectR (\<lambda>band.
             if pq_digits p \<noteq> [] then interleaved_vnni band (pq_digits p) (pq_mask p) (8 * pq_skip p)
             else Inr (portable_u16 (pq_words p) band (pq_mask p))) (chunks_exact (rows * 16) db))))))"

text \<open>The column-at-a-time body: groups of 64 elements over sixteen lanes, then the scalar tail.\<close>

definition column_lane :: "(nat \<Rightarrow> nat) \<Rightarrow> int list \<Rightarrow> nat \<Rightarrow> nat \<Rightarrow> nat \<Rightarrow> nat \<Rightarrow> int" where
  "column_lane byte digit offset lane start stop =
     fold (\<lambda>i acc. dpbusd acc (\<lambda>k. byte (i + (lane * 4 + k))) (\<lambda>k. digit ! (offset + i + (lane * 4 + k)))) (step_by start stop 64) 0"

definition reduce_add :: "(nat \<Rightarrow> int) \<Rightarrow> int" where
  "reduce_add lanes = fold (\<lambda>l s. i32 (s + lanes l)) [0..<16] 0"

definition u16_dot_vnni :: "nat list \<Rightarrow> nat list \<Rightarrow> int list list \<Rightarrow> nat \<Rightarrow> nat \<Rightarrow> nat" where
  "u16_dot_vnni a b digits offset base =
     (let stop = length a div 64 * 64;
          low = (\<lambda>i. a ! i AND 255); high = (\<lambda>i. drop_bit 8 (a ! i) AND 255);
          result = fold (\<lambda>start res. fold (\<lambda>j res.
              let l = reduce_add (\<lambda>lane. column_lane low (digits ! j) offset lane start (min (start + 65536) stop));
                  h = reduce_add (\<lambda>lane. column_lane high (digits ! j) offset lane start (min (start + 65536) stop))
              in wrapping_add (wrapping_add res (shifted l (base + 8 * j))) (shifted h (base + (8 * j + 8)))) [0..<length digits] res)
            (step_by 0 stop 65536) 0
      in fold (\<lambda>(x, y) s. wrapping_add s (wrapping_mul x y)) (zip (drop stop a) (drop stop b)) result)"

definition dot_range :: "cpu_features \<Rightarrow> prepared_query \<Rightarrow> nat list \<Rightarrow> nat \<Rightarrow> nat result" where
  "dot_range cpu p column offset =
     guardR (length (pq_words p) < offset + length column) (Panic ''slice index out of range'')
       (let words = take (length column) (drop offset (pq_words p))
        in if pq_digits p \<noteq> []
           then guardR (length (pq_digits p) > 7) (Panic ''validated byte limb count'')
             (Inr (u16_dot_vnni column words (pq_digits p) offset (8 * pq_skip p) AND pq_mask p))
           else mapR (\<lambda>s. s AND pq_mask p) (dot_u16 cpu column words))"

definition query_dot :: "cpu_features \<Rightarrow> prepared_query \<Rightarrow> nat list \<Rightarrow> nat result" where
  "query_dot cpu p column =
     guardR (length column \<noteq> length (pq_words p)) (Panic ''assertion failed: column.len()'') (dot_range cpu p column 0)"

section \<open>Digits\<close>

lemma i8_range: "b < 256 \<Longrightarrow> \<bar>i8 b\<bar> \<le> 128"
  by (auto simp: i8_def)

lemma length_word_digits [simp]: "length (word_digits n x) = n"
  by (induction n arbitrary: x) simp_all

lemma word_digits_range: "j < n \<Longrightarrow> \<bar>word_digits n x ! j\<bar> \<le> 128"
proof (induction n arbitrary: x j)
  case (Suc n)
  then show ?case by (cases j) (simp_all add: i8_range)
qed simp

lemma word_digits_sum:
  assumes "x \<le> 2 ^ 56"
  shows "eqm (256 ^ n) (\<Sum>j<n. word_digits n x ! j * 256 ^ j) (int x)"
  using assms
proof (induction n arbitrary: x)
  case (Suc n)
  let ?y = "drop_bit 8 (u64 (x + 128))"
  have "u64 (x + 128) = x + 128" using Suc.prems by (intro u64_id) simp
  then have y: "?y = (x + 128) div 256" by (simp add: drop_bit_eq_div)
  have x: "int x = i8 (u8 x) + 256 * int ?y" 
  proof -
    obtain a b where ab: "x = 256 * a + b" "b < 256" by (metis mod_less_divisor mult_div_mod_eq zero_less_numeral)
    then have "u8 x = b" "(x + 128) div 256 = (if b < 128 then a else Suc a)"
      by (simp add: u8_def, intro div_nat_eqI) auto
    then show ?thesis using ab unfolding y by (simp add: i8_def)
  qed
  have "?y \<le> 2 ^ 56" unfolding y using Suc.prems div_le_mono [of "x + 128" "2 ^ 56 + 128" 256] by simp
  then have "eqm (256 ^ n) (\<Sum>j<n. word_digits n ?y ! j * 256 ^ j) (int ?y)" by (rule Suc.IH)
  then have "eqm (256 * 256 ^ n) (256 * (\<Sum>j<n. word_digits n ?y ! j * 256 ^ j)) (256 * int ?y)"
    unfolding eqm_def of_nat_mult of_nat_numeral right_diff_distrib [symmetric] by (rule mult_dvd_mono [OF dvd_refl])
  then have "eqm (256 ^ Suc n) (i8 (u8 x) + 256 * (\<Sum>j<n. word_digits n ?y ! j * 256 ^ j)) (int x)"
    unfolding x by (intro eqm_add) simp_all
  then show ?case by (simp add: sum.lessThan_Suc_shift sum_distrib_left mult_ac del: sum.lessThan_Suc)
qed (simp add: eqm_def)

text \<open>What the constructor establishes, whichever representation the processor selects.\<close>

definition query_ok :: "nat \<Rightarrow> prepared_query \<Rightarrow> bool" where
  "query_ok q p \<longleftrightarrow> is_power_of_two q \<and> 2 \<le> q \<and> q \<le> 2 ^ 56 \<and> pq_mask p = q - 1 \<and> all_below q (pq_words p)
     \<and> (pq_digits p \<noteq> [] \<longrightarrow>
          length (pq_digits p) \<le> 7 \<and> pq_skip p + length (pq_digits p) \<le> 7 \<and> q dvd 256 ^ (pq_skip p + length (pq_digits p))
        \<and> (\<forall>d\<in>set (pq_digits p). length d = length (pq_words p) \<and> (\<forall>x\<in>set d. \<bar>x\<bar> \<le> 128))
        \<and> (\<forall>i<length (pq_words p). eqm q (\<Sum>j<length (pq_digits p). pq_digits p ! j ! i * 256 ^ (pq_skip p + j)) (int (pq_words p ! i))))"

lemma byte_digits_ok:
  fixes words :: "nat list"
  assumes q: "q = 2 ^ k" and k: "0 < k" "k \<le> 56" and words: "all_below q words"
    and res: "byte_digits words q = (digits, skip)"
  shows "digits \<noteq> []" and "skip + length digits = div_ceil k 8" and "q dvd 256 ^ (skip + length digits)"
    and "\<And>d. d \<in> set digits \<Longrightarrow> length d = length words \<and> (\<forall>x\<in>set d. \<bar>x\<bar> \<le> 128)"
    and "\<And>i. i < length words \<Longrightarrow> eqm q (\<Sum>j<length digits. digits ! j ! i * 256 ^ (skip + j)) (int (words ! i))"
proof -
  define n where "n = div_ceil k 8"
  define ds where "ds = map (\<lambda>j. map (\<lambda>x. word_digits n x ! j) words) [0..<n]"
  have tz: "trailing_zeros q = k" using q k by simp
  have sk: "skip = length (takeWhile (list_all (\<lambda>x. x = 0)) (take (n - 1) ds))" and dg: "digits = drop skip ds"
    using res by (auto simp: byte_digits_def tz n_def ds_def Let_def)
  have n: "0 < n" "k \<le> 8 * n" using k by (auto simp: n_def div_ceil_def) 
  have "skip \<le> n - 1" unfolding sk using length_takeWhile_le [of _ "take (n - 1) ds"] by (rule order_trans) simp
  then have skn: "skip < n" using n by simp
  have len: "length ds = n" by (simp add: ds_def)
  show "digits \<noteq> []" "skip + length digits = div_ceil k 8" using skn len by (simp_all add: dg n_def)
  then have tot: "skip + length digits = n" by (simp add: n_def)
  have "256 ^ n = (2::nat) ^ (8 * n)" by (simp add: power_mult)
  then show qd: "q dvd 256 ^ (skip + length digits)" unfolding tot q using n(2) by (simp add: le_imp_power_dvd)
  show "length d = length words \<and> (\<forall>x\<in>set d. \<bar>x\<bar> \<le> 128)" if "d \<in> set digits" for d
    using in_set_dropD [OF that [unfolded dg]] by (auto simp: ds_def word_digits_range)
  fix i assume i: "i < length words"
  have zero: "ds ! j ! i = 0" if "j < skip" for j
  proof -
    have "takeWhile (list_all (\<lambda>x. x = 0)) (take (n - 1) ds) ! j = take (n - 1) ds ! j" using that sk by (intro takeWhile_nth) simp
    moreover have "list_all (\<lambda>x. x = 0) (takeWhile (list_all (\<lambda>x. x = 0)) (take (n - 1) ds) ! j)"
      using that sk by (metis nth_mem set_takeWhileD)
    ultimately have "list_all (\<lambda>x. x = 0) (ds ! j)" using that \<open>skip \<le> n - 1\<close> by simp
    then show ?thesis using i that skn by (simp add: list_all_length ds_def)
  qed
  have "words ! i \<le> 2 ^ 56"
  proof -
    have "words ! i < 2 ^ k" using all_below_nth [OF words i] q by simp
    also have "\<dots> \<le> 2 ^ 56" using k(2) by (intro power_increasing) simp_all
    finally show ?thesis by simp
  qed
  then have "eqm (256 ^ n) (\<Sum>j<n. word_digits n (words ! i) ! j * 256 ^ j) (int (words ! i))" by (rule word_digits_sum)
  then have "eqm q (\<Sum>j<n. ds ! j ! i * 256 ^ j) (int (words ! i))"
    using i qd eqm_dvd [of "256 ^ n" _ _ q] by (simp add: ds_def tot)
  also have "(\<Sum>j<n. ds ! j ! i * 256 ^ j) = (\<Sum>j<length digits. digits ! j ! i * 256 ^ (skip + j))"
  proof -
    have "(\<Sum>j<n. ds ! j ! i * 256 ^ j) = (\<Sum>j\<in>{skip..<n}. ds ! j ! i * 256 ^ j)"
      using zero by (intro sum.mono_neutral_right) auto
    also have "\<dots> = (\<Sum>j<n - skip. ds ! (skip + j) ! i * 256 ^ (skip + j))"
      using skn by (intro sum.reindex_bij_witness [of _ "\<lambda>j. skip + j" "\<lambda>j. j - skip"]) auto
    finally show ?thesis using len skn by (simp add: dg)
  qed
  finally show "eqm q (\<Sum>j<length digits. digits ! j ! i * 256 ^ (skip + j)) (int (words ! i))" .
qed

lemma new_query_ok:
  assumes "new_query cpu words q = Inr p"
  shows "query_ok q p" and "pq_words p = words"
proof -
  have ok: "is_power_of_two q" "2 \<le> q" "q \<le> 2 ^ 56" "all_below q words" and p: "pq_words p = words" "pq_mask p = q - 1"
      "(pq_digits p, pq_skip p) = (if has_vnni cpu then byte_digits words q else ([], 0))"
    using assms by (auto simp: new_query_def list_ex_iff all_below_set not_le split: prod.splits)
  obtain k where k: "k < 64" "q = 2 ^ k" using ok(1) by (auto simp: is_power_of_two_iff)
  have k2: "0 < k" "k \<le> 56" using ok(2,3) k(2) le_log2 [of k 56] by (auto intro: Nat.gr0I)
  show "pq_words p = words" by (rule p(1))
  show "query_ok q p"
  proof (cases "pq_digits p = []")
    case False
    then have "byte_digits words q = (pq_digits p, pq_skip p)" using p(3) by (auto split: if_splits)
    note d = byte_digits_ok [OF k(2) k2 ok(4) this]
    have "div_ceil k 8 \<le> 7" using k2 unfolding div_ceil_def by presburger
    then show ?thesis using d ok p by (auto simp: query_ok_def)
  qed (use ok p in \<open>simp add: query_ok_def\<close>)
qed

section \<open>Accumulators\<close>

lemma i32_id: "- (2 ^ 31) \<le> x \<Longrightarrow> x < 2 ^ 31 \<Longrightarrow> i32 x = x"
  by (simp add: i32_def)

lemma byte_product_bound: "x < 256 \<Longrightarrow> \<bar>y\<bar> \<le> 128 \<Longrightarrow> \<bar>int x * y\<bar> \<le> 32640"
proof -
  assume "x < 256" "\<bar>y\<bar> \<le> 128"
  then have "int x * \<bar>y\<bar> \<le> 255 * 128" by (intro mult_mono) simp_all
  then show ?thesis by (simp add: abs_mult)
qed

lemma i32_fold:
  assumes "\<And>t. t < n \<Longrightarrow> \<bar>g t\<bar> \<le> B" and "int n * B < 2 ^ 31" and "0 \<le> B"
  shows "fold (\<lambda>t s. i32 (s + g t)) [0..<n] 0 = (\<Sum>t<n. g t)"
proof -
  have "fold (\<lambda>t s. i32 (s + g t)) [0..<m] 0 = (\<Sum>t<m. g t) \<and> \<bar>\<Sum>t<m. g t\<bar> \<le> int m * B" if "m \<le> n" for m
    using that
  proof (induction m)
    case (Suc m)
    then have IH: "fold (\<lambda>t s. i32 (s + g t)) [0..<m] 0 = (\<Sum>t<m. g t)" "\<bar>\<Sum>t<m. g t\<bar> \<le> int m * B" by simp_all
    have b: "\<bar>(\<Sum>t<m. g t) + g m\<bar> \<le> int (Suc m) * B"
      using IH(2) assms(1) [of m] Suc.prems abs_triangle_ineq [of "\<Sum>t<m. g t" "g m"] by (simp add: algebra_simps)
    also have "\<dots> \<le> int n * B" using Suc.prems assms(3) by (intro mult_right_mono) simp_all
    finally have "i32 ((\<Sum>t<m. g t) + g m) = (\<Sum>t<m. g t) + g m" using assms(2) by (intro i32_id) linarith+
    then show ?case using IH(1) b by simp
  qed simp
  then show ?thesis by blast
qed

lemma step_by_exact: "0 < s \<Longrightarrow> step_by a (a + n * s) s = map (\<lambda>t. a + t * s) [0..<n]"
  by (simp add: step_by_def div_ceil_def)

lemma fold_step_by: "0 < s \<Longrightarrow> fold f (step_by a (a + n * s) s) z = fold (\<lambda>t. f (a + t * s)) [0..<n] z"
  by (simp add: step_by_exact fold_map comp_def)

lemma sum_groups: "(\<Sum>t<n. \<Sum>k<w. h (t * w + k)) = (\<Sum>i<n * w. h i)" for h :: "nat \<Rightarrow> 'a::comm_monoid_add"
proof -
  have "(\<Sum>k<w. h (t * w + k)) = sum h {t * w..<t * w + w}" for t
    by (simp add: sum.atLeastLessThan_shift_0 [of h "t * w"] atLeast0LessThan)
  then show ?thesis by (simp add: sum.nat_group)
qed

lemma dpbusd_fold:
  assumes "n \<le> 16384" and "\<And>t k. t < n \<Longrightarrow> k < 4 \<Longrightarrow> x t k < 256 \<and> \<bar>y t k\<bar> \<le> 128"
  shows "fold (\<lambda>t acc. dpbusd acc (x t) (y t)) [0..<n] 0 = (\<Sum>t<n. \<Sum>k<4. int (x t k) * y t k)"
proof -
  have "\<bar>\<Sum>k<4. int (x t k) * y t k\<bar> \<le> 4 * 32640" if "t < n" for t
  proof -
    have "\<bar>\<Sum>k<4. int (x t k) * y t k\<bar> \<le> (\<Sum>k<4. \<bar>int (x t k) * y t k\<bar>)" by (rule sum_abs)
    also have "\<dots> \<le> (\<Sum>k<(4::nat). 32640)" using assms(2) [OF that] by (intro sum_mono byte_product_bound) auto
    finally show ?thesis by simp
  qed
  moreover have "dpbusd acc (x t) (y t) = i32 (acc + (\<Sum>k<4. int (x t k) * y t k))" for acc t
    by (simp add: dpbusd_def interv_sum_list_conv_sum_set_nat atLeast0LessThan del: upt_Suc)
  ultimately show ?thesis using i32_fold [of n "\<lambda>t. \<Sum>k<4. int (x t k) * y t k" "4 * 32640"] assms(1) by simp
qed

lemma tile_lane_ok:
  assumes "n \<le> 16384" and "\<And>r. r < n * 4 \<Longrightarrow> x (start + r) < 256 \<and> \<bar>digit ! (start + r)\<bar> \<le> 128"
    and "\<And>t k. t < n \<Longrightarrow> k < 4 \<Longrightarrow> byte ((start + t * 4) * 16 + (col * 4 + k)) = x (start + t * 4 + k)"
  shows "tile_lane byte digit col start (start + n * 4) = (\<Sum>r<n * 4. int (x (start + r)) * digit ! (start + r))"
proof -
  have idx: "t * 4 + k < n * 4" if "t < n" "k < 4" for t k using that by linarith
  have "tile_lane byte digit col start (start + n * 4)
      = fold (\<lambda>t acc. dpbusd acc (\<lambda>k. byte ((start + t * 4) * 16 + (col * 4 + k))) (\<lambda>k. digit ! (start + t * 4 + k))) [0..<n] 0"
    unfolding tile_lane_def by (simp add: fold_step_by)
  also have "\<dots> = (\<Sum>t<n. \<Sum>k<4. int (byte ((start + t * 4) * 16 + (col * 4 + k))) * digit ! (start + t * 4 + k))"
    using assms(1,3) assms(2) [OF idx] by (intro dpbusd_fold) (simp_all add: add.assoc)
  also have "\<dots> = (\<Sum>t<n. \<Sum>k<4. int (x (start + (t * 4 + k))) * digit ! (start + (t * 4 + k)))"
    using assms(3) by (intro sum.cong refl) (simp add: add.assoc)
  finally show ?thesis unfolding sum_groups [where h = "\<lambda>i. int (x (start + i)) * digit ! (start + i)"] .
qed

text \<open>The windows cover every row once.\<close>

lemma sum_windows:
  fixes f :: "nat \<Rightarrow> int"
  assumes "0 < w"
  shows "(\<Sum>start\<leftarrow>step_by 0 rows w. \<Sum>r<min (start + w) rows - start. f (start + r)) = (\<Sum>r<rows. f r)"
proof -
  have shift: "(\<Sum>r<b. f (a + r)) = sum f {a..<a + b}" for a b
    by (simp add: sum.atLeastLessThan_shift_0 [of f a] atLeast0LessThan)
  have "(\<Sum>t<n. sum f {t * w..<t * w + (min (t * w + w) rows - t * w)}) = sum f {..<min (n * w) rows}" for n
  proof (induction n)
    case (Suc n)
    have "{..<min (Suc n * w) rows} = {..<min (n * w) rows} \<union> {n * w..<n * w + (min (n * w + w) rows - n * w)}" by auto
    moreover have "{..<min (n * w) rows} \<inter> {n * w..<n * w + (min (n * w + w) rows - n * w)} = {}" by auto
    ultimately show ?case using Suc by (simp add: sum.union_disjoint)
  qed simp
  moreover have "rows \<le> div_ceil rows w * w" using less_div_ceil_iff [OF assms, of "div_ceil rows w" rows] by simp
  ultimately show ?thesis
    by (simp add: step_by_def comp_def shift interv_sum_list_conv_sum_set_nat atLeast0LessThan min_absorb2 del: upt_Suc)
qed

text \<open>Wrapping accumulation, up to congruence.\<close>

lemma fold_eqm:
  assumes "\<And>x s. x \<in> set xs \<Longrightarrow> eqm m (int (f x s)) (int s + g x)"
  shows "eqm m (int (fold f xs s)) (int s + (\<Sum>x\<leftarrow>xs. g x))"
  using assms
proof (induction xs arbitrary: s)
  case (Cons x xs)
  have "eqm m (int (fold f xs (f x s))) (int (f x s) + (\<Sum>x\<leftarrow>xs. g x))" using Cons by simp
  also have "eqm m (int (f x s) + (\<Sum>x\<leftarrow>xs. g x)) (int s + g x + (\<Sum>x\<leftarrow>xs. g x))" using Cons.prems by (intro eqm_add) simp_all
  finally show ?case by (simp add: add.assoc)
qed simp

lemma wrapping_add_eqm: "eqm (2 ^ 64) (int (wrapping_add a b)) (int a + int b)"
  by (simp add: wrapping_add_def u64_def eqm_mod_iff zmod_int)

lemma shifted_eqm: "eqm (2 ^ 64) (int (shifted x s)) (x * 2 ^ s)"
proof -
  have "eqm (2 ^ 64) (int (as_u64 x) * 2 ^ s) (x * 2 ^ s)" by (intro eqm_mult) (simp_all add: as_u64_def eqm_mod_iff)
  then show ?thesis by (simp add: shifted_def u64_def push_bit_eq_mult eqm_mod_iff zmod_int)
qed

lemma wrapping_shifted: "eqm (2 ^ 64) (int (wrapping_add a (shifted x s))) (int a + x * 2 ^ s)"
  by (rule eqm_trans [OF wrapping_add_eqm]) (intro eqm_add eqm_refl shifted_eqm)

lemma and_mask_eqm:
  assumes "is_power_of_two q" and "eqm (2 ^ 64) (int x) z" and "eqm q z (int y)"
  shows "x AND (q - 1) = y mod q"
proof -
  obtain k where k: "k < 64" "q = 2 ^ k" using assms(1) by (auto simp: is_power_of_two_iff)
  have "q dvd 2 ^ 64" unfolding k(2) using k(1) by (intro le_imp_power_dvd) simp
  then have "eqm q (int x) z" by (rule eqm_dvd [OF assms(2)])
  then have "eqm q (int x) (int y)" using assms(3) by (rule eqm_trans)
  then have "int (x mod q) = int (y mod q)" by (simp add: eqm_mod_iff zmod_int)
  then show ?thesis unfolding k(2) and_exp_minus_1 by simp
qed

section \<open>The kernels are exact\<close>

lemma row_digits:
  assumes p: "query_ok q p" and ne: "pq_digits p \<noteq> []" and i: "i < length (pq_words p)" and on: "\<And>j. j + 1 < length (pq_digits p) \<Longrightarrow> on j"
  shows "eqm q (\<Sum>j<length (pq_digits p). int lo * pq_digits p ! j ! i * 2 ^ (8 * pq_skip p + 8 * j)
      + (if on j then int hi * pq_digits p ! j ! i * 2 ^ (8 * pq_skip p + 8 * j + 8) else 0)) (int (lo + 256 * hi) * int (pq_words p ! i))"
proof -
  let ?L = "length (pq_digits p)" and ?s = "pq_skip p" and ?d = "\<lambda>j. pq_digits p ! j ! i"
  have pw: "2 ^ (8 * ?s + 8 * j) = (256::int) ^ (?s + j)" "2 ^ (8 * ?s + 8 * j + 8) = (256::int) * 256 ^ (?s + j)" for j
    by (simp_all add: power_add power_mult)
  have top: "q dvd 256 ^ (?s + ?L)" and val: "eqm q (\<Sum>j<?L. ?d j * 256 ^ (?s + j)) (int (pq_words p ! i))"
    using p ne i by (simp_all add: query_ok_def)
  have off: "eqm q (if on j then int hi * ?d j * (256 * 256 ^ (?s + j)) else 0) (int hi * ?d j * (256 * 256 ^ (?s + j)))" if "j < ?L" for j
  proof (cases "on j")
    case False
    then have "j + 1 = ?L" using on [of j] that by linarith
    then have "256 * 256 ^ (?s + j) = (256::int) ^ (?s + ?L)" by (metis add.assoc add.commute plus_1_eq_Suc power_Suc)
    moreover have "int q dvd 256 ^ (?s + ?L)" using top by (metis of_nat_dvd_iff of_nat_numeral of_nat_power)
    ultimately show ?thesis using False by (simp add: eqm_def dvd_minus_iff)
  qed simp
  have "eqm q (\<Sum>j<?L. int lo * ?d j * 256 ^ (?s + j) + (if on j then int hi * ?d j * (256 * 256 ^ (?s + j)) else 0))
      (\<Sum>j<?L. int lo * ?d j * 256 ^ (?s + j) + int hi * ?d j * (256 * 256 ^ (?s + j)))"
    using off by (intro eqm_sum eqm_add) simp_all
  also have "(\<Sum>j<?L. int lo * ?d j * 256 ^ (?s + j) + int hi * ?d j * (256 * 256 ^ (?s + j)))
      = int (lo + 256 * hi) * (\<Sum>j<?L. ?d j * 256 ^ (?s + j))"
    by (simp add: sum_distrib_left algebra_simps)
  also have "eqm q \<dots> (int (lo + 256 * hi) * int (pq_words p ! i))" by (intro eqm_mult eqm_refl val)
  finally show ?thesis unfolding pw .
qed

lemma window:
  assumes "start \<in> set (step_by 0 rows 65536)" and "rows mod 4 = 0"
  obtains n s where "n \<le> 16384" and "start = 4 * s" and "min (start + 65536) rows = start + n * 4" and "start + n * 4 \<le> rows"
proof -
  obtain t where t: "start = t * 65536" "t < div_ceil rows 65536" using assms(1) by (auto simp: step_by_def)
  then have "t * 65536 < rows" using less_div_ceil_iff [of 65536 t rows] by simp
  moreover obtain u where u: "rows = 4 * u" using assms(2) by auto
  ultimately have "min 16384 (u - t * 16384) \<le> 16384" "start = 4 * (t * 16384)"
      "min (start + 65536) rows = start + min 16384 (u - t * 16384) * 4" "start + min 16384 (u - t * 16384) * 4 \<le> rows"
    unfolding t(1) u by linarith+
  then show ?thesis by (rule that)
qed

lemma tile_lane_window:
  assumes start: "start \<in> set (step_by 0 rows 65536)" and rows: "rows mod 4 = 0" "length digit = rows" "\<forall>x\<in>set digit. \<bar>x\<bar> \<le> 128"
    and x: "\<And>r. r < rows \<Longrightarrow> x r < 256" and byte: "\<And>t k. t * 4 + k < rows \<Longrightarrow> k < 4 \<Longrightarrow> byte (t * 64 + (col * 4 + k)) = x (t * 4 + k)"
  shows "tile_lane byte digit col start (min (start + 65536) rows) = (\<Sum>r<min (start + 65536) rows - start. int (x (start + r)) * digit ! (start + r))"
proof -
  obtain n s where n: "n \<le> 16384" "start = 4 * s" "min (start + 65536) rows = start + n * 4" "start + n * 4 \<le> rows"
    using window [OF start rows(1)] by blast
  have "tile_lane byte digit col start (start + n * 4) = (\<Sum>r<n * 4. int (x (start + r)) * digit ! (start + r))"
  proof (rule tile_lane_ok [OF n(1)])
    show "x (start + r) < 256 \<and> \<bar>digit ! (start + r)\<bar> \<le> 128" if "r < n * 4" for r
    proof -
      have "start + r < rows" using that n(4) by linarith
      then show ?thesis using rows(2,3) x by simp
    qed
    show "byte ((start + t * 4) * 16 + (col * 4 + k)) = x (start + t * 4 + k)" if "t < n" "k < 4" for t k
      using byte [of "s + t" k] that n(2,4) by (simp add: algebra_simps)
  qed
  then show ?thesis using n(3) by simp
qed

lemma band_eqm:
  assumes p: "query_ok q p" and ne: "pq_digits p \<noteq> []" and rows: "offset + rows \<le> length (pq_words p)"
    and on: "\<And>j. j + 1 < length (pq_digits p) \<Longrightarrow> on j"
    and step: "\<And>start j out. start \<in> set (step_by 0 rows 65536) \<Longrightarrow> j < length (pq_digits p) \<Longrightarrow> eqm (2 ^ 64) (int (f start j out))
      (int out + (\<Sum>r<min (start + 65536) rows - start. int (lo (start + r)) * pq_digits p ! j ! (offset + (start + r))) * 2 ^ (8 * pq_skip p + 8 * j)
        + (if on j then (\<Sum>r<min (start + 65536) rows - start. int (hi (start + r)) * pq_digits p ! j ! (offset + (start + r))) * 2 ^ (8 * pq_skip p + 8 * j + 8) else 0))"
  obtains z where "eqm (2 ^ 64) (int (fold (\<lambda>start out. fold (f start) [0..<length (pq_digits p)] out) (step_by 0 rows 65536) 0)) z"
    and "eqm q z (int (\<Sum>r<rows. (lo r + 256 * hi r) * pq_words p ! (offset + r)))"
proof -
  let ?L = "length (pq_digits p)"
  define \<tau> where "\<tau> j r = int (lo r) * pq_digits p ! j ! (offset + r) * 2 ^ (8 * pq_skip p + 8 * j)
      + (if on j then int (hi r) * pq_digits p ! j ! (offset + r) * 2 ^ (8 * pq_skip p + 8 * j + 8) else 0)" for j r
  define len where "len start = min (start + 65536) rows - start" for start
  have inner: "eqm (2 ^ 64) (int (fold (f start) [0..<?L] out)) (int out + (\<Sum>r<len start. \<Sum>j<?L. \<tau> j (start + r)))"
    if "start \<in> set (step_by 0 rows 65536)" for start out
  proof -
    have "eqm (2 ^ 64) (int (fold (f start) [0..<?L] out)) (int out + (\<Sum>j\<leftarrow>[0..<?L]. \<Sum>r<len start. \<tau> j (start + r)))"
    proof (rule fold_eqm)
      fix j out assume "j \<in> set [0..<?L]"
      then show "eqm (2 ^ 64) (int (f start j out)) (int out + (\<Sum>r<len start. \<tau> j (start + r)))"
        using step [OF that, of j out] by (cases "on j") (simp_all add: \<tau>_def len_def sum.distrib sum_distrib_right add.assoc)
    qed
    also have "(\<Sum>j\<leftarrow>[0..<?L]. \<Sum>r<len start. \<tau> j (start + r)) = (\<Sum>r<len start. \<Sum>j<?L. \<tau> j (start + r))"
      by (simp add: interv_sum_list_conv_sum_set_nat atLeast0LessThan sum.swap [of _ "{..<len start}"])
    finally show ?thesis .
  qed
  have "eqm (2 ^ 64) (int (fold (\<lambda>start out. fold (f start) [0..<?L] out) (step_by 0 rows 65536) 0)) (int 0 + (\<Sum>start\<leftarrow>step_by 0 rows 65536. \<Sum>r<len start. \<Sum>j<?L. \<tau> j (start + r)))"
    by (rule fold_eqm) (rule inner)
  then have "eqm (2 ^ 64) (int (fold (\<lambda>start out. fold (f start) [0..<?L] out) (step_by 0 rows 65536) 0)) (\<Sum>r<rows. \<Sum>j<?L. \<tau> j r)"
    unfolding len_def sum_windows [where w = 65536 and rows = rows and f = "\<lambda>r. \<Sum>j<?L. \<tau> j r", simplified] by simp
  moreover have "eqm q (\<Sum>r<rows. \<Sum>j<?L. \<tau> j r) (int (\<Sum>r<rows. (lo r + 256 * hi r) * pq_words p ! (offset + r)))"
    unfolding of_nat_sum of_nat_mult [of "_ + _"] \<tau>_def using rows by (intro eqm_sum row_digits [OF p ne _ on]) simp_all
  ultimately show ?thesis by (rule that)
qed

lemma band_exact:
  assumes p: "query_ok q p" and ne: "pq_digits p \<noteq> []" and rows: "rows = length (pq_words p)"
    and on: "\<And>j. j + 1 < length (pq_digits p) \<Longrightarrow> on j"
    and step: "\<And>start j out. start \<in> set (step_by 0 rows 65536) \<Longrightarrow> j < length (pq_digits p) \<Longrightarrow> eqm (2 ^ 64) (int (f start j out))
      (int out + (\<Sum>r<min (start + 65536) rows - start. int (lo (start + r)) * pq_digits p ! j ! (start + r)) * 2 ^ (8 * pq_skip p + 8 * j)
        + (if on j then (\<Sum>r<min (start + 65536) rows - start. int (hi (start + r)) * pq_digits p ! j ! (start + r)) * 2 ^ (8 * pq_skip p + 8 * j + 8) else 0))"
  shows "fold (\<lambda>start out. fold (f start) [0..<length (pq_digits p)] out) (step_by 0 rows 65536) 0 AND pq_mask p
    = (\<Sum>r<rows. (lo r + 256 * hi r) * pq_words p ! r) mod q"
proof -
  obtain z where "eqm (2 ^ 64) (int (fold (\<lambda>start out. fold (f start) [0..<length (pq_digits p)] out) (step_by 0 rows 65536) 0)) z"
    and "eqm q z (int (\<Sum>r<rows. (lo r + 256 * hi r) * pq_words p ! (0 + r)))"
    by (rule band_eqm [OF p ne, where offset = 0 and rows = rows and f = f and lo = lo and hi = hi and on = on])
      (use step rows on in \<open>simp_all only: add_0 order_refl\<close>)
  then show ?thesis using and_mask_eqm [of q] p by (simp add: query_ok_def)
qed

lemma nth_map_16: "col < 16 \<Longrightarrow> map f [0..<16] ! col = f col"
  by (simp add: nth_map_upt [of col 16 0] del: nth_map upt_Suc)

lemma interleaved_u8_exact:
  assumes p: "query_ok q p" and ne: "pq_digits p \<noteq> []" and rows: "length (pq_words p) mod 4 = 0" and len: "length band = length (pq_words p) * 16"
    and col: "col < 16" and x: "\<And>r. r < length (pq_words p) \<Longrightarrow> x r < 256"
    and byte: "\<And>t k. t * 4 + k < length (pq_words p) \<Longrightarrow> k < 4 \<Longrightarrow> band ! (t * 64 + (col * 4 + k)) = x (t * 4 + k)"
  shows "interleaved_u8_inner band (pq_digits p) (pq_mask p) (8 * pq_skip p) ! col = (\<Sum>r<length (pq_words p). x r * pq_words p ! r) mod q"
proof -
  let ?rows = "length (pq_words p)"
  have d: "length (pq_digits p ! j) = ?rows" "\<forall>x\<in>set (pq_digits p ! j). \<bar>x\<bar> \<le> 128" if "j < length (pq_digits p)" for j
    using p ne nth_mem [OF that] by (auto simp: query_ok_def)
  have "fold (\<lambda>start out. fold (\<lambda>j out. wrapping_add out (shifted (tile_lane ((!) band) (pq_digits p ! j) col start (min (start + 65536) ?rows)) (8 * pq_skip p + 8 * j)))
        [0..<length (pq_digits p)] out) (step_by 0 ?rows 65536) 0 AND pq_mask p = (\<Sum>r<?rows. (x r + 256 * 0) * pq_words p ! r) mod q"
  proof (rule band_exact [OF p ne refl, where on = "\<lambda>_. True"])
    fix start j out assume s: "start \<in> set (step_by 0 ?rows 65536)" and j: "j < length (pq_digits p)"
    have "tile_lane ((!) band) (pq_digits p ! j) col start (min (start + 65536) ?rows)
        = (\<Sum>r<min (start + 65536) ?rows - start. int (x (start + r)) * pq_digits p ! j ! (start + r))"
      by (rule tile_lane_window [OF s rows d [OF j]]) (simp_all add: x byte)
    then show "eqm (2 ^ 64) (int (wrapping_add out (shifted (tile_lane ((!) band) (pq_digits p ! j) col start (min (start + 65536) ?rows)) (8 * pq_skip p + 8 * j))))
        (int out + (\<Sum>r<min (start + 65536) ?rows - start. int (x (start + r)) * pq_digits p ! j ! (start + r)) * 2 ^ (8 * pq_skip p + 8 * j)
          + (if True then (\<Sum>r<min (start + 65536) ?rows - start. int 0 * pq_digits p ! j ! (start + r)) * 2 ^ (8 * pq_skip p + 8 * j + 8) else 0))"
      using wrapping_shifted by simp
  qed simp
  then show ?thesis using col len by (simp add: interleaved_u8_inner_def Let_def nth_map_16 del: nth_map upt_Suc)
qed

lemma interleaved_u16_exact:
  assumes p: "query_ok q p" and ne: "pq_digits p \<noteq> []" and rows: "length (pq_words p) mod 4 = 0" and len: "length band = length (pq_words p) * 16"
    and col: "col < 16" and x: "\<And>r. r < length (pq_words p) \<Longrightarrow> lo r < 256 \<and> hi r < 256"
    and low: "\<And>t k. t * 4 + k < length (pq_words p) \<Longrightarrow> k < 4 \<Longrightarrow> mem_byte band (t * 128 + (col * 4 + k)) = lo (t * 4 + k)"
    and high: "\<And>t k. t * 4 + k < length (pq_words p) \<Longrightarrow> k < 4 \<Longrightarrow> mem_byte band (t * 128 + 64 + (col * 4 + k)) = hi (t * 4 + k)"
  shows "interleaved_inner band (pq_digits p) (pq_mask p) (8 * pq_skip p) ! col = (\<Sum>r<length (pq_words p). (lo r + 256 * hi r) * pq_words p ! r) mod q"
proof -
  let ?rows = "length (pq_words p)" and ?L = "length (pq_digits p)"
  let ?low = "\<lambda>b. mem_byte band (b div 64 * 128 + b mod 64)" and ?high = "\<lambda>b. mem_byte band (b div 64 * 128 + 64 + b mod 64)"
  let ?f = "\<lambda>start j out. let shift = 8 * pq_skip p + 8 * j; stop = min (start + 65536) ?rows;
                     out = wrapping_add out (shifted (tile_lane ?low (pq_digits p ! j) col start stop) shift)
                 in if j + 1 < ?L then wrapping_add out (shifted (tile_lane ?high (pq_digits p ! j) col start stop) (shift + 8)) else out"
  have d: "length (pq_digits p ! j) = ?rows" "\<forall>x\<in>set (pq_digits p ! j). \<bar>x\<bar> \<le> 128" if "j < ?L" for j
    using p ne nth_mem [OF that] by (auto simp: query_ok_def)
  have tile: "(col * 4 + k) div 64 = 0" "(col * 4 + k) mod 64 = col * 4 + k" if "k < 4" for k
    using col that by simp_all
  have "fold (\<lambda>start out. fold (?f start) [0..<?L] out) (step_by 0 ?rows 65536) 0 AND pq_mask p = (\<Sum>r<?rows. (lo r + 256 * hi r) * pq_words p ! r) mod q"
  proof (rule band_exact [OF p ne refl, where on = "\<lambda>j. j + 1 < ?L"])
    fix start j out assume s: "start \<in> set (step_by 0 ?rows 65536)" and j: "j < ?L"
    let ?l = "\<Sum>r<min (start + 65536) ?rows - start. int (lo (start + r)) * pq_digits p ! j ! (start + r)"
    let ?h = "\<Sum>r<min (start + 65536) ?rows - start. int (hi (start + r)) * pq_digits p ! j ! (start + r)"
    have "tile_lane ?low (pq_digits p ! j) col start (min (start + 65536) ?rows) = ?l"
      by (rule tile_lane_window [OF s rows d [OF j]]) (simp_all add: x tile low)
    moreover have "tile_lane ?high (pq_digits p ! j) col start (min (start + 65536) ?rows) = ?h"
      by (rule tile_lane_window [OF s rows d [OF j]]) (simp_all add: x tile high)
    moreover have "eqm (2 ^ 64) (int (wrapping_add (wrapping_add out (shifted ?l a)) (shifted ?h b))) (int out + ?l * 2 ^ a + ?h * 2 ^ b)" for a b
      by (rule eqm_trans [OF wrapping_shifted]) (intro eqm_add eqm_refl wrapping_shifted)
    ultimately show "eqm (2 ^ 64) (int (?f start j out)) (int out + ?l * 2 ^ (8 * pq_skip p + 8 * j) + (if j + 1 < ?L then ?h * 2 ^ (8 * pq_skip p + 8 * j + 8) else 0))"
      using wrapping_shifted [of out ?l "8 * pq_skip p + 8 * j"] unfolding Let_def by (cases "j + 1 < ?L") simp_all
  qed
  then show ?thesis using col len by (simp add: interleaved_inner_def Let_def nth_map_16 del: nth_map upt_Suc)
qed

lemma wrapping_mul_eqm: "eqm (2 ^ 64) (int (wrapping_add a (wrapping_mul u v))) (int a + int u * int v)"
  by (simp add: wrapping_add_def wrapping_mul_def u64_def eqm_mod_iff zmod_int mod_simps)

lemma portable_fold:
  assumes "is_power_of_two q" and "length words = n * 4"
  shows "fold (\<lambda>row dst. fold (\<lambda>k dst. wrapping_add dst (wrapping_mul (x row k) (words ! (row + k)))) [0..<4] dst) (step_by 0 (length words) 4) 0 AND (q - 1)
    = (\<Sum>r<length words. x (r div 4 * 4) (r mod 4) * words ! r) mod q"
proof -
  have "eqm (2 ^ 64) (int (fold (\<lambda>row dst. fold (\<lambda>k dst. wrapping_add dst (wrapping_mul (x row k) (words ! (row + k)))) [0..<4] dst) (step_by 0 (length words) 4) 0))
      (int 0 + (\<Sum>row\<leftarrow>step_by 0 (length words) 4. \<Sum>k\<leftarrow>[0..<4]. int (x row k) * int (words ! (row + k))))"
    by (intro fold_eqm wrapping_mul_eqm)
  also have "(\<Sum>row\<leftarrow>step_by 0 (length words) 4. \<Sum>k\<leftarrow>[0..<4]. int (x row k) * int (words ! (row + k)))
      = (\<Sum>t<n. \<Sum>k<4. int (x ((t * 4 + k) div 4 * 4) ((t * 4 + k) mod 4)) * int (words ! (t * 4 + k)))"
    using step_by_exact [of 4 0 n] assms(2) by (simp add: interv_sum_list_conv_sum_set_nat atLeast0LessThan comp_def mult.commute del: upt_Suc)
  also have "\<dots> = int (\<Sum>r<length words. x (r div 4 * 4) (r mod 4) * words ! r)"
    unfolding sum_groups [where h = "\<lambda>i. int (x (i div 4 * 4) (i mod 4)) * int (words ! i)"] assms(2) by simp
  finally have "eqm (2 ^ 64) (int (fold (\<lambda>row dst. fold (\<lambda>k dst. wrapping_add dst (wrapping_mul (x row k) (words ! (row + k)))) [0..<4] dst) (step_by 0 (length words) 4) 0))
      (int (\<Sum>r<length words. x (r div 4 * 4) (r mod 4) * words ! r))" by simp
  then show ?thesis using and_mask_eqm [OF assms(1)] by blast
qed

section \<open>Tile layouts\<close>

lemma tile_index:
  fixes t k col :: nat
  assumes "col < 16" and "k < 4"
  shows "(t * 64 + (col * 4 + k)) div 64 = t" and "(t * 64 + (col * 4 + k)) mod 64 div 4 = col" and "(t * 64 + (col * 4 + k)) mod 4 = k"
proof -
  show "(t * 64 + (col * 4 + k)) mod 4 = k" using assms(2) by presburger
qed (use assms in simp_all)

lemma tile_bound: "t * 4 + k < rows \<Longrightarrow> rows mod 4 = 0 \<Longrightarrow> t * 64 + 64 \<le> rows * 16" for t :: nat
proof -
  assume "t * 4 + k < rows" "rows mod 4 = 0"
  moreover obtain u where u: "rows = 4 * u" using \<open>rows mod 4 = 0\<close> by auto
  ultimately have "t < u" by linarith
  then show ?thesis using u by linarith
qed

lemma tile_u8_nth:
  assumes "col < 16" "k < 4" "t * 4 + k < rows" "rows mod 4 = 0"
  shows "tile_u8 rows band ! (t * 64 + (col * 4 + k)) = band ! (col * rows + (t * 4 + k))"
proof -
  have "t * 64 + (col * 4 + k) < rows * 16" using tile_bound [OF assms(3,4)] assms(1,2) by linarith
  then show ?thesis using tile_index [OF assms(1,2), of t] by (simp add: tile_u8_def Let_def add.assoc del: upt_Suc)
qed

lemma byte_pick:
  fixes x y :: nat
  shows "((x AND 255) OR push_bit 8 (y AND 255)) AND 255 = x AND 255"
    and "drop_bit 8 ((x AND 255) OR push_bit 8 (y AND 255)) AND 255 = y AND 255"
    and "x < 65536 \<Longrightarrow> (drop_bit 8 x OR (y AND 65280)) AND 255 = drop_bit 8 x AND 255"
    and "x < 65536 \<Longrightarrow> drop_bit 8 (drop_bit 8 x OR (y AND 65280)) AND 255 = drop_bit 8 y AND 255"
proof -
  have m: "(255::nat) = mask 8" "(65280::nat) = push_bit 8 (mask 8)" by (simp_all add: mask_eq_exp_minus_1 push_bit_eq_mult)
  show "((x AND 255) OR push_bit 8 (y AND 255)) AND 255 = x AND 255"
    "drop_bit 8 ((x AND 255) OR push_bit 8 (y AND 255)) AND 255 = y AND 255"
    unfolding m by (rule bit_eqI, auto simp: bit_simps)+
  assume "x < 65536"
  then have "\<not> bit x n" if "16 \<le> n" for n using bit_less_exp [of x 16 n] that by auto
  then show "(drop_bit 8 x OR (y AND 65280)) AND 255 = drop_bit 8 x AND 255" "drop_bit 8 (drop_bit 8 x OR (y AND 65280)) AND 255 = drop_bit 8 y AND 255"
    unfolding m by (rule_tac bit_eqI, auto simp: bit_simps)+
qed

lemma tile_u16_nth:
  "i < rows * 16 \<Longrightarrow> tile_u16 rows band ! i = (let row = i div 64 * 4; col = i mod 32 div 2; pair = i mod 2;
         x = band ! (col * rows + row + 2 * pair); y = band ! (col * rows + row + 2 * pair + 1)
     in if i mod 64 < 32 then (x AND 255) OR push_bit 8 (y AND 255) else drop_bit 8 x OR (y AND 65280))"
  by (simp add: tile_u16_def del: upt_Suc)

lemma tile_u16_bytes:
  assumes col: "col < 16" and k: "k < 4" and t: "t * 4 + k < rows" "rows mod 4 = 0" and b: "all_below 65536 band" "length band = rows * 16"
  shows "mem_byte (tile_u16 rows band) (t * 128 + (col * 4 + k)) = band ! (col * rows + (t * 4 + k)) AND 255"
    and "mem_byte (tile_u16 rows band) (t * 128 + 64 + (col * 4 + k)) = drop_bit 8 (band ! (col * rows + (t * 4 + k))) AND 255"
proof -
  obtain h l where hl: "k = 2 * h + l" "h < 2" "l < 2" using k that [of "k div 2" "k mod 2"] by auto
  let ?i = "t * 64 + (col * 2 + h)" and ?x = "band ! (col * rows + (t * 4 + 2 * h))" and ?y = "band ! (col * rows + (t * 4 + 2 * h + 1))"
  have e2: "t * 128 + (col * 4 + k) = ?i * 2 + l" "t * 128 + 64 + (col * 4 + k) = (?i + 32) * 2 + l" using hl(1) by simp_all
  have d2: "(a * 2 + l) div 2 = a" "(a * 2 + l) mod 2 = l" for a using hl(3) by simp_all
  have ix: "(t * 128 + (col * 4 + k)) div 2 = ?i" "(t * 128 + (col * 4 + k)) mod 2 = l"
      "(t * 128 + 64 + (col * 4 + k)) div 2 = ?i + 32" "(t * 128 + 64 + (col * 4 + k)) mod 2 = l"
    unfolding e2 d2 by (rule refl)+
  have w: "col * 2 + h < 32" using hl col by linarith
  have m32: "(a * 32 + (col * 2 + h)) mod 32 = col * 2 + h" "(a * 2 + (col * 2 + h)) mod 2 = h" for a using w hl(2) by simp_all
  have sp: "?i div 64 = t" "?i mod 64 < 32" "?i mod 32 div 2 = col" "?i mod 2 = h"
    using w hl(2) m32(1) [of "2 * t"] m32(2) [of "32 * t"] by (simp_all add: mult.commute [of t])
  have sp': "(?i + 32) div 64 = t" "\<not> (?i + 32) mod 64 < 32" "(?i + 32) mod 32 div 2 = col" "(?i + 32) mod 2 = h"
  proof -
    have e: "?i + 32 = t * 64 + (col * 2 + h + 32)" "?i + 32 = (2 * t + 1) * 32 + (col * 2 + h)" "?i + 32 = (32 * t + 16) * 2 + (col * 2 + h)" by simp_all
    show "(?i + 32) div 64 = t" "\<not> (?i + 32) mod 64 < 32" unfolding e(1) using w by simp_all
    show "(?i + 32) mod 32 div 2 = col" unfolding e(2) m32 using hl(2) by simp
    show "(?i + 32) mod 2 = h" unfolding e(3) m32 ..
  qed
  have bd: "?i < rows * 16" "?i + 32 < rows * 16" using tile_bound [OF t] hl col by linarith+
  have "col * rows + (t * 4 + 2 * h) < length band"
  proof -
    have "t * 4 + 2 * h < rows" using t hl by linarith
    then show ?thesis using row_slot [OF col, of "t * 4 + 2 * h" rows] b(2) by (simp add: mult.commute)
  qed
  then have x: "?x < 65536" by (rule all_below_nth [OF b(1)])
  have e: "tile_u16 rows band ! ?i = (?x AND 255) OR push_bit 8 (?y AND 255)" "tile_u16 rows band ! (?i + 32) = drop_bit 8 ?x OR (?y AND 65280)"
    unfolding tile_u16_nth [OF bd(1)] tile_u16_nth [OF bd(2)] Let_def if_P [OF sp(2)] if_not_P [OF sp'(2)] sp sp' by (simp_all only: add.assoc)
  have l: "l = 0 \<or> l = 1" using hl by linarith
  show "mem_byte (tile_u16 rows band) (t * 128 + (col * 4 + k)) = band ! (col * rows + (t * 4 + k)) AND 255"
    using l unfolding mem_byte_def ix e unfolding hl(1) by (elim disjE) (simp_all only: byte_pick mult_0_right mult_1_right drop_bit_0 id_apply add_0_right add.assoc)
  show "mem_byte (tile_u16 rows band) (t * 128 + 64 + (col * 4 + k)) = drop_bit 8 (band ! (col * rows + (t * 4 + k))) AND 255"
    using l x unfolding mem_byte_def ix e unfolding hl(1) by (elim disjE) (simp_all only: byte_pick mult_0_right mult_1_right drop_bit_0 id_apply add_0_right add.assoc)
qed

lemma split_u16: "x < 65536 \<Longrightarrow> (x AND 255) + 256 * (drop_bit 8 x AND 255) = x" for x :: nat
  using and_exp_minus_1 [of x 8] and_exp_minus_1 [of "drop_bit 8 x" 8] by (simp add: drop_bit_eq_div)

lemma join_u16: "x < 65536 \<Longrightarrow> (x AND 255) OR u16 (push_bit 8 (drop_bit 8 x AND 255)) = x" for x :: nat
proof -
  assume x: "x < 65536"
  have b: "n < 16" if "bit x n" for n using bit_less_exp [of x 16 n] x that by simp
  have m: "(255::nat) = mask 8" by (simp add: mask_eq_exp_minus_1)
  have "(x AND mask 8) OR push_bit 8 (drop_bit 8 x AND mask 8) = x"
    by (rule bit_eqI) (auto simp: bit_simps not_less dest: b)
  moreover have "u16 (push_bit 8 (drop_bit 8 x AND 255)) = push_bit 8 (drop_bit 8 x AND 255)"
    using and_exp_minus_1 [of "drop_bit 8 x" 8] by (intro u16_id) (simp add: push_bit_eq_mult)
  ultimately show ?thesis by (simp add: m)
qed

lemma byte_and: "x AND 255 < 256" for x :: nat
  using and_exp_minus_1 [of x 8] by simp

section \<open>Bands\<close>

text \<open>Column \<open>c\<close> of a column-major database, times the query.\<close>

definition column_product :: "nat list \<Rightarrow> nat \<Rightarrow> nat list \<Rightarrow> nat \<Rightarrow> nat" where
  "column_product words q db c = (\<Sum>r<length words. db ! (c * length words + r) * words ! r) mod q"

lemma bands_exact:
  assumes rows: "0 < rows" and len: "length db = rows * (n * 16)" and tile: "\<And>band. length (tile band) = rows * 16"
    and f: "\<And>c col. c < n \<Longrightarrow> col < 16 \<Longrightarrow> length (f (tile (chunk_at (rows * 16) db c))) = 16 \<and> f (tile (chunk_at (rows * 16) db c)) ! col = g (c * 16 + col)"
    and F: "\<And>band. F band = Inr (f band)"
  shows "mapR concat (collectR F (chunks_exact (rows * 16) (concat (map tile (chunks_exact (rows * 16) db))))) = Inr (map g [0..<n * 16])"
proof -
  have "chunks_exact (rows * 16) (concat (map tile (chunks_exact (rows * 16) db))) = map tile (chunks_exact (rows * 16) db)"
    using rows tile by (intro chunks_exact_concat) simp_all
  moreover have "chunks_exact (rows * 16) db = map (chunk_at (rows * 16) db) [0..<n]"
    using rows len by (intro chunks_exact_chunk_at) simp_all
  ultimately have "chunks_exact (rows * 16) (concat (map tile (chunks_exact (rows * 16) db))) = map (\<lambda>c. tile (chunk_at (rows * 16) db c)) [0..<n]"
    by (simp add: comp_def)
  then have "collectR F (chunks_exact (rows * 16) (concat (map tile (chunks_exact (rows * 16) db)))) = Inr (map (\<lambda>c. f (tile (chunk_at (rows * 16) db c))) [0..<n])"
    using F collectR_all_Inr [of "map (\<lambda>c. tile (chunk_at (rows * 16) db c)) [0..<n]" F f] by (simp add: comp_def)
  moreover have "f (tile (chunk_at (rows * 16) db c)) = map (\<lambda>r. g (c * 16 + r)) [0..<16]" if "c < n" for c
    using f [OF that] f [OF that, of 0] by (intro nth_equalityI) (simp_all add: nth_map_16 del: nth_map upt_Suc)
  then have "concat (map (\<lambda>c. f (tile (chunk_at (rows * 16) db c))) [0..<n]) = map g [0..<n * 16]"
    unfolding concat_tiles [symmetric] by (intro arg_cong [where f = concat] map_cong) simp_all
  ultimately show ?thesis by simp
qed

lemma band_column:
  assumes "col < 16" and "r < rows"
  shows "chunk_at (rows * 16) db c ! (col * rows + r) = db ! ((c * 16 + col) * rows + r)"
proof -
  have "col * rows + r < rows * 16" using row_slot [OF assms] by (simp add: mult.commute)
  then show ?thesis by (simp add: algebra_simps)
qed

lemma u8_band:
  assumes p: "query_ok q p" and rows: "rows = length (pq_words p)" "rows mod 4 = 0"
    and db: "all_below 256 db" "length db = rows * (n * 16)" and c: "c < n" and col: "col < 16"
  defines "band \<equiv> tile_u8 rows (chunk_at (rows * 16) db c)"
  shows "pq_digits p \<noteq> [] \<Longrightarrow> interleaved_u8_inner band (pq_digits p) (pq_mask p) (8 * pq_skip p) ! col = column_product (pq_words p) q db (c * 16 + col)"
    and "portable_u8 (pq_words p) band (pq_mask p) ! col = column_product (pq_words p) q db (c * 16 + col)"
proof -
  have e: "band ! (t * 64 + (col * 4 + k)) = db ! ((c * 16 + col) * rows + (t * 4 + k))" if "t * 4 + k < rows" "k < 4" for t k
    unfolding band_def tile_u8_nth [OF col that(2,1) rows(2)] by (rule band_column [OF col that(1)])
  have lt: "db ! ((c * 16 + col) * rows + r) < 256" if "r < rows" for r
  proof -
    have "c * 16 + col < n * 16" using c col by simp
    then show ?thesis using row_slot [OF _ that, of "c * 16 + col" "n * 16"] db by (intro all_below_nth) (simp_all add: mult.commute)
  qed
  show "interleaved_u8_inner band (pq_digits p) (pq_mask p) (8 * pq_skip p) ! col = column_product (pq_words p) q db (c * 16 + col)" if "pq_digits p \<noteq> []"
    unfolding column_product_def rows(1) [symmetric]
    using interleaved_u8_exact [OF p that _ _ col, of band "\<lambda>r. db ! ((c * 16 + col) * rows + r)"] rows e lt by (simp add: band_def tile_u8_def)
  obtain m where m: "length (pq_words p) = m * 4" using rows by (metis dvd_div_mult_self mod_0_imp_dvd)
  have "portable_u8 (pq_words p) band (pq_mask p) ! col = (\<Sum>r<rows. band ! (r div 4 * 4 * 16 + col * 4 + r mod 4) * pq_words p ! r) mod q"
    unfolding portable_u8_def nth_map_16 [OF col] using portable_fold [OF _ m, of q "\<lambda>row k. band ! (row * 16 + col * 4 + k)"] p rows by (simp add: query_ok_def)
  also have "\<dots> = column_product (pq_words p) q db (c * 16 + col)"
    unfolding column_product_def rows(1) [symmetric]
  proof (intro arg_cong [where f = "\<lambda>s. s mod q"] sum.cong refl)
    fix r assume "r \<in> {..<rows}"
    then show "band ! (r div 4 * 4 * 16 + col * 4 + r mod 4) * pq_words p ! r = db ! ((c * 16 + col) * rows + r) * pq_words p ! r"
      using e [of "r div 4" "r mod 4"] by (simp add: add.assoc mult.commute [of "r div 4"])
  qed
  finally show "portable_u8 (pq_words p) band (pq_mask p) ! col = column_product (pq_words p) q db (c * 16 + col)" .
qed

lemma u16_band:
  assumes p: "query_ok q p" and rows: "rows = length (pq_words p)" "rows mod 4 = 0"
    and db: "all_below 65536 db" "length db = rows * (n * 16)" and c: "c < n" and col: "col < 16"
  defines "band \<equiv> tile_u16 rows (chunk_at (rows * 16) db c)"
  shows "pq_digits p \<noteq> [] \<Longrightarrow> interleaved_inner band (pq_digits p) (pq_mask p) (8 * pq_skip p) ! col = column_product (pq_words p) q db (c * 16 + col)"
    and "portable_u16 (pq_words p) band (pq_mask p) ! col = column_product (pq_words p) q db (c * 16 + col)"
proof -
  let ?x = "\<lambda>r. db ! ((c * 16 + col) * rows + r)"
  have cc: "c * 16 + col < n * 16" if "col < 16" for col using c that by simp
  have lt: "db ! ((c * 16 + col) * rows + r) < 65536" if "r < rows" "col < 16" for r col
    using row_slot [OF cc [OF that(2)] that(1)] db by (intro all_below_nth) (simp_all add: mult.commute)
  have below: "all_below 65536 (chunk_at (rows * 16) db c)"
  proof (rule all_belowI)
    fix i assume "i < length (chunk_at (rows * 16) db c)"
    then have "c * (rows * 16) + i < n * (rows * 16)" using row_slot [OF c, of i "rows * 16"] by simp
    then show "chunk_at (rows * 16) db c ! i < 65536" using \<open>i < _\<close> db by (simp add: all_below_nth mult.left_commute)
  qed
  have e: "mem_byte band (t * 128 + (col * 4 + k)) = ?x (t * 4 + k) AND 255" "mem_byte band (t * 128 + 64 + (col * 4 + k)) = drop_bit 8 (?x (t * 4 + k)) AND 255"
    if "t * 4 + k < rows" "k < 4" for t k
    using tile_u16_bytes [OF col that(2,1) rows(2) below] band_column [OF col that(1), of db c] by (simp_all add: band_def)
  show "interleaved_inner band (pq_digits p) (pq_mask p) (8 * pq_skip p) ! col = column_product (pq_words p) q db (c * 16 + col)" if "pq_digits p \<noteq> []"
  proof -
    have "interleaved_inner band (pq_digits p) (pq_mask p) (8 * pq_skip p) ! col
        = (\<Sum>r<rows. ((?x r AND 255) + 256 * (drop_bit 8 (?x r) AND 255)) * pq_words p ! r) mod q"
      using interleaved_u16_exact [OF p that _ _ col, of band "\<lambda>r. ?x r AND 255" "\<lambda>r. drop_bit 8 (?x r) AND 255"] rows e
      by (simp add: band_def tile_u16_def byte_and)
    then show ?thesis using lt [OF _ col] rows(1) by (simp add: column_product_def split_u16)
  qed
  obtain m where m: "length (pq_words p) = m * 4" using rows by (metis dvd_div_mult_self mod_0_imp_dvd)
  have "portable_u16 (pq_words p) band (pq_mask p) ! col = (\<Sum>r<rows. ((drop_bit ((col * 4 + r mod 4) mod 2 * 8) (band ! (r div 4 * 4 * 16 + (col * 4 + r mod 4) div 2)) AND 255)
      OR u16 (push_bit 8 (drop_bit ((col * 4 + r mod 4) mod 2 * 8) (band ! (r div 4 * 4 * 16 + 32 + (col * 4 + r mod 4) div 2)) AND 255))) * pq_words p ! r) mod q"
    unfolding portable_u16_def nth_map_16 [OF col] Let_def using portable_fold [OF _ m, of q] p rows by (simp add: query_ok_def)
  also have "\<dots> = column_product (pq_words p) q db (c * 16 + col)"
    unfolding column_product_def rows(1) [symmetric]
  proof (intro arg_cong [where f = "\<lambda>s. s mod q"] sum.cong refl)
    fix r assume r: "r \<in> {..<rows}"
    let ?w = "col * 4 + r mod 4"
    have half: "(a * 128 + b) div 2 = a * 64 + b div 2" "(a * 128 + b) mod 2 = b mod 2"
      "(a * 128 + 64 + b) div 2 = a * 64 + 32 + b div 2" "(a * 128 + 64 + b) mod 2 = b mod 2" for a b :: nat
    proof -
      have e: "a * 128 + b = b + 2 * (a * 64)" "a * 128 + 64 + b = b + 2 * (a * 64 + 32)" by simp_all
      show "(a * 128 + b) div 2 = a * 64 + b div 2" "(a * 128 + b) mod 2 = b mod 2" "(a * 128 + 64 + b) div 2 = a * 64 + 32 + b div 2" "(a * 128 + 64 + b) mod 2 = b mod 2"
        unfolding e by (simp_all only: div_mult_self2 mod_mult_self2 add.commute zero_neq_numeral not_False_eq_True)
    qed
    have "mem_byte band (r div 4 * 128 + ?w) = drop_bit (?w mod 2 * 8) (band ! (r div 4 * 4 * 16 + ?w div 2)) AND 255"
         "mem_byte band (r div 4 * 128 + 64 + ?w) = drop_bit (?w mod 2 * 8) (band ! (r div 4 * 4 * 16 + 32 + ?w div 2)) AND 255"
      by (simp_all only: mem_byte_def half mult.commute [of 8] mult.assoc) simp_all
    moreover have "(?x r AND 255) OR u16 (push_bit 8 (drop_bit 8 (?x r) AND 255)) = ?x r" by (rule join_u16) (use r lt [OF _ col] in simp)
    ultimately show "((drop_bit (?w mod 2 * 8) (band ! (r div 4 * 4 * 16 + ?w div 2)) AND 255)
      OR u16 (push_bit 8 (drop_bit (?w mod 2 * 8) (band ! (r div 4 * 4 * 16 + 32 + ?w div 2)) AND 255))) * pq_words p ! r = ?x r * pq_words p ! r"
      using e [of "r div 4" "r mod 4"] r by simp
  qed
  finally show "portable_u16 (pq_words p) band (pq_mask p) ! col = column_product (pq_words p) q db (c * 16 + col)" .
qed

section \<open>One column at a time\<close>

lemma reduce_add_ok:
  assumes "\<And>l. l < 16 \<Longrightarrow> \<bar>x l\<bar> \<le> 4096 * 32640"
  shows "reduce_add x = (\<Sum>l<16. x l)"
  unfolding reduce_add_def by (rule i32_fold [OF assms]) simp_all

lemma column_lane_ok:
  assumes "n \<le> 1024" and "\<And>i. i < n * 64 \<Longrightarrow> byte (start + i) < 256 \<and> \<bar>digit ! (offset + (start + i))\<bar> \<le> 128" and "lane < 16"
  shows "column_lane byte digit offset lane start (start + n * 64)
      = (\<Sum>t<n. \<Sum>k<4. int (byte (start + (t * 64 + (lane * 4 + k)))) * digit ! (offset + (start + (t * 64 + (lane * 4 + k)))))"
    and "\<bar>column_lane byte digit offset lane start (start + n * 64)\<bar> \<le> 4096 * 32640"
proof -
  have idx: "t * 64 + (lane * 4 + k) < n * 64" if "t < n" "k < 4" for t k using that assms(3) by linarith
  have "column_lane byte digit offset lane start (start + n * 64)
      = fold (\<lambda>t acc. dpbusd acc (\<lambda>k. byte (start + t * 64 + (lane * 4 + k))) (\<lambda>k. digit ! (offset + (start + t * 64) + (lane * 4 + k)))) [0..<n] 0"
    unfolding column_lane_def by (simp add: fold_step_by)
  also have "\<dots> = (\<Sum>t<n. \<Sum>k<4. int (byte (start + t * 64 + (lane * 4 + k))) * digit ! (offset + (start + t * 64) + (lane * 4 + k)))"
    using assms(1) assms(2) [OF idx] by (intro dpbusd_fold) (simp_all add: add.assoc)
  finally show e: "column_lane byte digit offset lane start (start + n * 64)
      = (\<Sum>t<n. \<Sum>k<4. int (byte (start + (t * 64 + (lane * 4 + k)))) * digit ! (offset + (start + (t * 64 + (lane * 4 + k)))))"
    by (simp add: add.assoc)
  have "\<bar>\<Sum>t<n. \<Sum>k<4. int (byte (start + (t * 64 + (lane * 4 + k)))) * digit ! (offset + (start + (t * 64 + (lane * 4 + k))))\<bar> \<le> (\<Sum>t<n. \<Sum>k<(4::nat). 32640)"
    using assms(2) [OF idx] by (intro order_trans [OF sum_abs] sum_mono byte_product_bound) simp_all
  also have "\<dots> \<le> 4096 * 32640" using assms(1) by simp
  finally show "\<bar>column_lane byte digit offset lane start (start + n * 64)\<bar> \<le> 4096 * 32640" unfolding e .
qed

text \<open>Sixteen lanes of four bytes make up each group of 64.\<close>

lemma column_window:
  assumes start: "start \<in> set (step_by 0 (m * 64) 65536)" and len: "offset + m * 64 \<le> length digit" and d: "\<forall>x\<in>set digit. \<bar>x\<bar> \<le> 128"
    and byte: "\<And>i. i < m * 64 \<Longrightarrow> byte i < 256"
  shows "reduce_add (\<lambda>lane. column_lane byte digit offset lane start (min (start + 65536) (m * 64)))
    = (\<Sum>i<min (start + 65536) (m * 64) - start. int (byte (start + i)) * digit ! (offset + (start + i)))"
proof -
  obtain t where t: "start = t * 65536" "t < div_ceil (m * 64) 65536" using start by (auto simp: step_by_def)
  have "t * 65536 < m * 64" using less_div_ceil_iff [of 65536 t "m * 64"] t by simp
  define n where "n = min 1024 (m - t * 1024)"
  have n: "n \<le> 1024" "min (start + 65536) (m * 64) = start + n * 64" "start + n * 64 \<le> m * 64"
    using \<open>t * 65536 < m * 64\<close> unfolding t(1) n_def by linarith+
  have ok: "byte (start + i) < 256 \<and> \<bar>digit ! (offset + (start + i))\<bar> \<le> 128" if "i < n * 64" for i
  proof -
    have "start + i < m * 64" using that n(3) by linarith
    then show ?thesis using byte d len by simp
  qed
  let ?h = "\<lambda>i. int (byte (start + i)) * digit ! (offset + (start + i))"
  have "reduce_add (\<lambda>lane. column_lane byte digit offset lane start (start + n * 64)) = (\<Sum>l<16. column_lane byte digit offset l start (start + n * 64))"
    by (rule reduce_add_ok) (rule column_lane_ok(2) [OF n(1) ok])
  also have "\<dots> = (\<Sum>l<16. \<Sum>t<n. \<Sum>k<4. ?h (t * 64 + (l * 4 + k)))"
    by (intro sum.cong refl column_lane_ok(1) [OF n(1) ok]) simp_all
  also have "\<dots> = (\<Sum>t<n. \<Sum>l<16. \<Sum>k<4. ?h (t * 64 + (l * 4 + k)))" by (rule sum.swap)
  also have "\<dots> = (\<Sum>t<n. \<Sum>i<64. ?h (t * 64 + i))"
    using sum_groups [where n = 16 and w = 4 and h = "\<lambda>i. ?h (t * 64 + i)" for t] by simp
  also have "\<dots> = (\<Sum>i<n * 64. ?h i)" by (rule sum_groups)
  finally show ?thesis by (simp add: n(2))
qed

lemma u16_dot_vnni_exact:
  assumes p: "query_ok q p" and ne: "pq_digits p \<noteq> []" and fit: "offset + length a \<le> length (pq_words p)" and a: "all_below 65536 a"
  shows "u16_dot_vnni a (take (length a) (drop offset (pq_words p))) (pq_digits p) offset (8 * pq_skip p) AND pq_mask p
    = (\<Sum>i<length a. a ! i * pq_words p ! (offset + i)) mod q"
proof -
  let ?m = "length a div 64" and ?L = "length (pq_digits p)" and ?b = "take (length a) (drop offset (pq_words p))"
  let ?stop = "?m * 64" and ?low = "\<lambda>i. a ! i AND 255" and ?high = "\<lambda>i. drop_bit 8 (a ! i) AND 255"
  let ?f = "\<lambda>start j res. let l = reduce_add (\<lambda>lane. column_lane ?low (pq_digits p ! j) offset lane start (min (start + 65536) ?stop));
                h = reduce_add (\<lambda>lane. column_lane ?high (pq_digits p ! j) offset lane start (min (start + 65536) ?stop))
              in wrapping_add (wrapping_add res (shifted l (8 * pq_skip p + 8 * j))) (shifted h (8 * pq_skip p + (8 * j + 8)))"
  let ?res = "fold (\<lambda>start res. fold (?f start) [0..<?L] res) (step_by 0 ?stop 65536) 0"
  have stop: "?stop \<le> length a" by (rule div_times_less_eq_dividend)
  have d: "length (pq_digits p ! j) = length (pq_words p)" "\<forall>x\<in>set (pq_digits p ! j). \<bar>x\<bar> \<le> 128" if "j < ?L" for j
    using p ne nth_mem [OF that] by (auto simp: query_ok_def)
  obtain z where z: "eqm (2 ^ 64) (int ?res) z" "eqm q z (int (\<Sum>r<?stop. (?low r + 256 * ?high r) * pq_words p ! (offset + r)))"
  proof (rule band_eqm [OF p ne, where offset = offset and rows = ?stop and on = "\<lambda>_. True" and f = ?f and lo = ?low and hi = ?high])
    fix start j out assume s: "start \<in> set (step_by 0 ?stop 65536)" and j: "j < ?L"
    have w: "reduce_add (\<lambda>lane. column_lane byte (pq_digits p ! j) offset lane start (min (start + 65536) ?stop))
        = (\<Sum>i<min (start + 65536) ?stop - start. int (byte (start + i)) * pq_digits p ! j ! (offset + (start + i)))" if "\<And>i. byte i < 256" for byte
      using fit stop that by (intro column_window [OF s _ d(2) [OF j]]) (simp_all add: d(1) [OF j])
    show "eqm (2 ^ 64) (int (?f start j out)) (int out + (\<Sum>r<min (start + 65536) ?stop - start. int (?low (start + r)) * pq_digits p ! j ! (offset + (start + r))) * 2 ^ (8 * pq_skip p + 8 * j)
        + (if True then (\<Sum>r<min (start + 65536) ?stop - start. int (?high (start + r)) * pq_digits p ! j ! (offset + (start + r))) * 2 ^ (8 * pq_skip p + 8 * j + 8) else 0))"
      unfolding w [of ?low, OF byte_and] w [of ?high, OF byte_and] Let_def if_True add.assoc [of "8 * pq_skip p", symmetric]
      by (rule eqm_trans [OF wrapping_shifted]) (intro eqm_add eqm_refl wrapping_shifted)
  qed (use fit stop in auto)
  have "eqm (2 ^ 64) (int (u16_dot_vnni a ?b (pq_digits p) offset (8 * pq_skip p))) (int ?res + (\<Sum>(x, y)\<leftarrow>zip (drop ?stop a) (drop ?stop ?b). int x * int y))"
    unfolding u16_dot_vnni_def Let_def by (rule fold_eqm) (simp only: wrapping_mul_eqm split_beta)
  moreover have "(\<Sum>(x, y)\<leftarrow>zip (drop ?stop a) (drop ?stop ?b). int x * int y) = int (\<Sum>r<length a - ?stop. a ! (?stop + r) * pq_words p ! (offset + (?stop + r)))"
    using fit stop by (simp add: sum_list_sum_nth atLeast0LessThan split_beta add.assoc)
  ultimately have "eqm (2 ^ 64) (int (u16_dot_vnni a ?b (pq_digits p) offset (8 * pq_skip p)))
      (z + int (\<Sum>r<length a - ?stop. a ! (?stop + r) * pq_words p ! (offset + (?stop + r))))"
    using z(1) by (auto intro: eqm_trans eqm_add)
  moreover have "eqm q (z + int (\<Sum>r<length a - ?stop. a ! (?stop + r) * pq_words p ! (offset + (?stop + r)))) (int (\<Sum>i<length a. a ! i * pq_words p ! (offset + i)))"
  proof -
    have "(\<Sum>r<?stop. (?low r + 256 * ?high r) * pq_words p ! (offset + r)) = (\<Sum>i<?stop. a ! i * pq_words p ! (offset + i))"
      using stop all_below_nth [OF a] by (intro sum.cong refl) (simp add: split_u16)
    moreover have "(\<Sum>i<length a. a ! i * pq_words p ! (offset + i)) = (\<Sum>i<?stop. a ! i * pq_words p ! (offset + i)) + (\<Sum>r<length a - ?stop. a ! (?stop + r) * pq_words p ! (offset + (?stop + r)))"
      using sum.atLeastLessThan_concat [of 0 ?stop "length a" "\<lambda>i. a ! i * pq_words p ! (offset + i)"] stop
      by (simp add: atLeast0LessThan sum.atLeastLessThan_shift_0 [of _ ?stop] comp_def)
    ultimately show ?thesis using z(2) by (simp add: eqm_add)
  qed
  ultimately show ?thesis using and_mask_eqm [of q] p unfolding query_ok_def by simp
qed

section \<open>Properties\<close>

lemma query_ok_digits: "query_ok q p \<Longrightarrow> pq_digits p \<noteq> [] \<Longrightarrow> \<not> \<not> (1 \<le> length (pq_digits p) \<and> length (pq_digits p) \<le> 7)"
  by (auto simp: query_ok_def Suc_le_eq)

lemma interleaved_query_ok:
  assumes new: "new_query cpu words q = Inr p" and il: "interleave_columns (length words) db = Inr tiles"
    and db: "all_below 65536 db" and size: "length db = length words * cols" "cols mod 16 = 0" "length words * cols < 2 ^ 64"
  shows "multiply_interleaved p tiles cols = Inr (map (column_product words q db) [0..<cols])"
proof -
  note p = new_query_ok [OF new]
  let ?rows = "length words"
  have rows: "0 < ?rows" "?rows mod 4 = 0" and tiles: "tiles = concat (map (tile_u16 ?rows) (chunks_exact (?rows * 16) db))"
    using il by (auto simp: interleave_columns_def)
  obtain n where n: "cols = n * 16" using size(2) by (metis dvd_div_mult_self mod_0_imp_dvd)
  define f where "f = (\<lambda>band. if pq_digits p \<noteq> [] then interleaved_inner band (pq_digits p) (pq_mask p) (8 * pq_skip p) else portable_u16 words band (pq_mask p))"
  have F: "(if pq_digits p \<noteq> [] then interleaved_vnni band (pq_digits p) (pq_mask p) (8 * pq_skip p) else Inr (portable_u16 words band (pq_mask p))) = Inr (f band)" for band
    using query_ok_digits [OF p(1)] by (simp add: f_def interleaved_vnni_def)
  have len: "length tiles = ?rows * cols"
  proof -
    have "length (chunks_exact (?rows * 16) db) = n" using chunks_exact_props(1) [of "?rows * 16" db n] rows n size(1) by simp
    then show ?thesis unfolding tiles n by (subst length_concat_rows [of _ "?rows * 16"]) (auto simp: tile_u16_def)
  qed
  have "mapR concat (collectR (\<lambda>band. if pq_digits p \<noteq> [] then interleaved_vnni band (pq_digits p) (pq_mask p) (8 * pq_skip p) else Inr (portable_u16 words band (pq_mask p)))
      (chunks_exact (?rows * 16) tiles)) = Inr (map (column_product words q db) [0..<cols])"
    unfolding tiles n
  proof (rule bands_exact [where f = f])
    fix c col assume "c < n" "col < (16::nat)"
    then show "length (f (tile_u16 ?rows (chunk_at (?rows * 16) db c))) = 16 \<and> f (tile_u16 ?rows (chunk_at (?rows * 16) db c)) ! col = column_product words q db (c * 16 + col)"
      using u16_band [OF p(1) _ rows(2) db _ \<open>c < n\<close> \<open>col < 16\<close>] p(2) size(1) n
      by (simp add: f_def interleaved_inner_def portable_u16_def Let_def)
  qed (use rows size n F in \<open>simp_all add: tile_u16_def\<close>)
  then show ?thesis using rows size len p(2) unfolding multiply_interleaved_def checked_mul_def Let_def p(2) by (simp del: mapR_eq_Inr)
qed

text \<open>C10. The byte-tile layout and the digit accumulators are exact: on interleaved 16-column bands of a
  16-bit database, with or without the vector kernel, every output is the product of the column and the
  query words modulo \<open>q\<close>. No 32-bit accumulator overflows and no size assertion fails.\<close>

theorem interleaved_query_exact:
  assumes new: "new_query cpu words q = Inr p" and il: "interleave_columns (length words) db = Inr tiles"
    and db: "all_below 65536 db" and size: "length db = length words * cols" "cols mod 16 = 0" "length words * cols < 2 ^ 64"
  shows "multiply_interleaved p tiles cols = Inr (map (column_product words q db) [0..<cols])"
  by (rule interleaved_query_ok [OF assms])

text \<open>The same for 8-bit databases: one byte per element and one pass per digit.\<close>

theorem interleaved_u8_query_exact:
  assumes new: "new_query cpu words q = Inr p" and il: "interleave_u8_columns (length words) db = Inr tiles"
    and db: "all_below 256 db" and size: "length db = length words * cols" "cols mod 16 = 0" "length words * cols < 2 ^ 64"
  shows "multiply_interleaved_u8 p tiles cols = Inr (map (column_product words q db) [0..<cols])"
proof -
  note p = new_query_ok [OF new]
  let ?rows = "length words"
  have rows: "0 < ?rows" "?rows mod 4 = 0" and tiles: "tiles = concat (map (tile_u8 ?rows) (chunks_exact (?rows * 16) db))"
    using il by (auto simp: interleave_u8_columns_def)
  obtain n where n: "cols = n * 16" using size(2) by (metis dvd_div_mult_self mod_0_imp_dvd)
  define f where "f = (\<lambda>band. if pq_digits p \<noteq> [] then interleaved_u8_inner band (pq_digits p) (pq_mask p) (8 * pq_skip p) else portable_u8 words band (pq_mask p))"
  have F: "(if pq_digits p \<noteq> [] then interleaved_u8_vnni band (pq_digits p) (pq_mask p) (8 * pq_skip p) else Inr (portable_u8 words band (pq_mask p))) = Inr (f band)" for band
    using query_ok_digits [OF p(1)] by (simp add: f_def interleaved_u8_vnni_def)
  have len: "length tiles = ?rows * cols"
  proof -
    have "length (chunks_exact (?rows * 16) db) = n" using chunks_exact_props(1) [of "?rows * 16" db n] rows n size(1) by simp
    then show ?thesis unfolding tiles n by (subst length_concat_rows [of _ "?rows * 16"]) (auto simp: tile_u8_def)
  qed
  have "mapR concat (collectR (\<lambda>band. if pq_digits p \<noteq> [] then interleaved_u8_vnni band (pq_digits p) (pq_mask p) (8 * pq_skip p) else Inr (portable_u8 words band (pq_mask p)))
      (chunks_exact (?rows * 16) tiles)) = Inr (map (column_product words q db) [0..<cols])"
    unfolding tiles n
  proof (rule bands_exact [where f = f])
    fix c col assume "c < n" "col < (16::nat)"
    then show "length (f (tile_u8 ?rows (chunk_at (?rows * 16) db c))) = 16 \<and> f (tile_u8 ?rows (chunk_at (?rows * 16) db c)) ! col = column_product words q db (c * 16 + col)"
      using u8_band [OF p(1) _ rows(2) db _ \<open>c < n\<close> \<open>col < 16\<close>] p(2) size(1) n
      by (simp add: f_def interleaved_u8_inner_def portable_u8_def Let_def)
  qed (use rows size n F in \<open>simp_all add: tile_u8_def\<close>)
  then show ?thesis using rows size len p(2) unfolding multiply_interleaved_u8_def checked_mul_def Let_def p(2) by (simp del: mapR_eq_Inr)
qed

text \<open>A column-at-a-time product agrees with the layout kernels on every processor, including the
  elements after the last whole group of 64.\<close>

theorem query_dot_exact:
  assumes new: "new_query cpu words q = Inr p" and column: "all_below 65536 column"
  shows "query_dot cpu' p column = (if length column = length words then Inr (column_product words q column 0) else Inl (Panic ''assertion failed: column.len()''))"
proof (cases "length column = length words")
  case True
  note p = new_query_ok [OF new]
  have ok: "is_power_of_two q" "pq_mask p = q - 1" "all_below q words" "q \<le> 2 ^ 56" "length (pq_digits p) \<le> 7 \<or> pq_digits p = []" using p by (auto simp: query_ok_def)
  have w: "all_below (2 ^ 64) words" by (rule all_below_mono [OF ok(3)]) (use ok(4) in simp)
  show ?thesis
  proof (cases "pq_digits p = []")
    case plain: True
    have c: "all_below (2 ^ 64) column" by (rule all_below_mono [OF column]) simp
    obtain k where "k < 64" "q = 2 ^ k" using ok(1) by (auto simp: is_power_of_two_iff)
    then have "u64 (dot_sum column words) AND (q - 1) = dot_sum column words mod q" by (simp add: and_exp_minus_1 u64_mod_exp del: One_nat_def)
    then show ?thesis
      using dot_dispatch_ok(2) [OF True c w, of cpu'] True plain p(2) ok(2)
      by (simp add: query_dot_def dot_range_def column_product_def dot_sum_def del: One_nat_def)
  next
    case False
    then show ?thesis
      using u16_dot_vnni_exact [OF p(1) False, of 0 column] column True p(2) ok(5)
      by (simp add: query_dot_def dot_range_def column_product_def)
  qed
next
  case False
  then show ?thesis using new_query_ok(2) [OF new] by (simp add: query_dot_def)
qed

definition demo_query :: prepared_query where
  "demo_query = \<lparr>pq_words = [3, 255, 128, 7], pq_digits = [[3, -1, -128, 7]], pq_skip = 0, pq_mask = 255\<rparr>"

lemma demo_query:
  "new_query \<lparr>has_avx2 = True, has_avx512 = True, has_vnni = True, has_vbmi = True\<rparr> [3, 255, 128, 7] 256 = Inr demo_query"
proof -
  have "is_power_of_two 256" unfolding is_power_of_two_iff by (rule exI [of _ 8]) simp
  moreover have "trailing_zeros 256 = 8" using trailing_zeros_exp [of 8] by simp
  ultimately show ?thesis by (simp add: new_query_def byte_digits_def div_ceil_def i8_def u8_def demo_query_def)
qed

lemma demo_rows: "length [3, 255, 128, 7 :: nat] = 4"
  by simp

theorem interleaved_query_exact_witness:
  "multiply_interleaved demo_query (concat (map (tile_u16 4) (chunks_exact 64 (map (\<lambda>i. i * 1000) [0..<64])))) 16
    = Inr (map (column_product [3, 255, 128, 7] 256 (map (\<lambda>i. i * 1000) [0..<64])) [0..<16])"
  using interleaved_query_exact [OF demo_query, unfolded demo_rows, of "map (\<lambda>i. i * 1000) [0..<64]" _ 16]
  by (simp add: interleave_columns_def all_below_set del: upt_Suc)

theorem interleaved_u8_query_exact_witness:
  "multiply_interleaved_u8 demo_query (concat (map (tile_u8 4) (chunks_exact 64 (map (\<lambda>i. i * 3) [0..<64])))) 16
    = Inr (map (column_product [3, 255, 128, 7] 256 (map (\<lambda>i. i * 3) [0..<64])) [0..<16])"
  using interleaved_u8_query_exact [OF demo_query, unfolded demo_rows, of "map (\<lambda>i. i * 3) [0..<64]" _ 16]
  by (simp add: interleave_u8_columns_def all_below_set del: upt_Suc)

theorem query_dot_exact_witness:
  "query_dot \<lparr>has_avx2 = False, has_avx512 = False, has_vnni = False, has_vbmi = False\<rparr> demo_query [1, 2, 3, 65535] = Inr (column_product [3, 255, 128, 7] 256 [1, 2, 3, 65535] 0)"
  using query_dot_exact [OF demo_query, of "[1, 2, 3, 65535]"] by simp

end
