(* ===== verification/Native_Params.thy ===== *)
theory Native_Params
  imports Lift Bit_Store
begin

text \<open>
  The profile of the native modulus and its signed gadget decomposition (\<open>NativeParams\<close>,
  \<open>validate_poly\<close> and \<open>decompose\<close> of \<open>reinspiring/src/native.rs\<close>): the accepted profiles, their
  binding encoding, the weights of the gadget digits, and the bounds and the reconstruction of
  the digits.
\<close>

section \<open>Model\<close>

datatype secret_distribution = Gaussian | TernaryResearch

definition MAX_GADGET_BITS :: nat where
  "MAX_GADGET_BITS = 27"

record native_params =
  np_d :: nat
  np_q :: nat
  np_p :: nat
  np_bits :: nat
  np_ell :: nat
  np_dropped :: nat
  np_sampler :: secret_distribution

definition new_native_params ::
    "ntt_engine \<Rightarrow> nat \<Rightarrow> nat \<Rightarrow> nat \<Rightarrow> nat \<Rightarrow> nat \<Rightarrow> secret_distribution \<Rightarrow> native_params result" where
  "new_native_params eng d q_bits p_bits bits ell sampler =
     guardR (\<not> (2 \<le> d \<and> d \<le> 2048) \<or> \<not> is_power_of_two d \<or> \<not> (16 \<le> q_bits \<and> q_bits \<le> 56)
             \<or> p_bits = 0 \<or> p_bits \<ge> q_bits \<or> bits = 0 \<or> bits > MAX_GADGET_BITS \<or> ell = 0 \<or> ell > 8)
       (InvalidParams ''invalid native profile'')
       (let q = 2 ^ q_bits; p = 2 ^ p_bits; dropped = q_bits - bits * ell
        in guardR (dropped > MAX_GADGET_BITS) (InvalidParams ''too many discarded gadget bits'')
             (mapR (\<lambda>_. \<lparr>np_d = d, np_q = q, np_p = p, np_bits = bits, np_ell = ell, np_dropped = dropped, np_sampler = sampler\<rparr>)
               (new_lift_context eng d q)))"

definition paper :: "ntt_engine \<Rightarrow> nat \<Rightarrow> secret_distribution \<Rightarrow> native_params result" where
  "paper eng ell sampler = new_native_params eng 2048 54 14 19 ell sampler"

fun sampler_tag :: "secret_distribution \<Rightarrow> nat" where
  "sampler_tag Gaussian = 0"
| "sampler_tag TernaryResearch = 1"

text \<open>The ASCII bytes of \<open>reinspiring-native-experimental-v1\<close>, then seven little-endian words.\<close>

definition profile_tag :: "byte list" where
  "profile_tag = [114,101,105,110,115,112,105,114,105,110,103,45,110,97,116,105,118,101,45,
     101,120,112,101,114,105,109,101,110,116,97,108,45,118,49]"

definition encoding :: "native_params \<Rightarrow> byte list" where
  "encoding p = profile_tag @ concat (map to_le_bytes
     [np_d p, np_q p, np_p p, np_bits p, np_ell p, np_dropped p, sampler_tag (np_sampler p)])"

definition division_error_bound :: "native_params \<Rightarrow> nat \<Rightarrow> nat" where
  "division_error_bound p secret_bound = u128 (u128 (np_d p * np_d p) * secret_bound)"

definition decomposition_error_bound :: "native_params \<Rightarrow> nat \<Rightarrow> nat" where
  "decomposition_error_bound p secret_bound =
     (if np_dropped p = 0 then 0
      else u128 (u128 (u128 ((np_d p - 1) * np_d p) * 2 ^ (np_dropped p - 1)) * secret_bound))"

definition factor :: "native_params \<Rightarrow> nat \<Rightarrow> nat" where
  "factor p j =
     (let shift = np_dropped p + np_bits p * j
      in if shift \<ge> trailing_zeros (np_q p) then 0 else 2 ^ shift)"

definition validate_poly :: "nat list \<Rightarrow> native_params \<Rightarrow> unit result" where
  "validate_poly a p =
     guardR (length a \<noteq> np_d p \<or> list_ex (\<lambda>x. x \<ge> np_q p) a)
       (InvalidParams ''wrong degree or noncanonical coefficient'') (Inr ())"

text \<open>The rounded coefficient and the digits taken off it, least significant first.\<close>

definition rounded :: "native_params \<Rightarrow> nat \<Rightarrow> int" where
  "rounded p a =
     (if np_dropped p = 0 then int a else drop_bit (np_dropped p) (int a + 2 ^ (np_dropped p - 1)))"

fun digit_loop :: "int \<Rightarrow> nat \<Rightarrow> int \<Rightarrow> int list" where
  "digit_loop z 0 x = []"
| "digit_loop z (Suc n) x =
     (let digit = (x + tdiv z 2) mod z - tdiv z 2 in digit # digit_loop z n (tdiv (x - digit) z))"

definition decompose :: "nat list \<Rightarrow> native_params \<Rightarrow> nat list list result" where
  "decompose a p =
     bindR (validate_poly a p) (\<lambda>_.
       let digits = map (\<lambda>x. map (\<lambda>digit. rem_euclid digit (np_q p)) (digit_loop (2 ^ np_bits p) (np_ell p) (rounded p x))) a
       in Inr (map (\<lambda>j. map (\<lambda>ds. ds ! j) digits) [0..<np_ell p]))"

section \<open>Well-formed profiles\<close>

definition good_native :: "native_params \<Rightarrow> bool" where
  "good_native p \<longleftrightarrow> 2 \<le> np_d p \<and> np_d p \<le> 2048 \<and> is_power_of_two (np_d p)
     \<and> (\<exists>k. 16 \<le> k \<and> k \<le> 56 \<and> np_q p = 2 ^ k \<and> (\<exists>l. 0 < l \<and> l < k \<and> np_p p = 2 ^ l) \<and> np_dropped p = k - np_bits p * np_ell p)
     \<and> 0 < np_bits p \<and> np_bits p \<le> 27 \<and> 0 < np_ell p \<and> np_ell p \<le> 8 \<and> np_dropped p \<le> 27"

lemma new_native_params_good:
  assumes "new_native_params eng d q_bits p_bits bits ell sampler = Inr p"
  shows "good_native p" and "\<exists>ctx. new_lift_context eng (np_d p) (np_q p) = Inr ctx"
  using assms
  by (auto simp: new_native_params_def good_native_def MAX_GADGET_BITS_def Let_def not_le not_less)

lemma good_nativeD:
  assumes "good_native p"
  shows "0 < np_d p" "np_d p \<le> 2048" "is_power_of_two (np_d p)" "is_power_of_two (np_q p)" "2 ^ 16 \<le> np_q p" "np_q p \<le> 2 ^ 56" "0 < np_ell p"
    "np_ell p \<le> 8" "0 < np_bits p" "np_bits p \<le> 27" "np_dropped p \<le> 27" "2 \<le> np_d p"
proof -
  obtain k where k: "16 \<le> k" "k \<le> 56" "np_q p = 2 ^ k" using assms by (auto simp: good_native_def)
  show "is_power_of_two (np_q p)" using k by (auto simp: is_power_of_two_iff)
  show "2 ^ 16 \<le> np_q p" "np_q p \<le> 2 ^ 56" using k by (simp_all only: k(3) le_log2)
qed (use assms in \<open>simp_all add: good_native_def\<close>)

lemma validate_poly_iff: "validate_poly a p = (if length a = np_d p \<and> all_below (np_q p) a then Inr ()
    else Inl (InvalidParams ''wrong degree or noncanonical coefficient''))"
  by (auto simp: validate_poly_def guardR_def list_ex_iff all_below_set not_less)

section \<open>Digits\<close>

lemma near_eqm: "eqm q y y' \<Longrightarrow> near q r x y \<longleftrightarrow> near q r x y'"
  by (simp add: near_def eqm_mod_iff)

lemma near_eqm_left: "eqm q x x' \<Longrightarrow> near q r x y \<longleftrightarrow> near q r x' y"
  unfolding near_def eqm_mod_iff by (metis mod_add_left_eq)

text \<open>Each digit is in the half-open symmetric range, and the digits with their carry give the number back.\<close>

lemma length_digit_loop [simp]: "length (digit_loop z n x) = n"
  by (induction n arbitrary: x) (simp_all add: Let_def)

lemma digit_step:
  fixes x z :: int
  assumes z: "z = 2 ^ b" and "0 < b"
  defines "digit \<equiv> (x + tdiv z 2) mod z - tdiv z 2"
  shows "- (z div 2) \<le> digit" "digit < z div 2" "x = digit + tdiv (x - digit) z * z"
proof -
  have half: "tdiv z 2 = z div 2" "z = 2 * (z div 2)" "0 < z"
    using assms by (simp_all add: tdiv_nonneg)
  have m: "0 \<le> (x + z div 2) mod z" "(x + z div 2) mod z < z" using half(3) by simp_all
  show "- (z div 2) \<le> digit" "digit < z div 2" unfolding digit_def half(1) using m half(2) by linarith+
  have "z dvd (x + z div 2) - (x + z div 2) mod z" by (rule dvd_minus_mod)
  then have dvd: "z dvd x - digit" unfolding digit_def half(1) by (simp add: algebra_simps)
  then obtain c where c: "x - digit = z * c" ..
  have "tdiv (z * c) z = c"
    using half(3) by (simp add: tdiv_def abs_mult sgn_mult) (metis mult_sgn_abs mult.commute)
  then show "x = digit + tdiv (x - digit) z * z" using c by (simp add: algebra_simps)
qed

lemma digit_loop_range:
  fixes x z :: int
  assumes z: "z = 2 ^ b" and "0 < b"
  shows "\<forall>y\<in>set (digit_loop z n x). - (z div 2) \<le> y \<and> y < z div 2"
proof (induction n arbitrary: x)
  case (Suc n)
  then show ?case using digit_step(1,2) [OF assms, of x] by (simp add: Let_def)
qed simp

lemma digit_loop_sum:
  fixes x z :: int
  assumes z: "z = 2 ^ b" and "0 < b"
  shows "\<exists>c. x = (\<Sum>j<n. digit_loop z n x ! j * z ^ j) + c * z ^ n"
proof (induction n arbitrary: x)
  case (Suc n)
  define y where "y = (x + tdiv z 2) mod z - tdiv z 2"
  have eq: "digit_loop z (Suc n) x = y # digit_loop z n (tdiv (x - y) z)" by (simp add: y_def Let_def)
  obtain c where c: "tdiv (x - y) z = (\<Sum>j<n. digit_loop z n (tdiv (x - y) z) ! j * z ^ j) + c * z ^ n"
    using Suc by blast
  have "x = y + ((\<Sum>j<n. digit_loop z n (tdiv (x - y) z) ! j * z ^ j) + c * z ^ n) * z"
    using digit_step(3) [OF assms, of x, folded y_def] c by simp
  also have "\<dots> = (\<Sum>j<Suc n. digit_loop z (Suc n) x ! j * z ^ j) + c * z ^ Suc n"
    unfolding eq sum.lessThan_Suc_shift by (simp add: algebra_simps sum_distrib_left)
  finally show ?case by (rule exI)
qed simp

lemma centered_least:
  assumes "0 < q" and "eqm q (int x) y" and "x < q"
  shows "\<bar>centered x q\<bar> \<le> \<bar>y\<bar>"
proof -
  have b: "2 * \<bar>centered x q\<bar> \<le> int q" using centered_bound [OF assms(3)] by linarith
  have "eqm q (centered x q) y" by (rule eqm_trans [OF eqm_sym [OF centered_eqm] assms(2)])
  then obtain c where c: "centered x q - y = int q * c" unfolding eqm_def ..
  show ?thesis
  proof (cases "c = 0")
    case False
    then have "int q * 1 \<le> int q * \<bar>c\<bar>" by (intro mult_left_mono) auto
    then have "int q \<le> \<bar>centered x q - y\<bar>" by (simp add: c abs_mult)
    with b show ?thesis by linarith
  qed (use c in simp)
qed

lemma factor_eqm:
  assumes "good_native p"
  shows "eqm (np_q p) (int (factor p j)) (2 ^ (np_dropped p + np_bits p * j))"
proof -
  obtain k where k: "k \<le> 56" "np_q p = 2 ^ k" using assms by (auto simp: good_native_def)
  show ?thesis
  proof (cases "k \<le> np_dropped p + np_bits p * j")
    case True
    then have "(2::int) ^ k dvd 2 ^ (np_dropped p + np_bits p * j)" by (rule le_imp_power_dvd)
    then show ?thesis using True k by (simp add: factor_def Let_def eqm_def)
  qed (use k in \<open>simp add: factor_def Let_def\<close>)
qed

definition gadget_radius :: "native_params \<Rightarrow> int" where
  "gadget_radius p = (if np_dropped p = 0 then 0 else 2 ^ (np_dropped p - 1))"

lemma rounded_near: "\<bar>2 ^ np_dropped p * rounded p a - int a\<bar> \<le> gadget_radius p"
proof (cases "np_dropped p = 0")
  case False
  then obtain e where e: "np_dropped p = Suc e" by (cases "np_dropped p") auto
  have half: "(2::int) ^ np_dropped p div 2 = 2 ^ e" by (simp add: e)
  have "\<bar>(int a + 2 ^ e) div 2 ^ np_dropped p * 2 ^ np_dropped p - int a\<bar> \<le> 2 ^ e"
    using floor_round_error [of "2 ^ np_dropped p" "int a"] unfolding half by simp
  then show ?thesis using e by (simp add: rounded_def gadget_radius_def drop_bit_eq_div mult.commute)
qed (simp add: rounded_def gadget_radius_def)

text \<open>The digit count always reaches the modulus, so the last carry vanishes.\<close>

lemma digits_cover:
  assumes "good_native p"
  shows "int (np_q p) dvd 2 ^ np_dropped p * (2 ^ np_bits p) ^ np_ell p"
proof -
  obtain k where k: "np_q p = 2 ^ k" "np_dropped p = k - np_bits p * np_ell p" using assms by (auto simp: good_native_def)
  have "(2::int) ^ k dvd 2 ^ (np_dropped p + np_bits p * np_ell p)" using k(2) by (intro le_imp_power_dvd) simp
  then show ?thesis by (simp add: k(1) power_add power_mult)
qed

definition digits_of :: "native_params \<Rightarrow> nat \<Rightarrow> int list" where
  "digits_of p x = digit_loop (2 ^ np_bits p) (np_ell p) (rounded p x)"

lemma digits_of_bound:
  assumes "good_native p" and "j < np_ell p"
  shows "\<bar>digits_of p x ! j\<bar> \<le> 2 ^ (np_bits p - 1)"
proof -
  have half: "(2::int) ^ np_bits p div 2 = 2 ^ (np_bits p - 1)"
    using good_nativeD(9) [OF assms(1)] by (cases "np_bits p") simp_all
  have "digits_of p x ! j \<in> set (digits_of p x)" using assms(2) by (simp add: digits_of_def)
  then have "- (2 ^ (np_bits p - 1)) \<le> digits_of p x ! j \<and> digits_of p x ! j < 2 ^ (np_bits p - 1)"
    using digit_loop_range [OF refl good_nativeD(9) [OF assms(1)]] by (simp add: digits_of_def half)
  then show ?thesis by linarith
qed

lemma digits_of_near:
  assumes "good_native p"
  shows "near (np_q p) (gadget_radius p) (int a) (\<Sum>j<np_ell p. digits_of p a ! j * int (factor p j))"
proof -
  let ?z = "2 ^ np_bits p :: int" and ?D = "2 ^ np_dropped p :: int"
  obtain c where c: "rounded p a = (\<Sum>j<np_ell p. digits_of p a ! j * ?z ^ j) + c * ?z ^ np_ell p"
    using digit_loop_sum [OF refl good_nativeD(9) [OF assms]] unfolding digits_of_def by blast
  have "eqm (np_q p) (\<Sum>j<np_ell p. digits_of p a ! j * int (factor p j)) (\<Sum>j<np_ell p. digits_of p a ! j * (?D * ?z ^ j))"
    using factor_eqm [OF assms] by (intro eqm_sum eqm_mult eqm_refl) (simp add: power_add power_mult)
  also have "(\<Sum>j<np_ell p. digits_of p a ! j * (?D * ?z ^ j)) = ?D * rounded p a - c * (?D * ?z ^ np_ell p)"
    unfolding c by (simp add: sum_distrib_left algebra_simps)
  also have "eqm (np_q p) \<dots> (?D * rounded p a)"
    using digits_cover [OF assms] by (simp add: eqm_def)
  finally have "(\<Sum>j<np_ell p. digits_of p a ! j * int (factor p j)) mod int (np_q p) = (int a + (?D * rounded p a - int a)) mod int (np_q p)"
    by (simp add: eqm_mod_iff)
  then show ?thesis by (rule nearI [OF rounded_near])
qed

section \<open>The decomposition\<close>

lemma decompose_eq:
  assumes "length a = np_d p" and "all_below (np_q p) a"
  shows "decompose a p = Inr (map (\<lambda>j. map (\<lambda>x. rem_euclid (digits_of p x ! j) (np_q p)) a) [0..<np_ell p])"
  using assms by (simp add: decompose_def validate_poly_iff Let_def digits_of_def)

definition digit_bound :: "native_params \<Rightarrow> nat" where
  "digit_bound p = min (2 ^ (np_bits p - 1)) (np_q p div 2)"

lemma decompose_digits:
  assumes good: "good_native p" and "length a = np_d p" and "all_below (np_q p) a"
    and "decompose a p = Inr ds"
  shows "length ds = np_ell p"
    and "\<And>j. j < np_ell p \<Longrightarrow> length (ds ! j) = np_d p \<and> all_below (np_q p) (ds ! j)
      \<and> (\<forall>i<np_d p. \<bar>centered (ds ! j ! i) (np_q p)\<bar> \<le> int (digit_bound p)) "
    and "\<And>i. i < np_d p \<Longrightarrow> near (np_q p) (gadget_radius p) (int (a ! i)) (\<Sum>j<np_ell p. centered (ds ! j ! i) (np_q p) * int (factor p j))"
proof -
  have q: "0 < np_q p" using good_nativeD(5) [OF good] by simp
  have ds: "ds = map (\<lambda>j. map (\<lambda>x. rem_euclid (digits_of p x ! j) (np_q p)) a) [0..<np_ell p]"
    using decompose_eq [OF assms(2,3)] assms(4) by simp
  then show "length ds = np_ell p" by simp
  show "length (ds ! j) = np_d p \<and> all_below (np_q p) (ds ! j) \<and> (\<forall>i<np_d p. \<bar>centered (ds ! j ! i) (np_q p)\<bar> \<le> int (digit_bound p))"
    if j: "j < np_ell p" for j
  proof -
    have less: "rem_euclid x (np_q p) < np_q p" for x using q by (rule rem_euclid_less)
    have "\<bar>centered (rem_euclid (digits_of p x ! j) (np_q p)) (np_q p)\<bar> \<le> int (digit_bound p)" for x
      using centered_least [OF q rem_euclid_eqm [OF q] less, of "digits_of p x ! j"] digits_of_bound [OF good j, of x]
        centered_bound [OF less, of "digits_of p x ! j"]
      by (simp add: digit_bound_def min_def)
    then show ?thesis using j assms(2) less by (auto simp: ds all_below_set)
  qed
  show "near (np_q p) (gadget_radius p) (int (a ! i)) (\<Sum>j<np_ell p. centered (ds ! j ! i) (np_q p) * int (factor p j))" if i: "i < np_d p" for i
  proof -
    have "eqm (np_q p) (\<Sum>j<np_ell p. centered (ds ! j ! i) (np_q p) * int (factor p j)) (\<Sum>j<np_ell p. digits_of p (a ! i) ! j * int (factor p j))"
    proof (intro eqm_sum eqm_mult eqm_refl)
      fix j assume "j \<in> {..<np_ell p}"
      then have "ds ! j ! i = rem_euclid (digits_of p (a ! i) ! j) (np_q p)" using i assms(2) by (simp add: ds)
      then show "eqm (np_q p) (centered (ds ! j ! i) (np_q p)) (digits_of p (a ! i) ! j)"
        using eqm_trans [OF eqm_sym [OF centered_eqm] rem_euclid_eqm [OF q]] by simp
    qed
    then show ?thesis using digits_of_near [OF good, of "a ! i"] by (simp only: near_eqm)
  qed
qed

section \<open>Properties\<close>

text \<open>C34. The signed gadget decomposition of the native profile: every canonical polynomial of the profile's
  degree is accepted and every other one refused; the digits are canonical, their centred values stay
  within half the digit base (the bound the public dot products are prepared for), and weighted by the
  profile's factors they give each coefficient back up to half a unit of the discarded bits.\<close>

theorem decompose_reconstructs:
  assumes "new_native_params eng d q_bits p_bits bits ell sampler = Inr p"
  shows "if length a = d \<and> all_below (np_q p) a
    then \<exists>ds. decompose a p = Inr ds \<and> length ds = ell
      \<and> (\<forall>j<ell. length (ds ! j) = d \<and> all_below (np_q p) (ds ! j)
           \<and> (\<forall>i<d. \<bar>centered (ds ! j ! i) (np_q p)\<bar> \<le> int (min (2 ^ (bits - 1)) (np_q p div 2))))
      \<and> (\<forall>i<d. near (np_q p) (if np_dropped p = 0 then 0 else 2 ^ (np_dropped p - 1)) (int (a ! i))
           (\<Sum>j<ell. centered (ds ! j ! i) (np_q p) * int (factor p j)))
    else decompose a p = Inl (InvalidParams ''wrong degree or noncanonical coefficient'')"
proof -
  note good = new_native_params_good(1) [OF assms]
  have eqs: "np_d p = d" "np_bits p = bits" "np_ell p = ell" using assms by (auto simp: new_native_params_def Let_def)
  show ?thesis
  proof (cases "length a = d \<and> all_below (np_q p) a")
    case True
    then obtain ds where ds: "decompose a p = Inr ds" using decompose_eq [of a p] eqs by simp
    from decompose_digits [OF good _ _ this, unfolded eqs digit_bound_def gadget_radius_def] True ds show ?thesis by auto
  next
    case False
    then show ?thesis by (auto simp: decompose_def validate_poly_iff eqs)
  qed
qed

text \<open>The encoding determines the profile.\<close>

lemma to_le_bytes_inj: "to_le_bytes x = to_le_bytes y \<Longrightarrow> x < 2 ^ 64 \<Longrightarrow> y < 2 ^ 64 \<Longrightarrow> x = y"
  using getbit_to_le_bytes by (intro bit_eqI) (metis bit_less_exp)

lemma encoding_inj:
  assumes S: "good_native p" "good_native p'" and same: "encoding p = encoding p'"
  shows "p = p'"
proof -
  have small: "np_d p < 2 ^ 64 \<and> np_q p < 2 ^ 64 \<and> np_p p < 2 ^ 64 \<and> np_bits p < 2 ^ 64 \<and> np_ell p < 2 ^ 64 \<and> np_dropped p < 2 ^ 64 \<and> sampler_tag (np_sampler p) < 2 ^ 64"
    if p: "good_native p" for p
  proof -
    obtain l where l: "np_p p = 2 ^ l" "l < 56" using p by (auto simp: good_native_def)
    have "(2::nat) ^ l < 2 ^ 56" using l(2) by (intro power_strict_increasing) simp_all
    with l(1) have "np_p p < 2 ^ 56" by simp
    then show ?thesis using good_nativeD [OF p] by (cases "np_sampler p") simp_all
  qed
  have tags: "s = s'" if "sampler_tag s = sampler_tag s'" for s s' using that by (cases s; cases s') simp_all
  have "to_le_bytes (np_d p) = to_le_bytes (np_d p') \<and> to_le_bytes (np_q p) = to_le_bytes (np_q p')
      \<and> to_le_bytes (np_p p) = to_le_bytes (np_p p') \<and> to_le_bytes (np_bits p) = to_le_bytes (np_bits p')
      \<and> to_le_bytes (np_ell p) = to_le_bytes (np_ell p') \<and> to_le_bytes (np_dropped p) = to_le_bytes (np_dropped p')
      \<and> to_le_bytes (sampler_tag (np_sampler p)) = to_le_bytes (sampler_tag (np_sampler p'))"
    using same by (simp add: encoding_def append_eq_append_conv)
  then have "np_d p = np_d p' \<and> np_q p = np_q p' \<and> np_p p = np_p p' \<and> np_bits p = np_bits p' \<and> np_ell p = np_ell p'
      \<and> np_dropped p = np_dropped p' \<and> sampler_tag (np_sampler p) = sampler_tag (np_sampler p')"
    using small [OF S(1)] small [OF S(2)] by (intro conjI; intro to_le_bytes_inj) simp_all
  then show ?thesis using tags by simp
qed

text \<open>The binding encoding of profiles is injective: two accepted profiles with the same bytes are equal,
  so setups and transports of different profiles never share an identifier input.\<close>

theorem encoding_injective:
  assumes "new_native_params eng d q_bits p_bits bits ell sampler = Inr p"
    and "new_native_params eng' d' q_bits' p_bits' bits' ell' sampler' = Inr p'"
  shows "encoding p = encoding p' \<longleftrightarrow> p = p'"
  using encoding_inj [OF new_native_params_good(1) [OF assms(1)] new_native_params_good(1) [OF assms(2)]] by auto

section \<open>The hypotheses can hold\<close>

definition demo_params :: native_params where
  "demo_params = \<lparr>np_d = 4, np_q = 2 ^ 20, np_p = 2 ^ 4, np_bits = 6, np_ell = 3, np_dropped = 2, np_sampler = TernaryResearch\<rparr>"

lemma demo_params: "new_native_params coefficient_engine 4 20 4 6 3 TernaryResearch = Inr demo_params"
proof -
  have "is_power_of_two 4" unfolding is_power_of_two_iff by (rule exI [of _ 2]) simp
  then show ?thesis
    using coefficient_engine_context by (simp add: new_native_params_def demo_params_def MAX_GADGET_BITS_def guardR_def)
qed

theorem decompose_reconstructs_witness:
  "decompose [5, 70000, 1048575, 524288] demo_params = Inr [[1, 28, 0, 0], [0, 17, 0, 0], [0, 4, 0, 1048544]]
   \<and> near (2 ^ 20) 2 (int ([5, 70000, 1048575, 524288] ! 1))
       (\<Sum>j<3. centered ([[1, 28, 0, 0], [0, 17, 0, 0], [0, 4, 0, 1048544]] ! j ! 1) (2 ^ 20) * int (factor demo_params j))
   \<and> near (2 ^ 20) 2 (int ([5, 70000, 1048575, 524288] ! 3))
       (\<Sum>j<3. centered ([[1, 28, 0, 0], [0, 17, 0, 0], [0, 4, 0, 1048544]] ! j ! 3) (2 ^ 20) * int (factor demo_params j))"
proof -
  have eval: "decompose [5, 70000, 1048575, 524288] demo_params = Inr [[1, 28, 0, 0], [0, 17, 0, 0], [0, 4, 0, 1048544]]"
  proof -
    have "digits_of demo_params 5 = [1, 0, 0]" "digits_of demo_params 70000 = [28, 17, 4]"
      "digits_of demo_params 1048575 = [0, 0, 0]" "digits_of demo_params 524288 = [0, 0, - 32]"
      by code_simp+
    moreover have "np_d demo_params = 4" "np_q demo_params = 1048576" "[0..<np_ell demo_params] = [0, 1, 2]"
      by (simp_all add: demo_params_def upt_rec)
    ultimately show ?thesis
      using decompose_eq [of "[5, 70000, 1048575, 524288]" demo_params] by (simp add: rem_euclid_def)
  qed
  have p: "np_q demo_params = 2 ^ 20" "np_dropped demo_params = 2" by (simp_all add: demo_params_def)
  have "\<forall>i<4. near (2 ^ 20) 2 (int ([5, 70000, 1048575, 524288] ! i))
       (\<Sum>j<3. centered ([[1, 28, 0, 0], [0, 17, 0, 0], [0, 4, 0, 1048544]] ! j ! i) (2 ^ 20) * int (factor demo_params j))"
    using decompose_reconstructs [OF demo_params, of "[5, 70000, 1048575, 524288]"] eval by (simp add: p)
  moreover have "(1::nat) < 4" "(3::nat) < 4" by simp_all
  ultimately show ?thesis using eval by blast
qed

lemma demo_params_gaussian:
  "new_native_params coefficient_engine 4 20 4 6 3 Gaussian = Inr (demo_params\<lparr>np_sampler := Gaussian\<rparr>)"
  using demo_params by (auto simp: new_native_params_def demo_params_def)

theorem encoding_injective_witness: "encoding demo_params \<noteq> encoding (demo_params\<lparr>np_sampler := Gaussian\<rparr>)"
  using encoding_injective [OF demo_params demo_params_gaussian] by (simp add: demo_params_def)

end
