(* ===== verification/Negacyclic.thy ===== *)
theory Negacyclic
  imports Ring
begin

text \<open>
  The ring \<open>Z[X]/(X\<^sup>d + 1)\<close> as antiperiodic integer functions, the language of the packing proofs: the
  product \<open>conv\<close>, the automorphisms \<open>tau\<close>, their laws, and the trace identity behind the aggregation
  of masks. Machine polynomials are read into it by \<open>ext\<close>, exactly modulo \<open>q\<close>.
\<close>

section \<open>Product and automorphism\<close>

definition conv :: "nat \<Rightarrow> (int \<Rightarrow> int) \<Rightarrow> (int \<Rightarrow> int) \<Rightarrow> int \<Rightarrow> int" where
  "conv d f g k = (\<Sum>j<d. f (int j) * g (k - int j))"

definition tau :: "nat \<Rightarrow> nat \<Rightarrow> (int \<Rightarrow> int) \<Rightarrow> int \<Rightarrow> int" where
  "tau d g f k = (\<Sum>i<d. f (int i) * delta d (k - int i * int g))"

section \<open>Sums over a period\<close>

lemma periodic_mult: "antiper d f \<Longrightarrow> antiper d g \<Longrightarrow> f (k + int d) * g (k + int d) = f k * g k"
  by (simp add: antiperD)

lemma sum_shift_one:
  fixes P :: "int \<Rightarrow> int"
  assumes "\<And>k. P (k + int d) = P k"
  shows "(\<Sum>m<d. P (int m + 1)) = (\<Sum>m<d. P (int m))"
proof (cases d)
  case (Suc n)
  have "(\<Sum>m<d. P (int m + 1)) = (\<Sum>m<n. P (int (Suc m))) + P (int d)"
    by (simp add: Suc add.commute)
  also have "P (int d) = P (int 0)" using assms [of 0] by simp
  also have "(\<Sum>m<n. P (int (Suc m))) + P (int 0) = (\<Sum>m<d. P (int m))"
    unfolding Suc sum.lessThan_Suc_shift by (simp add: add.commute)
  finally show ?thesis .
qed simp

lemma sum_shift_nat:
  fixes P :: "int \<Rightarrow> int"
  assumes "\<And>k. P (k + int d) = P k"
  shows "(\<Sum>m<d. P (int m + int a)) = (\<Sum>m<d. P (int m))"
proof (induction a)
  case (Suc a)
  have "(\<Sum>m<d. P (int m + int (Suc a))) = (\<Sum>m<d. (\<lambda>k. P (k + int a)) (int m + 1))" by (simp add: ac_simps)
  also have "\<dots> = (\<Sum>m<d. P (int m + int a))"
    using assms [of "_ + int a"] by (intro sum_shift_one) (simp add: ac_simps)
  finally show ?case using Suc by simp
qed simp

lemma sum_shift:
  fixes P :: "int \<Rightarrow> int"
  assumes P: "\<And>k. P (k + int d) = P k"
  shows "(\<Sum>m<d. P (int m + a)) = (\<Sum>m<d. P (int m))"
proof (cases "0 \<le> a")
  case True
  then show ?thesis using sum_shift_nat [of P d "nat a"] P by simp
next
  case False
  have "(\<Sum>m<d. (\<lambda>k. P (k + a)) (int m + int (nat (- a)))) = (\<Sum>m<d. P (int m + a))"
    using P [of "_ + a"] by (intro sum_shift_nat) (simp add: ac_simps)
  then show ?thesis using False by simp
qed

lemma delta_sym: "0 < d \<Longrightarrow> delta d (- x) = delta d x"
proof -
  assume d: "0 < d"
  show ?thesis
  proof (cases "x mod (2 * int d) = 0")
    case False
    then have "(- x) mod (2 * int d) = 2 * int d - x mod (2 * int d)" by (simp add: zmod_zminus1_eq_if)
    then show ?thesis using False by (auto simp: delta_def)
  qed (simp add: delta_def zmod_zminus1_eq_if)
qed

lemma delta_eval:
  assumes "0 < d" and "antiper d f"
  shows "(\<Sum>j<d. delta d (int j - a) * f (int j)) = f a"
proof -
  have anti: "antiper d (\<lambda>k. delta d (k - a))" by (rule antiper_shift [OF delta_antiper [OF assms(1)]])
  have "(\<Sum>j<d. delta d (int j - a) * f (int j)) = (\<Sum>j<d. delta d (int j + a - a) * f (int j + a))"
    using periodic_mult [OF anti assms(2)] by (intro sum_shift [symmetric]) simp
  also have "\<dots> = (\<Sum>j<d. if j = 0 then f a else 0)"
    by (intro sum.cong refl) (auto simp: delta_small)
  also have "\<dots> = f a" using assms(1) by simp
  finally show ?thesis .
qed

lemma antiper_odd_mult: "antiper d f \<Longrightarrow> odd g \<Longrightarrow> antiper d (\<lambda>k. f (a - k * int g))"
proof -
  assume f: "antiper d f" and "odd g"
  then obtain m where m: "g = 2 * m + 1" by (elim oddE)
  have "f (a - (k + int d) * int g) = - f (a - k * int g)" for k
  proof -
    have "a - (k + int d) * int g = (a - k * int g - int d) + 2 * int d * (- int m)"
      by (simp add: m algebra_simps)
    then show ?thesis by (simp only: antiper_double [OF f] antiper_sub [OF f])
  qed
  then show ?thesis by (simp add: antiper_def)
qed

section \<open>Ring laws\<close>

lemma conv_antiper: "antiper d g \<Longrightarrow> antiper d (conv d f g)"
  unfolding conv_def by (intro antiper_sum antiper_cmult antiper_shift)

lemma tau_antiper: "0 < d \<Longrightarrow> antiper d (tau d g f)"
  unfolding tau_def by (intro antiper_sum antiper_cmult antiper_shift delta_antiper)

lemma conv_comm:
  assumes f: "antiper d f" and g: "antiper d g"
  shows "conv d f g k = conv d g f k"
proof -
  have anti: "antiper d (\<lambda>m. f (k - m))" using f by (rule antiper_reflect)
  have "conv d g f k = (\<Sum>m<d. g (int m) * f (k - int m))" by (simp add: conv_def)
  have refl: "(\<Sum>m<d. P (k - int m)) = (\<Sum>m<d. P (int m))" if P: "\<And>m. P (m + int d) = P m" for P :: "int \<Rightarrow> int"
  proof -
    have "(\<Sum>m<d. P (k - int m)) = (\<Sum>m<d. P (int m + (k - (int d - 1))))"
      by (rule sum.reindex_bij_witness [of _ "\<lambda>m. d - 1 - m" "\<lambda>m. d - 1 - m"]) (auto simp: of_nat_diff algebra_simps)
    also have "\<dots> = (\<Sum>m<d. P (int m))" by (rule sum_shift) (rule P)
    finally show ?thesis .
  qed
  have "conv d f g k = (\<Sum>m<d. (\<lambda>m. f (k - m) * g m) (k - int m))" by (simp add: conv_def)
  also have "\<dots> = (\<Sum>m<d. f (k - int m) * g (int m))"
    using periodic_mult [OF anti g] by (intro refl) simp
  finally show ?thesis by (simp add: conv_def mult.commute)
qed

lemma conv_shift: "antiper d g \<Longrightarrow> antiper d h \<Longrightarrow> conv d (\<lambda>k. g (k - a)) h k = conv d g h (k - a)"
proof -
  assume g: "antiper d g" and h: "antiper d h"
  have h': "antiper d (\<lambda>m. h (k - a - m))" using antiper_reflect [OF h, of "k - a"] .
  have "conv d (\<lambda>k. g (k - a)) h k = (\<Sum>j<d. (\<lambda>m. g m * h (k - a - m)) (int j + - a))"
    by (simp add: conv_def algebra_simps)
  also have "\<dots> = (\<Sum>j<d. g (int j) * h (k - a - int j))"
    using periodic_mult [OF g h'] by (rule sum_shift)
  finally show ?thesis by (simp add: conv_def)
qed

lemma conv_assoc:
  assumes "antiper d g" and "antiper d h"
  shows "conv d (conv d f g) h k = conv d f (conv d g h) k"
proof -
  have "conv d (conv d f g) h k = (\<Sum>m<d. \<Sum>j<d. f (int j) * (g (int m - int j) * h (k - int m)))"
    by (simp add: conv_def sum_distrib_right mult.assoc)
  also have "\<dots> = (\<Sum>j<d. f (int j) * conv d (\<lambda>m. g (m - int j)) h k)"
    by (subst sum.swap) (simp add: conv_def sum_distrib_left)
  also have "\<dots> = conv d f (conv d g h) k"
    by (simp add: conv_shift [OF assms]) (simp add: conv_def)
  finally show ?thesis .
qed

text \<open>The substitution law of an automorphism.\<close>

lemma tau_pairing:
  assumes "0 < d" and "antiper d F"
  shows "(\<Sum>j<d. tau d g f (int j) * F (int j)) = (\<Sum>i<d. f (int i) * F (int i * int g))"
proof -
  have "(\<Sum>j<d. tau d g f (int j) * F (int j))
      = (\<Sum>j<d. \<Sum>i<d. f (int i) * (delta d (int j - int i * int g) * F (int j)))"
    by (simp add: tau_def sum_distrib_right mult.assoc)
  also have "\<dots> = (\<Sum>i<d. f (int i) * (\<Sum>j<d. delta d (int j - int i * int g) * F (int j)))"
    by (subst sum.swap) (simp add: sum_distrib_left)
  also have "\<dots> = (\<Sum>i<d. f (int i) * F (int i * int g))" by (simp add: delta_eval [OF assms])
  finally show ?thesis .
qed

lemma conv_tau:
  assumes "0 < d" and "antiper d h"
  shows "conv d (tau d g f) h k = (\<Sum>i<d. f (int i) * h (k - int i * int g))"
  unfolding conv_def using tau_pairing [OF assms(1) antiper_reflect [OF assms(2), of k]] by simp

lemma tau_conv:
  assumes d: "0 < d" and g: "odd g" and f: "antiper d f" and h: "antiper d h"
  shows "tau d g (conv d f h) k = conv d (tau d g f) (tau d g h) k"
proof -
  have F: "antiper d (\<lambda>m. delta d (k - m * int g))" by (rule antiper_odd_mult [OF delta_antiper [OF d] g])
  have inner: "(\<Sum>m<d. h (int m - int j) * delta d (k - int m * int g)) = tau d g h (k - int j * int g)" for j
  proof -
    have H: "antiper d (\<lambda>m. delta d (k - int j * int g - m * int g))" by (rule antiper_odd_mult [OF delta_antiper [OF d] g])
    have "(\<Sum>m<d. h (int m - int j) * delta d (k - int m * int g))
        = (\<Sum>m<d. (\<lambda>m. h m * delta d (k - int j * int g - m * int g)) (int m + - int j))"
      by (simp add: algebra_simps)
    also have "\<dots> = (\<Sum>m<d. h (int m) * delta d (k - int j * int g - int m * int g))"
      using periodic_mult [OF h H] by (rule sum_shift)
    finally show ?thesis by (simp add: tau_def)
  qed
  have "tau d g (conv d f h) k = (\<Sum>m<d. \<Sum>j<d. f (int j) * (h (int m - int j) * delta d (k - int m * int g)))"
    by (simp add: tau_def conv_def sum_distrib_right mult.assoc)
  also have "\<dots> = (\<Sum>j<d. f (int j) * tau d g h (k - int j * int g))"
    by (subst sum.swap) (simp add: sum_distrib_left [symmetric] inner)
  also have "\<dots> = conv d (tau d g f) (tau d g h) k" by (rule conv_tau [OF d tau_antiper [OF d], symmetric])
  finally show ?thesis .
qed

lemma tau_tau:
  assumes d: "0 < d" and g: "odd g"
  shows "tau d g (tau d g' f) k = tau d (g' * g) f k"
proof -
  have F: "antiper d (\<lambda>m. delta d (k - m * int g))" by (rule antiper_odd_mult [OF delta_antiper [OF d] g])
  show ?thesis
    using tau_pairing [OF d F, of g' f] by (simp add: tau_def [of d g] tau_def [of d "g' * g"] mult.assoc)
qed

lemma tau_mod: "tau d (g mod (2 * d)) f k = tau d g f k"
proof -
  have "delta d (k - int i * int (g mod (2 * d))) = delta d (k - int i * int g)" for i
  proof -
    have "k - int i * int (g mod (2 * d)) = k - int i * int g + 2 * int d * (int i * int (g div (2 * d)))"
      proof -
      have "int g = int (2 * d) * int (g div (2 * d)) + int (g mod (2 * d))"
        by (simp only: of_nat_mult [symmetric] of_nat_add [symmetric] mult_div_mod_eq)
      then show ?thesis by (simp add: algebra_simps del: of_nat_mod)
    qed
    then have "(k - int i * int (g mod (2 * d))) mod (2 * int d)
        = (k - int i * int g + 2 * int d * (int i * int (g div (2 * d)))) mod (2 * int d)" by (simp only:)
    also have "\<dots> = (k - int i * int g) mod (2 * int d)" by (rule mod_mult_self2)
    finally have "(k - int i * int (g mod (2 * d))) mod (2 * int d) = (k - int i * int g) mod (2 * int d)" .
    then show ?thesis by (simp only: delta_def)
  qed
  then show ?thesis by (simp add: tau_def)
qed

lemma tau_one: "0 < d \<Longrightarrow> antiper d f \<Longrightarrow> tau d 1 f k = f k"
proof -
  assume d: "0 < d" and f: "antiper d f"
  have "tau d 1 f k = (\<Sum>i<d. delta d (int i - k) * f (int i))"
    unfolding tau_def using delta_sym [OF d] by (intro sum.cong refl) (metis minus_diff_eq mult.commute mult_1_right of_nat_1)
  then show ?thesis by (simp add: delta_eval [OF d f])
qed

lemma tau_inverse: "0 < d \<Longrightarrow> antiper d f \<Longrightarrow> odd g \<Longrightarrow> g' * g mod (2 * d) = 1 \<Longrightarrow> tau d g (tau d g' f) k = f k"
  using tau_tau [of d g g' f k] tau_mod [of d "g' * g" f k] tau_one [of d f k] by simp

section \<open>Linearity, congruence and bounds\<close>

lemma conv_add_left: "conv d (\<lambda>k. f k + g k) h k = conv d f h k + conv d g h k"
  by (simp add: conv_def algebra_simps sum.distrib)

lemma conv_add_right: "conv d f (\<lambda>k. g k + h k) k = conv d f g k + conv d f h k"
  by (simp add: conv_def algebra_simps sum.distrib)

lemma conv_diff_right: "conv d f (\<lambda>k. g k - h k) k = conv d f g k - conv d f h k"
  by (simp add: conv_def algebra_simps sum_subtractf)

lemma conv_cmult_left: "conv d (\<lambda>k. c * f k) h k = c * conv d f h k"
  by (simp add: conv_def algebra_simps sum_distrib_left)

lemma conv_cmult_right: "conv d f (\<lambda>k. c * h k) k = c * conv d f h k"
  by (simp add: conv_def algebra_simps sum_distrib_left)

lemma conv_sum_left: "conv d (\<lambda>k. \<Sum>j\<in>A. f j k) h k = (\<Sum>j\<in>A. conv d (f j) h k)"
  by (simp add: conv_def sum_distrib_right sum.swap [of _ A])

lemma tau_add: "tau d g (\<lambda>k. f k + h k) k = tau d g f k + tau d g h k"
  by (simp add: tau_def algebra_simps sum.distrib)

lemma tau_diff: "tau d g (\<lambda>k. f k - h k) k = tau d g f k - tau d g h k"
  by (simp add: tau_def algebra_simps sum_subtractf)

lemma tau_cmult: "tau d g (\<lambda>k. c * f k) k = c * tau d g f k"
  by (simp add: tau_def algebra_simps sum_distrib_left)

lemma tau_sum: "tau d g (\<lambda>k. \<Sum>j\<in>A. f j k) k = (\<Sum>j\<in>A. tau d g (f j) k)"
  by (simp add: tau_def sum_distrib_right sum.swap [of _ A])

lemma conv_cong:
  "(\<And>k. eqm q (f k) (f' k)) \<Longrightarrow> (\<And>k. eqm q (g k) (g' k)) \<Longrightarrow> eqm q (conv d f g k) (conv d f' g' k)"
  unfolding conv_def by (intro eqm_sum eqm_mult) simp_all

lemma tau_cong: "(\<And>k. eqm q (f k) (f' k)) \<Longrightarrow> eqm q (tau d g f k) (tau d g f' k)"
  unfolding tau_def by (intro eqm_sum eqm_mult) simp_all

lemma conv_bound:
  assumes "\<And>k. \<bar>f k\<bar> \<le> A" and "\<And>k. \<bar>g k\<bar> \<le> B"
  shows "\<bar>conv d f g k\<bar> \<le> int d * (A * B)"
proof -
  have A: "0 \<le> A" using assms(1) [of 0] by simp
  have "\<bar>conv d f g k\<bar> \<le> (\<Sum>j<d. \<bar>f (int j) * g (k - int j)\<bar>)" unfolding conv_def by (rule sum_abs)
  also have "\<dots> \<le> (\<Sum>j<d. A * B)" unfolding abs_mult using assms A by (intro sum_mono mult_mono) auto
  finally show ?thesis by simp
qed

lemma antiper_bound:
  assumes "0 < d" and "antiper d f" and "\<And>k. k < d \<Longrightarrow> \<bar>f (int k)\<bar> \<le> A"
  shows "\<bar>f k\<bar> \<le> A"
proof -
  define m where "m = k mod (2 * int d)"
  have m: "0 \<le> m" "m < 2 * int d" using assms(1) by (simp_all add: m_def)
  have k: "f k = f m" using antiper_mod [OF assms(2), of k] by (simp add: m_def)
  show ?thesis
  proof (cases "m < int d")
    case True
    then show ?thesis using k assms(3) [of "nat m"] m by simp
  next
    case False
    then have "f m = - f (m - int d)" using antiperD [OF assms(2), of "m - int d"] by simp
    then show ?thesis using k False assms(3) [of "nat (m - int d)"] m by simp
  qed
qed

text \<open>An odd automorphism permutes the coefficients up to sign, so it keeps bounds.\<close>

lemma delta_values: "\<bar>delta d x\<bar> = (if int d dvd x then 1 else 0)" if "0 < d"
proof -
  have "int d dvd x \<longleftrightarrow> x mod (2 * int d) = 0 \<or> x mod (2 * int d) = int d"
  proof
    assume "int d dvd x"
    then obtain c where c: "x = int d * c" ..
    have "c = 2 * (c div 2) \<or> c = 2 * (c div 2) + 1" by presburger
    then show "x mod (2 * int d) = 0 \<or> x mod (2 * int d) = int d"
    proof
      assume "c = 2 * (c div 2)"
      then have "x = 2 * int d * (c div 2)" using c by (simp add: ac_simps)
      then show ?thesis by (metis mod_mult_self1_is_0)
    next
      assume "c = 2 * (c div 2) + 1"
      then have "x = int d * (2 * (c div 2) + 1)" using c by (simp only:)
      also have "\<dots> = int d + 2 * int d * (c div 2)" by (simp add: algebra_simps)
      finally have "x mod (2 * int d) = int d mod (2 * int d)" by (simp only: mod_mult_self2)
      then show ?thesis using that by simp
    qed
  next
    assume "x mod (2 * int d) = 0 \<or> x mod (2 * int d) = int d"
    then have "int d dvd x mod (2 * int d)" by auto
    then show "int d dvd x" by (simp add: dvd_mod_iff)
  qed
  then show ?thesis by (auto simp: delta_def)
qed

lemma tau_bound:
  assumes d: "0 < d" and g: "coprime d g" and f: "\<And>k. k < d \<Longrightarrow> \<bar>f (int k)\<bar> \<le> A"
  shows "\<bar>tau d g f k\<bar> \<le> A"
proof -
  have A: "0 \<le> A" using f [of 0] d by simp
  have "\<bar>tau d g f k\<bar> \<le> (\<Sum>i<d. \<bar>f (int i) * delta d (k - int i * int g)\<bar>)" unfolding tau_def by (rule sum_abs)
  also have "\<dots> = (\<Sum>i | i < d \<and> int d dvd k - int i * int g. \<bar>f (int i)\<bar>)"
    by (simp add: abs_mult delta_values [OF d] if_distrib sum.inter_filter [symmetric] lessThan_def Collect_conj_eq cong: if_cong)
  also have "\<dots> \<le> A"
  proof (cases "\<exists>i<d. int d dvd k - int i * int g")
    case True
    then obtain i where i: "i < d" "int d dvd k - int i * int g" by blast
    have uniq: "j = i" if "j < d" "int d dvd k - int j * int g" for j
    proof -
      have "int d dvd (k - int i * int g) - (k - int j * int g)" using i(2) that(2) by (rule dvd_diff)
      then have "int d dvd (int j - int i) * int g" by (simp add: algebra_simps)
      then have "int d dvd int j - int i" using g by (simp add: coprime_dvd_mult_left_iff)
      then have "int j - int i \<noteq> 0 \<longrightarrow> \<bar>int d\<bar> \<le> \<bar>int j - int i\<bar>" by (intro impI dvd_imp_le_int)
      then show ?thesis using i(1) that(1) by linarith
    qed
    have "{i. i < d \<and> int d dvd k - int i * int g} = {i}" using i by (intro equalityI subsetI) (blast dest: uniq)+
    then show ?thesis using f i(1) by simp
  next
    case False
    then have none: "{i. i < d \<and> int d dvd k - int i * int g} = {}" by auto
    show ?thesis unfolding none using A by simp
  qed
  finally show ?thesis .
qed

section \<open>The trace identity\<close>

text \<open>For a power of two degree, the sum of all automorphisms keeps only the constant coefficient.\<close>

lemma odd_part: "0 < i \<Longrightarrow> \<exists>v m. i = 2 ^ v * m \<and> odd m" for i :: nat
proof (induction i rule: less_induct)
  case (less i)
  show ?case
  proof (cases "odd i")
    case True
    then show ?thesis by (intro exI [of _ 0] exI [of _ i]) simp
  next
    case False
    then obtain j where j: "i = 2 * j" by (auto elim: evenE)
    then obtain v m where "j = 2 ^ v * m" "odd m" using less.IH [of j] less.prems by auto
    then show ?thesis using j by (intro exI [of _ "Suc v"] exI [of _ m]) simp
  qed
qed

lemma sum_delta_odd:
  assumes d: "d = 2 ^ L" and "i < d"
  shows "(\<Sum>t<d. delta d (k - int i * int (2 * t + 1))) = (if i = 0 then int d * delta d k else 0)"
proof (cases "i = 0")
  case False
  let ?P = "\<lambda>t. delta d (k - int i - 2 * int i * t)"
  have pos: "0 < d" by (simp add: d)
  note anti = delta_antiper [OF pos]
  obtain v m where i: "i = 2 ^ v * m" "odd m"
    using False odd_part [of i] by auto
  have "v < L"
  proof (rule ccontr)
    assume "\<not> v < L"
    then have "(2::nat) ^ L dvd 2 ^ v" by (intro le_imp_power_dvd) simp
    then have "d dvd i" unfolding d i(1) by (rule dvd_mult2)
    then show False using assms(2) False by (auto dest: dvd_imp_le)
  qed
  then obtain w where w: "L = Suc v + w" by (auto simp: less_iff_Suc_add)
  have two: "2 * int i * 2 ^ w = int d * int m" by (simp add: d w i(1) power_add algebra_simps)
  obtain n where n: "m = 2 * n + 1" using i(2) by (elim oddE)
  have half: "?P (t + 2 ^ w) = - ?P t" for t
  proof -
    have "k - int i - 2 * int i * (t + 2 ^ w) = k - int i - 2 * int i * t - int d * int m"
      by (simp add: algebra_simps flip: two)
    also have "\<dots> = (k - int i - 2 * int i * t - int d) + 2 * int d * (- int n)" by (simp add: n algebra_simps)
    finally show ?thesis by (simp only: antiper_double [OF anti] antiper_sub [OF anti])
  qed
  have per: "?P (t + int d) = ?P t" for t
  proof -
    have "k - int i - 2 * int i * (t + int d) = (k - int i - 2 * int i * t) + 2 * int d * (- int i)" by (simp add: algebra_simps)
    then show ?thesis by (simp only: antiper_double [OF anti])
  qed
  have "(\<Sum>t<d. ?P (int t)) = (\<Sum>t<d. ?P (int t + 2 ^ w))" by (rule sum_shift [symmetric]) (rule per)
  also have "\<dots> = - (\<Sum>t<d. ?P (int t))" by (simp add: half sum_negf)
  finally have "(\<Sum>t<d. ?P (int t)) = 0" by simp
  then show ?thesis using False by (simp add: algebra_simps)
qed simp

lemma trace_identity:
  assumes "d = 2 ^ L"
  shows "(\<Sum>t<d. tau d (2 * t + 1) f k) = int d * f 0 * delta d k"
proof -
  have "(\<Sum>t<d. tau d (2 * t + 1) f k) = (\<Sum>i<d. f (int i) * (\<Sum>t<d. delta d (k - int i * int (2 * t + 1))))"
    unfolding tau_def by (subst sum.swap) (simp add: sum_distrib_left)
  also have "\<dots> = (\<Sum>i<d. if i = 0 then f 0 * (int d * delta d k) else 0)"
    by (intro sum.cong refl) (simp only: sum_delta_odd [OF assms] lessThan_iff, simp)
  also have "\<dots> = int d * f 0 * delta d k" by (simp add: assms)
  finally show ?thesis .
qed

section \<open>Machine polynomials\<close>

lemma ext_schoolbook:
  assumes a: "canon q d a" and b: "canon q d b"
  shows "eqm q (ext (schoolbook_negacyclic a b q) k) (conv d (ext a) (ext b) k)"
proof -
  note S = schoolbook_negacyclic_nth [OF a b]
  have anti: "antiper d (conv d (ext a) (ext b))" using canon_antiper [OF b] by (rule conv_antiper)
  have len: "length (schoolbook_negacyclic a b q) = d" using canonD(4) [OF S(1)] .
  have "eqm q (ext (schoolbook_negacyclic a b q) (int i)) (conv d (ext a) (ext b) (int i))" if i: "i < d" for i
  proof -
    have "(\<Sum>j<d. int (b ! j) * ext a (int i - int j)) = conv d (ext b) (ext a) (int i)"
      using canonD(4) [OF b] by (simp add: conv_def ext_nth)
    also have "\<dots> = conv d (ext a) (ext b) (int i)" by (rule conv_comm [OF canon_antiper [OF b] canon_antiper [OF a]])
    finally show ?thesis using S(2) [OF i] ext_nth [of i "schoolbook_negacyclic a b q"] len i by simp
  qed
  then show ?thesis using antiper_eqm [OF canon_antiper [OF S(1)] anti canonD(3) [OF a]] by blast
qed

lemma ext_tau_coeffs:
  assumes p: "canon q d p" and g: "d * g < 2 ^ 64"
  shows "canon q d (tau_coeffs p g q)" and "eqm q (ext (tau_coeffs p g q) k) (tau d g (ext p) k)"
proof -
  have d: "0 < d" using canonD [OF p] by simp
  show c: "canon q d (tau_coeffs p g q)" using tau_coeffs_pairing(1) [OF p g delta_antiper [OF d]] .
  have "eqm q (ext (tau_coeffs p g q) k) (\<Sum>i<d. int (p ! i) * delta d (k - int i * int g))"
    using canonD(4) [OF c] by (intro pairing_ext [OF d] tau_coeffs_pairing(2) [OF p g])
  then show "eqm q (ext (tau_coeffs p g q) k) (tau d g (ext p) k)"
    using canonD(4) [OF p] by (simp add: tau_def ext_nth)
qed

end
