(* ===== verification/Rejection.thy ===== *)
theory Rejection
  imports Ipir_Prelude
begin

text \<open>
  Rejection sampling: the contract of a loop that draws until a draw is accepted. A loop that satisfies
  it returns exactly when the generator offers an accepted draw, on the first one, with that draw's
  value and the generator left right behind it.
\<close>

text \<open>The states and the draws of a generator.\<close>

definition nth_state :: "('g \<Rightarrow> nat \<times> 'g) \<Rightarrow> 'g \<Rightarrow> nat \<Rightarrow> 'g" where
  "nth_state draw g n = ((snd \<circ> draw) ^^ n) g"

definition nth_draw :: "('g \<Rightarrow> nat \<times> 'g) \<Rightarrow> 'g \<Rightarrow> nat \<Rightarrow> nat" where
  "nth_draw draw g n = fst (draw (nth_state draw g n))"

lemma nth_state_simps [simp]: "nth_state draw g 0 = g" "nth_state draw (snd (draw g)) n = nth_state draw g (Suc n)"
  by (simp_all add: nth_state_def funpow_Suc_right del: funpow.simps(2))

lemma nth_draw_simps [simp]: "nth_draw draw g 0 = fst (draw g)" "nth_draw draw (snd (draw g)) n = nth_draw draw g (Suc n)"
  by (simp_all add: nth_draw_def)

text \<open>A generator that offers its state for ever.\<close>

lemma echo_draws [simp]: "nth_state (\<lambda>x. (x, x)) g n = g" "nth_draw (\<lambda>x. (x, x)) g n = g"
proof -
  show "nth_state (\<lambda>x. (x, x)) g n = g" for g by (induction n) (simp_all add: nth_state_def comp_def)
  then show "nth_draw (\<lambda>x. (x, x)) g n = g" by (simp add: nth_draw_def)
qed

locale rejection_loop =
  fixes draw :: "'g \<Rightarrow> nat \<times> 'g" and accept :: "nat \<Rightarrow> bool" and val :: "nat \<Rightarrow> 'a" and run :: "'g \<Rightarrow> ('a \<times> 'g) option"
  assumes turn: "run g = (if accept (fst (draw g)) then Some (val (fst (draw g)), snd (draw g)) else run (snd (draw g)))"
    and ends: "run g = Some r \<Longrightarrow> \<exists>n. accept (nth_draw draw g n)"
begin

lemma returns_first:
  "(\<And>k. k < n \<Longrightarrow> \<not> accept (nth_draw draw g k)) \<Longrightarrow> accept (nth_draw draw g n)
    \<Longrightarrow> run g = Some (val (nth_draw draw g n), nth_state draw g (Suc n))"
proof (induction n arbitrary: g)
  case 0
  then show ?case using turn [of g] nth_state_simps(2) [of draw g 0] by simp
next
  case (Suc n)
  have "run (snd (draw g)) = Some (val (nth_draw draw (snd (draw g)) n), nth_state draw (snd (draw g)) (Suc n))"
  proof (rule Suc.IH)
    show "\<not> accept (nth_draw draw (snd (draw g)) k)" if "k < n" for k using Suc.prems(1) [of "Suc k"] that by simp
    show "accept (nth_draw draw (snd (draw g)) n)" using Suc.prems(2) by simp
  qed
  then show ?case using turn [of g] Suc.prems(1) [of 0] by simp
qed

lemma returns_iff:
  "run g = Some (x, g') \<longleftrightarrow> (\<exists>n. (\<forall>k<n. \<not> accept (nth_draw draw g k)) \<and> accept (nth_draw draw g n)
    \<and> x = val (nth_draw draw g n) \<and> g' = nth_state draw g (Suc n))"
proof
  assume r: "run g = Some (x, g')"
  define n where "n = (LEAST n. accept (nth_draw draw g n))"
  have n: "accept (nth_draw draw g n)" unfolding n_def using ends [OF r] by (rule LeastI_ex)
  have least: "\<not> accept (nth_draw draw g k)" if "k < n" for k using not_less_Least that unfolding n_def by blast
  have "run g = Some (val (nth_draw draw g n), nth_state draw g (Suc n))" by (rule returns_first [OF least n])
  then show "\<exists>n. (\<forall>k<n. \<not> accept (nth_draw draw g k)) \<and> accept (nth_draw draw g n)
      \<and> x = val (nth_draw draw g n) \<and> g' = nth_state draw g (Suc n)"
    using r n least by auto
qed (auto simp: returns_first)

end

end
