(* ===== verification/Native_Keys.thy ===== *)
theory Native_Keys
  imports Native_Params Negacyclic Rejection
begin

text \<open>
  Setups, secrets, encryptions, uploaded keys and ciphertexts of the native profile
  (\<open>NativeSetup\<close>, \<open>NativeSecret\<close>, \<open>NativeKeys\<close>, \<open>NativeCiphertext\<close> and \<open>NativeTwoMaskCiphertext\<close> of
  \<open>reinspiring/src/native.rs\<close>, and the sampler interface of \<open>native_gaussian.rs\<close>). The random
  generator, the hash and the Gaussian sampler belong to other packages: they are the fields of
  an \<open>rng_env\<close>, and \<open>gauss_law\<close> states the finite support the file documents.
\<close>

section \<open>Model: setups\<close>

record 'g rng_env =
  next_u64 :: "'g \<Rightarrow> nat \<times> 'g"
  next_u32 :: "'g \<Rightarrow> nat \<times> 'g"
  gauss_sample :: "nat \<Rightarrow> 'g \<Rightarrow> nat \<times> 'g"
  from_seed :: "byte list \<Rightarrow> 'g"
  sha256 :: "byte list \<Rightarrow> byte list"

definition GAUSS_MAX :: nat where
  "GAUSS_MAX = 65"

record native_setup =
  ns_params :: native_params
  ns_id :: "byte list"
  ns_w :: "nat list list"
  ns_v :: "nat list list"

fun draw_poly :: "'g rng_env \<Rightarrow> nat \<Rightarrow> nat \<Rightarrow> 'g \<Rightarrow> nat list \<times> 'g" where
  "draw_poly env q 0 g = ([], g)"
| "draw_poly env q (Suc n) g =
     (let (x, g1) = next_u64 env g; (xs, g2) = draw_poly env q n g1 in ((x AND (q - 1)) # xs, g2))"

fun draw_polys :: "'g rng_env \<Rightarrow> nat \<Rightarrow> nat \<Rightarrow> nat \<Rightarrow> 'g \<Rightarrow> nat list list \<times> 'g" where
  "draw_polys env q d 0 g = ([], g)"
| "draw_polys env q d (Suc n) g =
     (let (x, g1) = draw_poly env q d g; (xs, g2) = draw_polys env q d n g1 in (x # xs, g2))"

text \<open>The ASCII bytes of \<open>/packing-masks/\<close>.\<close>

definition mask_tag :: "byte list" where
  "mask_tag = [47,112,97,99,107,105,110,103,45,109,97,115,107,115,47]"

definition new_setup :: "'g rng_env \<Rightarrow> native_params \<Rightarrow> byte list \<Rightarrow> native_setup" where
  "new_setup env p seed =
     (let ident = sha256 env (encoding p @ mask_tag @ seed); g0 = from_seed env ident;
          (w, g1) = draw_polys env (np_q p) (np_d p) (np_ell p) g0;
          (v, g2) = draw_polys env (np_q p) (np_d p) (np_ell p) g1
      in \<lparr>ns_params = p, ns_id = ident, ns_w = w, ns_v = v\<rparr>)"

section \<open>Model: secrets and encryptions\<close>

record native_secret =
  sec_params :: native_params
  sec_coeffs :: "nat list"

text \<open>The rejection loop of a uniform ternary coefficient.\<close>

partial_function (option) ternary_coeff :: "'g rng_env \<Rightarrow> nat \<Rightarrow> 'g \<Rightarrow> (nat \<times> 'g) option" where
  "ternary_coeff env q g =
     (case next_u32 env g of (v, g') \<Rightarrow>
        if v < 2 ^ 32 - 1 then Some (if v mod 3 = 0 then q - 1 else if v mod 3 = 1 then 0 else 1, g')
        else ternary_coeff env q g')"

definition secret_coeff :: "'g rng_env \<Rightarrow> native_params \<Rightarrow> 'g \<Rightarrow> (nat \<times> 'g) option" where
  "secret_coeff env p g =
     (case np_sampler p of Gaussian \<Rightarrow> Some (gauss_sample env (np_q p) g)
      | TernaryResearch \<Rightarrow> ternary_coeff env (np_q p) g)"

fun secret_coeffs :: "'g rng_env \<Rightarrow> native_params \<Rightarrow> nat \<Rightarrow> 'g \<Rightarrow> (nat list \<times> 'g) option" where
  "secret_coeffs env p 0 g = Some ([], g)"
| "secret_coeffs env p (Suc n) g =
     Option.bind (secret_coeff env p g) (\<lambda>(x, g1).
       map_option (\<lambda>(xs, g2). (x # xs, g2)) (secret_coeffs env p n g1))"

definition sample_secret :: "'g rng_env \<Rightarrow> native_params \<Rightarrow> 'g \<Rightarrow> (native_secret \<times> 'g) option" where
  "sample_secret env p g =
     map_option (\<lambda>(xs, g'). (\<lparr>sec_params = p, sec_coeffs = xs\<rparr>, g')) (secret_coeffs env p (np_d p) g)"

definition encrypt_lwe ::
    "'g rng_env \<Rightarrow> native_secret \<Rightarrow> nat list \<Rightarrow> nat \<Rightarrow> 'g \<Rightarrow> (nat \<times> 'g) result" where
  "encrypt_lwe env s a m g =
     bindR (validate_poly a (sec_params s)) (\<lambda>_.
       guardR (m \<ge> np_p (sec_params s)) (InvalidParams ''plaintext out of range'')
         (let q = np_q (sec_params s);
              dot = fold (\<lambda>(a, b) acc. wrapping_add acc (wrapping_mul a b)) (zip a (sec_coeffs s)) 0 AND (q - 1);
              (e, g') = gauss_sample env q g
          in Inr (wrapping_sub (wrapping_add (wrapping_mul m (q div np_p (sec_params s))) e) dot AND (q - 1), g')))"

text \<open>One row of noisy words: message plus noise minus mask product.\<close>

fun noisy_row :: "'g rng_env \<Rightarrow> nat \<Rightarrow> (nat \<times> nat) list \<Rightarrow> 'g \<Rightarrow> nat list \<times> 'g" where
  "noisy_row env q [] g = ([], g)"
| "noisy_row env q ((msg, x) # rest) g =
     (let (e, g1) = gauss_sample env q g; (ws, g2) = noisy_row env q rest g1
      in ((wrapping_sub (wrapping_add msg e) x AND (q - 1)) # ws, g2))"

fun selection_loop ::
    "ntt_engine \<Rightarrow> 'g rng_env \<Rightarrow> lift_context \<Rightarrow> native_secret \<Rightarrow> nat \<Rightarrow> nat \<Rightarrow> nat list list \<Rightarrow> 'g \<Rightarrow> (nat list \<times> 'g) result" where
  "selection_loop eng env ctx s target block [] g = Inr ([], g)"
| "selection_loop eng env ctx s target block (poly # polys) g =
     (let p = sec_params s
      in bindR (validate_poly poly p) (\<lambda>_.
         bindR (lift_multiply eng ctx (tau_coeffs poly (2 * np_d p - 1) (np_q p)) (sec_coeffs s)) (\<lambda>inner.
           let (ws, g') = noisy_row env (np_q p) (map (\<lambda>i.
                 ((np_q p div np_p p) AND wrapping_sub 0 (if block * np_d p + i = target then 1 else 0), inner ! i)) [0..<length inner]) g
           in mapR (\<lambda>(rest, g''). (ws @ rest, g'')) (selection_loop eng env ctx s target (block + 1) polys g'))))"

definition encrypt_selection ::
    "ntt_engine \<Rightarrow> 'g rng_env \<Rightarrow> native_secret \<Rightarrow> nat list list \<Rightarrow> nat \<Rightarrow> 'g \<Rightarrow> (nat list \<times> 'g) result" where
  "encrypt_selection eng env s polys target g =
     guardR (polys = [] \<or> target \<ge> min (length polys * np_d (sec_params s)) (2 ^ 64 - 1)) (InvalidParams ''selection out of range'')
       (bindR (new_lift_context eng (np_d (sec_params s)) (np_q (sec_params s))) (\<lambda>ctx.
          selection_loop eng env ctx s target 0 polys g))"

section \<open>Model: ciphertexts and decryption\<close>

record native_ciphertext =
  nc_params :: native_params
  nc_a :: "nat list"
  nc_b :: "nat list"

record native_two_mask_ciphertext =
  nt_params :: native_params
  nt_a :: "nat list"
  nt_a_other :: "nat list"
  nt_b :: "nat list"

definition ciphertext_from_rows :: "native_params \<Rightarrow> nat list \<Rightarrow> nat list \<Rightarrow> native_ciphertext result" where
  "ciphertext_from_rows p a b =
     bindR (validate_poly a p) (\<lambda>_. bindR (validate_poly b p) (\<lambda>_.
       Inr \<lparr>nc_params = p, nc_a = a, nc_b = b\<rparr>))"

definition two_mask_from_rows ::
    "native_params \<Rightarrow> nat list \<Rightarrow> nat list \<Rightarrow> nat list \<Rightarrow> native_two_mask_ciphertext result" where
  "two_mask_from_rows p a a_other b =
     bindR (validate_poly a p) (\<lambda>_. bindR (validate_poly a_other p) (\<lambda>_. bindR (validate_poly b p) (\<lambda>_.
       Inr \<lparr>nt_params = p, nt_a = a, nt_a_other = a_other, nt_b = b\<rparr>)))"

definition phase :: "ntt_engine \<Rightarrow> native_secret \<Rightarrow> native_ciphertext \<Rightarrow> nat list result" where
  "phase eng s ct =
     guardR (nc_params ct \<noteq> sec_params s) (InvalidParams ''ciphertext profile mismatch'')
       (bindR (new_lift_context eng (np_d (sec_params s)) (np_q (sec_params s))) (\<lambda>ctx.
        bindR (lift_multiply eng ctx (nc_a ct) (sec_coeffs s)) (\<lambda>prod.
          Inr (map2 (\<lambda>a b. u64 (a + b) AND (np_q (sec_params s) - 1)) prod (nc_b ct)))))"

definition phase_two_mask :: "ntt_engine \<Rightarrow> native_secret \<Rightarrow> native_two_mask_ciphertext \<Rightarrow> nat list result" where
  "phase_two_mask eng s ct =
     (let p = sec_params s
      in guardR (nt_params ct \<noteq> p) (InvalidParams ''ciphertext profile mismatch'')
         (bindR (new_lift_context eng (np_d p) (np_q p)) (\<lambda>ctx.
          bindR (lift_multiply eng ctx (nt_a ct) (sec_coeffs s)) (\<lambda>first.
          bindR (lift_multiply eng ctx (nt_a_other ct) (tau_coeffs (sec_coeffs s) (2 * np_d p - 1) (np_q p))) (\<lambda>second.
            Inr (map (\<lambda>i. u64 (u64 (nt_b ct ! i + first ! i) + second ! i) AND (np_q p - 1)) [0..<np_d p]))))))"

definition decode_word :: "native_params \<Rightarrow> nat \<Rightarrow> nat" where
  "decode_word p x = (let delta = np_q p div np_p p in (u64 (x + delta div 2) div delta) AND (np_p p - 1))"

definition decrypt :: "ntt_engine \<Rightarrow> native_secret \<Rightarrow> native_ciphertext \<Rightarrow> nat list result" where
  "decrypt eng s ct = mapR (map (decode_word (sec_params s))) (phase eng s ct)"

definition decrypt_two_mask :: "ntt_engine \<Rightarrow> native_secret \<Rightarrow> native_two_mask_ciphertext \<Rightarrow> nat list result" where
  "decrypt_two_mask eng s ct = mapR (map (decode_word (sec_params s))) (phase_two_mask eng s ct)"

definition max_error :: "native_params \<Rightarrow> nat list \<Rightarrow> nat list \<Rightarrow> nat" where
  "max_error p ph expected =
     fold max (map2 (\<lambda>x m. nat \<bar>centered (wrapping_sub x (u64 (m * (np_q p div np_p p))) AND (np_q p - 1)) (np_q p)\<bar>) ph expected) 0"

definition phase_error :: "ntt_engine \<Rightarrow> native_secret \<Rightarrow> native_ciphertext \<Rightarrow> nat list \<Rightarrow> nat result" where
  "phase_error eng s ct expected =
     guardR (length expected \<noteq> np_d (sec_params s) \<or> list_ex (\<lambda>m. m \<ge> np_p (sec_params s)) expected)
       (InvalidParams ''invalid expected plaintext'')
       (mapR (\<lambda>ph. max_error (sec_params s) ph expected) (phase eng s ct))"

definition phase_error_two_mask :: "ntt_engine \<Rightarrow> native_secret \<Rightarrow> native_two_mask_ciphertext \<Rightarrow> nat list \<Rightarrow> nat result" where
  "phase_error_two_mask eng s ct expected =
     guardR (length expected \<noteq> np_d (sec_params s) \<or> list_ex (\<lambda>m. m \<ge> np_p (sec_params s)) expected)
       (InvalidParams ''invalid expected plaintext'')
       (mapR (\<lambda>ph. max_error (sec_params s) ph expected) (phase_two_mask eng s ct))"

section \<open>Model: uploaded keys\<close>

record native_keys =
  nk_id :: "byte list"
  nk_kg :: "nat list list"
  nk_kh :: "nat list list"

fun key_bodies ::
    "ntt_engine \<Rightarrow> 'g rng_env \<Rightarrow> lift_context \<Rightarrow> native_secret \<Rightarrow> nat list \<Rightarrow> nat \<Rightarrow> nat list list \<Rightarrow> 'g \<Rightarrow> (nat list list \<times> 'g) result" where
  "key_bodies eng env ctx s from j [] g = Inr ([], g)"
| "key_bodies eng env ctx s from j (w # ws) g =
     bindR (lift_multiply eng ctx w (sec_coeffs s)) (\<lambda>prod.
       let p = sec_params s;
           (row, g') = noisy_row env (np_q p) (map (\<lambda>i. (wrapping_mul (from ! i) (factor p j), prod ! i)) [0..<np_d p]) g
       in mapR (\<lambda>(rows, g''). (row # rows, g'')) (key_bodies eng env ctx s from (j + 1) ws g'))"

definition generate_internal ::
    "ntt_engine \<Rightarrow> 'g rng_env \<Rightarrow> native_setup \<Rightarrow> native_secret \<Rightarrow> 'g \<Rightarrow> bool \<Rightarrow> (native_keys \<times> 'g) result" where
  "generate_internal eng env setup s g one_key =
     (let p = ns_params setup
      in guardR (sec_params s \<noteq> p) (InvalidParams ''key profile mismatch'')
         (bindR (new_lift_context eng (np_d p) (np_q p)) (\<lambda>ctx.
            let bodies = (\<lambda>masks g. key_bodies eng env ctx s (tau_coeffs (sec_coeffs s) g (np_q p)) 0 masks)
            in bindR (bodies (ns_w setup) (5 mod (2 * np_d p)) g) (\<lambda>(kg, g1).
               if one_key then Inr (\<lparr>nk_id = ns_id setup, nk_kg = kg, nk_kh = []\<rparr>, g1)
               else mapR (\<lambda>(kh, g2). (\<lparr>nk_id = ns_id setup, nk_kg = kg, nk_kh = kh\<rparr>, g2))
                      (bodies (ns_v setup) (2 * np_d p - 1) g1)))))"

definition generate :: "ntt_engine \<Rightarrow> 'g rng_env \<Rightarrow> native_setup \<Rightarrow> native_secret \<Rightarrow> 'g \<Rightarrow> (native_keys \<times> 'g) result" where
  "generate eng env setup s g = generate_internal eng env setup s g False"

definition generate_one_key :: "ntt_engine \<Rightarrow> 'g rng_env \<Rightarrow> native_setup \<Rightarrow> native_secret \<Rightarrow> 'g \<Rightarrow> (native_keys \<times> 'g) result" where
  "generate_one_key eng env setup s g = generate_internal eng env setup s g True"

definition kg_words :: "native_keys \<Rightarrow> nat list" where
  "kg_words keys = concat (nk_kg keys)"

definition from_kg_words :: "native_setup \<Rightarrow> nat list \<Rightarrow> native_keys result" where
  "from_kg_words setup words =
     (let p = ns_params setup
      in guardR (length words \<noteq> np_ell p * np_d p \<or> list_ex (\<lambda>x. x \<ge> np_q p) words) (InvalidParams ''malformed native K_g'')
         (Inr \<lparr>nk_id = ns_id setup, nk_kg = chunks_exact (np_d p) words, nk_kh = []\<rparr>))"

definition key_words :: "native_keys \<Rightarrow> nat list" where
  "key_words keys = concat (nk_kg keys @ nk_kh keys)"

definition from_words :: "native_setup \<Rightarrow> nat list \<Rightarrow> native_keys result" where
  "from_words setup words =
     (let p = ns_params setup
      in guardR (length words \<noteq> 2 * np_ell p * np_d p \<or> list_ex (\<lambda>x. x \<ge> np_q p) words) (InvalidParams ''malformed native keys'')
         (let chunks = chunks_exact (np_d p) words
          in Inr \<lparr>nk_id = ns_id setup, nk_kg = take (np_ell p) chunks, nk_kh = drop (np_ell p) chunks\<rparr>))"

section \<open>Noisy words\<close>

definition gauss_law :: "'g rng_env \<Rightarrow> nat \<Rightarrow> bool" where
  "gauss_law env q \<longleftrightarrow> (\<forall>g. fst (gauss_sample env q g) < q \<and> \<bar>centered (fst (gauss_sample env q g)) q\<bar> \<le> int GAUSS_MAX)"

lemma gauss_lawD:
  assumes "gauss_law env q" and "gauss_sample env q g = (e, g')"
  shows "e < q" and "\<bar>centered e q\<bar> \<le> int GAUSS_MAX"
  using assms unfolding gauss_law_def by (metis fst_conv)+

lemma native_modulus: "good_native p \<Longrightarrow> \<exists>k. 16 \<le> k \<and> k \<le> 56 \<and> np_q p = 2 ^ k"
  by (auto simp: good_native_def)

lemma noisy_word:
  assumes "q = 2 ^ k" and "k \<le> 56" and "\<bar>centered e q\<bar> \<le> B"
  shows "wrapping_sub (wrapping_add msg e) x AND (q - 1) < q"
    and "near q B (int msg) (int (wrapping_sub (wrapping_add msg e) x AND (q - 1)) + int x)"
proof -
  have k: "k \<le> 64" using assms(2) by simp
  show "wrapping_sub (wrapping_add msg e) x AND (q - 1) < q" unfolding assms(1) by (rule mask_less)
  have "eqm q (int (wrapping_sub (wrapping_add msg e) x AND (q - 1))) (int msg + int e - int x)"
    unfolding assms(1)
    by (rule eqm_trans [OF eqm_mask]) (rule eqm_trans [OF eqm_wrapping_sub [OF k] eqm_diff [OF eqm_wrapping_add [OF k] eqm_refl]])
  then have "eqm q (int (wrapping_sub (wrapping_add msg e) x AND (q - 1)) + int x) (int msg + int e - int x + int x)"
    by (intro eqm_add eqm_refl)
  also have "int msg + int e - int x + int x = int msg + int e" by simp
  also have "eqm q \<dots> (int msg + centered e q)" by (intro eqm_add eqm_refl centered_eqm)
  finally show "near q B (int msg) (int (wrapping_sub (wrapping_add msg e) x AND (q - 1)) + int x)"
    using nearI [OF assms(3)] by (simp add: eqm_mod_iff)
qed

lemma noisy_row_ok:
  assumes law: "gauss_law env q" and q: "q = 2 ^ k" "k \<le> 56" and "noisy_row env q msgs g = (ws, g')"
  shows "length ws = length msgs \<and> all_below q ws
    \<and> (\<forall>i<length msgs. near q (int GAUSS_MAX) (int (fst (msgs ! i))) (int (ws ! i) + int (snd (msgs ! i))))"
  using assms(4)
proof (induction msgs arbitrary: g ws)
  case (Cons m msgs)
  obtain msg x where m: "m = (msg, x)" by (cases m)
  obtain e g1 where e: "gauss_sample env q g = (e, g1)" by (cases "gauss_sample env q g")
  obtain ws' where ws': "noisy_row env q msgs g1 = (ws', g')" "ws = (wrapping_sub (wrapping_add msg e) x AND (q - 1)) # ws'"
    using Cons.prems by (auto simp: m e Let_def split: prod.splits)
  note N = noisy_word [OF q gauss_lawD(2) [OF law e], of msg x]
  show ?case
    using Cons.IH [OF ws'(1)] N unfolding ws'(2) m by (auto simp: nth_Cons split: nat.split)
qed simp

section \<open>Decoding\<close>

text \<open>A word within half a plaintext step of a scaled message decodes to it.\<close>

lemma decode_near:
  assumes good: "good_native p" and m: "m < np_p p" and x: "x < np_q p"
    and near: "near (np_q p) r (int (np_q p div np_p p) * int m) (int x)" and r: "2 * r < int (np_q p div np_p p)"
  shows "decode_word p x = m"
proof -
  obtain k l where k: "k \<le> 56" "np_q p = 2 ^ k" and l: "0 < l" "l < k" "np_p p = 2 ^ l"
    using good by (auto simp: good_native_def)
  define D where "D = (2::nat) ^ (k - l)"
  have delta: "np_q p div np_p p = D" unfolding k(2) l(3) D_def using l(2) by (simp add: power_diff)
  have q: "np_q p = D * np_p p" unfolding D_def k(2) l(3) using l(2) by (simp flip: power_add)
  have D: "0 < D" by (simp add: D_def)
  obtain h where h: "D = 2 * h" using l(2) by (cases "k - l") (auto simp: D_def)
  have half: "D div 2 = h" using h by simp
  obtain e where e: "\<bar>e\<bar> \<le> r" "int x mod int (np_q p) = (int D * int m + e) mod int (np_q p)"
    using near by (auto simp: near_def delta)
  have eh: "\<bar>e\<bar> < int h" using e(1) r h delta by simp
  have "x + D div 2 \<le> 2 ^ 56 + 2 ^ 56"
  proof (rule add_mono)
    show "x \<le> 2 ^ 56" using x good_nativeD(6) [OF good] by linarith
    have "D \<le> 2 ^ 56" unfolding D_def using k(1) by (intro power_increasing) simp_all
    then show "D div 2 \<le> 2 ^ 56" by simp
  qed
  then have u: "u64 (x + D div 2) = x + D div 2" by (intro u64_id) simp
  obtain c where c: "int x = int D * int m + e + int (np_q p) * c"
  proof -
    have "int (np_q p) dvd int x - (int D * int m + e)" using e(2) by (simp add: mod_eq_dvd_iff)
    then obtain c where "int x - (int D * int m + e) = int (np_q p) * c" ..
    then show ?thesis by (intro that [of c]) simp
  qed
  have "int (x + h) = (e + int h) + int D * (int m + int (np_p p) * c)"
    using c q by (simp add: algebra_simps)
  then have "int (x + h) div int D = (int m + int (np_p p) * c) + (e + int h) div int D"
    using D by (simp only: div_mult_self2)
  moreover have "(e + int h) div int D = 0" using eh h by (intro div_pos_pos_trivial) auto
  ultimately have "int ((x + h) div D) = int m + int (np_p p) * c" by (simp add: zdiv_int)
  then have "int ((x + h) div D) mod int (np_p p) = int m mod int (np_p p)" by simp
  then have "(x + h) div D mod np_p p = m mod np_p p" unfolding zmod_int [symmetric] by (simp only: of_nat_eq_iff)
  then show ?thesis
    unfolding decode_word_def Let_def delta u unfolding half using m unfolding l(3) and_exp_minus_1 by simp
qed

section \<open>Phases\<close>

definition secret_ok :: "native_secret \<Rightarrow> bool" where
  "secret_ok s \<longleftrightarrow> good_native (sec_params s) \<and> length (sec_coeffs s) = np_d (sec_params s) \<and> all_below (np_q (sec_params s)) (sec_coeffs s)"

lemma native_canon: "good_native p \<Longrightarrow> length a = np_d p \<Longrightarrow> all_below (np_q p) a \<Longrightarrow> canon (np_q p) (np_d p) a"
proof -
  assume h: "good_native p" "length a = np_d p" "all_below (np_q p) a"
  have "np_q p \<le> 2 ^ 62" using good_nativeD(6) [OF h(1)] by simp
  then show ?thesis using h good_nativeD(1,5) [OF h(1)] by (simp add: canon_def)
qed

lemma native_context:
  assumes "ntt_laws eng d" and "new_lift_context eng d q = Inr ctx"
    and "length a = d" "all_below q a" "length b = d" "all_below q b"
  shows "lift_multiply eng ctx a b = Inr (schoolbook_negacyclic a b q)"
  using lift_multiply_ok [of eng ctx a b] new_lift_context_good [OF assms(1,2)] assms by (simp add: lift_valid_def)

lemma mask_sum: "good_native p \<Longrightarrow> eqm (np_q p) (int (u64 x AND (np_q p - 1))) (int x) \<and> u64 x AND (np_q p - 1) < np_q p"
proof -
  assume "good_native p"
  then obtain k where k: "k \<le> 56" "np_q p = 2 ^ k" by (auto simp: good_native_def)
  have "k \<le> 64" using k(1) by simp
  then show ?thesis unfolding k(2) using eqm_trans [OF eqm_mask eqm_u64] mask_less by blast
qed

lemma phase_ok:
  assumes laws: "ntt_laws eng (np_d p)" and ctx: "new_lift_context eng (np_d p) (np_q p) = Inr ctx"
    and good: "good_native p" and s: "sec_params s = p" "length (sec_coeffs s) = np_d p" "all_below (np_q p) (sec_coeffs s)"
    and ct: "nc_params ct = p" "length (nc_a ct) = np_d p" "all_below (np_q p) (nc_a ct)" "length (nc_b ct) = np_d p"
  shows "\<exists>ph. phase eng s ct = Inr ph \<and> length ph = np_d p \<and> all_below (np_q p) ph
    \<and> (\<forall>i<np_d p. eqm (np_q p) (int (ph ! i)) (int (nc_b ct ! i) + int (schoolbook_negacyclic (nc_a ct) (sec_coeffs s) (np_q p) ! i)))"
proof -
  let ?prod = "schoolbook_negacyclic (nc_a ct) (sec_coeffs s) (np_q p)"
  have len: "length ?prod = np_d p"
    using canonD(4) [OF schoolbook_negacyclic_nth(1) [OF native_canon [OF good ct(2,3)] native_canon [OF good s(2,3)]]] .
  have code: "phase eng s ct = Inr (map2 (\<lambda>a b. u64 (a + b) AND (np_q p - 1)) ?prod (nc_b ct))"
    using native_context [OF laws ctx ct(2,3) s(2,3)] ctx s(1) ct(1) by (simp add: phase_def)
  have el: "eqm (np_q p) (int (u64 (a + b) AND (np_q p - 1))) (int b + int a) \<and> u64 (a + b) AND (np_q p - 1) < np_q p" for a b
    using mask_sum [OF good, of "a + b"] by (simp add: add.commute del: One_nat_def)
  show ?thesis
    unfolding code using len ct(4) el by (auto intro!: all_belowI simp del: One_nat_def)
qed

text \<open>A ciphertext that is close to a scaled message decrypts to it.\<close>

lemma decrypt_ok:
  assumes laws: "ntt_laws eng (np_d p)" and ctx: "new_lift_context eng (np_d p) (np_q p) = Inr ctx"
    and good: "good_native p" and s: "sec_params s = p" "length (sec_coeffs s) = np_d p" "all_below (np_q p) (sec_coeffs s)"
    and ct: "nc_params ct = p" "length (nc_a ct) = np_d p" "all_below (np_q p) (nc_a ct)" "length (nc_b ct) = np_d p"
    and m: "length m = np_d p" "all_below (np_p p) m"
    and near: "\<And>i. i < np_d p \<Longrightarrow> near (np_q p) r (int (np_q p div np_p p) * int (m ! i))
      (int (nc_b ct ! i) + int (schoolbook_negacyclic (nc_a ct) (sec_coeffs s) (np_q p) ! i))"
    and r: "2 * r < int (np_q p div np_p p)"
  shows "decrypt eng s ct = Inr m"
proof -
  obtain ph where ph: "phase eng s ct = Inr ph" "length ph = np_d p" "all_below (np_q p) ph"
    "\<And>i. i < np_d p \<Longrightarrow> eqm (np_q p) (int (ph ! i)) (int (nc_b ct ! i) + int (schoolbook_negacyclic (nc_a ct) (sec_coeffs s) (np_q p) ! i))"
    using phase_ok [OF laws ctx good s ct] by blast
  have "decode_word p (ph ! i) = m ! i" if i: "i < np_d p" for i
  proof (rule decode_near [OF good _ _ _ r])
    show "m ! i < np_p p" "ph ! i < np_q p" using m ph(2,3) i by (auto intro: all_below_nth)
    show "near (np_q p) r (int (np_q p div np_p p) * int (m ! i)) (int (ph ! i))"
      using near [OF i] unfolding near_eqm [OF ph(4) [OF i]] .
  qed
  then have "map (decode_word p) ph = m" using ph(2) m(1) by (intro nth_equalityI) simp_all
  then show ?thesis using ph(1) s(1) by (simp add: decrypt_def)
qed

section \<open>Selections\<close>

lemma selection_word:
  assumes "x < 2 ^ 64"
  shows "x AND wrapping_sub 0 (if b then 1 else 0) = (if b then x else 0)"
proof -
  have "wrapping_sub 0 1 = 2 ^ 64 - 1" "wrapping_sub 0 0 = 0" by (simp_all add: wrapping_sub_def u64_def)
  moreover have "x AND (2 ^ 64 - 1) = x" using assms by (simp only: and_exp_minus_1) simp
  ultimately show ?thesis by simp
qed

definition selection_ok :: "native_params \<Rightarrow> nat list \<Rightarrow> nat list list \<Rightarrow> nat \<Rightarrow> nat \<Rightarrow> nat list \<Rightarrow> bool" where
  "selection_ok p s polys target base ws \<longleftrightarrow> length ws = length polys * np_d p \<and> all_below (np_q p) ws
     \<and> (\<forall>block<length polys. \<forall>i<np_d p. near (np_q p) (int GAUSS_MAX)
          (if base + block * np_d p + i = target then int (np_q p div np_p p) else 0)
          (int (ws ! (block * np_d p + i)) + int (schoolbook_negacyclic (tau_coeffs (polys ! block) (2 * np_d p - 1) (np_q p)) s (np_q p) ! i)))"

lemma selection_loop_ok:
  assumes laws: "ntt_laws eng (np_d p)" and ctx: "new_lift_context eng (np_d p) (np_q p) = Inr ctx" and law: "gauss_law env (np_q p)"
    and good: "good_native p" and s: "sec_params s = p" "length (sec_coeffs s) = np_d p" "all_below (np_q p) (sec_coeffs s)"
    and polys: "list_all (\<lambda>a. length a = np_d p \<and> all_below (np_q p) a) polys"
  shows "\<exists>ws g'. selection_loop eng env ctx s target block polys g = Inr (ws, g')
    \<and> selection_ok p (sec_coeffs s) polys target (block * np_d p) ws"
  using polys
proof (induction polys arbitrary: block g)
  case Nil
  then show ?case by (simp add: selection_ok_def)
next
  case (Cons a polys)
  obtain k where k: "np_q p = 2 ^ k" "k \<le> 56" using native_modulus [OF good] by blast
  let ?d = "np_d p" and ?q = "np_q p"
  have a: "length a = ?d" "all_below ?q a" using Cons.prems by simp_all
  have g64: "?d * (2 * ?d - 1) < 2 ^ 64"
  proof -
    have "?d * (2 * ?d - 1) \<le> 2048 * 4096" using good_nativeD(2) [OF good] by (intro mult_le_mono) simp_all
    then show ?thesis by simp
  qed
  have t: "length (tau_coeffs a (2 * ?d - 1) ?q) = ?d" "all_below ?q (tau_coeffs a (2 * ?d - 1) ?q)"
    using canonD(4,5) [OF ext_tau_coeffs(1) [OF native_canon [OF good a] g64]] .
  let ?inner = "schoolbook_negacyclic (tau_coeffs a (2 * ?d - 1) ?q) (sec_coeffs s) ?q"
  note inner = native_context [OF laws ctx t s(2,3)]
  have li: "length ?inner = ?d"
    using canonD(4) [OF schoolbook_negacyclic_nth(1) [OF native_canon [OF good t] native_canon [OF good s(2,3)]]] .
  let ?sel = "\<lambda>i. (?q div np_p p) AND wrapping_sub 0 (if block * ?d + i = target then 1 else 0)"
  let ?msgs = "map (\<lambda>i. (?sel i, ?inner ! i)) [0..<?d]"
  obtain row g1 where row: "noisy_row env ?q ?msgs g = (row, g1)" by (cases "noisy_row env ?q ?msgs g")
  note R = noisy_row_ok [OF law k row]
  obtain ws g' where ws: "selection_loop eng env ctx s target (block + 1) polys g1 = Inr (ws, g')"
    "selection_ok p (sec_coeffs s) polys target ((block + 1) * ?d) ws"
    using Cons.IH [of "block + 1" g1] Cons.prems by auto
  have "selection_loop eng env ctx s target block (a # polys) g = Inr (row @ ws, g')"
    using a inner s(1) li row ws(1) by (simp add: validate_poly_iff del: One_nat_def)
  moreover have "selection_ok p (sec_coeffs s) (a # polys) target (block * ?d) (row @ ws)"
    unfolding selection_ok_def
  proof (intro conjI allI impI)
    show "length (row @ ws) = length (a # polys) * ?d" "all_below ?q (row @ ws)"
      using R ws(2) by (simp_all add: selection_ok_def)
    fix bl i assume bl: "bl < length (a # polys)" and i: "i < ?d"
    show "near ?q (int GAUSS_MAX) (if block * ?d + bl * ?d + i = target then int (?q div np_p p) else 0)
       (int ((row @ ws) ! (bl * ?d + i)) + int (schoolbook_negacyclic (tau_coeffs ((a # polys) ! bl) (2 * ?d - 1) ?q) (sec_coeffs s) ?q ! i))"
    proof (cases bl)
      case 0
      have "?q div np_p p < 2 ^ 64" using good_nativeD(6) [OF good] le_trans [OF div_le_dividend, of ?q "2 ^ 56" "np_p p"] by simp
      then have "int (?sel i) = (if block * ?d + i = target then int (?q div np_p p) else 0)"
        by (simp only: selection_word) simp
      moreover have "near ?q (int GAUSS_MAX) (int (?sel i)) (int (row ! i) + int (?inner ! i))"
        using R i by (simp del: One_nat_def)
      ultimately show ?thesis using 0 i R by (simp add: nth_append del: One_nat_def)
    next
      case (Suc b)
      have "near ?q (int GAUSS_MAX) (if (block + 1) * ?d + b * ?d + i = target then int (?q div np_p p) else 0)
         (int (ws ! (b * ?d + i)) + int (schoolbook_negacyclic (tau_coeffs (polys ! b) (2 * ?d - 1) ?q) (sec_coeffs s) ?q ! i))"
        using ws(2) bl i Suc by (simp add: selection_ok_def del: One_nat_def)
      moreover have "block * ?d + Suc b * ?d + i = (block + 1) * ?d + b * ?d + i" "(row @ ws) ! (Suc b * ?d + i) = ws ! (b * ?d + i)"
        using R by (simp_all add: nth_append)
      ultimately show ?thesis unfolding Suc nth_Cons_Suc by (simp only:)
    qed
  qed
  ultimately show ?case by blast
qed

section \<open>Keys\<close>

text \<open>What an uploaded key family promises: body plus mask times secret is the automorphic image of the
  secret times the gadget weight, up to noise.\<close>

definition key_for :: "native_params \<Rightarrow> nat list \<Rightarrow> nat \<Rightarrow> nat list list \<Rightarrow> nat list list \<Rightarrow> int \<Rightarrow> bool" where
  "key_for p s g ws ks E \<longleftrightarrow> length ks = length ws
     \<and> (\<forall>j<length ws. length (ks ! j) = np_d p \<and> all_below (np_q p) (ks ! j)
          \<and> (\<forall>i<np_d p. near (np_q p) E (int (tau_coeffs s g (np_q p) ! i) * int (factor p j))
               (int (ks ! j ! i) + int (schoolbook_negacyclic (ws ! j) s (np_q p) ! i))))"

definition setup_ok :: "native_setup \<Rightarrow> bool" where
  "setup_ok st \<longleftrightarrow> good_native (ns_params st)
     \<and> length (ns_w st) = np_ell (ns_params st) \<and> length (ns_v st) = np_ell (ns_params st)
     \<and> list_all (\<lambda>a. length a = np_d (ns_params st) \<and> all_below (np_q (ns_params st)) a) (ns_w st @ ns_v st)"

lemma key_bodies_ok:
  assumes laws: "ntt_laws eng (np_d p)" and ctx: "new_lift_context eng (np_d p) (np_q p) = Inr ctx" and law: "gauss_law env (np_q p)"
    and good: "good_native p" and s: "sec_params s = p" "length (sec_coeffs s) = np_d p" "all_below (np_q p) (sec_coeffs s)"
    and ws: "list_all (\<lambda>a. length a = np_d p \<and> all_below (np_q p) a) ws"
  shows "\<exists>ks g'. key_bodies eng env ctx s from j0 ws g = Inr (ks, g') \<and> length ks = length ws
     \<and> (\<forall>j<length ws. length (ks ! j) = np_d p \<and> all_below (np_q p) (ks ! j)
          \<and> (\<forall>i<np_d p. near (np_q p) (int GAUSS_MAX) (int (from ! i) * int (factor p (j0 + j)))
               (int (ks ! j ! i) + int (schoolbook_negacyclic (ws ! j) (sec_coeffs s) (np_q p) ! i))))"
  using ws
proof (induction ws arbitrary: j0 g)
  case (Cons w ws)
  obtain k where k: "np_q p = 2 ^ k" "k \<le> 56" using native_modulus [OF good] by blast
  let ?d = "np_d p" and ?q = "np_q p" and ?prod = "schoolbook_negacyclic w (sec_coeffs s) (np_q p)"
  have w: "length w = ?d" "all_below ?q w" using Cons.prems by simp_all
  let ?msgs = "map (\<lambda>i. (wrapping_mul (from ! i) (factor p j0), ?prod ! i)) [0..<?d]"
  obtain row g1 where row: "noisy_row env ?q ?msgs g = (row, g1)" by (cases "noisy_row env ?q ?msgs g")
  note R = noisy_row_ok [OF law k row]
  have first: "near ?q (int GAUSS_MAX) (int (from ! i) * int (factor p j0)) (int (row ! i) + int (?prod ! i))" if "i < ?d" for i
  proof -
    have k64: "k \<le> 64" using k(2) by simp
    have "near ?q (int GAUSS_MAX) (int (wrapping_mul (from ! i) (factor p j0))) (int (row ! i) + int (?prod ! i))"
      using R that by simp
    then show ?thesis using near_eqm_left [OF eqm_wrapping_mul [OF k64, of "from ! i" "factor p j0"]] by (simp add: k(1))
  qed
  obtain ks g' where ks: "key_bodies eng env ctx s from (j0 + 1) ws g1 = Inr (ks, g')" "length ks = length ws"
    "\<And>j. j < length ws \<Longrightarrow> length (ks ! j) = ?d \<and> all_below ?q (ks ! j)
        \<and> (\<forall>i<?d. near ?q (int GAUSS_MAX) (int (from ! i) * int (factor p (j0 + 1 + j)))
             (int (ks ! j ! i) + int (schoolbook_negacyclic (ws ! j) (sec_coeffs s) ?q ! i)))"
    using Cons.IH [of "j0 + 1" g1] Cons.prems by auto
  have "key_bodies eng env ctx s from j0 (w # ws) g = Inr (row # ks, g')"
    using native_context [OF laws ctx w s(2,3)] s(1) row ks(1) by simp
  moreover have "length ((row # ks) ! j) = ?d \<and> all_below ?q ((row # ks) ! j)
        \<and> (\<forall>i<?d. near ?q (int GAUSS_MAX) (int (from ! i) * int (factor p (j0 + j)))
             (int ((row # ks) ! j ! i) + int (schoolbook_negacyclic ((w # ws) ! j) (sec_coeffs s) ?q ! i)))"
    if "j < length (w # ws)" for j
    using that R first ks(3) [of "j - 1"] by (cases j) simp_all
  ultimately show ?case using ks(2) by auto
qed simp

lemma draw_poly_ok: "draw_poly env (2 ^ k) n g = (a, g') \<Longrightarrow> length a = n \<and> all_below (2 ^ k) a"
proof (induction n arbitrary: g a)
  case (Suc n)
  from Suc.prems obtain x g1 xs g2 where "next_u64 env g = (x, g1)" "draw_poly env (2 ^ k) n g1 = (xs, g2)"
    "a = (x AND (2 ^ k - 1)) # xs" by (auto simp: Let_def split: prod.splits)
  then show ?case using Suc.IH [of g1 xs] Suc.prems mask_less [of x k] by (auto simp: Let_def split: prod.splits)
qed simp

lemma draw_polys_ok: "draw_polys env (2 ^ k) d n g = (as, g') \<Longrightarrow> length as = n \<and> list_all (\<lambda>a. length a = d \<and> all_below (2 ^ k) a) as"
proof (induction n arbitrary: g as)
  case (Suc n)
  from Suc.prems obtain x g1 xs where "draw_poly env (2 ^ k) d g = (x, g1)" "draw_polys env (2 ^ k) d n g1 = (xs, g')"
    "as = x # xs" by (auto simp: Let_def split: prod.splits)
  then show ?case using Suc.IH [of g1 xs] draw_poly_ok [of env k d g x g1] by auto
qed simp

lemma new_setup_ok:
  assumes "good_native p"
  shows "setup_ok (new_setup env p seed)" and "ns_params (new_setup env p seed) = p"
proof -
  obtain k where k: "np_q p = 2 ^ k" using native_modulus [OF assms] by blast
  show "ns_params (new_setup env p seed) = p" by (simp add: new_setup_def Let_def split: prod.splits)
  show "setup_ok (new_setup env p seed)"
    using assms unfolding new_setup_def setup_ok_def Let_def k
    by (auto split: prod.splits dest!: draw_polys_ok simp: k)
qed

section \<open>Properties\<close>

text \<open>Encrypting one LWE body: a canonical mask and a plaintext in range are accepted, and the body plus the
  inner product of mask and secret is the scaled plaintext up to the noise of one sample; everything
  else is refused before any noise is drawn.\<close>

lemma encrypt_lwe_ok:
  assumes "secret_ok s" and "gauss_law env (np_q (sec_params s))"
  defines "p \<equiv> sec_params s"
  shows "if length a = np_d p \<and> all_below (np_q p) a \<and> m < np_p p
    then \<exists>c g'. encrypt_lwe env s a m g = Inr (c, g') \<and> c < np_q p
      \<and> near (np_q p) 65 (int (np_q p div np_p p) * int m) (int c + (\<Sum>i<np_d p. int (a ! i) * int (sec_coeffs s ! i)))
    else \<exists>msg. encrypt_lwe env s a m g = Inl (InvalidParams msg)"
proof (cases "length a = np_d p \<and> all_below (np_q p) a \<and> m < np_p p")
  case False
  then show ?thesis by (auto simp: encrypt_lwe_def validate_poly_iff p_def)
next
  case True
  have good: "good_native p" and s: "length (sec_coeffs s) = np_d p" using assms(1) by (simp_all add: secret_ok_def p_def)
  obtain k where k: "np_q p = 2 ^ k" "k \<le> 56" using native_modulus [OF good] by blast
  have k64: "k \<le> 64" using k(2) by simp
  obtain e g' where e: "gauss_sample env (np_q p) g = (e, g')" by (cases "gauss_sample env (np_q p) g")
  define dot where "dot = fold (\<lambda>(a, b) acc. wrapping_add acc (wrapping_mul a b)) (zip a (sec_coeffs s)) 0"
  have fold: "eqm (2 ^ k) (int (fold (\<lambda>(a, b) acc. wrapping_add acc (wrapping_mul a b)) (zip as bs) acc))
      (int acc + (\<Sum>i<length bs. int (as ! i) * int (bs ! i)))" if "length as = length bs" for as bs acc
    using that
  proof (induction as bs arbitrary: acc rule: list_induct2)
    case (Cons x xs y ys)
    have "eqm (2 ^ k) (int (wrapping_add acc (wrapping_mul x y))) (int acc + int x * int y)"
      using eqm_trans [OF eqm_wrapping_add [OF k64] eqm_add [OF eqm_refl eqm_wrapping_mul [OF k64]]] .
    then have "eqm (2 ^ k) (int (wrapping_add acc (wrapping_mul x y)) + (\<Sum>i<length ys. int (xs ! i) * int (ys ! i)))
        (int acc + int x * int y + (\<Sum>i<length ys. int (xs ! i) * int (ys ! i)))" by (intro eqm_add eqm_refl)
    then show ?case using eqm_trans [OF Cons.IH [of "wrapping_add acc (wrapping_mul x y)"]]
      by (simp add: sum.lessThan_Suc_shift add.assoc del: sum.lessThan_Suc)
  qed simp
  have dotq: "eqm (np_q p) (int (dot AND (np_q p - 1))) (\<Sum>i<np_d p. int (a ! i) * int (sec_coeffs s ! i))"
    using eqm_trans [OF eqm_mask fold [of a "sec_coeffs s" 0, folded dot_def]] True s unfolding k(1) by simp
  let ?msg = "wrapping_mul m (np_q p div np_p p)"
  let ?c = "wrapping_sub (wrapping_add ?msg e) (dot AND (np_q p - 1)) AND (np_q p - 1)"
  have "\<bar>centered e (np_q p)\<bar> \<le> 65" using gauss_lawD(2) [OF assms(2)] e by (simp add: p_def GAUSS_MAX_def)
  note N = noisy_word [OF k this, of ?msg "dot AND (np_q p - 1)"]
  have "eqm (np_q p) (int ?msg) (int (np_q p div np_p p) * int m)"
    using eqm_wrapping_mul [OF k64, of m "np_q p div np_p p"] by (simp add: k(1) mult.commute)
  then have "near (np_q p) 65 (int (np_q p div np_p p) * int m) (int ?c + int (dot AND (np_q p - 1)))"
    using N(2) near_eqm_left by blast
  then have "near (np_q p) 65 (int (np_q p div np_p p) * int m) (int ?c + (\<Sum>i<np_d p. int (a ! i) * int (sec_coeffs s ! i)))"
    using near_eqm [OF eqm_add [OF eqm_refl dotq]] by blast
  moreover have "encrypt_lwe env s a m g = Inr (?c, g')"
    using True e by (simp add: encrypt_lwe_def validate_poly_iff p_def [symmetric] dot_def Let_def del: One_nat_def)
  ultimately show ?thesis using True N(1) by auto
qed

text \<open>C13. Encrypting a selection: for canonical query masks and a target inside the blocks, every position of the
  query is, together with the mask product it hides behind, the scaled one at the target and zero
  elsewhere, up to the noise of one sample.\<close>

theorem encrypt_selection_correct:
  assumes "ntt_laws eng (np_d p)" and "new_lift_context eng (np_d p) (np_q p) = Inr ctx" and "gauss_law env (np_q p)"
    and "secret_ok s" and "sec_params s = p" and "list_all (\<lambda>a. length a = np_d p \<and> all_below (np_q p) a) polys"
    and "target < length polys * np_d p" and "target < 2 ^ 64 - 1"
  shows "\<exists>ws g'. encrypt_selection eng env s polys target g = Inr (ws, g') \<and> length ws = length polys * np_d p
    \<and> (\<forall>block<length polys. \<forall>i<np_d p. near (np_q p) 65
         (if block * np_d p + i = target then int (np_q p div np_p p) else 0)
         (int (ws ! (block * np_d p + i))
            + int (schoolbook_negacyclic (tau_coeffs (polys ! block) (2 * np_d p - 1) (np_q p)) (sec_coeffs s) (np_q p) ! i)))"
proof -
  have s: "good_native p" "length (sec_coeffs s) = np_d p" "all_below (np_q p) (sec_coeffs s)" using assms(4,5) by (simp_all add: secret_ok_def)
  obtain ws g' where "selection_loop eng env ctx s target 0 polys g = Inr (ws, g')" "selection_ok p (sec_coeffs s) polys target (0 * np_d p) ws"
    using selection_loop_ok [OF assms(1,2,3) s(1) assms(5) s(2,3) assms(6)] by blast
  moreover have "polys \<noteq> []" using assms(7) by auto
  ultimately show ?thesis
    using assms(2,5,7,8) by (auto simp: encrypt_selection_def selection_ok_def GAUSS_MAX_def not_le)
qed

text \<open>Generated keys are keys: for a setup expanded from a seed and a secret of its profile, both families are
  produced with one body per gadget digit, and each body plus its mask product is the image of the
  secret under the automorphism times the digit weight, up to the noise of one sample; a secret of
  another profile is refused.\<close>

lemma generate_ok:
  assumes "ntt_laws eng (np_d p)" and "new_lift_context eng (np_d p) (np_q p) = Inr ctx" and "gauss_law env (np_q p)"
    and "secret_ok s" and "good_native p" and setup_def: "setup = new_setup env p seed"
  shows "if sec_params s = p
    then \<exists>keys g'. generate eng env setup s g = Inr (keys, g') \<and> nk_id keys = ns_id setup
      \<and> key_for p (sec_coeffs s) (5 mod (2 * np_d p)) (ns_w setup) (nk_kg keys) 65
      \<and> key_for p (sec_coeffs s) (2 * np_d p - 1) (ns_v setup) (nk_kh keys) 65
    else generate eng env setup s g = Inl (InvalidParams ''key profile mismatch'')"
proof (cases "sec_params s = p")
  case False
  then show ?thesis using new_setup_ok(2) [OF assms(5), of env seed] by (simp add: generate_def generate_internal_def setup_def Let_def)
next
  case True
  note st = new_setup_ok [OF assms(5), of env seed, folded setup_def]
  have s: "length (sec_coeffs s) = np_d p" "all_below (np_q p) (sec_coeffs s)" using assms(4) True by (simp_all add: secret_ok_def)
  have ws: "list_all (\<lambda>a. length a = np_d p \<and> all_below (np_q p) a) (ns_w setup)"
    "list_all (\<lambda>a. length a = np_d p \<and> all_below (np_q p) a) (ns_v setup)" using st by (simp_all add: setup_ok_def)
  let ?t = "\<lambda>g. tau_coeffs (sec_coeffs s) g (np_q p)"
  note B = key_bodies_ok [OF assms(1,2,3,5) True s]
  from B [OF ws(1), of "?t (5 mod (2 * np_d p))" 0 g] obtain kg g1 where
    kg: "key_bodies eng env ctx s (?t (5 mod (2 * np_d p))) 0 (ns_w setup) g = Inr (kg, g1)"
    "key_for p (sec_coeffs s) (5 mod (2 * np_d p)) (ns_w setup) kg 65"
    unfolding key_for_def GAUSS_MAX_def add_0 of_nat_numeral by blast
  from B [OF ws(2), of "?t (2 * np_d p - 1)" 0 g1] obtain kh g2 where
    kh: "key_bodies eng env ctx s (?t (2 * np_d p - 1)) 0 (ns_v setup) g1 = Inr (kh, g2)"
    "key_for p (sec_coeffs s) (2 * np_d p - 1) (ns_v setup) kh 65"
    unfolding key_for_def GAUSS_MAX_def add_0 of_nat_numeral by blast
  have "generate eng env setup s g = Inr (\<lparr>nk_id = ns_id setup, nk_kg = kg, nk_kh = kh\<rparr>, g2)"
    using assms(2) True st(2) kg(1) kh(1) by (simp add: generate_def generate_internal_def Let_def del: One_nat_def)
  then show ?thesis using True kg(2) kh(2) by (simp del: One_nat_def)
qed

text \<open>C35. Uploaded keys survive their wire form: the words of well-shaped keys parse back to the keys, the parser
  accepts exactly canonical words of the right number, and the parsed keys give the words back.\<close>

theorem key_words_roundtrip:
  assumes "setup_ok setup"
  defines "p \<equiv> ns_params setup"
  shows "if length words = 2 * np_ell p * np_d p \<and> all_below (np_q p) words
    then \<exists>keys. from_words setup words = Inr keys \<and> key_words keys = words \<and> nk_id keys = ns_id setup
      \<and> length (nk_kg keys) = np_ell p \<and> length (nk_kh keys) = np_ell p
      \<and> list_all (\<lambda>a. length a = np_d p \<and> all_below (np_q p) a) (nk_kg keys @ nk_kh keys)
      \<and> (\<forall>keys'. list_all (\<lambda>a. length a = np_d p) (nk_kg keys' @ nk_kh keys') \<and> length (nk_kg keys') = np_ell p
            \<and> nk_id keys' = ns_id setup \<and> key_words keys' = words \<longrightarrow> keys' = keys)
    else from_words setup words = Inl (InvalidParams ''malformed native keys'')"
proof (cases "length words = 2 * np_ell p * np_d p \<and> all_below (np_q p) words")
  case False
  then show ?thesis by (auto simp: from_words_def p_def [symmetric] Let_def list_ex_iff all_below_set not_less)
next
  case True
  have d: "0 < np_d p" using assms(1) good_nativeD(1) by (simp add: setup_ok_def p_def)
  let ?ch = "chunks_exact (np_d p) words"
  have len: "length words = (2 * np_ell p) * np_d p" using True by simp
  note C = chunks_exact_props [OF d len]
  have cat: "concat ?ch = words" using C by (simp add: chunks_exact_chunk_at [OF d len] concat_chunk_at len [symmetric] map_nth)
  have below: "all_below (np_q p) a" if "a \<in> set ?ch" for a
  proof -
    have "set a \<subseteq> set (concat ?ch)" using that by auto
    then show ?thesis using True unfolding cat by (auto simp: all_below_set)
  qed
  let ?keys = "\<lparr>nk_id = ns_id setup, nk_kg = take (np_ell p) ?ch, nk_kh = drop (np_ell p) ?ch\<rparr>"
  have "from_words setup words = Inr ?keys"
    using True by (simp add: from_words_def p_def [symmetric] Let_def list_ex_iff all_below_set not_le)
  moreover have "keys' = ?keys" if k: "list_all (\<lambda>a. length a = np_d p) (nk_kg keys' @ nk_kh keys')" "length (nk_kg keys') = np_ell p"
     "nk_id keys' = ns_id setup" "key_words keys' = words" for keys'
  proof -
    have "chunks_exact (np_d p) (concat (nk_kg keys' @ nk_kh keys')) = nk_kg keys' @ nk_kh keys'"
      using k(1) by (intro chunks_exact_concat d) (simp add: list_all_iff)
    then have "?ch = nk_kg keys' @ nk_kh keys'" using k(4) by (simp add: key_words_def)
    then show ?thesis using k(2,3) by simp
  qed
  moreover have "key_words ?keys = words" using cat by (simp add: key_words_def)
  moreover have "list_all (\<lambda>a. length a = np_d p \<and> all_below (np_q p) a) ?ch" using C(2) below by (simp add: list_all_iff)
  ultimately show ?thesis using True C(1) by (auto simp: list_all_iff dest: in_set_takeD in_set_dropD)
qed

text \<open>The loop over 32-bit draws that rejects the top value.\<close>

lemma ternary_turn:
  "ternary_coeff env q g = (if fst (next_u32 env g) < 2 ^ 32 - 1
     then Some (if fst (next_u32 env g) mod 3 = 0 then q - 1 else if fst (next_u32 env g) mod 3 = 1 then 0 else 1, snd (next_u32 env g))
     else ternary_coeff env q (snd (next_u32 env g)))"
  by (subst ternary_coeff.simps) (simp add: split_beta)

lemma ternary_ends:
  assumes "ternary_coeff env q g = Some r"
  shows "\<exists>n. nth_draw (next_u32 env) g n < 2 ^ 32 - 1"
proof (rule ternary_coeff.raw_induct [where P = "\<lambda>env q g r. \<exists>n. nth_draw (next_u32 env) g n < 2 ^ 32 - 1", OF _ assms])
  fix loop and env :: "'a rng_env" and q g r
  assume IH: "\<And>env q g r. loop env q g = Some r \<Longrightarrow> \<exists>n. nth_draw (next_u32 env) g n < 2 ^ 32 - 1"
    and eq: "(case next_u32 env g of (v, g') \<Rightarrow>
        if v < 2 ^ 32 - 1 then Some (if v mod 3 = 0 then q - 1 else if v mod 3 = 1 then 0 else 1, g') else loop env q g') = Some r"
  show "\<exists>n. nth_draw (next_u32 env) g n < 2 ^ 32 - 1"
  proof (cases "fst (next_u32 env g) < 2 ^ 32 - 1")
    case True
    then show ?thesis by (intro exI [of _ 0]) simp
  next
    case False
    then have "loop env q (snd (next_u32 env g)) = Some r" using eq by (simp add: split_beta)
    then obtain n where "nth_draw (next_u32 env) (snd (next_u32 env g)) n < 2 ^ 32 - 1" using IH by blast
    then show ?thesis by (intro exI [of _ "Suc n"]) simp
  qed
qed

interpretation ternary: rejection_loop "next_u32 env" "\<lambda>v. v < 2 ^ 32 - 1"
    "\<lambda>v. if v mod 3 = 0 then q - 1 else if v mod 3 = 1 then 0 else 1" "ternary_coeff env q" for env q
  by (unfold_locales, rule ternary_turn, rule ternary_ends)

lemma card_residue: "r < m \<Longrightarrow> card {v. v < m * n \<and> v mod m = r} = n" for m r n :: nat
proof -
  assume r: "r < m"
  then have "{v. v < m * n \<and> v mod m = r} = (\<lambda>a. m * a + r) ` {..<n}"
  proof (intro set_eqI iffI)
    fix v assume "v \<in> {v. v < m * n \<and> v mod m = r}"
    then have "v = m * (v div m) + r" "v div m < n" by (auto simp: less_mult_imp_div_less mult.commute)
    then show "v \<in> (\<lambda>a. m * a + r) ` {..<n}" by blast
  next
    fix v assume "v \<in> (\<lambda>a. m * a + r) ` {..<n}"
    then obtain a where a: "v = m * a + r" "a < n" by blast
    have "m * Suc a \<le> m * n" using a(2) by (intro mult_le_mono2) simp
    then show "v \<in> {v. v < m * n \<and> v mod m = r}" using a(1) r by simp
  qed
  moreover have "inj_on (\<lambda>a. m * a + r) {..<n}" using r by (auto simp: inj_on_def)
  ultimately show ?thesis by (simp add: card_image)
qed

text \<open>C36. A ternary coefficient is exactly uniform: the loop returns exactly when the generator offers a draw other
  than its single rejected value, on the first such draw, with minus one, zero or one modulo \<open>q\<close> by the
  residue of that draw modulo three and the generator right behind it; and each of the three coefficients
  is the result of the same number of 32-bit draws.\<close>

theorem ternary_coeff_uniform:
  fixes env' :: "nat rng_env"
  assumes "3 \<le> q"
  shows "(ternary_coeff env q g = Some (x, g') \<longleftrightarrow>
      (\<exists>n. (\<forall>k<n. 2 ^ 32 - 1 \<le> nth_draw (next_u32 env) g k) \<and> nth_draw (next_u32 env) g n < 2 ^ 32 - 1
        \<and> x = [q - 1, 0, 1] ! (nth_draw (next_u32 env) g n mod 3) \<and> g' = nth_state (next_u32 env) g (Suc n)))
    \<and> card {v. v < 2 ^ 32 \<and> ternary_coeff (env'\<lparr>next_u32 := \<lambda>v. (v, v)\<rparr>) q v = Some (y, v)}
      = (if y = q - 1 \<or> y = 0 \<or> y = 1 then (2 ^ 32 - 1) div 3 else 0)"
proof
  have val: "(if v mod 3 = 0 then q - 1 else if v mod 3 = 1 then 0 else 1) = [q - 1, 0, 1] ! (v mod 3)" for v :: nat
  proof -
    have "v mod 3 = 0 \<or> v mod 3 = 1 \<or> v mod 3 = 2" by presburger
    then show ?thesis by auto
  qed
  show "ternary_coeff env q g = Some (x, g') \<longleftrightarrow>
      (\<exists>n. (\<forall>k<n. 2 ^ 32 - 1 \<le> nth_draw (next_u32 env) g k) \<and> nth_draw (next_u32 env) g n < 2 ^ 32 - 1
        \<and> x = [q - 1, 0, 1] ! (nth_draw (next_u32 env) g n mod 3) \<and> g' = nth_state (next_u32 env) g (Suc n))"
    using ternary.returns_iff [of env q g x g'] unfolding val not_less .
  let ?env = "env'\<lparr>next_u32 := \<lambda>v. (v, v)\<rparr>"
  have echo: "ternary_coeff ?env q v = Some (y, v) \<longleftrightarrow> v < 2 ^ 32 - 1 \<and> y = [q - 1, 0, 1] ! (v mod 3)" for v
    using ternary.returns_iff [of ?env q v y v] unfolding val by auto
  have count: "card {v. v < 2 ^ 32 - 1 \<and> v mod 3 = r} = (2 ^ 32 - 1) div (3::nat)" if "r < 3" for r :: nat
    using card_residue [of r 3 1431655765] that by simp
  have split: "y = [q - 1, 0, 1] ! (v mod 3) \<longleftrightarrow> (v mod 3 = 0 \<and> y = q - 1) \<or> (v mod 3 = 1 \<and> y = 0) \<or> (v mod 3 = 2 \<and> y = 1)" for v :: nat
  proof -
    have "v mod 3 = 0 \<or> v mod 3 = 1 \<or> v mod 3 = 2" by presburger
    then show ?thesis by auto
  qed
  have all: "{v. v < 2 ^ 32 \<and> ternary_coeff ?env q v = Some (y, v)}
      = {v. v < 2 ^ 32 - 1 \<and> ((v mod 3 = 0 \<and> y = q - 1) \<or> (v mod 3 = 1 \<and> y = 0) \<or> (v mod 3 = 2 \<and> y = 1))}"
    unfolding echo split by auto
  have distinct: "q - 1 \<noteq> 0" "q - 1 \<noteq> 1" using assms by simp_all
  consider "y = q - 1" | "y = 0" | "y = 1" | "y \<noteq> q - 1" "y \<noteq> 0" "y \<noteq> 1" by blast
  then show "card {v. v < 2 ^ 32 \<and> ternary_coeff ?env q v = Some (y, v)}
      = (if y = q - 1 \<or> y = 0 \<or> y = 1 then (2 ^ 32 - 1) div 3 else 0)"
    unfolding all by cases (use count [of 0] count [of 1] count [of 2] distinct in simp_all)
qed

text \<open>C14. Generated keys are keys: for a setup expanded from a seed and a secret of its profile, both families are
  produced with one body per gadget digit, and each body plus its mask product is the image of the
  secret under the automorphism times the digit weight, up to the noise of one sample; a secret of
  another profile is refused.\<close>

theorem generate_gives_keys:
  assumes "ntt_laws eng (np_d p)" and "new_lift_context eng (np_d p) (np_q p) = Inr ctx" and "gauss_law env (np_q p)"
    and "secret_ok s" and "good_native p" and "setup = new_setup env p seed"
  shows "if sec_params s = p
    then \<exists>keys g'. generate eng env setup s g = Inr (keys, g') \<and> nk_id keys = ns_id setup
      \<and> key_for p (sec_coeffs s) (5 mod (2 * np_d p)) (ns_w setup) (nk_kg keys) 65
      \<and> key_for p (sec_coeffs s) (2 * np_d p - 1) (ns_v setup) (nk_kh keys) 65
    else generate eng env setup s g = Inl (InvalidParams ''key profile mismatch'')"
  using assms by (rule generate_ok)

section \<open>The hypotheses can hold\<close>

text \<open>A counter in place of the generator; the first 32-bit word is the rejected one.\<close>

definition demo_env :: "nat rng_env" where
  "demo_env = \<lparr>next_u64 = \<lambda>g. (g * 77777, g + 1), next_u32 = \<lambda>g. (if g = 0 then 4294967295 else g, g + 1),
     gauss_sample = \<lambda>q g. (if even g then q - g mod 60 - 1 else g mod 60, g + 1), from_seed = length, sha256 = id\<rparr>"

definition demo_secret :: native_secret where
  "demo_secret = \<lparr>sec_params = demo_params, sec_coeffs = [1, 0, 1048575, 1]\<rparr>"

lemma demo_good: "good_native demo_params"
  using new_native_params_good(1) [OF demo_params] .

lemma demo_dims: "np_d demo_params = 4" "np_q demo_params = 1048576" "np_p demo_params = 16" "np_ell demo_params = 3"
  by (simp_all add: demo_params_def)

lemma demo_secret: "secret_ok demo_secret" "sec_params demo_secret = demo_params"
  using demo_good by (simp_all add: secret_ok_def demo_secret_def demo_dims)

lemma demo_gauss: "gauss_law demo_env 1048576"
proof -
  have "g mod 60 < 60" for g :: nat by simp
  then have "fst (gauss_sample demo_env 1048576 g) < 1048576 \<and> \<bar>centered (fst (gauss_sample demo_env 1048576 g)) 1048576\<bar> \<le> 65" for g
    by (auto simp: demo_env_def centered_def of_nat_diff less_le_trans dest: less_imp_le intro: order_trans)
  then show ?thesis by (simp add: gauss_law_def GAUSS_MAX_def)
qed

lemma demo_context: "\<exists>ctx. new_lift_context coefficient_engine (np_d demo_params) (np_q demo_params) = Inr ctx"
  using coefficient_engine_context by (simp add: demo_params_def)

theorem encrypt_selection_correct_witness:
  "\<exists>ws g'. encrypt_selection coefficient_engine demo_env demo_secret [[1, 2, 3, 4], [5, 6, 7, 8]] 5 0 = Inr (ws, g') \<and> length ws = 8
     \<and> near 1048576 65 65536 (int (ws ! 5)
         + int (schoolbook_negacyclic (tau_coeffs [5, 6, 7, 8] 7 1048576) [1, 0, 1048575, 1] 1048576 ! 1))"
proof -
  obtain ctx where "new_lift_context coefficient_engine (np_d demo_params) (np_q demo_params) = Inr ctx" using demo_context by blast
  then obtain ws g' where ws: "encrypt_selection coefficient_engine demo_env demo_secret [[1, 2, 3, 4], [5, 6, 7, 8]] 5 0 = Inr (ws, g')"
    "length ws = length [[1, 2, 3, 4], [5, 6, 7, 8 :: nat]] * np_d demo_params"
    "\<forall>block<length [[1, 2, 3, 4], [5, 6, 7, 8 :: nat]]. \<forall>i<np_d demo_params. near (np_q demo_params) 65
         (if block * np_d demo_params + i = 5 then int (np_q demo_params div np_p demo_params) else 0)
         (int (ws ! (block * np_d demo_params + i))
            + int (schoolbook_negacyclic (tau_coeffs ([[1, 2, 3, 4], [5, 6, 7, 8]] ! block) (2 * np_d demo_params - 1) (np_q demo_params)) (sec_coeffs demo_secret) (np_q demo_params) ! i))"
    using encrypt_selection_correct [OF coefficient_engine_laws _ _ demo_secret, of ctx demo_env "[[1, 2, 3, 4], [5, 6, 7, 8]]" 5 0] demo_gauss
    by (auto simp: demo_dims)
  have "near 1048576 65 65536 (int (ws ! 5)
         + int (schoolbook_negacyclic (tau_coeffs [5, 6, 7, 8] 7 1048576) [1, 0, 1048575, 1] 1048576 ! 1))"
    using ws(3) [rule_format, of 1 1] by (simp add: demo_dims demo_secret_def)
  then show ?thesis using ws(1,2) by (simp add: demo_dims)
qed

theorem generate_gives_keys_witness:
  "\<exists>keys g'. generate coefficient_engine demo_env (new_setup demo_env demo_params [7]) demo_secret 0 = Inr (keys, g')
     \<and> key_for demo_params [1, 0, 1048575, 1] 5 (ns_w (new_setup demo_env demo_params [7])) (nk_kg keys) 65"
proof -
  obtain ctx where "new_lift_context coefficient_engine (np_d demo_params) (np_q demo_params) = Inr ctx" using demo_context by blast
  from generate_gives_keys [OF coefficient_engine_laws this _ demo_secret(1) demo_good refl, of demo_env "[7]" 0] demo_gauss
  show ?thesis by (auto simp: demo_secret demo_dims) (auto simp: demo_secret_def)
qed

theorem key_words_roundtrip_witness:
  "\<exists>keys. from_words (new_setup demo_env demo_params [7]) [0..<24] = Inr keys \<and> key_words keys = [0..<24]"
proof -
  note st = new_setup_ok [OF demo_good, of demo_env "[7]"]
  have "all_below 1048576 [0..<24]" by (simp add: all_below_set)
  then show ?thesis using key_words_roundtrip [OF st(1), of "[0..<24]"] by (auto simp: st(2) demo_dims)
qed

theorem ternary_coeff_uniform_witness:
  "card {v. v < 2 ^ 32 \<and> ternary_coeff (demo_env\<lparr>next_u32 := \<lambda>v. (v, v)\<rparr>) 1048576 v = Some (1048575, v)} = 1431655765"
  using ternary_coeff_uniform [of 1048576 demo_env 0 0 0 demo_env 1048575] by simp

end
