(* ===== verification/Automorph.thy ===== *)
theory Automorph
  imports Ring_Fft
begin

text \<open>
  The exponents of the automorphisms that the packing chains apply: the powers of the generator
  \<open>5\<close> and of \<open>-1\<close> modulo \<open>2d\<close> (\<open>h\<close> and \<open>tau_g_pow\<close> of \<open>inspiring/src/automorph.rs\<close>) and their
  order in the collapse (\<open>collapse_kg_exponents\<close> of \<open>reinspiring/src/compile.rs\<close>). The lemmas show
  that together they enumerate every odd residue exactly once.
\<close>

section \<open>Model\<close>

definition G :: nat where
  "G = 5"

definition h :: "nat \<Rightarrow> nat" where
  "h d = 2 * u64 d - 1"

function tau_g_pow_loop :: "nat \<Rightarrow> nat \<Rightarrow> nat \<Rightarrow> nat \<Rightarrow> nat" where
  "tau_g_pow_loop modulus acc base expo =
     (if expo > 0 then
        tau_g_pow_loop modulus
          (if expo AND 1 = 1 then u64 (u128 (acc * base) mod modulus) else acc)
          (u64 (u128 (base * base) mod modulus)) (drop_bit 1 expo)
      else acc)"
  by pat_completeness auto
termination
  by (relation "measure (\<lambda>(m, a, b, e). e)") (auto simp: drop_bit_eq_div)

declare tau_g_pow_loop.simps [simp del]

definition tau_g_pow :: "nat \<Rightarrow> nat \<Rightarrow> nat" where
  "tau_g_pow j d = (let modulus = 2 * u64 d in tau_g_pow_loop modulus 1 (G mod modulus) j)"

definition collapse_kg_exponents :: "nat \<Rightarrow> nat list" where
  "collapse_kg_exponents d =
     (let half = d div 2 - 1; h_d = h d; two_d = 2 * u64 d;
          left = map (\<lambda>i. tau_g_pow i d) [0..<half];
          right = map (\<lambda>i. u64 (tau_g_pow i d * h_d) mod two_d) [0..<half]
      in rev left @ rev right)"

section \<open>Square and multiply\<close>

lemma pow_square_split: "(a ^ e :: nat) = (if odd e then a else 1) * (a * a) ^ (e div 2)"
proof -
  have "a ^ e = a ^ (e mod 2 + 2 * (e div 2))" by simp
  also have "\<dots> = a ^ (e mod 2) * (a * a) ^ (e div 2)"
    by (simp only: power_add power_mult power2_eq_square)
  finally show ?thesis by (cases "odd e") (simp_all add: odd_iff_mod_2_eq_one)
qed

lemma tau_g_pow_loop_ok:
  assumes "0 < m" "m \<le> 2 ^ 63"
  shows "acc < m \<Longrightarrow> base < m \<Longrightarrow> tau_g_pow_loop m acc base e = (acc * base ^ e) mod m"
proof (induction e arbitrary: acc base rule: less_induct)
  case (less e)
  show ?case
  proof (cases "e > 0")
    case False
    then show ?thesis using less.prems by (simp add: tau_g_pow_loop.simps)
  next
    case True
    let ?acc = "if e AND 1 = 1 then u64 (u128 (acc * base) mod m) else acc"
    let ?base = "u64 (u128 (base * base) mod m)"
    have small: "u64 (u128 (x * y) mod m) = x * y mod m" if "x < m" "y < m" for x y
    proof -
      have "x * y < m * m" using that by (intro mult_strict_mono) auto
      also have "\<dots> \<le> 2 ^ 63 * 2 ^ 63" using assms(2) by (intro mult_le_mono)
      finally have "u128 (x * y) = x * y" by (intro u128_id) simp
      moreover have "x * y mod m < 2 ^ 64" using mod_less_divisor [OF assms(1), of "x * y"] assms(2) by simp
      ultimately show ?thesis by (simp add: u64_id)
    qed
    have b: "?base = base * base mod m" and lb: "?base < m" using small less.prems assms(1) by simp_all
    have la: "?acc < m" using small less.prems assms(1) by simp
    have a: "?acc = (acc * (if odd e then base else 1)) mod m"
      using small [OF less.prems] less.prems(1) by (simp add: and_one_eq odd_iff_mod_2_eq_one)
    have "tau_g_pow_loop m acc base e = tau_g_pow_loop m ?acc ?base (drop_bit 1 e)"
      using True by (subst tau_g_pow_loop.simps) simp
    also have "\<dots> = (?acc * ?base ^ drop_bit 1 e) mod m" 
      using True la lb by (intro less.IH) (simp_all add: drop_bit_eq_div)
    also have "\<dots> = (acc * (if odd e then base else 1)) * (base * base) ^ (e div 2) mod m"
      unfolding a b by (simp add: drop_bit_eq_div mod_mult_eq power_mod mod_mult_left_eq mod_mult_right_eq)
         (metis mod_mult_right_eq power_mod)
    also have "\<dots> = acc * base ^ e mod m" by (subst (2) pow_square_split) (simp add: ac_simps)
    finally show ?thesis .
  qed
qed

lemma tau_g_pow_ok:
  assumes "0 < d" "d \<le> 2 ^ 62"
  shows "tau_g_pow j d = 5 ^ j mod (2 * d)"
proof -
  have d: "u64 d = d" using assms by (simp add: u64_id)
  have "tau_g_pow j d = (1 * (5 mod (2 * d)) ^ j) mod (2 * d)"
    unfolding tau_g_pow_def Let_def G_def d using assms by (intro tau_g_pow_loop_ok) auto
  then show ?thesis by (simp add: power_mod)
qed

section \<open>The generator has order half the degree\<close>

lemma pow5_square: "\<exists>u. odd u \<and> (5::int) ^ (2 ^ j) = 1 + 2 ^ (j + 2) * u"
proof (induction j)
  case 0
  show ?case by (rule exI [of _ 1]) simp
next
  case (Suc j)
  then obtain u where u: "odd u" "(5::int) ^ (2 ^ j) = 1 + 2 ^ (j + 2) * u" by blast
  have "(5::int) ^ (2 ^ Suc j) = (5 ^ (2 ^ j)) ^ 2" by (simp add: power_mult [symmetric] mult.commute)
  also have "\<dots> = 1 + 2 ^ (Suc j + 2) * (u + 2 ^ (j + 1) * (u * u))"
    by (simp add: u(2) power2_eq_square algebra_simps power_add)
  finally show ?case using u(1) by (intro exI [of _ "u + 2 ^ (j + 1) * (u * u)"]) simp
qed

lemma binomial_first_order:
  fixes A u :: int
  assumes "even A"
  shows "2 * A dvd (1 + A * u) ^ m - 1 - int m * A * u"
proof (induction m)
  case (Suc m)
  let ?x = "(1 + A * u) ^ m - 1 - int m * A * u"
  have "(1 + A * u) ^ Suc m - 1 - int (Suc m) * A * u = ?x * (1 + A * u) + A * A * (int m * u * u)"
    by (simp add: algebra_simps)
  moreover have "2 * A dvd A * A * (int m * u * u)" using assms by (intro dvd_mult2 mult_dvd_mono) auto
  ultimately show ?case using Suc by (metis dvd_add dvd_mult2)
qed simp

lemma pow5_order: "2 ^ (k + 2) dvd (5::int) ^ n - 1 \<Longrightarrow> 2 ^ k dvd n"
proof (induction k)
  case (Suc k)
  have "2 ^ (k + 2) dvd (5::int) ^ n - 1"
    using Suc.prems by (rule dvd_trans [rotated]) (intro le_imp_power_dvd, simp)
  then obtain m where m: "n = 2 ^ k * m" using Suc.IH by (auto elim: dvdE)
  obtain u :: int where u: "odd u" "5 ^ (2 ^ k) = 1 + 2 ^ (k + 2) * u" using pow5_square by blast
  have pow: "(5::int) ^ n = (1 + 2 ^ (k + 2) * u) ^ m" by (simp only: m power_mult u(2))
  have "2 * 2 ^ (k + 2) dvd (1 + 2 ^ (k + 2) * u) ^ m - 1 - int m * 2 ^ (k + 2) * u"
    by (rule binomial_first_order) simp
  moreover have "2 * 2 ^ (k + 2) dvd (1 + 2 ^ (k + 2) * u) ^ m - 1" using Suc.prems unfolding pow by simp
  ultimately have "2 * 2 ^ (k + 2) dvd int m * 2 ^ (k + 2) * u"
    by (metis dvd_diff_commute dvd_diff diff_diff_eq2 diff_add_cancel add_diff_cancel_left')
  then have "2 ^ (k + 2) * 2 dvd 2 ^ (k + 2) * (int m * u)" by (simp only: ac_simps)
  then have "2 dvd int m * u" by (subst (asm) dvd_times_left_cancel_iff) simp_all
  then have "2 dvd m" using u(1) by (simp add: even_mult_iff)
  then show ?case unfolding m power_Suc2 by (intro mult_dvd_mono dvd_refl)
qed simp

text \<open>The exponents of the mask slots: powers of \<open>5\<close>, then their negatives.\<close>

definition slot_exponents :: "nat \<Rightarrow> nat list" where
  "slot_exponents d =
     map (\<lambda>i. 5 ^ i mod (2 * d)) [0..<d div 2] @ map (\<lambda>i. 2 * d - 5 ^ i mod (2 * d)) [0..<d div 2]"

lemma pow5_inj:
  assumes d: "d = 2 ^ Suc l" and "i < d div 2" and "j < d div 2" and eq: "5 ^ i mod (2 * d) = 5 ^ j mod (2 * d :: nat)"
  shows "i = j"
proof -
  have le: "i = j" if "i \<le> j" "j < d div 2" "5 ^ i mod (2 * d) = 5 ^ j mod (2 * d :: nat)" for i j
  proof -
    have "int (5 ^ j mod (2 * d)) = int (5 ^ i mod (2 * d))" using that(3) by simp
    then have "int (2 * d) dvd 5 ^ j - 5 ^ i"
      by (simp add: zmod_int mod_eq_dvd_iff)
    also have "(5::int) ^ j - 5 ^ i = 5 ^ i * (5 ^ (j - i) - 1)"
      using that(1) by (simp add: algebra_simps power_add [symmetric])
    finally have "2 ^ (l + 2) dvd (5::int) ^ i * (5 ^ (j - i) - 1)" by (simp add: d)
    moreover have "coprime ((2::int) ^ (l + 2)) (5 ^ i)"
      by (simp only: coprime_power_left_iff coprime_power_right_iff coprime_left_2_iff_odd) simp
    ultimately have "2 ^ (l + 2) dvd (5::int) ^ (j - i) - 1" by (simp only: coprime_dvd_mult_right_iff)
    then have "2 ^ l dvd j - i" by (rule pow5_order)
    moreover have "j - i < 2 ^ l" using that(2) by (simp add: d)
    ultimately have "j - i = 0" by (metis dvd_imp_le not_less neq0_conv)
    with that(1) show ?thesis by simp
  qed
  show ?thesis
    using le [of i j] le [of j i] assms by (cases "i \<le> j") simp_all
qed

lemma pow5_mod4: "4 dvd m \<Longrightarrow> (5 ^ i mod m) mod 4 = (1::nat)"
proof -
  assume "4 dvd m"
  then have "(5 ^ i mod m) mod 4 = (5 mod 4) ^ i mod (4::nat)" by (simp only: mod_mod_cancel power_mod)
  then show ?thesis by simp
qed

lemma slot_exponents_perm:
  assumes d: "d = 2 ^ Suc l"
  shows "distinct (slot_exponents d)" and "set (slot_exponents d) = {g. odd g \<and> g < 2 * d}" and "length (slot_exponents d) = d"
proof -
  have four: "4 dvd 2 * d" by (simp add: d)
  have one: "(5 ^ i mod (2 * d)) mod 4 = 1" for i using pow5_mod4 [OF four] .
  have pos: "0 < 5 ^ i mod (2 * d)" for i using one [of i] by (cases "5 ^ i mod (2 * d)") simp_all
  have less: "5 ^ i mod (2 * d) < 2 * d" for i by (simp add: d)
  have three: "(2 * d - 5 ^ i mod (2 * d)) mod 4 = 3" for i
  proof -
    have ar: "(m - x) mod 4 = 3" if m: "4 dvd m" and x: "x < m" "x mod 4 = 1" for m x :: nat
    proof -
      obtain k where k: "m = 4 * k" using m ..
      obtain j where j: "x = 4 * j + 1" using x(2) by (metis mult.commute div_mult_mod_eq)
      have "m - x = 4 * (k - j - 1) + 3" using x(1) unfolding k j by simp
      then show ?thesis by simp
    qed
    show ?thesis using four less one by (rule ar)
  qed
  have odds: "odd x" if "x mod 4 = 1 \<or> x mod 4 = 3" for x :: nat using that by presburger
  have inj1: "inj_on (\<lambda>i. 5 ^ i mod (2 * d)) {..<d div 2}"
    using pow5_inj [OF d] by (auto intro: inj_onI)
  have inj2: "inj_on (\<lambda>i. 2 * d - 5 ^ i mod (2 * d)) {..<d div 2}"
  proof (rule inj_onI)
    fix i j assume ij: "i \<in> {..<d div 2}" "j \<in> {..<d div 2}" "2 * d - 5 ^ i mod (2 * d) = 2 * d - 5 ^ j mod (2 * d)"
    then have "5 ^ i mod (2 * d) = 5 ^ j mod (2 * d)" using less [of i] less [of j] by linarith
    then show "i = j" using ij pow5_inj [OF d] by simp
  qed
  have disj: "5 ^ i mod (2 * d) \<noteq> 2 * d - 5 ^ j mod (2 * d)" for i j
  proof
    assume "5 ^ i mod (2 * d) = 2 * d - 5 ^ j mod (2 * d)"
    then have "(1::nat) = 3" using one [of i] three [of j] by (simp only:)
    then show False by simp
  qed
  show dist: "distinct (slot_exponents d)"
    using inj1 inj2 disj by (auto simp: slot_exponents_def distinct_map atLeast0LessThan)
  show len: "length (slot_exponents d) = d" by (simp add: slot_exponents_def d)
  have sub: "set (slot_exponents d) \<subseteq> {g. odd g \<and> g < 2 * d}"
    using odds [OF disjI1 [OF one]] odds [OF disjI2 [OF three]] less pos
    by (auto simp: slot_exponents_def)
  have odds_eq: "{g. odd g \<and> g < 2 * d} = (\<lambda>t. 2 * t + 1) ` {..<d}"
    by (auto elim!: oddE)
  have "card {g. odd g \<and> g < 2 * d} = d"
    unfolding odds_eq by (subst card_image) (auto intro: inj_onI)
  then show "set (slot_exponents d) = {g. odd g \<and> g < 2 * d}"
    using sub dist len by (intro card_subset_eq) (simp_all add: distinct_card)
qed

lemma sum_slot_exponents:
  fixes F :: "nat \<Rightarrow> int"
  assumes "d = 2 ^ Suc l"
  shows "(\<Sum>t<d. F (2 * t + 1)) = (\<Sum>g\<leftarrow>slot_exponents d. F g)"
proof -
  have "{g. odd g \<and> g < 2 * d} = (\<lambda>t. 2 * t + 1) ` {..<d}" by (auto elim!: oddE)
  then have "(\<Sum>t<d. F (2 * t + 1)) = (\<Sum>g | odd g \<and> g < 2 * d. F g)"
    by (simp add: sum.reindex inj_on_def)
  also have "\<dots> = (\<Sum>g\<leftarrow>slot_exponents d. F g)"
    using slot_exponents_perm [OF assms] by (simp add: sum_list_distinct_conv_sum_set)
  finally show ?thesis .
qed

lemma neg_mod: "0 < x mod m \<Longrightarrow> 0 < m \<Longrightarrow> (x mod m * (m - 1)) mod m = m - x mod m" for x m :: nat
proof -
  assume h: "0 < x mod m" "0 < m"
  have "x mod m < m" using h by simp
  with h have "x mod m * (m - 1) = (x mod m - 1) * m + (m - x mod m)"
    by (cases "x mod m") (simp_all add: algebra_simps diff_mult_distrib2)
  then have "(x mod m * (m - 1)) mod m = (m - x mod m) mod m" by (simp only: mod_mult_self3)
  then show ?thesis using h by simp
qed

lemma collapse_kg_exponents_eq:
  assumes d: "d = 2 ^ Suc l" and "d \<le> 4096"
  shows "collapse_kg_exponents d = rev (butlast (take (d div 2) (slot_exponents d))) @ rev (butlast (drop (d div 2) (slot_exponents d)))"
proof -
  have bl: "butlast (map f [0..<n]) = map f [0..<n - 1]" for f :: "nat \<Rightarrow> nat" and n
    by (cases n) (simp_all add: butlast_append)
  have u: "u64 d = d" "h d = 2 * d - 1" using assms(2) by (simp_all add: u64_id h_def)
  have tau: "tau_g_pow i d = 5 ^ i mod (2 * d)" for i using assms by (intro tau_g_pow_ok) simp_all
  have pos: "0 < 5 ^ i mod (2 * d)" for i
    using pow5_mod4 [of "2 * d" i] by (cases "5 ^ i mod (2 * d)") (simp_all add: d)
  have neg: "u64 (5 ^ i mod (2 * d) * (2 * d - 1)) mod (2 * d) = 2 * d - 5 ^ i mod (2 * d)" for i
  proof -
    have "5 ^ i mod (2 * d) * (2 * d - 1) \<le> 8192 * 8192" using assms
      by (intro mult_le_mono) (auto intro: order_trans [OF less_imp_le [OF mod_less_divisor]])
    then have "u64 (5 ^ i mod (2 * d) * (2 * d - 1)) = 5 ^ i mod (2 * d) * (2 * d - 1)" by (intro u64_id) simp
    then show ?thesis using neg_mod [OF pos] d by simp
  qed
  have "take (d div 2) (slot_exponents d) = map (\<lambda>i. 5 ^ i mod (2 * d)) [0..<d div 2]"
    "drop (d div 2) (slot_exponents d) = map (\<lambda>i. 2 * d - 5 ^ i mod (2 * d)) [0..<d div 2]"
    by (simp_all add: slot_exponents_def)
  then show ?thesis by (simp only: collapse_kg_exponents_def Let_def u tau neg bl)
qed

section \<open>Properties\<close>

text \<open>The exponents of the two collapse chains, last step first, are the powers of five and their
  negatives without the last of each half, and the slots those halves come from run through every
  odd residue modulo \<open>2d\<close> exactly once, so no automorphism is dropped or counted twice.\<close>

theorem collapse_exponents:
  assumes "is_power_of_two d" and "2 \<le> d" and "d \<le> 4096"
  shows "collapse_kg_exponents d = rev (butlast (take (d div 2) (slot_exponents d))) @ rev (butlast (drop (d div 2) (slot_exponents d)))
    \<and> distinct (slot_exponents d) \<and> set (slot_exponents d) = {g. odd g \<and> g < 2 * d}"
proof -
  obtain k where "d = 2 ^ k" using assms(1) by (auto simp: is_power_of_two_iff)
  then obtain l where "d = 2 ^ Suc l" using assms(2) by (cases k) auto
  then show ?thesis using collapse_kg_exponents_eq slot_exponents_perm assms(3) by simp
qed

theorem collapse_exponents_witness:
  "collapse_kg_exponents 8 = [9, 5, 1, 7, 11, 15] \<and> set (slot_exponents 8) = {g. odd g \<and> g < 16}"
proof -
  have "is_power_of_two 8" unfolding is_power_of_two_iff by (rule exI [of _ 3]) simp
  then have "collapse_kg_exponents 8 = rev (butlast (take (8 div 2) (slot_exponents 8))) @ rev (butlast (drop (8 div 2) (slot_exponents 8)))
    \<and> distinct (slot_exponents 8) \<and> set (slot_exponents 8) = {g. odd g \<and> g < 2 * 8}"
    by (intro collapse_exponents) simp_all
  moreover have "slot_exponents 8 = [1, 5, 9, 13, 15, 11, 7, 3]" by code_simp
  ultimately show ?thesis by simp
qed

end
