(* ===== verification/Native_Aggregate.thy ===== *)
theory Native_Aggregate
  imports Automorph Native_Params
begin

text \<open>
  Aggregation of the LWE masks (\<open>aggregate_masks\<close>, \<open>bit_reverse_rows\<close> and
  \<open>integer_ring_fft_wide\<close> of \<open>reinspiring/src/native.rs\<close>): a ring FFT over the integers whose
  first stages run in 64-bit words while the public bound of their values fits and whose
  remaining stages run in 128-bit words, followed by the exact floor division by the degree. The
  transform is the one of the fast compiler, instantiated at exact integers.
\<close>

section \<open>Model\<close>

definition mask_coeff :: "nat list list \<Rightarrow> nat \<Rightarrow> nat \<Rightarrow> int" where
  "mask_coeff masks k j =
     (if k = 0 then i64 (int (masks ! j ! 0)) else - i64 (int (masks ! j ! (length masks - k))))"

definition mask_polys :: "nat list list \<Rightarrow> int list list" where
  "mask_polys masks =
     (let d = length masks
      in map (\<lambda>k. fold (\<lambda>j poly. let c = mask_coeff masks k j
            in poly[(j + k) AND (d - 1) := (if j + k \<ge> d then - c else c)]) [0..<d] (replicate d 0)) [0..<d])"

text \<open>The loops over \<open>u[..rot]\<close> and \<open>u[rot..]\<close> of one butterfly.\<close>

definition int_butterfly :: "(int \<Rightarrow> int) \<Rightarrow> nat \<Rightarrow> nat \<Rightarrow> int list \<Rightarrow> int list \<Rightarrow> int list \<times> int list" where
  "int_butterfly cast d rot u v =
     (let t = (\<lambda>i. if i < rot then v ! (d - rot + i) else v ! (i - rot))
      in (map (\<lambda>i. cast (if i < rot then u ! i - t i else u ! i + t i)) [0..<d],
          map (\<lambda>i. cast (if i < rot then u ! i + t i else u ! i - t i)) [0..<d]))"

function narrow_stages :: "nat \<Rightarrow> nat \<Rightarrow> nat \<Rightarrow> int list list \<Rightarrow> nat \<times> int list list" where
  "narrow_stages q d len polys =
     (if 0 < len \<and> len \<le> d \<and> u128 (len * (q - 1)) \<le> 2 ^ 63 - 1
      then narrow_stages q d (len * 2) (fft_stage (int_butterfly i64 d) d len polys) else (len, polys))"
  by pat_completeness auto
termination
  by (relation "measure (\<lambda>(q, d, len, a). d + 1 - len)") auto

declare narrow_stages.simps [simp del]

definition integer_ring_fft_wide :: "int list list \<Rightarrow> nat \<Rightarrow> int list list" where
  "integer_ring_fft_wide a len = (let d = length a in fft_stages (int_butterfly i128 d) d len a)"

definition aggregate_masks :: "nat list list \<Rightarrow> nat \<Rightarrow> nat list list" where
  "aggregate_masks masks q =
     (let d = length masks; polys = bit_reverse (mask_polys masks);
          (len, polys') = narrow_stages q d 2 polys; shift = trailing_zeros d;
          final = (if len > d then polys' else integer_ring_fft_wide polys' len)
      in map (map (\<lambda>x. as_u64 (drop_bit shift x) AND (q - 1))) final)"

section \<open>Integer polynomials as antiperiodic functions\<close>

lemma antiper_eq:
  assumes "antiper d f" and "antiper d g" and "0 < d" and "\<And>k. k < d \<Longrightarrow> f (int k) = g (int k)"
  shows "f k = g k"
  using antiper_eqm [OF assms(1-3), of 0 k] assms(4) by simp

lemma iext_eq:
  assumes "0 < length p" and "antiper (length p) f" and "\<And>k. k < length p \<Longrightarrow> p ! k = f (int k)"
  shows "iext p k = f k"
  using iext_eqm [of p f 0 k] assms by simp

lemma iext_before:
  assumes "i < length p" and "e \<le> length p"
  shows "iext p (int i - int e) = (if i < e then - (p ! (length p - e + i)) else p ! (i - e))"
proof (cases "i < e")
  case True
  have pos: "0 < length p" using assms(1) by (cases p) simp_all
  have "iext p (int i - int e) = - iext p (int i - int e + int (length p))"
    using antiperD [OF iext_antiper [OF pos], of "int i - int e"] by simp
  also have "int i - int e + int (length p) = int (length p - e + i)" using assms True by (simp add: of_nat_diff)
  also have "iext p (int (length p - e + i)) = p ! (length p - e + i)" using assms True by (intro iext_nth) simp
  finally show ?thesis using True by simp
next
  case False
  then have "int i - int e = int (i - e)" by (simp add: of_nat_diff)
  also have "iext p (int (i - e)) = p ! (i - e)" using assms by (intro iext_nth) simp
  finally show ?thesis using False by simp
qed

section \<open>The integer butterflies meet the contract\<close>

text \<open>The number of stages whose values provably stay within \<open>M\<close>.\<close>

definition capacity :: "int \<Rightarrow> int \<Rightarrow> nat" where
  "capacity M B = length (takeWhile (\<lambda>s. 2 ^ Suc s * B \<le> M) [0..<64])"

lemma capacity: "s < capacity M B \<Longrightarrow> 2 ^ Suc s * B \<le> M"
proof -
  assume s: "s < capacity M B"
  then have "takeWhile (\<lambda>s. 2 ^ Suc s * B \<le> M) [0..<64] ! s \<in> set (takeWhile (\<lambda>s. 2 ^ Suc s * B \<le> M) [0..<64])"
    by (simp add: capacity_def)
  moreover have "takeWhile (\<lambda>s. 2 ^ Suc s * B \<le> M) [0..<64] ! s = s"
    using s takeWhile_nth [of s "\<lambda>s. 2 ^ Suc s * B \<le> M" "[0..<64]"] length_takeWhile_le [of "\<lambda>s. 2 ^ Suc s * B \<le> M" "[0..<64]"]
    by (simp add: capacity_def)
  ultimately show ?thesis by (auto dest: set_takeWhileD)
qed

definition cell_ok :: "nat \<Rightarrow> int \<Rightarrow> nat \<Rightarrow> int list \<Rightarrow> bool" where
  "cell_ok d B s p \<longleftrightarrow> length p = d \<and> (\<forall>i<d. \<bar>p ! i\<bar> \<le> 2 ^ s * B)"

lemma int_butterfly_contract:
  assumes cast: "\<And>x. \<bar>x\<bar> \<le> M \<Longrightarrow> cast x = x"
  shows "ring_butterfly 0 L (capacity M B) (cell_ok (2 ^ L) B) iext (int_butterfly cast (2 ^ L))"
proof
  let ?d = "2 ^ L :: nat"
  fix s e :: nat and u v :: "int list" and x :: int
  assume s: "s < capacity M B" and e: "e < ?d" and u: "cell_ok ?d B s u" and v: "cell_ok ?d B s v"
  have len: "length u = ?d" "length v = ?d" using u v by (simp_all add: cell_ok_def)
  define t where "t = (\<lambda>i. if i < e then v ! (?d - e + i) else v ! (i - e))"
  have t: "iext v (int i - int e) = (if i < e then - t i else t i)" if "i < ?d" for i
    using that e len(2) iext_before [of i v e] by (simp add: t_def)
  have tb: "\<bar>t i\<bar> \<le> 2 ^ s * B" if "i < ?d" for i
    using v that e by (auto simp: t_def cell_ok_def)
  have ub: "\<bar>u ! i\<bar> \<le> 2 ^ s * B" if "i < ?d" for i using u that by (simp add: cell_ok_def)
  have two: "2 ^ Suc s * B \<le> M" by (rule capacity [OF s])
  have bound: "\<bar>u ! i + t i\<bar> \<le> 2 ^ Suc s * B" "\<bar>u ! i - t i\<bar> \<le> 2 ^ Suc s * B" if "i < ?d" for i
    using tb [OF that] ub [OF that] by simp_all
  then have cs: "cast (u ! i + t i) = u ! i + t i" "cast (u ! i - t i) = u ! i - t i" if "i < ?d" for i
    using two that by (auto intro!: cast intro: order_trans)
  have code: "int_butterfly cast ?d e u v =
      (map (\<lambda>i. u ! i + iext v (int i - int e)) [0..<?d], map (\<lambda>i. u ! i - iext v (int i - int e)) [0..<?d])"
    unfolding int_butterfly_def Let_def t_def [symmetric] using cs by (simp add: t)
  show "cell_ok ?d B (Suc s) (fst (int_butterfly cast ?d e u v)) \<and> cell_ok ?d B (Suc s) (snd (int_butterfly cast ?d e u v))"
    unfolding code using bound by (auto simp: cell_ok_def t)
  have anti: "antiper ?d (iext u)" "antiper ?d (\<lambda>x. iext v (x - int e))"
    using iext_antiper [of u] iext_antiper [of v] len by (auto intro: antiper_shift)
  show "eqm 0 (iext (fst (int_butterfly cast ?d e u v)) x) (iext u x + iext v (x - int e))"
    "eqm 0 (iext (snd (int_butterfly cast ?d e u v)) x) (iext u x - iext v (x - int e))"
    unfolding code eqm_0 fst_conv snd_conv using anti len
    by (intro iext_eq; simp add: antiper_add antiper_diff iext_nth)+
qed

interpretation narrow_fft: ring_butterfly 0 L "capacity (2 ^ 63 - 1) B" "cell_ok (2 ^ L) B" iext "int_butterfly i64 (2 ^ L)" for L B
  by (rule int_butterfly_contract) (simp add: i64_id abs_le_iff)

interpretation wide_fft: ring_butterfly 0 L "capacity (2 ^ 127 - 1) B" "cell_ok (2 ^ L) B" iext "int_butterfly i128 (2 ^ L)" for L B
  by (rule int_butterfly_contract) (simp add: i128_id abs_le_iff)

section \<open>The integer transform\<close>

text \<open>Writing each cell of a list once.\<close>

lemma fold_write:
  assumes "inj_on f {..<n}" and "\<And>j. j < n \<Longrightarrow> f j < length p"
  shows "length (fold (\<lambda>j p. p[f j := g j]) [0..<n] p) = length p
    \<and> (\<forall>j<n. fold (\<lambda>j p. p[f j := g j]) [0..<n] p ! f j = g j)"
  using assms
proof (induction n)
  case (Suc n)
  have "inj_on f {..<n}" using Suc.prems(1) by (rule inj_on_subset) auto
  with Suc have IH: "length (fold (\<lambda>j p. p[f j := g j]) [0..<n] p) = length p"
    "\<forall>j<n. fold (\<lambda>j p. p[f j := g j]) [0..<n] p ! f j = g j" by auto
  have "f n \<noteq> f j" if "j < n" for j using inj_onD [OF Suc.prems(1), of n j] that by auto
  then show ?case using IH Suc.prems(2) [of n] by (auto simp: less_Suc_eq nth_list_update)
qed simp

lemma mask_polys_ok:
  assumes "d = 2 ^ L" and "length masks = d" and "\<forall>row\<in>set masks. length row = d \<and> all_below q row" and "q \<le> 2 ^ 56" and k: "k < d"
  defines "c \<equiv> \<lambda>j. if k = 0 then int (masks ! j ! 0) else - int (masks ! j ! (d - k))"
  shows "length (mask_polys masks) = d" and "length (mask_polys masks ! k) = d"
    and "i < d \<Longrightarrow> \<bar>mask_polys masks ! k ! i\<bar> \<le> int (q - 1)"
    and "iext (mask_polys masks ! k) x = (\<Sum>j<d. c j * delta d (x - int j - int k))"
proof -
  have d: "0 < d" using k by simp
  have entry: "masks ! j ! t < q" if "j < d" "t < d" for j t
    using assms(2,3) that by (auto intro: all_below_nth)
  have cj: "mask_coeff masks k j = c j" if "j < d" for j
  proof -
    have "i64 (int (masks ! j ! t)) = int (masks ! j ! t)" if "t < d" for t
      using entry [OF \<open>j < d\<close> that] assms(4) by (intro i64_id) simp_all
    then show ?thesis using k d assms(2) by (simp add: mask_coeff_def c_def)
  qed
  have cb: "\<bar>c j\<bar> \<le> int (q - 1)" if "j < d" for j
    using entry [OF that, of 0] entry [OF that, of "d - k"] k by (auto simp: c_def)
  let ?f = "\<lambda>j. (j + k) AND (d - 1)" and ?g = "\<lambda>j. if j + k \<ge> d then - c j else c j"
  have f: "?f j = (if j + k \<ge> d then j + k - d else j + k)" if "j < d" for j
    unfolding assms(1) and_exp_minus_1 using that k assms(1) by (auto simp: le_mod_geq)
  have inj: "inj_on ?f {..<d}" 
  proof (rule inj_onI)
    fix x y assume "x \<in> {..<d}" "y \<in> {..<d}" "?f x = ?f y"
    then show "x = y" using f [of x] f [of y] k by (simp only: lessThan_iff) (auto split: if_splits)
  qed
  have fl: "?f j < length (replicate d 0)" if "j < d" for j using f [OF that] that k by auto
  have row: "mask_polys masks ! k = fold (\<lambda>j p. p[?f j := ?g j]) [0..<d] (replicate d 0)"
    using k assms(2) cj by (simp add: mask_polys_def Let_def) (intro fold_cong, simp_all)
  show "length (mask_polys masks) = d" using assms(2) by (simp add: mask_polys_def Let_def)
  note W = fold_write [OF inj fl, where g = ?g, folded row]
  show len: "length (mask_polys masks ! k) = d" using W by simp
  have W2: "mask_polys masks ! k ! ?f j = ?g j" if "j < d" for j using W that by blast
  have at: "mask_polys masks ! k ! i = (if k \<le> i then c (i - k) else - c (i + d - k))" if i: "i < d" for i
  proof (cases "k \<le> i")
    case True
    then have "?f (i - k) = i" "i - k < d" "\<not> i - k + k \<ge> d" using f [of "i - k"] i by auto
    then show ?thesis using W2 [of "i - k"] True by (simp only: if_True if_False)
  next
    case False
    then have "?f (i + d - k) = i" "i + d - k < d" "i + d - k + k \<ge> d" using f [of "i + d - k"] i k by auto
    then show ?thesis using W2 [of "i + d - k"] False by (simp only: if_True if_False)
  qed
  show "\<bar>mask_polys masks ! k ! i\<bar> \<le> int (q - 1)" if "i < d"
    using at [OF that] cb k that by auto
  show "iext (mask_polys masks ! k) x = (\<Sum>j<d. c j * delta d (x - int j - int k))"
  proof (rule iext_eq)
    show "0 < length (mask_polys masks ! k)" using len d by simp
    show "antiper (length (mask_polys masks ! k)) (\<lambda>x. \<Sum>j<d. c j * delta d (x - int j - int k))"
      unfolding len using antiper_shift [OF delta_antiper [OF d]]
      by (intro antiper_sum antiper_cmult) (simp add: diff_diff_eq)
    fix i assume "i < length (mask_polys masks ! k)"
    then have i: "i < d" by (simp add: len)
    have "c j * delta d (int i - int j - int k) = (if j = (if k \<le> i then i - k else i + d - k) then if k \<le> i then c j else - c j else 0)"
      if j: "j < d" for j
    proof (cases "k \<le> i")
      case True
      have "delta d (int i - int j - int k) = (if j = i - k then 1 else 0)"
        using delta_small [of "int i - int j - int k" d] True i j by (auto simp: of_nat_diff)
      then show ?thesis using True by simp
    next
      case False
      have "delta d (int i - int j - int k) = - delta d (int i - int j - int k + int d)"
        using antiperD [OF delta_antiper [OF d], of "int i - int j - int k"] by simp
      also have "delta d (int i - int j - int k + int d) = (if j = i + d - k then 1 else 0)"
        using delta_small [of "int i - int j - int k + int d" d] False i j k by (auto simp: of_nat_diff)
      finally show ?thesis using False by simp
    qed
    then have "(\<Sum>j<d. c j * delta d (int i - int j - int k))
        = (\<Sum>j<d. if j = (if k \<le> i then i - k else i + d - k) then if k \<le> i then c j else - c j else 0)"
      by (intro sum.cong) simp_all
    also have "\<dots> = mask_polys masks ! k ! i" using at [OF i] i k by auto
    finally show "mask_polys masks ! k ! i = (\<Sum>j<d. c j * delta d (int i - int j - int k))" by simp
  qed
qed

text \<open>The exact aggregate: coefficient \<open>x\<close> of the sum of \<open>X\<^sup>j\<close> times the automorphism \<open>2 t + 1\<close> of the polynomial
  whose product with a secret has the inner product with mask row \<open>j\<close> as its constant term.\<close>

definition row_poly :: "nat list \<Rightarrow> nat \<Rightarrow> int" where
  "row_poly row k = (if k = 0 then int (row ! 0) else - int (row ! (length row - k)))"

definition agg_sum :: "nat list list \<Rightarrow> nat \<Rightarrow> int \<Rightarrow> int" where
  "agg_sum masks g x =
     (let d = length masks in \<Sum>j<d. \<Sum>k<d. row_poly (masks ! j) k * delta d (x - int j - int k * int g))"

lemma capacityI: "2 ^ Suc s * B \<le> M \<Longrightarrow> s < 64 \<Longrightarrow> 0 \<le> B \<Longrightarrow> s < capacity M B"
proof (rule ccontr)
  assume h: "2 ^ Suc s * B \<le> M" "s < 64" "0 \<le> B" and "\<not> s < capacity M B"
  then have c: "capacity M B \<le> s" by simp
  then have "capacity M B < length [0..<64]" using h by simp
  then have "\<not> 2 ^ Suc ([0..<64] ! capacity M B) * B \<le> M"
    unfolding capacity_def by (rule nth_length_takeWhile)
  then have "\<not> 2 ^ Suc (capacity M B) * B \<le> M" using c h by simp
  moreover have "2 ^ Suc (capacity M B) * B \<le> 2 ^ Suc s * B"
    using c h(3) by (intro mult_right_mono power_increasing) simp_all
  ultimately show False using h(1) by linarith
qed

lemma narrow_stages_ok:
  assumes orig: "\<And>i. i < 2 ^ L \<Longrightarrow> antiper (2 ^ L) (orig i)"
    and "1 \<le> q" and "q \<le> 2 ^ 56" and "L \<le> 12"
    and "ring_butterfly.stage_ok 0 L (cell_ok (2 ^ L) (int (q - 1))) iext orig s a" and "s \<le> L"
  shows "\<exists>s' a'. narrow_stages q (2 ^ L) (2 ^ Suc s) a = (2 ^ Suc s', a') \<and> s' \<le> L
    \<and> ring_butterfly.stage_ok 0 L (cell_ok (2 ^ L) (int (q - 1))) iext orig s' a'"
  using assms(5,6)
proof (induction "L - s" arbitrary: s a)
  case 0
  then have "narrow_stages q (2 ^ L) (2 ^ Suc s) a = (2 ^ Suc s, a)" by (subst narrow_stages.simps) simp
  then show ?case using 0 by blast
next
  case (Suc m)
  show ?case
  proof (cases "u128 (2 ^ Suc s * (q - 1)) \<le> 2 ^ 63 - 1")
    case False
    then have "narrow_stages q (2 ^ L) (2 ^ Suc s) a = (2 ^ Suc s, a)" by (subst narrow_stages.simps) simp
    then show ?thesis using Suc.prems by blast
  next
    case True
    have s: "s < L" using Suc.hyps(2) by simp
    have le: "(2::nat) ^ Suc s \<le> 2 ^ L" using s by (intro power_increasing) simp_all
    also have "\<dots> \<le> 2 ^ 12" using assms(4) by (intro power_increasing) simp_all
    finally have "(2::nat) ^ Suc s * (q - 1) \<le> 2 ^ 12 * 2 ^ 56" using assms(3) by (intro mult_le_mono) simp_all
    then have "u128 (2 ^ Suc s * (q - 1)) = 2 ^ Suc s * (q - 1)" by (intro u128_id) simp
    then have "2 ^ Suc s * (q - 1) \<le> 2 ^ 63 - 1" using True by simp
    then have "int (2 ^ Suc s * (q - 1)) \<le> int (2 ^ 63 - 1)" by (simp only: of_nat_le_iff)
    then have cap: "s < capacity (2 ^ 63 - 1) (int (q - 1))" using s assms(4) by (intro capacityI) simp_all
    have "narrow_stages q (2 ^ L) (2 ^ Suc s) a
        = narrow_stages q (2 ^ L) (2 ^ Suc (Suc s)) (fft_stage (int_butterfly i64 (2 ^ L)) (2 ^ L) (2 ^ Suc s) a)"
      using True le by (subst narrow_stages.simps) (simp add: mult.commute)
    moreover have "m = L - Suc s" "Suc s \<le> L" using Suc.hyps(2) by simp_all
    ultimately show ?thesis
      using Suc.hyps(1) [OF _ narrow_fft.stage_ok_step [OF orig Suc.prems(1) s cap]] by simp
  qed
qed

lemma aggregate_ok:
  assumes "d = 2 ^ L" and "L \<le> 12" and "length masks = d" and "\<forall>row\<in>set masks. length row = d \<and> all_below q row"
    and "is_power_of_two q" and "q \<le> 2 ^ 56"
  shows "aggregate_masks masks q
    = map (\<lambda>t. map (\<lambda>r. rem_euclid (agg_sum masks (2 * t + 1) (int r) div int d) q) [0..<d]) [0..<d]"
proof -
  let ?P = "mask_polys masks" and ?B = "int (q - 1)" and ?ok = "ring_butterfly.stage_ok 0 L (cell_ok (2 ^ L) (int (q - 1))) iext"
  have q: "1 \<le> q" using assms(5) by (auto simp: is_power_of_two_iff)
  have d: "0 < d" using assms(1) by simp
  note P = mask_polys_ok [OF assms(1,3,4,6)]
  have lenP: "length ?P = 2 ^ L" using P(1) [OF d] assms(1) by simp
  have cells: "\<forall>p\<in>set ?P. cell_ok (2 ^ L) ?B 0 p"
    unfolding set_conv_nth lenP assms(1) [symmetric] cell_ok_def using P(2,3) by auto
  have anti: "antiper (2 ^ L) (iext (?P ! i))" if "i < 2 ^ L" for i
    using iext_antiper [of "?P ! i"] P(2) [of i] that assms(1) by simp
  obtain s' a' where N: "narrow_stages q d 2 (bit_reverse ?P) = (2 ^ Suc s', a')" "s' \<le> L" "?ok (\<lambda>i. iext (?P ! i)) s' a'"
    using narrow_stages_ok [OF anti q assms(6,2) narrow_fft.stage_ok_start [OF lenP cells]] assms(1) by auto
  define fin where "fin = (if 2 ^ Suc s' > d then a' else integer_ring_fft_wide a' (2 ^ Suc s'))"
  have "?ok (\<lambda>i. iext (?P ! i)) L fin"
  proof (cases "2 ^ Suc s' > d")
    case True
    then have "Suc s' > L" using power_increasing [of "Suc s'" L "2::nat"] unfolding assms(1) by (metis not_less one_le_numeral)
    then have "s' = L" using N(2) by simp
    then show ?thesis using N(3) True by (simp add: fin_def)
  next
    case False
    have len: "length a' = 2 ^ L" using N(3) by (simp add: narrow_fft.stage_ok_def)
    have "L \<le> capacity (2 ^ 127 - 1) ?B"
    proof (cases L)
      case (Suc l)
      have "(2::int) ^ Suc l * ?B \<le> 2 ^ 12 * 2 ^ 56"
        using assms(2,6) Suc by (intro mult_mono power_increasing) simp_all
      moreover have "(2::int) ^ 12 * 2 ^ 56 \<le> 2 ^ 127 - 1" by simp
      ultimately have "(2::int) ^ Suc l * ?B \<le> 2 ^ 127 - 1" by (rule order_trans)
      then have "l < capacity (2 ^ 127 - 1) ?B" using assms(2) Suc by (intro capacityI) simp_all
      then show ?thesis using Suc by simp
    qed simp
    then have "?ok (\<lambda>i. iext (?P ! i)) L (fft_stages (int_butterfly i128 (2 ^ L)) (2 ^ L) (2 ^ Suc s') a')"
      using wide_fft.fft_stages_ok [OF anti _ N(3,2)] by simp
    then show ?thesis using False len by (simp add: fin_def integer_ring_fft_wide_def Let_def)
  qed
  note E = narrow_fft.stage_ok_end [OF this]
  have code: "aggregate_masks masks q = map (map (\<lambda>x. as_u64 (drop_bit L x) AND (q - 1))) fin"
    using assms(1,2,3) N(1) by (simp add: aggregate_masks_def Let_def fin_def)
  have entry: "fin ! t ! r = agg_sum masks (2 * t + 1) (int r)" if t: "t < d" and r: "r < d" for t r
  proof -
    have "length (fin ! t) = d" using E(2) [of t] t assms(1) by (simp add: cell_ok_def)
    then have "fin ! t ! r = iext (fin ! t) (int r)" using r by (simp add: iext_nth)
    also have "\<dots> = (\<Sum>k<d. iext (?P ! k) (int r - 2 * int t * int k))"
      using E(3) [of t "int r"] t assms(1) by simp
    also have "\<dots> = (\<Sum>k<d. \<Sum>j<d. row_poly (masks ! j) k * delta d (int r - int j - int k * int (2 * t + 1)))"
    proof (intro sum.cong refl)
      fix k assume "k \<in> {..<d}"
      then have k: "k < d" by simp
      have "length (masks ! j) = d" if "j < d" for j using assms(3,4) that by simp
      then show "iext (?P ! k) (int r - 2 * int t * int k) = (\<Sum>j<d. row_poly (masks ! j) k * delta d (int r - int j - int k * int (2 * t + 1)))"
        unfolding P(4) [OF k] by (intro sum.cong refl) (simp add: row_poly_def algebra_simps)
    qed
    also have "\<dots> = agg_sum masks (2 * t + 1) (int r)"
      unfolding agg_sum_def Let_def assms(3) by (rule sum.swap)
    finally show ?thesis .
  qed
  have "map (\<lambda>x. as_u64 (drop_bit L x) AND (q - 1)) (fin ! t) = map (\<lambda>r. rem_euclid (agg_sum masks (2 * t + 1) (int r) div int d) q) [0..<d]"
    if "t < d" for t
    using E(2) [of t] that entry [OF that] assms(1,5)
    by (intro nth_equalityI) (simp_all add: cell_ok_def as_u64_mask drop_bit_eq_div del: One_nat_def)
  moreover have "length fin = d" using E(1) [of 0] assms(1) by simp
  ultimately show ?thesis unfolding code by - (rule nth_equalityI, simp_all)
qed

section \<open>Properties\<close>

text \<open>C9. Aggregation is exact: although its first stages run in 64-bit words and the rest in 128-bit words, no
  intermediate value wraps, and row \<open>t\<close> of the result is, modulo \<open>q\<close>, the floor of the degree-th part of
  the exact integer sum of the masks under the automorphism \<open>2 t + 1\<close>.\<close>

theorem aggregate_exact:
  assumes "is_power_of_two (length masks)" and "length masks \<le> 4096" and "is_power_of_two q" and "q \<le> 2 ^ 56"
    and "list_all (\<lambda>row. length row = length masks \<and> all_below q row) masks"
  shows "aggregate_masks masks q
    = map (\<lambda>t. map (\<lambda>r. rem_euclid (agg_sum masks (2 * t + 1) (int r) div int (length masks)) q) [0..<length masks]) [0..<length masks]"
proof -
  obtain L where L: "length masks = 2 ^ L" using assms(1) by (auto simp: is_power_of_two_iff)
  then have "(2::nat) ^ L \<le> 2 ^ 12" using assms(2) by simp
  then have "L \<le> 12" by (simp only: le_log2)
  then show ?thesis using aggregate_ok [OF L _ refl _ assms(3,4)] assms(5) L by (simp add: list_all_iff)
qed

theorem aggregate_exact_witness:
  "aggregate_masks [[5, 65535], [7, 9]] 65536 ! 0 ! 0 = rem_euclid (agg_sum [[5, 65535], [7, 9]] 1 0 div 2) 65536
   \<and> aggregate_masks [[5, 65535], [7, 9]] 65536 = [[7, 32772], [65534, 32771]]"
proof -
  have p: "is_power_of_two 2" "is_power_of_two 65536"
    unfolding is_power_of_two_iff by (rule exI [of _ 1]; simp) (rule exI [of _ 16]; simp)
  have len: "length [[5, 65535], [7, 9 :: nat]] = 2" by simp
  have "aggregate_masks [[5, 65535], [7, 9]] 65536
    = map (\<lambda>t. map (\<lambda>r. rem_euclid (agg_sum [[5, 65535], [7, 9]] (2 * t + 1) (int r) div int 2) 65536) [0..<2]) [0..<2]"
    using aggregate_exact [of "[[5, 65535], [7, 9]]" 65536, unfolded len] p by simp
  moreover have "map (\<lambda>t. map (\<lambda>r. rem_euclid (agg_sum [[5, 65535], [7, 9]] (2 * t + 1) (int r) div int 2) 65536) [0..<2]) [0..<2] = [[7, 32772], [65534, 32771]]"
    by code_simp
  ultimately show ?thesis by (simp add: upt_rec)
qed

end
