(* ===== verification/Packed_Rows.thy ===== *)
theory Packed_Rows
  imports Native_Dot
begin

text \<open>
  Bit-packed signed matrix rows (\<open>native_matrix.rs\<close> writes them, \<open>native_kernel.rs\<close> reads them):
  the writer and the reader form the third provider of the buffer contract of \<open>Bit_Store\<close>, and
  the AVX-512 VBMI body, which gathers five bytes per lane, computes the same low words.
\<close>

section \<open>Model\<close>

text \<open>The loop over the bytes of one packed field.\<close>

definition packed_write :: "byte list \<Rightarrow> nat \<Rightarrow> nat \<Rightarrow> nat \<Rightarrow> byte list" where
  "packed_write row x off bits =
     (let v = x AND (2 ^ bits - 1); offset = off div 8; shifted = push_bit (off mod 8) v
      in fold (\<lambda>byte row. row[offset + byte := row ! (offset + byte) OR u8 (drop_bit (8 * byte) shifted)])
           [0..<div_ceil (bits + off mod 8) 8] row)"

text \<open>The sign extension by a left and an arithmetic right shift.\<close>

definition sign_shift :: "nat \<Rightarrow> nat \<Rightarrow> int" where
  "sign_shift bits w = i64 (int (u64 (push_bit (64 - bits) w))) div 2 ^ (64 - bits)"

definition packed_word :: "byte list \<Rightarrow> nat \<Rightarrow> nat" where
  "packed_word a off = drop_bit (off mod 8) (from_le_bytes (take 8 (drop (off div 8) a)))"

definition read_packed :: "nat \<Rightarrow> byte list \<Rightarrow> nat \<Rightarrow> int result" where
  "read_packed bits a index =
     guardR (length a < index * bits div 8 + 8) (Panic ''slice index out of range'')
       (Inr (sign_shift bits (packed_word a (index * bits))))"

text \<open>One lane of the gathered vector: five bytes at the lane's offset, the other three repeat
  byte zero of the load.\<close>

definition vbmi_lane :: "nat \<Rightarrow> byte list \<Rightarrow> nat \<Rightarrow> nat \<Rightarrow> int" where
  "vbmi_lane bits a base lane =
     (let packed = take 32 (drop base a);
          word = from_le_bytes (map (\<lambda>byte. packed ! (if byte < 5 then lane * bits div 8 + byte else 0)) [0..<8])
      in sign_shift bits (drop_bit (lane * bits mod 8) word))"

definition packed_row_512 :: "nat \<Rightarrow> nat \<Rightarrow> byte list \<Rightarrow> nat \<Rightarrow> nat list \<Rightarrow> nat result" where
  "packed_row_512 bits groups a start b =
     (let width = 8 * groups; steps = length b div width;
          lane = (\<lambda>j l. fold (\<lambda>t s. wrapping_add s (wrapping_mul
              (as_u64 (vbmi_lane bits a (start + (t * width + j * 8) div 8 * bits) l)) (b ! (t * width + (j * 8 + l))))) [0..<steps] 0);
          words = map (\<lambda>l. fold (\<lambda>j s. wrapping_add s (lane j l)) [0..<groups] 0) [0..<8]
      in mapR (\<lambda>tail. fold (\<lambda>w s. wrapping_add s w) words tail)
           (mapR (\<lambda>xs. fold (\<lambda>(x, y) s. wrapping_add s (wrapping_mul (as_u64 x) y)) (zip xs (drop (steps * width) b)) 0)
             (collectR (\<lambda>i. read_packed bits (drop start a) (steps * width + i)) [0..<length b - steps * width])))"

definition dot_packed_rows :: "cpu_features \<Rightarrow> nat \<Rightarrow> nat \<Rightarrow> nat \<Rightarrow> byte list \<Rightarrow> nat \<Rightarrow> nat list \<Rightarrow> nat list result" where
  "dot_packed_rows cpu bits rows groups a stride b =
     guardR (\<not> (bits = 27 \<or> bits = 28)) (Panic ''assertion failed: BITS'')
     (guardR (\<not> ((rows = 4 \<or> rows = 8 \<or> rows = 16) \<and> rows * groups = 16)) (Panic ''assertion failed: ROWS'')
     (guardR (stride * 8 \<noteq> length b * bits) (Panic ''assertion failed: stride'')
     (guardR (length a < rows * stride + 8) (Panic ''assertion failed: a.len()'')
       (collectR (\<lambda>r. if has_vbmi cpu then packed_row_512 bits groups a (r * stride) b
          else mapR (\<lambda>xs. fold (\<lambda>(x, y) s. wrapping_add s (wrapping_mul (as_u64 x) y)) (zip xs b) 0)
                 (collectR (read_packed bits (drop (r * stride) a)) [0..<length b])) [0..<rows]))))"

section \<open>Sign extension\<close>

definition sext :: "nat \<Rightarrow> nat \<Rightarrow> int" where
  "sext bits v = (if v < 2 ^ (bits - 1) then int v else int v - 2 ^ bits)"

lemma sign_shift_ok:
  assumes "0 < bits" and "bits < 64"
  shows "sign_shift bits w = sext bits (w mod 2 ^ bits)"
proof -
  define s where "s = 64 - bits"
  define v where "v = w mod 2 ^ bits"
  obtain b where b: "bits = Suc b" using assms(1) by (cases bits) auto
  have e: "(2::int) ^ 64 = 2 ^ bits * 2 ^ s" "(2::int) ^ 63 = 2 ^ b * 2 ^ s" "(2::nat) ^ 64 = 2 ^ bits * 2 ^ s"
    using assms b by (simp_all add: s_def flip: power_add)
  have "u64 (push_bit s w) = v * 2 ^ s"
    unfolding u64_def e(3) push_bit_eq_mult v_def by (simp add: mult_mod_left)
  then have sh: "sign_shift bits w = ((int v * 2 ^ s + 2 ^ 63) mod 2 ^ 64 - 2 ^ 63) div 2 ^ s"
    by (simp add: sign_shift_def i64_def s_def [symmetric])
  have "(int v * 2 ^ s + 2 ^ 63) mod 2 ^ 64 = ((int v + 2 ^ b) mod 2 ^ bits) * 2 ^ s"
    unfolding e(1,2) distrib_right [symmetric] by (simp only: mult_mod_left)
  then have "sign_shift bits w = (((int v + 2 ^ b) mod 2 ^ bits) - 2 ^ b) * 2 ^ s div 2 ^ s"
    unfolding sh by (simp only: e(2) left_diff_distrib)
  then have val: "sign_shift bits w = (int v + 2 ^ b) mod 2 ^ bits - 2 ^ b" by simp
  have "v < 2 * 2 ^ b" by (simp add: v_def b)
  then have "int v < int (2 * 2 ^ b)" by (simp only: of_nat_less_iff)
  then have v: "int v < 2 * 2 ^ b" by simp
  show ?thesis
  proof (cases "v < 2 ^ b")
    case True
    then have "int v + 2 ^ b < 2 ^ bits" by (simp add: b)
    then have "(int v + 2 ^ b) mod 2 ^ bits = int v + 2 ^ b" by (intro mod_pos_pos_trivial) simp_all
    moreover have "sext bits v = int v" using True by (simp add: sext_def b)
    ultimately show ?thesis unfolding val v_def [symmetric] by simp
  next
    case False
    have "(int v + 2 ^ b) mod 2 ^ bits = (int v + 2 ^ b - 2 ^ bits) mod 2 ^ bits" by simp
    also have "\<dots> = int v + 2 ^ b - 2 ^ bits"
      using False v by (intro mod_pos_pos_trivial) (simp_all add: b)
    moreover have "sext bits v = int v - 2 ^ bits" using False by (simp add: sext_def b)
    ultimately show ?thesis unfolding val v_def [symmetric] by simp
  qed
qed

lemma sext_round:
  assumes "0 < bits" and "- (2 ^ (bits - 1)) \<le> x" and "x < 2 ^ (bits - 1)"
  shows "sext bits (nat (x mod 2 ^ bits)) = x"
proof -
  obtain b where b: "bits = Suc b" using assms(1) by (cases bits) auto
  have "x mod 2 ^ bits = (if 0 \<le> x then x else x + 2 ^ bits)"
  proof (cases "0 \<le> x")
    case False
    have "x mod 2 ^ bits = (x + 2 ^ bits) mod 2 ^ bits" by simp
    also have "\<dots> = x + 2 ^ bits" using False assms(2) by (intro mod_pos_pos_trivial) (simp_all add: b)
    finally show ?thesis using False by simp
  qed (use assms(3) in \<open>simp add: b\<close>)
  then show ?thesis using assms(2,3) by (auto simp: sext_def b nat_less_iff)
qed

section \<open>The buffer contract\<close>

definition packed_field :: "byte list \<Rightarrow> nat \<Rightarrow> nat \<Rightarrow> nat" where
  "packed_field data off n = packed_word data off mod 2 ^ n"

lemma packed_word_bit:
  assumes "all_below 256 data" and "off mod 8 + k < 64"
  shows "bit (packed_word data off) k \<longleftrightarrow> getbit data (off + k)"
proof -
  have "all_below 256 (take 8 (drop (off div 8) data))"
    using assms(1) by (auto simp: all_below_set dest: in_set_takeD in_set_dropD)
  then show ?thesis
    using assms(2) by (simp add: packed_word_def bit_drop_bit_eq bit_from_le_bytes getbit_take getbit_drop_at)
qed

lemma packed_bytes_loop:
  fixes x :: nat
  assumes "all_below 256 row" and "offset + m \<le> length row"
  defines "out \<equiv> fold (\<lambda>byte row. row[offset + byte := row ! (offset + byte) OR u8 (drop_bit (8 * byte) x)]) [0..<m] row"
  shows "length out = length row \<and> all_below 256 out
    \<and> (\<forall>i. getbit out i \<longleftrightarrow> getbit row i \<or> (8 * offset \<le> i \<and> i < 8 * (offset + m) \<and> bit x (i - 8 * offset)))"
  using assms(2) unfolding out_def
proof (induction m)
  case 0
  then show ?case using assms(1) by auto
next
  case (Suc m)
  define r where "r = fold (\<lambda>byte row. row[offset + byte := row ! (offset + byte) OR u8 (drop_bit (8 * byte) x)]) [0..<m] row"
  have IH: "length r = length row" "all_below 256 r"
    "\<And>i. getbit r i \<longleftrightarrow> getbit row i \<or> (8 * offset \<le> i \<and> i < 8 * (offset + m) \<and> bit x (i - 8 * offset))"
    using Suc by (simp_all add: r_def)
  let ?b = "offset + m"
  define v where "v = r ! ?b OR u8 (drop_bit (8 * m) x)"
  have b: "?b < length r" using Suc.prems IH(1) by simp
  have small: "v < 256"
    using all_below_nth [OF IH(2) b] unfolding v_def
    by (intro less_expI [of _ 8, simplified]) (auto simp: bit_or_iff bit_u8_iff dest: bit_byte)
  have "getbit (r[?b := v]) i \<longleftrightarrow> getbit row i \<or> (8 * offset \<le> i \<and> i < 8 * (offset + Suc m) \<and> bit x (i - 8 * offset))" for i
  proof (cases "i div 8 = ?b")
    case True
    then have i: "i = 8 * ?b + i mod 8" "i mod 8 < 8" by (metis mult_div_mod_eq, simp)
    have "i div 8 < length r" using True b by simp
    then have range: "i < 8 * length r" by (simp add: div_less_iff_less_mult mult.commute)
    have "getbit (r[?b := v]) i \<longleftrightarrow> bit v (i mod 8)" using True b range by (simp add: getbit_def)
    also have "\<dots> \<longleftrightarrow> getbit r i \<or> bit x (8 * m + i mod 8)"
      using True range by (simp add: v_def bit_or_iff bit_u8_iff bit_drop_bit_eq getbit_def)
    also have "8 * m + i mod 8 = i - 8 * offset" using i(1) by (metis add.assoc add_diff_cancel_left' distrib_left)
    finally show ?thesis using i IH(3) [of i] by auto
  next
    case False
    then have "getbit (r[?b := v]) i \<longleftrightarrow> getbit r i" by (auto simp: getbit_def nth_list_update)
    moreover have "i < 8 * (offset + Suc m) \<longleftrightarrow> i < 8 * ?b"
      using False by (metis add_Suc_right div_less_iff_less_mult less_Suc_eq mult.commute zero_less_numeral)
    ultimately show ?thesis using IH(3) [of i] by simp
  qed
  moreover have "all_below 256 (r[?b := v])"
    using IH(2) small by (auto simp: all_below_set dest!: subsetD [OF set_update_subset_insert])
  ultimately show ?case using IH(1) by (simp add: r_def v_def)
qed

lemma packed_write_bits:
  assumes "0 < n" and "all_below 256 data" and "off + n \<le> 8 * length data"
  shows "length (packed_write data v off n) = length data \<and> all_below 256 (packed_write data v off n)
    \<and> (\<forall>i. getbit (packed_write data v off n) i \<longleftrightarrow> getbit data i \<or> (off \<le> i \<and> i < off + n \<and> bit v (i - off)))"
proof -
  define o8 sh where "o8 = off div 8" and "sh = off mod 8"
  define m where "m = div_ceil (n + sh) 8"
  let ?x = "push_bit sh (v AND (2 ^ n - 1))"
  have off: "off = 8 * o8 + sh" by (simp add: o8_def sh_def)
  have lim: "k < 8 * m \<longleftrightarrow> 8 * (k div 8) < n + sh" for k
    using less_div_ceil_iff [of 8 "k div 8" "n + sh"] by (simp add: m_def mult.commute div_less_iff_less_mult)
  have fits: "o8 + m \<le> length data"
  proof (rule ccontr)
    assume "\<not> o8 + m \<le> length data"
    moreover have le: "o8 \<le> length data" using assms(3) off by linarith
    ultimately have "8 * (length data - o8) < 8 * m" by linarith
    then show False using lim [of "8 * (length data - o8)"] le assms(3) off by simp
  qed
  have x: "bit ?x k \<longleftrightarrow> sh \<le> k \<and> k < sh + n \<and> bit v (k - sh)" for k
    by (auto simp: bit_push_bit_iff_nat bit_and_iff bit_exp_minus_1)
  have "8 * o8 \<le> i \<and> i < 8 * (o8 + m) \<and> bit ?x (i - 8 * o8) \<longleftrightarrow> off \<le> i \<and> i < off + n \<and> bit v (i - off)" for i
  proof (cases "off \<le> i \<and> i < off + n")
    case True
    then have "i - 8 * o8 < n + sh" "8 * o8 \<le> i" "sh \<le> i - 8 * o8" "i - 8 * o8 - sh = i - off" using off by linarith+
    moreover from this have "i - 8 * o8 < 8 * m" unfolding lim by (meson le_less_trans times_div_less_eq_dividend)
    ultimately show ?thesis unfolding x using True by auto
  next
    case False
    then show ?thesis unfolding x using off by auto
  qed
  then show ?thesis
    using packed_bytes_loop [OF assms(2) fits, of ?x]
    by (simp add: packed_write_def Let_def o8_def [symmetric] sh_def [symmetric] m_def [symmetric] del: push_bit_and)
qed

interpretation packed_bits: bit_field_store packed_write packed_field "\<lambda>n. 0 < n \<and> n \<le> 56"
proof (unfold_locales, goal_cases)
  case (1 n data off v i)
  then show ?case using packed_write_bits [of n data off v] by auto
next
  case (2 n off data v)
  have "length (fold (\<lambda>b r. r[f b := g b r]) xs row) = length row" for f g xs and row :: "byte list"
    by (induction xs arbitrary: row) simp_all
  then show ?case by (simp only: packed_write_def Let_def)
next
  case (3 n off data v)
  then show ?case using packed_write_bits [of n data off v] by simp
next
  case (4 n data off k)
  have "off mod 8 < 8" by simp
  then have "off mod 8 + k < 64" if "k < n" using that 4(1) by linarith
  then show ?case
    using packed_word_bit [OF 4(2), of off k] by (auto simp: packed_field_def bit_take_bit_iff simp flip: take_bit_eq_mod)
qed

section \<open>Reading fields of packed rows\<close>

lemma read_packed_ok:
  assumes "0 < bits" and "bits \<le> 56" and "index * bits div 8 + 8 \<le> length a"
  shows "read_packed bits a index = Inr (sext bits (packed_field a (index * bits) bits))"
  using assms by (simp add: read_packed_def packed_field_def sign_shift_ok)

text \<open>The packed row of a list of values, and what is read from it wherever the row starts.\<close>

definition packed_row :: "nat \<Rightarrow> nat \<Rightarrow> nat list \<Rightarrow> byte list" where
  "packed_row bits stride xs = write_all packed_write (replicate stride 0) 0 bits xs"

lemma packed_row_props:
  assumes "0 < bits" and "bits \<le> 56" and "length xs * bits = 8 * stride"
  shows "length (packed_row bits stride xs) = stride" and "all_below 256 (packed_row bits stride xs)"
    and "k < length xs \<Longrightarrow> packed_field (packed_row bits stride xs) (k * bits) bits = xs ! k mod 2 ^ bits"
proof -
  note facts = packed_bits.pack_from_bits [of bits "replicate stride 0" 0 xs]
  show "length (packed_row bits stride xs) = stride" "all_below 256 (packed_row bits stride xs)"
    using facts assms by (simp_all add: packed_row_def all_below_set)
  show "k < length xs \<Longrightarrow> packed_field (packed_row bits stride xs) (k * bits) bits = xs ! k mod 2 ^ bits"
    using packed_bits.rd_pack_from [of bits xs stride k] assms by (simp add: packed_row_def)
qed

lemma packed_field_bit:
  "all_below 256 data \<Longrightarrow> 0 < n \<Longrightarrow> n \<le> 56 \<Longrightarrow> bit (packed_field data off n) k \<longleftrightarrow> k < n \<and> getbit data (off + k)"
  using packed_bits.rd_bit [of n data off k] by simp

lemma packed_field_shift:
  assumes "all_below 256 (pre @ mid @ post)" and "0 < n" and "n \<le> 56" and "off + n \<le> 8 * length mid"
  shows "packed_field (pre @ mid @ post) (8 * length pre + off) n = packed_field mid off n"
    and "packed_field (drop (length pre) (pre @ mid @ post)) off n = packed_field mid off n"
proof -
  have "all_below 256 mid" "all_below 256 (mid @ post)" using assms(1) by (auto simp: all_below_simps)
  then show "packed_field (pre @ mid @ post) (8 * length pre + off) n = packed_field mid off n"
    "packed_field (drop (length pre) (pre @ mid @ post)) off n = packed_field mid off n"
    using assms by (auto intro!: bit_eqI simp: packed_field_bit getbit_append)
qed

text \<open>A lane of the gathered vector is the field: the repeated bytes are shifted out.\<close>

lemma from_le_bytes_bit8:
  assumes "\<And>i. i < 8 \<Longrightarrow> f i < 256" and "k < 64"
  shows "bit (from_le_bytes (map f [0..<8])) k \<longleftrightarrow> bit (f (k div 8)) (k mod 8)"
proof -
  have "all_below 256 (map f [0..<8])" using assms(1) by (auto simp: all_below_set)
  moreover have "k div 8 < 8" using assms(2) by (simp add: less_mult_imp_div_less)
  ultimately show ?thesis using assms(2) by (simp add: bit_from_le_bytes getbit_def)
qed

lemma vbmi_lane_ok:
  assumes a: "all_below 256 a" and "bits = 27 \<or> bits = 28" and "lane < 8" and fit: "base + 32 \<le> length a"
  shows "vbmi_lane bits a base lane = sext bits (packed_field a (8 * base + lane * bits) bits)"
proof -
  define o8 sh where "o8 = lane * bits div 8" and "sh = lane * bits mod 8"
  have lb: "lane * bits \<le> 7 * 28" using assms(2,3) by (intro mult_le_mono) auto
  have o8: "o8 < 25" using lb by (simp add: o8_def)
  define f where "f = (\<lambda>byte. take 32 (drop base a) ! (if byte < 5 then o8 + byte else 0))"
  have f: "f i < 256" if "i < 8" for i
    using all_below_nth [OF a, of "base + (o8 + i)"] all_below_nth [OF a, of base] fit o8 that by (simp add: f_def)
  have "drop_bit sh (from_le_bytes (map f [0..<8])) mod 2 ^ bits = packed_field a (8 * base + lane * bits) bits"
  proof (rule bit_eqI)
    fix k
    show "bit (drop_bit sh (from_le_bytes (map f [0..<8])) mod 2 ^ bits) k \<longleftrightarrow> bit (packed_field a (8 * base + lane * bits) bits) k"
    proof (cases "k < bits")
      case True
      have "sh < 8" by (simp add: sh_def)
      then have t: "sh + k < 36" using True assms(2) by auto
      then have d: "(sh + k) div 8 < 5" "sh + k < 64" by (simp_all add: less_mult_imp_div_less)
      have idx: "8 * base + (lane * bits + k) = 8 * (base + (o8 + (sh + k) div 8)) + (sh + k) mod 8"
        unfolding o8_def sh_def by (simp add: div_plus_div_distrib_dvd_left)
      have "bit (drop_bit sh (from_le_bytes (map f [0..<8]))) k \<longleftrightarrow> bit (f ((sh + k) div 8)) ((sh + k) mod 8)"
        using from_le_bytes_bit8 [OF f d(2)] by (simp add: bit_drop_bit_eq)
      also have "\<dots> \<longleftrightarrow> getbit a (8 * base + (lane * bits + k))"
        unfolding idx using d o8 fit by (subst getbit_byte) (simp_all add: f_def)
      finally show ?thesis
        using True a assms(2) by (auto simp: packed_field_bit bit_take_bit_iff add.assoc simp flip: take_bit_eq_mod)
    qed (use a assms(2) in \<open>auto simp: packed_field_bit bit_take_bit_iff simp flip: take_bit_eq_mod\<close>)
  qed
  moreover have "0 < bits" "bits < 64" using assms(2) by auto
  ultimately show ?thesis
    unfolding vbmi_lane_def Let_def o8_def [symmetric] sh_def [symmetric] f_def [symmetric] by (simp only: sign_shift_ok)
qed

lemma packed_field_drop:
  assumes "all_below 256 a" and "0 < n" and "n \<le> 56"
  shows "packed_field (drop s a) off n = packed_field a (8 * s + off) n"
proof -
  have "all_below 256 (drop s a)" using assms(1) by (auto simp: all_below_set dest: in_set_dropD)
  then show ?thesis using assms by (auto intro!: bit_eqI simp: packed_field_bit getbit_drop_at add.assoc)
qed

section \<open>Dot products over packed rows\<close>

text \<open>The signed entries of the row at byte \<open>start\<close>.\<close>

definition packed_entries :: "nat \<Rightarrow> byte list \<Rightarrow> nat \<Rightarrow> nat \<Rightarrow> int list" where
  "packed_entries bits a start n = map (\<lambda>k. sext bits (packed_field a (8 * start + k * bits) bits)) [0..<n]"

lemma length_packed_entries [simp]: "length (packed_entries bits a start n) = n"
  by (simp add: packed_entries_def)

lemma collect_read_packed:
  assumes a: "all_below 256 a" and bits: "bits = 27 \<or> bits = 28" and fit: "start + 8 + (lo + m) * bits div 8 \<le> length a"
  shows "collectR (\<lambda>i. read_packed bits (drop start a) (lo + i)) [0..<m] = Inr (map (\<lambda>i. packed_entries bits a start (lo + m) ! (lo + i)) [0..<m])"
proof (rule collectR_all_Inr)
  fix i assume "i \<in> set [0..<m]"
  then have i: "i < m" by simp
  have "(lo + i) * bits div 8 \<le> (lo + m) * bits div 8" using i by (intro div_le_mono mult_le_mono1) simp
  then have "(lo + i) * bits div 8 + 8 \<le> length (drop start a)" using fit by simp
  then have "read_packed bits (drop start a) (lo + i) = Inr (sext bits (packed_field (drop start a) ((lo + i) * bits) bits))"
    using bits by (intro read_packed_ok) auto
  then show "read_packed bits (drop start a) (lo + i) = Inr (packed_entries bits a start (lo + m) ! (lo + i))"
    using i a bits by (auto simp: packed_entries_def packed_field_drop)
qed

lemma signed_fold:
  assumes "length xs = length ys"
  shows "fold (\<lambda>(x, y) s. wrapping_add s (wrapping_mul (as_u64 x) y)) (zip xs ys) 0 = u64 (dot_sum (map as_u64 xs) ys)"
proof -
  have "fold (\<lambda>(x, y) s. wrapping_add s (wrapping_mul (as_u64 x) y)) (zip xs ys) 0 = scalar_dot (map as_u64 xs) ys"
    by (simp add: scalar_dot_def zip_map1 fold_map comp_def case_prod_beta')
  then show ?thesis using assms by (simp add: scalar_dot_sum)
qed

lemma packed_row_512_ok:
  assumes a: "all_below 256 a" and bits: "bits = 27 \<or> bits = 28" and "0 < groups"
    and stride: "stride * 8 = length b * bits" and fit: "start + stride + 8 \<le> length a"
  shows "packed_row_512 bits groups a start b = Inr (as_u64 (int_dot_sum (packed_entries bits a start (length b)) b))"
proof -
  define n where "n = length b"
  define width where "width = 8 * groups"
  define steps where "steps = n div width"
  let ?xs = "packed_entries bits a start n"
  let ?h = "\<lambda>i. as_u64 (?xs ! i) * b ! i"
  have le: "steps * width \<le> n" by (simp add: steps_def)
  have in_range: "t * width + (j * 8 + l) < n" if "t < steps" "j < groups" "l < 8" for t j l
  proof -
    have "j * 8 + l < width" using row_slot [of j groups l 8] that by (simp add: width_def mult.commute)
    then show ?thesis using row_slot [of t steps "j * 8 + l" width] that le by linarith
  qed
  have lane: "vbmi_lane bits a (start + (t * width + j * 8) div 8 * bits) l = ?xs ! (t * width + (j * 8 + l))"
    if "t < steps" "j < groups" "l < 8" for t j l
  proof -
    define g where "g = t * groups + j"
    have g: "t * width + j * 8 = g * 8" by (simp add: g_def width_def algebra_simps)
    have "g * 8 + 7 < n" using in_range [OF that(1,2), of 7] g by simp
    then have "(g * 8 + 8) * bits \<le> n * bits" by (intro mult_le_mono1) simp
    then have "g * bits + bits \<le> stride" using stride by (simp add: n_def algebra_simps)
    then have "start + g * bits + 32 \<le> length a" using fit bits by auto
    then have "vbmi_lane bits a (start + g * bits) l = sext bits (packed_field a (8 * (start + g * bits) + l * bits) bits)"
      using a bits that(3) by (intro vbmi_lane_ok)
    also have "t * width + (j * 8 + l) = g * 8 + l" using g by linarith
    then have "8 * (start + g * bits) + l * bits = 8 * start + (t * width + (j * 8 + l)) * bits" by (simp add: algebra_simps)
    finally have "vbmi_lane bits a (start + g * bits) l = ?xs ! (t * width + (j * 8 + l))"
      using in_range [OF that] by (simp add: packed_entries_def)
    then show ?thesis using g by simp
  qed
  define lanes where "lanes j l = (\<Sum>t<steps. ?h (t * width + (j * 8 + l)))" for j l
  have lane_fold: "fold (\<lambda>t s. wrapping_add s (wrapping_mul (as_u64 (vbmi_lane bits a (start + (t * width + j * 8) div 8 * bits) l))
      (b ! (t * width + (j * 8 + l))))) [0..<steps] 0 = u64 (lanes j l)" if "j < groups" "l < 8" for j l
  proof -
    have "fold (\<lambda>t s. wrapping_add s (wrapping_mul (as_u64 (vbmi_lane bits a (start + (t * width + j * 8) div 8 * bits) l))
        (b ! (t * width + (j * 8 + l))))) [0..<steps] 0
      = fold (\<lambda>t s. wrapping_add s (wrapping_mul (as_u64 (?xs ! (t * width + (j * 8 + l)))) (b ! (t * width + (j * 8 + l))))) [0..<steps] 0"
      using lane that by (intro fold_cong) simp_all
    then show ?thesis unfolding lanes_def by (simp only: fold_wrapping_mul)
  qed
  have words: "map (\<lambda>l. fold (\<lambda>j s. wrapping_add s (fold (\<lambda>t s. wrapping_add s (wrapping_mul
      (as_u64 (vbmi_lane bits a (start + (t * width + j * 8) div 8 * bits) l)) (b ! (t * width + (j * 8 + l))))) [0..<steps] 0)) [0..<groups] 0) [0..<8]
    = map (\<lambda>l. u64 (\<Sum>j<groups. lanes j l)) [0..<8]"
  proof (rule map_cong [OF refl])
    fix l assume "l \<in> set [0..<8]"
    then have l: "l < 8" by simp
    have "fold (\<lambda>j s. wrapping_add s (fold (\<lambda>t s. wrapping_add s (wrapping_mul
        (as_u64 (vbmi_lane bits a (start + (t * width + j * 8) div 8 * bits) l)) (b ! (t * width + (j * 8 + l))))) [0..<steps] 0)) [0..<groups] 0
      = fold (\<lambda>j s. wrapping_add s (u64 (lanes j l))) [0..<groups] 0"
      using lane_fold l by (intro fold_cong) simp_all
    also have "\<dots> = u64 (0 + (\<Sum>j\<leftarrow>[0..<groups]. lanes j l))" by (subst fold_wrapping) (simp_all only: u64_sum_list, simp)
    finally show "fold (\<lambda>j s. wrapping_add s (fold (\<lambda>t s. wrapping_add s (wrapping_mul
        (as_u64 (vbmi_lane bits a (start + (t * width + j * 8) div 8 * bits) l)) (b ! (t * width + (j * 8 + l))))) [0..<steps] 0)) [0..<groups] 0
      = u64 (\<Sum>j<groups. lanes j l)"
      by (simp add: sum_list_distinct_conv_sum_set atLeast0LessThan)
  qed
  have "(\<Sum>l<8. \<Sum>j<groups. lanes j l) = (\<Sum>r<width. \<Sum>t<steps. ?h (t * width + r))"
    using sum_steps [of "\<lambda>r. \<Sum>t<steps. ?h (t * width + r)" 8 groups] by (simp add: lanes_def width_def mult.commute)
  then have all: "(\<Sum>l<8. \<Sum>j<groups. lanes j l) = (\<Sum>i<steps * width. ?h i)"
    using sum_steps [of ?h width steps] by simp
  let ?e = "steps * width"
  have "start + 8 + (?e + (n - ?e)) * bits div 8 \<le> length a" using fit stride le by (simp add: n_def [symmetric])
  then have tail: "collectR (\<lambda>i. read_packed bits (drop start a) (?e + i)) [0..<n - ?e] = Inr (drop ?e ?xs)"
    using collect_read_packed [OF a bits, of start ?e "n - ?e"] le by (auto intro!: nth_equalityI)
  have "packed_row_512 bits groups a start b = Inr (u64 (u64 (dot_sum (map as_u64 (drop ?e ?xs)) (drop ?e b)) + (\<Sum>l<8. \<Sum>j<groups. lanes j l)))"
    unfolding packed_row_512_def Let_def width_def [symmetric] n_def [symmetric] steps_def [symmetric] tail
    using lane_words [OF words] le by (simp add: signed_fold packed_entries_def n_def)
  also have "\<dots> = Inr (u64 (dot_sum (map as_u64 ?xs) b))"
  proof -
    have "(\<Sum>i<?e. ?h i) = (\<Sum>i<?e. map as_u64 ?xs ! i * b ! i)" using le by (intro sum.cong) auto
    moreover have "u64 (u64 (dot_sum (drop ?e (map as_u64 ?xs)) (drop ?e b)) + (\<Sum>i<?e. map as_u64 ?xs ! i * b ! i))
        = u64 (dot_sum (map as_u64 ?xs) b)"
      by (rule tail_split) (simp_all add: n_def steps_def)
    ultimately show ?thesis unfolding all by (simp only: drop_map)
  qed
  finally show ?thesis by (simp add: dot_sum_signed n_def)
qed

lemma dot_packed_rows_ok:
  assumes a: "all_below 256 a" and bits: "bits = 27 \<or> bits = 28" and "rows = 4 \<or> rows = 8 \<or> rows = 16" and "rows * groups = 16"
    and stride: "stride * 8 = length b * bits" and fit: "rows * stride + 8 \<le> length a"
  shows "dot_packed_rows cpu bits rows groups a stride b
    = Inr (map (\<lambda>r. as_u64 (int_dot_sum (packed_entries bits a (r * stride) (length b)) b)) [0..<rows])"
proof -
  have g: "0 < groups" using assms(4) by (cases groups) auto
  have row: "r * stride + stride + 8 \<le> length a" if "r < rows" for r
    using mult_le_mono1 [of "Suc r" rows stride] that fit by simp
  have "collectR (read_packed bits (drop (r * stride) a)) [0..<length b] = Inr (packed_entries bits a (r * stride) (length b))" if "r < rows" for r
  proof -
    have "r * stride + 8 + (0 + length b) * bits div 8 \<le> length a" using row [OF that] stride by simp
    then show ?thesis
      using collect_read_packed [OF a bits, of "r * stride" 0 "length b"]
      by (simp add: packed_entries_def)
  qed
  then have "(if has_vbmi cpu then packed_row_512 bits groups a (r * stride) b
      else mapR (\<lambda>xs. fold (\<lambda>(x, y) s. wrapping_add s (wrapping_mul (as_u64 x) y)) (zip xs b) 0)
             (collectR (read_packed bits (drop (r * stride) a)) [0..<length b]))
    = Inr (as_u64 (int_dot_sum (packed_entries bits a (r * stride) (length b)) b))" if "r < rows" for r
    using that packed_row_512_ok [OF a bits g stride row [OF that]]
    by (simp add: signed_fold dot_sum_signed)
  then have "collectR (\<lambda>r. if has_vbmi cpu then packed_row_512 bits groups a (r * stride) b
      else mapR (\<lambda>xs. fold (\<lambda>(x, y) s. wrapping_add s (wrapping_mul (as_u64 x) y)) (zip xs b) 0)
             (collectR (read_packed bits (drop (r * stride) a)) [0..<length b])) [0..<rows]
    = Inr (map (\<lambda>r. as_u64 (int_dot_sum (packed_entries bits a (r * stride) (length b)) b)) [0..<rows])"
    by (intro collectR_all_Inr) simp
  then show ?thesis using assms by (simp add: dot_packed_rows_def)
qed

end
