(* ===== verification/Native_Matrix.thy ===== *)
theory Native_Matrix
  imports Packed_Rows Matrix Lift
begin

text \<open>
  Compact signed storage of the compiled packing matrix (\<open>reinspiring/src/native_matrix.rs\<close>):
  the blocks are concatenated row by row into bit-packed, 32-bit or 64-bit words, whichever the
  entries and the processor allow, and multiplied by kernels chosen by storage and modulus.
\<close>

section \<open>Model\<close>

datatype words = Narrow "int list" | Packed nat "byte list" | Wide "int list"

record native_matrix =
  nm_rows :: nat
  nm_cols :: nat
  nm_q :: nat
  nm_words :: words

text \<open>The validation loop over the blocks, with the column count so far.\<close>

fun blocks_check :: "nat \<Rightarrow> nat \<Rightarrow> packing_matrix list \<Rightarrow> nat \<Rightarrow> nat result" where
  "blocks_check rows q [] cols = Inr cols"
| "blocks_check rows q (b # bs) cols =
     guardR (pm_rows b \<noteq> rows \<or> pm_q b \<noteq> q \<or> pm_cols b = 0 \<or> checked_mul (pm_rows b) (pm_cols b) \<noteq> Some (length (pm_data b)))
       (InvalidParams ''native matrix block mismatch'')
     (guardR (cols + pm_cols b > 32768) (InvalidParams ''native matrix too wide'')
     (guardR (list_ex (\<lambda>x. x \<ge> q) (pm_data b)) (InvalidParams ''noncanonical native matrix'')
       (blocks_check rows q bs (cols + pm_cols b))))"

text \<open>Row \<open>r\<close> of the concatenation, as signed entries.\<close>

definition block_row :: "nat \<Rightarrow> packing_matrix list \<Rightarrow> nat \<Rightarrow> int list" where
  "block_row q blocks r =
     concat (map (\<lambda>b. map (\<lambda>x. centered x q) (take (pm_cols b) (drop (r * pm_cols b) (pm_data b)))) blocks)"

definition entries_within :: "nat \<Rightarrow> packing_matrix list \<Rightarrow> int \<Rightarrow> int \<Rightarrow> bool" where
  "entries_within q blocks lo hi \<longleftrightarrow> list_all (\<lambda>b. list_all (\<lambda>x. lo \<le> centered x q \<and> centered x q < hi) (pm_data b)) blocks"

definition from_blocks :: "cpu_features \<Rightarrow> packing_matrix list \<Rightarrow> native_matrix result" where
  "from_blocks cpu blocks =
     guardR (blocks = []) (InvalidParams ''empty native matrix blocks'')
     (let rows = pm_rows (hd blocks); q = pm_q (hd blocks)
      in guardR (\<not> (2 \<le> q \<and> q \<le> 2 ^ 56) \<or> rows = 0) (InvalidParams ''invalid native matrix'')
        (bindR (blocks_check rows q blocks 0) (\<lambda>cols.
          let narrow = entries_within q blocks (- (2 ^ 31)) (2 ^ 31);
              fits27 = entries_within q blocks (- (2 ^ 26)) (2 ^ 26);
              packed28 = (is_power_of_two q \<and> rows mod 4 = 0 \<and> has_vbmi cpu \<and> entries_within q blocks (- (2 ^ 27)) (2 ^ 27))
          in guardR (checked_mul rows cols = None) (InvalidParams ''native matrix size overflow'')
             (if packed28 \<and> cols mod 8 = 0
              then let bits = (if fits27 then 27 else 28); stride = cols div 8 * bits
                   in guardR (rows * stride + 8 \<ge> 2 ^ 64) (InvalidParams ''packed matrix size overflow'')
                     (Inr \<lparr>nm_rows = rows, nm_cols = cols, nm_q = q, nm_words = Packed bits
                       (concat (map (\<lambda>r. packed_row bits stride (map as_u64 (block_row q blocks r))) [0..<rows]) @ replicate 8 0)\<rparr>)
              else Inr \<lparr>nm_rows = rows, nm_cols = cols, nm_q = q, nm_words =
                     (if narrow then Narrow else Wide) (concat (map (block_row q blocks) [0..<rows]))\<rparr>))))"

definition from_compiled :: "cpu_features \<Rightarrow> packing_matrix \<Rightarrow> native_matrix result" where
  "from_compiled cpu m = from_blocks cpu [m]"

datatype matrix_storage = Packed27 | Packed28 | I32 | I64

definition storage :: "native_matrix \<Rightarrow> matrix_storage" where
  "storage m = (case nm_words m of Packed bits _ \<Rightarrow> if bits = 27 then Packed27 else Packed28 | Narrow _ \<Rightarrow> I32 | Wide _ \<Rightarrow> I64)"

definition storage_bytes :: "native_matrix \<Rightarrow> nat" where
  "storage_bytes m = (case nm_words m of Narrow x \<Rightarrow> length x * 4 | Packed _ x \<Rightarrow> length x | Wide x \<Rightarrow> length x * 8)"

definition to_compiled :: "native_matrix \<Rightarrow> packing_matrix result" where
  "to_compiled m =
     mapR (\<lambda>vs. \<lparr>pm_rows = nm_rows m, pm_cols = nm_cols m, pm_q = nm_q m, pm_data = map (\<lambda>v. rem_euclid v (nm_q m)) vs\<rparr>)
       (case nm_words m of
          Packed bits x \<Rightarrow> collectR (read_packed bits x) [0..<nm_rows m * nm_cols m]
        | Narrow x \<Rightarrow> Inr (take (nm_rows m * nm_cols m) x)
        | Wide x \<Rightarrow> Inr (take (nm_rows m * nm_cols m) x))"

definition row_slice :: "'a list \<Rightarrow> nat \<Rightarrow> nat \<Rightarrow> 'a list" where
  "row_slice x cols r = take cols (drop (r * cols) x)"

definition multiply_odd :: "cpu_features \<Rightarrow> native_matrix \<Rightarrow> nat list \<Rightarrow> nat list result" where
  "multiply_odd cpu m y =
     (case nm_words m of
        Packed _ _ \<Rightarrow> Inl (Panic ''packed storage requires power-of-two modulus'')
      | Narrow x \<Rightarrow>
          (let limbs = map (\<lambda>j. map (\<lambda>v. drop_bit (j * 16) v AND 65535) y) [0..<4]
           in collectR (\<lambda>r. mapR (\<lambda>dots. rem_euclid (fold (\<lambda>j s. i128 (s + i128 (i64 (int (dots ! j)) * 2 ^ (j * 16)))) [0..<4] 0) (nm_q m))
                (collectR (dot_i32 cpu (row_slice x (nm_cols m) r)) limbs)) [0..<nm_rows m])
      | Wide x \<Rightarrow>
          Inr (map (\<lambda>r. rem_euclid (fold (\<lambda>(a, b) s. i128 (s + a * int b)) (zip (row_slice x (nm_cols m) r) y) 0) (nm_q m)) [0..<nm_rows m]))"

definition packed_tile :: "cpu_features \<Rightarrow> native_matrix \<Rightarrow> nat \<Rightarrow> byte list \<Rightarrow> nat list \<Rightarrow> nat \<Rightarrow> nat list result" where
  "packed_tile cpu m bits x y tile =
     (let stride = nm_cols m div 8 * bits;
          tile_rows = (if nm_rows m mod 8 = 0 then 8 else 4);
          bytes = take (tile_rows * stride + 8) (drop (tile * tile_rows * stride) x)
      in mapR (map (\<lambda>sum. sum AND (nm_q m - 1))) (dot_packed_rows cpu bits tile_rows (16 div tile_rows) bytes stride y))"

definition narrow_tile :: "cpu_features \<Rightarrow> native_matrix \<Rightarrow> int list \<Rightarrow> nat list \<Rightarrow> nat \<Rightarrow> nat list result" where
  "narrow_tile cpu m x y tile =
     (let start = tile * 4 * nm_cols m; len = min 4 (nm_rows m - tile * 4)
      in if len = 4 then mapR (map (\<lambda>sum. sum AND (nm_q m - 1))) (dot_i32_rows4 cpu (take (4 * nm_cols m) (drop start x)) y)
         else collectR (\<lambda>r. mapR (\<lambda>sum. sum AND (nm_q m - 1)) (dot_i32 cpu (take (nm_cols m) (drop (start + r * nm_cols m) x)) y)) [0..<len])"

definition multiply :: "cpu_features \<Rightarrow> native_matrix \<Rightarrow> nat list \<Rightarrow> nat list result" where
  "multiply cpu m y =
     guardR (length y \<noteq> nm_cols m \<or> list_ex (\<lambda>x. x \<ge> nm_q m) y) (LweShape ''invalid native matrix operand'')
     (if \<not> is_power_of_two (nm_q m) then multiply_odd cpu m y
      else case nm_words m of
        Packed bits x \<Rightarrow> mapR concat (collectR (packed_tile cpu m bits x y) [0..<nm_rows m div (if nm_rows m mod 8 = 0 then 8 else 4)])
      | Narrow x \<Rightarrow> mapR concat (collectR (narrow_tile cpu m x y) [0..<div_ceil (nm_rows m) 4])
      | Wide x \<Rightarrow> Inr (map (\<lambda>r. fold (\<lambda>(a, b) s. wrapping_add s (wrapping_mul (as_u64 a) b))
            (zip (row_slice x (nm_cols m) r) y) 0 AND (nm_q m - 1)) [0..<nm_rows m]))"

section \<open>Well-formed storage\<close>

definition native_rows :: "native_matrix \<Rightarrow> int list list" where
  "native_rows m = map (\<lambda>r. case nm_words m of
       Packed bits x \<Rightarrow> packed_entries bits x (r * (nm_cols m div 8 * bits)) (nm_cols m)
     | Narrow x \<Rightarrow> row_slice x (nm_cols m) r
     | Wide x \<Rightarrow> row_slice x (nm_cols m) r) [0..<nm_rows m]"

definition wf_words :: "native_matrix \<Rightarrow> bool" where
  "wf_words m \<longleftrightarrow> (case nm_words m of
       Packed bits x \<Rightarrow> (bits = 27 \<or> bits = 28) \<and> is_power_of_two (nm_q m) \<and> nm_rows m mod 4 = 0 \<and> nm_cols m mod 8 = 0
         \<and> length x = nm_rows m * (nm_cols m div 8 * bits) + 8 \<and> all_below 256 x
     | Narrow x \<Rightarrow> length x = nm_rows m * nm_cols m \<and> list_all (\<lambda>v. - (2 ^ 31) \<le> v \<and> v < 2 ^ 31) x
     | Wide x \<Rightarrow> length x = nm_rows m * nm_cols m \<and> list_all (\<lambda>v. \<bar>v\<bar> \<le> 2 ^ 55) x)"

definition wf_native :: "native_matrix \<Rightarrow> bool" where
  "wf_native m \<longleftrightarrow> 2 \<le> nm_q m \<and> nm_q m \<le> 2 ^ 56 \<and> 0 < nm_rows m \<and> nm_cols m \<le> 32768 \<and> wf_words m"

lemma length_row_slice: "r < rows \<Longrightarrow> length x = rows * cols \<Longrightarrow> length (row_slice x cols r) = cols"
  using mult_le_mono1 [of "Suc r" rows cols] by (simp add: row_slice_def)

lemma nth_row_slice: "r < rows \<Longrightarrow> c < cols \<Longrightarrow> length x = rows * cols \<Longrightarrow> row_slice x cols r ! c = x ! (r * cols + c)"
  using mult_le_mono1 [of "Suc r" rows cols] by (simp add: row_slice_def)

lemma length_native_rows: "length (native_rows m) = nm_rows m"
  by (simp add: native_rows_def)

lemma length_native_row: "wf_native m \<Longrightarrow> r < nm_rows m \<Longrightarrow> length (native_rows m ! r) = nm_cols m"
  by (cases "nm_words m") (auto simp: native_rows_def wf_native_def wf_words_def length_row_slice)

section \<open>The multiplication is exact\<close>

definition native_product :: "native_matrix \<Rightarrow> nat list \<Rightarrow> nat list" where
  "native_product m y = map (\<lambda>r. rem_euclid (int_dot_sum (native_rows m ! r) y) (nm_q m)) [0..<nm_rows m]"

lemma wide_product:
  assumes "wf_native m" and "is_power_of_two (nm_q m)" and "nm_words m = Wide x" and "length y = nm_cols m"
  shows "map (\<lambda>r. fold (\<lambda>(a, b) s. wrapping_add s (wrapping_mul (as_u64 a) b)) (zip (row_slice x (nm_cols m) r) y) 0 AND (nm_q m - 1)) [0..<nm_rows m]
    = native_product m y"
proof -
  have "length x = nm_rows m * nm_cols m" using assms(1,3) by (simp add: wf_native_def wf_words_def)
  then show ?thesis
    using assms(2-4) unfolding native_product_def native_rows_def
    by (intro map_cong refl) (simp add: signed_fold length_row_slice dot_sum_signed as_u64_mask del: One_nat_def)
qed

lemma narrow_tile_ok:
  assumes wf: "wf_native m" and pow: "is_power_of_two (nm_q m)" and x: "nm_words m = Narrow x" and y: "length y = nm_cols m" "all_below (2 ^ 64) y"
    and t: "t < div_ceil (nm_rows m) 4"
  shows "narrow_tile cpu m x y t
    = Inr (map (\<lambda>r. rem_euclid (int_dot_sum (native_rows m ! (t * 4 + r)) y) (nm_q m)) [0..<min 4 (nm_rows m - t * 4)])"
proof -
  let ?c = "nm_cols m"
  have len: "length x = nm_rows m * ?c" using wf x by (simp add: wf_native_def wf_words_def)
  have t4: "t * 4 < nm_rows m" using t less_div_ceil_iff [of 4 t "nm_rows m"] by simp
  have row: "take ?c (drop (t * 4 * ?c + r * ?c) x) = native_rows m ! (t * 4 + r)" if "r < min 4 (nm_rows m - t * 4)" for r
  proof -
    have "t * 4 + r < nm_rows m" using that t4 by linarith
    then show ?thesis using x by (simp add: native_rows_def row_slice_def distrib_right)
  qed
  have lrow: "length (native_rows m ! (t * 4 + r)) = ?c" if "r < min 4 (nm_rows m - t * 4)" for r
    using that t4 by (intro length_native_row [OF wf]) linarith
  show ?thesis
  proof (cases "4 \<le> nm_rows m - t * 4")
    case True
    then have "(t * 4 + 4) * ?c \<le> nm_rows m * ?c" using t4 by (intro mult_le_mono1) simp
    then have l4: "length (take (4 * ?c) (drop (t * 4 * ?c) x)) = 4 * ?c" using len by (simp add: algebra_simps)
    have "take ?c (drop (r * ?c) (take (4 * ?c) (drop (t * 4 * ?c) x))) = native_rows m ! (t * 4 + r)" if "r < 4" for r
    proof -
      have "Suc r * ?c \<le> 4 * ?c" using that by (intro mult_le_mono1) simp
      then have "min ?c (4 * ?c - r * ?c) = ?c" by (simp only: mult_Suc)
      then have "take ?c (drop (r * ?c) (take (4 * ?c) (drop (t * 4 * ?c) x))) = take ?c (drop (r * ?c) (drop (t * 4 * ?c) x))"
        by (simp only: drop_take take_take)
      then show ?thesis using row [of r] True that by (simp add: add.commute)
    qed
    then have "map (\<lambda>r. as_u64 (int_dot_sum (take (length y) (drop (r * length y) (take (4 * ?c) (drop (t * 4 * ?c) x)))) y)) [0..<4]
        = map (\<lambda>r. as_u64 (int_dot_sum (native_rows m ! (t * 4 + r)) y)) [0..<4]"
      using y(1) by (intro map_cong refl) simp
    then have "dot_i32_rows4 cpu (take (4 * ?c) (drop (t * 4 * ?c) x)) y = Inr (map (\<lambda>r. as_u64 (int_dot_sum (native_rows m ! (t * 4 + r)) y)) [0..<4])"
      using dot_i32_rows4_ok [of "take (4 * ?c) (drop (t * 4 * ?c) x)" y cpu] l4 y by simp
    then show ?thesis
      using True pow by (simp add: narrow_tile_def Let_def as_u64_mask comp_def del: One_nat_def)
  next
    case False
    then have "collectR (\<lambda>r. mapR (\<lambda>sum. sum AND (nm_q m - 1)) (dot_i32 cpu (take ?c (drop (t * 4 * ?c + r * ?c) x)) y)) [0..<min 4 (nm_rows m - t * 4)]
        = Inr (map (\<lambda>r. rem_euclid (int_dot_sum (native_rows m ! (t * 4 + r)) y) (nm_q m)) [0..<min 4 (nm_rows m - t * 4)])"
      using row lrow y pow by (intro collectR_all_Inr) (simp add: dot_i32_ok as_u64_mask del: One_nat_def)
    then show ?thesis using False by (simp add: narrow_tile_def Let_def)
  qed
qed

lemma native_product_tiles:
  assumes "0 < d"
  shows "concat (map (\<lambda>t. map (\<lambda>r. rem_euclid (int_dot_sum (native_rows m ! (t * d + r)) y) (nm_q m)) [0..<min d (nm_rows m - t * d)])
      [0..<div_ceil (nm_rows m) d]) = native_product m y"
  using concat_tiles_partial [OF assms, of "\<lambda>r. rem_euclid (int_dot_sum (native_rows m ! r) y) (nm_q m)" "nm_rows m"]
  by (simp add: native_product_def)

lemma packed_entries_slice:
  assumes x: "all_below 256 x" and bits: "bits = 27 \<or> bits = 28" and "n * bits \<le> 8 * stride" and "off + stride \<le> len"
  shows "packed_entries bits (take len (drop start x)) off n = packed_entries bits x (start + off) n"
proof -
  have y: "all_below 256 (take len (drop start x))" using x by (auto simp: all_below_set dest: in_set_takeD in_set_dropD)
  have "packed_field (take len (drop start x)) (8 * off + k * bits) bits = packed_field x (8 * (start + off) + k * bits) bits" if "k < n" for k
  proof (rule bit_eqI)
    fix j
    have "k * bits + j < 8 * stride" if "j < bits" using mult_le_mono1 [of "Suc k" n bits] \<open>k < n\<close> that assms(3) by simp
    then have "j < bits \<Longrightarrow> 8 * off + k * bits + j < 8 * len" using assms(4) by linarith
    then show "bit (packed_field (take len (drop start x)) (8 * off + k * bits) bits) j = bit (packed_field x (8 * (start + off) + k * bits) bits) j"
      using bits by (auto simp: packed_field_bit [OF y] packed_field_bit [OF x] getbit_take getbit_drop_at algebra_simps)
  qed
  then show ?thesis by (simp add: packed_entries_def)
qed

lemma packed_tile_ok:
  assumes wf: "wf_native m" and words: "nm_words m = Packed bits x" and y: "length y = nm_cols m"
    and d: "d = (if nm_rows m mod 8 = 0 then 8 else 4)" and t: "t < nm_rows m div d"
  shows "packed_tile cpu m bits x y t = Inr (map (\<lambda>r. rem_euclid (int_dot_sum (native_rows m ! (t * d + r)) y) (nm_q m)) [0..<d])"
proof -
  let ?s = "nm_cols m div 8 * bits"
  have w: "bits = 27 \<or> bits = 28" "is_power_of_two (nm_q m)" "nm_cols m mod 8 = 0" "length x = nm_rows m * ?s + 8" "all_below 256 x"
    using wf words by (simp_all add: wf_native_def wf_words_def)
  let ?b = "take (d * ?s + 8) (drop (t * d * ?s) x)"
  have b: "all_below 256 ?b" using w(5) by (auto simp: all_below_set dest: in_set_takeD in_set_dropD)
  have "Suc t * d \<le> nm_rows m div d * d" using t by (intro mult_le_mono1) simp
  also have "\<dots> \<le> nm_rows m" by (rule div_times_less_eq_dividend)
  finally have td: "t * d + d \<le> nm_rows m" by simp
  then have "(t * d + d) * ?s \<le> nm_rows m * ?s" by (rule mult_le_mono1)
  then have len: "d * ?s + 8 \<le> length ?b" using w(4) by (simp add: distrib_right)
  have s8: "?s * 8 = length y * bits" using w(3) y by (metis dvd_div_mult_self mod_0_imp_dvd mult.assoc mult.commute)
  have row: "packed_entries bits ?b (r * ?s) (length y) = native_rows m ! (t * d + r)" if "r < d" for r
  proof -
    have "r * ?s + ?s \<le> d * ?s + 8" using mult_le_mono1 [of "Suc r" d ?s] that by simp
    then have "packed_entries bits ?b (r * ?s) (length y) = packed_entries bits x (t * d * ?s + r * ?s) (length y)"
      using s8 by (intro packed_entries_slice [OF w(5) w(1), where stride = ?s]) (simp_all only: mult.commute order_refl)
    moreover have "t * d + r < nm_rows m" using that td by linarith
    ultimately show ?thesis using words y by (simp add: native_rows_def distrib_right)
  qed
  have "dot_packed_rows cpu bits d (16 div d) ?b ?s y
      = Inr (map (\<lambda>r. as_u64 (int_dot_sum (packed_entries bits ?b (r * ?s) (length y)) y)) [0..<d])"
    using d by (intro dot_packed_rows_ok [OF b w(1) _ _ s8 len]) auto
  also have "\<dots> = Inr (map (\<lambda>r. as_u64 (int_dot_sum (native_rows m ! (t * d + r)) y)) [0..<d])"
    using row by simp
  finally show ?thesis
    using w(2) unfolding packed_tile_def Let_def d [symmetric] by (simp add: as_u64_mask comp_def del: One_nat_def)
qed

text \<open>Odd moduli: 16-bit limbs of the operand keep each 64-bit signed dot product exact.\<close>

lemma limb_split:
  fixes v :: nat
  assumes "v < 2 ^ 64"
  shows "(\<Sum>j<4. (drop_bit (j * 16) v AND 65535) * 2 ^ (j * 16)) = v"
proof -
  have "(drop_bit (j * 16) v AND 65535) * 2 ^ (j * 16) = (v div 65536 ^ j mod 65536) * 65536 ^ j" for j
    using and_exp_minus_1 [of "drop_bit (j * 16) v" 16] by (simp add: drop_bit_eq_div power_mult mult.commute [of j 16])
  then show ?thesis using digit_sum [of v 65536 4] assms by simp
qed

lemma int_dot_sum_limbs:
  assumes "all_below (2 ^ 64) y"
  shows "(\<Sum>j<4. int_dot_sum a (map (\<lambda>v. drop_bit (j * 16) v AND 65535) y) * 2 ^ (j * 16)) = int_dot_sum a y"
proof -
  have "(\<Sum>j<4. int_dot_sum a (map (\<lambda>v. drop_bit (j * 16) v AND 65535) y) * 2 ^ (j * 16))
      = (\<Sum>i<length y. a ! i * int (\<Sum>j<4. (drop_bit (j * 16) (y ! i) AND 65535) * 2 ^ (j * 16)))"
    unfolding int_dot_sum_def sum_distrib_right sum_distrib_left of_nat_sum
    by (subst sum.swap) (simp add: mult.assoc)
  also have "\<dots> = int_dot_sum a y"
    unfolding int_dot_sum_def using limb_split all_below_nth [OF assms] by (intro sum.cong refl) simp
  finally show ?thesis .
qed

lemma int_dot_sum_bound:
  assumes "length b \<le> 32768" and "\<And>i. i < length b \<Longrightarrow> \<bar>a ! i\<bar> \<le> A" and "\<And>i. i < length b \<Longrightarrow> int (b ! i) \<le> B" and "0 \<le> A" and "0 \<le> B"
  shows "\<bar>int_dot_sum a b\<bar> \<le> 32768 * (A * B)"
proof -
  have "\<bar>int_dot_sum a b\<bar> \<le> (\<Sum>i<length b. \<bar>a ! i * int (b ! i)\<bar>)" unfolding int_dot_sum_def by (rule sum_abs)
  also have "\<dots> \<le> (\<Sum>i<length b. A * B)" using assms by (intro sum_mono) (auto simp: abs_mult intro!: mult_mono)
  also have "\<dots> = int (length b) * (A * B)" by simp
  also have "\<dots> \<le> 32768 * (A * B)" using assms by (intro mult_right_mono) simp_all
  finally show ?thesis .
qed

lemma i64_as_u64: "\<bar>z\<bar> \<le> 2 ^ 62 \<Longrightarrow> i64 (int (as_u64 z)) = z"
  by (simp add: as_u64_def i64_def mod_simps abs_le_iff)

lemma signed_limb_fold:
  assumes "\<And>j. j < 4 \<Longrightarrow> \<bar>z j\<bar> \<le> 2 ^ 62"
  shows "fold (\<lambda>j s. i128 (s + i128 (z j * 2 ^ (j * 16)))) [0..<4] 0 = (\<Sum>j<4. z j * 2 ^ (j * 16))"
proof -
  have b: "\<bar>z j * 2 ^ (j * 16)\<bar> \<le> 2 ^ 62 * 2 ^ 48" if "j < 4" for j
  proof -
    have "(2::int) ^ (j * 16) \<le> 2 ^ 48" using that by (intro power_increasing) simp_all
    then show ?thesis unfolding abs_mult using assms [OF that] by (intro mult_mono) simp_all
  qed
  have t: "i128 (z j * 2 ^ (j * 16)) = z j * 2 ^ (j * 16)" if "j < 4" for j
    using b [OF that] by (intro i128_id) (simp_all only: abs_le_iff, simp_all)
  have "fold (\<lambda>j s. i128 (s + i128 (z j * 2 ^ (j * 16)))) [0..<n] 0 = (\<Sum>j<n. z j * 2 ^ (j * 16))
      \<and> \<bar>\<Sum>j<n. z j * 2 ^ (j * 16)\<bar> \<le> int n * (2 ^ 62 * 2 ^ 48)" if "n \<le> 4" for n
    using that
  proof (induction n)
    case (Suc n)
    let ?s = "\<Sum>j<n. z j * 2 ^ (j * 16)" and ?t = "z n * 2 ^ (n * 16)"
    have IH: "fold (\<lambda>j s. i128 (s + i128 (z j * 2 ^ (j * 16)))) [0..<n] 0 = ?s" "\<bar>?s\<bar> \<le> int n * (2 ^ 62 * 2 ^ 48)"
      using Suc by simp_all
    have "\<bar>?s + ?t\<bar> \<le> int (Suc n) * (2 ^ 62 * 2 ^ 48)" using IH(2) b [of n] Suc.prems by (simp add: abs_le_iff)
    moreover from this have "\<bar>?s + ?t\<bar> \<le> 4 * (2 ^ 62 * 2 ^ 48)" using Suc.prems by (elim order_trans) (intro mult_right_mono; simp)
    then have "i128 (?s + ?t) = ?s + ?t" by (intro i128_id) (simp_all add: abs_le_iff)
    ultimately show ?case using IH(1) t [of n] Suc.prems by simp
  qed simp
  then show ?thesis by blast
qed

lemma multiply_odd_narrow:
  assumes wf: "wf_native m" and x: "nm_words m = Narrow x" and y: "length y = nm_cols m" "all_below (nm_q m) y"
  shows "multiply_odd cpu m y = Inr (native_product m y)"
proof -
  let ?limb = "\<lambda>j. map (\<lambda>v. drop_bit (j * 16) v AND 65535) y" and ?row = "row_slice x (nm_cols m)"
  have w: "length x = nm_rows m * nm_cols m" "list_all (\<lambda>v. - (2 ^ 31) \<le> v \<and> v < 2 ^ 31) x" "nm_cols m \<le> 32768" "nm_q m \<le> 2 ^ 56"
    using wf x by (simp_all add: wf_native_def wf_words_def)
  have y64: "all_below (2 ^ 64) y" by (rule all_below_mono [OF y(2)]) (use w(4) in simp)
  have limb: "all_below 65536 (?limb j)" for j
    using and_exp_minus_1 [of _ 16] by (auto simp: all_below_set)
  have row: "rem_euclid (fold (\<lambda>j s. i128 (s + i128 (i64 (int (map (\<lambda>l. as_u64 (int_dot_sum (?row r) l)) (map ?limb [0..<4]) ! j)) * 2 ^ (j * 16)))) [0..<4] 0) (nm_q m)
      = rem_euclid (int_dot_sum (?row r) y) (nm_q m)" if r: "r < nm_rows m" for r
  proof -
    have "\<bar>int_dot_sum (?row r) (?limb j)\<bar> \<le> 32768 * (2 ^ 31 * 65535)" for j
    proof (rule int_dot_sum_bound)
      show "length (?limb j) \<le> 32768" using y(1) w(3) by simp
      show "\<bar>?row r ! i\<bar> \<le> 2 ^ 31" if "i < length (?limb j)" for i
      proof -
        have "?row r ! i = x ! (r * nm_cols m + i)" using that y(1) by (intro nth_row_slice [OF r _ w(1)]) simp
        moreover have "r * nm_cols m + i < length x" using row_slot [OF r, of i "nm_cols m"] that y(1) w(1) by simp
        ultimately show ?thesis using w(2) unfolding list_all_length by (auto simp: abs_le_iff)
      qed
      show "int (?limb j ! i) \<le> 65535" if "i < length (?limb j)" for i using all_below_nth [OF limb that] by simp
    qed simp_all
    then have b: "\<bar>int_dot_sum (?row r) (?limb j)\<bar> \<le> 2 ^ 62" for j by (rule order_trans) simp
    have "fold (\<lambda>j s. i128 (s + i128 (i64 (int (map (\<lambda>l. as_u64 (int_dot_sum (?row r) l)) (map ?limb [0..<4]) ! j)) * 2 ^ (j * 16)))) [0..<4] 0
        = fold (\<lambda>j s. i128 (s + i128 (int_dot_sum (?row r) (?limb j) * 2 ^ (j * 16)))) [0..<4] 0"
      by (intro fold_cong refl) (auto simp: i64_as_u64 [OF b])
    then show ?thesis using signed_limb_fold [OF b] int_dot_sum_limbs [OF y64, of "?row r"] by simp
  qed
  have "collectR (dot_i32 cpu (?row r)) (map ?limb [0..<4]) = Inr (map (\<lambda>l. as_u64 (int_dot_sum (?row r) l)) (map ?limb [0..<4]))"
    if "r < nm_rows m" for r
  proof (rule collectR_all_Inr)
    fix l assume "l \<in> set (map ?limb [0..<4])"
    then obtain j where "l = ?limb j" by auto
    then show "dot_i32 cpu (?row r) l = Inr (as_u64 (int_dot_sum (?row r) l))"
      using limb [of j] length_row_slice [OF that w(1)] y(1) by (intro dot_i32_ok) (auto elim: all_below_mono)
  qed
  then have "multiply_odd cpu m y = Inr (map (\<lambda>r. rem_euclid (int_dot_sum (?row r) y) (nm_q m)) [0..<nm_rows m])"
    unfolding multiply_odd_def x words.case Let_def using row by (intro collectR_all_Inr) simp
  then show ?thesis by (simp add: native_product_def native_rows_def x)
qed

lemma wide_fold:
  assumes "length row = length y" and "length y \<le> 32768" and "\<And>i. i < length y \<Longrightarrow> \<bar>row ! i\<bar> \<le> 2 ^ 55" and "all_below (2 ^ 56) y"
  shows "fold (\<lambda>(a, b) s. i128 (s + a * int b)) (zip row y) 0 = int_dot_sum row y"
proof -
  have "fold (\<lambda>(a, b) s. i128 (s + a * int b)) (zip (take n row) (take n y)) 0 = int_dot_sum row (take n y)" if "n \<le> length y" for n
    using that
  proof (induction n)
    case (Suc n)
    have n: "n < length row" "n < length y" using Suc.prems assms(1) by simp_all
    have z: "zip (take (Suc n) row) (take (Suc n) y) = zip (take n row) (take n y) @ [(row ! n, y ! n)]"
      using n by (simp add: take_Suc_conv_app_nth)
    have d: "int_dot_sum row (take (Suc n) y) = int_dot_sum row (take n y) + row ! n * int (y ! n)"
      using n by (simp add: int_dot_sum_def min_absorb1 min_absorb2)
    have "int (y ! i) \<le> 2 ^ 56" if "i < length y" for i using all_below_nth [OF assms(4) that] by simp
    then have "\<bar>int_dot_sum row (take (Suc n) y)\<bar> \<le> 32768 * (2 ^ 55 * 2 ^ 56)"
      using assms n by (intro int_dot_sum_bound) simp_all
    then have "i128 (int_dot_sum row (take (Suc n) y)) = int_dot_sum row (take (Suc n) y)"
      by (intro i128_id) (auto simp: abs_le_iff)
    then show ?case using Suc z d by simp
  qed (simp add: int_dot_sum_def)
  from this [of "length y"] show ?thesis using assms(1) by simp
qed

lemma multiply_odd_wide:
  assumes wf: "wf_native m" and x: "nm_words m = Wide x" and y: "length y = nm_cols m" "all_below (nm_q m) y"
  shows "multiply_odd cpu m y = Inr (native_product m y)"
proof -
  have w: "length x = nm_rows m * nm_cols m" "list_all (\<lambda>v. \<bar>v\<bar> \<le> 2 ^ 55) x" "nm_cols m \<le> 32768" "nm_q m \<le> 2 ^ 56"
    using wf x by (simp_all add: wf_native_def wf_words_def)
  have y56: "all_below (2 ^ 56) y" by (rule all_below_mono [OF y(2) w(4)])
  have "fold (\<lambda>(a, b) s. i128 (s + a * int b)) (zip (row_slice x (nm_cols m) r) y) 0 = int_dot_sum (row_slice x (nm_cols m) r) y"
    if r: "r < nm_rows m" for r
  proof (rule wide_fold [OF _ _ _ y56])
    show "\<bar>row_slice x (nm_cols m) r ! i\<bar> \<le> 2 ^ 55" if "i < length y" for i
      using nth_row_slice [OF r _ w(1), of i] row_slot [OF r, of i "nm_cols m"] that y(1) w(1,2) by (simp add: list_all_length)
  qed (use y w length_row_slice [OF r w(1)] in simp_all)
  then show ?thesis by (simp add: multiply_odd_def x native_product_def native_rows_def)
qed

text \<open>Every storage and every kernel computes the same product.\<close>

lemma multiply_ok:
  assumes wf: "wf_native m"
  shows "multiply cpu m y = (if length y = nm_cols m \<and> all_below (nm_q m) y then Inr (native_product m y) else Inl (LweShape ''invalid native matrix operand''))"
proof (cases "length y = nm_cols m \<and> all_below (nm_q m) y")
  case True
  then have ok: "\<not> (length y \<noteq> nm_cols m \<or> list_ex (\<lambda>x. x \<ge> nm_q m) y)" by (auto simp: list_ex_iff all_below_set)
  have y64: "all_below (2 ^ 64) y" using True wf by (auto simp: wf_native_def elim!: all_below_mono)
  show ?thesis
  proof (cases "is_power_of_two (nm_q m)")
    case False
    then have "multiply_odd cpu m y = Inr (native_product m y)"
      using wf True multiply_odd_narrow [OF wf] multiply_odd_wide [OF wf] by (cases "nm_words m") (auto simp: wf_native_def wf_words_def)
    then show ?thesis using ok True False by (simp add: multiply_def)
  next
    case pow: True
    show ?thesis
    proof (cases "nm_words m")
      case (Narrow x)
      have "mapR concat (collectR (narrow_tile cpu m x y) [0..<div_ceil (nm_rows m) 4]) = Inr (native_product m y)"
        unfolding native_product_tiles [of 4 m y, symmetric, simplified]
        using True by (intro collect_tiles narrow_tile_ok [OF wf pow Narrow _ y64]) simp_all
      then show ?thesis using ok True pow Narrow by (simp add: multiply_def)
    next
      case (Packed bits x)
      define d where "d = (if nm_rows m mod 8 = 0 then 8 else 4 :: nat)"
      have "nm_rows m mod 4 = 0" using wf Packed by (simp add: wf_native_def wf_words_def)
      then have rows: "nm_rows m div d * d = nm_rows m" by (auto simp: d_def)
      have "mapR concat (collectR (packed_tile cpu m bits x y) [0..<nm_rows m div d])
          = Inr (concat (map (\<lambda>t. map (\<lambda>r. rem_euclid (int_dot_sum (native_rows m ! (t * d + r)) y) (nm_q m)) [0..<d]) [0..<nm_rows m div d]))"
        using True by (intro collect_tiles packed_tile_ok [OF wf Packed _ d_def]) simp_all
      also have "\<dots> = Inr (native_product m y)"
        using concat_tiles [of "\<lambda>r. rem_euclid (int_dot_sum (native_rows m ! r) y) (nm_q m)" d "nm_rows m div d"] rows
        by (simp add: native_product_def)
      finally have "mapR concat (collectR (packed_tile cpu m bits x y) [0..<nm_rows m div d]) = Inr (native_product m y)" .
      then show ?thesis using ok True pow Packed by (simp add: multiply_def d_def [symmetric])
    next
      case (Wide x)
      then show ?thesis using ok True pow wide_product [OF wf pow Wide] by (simp add: multiply_def)
    qed
  qed
next
  case False
  then have "length y \<noteq> nm_cols m \<or> list_ex (\<lambda>x. x \<ge> nm_q m) y" by (auto simp: list_ex_iff all_below_set not_less)
  then show ?thesis using False by (simp add: multiply_def)
qed

section \<open>Storing blocks\<close>

definition block_ok :: "nat \<Rightarrow> nat \<Rightarrow> packing_matrix \<Rightarrow> bool" where
  "block_ok rows q b \<longleftrightarrow> pm_rows b = rows \<and> pm_q b = q \<and> 0 < pm_cols b \<and> rows * pm_cols b < 2 ^ 64 \<and> wf_matrix b"

lemma blocks_check_ok:
  "blocks_check rows q bs c = Inr t \<longleftrightarrow> (\<forall>b\<in>set bs. block_ok rows q b) \<and> t = c + (\<Sum>b\<leftarrow>bs. pm_cols b) \<and> (bs = [] \<or> t \<le> 32768)"
proof (induction bs arbitrary: c)
  case (Cons b bs)
  have "\<not> (pm_rows b \<noteq> rows \<or> pm_q b \<noteq> q \<or> pm_cols b = 0 \<or> checked_mul (pm_rows b) (pm_cols b) \<noteq> Some (length (pm_data b)))
      \<and> \<not> list_ex (\<lambda>x. x \<ge> q) (pm_data b) \<longleftrightarrow> block_ok rows q b"
    by (auto simp: block_ok_def wf_matrix_def checked_mul_def list_ex_iff all_below_set not_le split: if_splits)
  then have "blocks_check rows q (b # bs) c = Inr t \<longleftrightarrow> block_ok rows q b \<and> \<not> c + pm_cols b > 32768 \<and> blocks_check rows q bs (c + pm_cols b) = Inr t"
    by auto
  then show ?case unfolding Cons.IH by (auto simp: add.assoc)
qed auto

lemma length_block_row:
  assumes "\<forall>b\<in>set bs. block_ok rows q b" and "r < rows"
  shows "length (block_row q bs r) = (\<Sum>b\<leftarrow>bs. pm_cols b)"
proof -
  have "length (take (pm_cols b) (drop (r * pm_cols b) (pm_data b))) = pm_cols b" if "b \<in> set bs" for b
    using assms that length_row_slice [of r rows "pm_data b" "pm_cols b"] by (simp add: block_ok_def wf_matrix_def row_slice_def)
  then show ?thesis unfolding block_row_def by (simp add: length_concat comp_def cong: map_cong)
qed

lemma block_row_within:
  assumes "entries_within q bs lo hi" and "v \<in> set (block_row q bs r)"
  shows "lo \<le> v \<and> v < hi"
  using assms by (fastforce simp: block_row_def entries_within_def list_all_iff dest: in_set_takeD in_set_dropD)

lemma block_row_centered:
  assumes "\<forall>b\<in>set bs. block_ok rows q b" and "v \<in> set (block_row q bs r)"
  shows "\<bar>v\<bar> \<le> int (q div 2)"
  using assms by (fastforce simp: block_row_def block_ok_def wf_matrix_def all_below_set intro!: centered_bound dest: in_set_takeD in_set_dropD)

lemma row_slice_concat:
  assumes "\<And>r. r < rows \<Longrightarrow> length (f r) = cols" and "r < rows"
  shows "row_slice (concat (map f [0..<rows])) cols r = f r"
proof (rule nth_equalityI)
  have len: "length (concat (map f [0..<rows])) = rows * cols" using assms(1) by (subst length_concat_rows [of _ cols]) auto
  then show eq: "length (row_slice (concat (map f [0..<rows])) cols r) = length (f r)"
    using length_row_slice [OF assms(2) len] assms by simp
  fix c assume "c < length (row_slice (concat (map f [0..<rows])) cols r)"
  then have c: "c < cols" using eq assms by simp
  show "row_slice (concat (map f [0..<rows])) cols r ! c = f r ! c"
    using nth_row_slice [OF assms(2) c len] assms c by (simp add: nth_concat_rows)
qed

lemma concat_upt_split:
  assumes "r < n"
  shows "concat (map f [0..<n]) = concat (map f [0..<r]) @ f r @ concat (map f [Suc r..<n])"
proof -
  have "[0..<n] = [0..<r] @ r # [Suc r..<n]" using assms by (metis le0 le_Suc_ex less_or_eq_imp_le upt_add_eq_append upt_conv_Cons)
  then show ?thesis by simp
qed

lemma packed_storage:
  assumes bits: "bits = 27 \<or> bits = 28" and len: "\<And>r. r < rows \<Longrightarrow> length (f r) = cols" and cols: "cols mod 8 = 0"
    and rng: "\<And>r v. r < rows \<Longrightarrow> v \<in> set (f r) \<Longrightarrow> - (2 ^ (bits - 1)) \<le> v \<and> v < 2 ^ (bits - 1)"
  defines "stride \<equiv> cols div 8 * bits" and "g \<equiv> \<lambda>r. packed_row bits (cols div 8 * bits) (map as_u64 (f r))"
  defines "x \<equiv> concat (map g [0..<rows]) @ replicate 8 0"
  shows "length x = rows * stride + 8" and "all_below 256 x" and "r < rows \<Longrightarrow> packed_entries bits x (r * stride) cols = f r"
proof -
  have b: "0 < bits" "bits \<le> 56" using bits by auto
  have s8: "cols * bits = 8 * stride" using cols unfolding stride_def by (metis dvd_div_mult_self mod_0_imp_dvd mult.assoc mult.commute)
  have row: "length (g r) = stride" "all_below 256 (g r)"
      "k < cols \<Longrightarrow> packed_field (g r) (k * bits) bits = as_u64 (f r ! k) mod 2 ^ bits" if "r < rows" for r k
    using packed_row_props [OF b, of "map as_u64 (f r)" stride] len [OF that] s8 by (simp_all add: g_def stride_def)
  have lc: "length (concat (map g [0..<n])) = n * stride" if "n \<le> rows" for n
    using row(1) that by (subst length_concat_rows [of _ stride]) auto
  show "length x = rows * stride + 8" using lc by (simp add: x_def)
  show x: "all_below 256 x" using row(2) by (auto simp: x_def all_below_set)
  assume r: "r < rows"
  have split: "x = concat (map g [0..<r]) @ g r @ (concat (map g [Suc r..<rows]) @ replicate 8 0)"
    unfolding x_def concat_upt_split [OF r] by simp
  show "packed_entries bits x (r * stride) cols = f r"
  proof (rule nth_equalityI)
    fix k assume "k < length (packed_entries bits x (r * stride) cols)"
    then have k: "k < cols" by simp
    have "k * bits + bits \<le> 8 * length (g r)" using mult_le_mono1 [of "Suc k" cols bits] k s8 row(1) [OF r] by simp
    then have "packed_field x (8 * (r * stride) + k * bits) bits = packed_field (g r) (k * bits) bits"
      using packed_field_shift(1) [of "concat (map g [0..<r])" "g r" "concat (map g [Suc r..<rows]) @ replicate 8 0" bits "k * bits"] x b lc [of r] r
      unfolding split [symmetric] by simp
    also have "\<dots> = nat (f r ! k mod 2 ^ bits)"
    proof -
      have "(2::int) ^ bits dvd 2 ^ 64" using b by (intro le_imp_power_dvd) simp
      then have "int (as_u64 (f r ! k) mod 2 ^ bits) = f r ! k mod 2 ^ bits"
        using mod_mod_cancel [of "2 ^ bits" "2 ^ 64" "f r ! k"] by (simp add: as_u64_def zmod_int)
      then show ?thesis using row(3) [OF r k] by linarith
    qed
    finally show "packed_entries bits x (r * stride) cols ! k = f r ! k"
      using k rng [OF r, of "f r ! k"] len [OF r] sext_round [OF b(1), of "f r ! k"] by (simp add: packed_entries_def)
  qed (simp add: len [OF r])
qed

lemma from_blocks_ok:
  assumes "from_blocks cpu bs = Inr m"
  shows "bs \<noteq> []" and "nm_rows m = pm_rows (hd bs)" and "nm_q m = pm_q (hd bs)" and "nm_cols m = (\<Sum>b\<leftarrow>bs. pm_cols b)"
    and "\<forall>b\<in>set bs. block_ok (nm_rows m) (nm_q m) b" and "wf_native m" and "nm_rows m * nm_cols m < 2 ^ 64"
    and "native_rows m = map (block_row (nm_q m) bs) [0..<nm_rows m]"
proof -
  let ?rows = "pm_rows (hd bs)" and ?q = "pm_q (hd bs)" and ?cols = "\<Sum>b\<leftarrow>bs. pm_cols b"
  let ?packed = "is_power_of_two ?q \<and> ?rows mod 4 = 0 \<and> has_vbmi cpu \<and> entries_within ?q bs (- (2 ^ 27)) (2 ^ 27)"
  let ?bits = "if entries_within ?q bs (- (2 ^ 26)) (2 ^ 26) then 27 else 28 :: nat"
  have ok: "bs \<noteq> []" "2 \<le> ?q" "?q \<le> 2 ^ 56" "0 < ?rows" "\<forall>b\<in>set bs. block_ok ?rows ?q b" "?cols \<le> 32768" "?rows * ?cols < 2 ^ 64"
    and m: "m = (if ?packed \<and> ?cols mod 8 = 0
       then \<lparr>nm_rows = ?rows, nm_cols = ?cols, nm_q = ?q, nm_words = Packed ?bits
            (concat (map (\<lambda>r. packed_row ?bits (?cols div 8 * ?bits) (map as_u64 (block_row ?q bs r))) [0..<?rows]) @ replicate 8 0)\<rparr>
       else \<lparr>nm_rows = ?rows, nm_cols = ?cols, nm_q = ?q, nm_words =
            (if entries_within ?q bs (- (2 ^ 31)) (2 ^ 31) then Narrow else Wide) (concat (map (block_row ?q bs) [0..<?rows]))\<rparr>)"
    using assms by (auto simp: from_blocks_def Let_def blocks_check_ok checked_mul_def split: if_splits)
  show "bs \<noteq> []" by (rule ok(1))
  show dims: "nm_rows m = ?rows" "nm_q m = ?q" "nm_cols m = ?cols" by (simp_all add: m)
  show "\<forall>b\<in>set bs. block_ok (nm_rows m) (nm_q m) b" "nm_rows m * nm_cols m < 2 ^ 64" using ok(5,7) dims by simp_all
  have len: "length (block_row ?q bs r) = ?cols" if "r < ?rows" for r by (rule length_block_row [OF ok(5) that])
  have words: "wf_words m \<and> native_rows m = map (block_row (nm_q m) bs) [0..<nm_rows m]"
  proof (cases "?packed \<and> ?cols mod 8 = 0")
    case True
    define bits where "bits = ?bits"
    have within: "- (2 ^ (bits - 1)) \<le> v \<and> v < 2 ^ (bits - 1)" if "v \<in> set (block_row ?q bs r)" for r v
      using that True block_row_within [of ?q bs _ _ v r] by (auto simp: bits_def)
    have bits: "bits = 27 \<or> bits = 28" by (simp add: bits_def)
    have store: "length x = ?rows * (?cols div 8 * bits) + 8" "all_below 256 x" "\<And>r. r < ?rows \<Longrightarrow> packed_entries bits x (r * (?cols div 8 * bits)) ?cols = block_row ?q bs r"
      if "x = concat (map (\<lambda>r. packed_row bits (?cols div 8 * bits) (map as_u64 (block_row ?q bs r))) [0..<?rows]) @ replicate 8 0" for x
      unfolding that using True by (intro packed_storage [OF bits len _ within]; simp)+
    obtain x where x: "x = concat (map (\<lambda>r. packed_row bits (?cols div 8 * bits) (map as_u64 (block_row ?q bs r))) [0..<?rows]) @ replicate 8 0" by blast
    have "m = \<lparr>nm_rows = ?rows, nm_cols = ?cols, nm_q = ?q, nm_words = Packed bits x\<rparr>" using m [unfolded if_P [OF True]] by (simp only: x bits_def)
    then show ?thesis
      using store [OF x] True bits by (auto simp: wf_words_def native_rows_def)
  next
    case False
    have cen: "\<bar>v\<bar> \<le> 2 ^ 55" if "v \<in> set (block_row ?q bs r)" for r v
    proof -
      have "int (?q div 2) \<le> 2 ^ 55" using ok(3) by simp
      then show ?thesis using block_row_centered [OF ok(5) that] by linarith
    qed
    have "length (concat (map (block_row ?q bs) [0..<?rows])) = ?rows * ?cols"
      using len by (subst length_concat_rows [of _ ?cols]) auto
    then show ?thesis
      using False cen block_row_within [of ?q bs "- (2 ^ 31)" "2 ^ 31"] row_slice_concat [of ?rows "block_row ?q bs" ?cols, OF len]
      by (auto simp: wf_words_def native_rows_def m list_all_iff)
  qed
  then show "wf_native m" using ok dims by (simp add: wf_native_def)
  show "native_rows m = map (block_row (nm_q m) bs) [0..<nm_rows m]" using words by blast
qed

lemma to_compiled_ok:
  assumes wf: "wf_native m"
  shows "to_compiled m = Inr \<lparr>pm_rows = nm_rows m, pm_cols = nm_cols m, pm_q = nm_q m, pm_data = map (\<lambda>v. rem_euclid v (nm_q m)) (concat (native_rows m))\<rparr>"
proof -
  let ?n = "nm_rows m * nm_cols m"
  have flat: "take ?n x = concat (map (row_slice x (nm_cols m)) [0..<nm_rows m])" if "length x = ?n" for x :: "int list"
  proof (rule nth_equalityI)
    have lr: "\<forall>xs\<in>set (map (row_slice x (nm_cols m)) [0..<nm_rows m]). length xs = nm_cols m" using that by (auto intro: length_row_slice)
    show len: "length (take ?n x) = length (concat (map (row_slice x (nm_cols m)) [0..<nm_rows m]))"
      using that length_concat_rows [OF lr] by simp
    fix i assume "i < length (take ?n x)"
    then have i: "i < ?n" by simp
    then have c: "0 < nm_cols m" by (cases "nm_cols m") auto
    then have rc: "i div nm_cols m < nm_rows m" "i mod nm_cols m < nm_cols m" using i by (simp_all add: less_mult_imp_div_less)
    show "take ?n x ! i = concat (map (row_slice x (nm_cols m)) [0..<nm_rows m]) ! i"
      using nth_concat_rows [OF lr, of "i div nm_cols m" "i mod nm_cols m"] rc i nth_row_slice [OF rc that] by simp
  qed
  show ?thesis
  proof (cases "nm_words m")
    case (Packed bits x)
    let ?s = "nm_cols m div 8 * bits"
    have w: "bits = 27 \<or> bits = 28" "nm_cols m mod 8 = 0" "length x = nm_rows m * ?s + 8" "all_below 256 x"
      using wf Packed by (simp_all add: wf_native_def wf_words_def)
    have s8: "nm_cols m * bits = 8 * ?s" using w(2) by (metis dvd_div_mult_self mod_0_imp_dvd mult.assoc mult.commute)
    have "read_packed bits x i = Inr (sext bits (packed_field x (i * bits) bits))" if "i < ?n" for i
    proof -
      have "i * bits div 8 \<le> ?n * bits div 8" using that by (intro div_le_mono mult_le_mono1) simp
      also have "\<dots> = nm_rows m * ?s" using s8 by (metis mult.assoc mult.left_commute nonzero_mult_div_cancel_left zero_neq_numeral)
      finally show ?thesis using w by (intro read_packed_ok) auto
    qed
    then have "collectR (read_packed bits x) [0..<?n] = Inr (map (\<lambda>i. sext bits (packed_field x (i * bits) bits)) [0..<?n])"
      by (intro collectR_all_Inr) simp
    moreover have "map (\<lambda>i. sext bits (packed_field x (i * bits) bits)) [0..<?n] = concat (native_rows m)"
    proof -
      have "native_rows m = map (\<lambda>r. map (\<lambda>c. sext bits (packed_field x ((r * nm_cols m + c) * bits) bits)) [0..<nm_cols m]) [0..<nm_rows m]"
        using s8 Packed by (auto simp: native_rows_def packed_entries_def algebra_simps)
      then show ?thesis using concat_tiles [of "\<lambda>i. sext bits (packed_field x (i * bits) bits)" "nm_cols m" "nm_rows m"] by simp
    qed
    ultimately show ?thesis using Packed by (simp add: to_compiled_def)
  qed (use wf flat in \<open>simp_all add: to_compiled_def wf_native_def wf_words_def native_rows_def\<close>)
qed

text \<open>The concatenation that \<^const>\<open>hstack\<close> builds holds the residues of the signed rows.\<close>

lemma hstack_check_cols:
  "hstack_check rows q bs c = Inr t \<Longrightarrow> t = c + (\<Sum>b\<leftarrow>bs. pm_cols b) \<and> (\<forall>b\<in>set bs. pm_rows b = rows \<and> pm_q b = q)"
proof (induction bs arbitrary: c)
  case (Cons b bs)
  from Cons.prems have "hstack_check rows q bs (c + pm_cols b) = Inr t" "pm_rows b = rows" "pm_q b = q" by auto
  then show ?case using Cons.IH [of "c + pm_cols b"] by (simp add: add.assoc)
qed simp

lemma rem_centered: "x < q \<Longrightarrow> rem_euclid (centered x q) q = x"
  by (auto simp: rem_euclid_def centered_def)

lemma block_row_residues:
  assumes "\<forall>b\<in>set bs. block_ok rows q b" and r: "r < rows"
  shows "concat (map (\<lambda>b. map (mget b r) [0..<pm_cols b]) bs) = map (\<lambda>v. rem_euclid v q) (block_row q bs r)"
proof -
  have "map (mget b r) [0..<pm_cols b] = map (\<lambda>v. rem_euclid v q) (map (\<lambda>x. centered x q) (row_slice (pm_data b) (pm_cols b) r))" if "b \<in> set bs" for b
  proof (rule nth_equalityI)
    have b: "length (pm_data b) = rows * pm_cols b" "all_below q (pm_data b)" using assms(1) that by (auto simp: block_ok_def wf_matrix_def)
    show "length (map (mget b r) [0..<pm_cols b]) = length (map (\<lambda>v. rem_euclid v q) (map (\<lambda>x. centered x q) (row_slice (pm_data b) (pm_cols b) r)))"
      using length_row_slice [OF r b(1)] by simp
    fix c assume "c < length (map (mget b r) [0..<pm_cols b])"
    then have c: "c < pm_cols b" by simp
    have "r * pm_cols b + c < length (pm_data b)" using row_slot [OF r c] b(1) by simp
    then have "mget b r c < q" unfolding mget_def by (rule all_below_nth [OF b(2)])
    then show "map (mget b r) [0..<pm_cols b] ! c = map (\<lambda>v. rem_euclid v q) (map (\<lambda>x. centered x q) (row_slice (pm_data b) (pm_cols b) r)) ! c"
      using c length_row_slice [OF r b(1)] nth_row_slice [OF r c b(1)] by (simp add: mget_def rem_centered)
  qed
  then show ?thesis by (simp add: block_row_def map_concat comp_def row_slice_def cong: map_cong)
qed

lemma hstack_native:
  assumes m: "from_blocks cpu bs = Inr m" and h: "hstack bs = Inr h"
  shows "h = \<lparr>pm_rows = nm_rows m, pm_cols = nm_cols m, pm_q = nm_q m, pm_data = map (\<lambda>v. rem_euclid v (nm_q m)) (concat (native_rows m))\<rparr>"
proof -
  note ok = from_blocks_ok [OF m]
  have "h = \<lparr>pm_rows = nm_rows m, pm_cols = nm_cols m, pm_q = nm_q m,
      pm_data = concat (map (\<lambda>r. concat (map (\<lambda>b. map (mget b r) [0..<pm_cols b]) bs)) [0..<nm_rows m])\<rparr>"
    using h ok(1-4) by (cases bs) (auto simp: hstack_def dest!: hstack_check_cols)
  also have "concat (map (\<lambda>r. concat (map (\<lambda>b. map (mget b r) [0..<pm_cols b]) bs)) [0..<nm_rows m])
      = map (\<lambda>v. rem_euclid v (nm_q m)) (concat (native_rows m))"
    using block_row_residues [OF ok(5)] unfolding ok(8) map_concat map_map by (intro arg_cong [where f = concat] map_cong) simp_all
  finally show ?thesis .
qed

lemma native_product_matvec:
  assumes wf: "wf_native m" and small: "nm_rows m * nm_cols m < 2 ^ 64" and y: "length y = nm_cols m"
    and h: "h = \<lparr>pm_rows = nm_rows m, pm_cols = nm_cols m, pm_q = nm_q m, pm_data = map (\<lambda>v. rem_euclid v (nm_q m)) (concat (native_rows m))\<rparr>"
  shows "matvec h y (replicate (nm_rows m) 0) = Inr (native_product m y)"
proof -
  let ?q = "nm_q m"
  have q: "2 \<le> ?q" "?q \<le> 2 ^ 56" "nm_cols m \<le> 32768" using wf by (simp_all add: wf_native_def)
  have rows: "\<forall>xs\<in>set (native_rows m). length xs = nm_cols m" "length (native_rows m) = nm_rows m"
    using length_native_row [OF wf] by (auto simp: in_set_conv_nth length_native_rows)
  have len: "length (concat (native_rows m)) = nm_rows m * nm_cols m" using length_concat_rows [OF rows(1)] rows(2) by simp
  have less: "rem_euclid v ?q < ?q" for v using q(1) by (simp add: rem_euclid_def nat_less_iff)
  have "wf_matrix h" using len less by (simp add: wf_matrix_def h all_below_set)
  then have "matvec h y (replicate (nm_rows m) 0) = Inr (matvec_spec h y)"
    using q small y by (intro matvec_ok) (simp_all add: h)
  also have "matvec_spec h y = native_product m y"
    unfolding matvec_spec_def native_product_def
  proof (rule map_cong, simp add: h)
    fix r assume "r \<in> set [0..<nm_rows m]"
    then have r: "r < nm_rows m" by simp
    have e: "mget h r c = rem_euclid (native_rows m ! r ! c) ?q" if "c < nm_cols m" for c
      using nth_concat_rows [OF rows(1), of r c] r that rows(2) row_slot [OF r that] len by (simp add: h mget_def)
    have "eqm ?q (int (\<Sum>c<nm_cols m. mget h r c * y ! c)) (int_dot_sum (native_rows m ! r) y)"
      unfolding int_dot_sum_def y of_nat_sum of_nat_mult using q(1) e
      by (intro eqm_sum eqm_mult) (auto simp: eqm_mod_iff rem_euclid_def)
    then show "(\<Sum>c<pm_cols h. mget h r c * y ! c) mod pm_q h = rem_euclid (int_dot_sum (native_rows m ! r) y) ?q"
      unfolding eqm_mod_iff zmod_int [symmetric] by (simp add: h rem_euclid_def nat_eq_iff) 
  qed
  finally show ?thesis .
qed

section \<open>Properties\<close>

text \<open>C33. Compact storage loses nothing: whatever width the entries and the processor select, reading the
  stored words back gives exactly the horizontal concatenation of the compiled blocks.\<close>

theorem native_matrix_roundtrip:
  assumes "from_blocks cpu blocks = Inr m" and "hstack blocks = Inr h"
  shows "to_compiled m = Inr h"
  using to_compiled_ok [OF from_blocks_ok(6) [OF assms(1)]] hstack_native [OF assms] by simp

text \<open>C11. The packed, 32-bit and 64-bit kernels, the power-of-two masks and the odd-modulus limb sums all
  compute the product by the concatenated matrix; operands of the wrong shape are rejected, and no index
  or width assertion of the kernels can fail.\<close>

theorem native_matrix_multiply:
  assumes "from_blocks cpu blocks = Inr m" and "hstack blocks = Inr h"
  shows "multiply cpu' m y =
    (if length y = pm_cols h \<and> all_below (pm_q h) y then matvec h y (replicate (pm_rows h) 0) else Inl (LweShape ''invalid native matrix operand''))"
proof -
  note ok = from_blocks_ok [OF assms(1)] and h = hstack_native [OF assms]
  show ?thesis
    using multiply_ok [OF ok(6), of cpu' y] native_product_matvec [OF ok(6,7) _ h, of y] by (simp add: h)
qed

text \<open>Two blocks stored at 27 bits by a processor with the byte-permute extension.\<close>

definition demo_blocks :: "packing_matrix list" where
  "demo_blocks = [\<lparr>pm_rows = 4, pm_cols = 4, pm_q = 256, pm_data = [0, 1, 2, 3, 252, 253, 254, 255, 128, 129, 127, 9, 17, 200, 40, 5]\<rparr>,
     \<lparr>pm_rows = 4, pm_cols = 4, pm_q = 256, pm_data = [7, 7, 250, 1, 0, 0, 33, 131, 64, 65, 66, 199, 3, 2, 1, 0]\<rparr>]"

definition demo_stack :: packing_matrix where
  "demo_stack = \<lparr>pm_rows = 4, pm_cols = 8, pm_q = 256, pm_data =
     [0, 1, 2, 3, 7, 7, 250, 1, 252, 253, 254, 255, 0, 0, 33, 131, 128, 129, 127, 9, 64, 65, 66, 199, 17, 200, 40, 5, 3, 2, 1, 0]\<rparr>"

definition demo_native :: native_matrix where
  "demo_native = \<lparr>nm_rows = 4, nm_cols = 8, nm_q = 256, nm_words = Packed 27
     (concat (map (\<lambda>r. packed_row 27 27 (map as_u64 (block_row 256 demo_blocks r))) [0..<4]) @ replicate 8 0)\<rparr>"

lemma demo_native:
  "from_blocks \<lparr>has_avx2 = True, has_avx512 = True, has_vnni = True, has_vbmi = True\<rparr> demo_blocks = Inr demo_native"
proof -
  have "is_power_of_two 256" unfolding is_power_of_two_iff by (rule exI [of _ 8]) simp
  then show ?thesis
    by (simp add: from_blocks_def demo_native_def Let_def demo_blocks_def entries_within_def centered_def checked_mul_def del: upt_Suc)
qed

lemma demo_stack: "hstack demo_blocks = Inr demo_stack"
  by code_simp

theorem native_matrix_roundtrip_witness: "to_compiled demo_native = Inr demo_stack \<and> storage demo_native = Packed27"
  using native_matrix_roundtrip [OF demo_native demo_stack] by (simp add: storage_def demo_native_def)

theorem native_matrix_multiply_witness:
  "multiply \<lparr>has_avx2 = True, has_avx512 = False, has_vnni = False, has_vbmi = False\<rparr> demo_native [1, 2, 3, 4, 255, 6, 7, 8]
      = matvec demo_stack [1, 2, 3, 4, 255, 6, 7, 8] (replicate 4 0)
    \<and> multiply \<lparr>has_avx2 = True, has_avx512 = False, has_vnni = False, has_vbmi = False\<rparr> demo_native [1, 2]
      = Inl (LweShape ''invalid native matrix operand'')"
  using native_matrix_multiply [OF demo_native demo_stack] by (simp add: demo_stack_def)

end
