(* ===== verification/Native_Pack.thy ===== *)
theory Native_Pack
  imports Native_Keys Native_Aggregate Native_Matrix
begin

text \<open>
  Preprocessing and packing under the native profile (\<open>NativePreprocessed\<close>, \<open>PreparedNativeKeys\<close> and
  \<open>PendingNativePack\<close> of \<open>reinspiring/src/native.rs\<close>): the aggregation of the LWE masks, the two
  collapse chains of public key switches, the compiled matrix, and the online product. The build is
  the one without noise accounting (\<open>analyze = false\<close> and no research widths), the configuration of
  \<open>build\<close>, \<open>build_two_mask\<close> and \<open>build_batch\<close>; timings are left out.
\<close>

section \<open>Model: preprocessing\<close>

record native_preprocessed =
  pre_params :: native_params
  pre_id :: "byte list"
  pre_a :: "nat list"
  pre_a_other :: "nat list option"
  pre_h :: native_matrix
  pre_leftover :: "prepared_lift_operand option"
  pre_lift :: lift_context

text \<open>\<open>slots.push(std::mem::take(&mut agg[i]))\<close>, over the two loops of exponents.\<close>

definition take_slot :: "nat \<Rightarrow> nat list list \<times> nat list list \<Rightarrow> nat list list \<times> nat list list" where
  "take_slot i st = (case st of (agg, slots) \<Rightarrow> (agg[i := []], slots @ [agg ! i]))"

definition reorder_slots :: "nat \<Rightarrow> nat list list \<Rightarrow> nat list list" where
  "reorder_slots d agg =
     (let (g1, st1) = fold (\<lambda>_ (g, st). (g * 5 mod (2 * d), take_slot ((g - 1) div 2) st)) [0..<d div 2] (1, (agg, []));
          (g2, st2) = fold (\<lambda>_ (g, st). (g * 5 mod (2 * d), take_slot (((2 * d - g) mod (2 * d) - 1) div 2) st)) [0..<d div 2] (1, st1)
      in snd st2)"

text \<open>One half of the trace: fold slot \<open>idx\<close> into slot \<open>idx - 1\<close>, from the last slot down.\<close>

fun trace_loop ::
    "ntt_engine \<Rightarrow> native_params \<Rightarrow> lift_context \<Rightarrow> prepared_public_dot \<Rightarrow> nat list \<Rightarrow> nat \<Rightarrow> nat list list \<Rightarrow> nat list list list
      \<Rightarrow> nat \<Rightarrow> (nat list list \<times> nat list list list) result" where
  "trace_loop eng p ctx dot exps step half digits 0 = Inr (half, digits)"
| "trace_loop eng p ctx dot exps step half digits (Suc idx) =
     bindR (decompose (half ! Suc idx) p) (\<lambda>ds.
       case invert_uint_mod eng (exps ! step) (2 * np_d p) of
         None \<Rightarrow> Inl (Panic ''unwrap on None'')
       | Some inv_e \<Rightarrow>
           bindR (public_dot eng ctx dot (map (\<lambda>x. tau_coeffs x inv_e (np_q p)) ds)) (\<lambda>u.
             let update = tau_coeffs u (exps ! step) (np_q p);
                 half' = half[idx := map2 (\<lambda>a x. u64 (a + x) AND (np_q p - 1)) (half ! idx) update]
             in trace_loop eng p ctx dot exps (step + 1) half' (digits @ [ds]) idx))"

definition trace_half ::
    "ntt_engine \<Rightarrow> native_params \<Rightarrow> lift_context \<Rightarrow> prepared_public_dot \<Rightarrow> nat list list \<Rightarrow> nat list \<Rightarrow> (nat list list \<times> nat list list list) result" where
  "trace_half eng p ctx dot half exps = trace_loop eng p ctx dot exps 0 half [] (length half - 1)"

definition compile_limb :: "native_params \<Rightarrow> nat list \<Rightarrow> nat list list list \<Rightarrow> nat \<Rightarrow> packing_matrix result" where
  "compile_limb p exponents digits j =
     (if np_d p = 2 then Inr (zero_matrix (np_d p) (np_d p) (np_q p))
      else compile_fast (map (\<lambda>x. x ! j) digits) exponents (np_q p))"

definition build_internal ::
    "ntt_engine \<Rightarrow> cpu_features \<Rightarrow> native_setup \<Rightarrow> nat list list \<Rightarrow> bool \<Rightarrow> native_preprocessed result" where
  "build_internal eng cpu setup masks two_mask =
     (let p = ns_params setup; d = np_d p; q = np_q p
      in guardR (length masks \<noteq> d) (InvalidParams ''expected d mask rows'')
        (bindR (collectR (\<lambda>row. validate_poly row p) masks) (\<lambda>_.
         bindR (new_lift_context eng d q) (\<lambda>ctx.
           let slots = reorder_slots d (aggregate_masks masks q); exponents = collapse_kg_exponents d;
               bound = min (2 ^ (np_bits p - 1)) (q div 2)
           in bindR (prepare_public_dot eng ctx (ns_w setup) bound) (\<lambda>public_w.
              bindR (if two_mask then Inr None else mapR Some (prepare_public_dot eng ctx (ns_v setup) bound)) (\<lambda>public_v.
              bindR (trace_half eng p ctx public_w (take (d div 2) slots) (take (d div 2 - 1) exponents)) (\<lambda>(left, left_digits).
              bindR (trace_half eng p ctx public_w (drop (d div 2) slots) (drop (d div 2 - 1) exponents)) (\<lambda>(right, right_digits).
                let digits = left_digits @ right_digits
                in bindR (if two_mask then Inr None else mapR Some (decompose (right ! 0) p)) (\<lambda>last.
                   bindR (case (last, public_v) of
                            (Some ds, Some dot) \<Rightarrow>
                              mapR (\<lambda>update. map2 (\<lambda>a x. u64 (a + x) AND (q - 1)) (left ! 0) update) (public_dot eng ctx dot ds)
                          | _ \<Rightarrow> Inr (left ! 0)) (\<lambda>a.
                   bindR (collectR (compile_limb p exponents digits) [0..<np_ell p]) (\<lambda>blocks.
                   bindR (from_blocks cpu blocks) (\<lambda>h.
                   bindR (case last of None \<Rightarrow> Inr None | Some ds \<Rightarrow> mapR Some (prepare_public eng ctx ds)) (\<lambda>leftover.
                     Inr \<lparr>pre_params = p, pre_id = ns_id setup, pre_a = a,
                          pre_a_other = (if two_mask then Some (right ! 0) else None),
                          pre_h = h, pre_leftover = leftover, pre_lift = ctx\<rparr>)))))))))))))"

definition build :: "ntt_engine \<Rightarrow> cpu_features \<Rightarrow> native_setup \<Rightarrow> nat list list \<Rightarrow> native_preprocessed result" where
  "build eng cpu setup masks = build_internal eng cpu setup masks False"

definition build_two_mask :: "ntt_engine \<Rightarrow> cpu_features \<Rightarrow> native_setup \<Rightarrow> nat list list \<Rightarrow> native_preprocessed result" where
  "build_two_mask eng cpu setup masks = build_internal eng cpu setup masks True"

text \<open>\<open>slice::chunks\<close>: the last chunk may be short.\<close>

function chunks :: "nat \<Rightarrow> 'a list \<Rightarrow> 'a list list" where
  "chunks n xs = (if n = 0 \<or> xs = [] then [] else take n xs # chunks n (drop n xs))"
  by pat_completeness auto
termination
  by (relation "measure (\<lambda>(n, xs). length xs)") auto

declare chunks.simps [simp del]

definition build_batch ::
    "ntt_engine \<Rightarrow> cpu_features \<Rightarrow> native_setup \<Rightarrow> nat list list list \<Rightarrow> nat \<Rightarrow> native_preprocessed list result" where
  "build_batch eng cpu setup masks concurrent_blocks =
     guardR (concurrent_blocks = 0) (InvalidParams ''zero preprocessing concurrency'')
       (mapR concat (collectR (\<lambda>batch. collectR (build eng cpu setup) batch) (chunks concurrent_blocks masks)))"

section \<open>Model: packing\<close>

record prepared_native_keys =
  pk_id :: "byte list"
  pk_y :: "nat list"
  pk_kh :: "prepared_lift_right option"

record pending_native_pack =
  pp_pre :: native_preprocessed
  pp_body :: "nat list"

definition prepare_keys :: "ntt_engine \<Rightarrow> native_preprocessed \<Rightarrow> native_keys \<Rightarrow> prepared_native_keys result" where
  "prepare_keys eng pre keys =
     (let p = pre_params pre
      in guardR (nk_id keys \<noteq> pre_id pre \<or> length (nk_kg keys) \<noteq> np_ell p
            \<or> (pre_a_other pre \<noteq> None \<and> nk_kh keys \<noteq> []) \<or> (pre_a_other pre = None \<and> length (nk_kh keys) \<noteq> np_ell p))
           (InvalidParams ''packing setup mismatch'')
         (bindR (if pre_a_other pre \<noteq> None then Inr None
                 else mapR Some (prepare_bounded_right eng (pre_lift pre) (nk_kh keys) (min (2 ^ (np_bits p - 1)) (np_q p div 2)))) (\<lambda>kh.
            Inr \<lparr>pk_id = nk_id keys, pk_y = concat (nk_kg keys), pk_kh = kh\<rparr>)))"

definition prepare_pack :: "ntt_engine \<Rightarrow> cpu_features \<Rightarrow> native_preprocessed \<Rightarrow> prepared_native_keys \<Rightarrow> pending_native_pack result" where
  "prepare_pack eng cpu pre keys =
     guardR (pk_id keys \<noteq> pre_id pre) (InvalidParams ''prepared packing setup mismatch'')
       (bindR (multiply cpu (pre_h pre) (pk_y keys)) (\<lambda>body.
          case (pre_leftover pre, pk_kh keys) of
            (Some leftover, Some kh) \<Rightarrow>
              mapR (\<lambda>product. \<lparr>pp_pre = pre, pp_body = map2 (\<lambda>dst x. u64 (dst + x) AND (np_q (pre_params pre) - 1)) body product\<rparr>)
                (sum_cached eng (pre_lift pre) leftover kh)
          | _ \<Rightarrow> Inr \<lparr>pp_pre = pre, pp_body = body\<rparr>))"

definition finish :: "pending_native_pack \<Rightarrow> nat list \<Rightarrow> native_ciphertext result" where
  "finish pd b =
     (let pre = pp_pre pd
      in guardR (pre_a_other pre \<noteq> None) (InvalidParams ''two-mask preprocessing requires finish_two_mask'')
         (bindR (validate_poly b (pre_params pre)) (\<lambda>_.
            ciphertext_from_rows (pre_params pre) (pre_a pre)
              (map2 (\<lambda>dst x. u64 (dst + x) AND (np_q (pre_params pre) - 1)) (pp_body pd) b))))"

definition finish_two_mask :: "pending_native_pack \<Rightarrow> nat list \<Rightarrow> native_two_mask_ciphertext result" where
  "finish_two_mask pd b =
     (let pre = pp_pre pd
      in bindR (validate_poly b (pre_params pre)) (\<lambda>_.
           case pre_a_other pre of
             None \<Rightarrow> Inl (InvalidParams ''one-mask preprocessing'')
           | Some other \<Rightarrow>
               two_mask_from_rows (pre_params pre) (pre_a pre) other
                 (map2 (\<lambda>dst x. u64 (dst + x) AND (np_q (pre_params pre) - 1)) (pp_body pd) b)))"

definition pack :: "ntt_engine \<Rightarrow> cpu_features \<Rightarrow> native_preprocessed \<Rightarrow> nat list \<Rightarrow> native_keys \<Rightarrow> native_ciphertext result" where
  "pack eng cpu pre b keys =
     (let p = pre_params pre
      in guardR (pre_a_other pre \<noteq> None) (InvalidParams ''two-mask preprocessing requires pack_two_mask'')
        (bindR (validate_poly b p) (\<lambda>_.
         guardR (nk_id keys \<noteq> pre_id pre \<or> length (nk_kg keys) \<noteq> np_ell p \<or> length (nk_kh keys) \<noteq> np_ell p)
           (InvalidParams ''packing setup mismatch'')
         (bindR (multiply cpu (pre_h pre) (concat (nk_kg keys))) (\<lambda>out.
            case pre_leftover pre of
              None \<Rightarrow> Inl (Panic ''unwrap on None'')
            | Some op \<Rightarrow>
                bindR (sum_prepared eng (pre_lift pre) op (nk_kh keys)) (\<lambda>leftover.
                  ciphertext_from_rows p (pre_a pre)
                    (map (\<lambda>i. u64 (u64 (out ! i + leftover ! i) + b ! i) AND (np_q p - 1)) [0..<np_d p])))))))"

definition pack_two_mask :: "cpu_features \<Rightarrow> native_preprocessed \<Rightarrow> nat list \<Rightarrow> native_keys \<Rightarrow> native_two_mask_ciphertext result" where
  "pack_two_mask cpu pre b keys =
     (let p = pre_params pre
      in bindR (validate_poly b p) (\<lambda>_.
         guardR (nk_id keys \<noteq> pre_id pre \<or> length (nk_kg keys) \<noteq> np_ell p \<or> nk_kh keys \<noteq> [])
           (InvalidParams ''packing key mode mismatch'')
         (case pre_a_other pre of
            None \<Rightarrow> Inl (InvalidParams ''one-mask preprocessing'')
          | Some other \<Rightarrow>
              bindR (multiply cpu (pre_h pre) (kg_words keys)) (\<lambda>out.
                two_mask_from_rows p (pre_a pre) other
                  (map2 (\<lambda>dst x. u64 (dst + x) AND (np_q p - 1)) out b)))))"

definition matrix_product :: "cpu_features \<Rightarrow> native_preprocessed \<Rightarrow> native_keys \<Rightarrow> nat list result" where
  "matrix_product cpu pre keys =
     guardR (nk_id keys \<noteq> pre_id pre \<or> length (nk_kg keys) \<noteq> np_ell (pre_params pre)) (InvalidParams ''packing setup mismatch'')
       (multiply cpu (pre_h pre) (concat (nk_kg keys)))"

definition leftover_product :: "ntt_engine \<Rightarrow> native_preprocessed \<Rightarrow> native_keys \<Rightarrow> nat list result" where
  "leftover_product eng pre keys =
     guardR (nk_id keys \<noteq> pre_id pre \<or> length (nk_kh keys) \<noteq> np_ell (pre_params pre)) (InvalidParams ''packing setup mismatch'')
       (case pre_leftover pre of
          None \<Rightarrow> Inl (InvalidParams ''no leftover in two-mask mode'')
        | Some op \<Rightarrow> sum_prepared eng (pre_lift pre) op (nk_kh keys))"

definition coefficient_bytes :: "native_preprocessed \<Rightarrow> nat" where
  "coefficient_bytes pre =
     storage_bytes (pre_h pre) + (case pre_leftover pre of None \<Rightarrow> 0 | Some op \<Rightarrow> plo_storage_bytes op)
       + np_d (pre_params pre) * 8 * (1 + (if pre_a_other pre \<noteq> None then 1 else 0))"

end
