(* ===== verification/Native_Trace.thy ===== *)
theory Native_Trace
  imports Native_Pack
begin

text \<open>
  The key-switch trace of the native packer: one key switch replaces a mask under an automorphic
  secret by a mask under another secret plus digits times key bodies, up to a bounded error, and a
  collapse chain adds up the switches from the last slot to the first.
\<close>

section \<open>Closeness of antiperiodic functions\<close>

lemma near_fun:
  assumes d: "0 < d" and F: "antiper d F" and H: "antiper d H"
    and near: "\<And>i. i < d \<Longrightarrow> near q r (F (int i)) (H (int i))"
  shows "\<exists>e. antiper d e \<and> (\<forall>k. \<bar>e k\<bar> \<le> r) \<and> (\<forall>k. eqm q (H k) (F k + e k))"
proof -
  have "\<exists>x. i < d \<longrightarrow> \<bar>x\<bar> \<le> r \<and> eqm q (H (int i)) (F (int i) + x)" for i
    using near [of i] by (cases "i < d") (auto simp: near_def eqm_mod_iff)
  then obtain x where x: "\<And>i. i < d \<Longrightarrow> \<bar>x i\<bar> \<le> r \<and> eqm q (H (int i)) (F (int i) + x i)" by metis
  define e where "e = iext (map x [0..<d])"
  have anti: "antiper d e" using iext_antiper [of "map x [0..<d]"] d by (simp add: e_def)
  have at: "e (int i) = x i" if "i < d" for i using that by (simp add: e_def iext_nth)
  have "\<bar>e k\<bar> \<le> r" for k using x at by - (rule antiper_bound [OF d anti], simp)
  moreover have "eqm q (H k) (F k + e k)" for k
  proof (rule antiper_eqm [OF H antiper_add [OF F anti] d])
    fix i assume "i < d"
    then show "eqm q (H (int i)) (F (int i) + e (int i))" using x [of i] at [of i] by simp
  qed
  ultimately show ?thesis using anti by blast
qed

lemma near_sum: "(\<And>i. i \<in> set xs \<Longrightarrow> near q (r i) (f i) (y i)) \<Longrightarrow> near q (\<Sum>i\<leftarrow>xs. r i) (\<Sum>i\<leftarrow>xs. f i) (\<Sum>i\<leftarrow>xs. y i)"
  by (induction xs) (simp_all add: near_refl near_add)

section \<open>Machine operations as functions\<close>

lemma ext_centred: "canon q d p \<Longrightarrow> eqm q (ext p k) (iext (centred q p) k)"
proof -
  assume p: "canon q d p"
  have "eqm q (iext (centred q p) k) (ext p k)"
    using canonD [OF p] canon_antiper [OF p] eqm_sym [OF centered_eqm] by (intro iext_eqm) (simp_all add: ext_nth)
  then show ?thesis by (rule eqm_sym)
qed

lemma iext_centred_bound:
  assumes "canon q d p" and "\<And>i. i < d \<Longrightarrow> \<bar>centered (p ! i) q\<bar> \<le> B"
  shows "antiper d (iext (centred q p))" and "\<bar>iext (centred q p) k\<bar> \<le> B"
proof -
  have d: "0 < d" "length (centred q p) = d" using canonD [OF assms(1)] by simp_all
  show anti: "antiper d (iext (centred q p))" by (rule iext_antiper [of "centred q p", unfolded d(2), OF d(1)])
  show "\<bar>iext (centred q p) k\<bar> \<le> B"
    using assms(2) d canonD(4) [OF assms(1)] by - (rule antiper_bound [OF d(1) anti], simp add: iext_nth)
qed

lemma ext_ring_dot:
  assumes "0 < d" and "q \<le> 2 ^ 62" and len: "length as = length bs" and as: "\<And>i. i < length as \<Longrightarrow> canon q d (as ! i)" and bs: "\<And>i. i < length as \<Longrightarrow> canon q d (bs ! i)"
    and ne: "as \<noteq> []"
  shows "canon q d (ring_dot q d as bs)"
    and "eqm q (ext (ring_dot q d as bs) k) (\<Sum>i<length as. conv d (ext (as ! i)) (ext (bs ! i)) k)"
proof -
  have q: "0 < q" using canonD(1) [OF as [of 0]] ne by simp
  show c: "canon q d (ring_dot q d as bs)" using assms(1,2) q by (auto simp: canon_def ring_dot_def all_below_set)
  have sum: "(\<Sum>(a, b)\<leftarrow>zip as bs. f a b) = (\<Sum>i<length as. f (as ! i) (bs ! i))" for f :: "nat list \<Rightarrow> nat list \<Rightarrow> nat"
    using len by (simp add: sum_list_sum_nth atLeast0LessThan case_prod_beta)
  have anti: "antiper d (\<lambda>k. \<Sum>i<length as. conv d (ext (as ! i)) (ext (bs ! i)) k)"
    using bs by (intro antiper_sum conv_antiper canon_antiper) simp
  have "eqm q (ext (ring_dot q d as bs) (int k)) (\<Sum>i<length as. conv d (ext (as ! i)) (ext (bs ! i)) (int k))" if k: "k < d" for k
  proof -
    have "ext (ring_dot q d as bs) (int k) = int ((\<Sum>i<length as. schoolbook_negacyclic (as ! i) (bs ! i) q ! k) mod q)"
      using k by (simp add: ring_dot_def ext_nth sum)
    also have "eqm q \<dots> (int (\<Sum>i<length as. schoolbook_negacyclic (as ! i) (bs ! i) q ! k))" by (rule eqm_nat_mod)
    also have "eqm q \<dots> (\<Sum>i<length as. conv d (ext (as ! i)) (ext (bs ! i)) (int k))"
      unfolding of_nat_sum
    proof (rule eqm_sum)
      fix i assume "i \<in> {..<length as}"
      then have i: "i < length as" by simp
      have "length (schoolbook_negacyclic (as ! i) (bs ! i) q) = d"
        using canonD(4) [OF schoolbook_negacyclic_nth(1) [OF as [OF i] bs [OF i]]] .
      then show "eqm q (int (schoolbook_negacyclic (as ! i) (bs ! i) q ! k)) (conv d (ext (as ! i)) (ext (bs ! i)) (int k))"
        using ext_schoolbook [OF as [OF i] bs [OF i], of "int k"] k by (simp add: ext_nth)
    qed
    finally show ?thesis .
  qed
  then show "eqm q (ext (ring_dot q d as bs) k) (\<Sum>i<length as. conv d (ext (as ! i)) (ext (bs ! i)) k)"
    using antiper_eqm [OF canon_antiper [OF c] anti assms(1)] by blast
qed

lemma ext_masked_sum:
  assumes good: "good_native p" and a: "canon (np_q p) (np_d p) a" and b: "canon (np_q p) (np_d p) b"
  defines "c \<equiv> map2 (\<lambda>a x. u64 (a + x) AND (np_q p - 1)) a b"
  shows "canon (np_q p) (np_d p) c" and "eqm (np_q p) (ext c k) (ext a k + ext b k)"
proof -
  have el: "u64 x AND (np_q p - 1) < np_q p" "eqm (np_q p) (int (u64 x AND (np_q p - 1))) (int x)" for x
    using mask_sum [OF good] by blast+
  have len: "length a = np_d p" "length b = np_d p" "0 < np_d p" using canonD [OF a] canonD [OF b] by simp_all
  show "canon (np_q p) (np_d p) c"
    using len canonD(1,2) [OF a] el(1) by (auto simp: canon_def c_def intro!: all_belowI simp del: One_nat_def)
  have "eqm (np_q p) (int (c ! i)) (ext a (int i) + ext b (int i))" if "i < np_d p" for i
    using el(2) [of "a ! i + b ! i"] that len by (simp add: c_def ext_nth del: One_nat_def)
  then show "eqm (np_q p) (ext c k) (ext a k + ext b k)"
    using len canon_antiper [OF a] canon_antiper [OF b] by (intro ext_eqm) (simp_all add: c_def antiper_add)
qed

section \<open>One key switch\<close>

text \<open>Error of one switch: the digits miss the mask by the gadget radius, and they multiply the key noise.\<close>

definition switch_error :: "native_params \<Rightarrow> int \<Rightarrow> int \<Rightarrow> int" where
  "switch_error p B E = int (np_d p) * (gadget_radius p * B) + int (np_ell p) * (int (np_d p) * (int (digit_bound p) * E))"

lemma coprime_degree: "good_native p \<Longrightarrow> odd g \<Longrightarrow> coprime (np_d p) g"
proof -
  assume "good_native p" and g: "odd g"
  then obtain L where "np_d p = 2 ^ L" using good_nativeD(3) by (auto simp: is_power_of_two_iff)
  then show ?thesis using g by simp
qed

lemma key_switch:
  assumes good: "good_native p" and a: "canon (np_q p) (np_d p) a" and ds: "decompose a p = Inr ds"
    and S: "antiper (np_d p) S" "\<And>k. \<bar>S k\<bar> \<le> B"
    and K: "\<And>j. j < np_ell p \<Longrightarrow> antiper (np_d p) (K j)" and W: "\<And>j. j < np_ell p \<Longrightarrow> antiper (np_d p) (W j)"
    and key: "\<And>j. j < np_ell p \<Longrightarrow> antiper (np_d p) (err j) \<and> (\<forall>k. \<bar>err j k\<bar> \<le> E)
        \<and> (\<forall>k. eqm (np_q p) (K j k + conv (np_d p) (W j) S k) (int (factor p j) * tau (np_d p) g S k + err j k))"
    and g: "odd g" and e: "odd e"
  shows "near (np_q p) (switch_error p B E) (conv (np_d p) (ext a) (tau (np_d p) (g * e) S) k)
    ((\<Sum>j<np_ell p. conv (np_d p) (ext (ds ! j)) (tau (np_d p) e (K j)) k)
       + conv (np_d p) (\<lambda>k. \<Sum>j<np_ell p. conv (np_d p) (tau (np_d p) e (W j)) (ext (ds ! j)) k) (tau (np_d p) e S) k)"
proof -
  let ?d = "np_d p" and ?q = "np_q p" and ?ell = "np_ell p" and ?T = "tau (np_d p) (g * e) S" and ?V = "tau (np_d p) e S"
  have d: "0 < ?d" using good_nativeD(1) [OF good] .
  have a': "length a = ?d" "all_below ?q a" using canonD [OF a] by simp_all
  note D = decompose_digits [OF good a' ds]
  have dsc: "canon ?q ?d (ds ! j)" if "j < ?ell" for j using D(2) [OF that] by (intro native_canon [OF good]) simp_all
  define X where "X = (\<lambda>j. iext (centred ?q (ds ! j)))"
  have X: "antiper ?d (X j)" "\<bar>X j k\<bar> \<le> int (digit_bound p)" "eqm ?q (ext (ds ! j) k) (X j k)" if "j < ?ell" for j k
    using iext_centred_bound(1) [OF dsc [OF that], of "int (digit_bound p)"] iext_centred_bound(2) [OF dsc [OF that], of "int (digit_bound p)" k]
      D(2) [OF that] ext_centred [OF dsc [OF that], of k] by (simp_all add: X_def)
  have anti_e: "antiper ?d (tau ?d e f)" for f using d by (rule tau_antiper)
  have T: "antiper ?d ?T" "\<bar>?T k\<bar> \<le> B" for k
    using d S(2) coprime_degree [OF good, of "g * e"] g e by (simp_all add: tau_antiper tau_bound)
  text \<open>the recombined digits\<close>
  define A where "A = (\<lambda>k. \<Sum>j<?ell. int (factor p j) * X j k)"
  have A: "antiper ?d A" unfolding A_def using X(1) by (intro antiper_sum antiper_cmult) simp
  have "near ?q (gadget_radius p) (ext a (int i)) (A (int i))" if i: "i < ?d" for i
  proof -
    have "A (int i) = (\<Sum>j<?ell. centered (ds ! j ! i) ?q * int (factor p j))"
      unfolding A_def X_def using D(2) i by (intro sum.cong refl) (simp add: iext_nth mult.commute)
    then show ?thesis using D(3) [OF i] i a' by (simp add: ext_nth)
  qed
  then obtain r where r: "\<And>k. \<bar>r k\<bar> \<le> gadget_radius p" "\<And>k. eqm ?q (A k) (ext a k + r k)"
    using near_fun [OF d canon_antiper [OF a] A] by blast
  have step1: "eqm ?q (conv ?d A ?T k) (conv ?d (ext a) ?T k + conv ?d r ?T k)"
  proof -
    have "eqm ?q (conv ?d A ?T k) (conv ?d (\<lambda>k. ext a k + r k) ?T k)" using r(2) by (intro conv_cong) simp_all
    then show ?thesis by (simp add: conv_add_left)
  qed
  text \<open>the keys under the automorphism\<close>
  have image: "eqm ?q (int (factor p j) * ?T k) (tau ?d e (K j) k + conv ?d (tau ?d e (W j)) ?V k - tau ?d e (err j) k)"
    if j: "j < ?ell" for j k
  proof -
    have "int (factor p j) * ?T k = tau ?d e (\<lambda>k. int (factor p j) * tau ?d g S k) k"
      by (simp add: tau_cmult tau_tau [OF d e])
    also have "eqm ?q \<dots> (tau ?d e (\<lambda>k. K j k + conv ?d (W j) S k - err j k) k)"
    proof (rule tau_cong)
      fix k
      show "eqm ?q (int (factor p j) * tau ?d g S k) (K j k + conv ?d (W j) S k - err j k)"
      proof -
        have "eqm ?q (K j k + conv ?d (W j) S k - err j k) (int (factor p j) * tau ?d g S k + err j k - err j k)"
          using key [OF j] by (intro eqm_diff eqm_refl) blast
        then show ?thesis by - (rule eqm_sym, simp)
      qed
    qed
    also have "tau ?d e (\<lambda>k. K j k + conv ?d (W j) S k - err j k) k
        = tau ?d e (K j) k + conv ?d (tau ?d e (W j)) ?V k - tau ?d e (err j) k"
      by (simp add: tau_diff tau_add tau_conv [OF d e W [OF j] S(1)])
    finally show ?thesis .
  qed
  have step2: "eqm ?q (conv ?d A ?T k) (\<Sum>j<?ell. conv ?d (ext (ds ! j)) (tau ?d e (K j)) k
      + conv ?d (conv ?d (tau ?d e (W j)) (ext (ds ! j))) ?V k - conv ?d (X j) (tau ?d e (err j)) k)"
  proof -
    have split: "conv ?d A ?T k = (\<Sum>j<?ell. conv ?d (X j) (\<lambda>k. int (factor p j) * ?T k) k)"
      by (simp add: A_def conv_sum_left conv_cmult_left conv_cmult_right)
    show ?thesis
      unfolding split
    proof (rule eqm_sum)
      fix j assume "j \<in> {..<?ell}"
      then have j: "j < ?ell" by simp
      have c3: "conv ?d (X j) (conv ?d (tau ?d e (W j)) ?V) k = conv ?d (conv ?d (tau ?d e (W j)) (X j)) ?V k"
      proof -
        have "conv ?d (X j) (conv ?d (tau ?d e (W j)) ?V) k = conv ?d (conv ?d (X j) (tau ?d e (W j))) ?V k"
          by (rule conv_assoc [OF anti_e anti_e, symmetric])
        moreover have "conv ?d (X j) (tau ?d e (W j)) = conv ?d (tau ?d e (W j)) (X j)"
          using conv_comm [OF X(1) [OF j] anti_e] by (rule ext)
        ultimately show ?thesis by (simp only:)
      qed
      have c1: "eqm ?q (conv ?d (X j) (\<lambda>k. int (factor p j) * ?T k) k)
          (conv ?d (X j) (\<lambda>k. tau ?d e (K j) k + conv ?d (tau ?d e (W j)) ?V k - tau ?d e (err j) k) k)"
        using image [OF j] by (intro conv_cong) simp_all
      have c2: "conv ?d (X j) (\<lambda>k. tau ?d e (K j) k + conv ?d (tau ?d e (W j)) ?V k - tau ?d e (err j) k) k
          = conv ?d (X j) (tau ?d e (K j)) k + conv ?d (conv ?d (tau ?d e (W j)) (X j)) ?V k - conv ?d (X j) (tau ?d e (err j)) k"
        by (simp only: conv_diff_right conv_add_right c3)
      have c4: "eqm ?q (conv ?d (X j) (tau ?d e (K j)) k + conv ?d (conv ?d (tau ?d e (W j)) (X j)) ?V k - conv ?d (X j) (tau ?d e (err j)) k)
          (conv ?d (ext (ds ! j)) (tau ?d e (K j)) k + conv ?d (conv ?d (tau ?d e (W j)) (ext (ds ! j))) ?V k - conv ?d (X j) (tau ?d e (err j)) k)"
        using eqm_sym [OF X(3) [OF j]] by (intro eqm_diff eqm_add conv_cong) simp_all
      show "eqm ?q (conv ?d (X j) (\<lambda>k. int (factor p j) * ?T k) k)
          (conv ?d (ext (ds ! j)) (tau ?d e (K j)) k + conv ?d (conv ?d (tau ?d e (W j)) (ext (ds ! j))) ?V k - conv ?d (X j) (tau ?d e (err j)) k)"
        using c1 c4 unfolding c2 by (rule eqm_trans)
    qed
  qed
  define noise where "noise = (\<Sum>j<?ell. conv ?d (X j) (tau ?d e (err j)) k)"
  let ?y = "(\<Sum>j<?ell. conv ?d (ext (ds ! j)) (tau ?d e (K j)) k)
       + conv ?d (\<lambda>k. \<Sum>j<?ell. conv ?d (tau ?d e (W j)) (ext (ds ! j)) k) ?V k"
  have "eqm ?q (?y - noise) (conv ?d (ext a) ?T k + conv ?d r ?T k)"
    using eqm_trans [OF eqm_sym [OF step2] step1] by (simp add: noise_def conv_sum_left sum.distrib sum_subtractf)
  then have "eqm ?q (?y - noise + noise) (conv ?d (ext a) ?T k + conv ?d r ?T k + noise)" by (intro eqm_add eqm_refl)
  then have eq: "?y mod int ?q = (conv ?d (ext a) ?T k + (conv ?d r ?T k + noise)) mod int ?q"
    by (simp add: eqm_mod_iff add.assoc)
  have "\<bar>conv ?d r ?T k\<bar> \<le> int ?d * (gadget_radius p * B)" using r(1) T(2) by (rule conv_bound)
  moreover have "\<bar>noise\<bar> \<le> int ?ell * (int ?d * (int (digit_bound p) * E))"
  proof -
    have "\<bar>noise\<bar> \<le> (\<Sum>j<?ell. \<bar>conv ?d (X j) (tau ?d e (err j)) k\<bar>)" unfolding noise_def by (rule sum_abs)
    also have "\<dots> \<le> (\<Sum>j<?ell. int ?d * (int (digit_bound p) * E))"
    proof (rule sum_mono)
      fix j assume "j \<in> {..<?ell}"
      then have j: "j < ?ell" by simp
      show "\<bar>conv ?d (X j) (tau ?d e (err j)) k\<bar> \<le> int ?d * (int (digit_bound p) * E)"
        using X(2) [OF j] key [OF j] by (intro conv_bound tau_bound [OF d coprime_degree [OF good e]]) simp_all
    qed
    finally show ?thesis by simp
  qed
  ultimately have "\<bar>conv ?d r ?T k + noise\<bar> \<le> switch_error p B E" by (simp add: switch_error_def)
  then show ?thesis using eq by (rule nearI)
qed

section \<open>Keys and masks of a setup\<close>

definition masks_ok :: "native_params \<Rightarrow> nat list list \<Rightarrow> bool" where
  "masks_ok p ws \<longleftrightarrow> length ws = np_ell p \<and> (\<forall>j<np_ell p. canon (np_q p) (np_d p) (ws ! j))"

definition switching :: "native_params \<Rightarrow> nat \<Rightarrow> nat list list \<Rightarrow> (int \<Rightarrow> int) \<Rightarrow> int \<Rightarrow> int \<Rightarrow> nat list list \<Rightarrow> bool" where
  "switching p g ws S B E ks \<longleftrightarrow> antiper (np_d p) S \<and> (\<forall>k. \<bar>S k\<bar> \<le> B) \<and> masks_ok p ks
     \<and> (\<forall>j<np_ell p. \<exists>err. antiper (np_d p) err \<and> (\<forall>k. \<bar>err k\<bar> \<le> E)
          \<and> (\<forall>k. eqm (np_q p) (ext (ks ! j) k + conv (np_d p) (ext (ws ! j)) S k) (int (factor p j) * tau (np_d p) g S k + err k)))"

lemma key_switching:
  assumes good: "good_native p" and s: "length s = np_d p" "all_below (np_q p) s" "\<And>i. i < np_d p \<Longrightarrow> \<bar>centered (s ! i) (np_q p)\<bar> \<le> B"
    and ws: "masks_ok p ws" and key: "key_for p s g ws ks E" and g: "np_d p * g < 2 ^ 64"
  shows "switching p g ws (iext (centred (np_q p) s)) B E ks"
proof -
  let ?d = "np_d p" and ?q = "np_q p" and ?S = "iext (centred (np_q p) s)"
  have d: "0 < ?d" using good_nativeD(1) [OF good] .
  have sc: "canon ?q ?d s" by (rule native_canon [OF good s(1,2)])
  note Sb = iext_centred_bound [OF sc s(3)]
  note tc = ext_tau_coeffs [OF sc g]
  have len: "length ks = np_ell p" "length ws = np_ell p" using ws key by (simp_all add: masks_ok_def key_for_def)
  have kc: "canon ?q ?d (ks ! j)" if "j < np_ell p" for j
    using key that len by (intro native_canon [OF good]) (simp_all add: key_for_def)
  have wc: "canon ?q ?d (ws ! j)" if "j < np_ell p" for j using ws that by (simp add: masks_ok_def)
  have "\<exists>err. antiper ?d err \<and> (\<forall>k. \<bar>err k\<bar> \<le> E)
      \<and> (\<forall>k. eqm ?q (ext (ks ! j) k + conv ?d (ext (ws ! j)) ?S k) (int (factor p j) * tau ?d g ?S k + err k))"
    if j: "j < np_ell p" for j
  proof (rule near_fun [OF d])
    show "antiper ?d (\<lambda>k. int (factor p j) * tau ?d g ?S k)" by (intro antiper_cmult tau_antiper d)
    show "antiper ?d (\<lambda>k. ext (ks ! j) k + conv ?d (ext (ws ! j)) ?S k)"
      by (intro antiper_add canon_antiper [OF kc [OF j]] conv_antiper Sb(1))
    fix i assume i: "i < ?d"
    let ?prod = "schoolbook_negacyclic (ws ! j) s ?q"
    have "length ?prod = ?d" using canonD(4) [OF schoolbook_negacyclic_nth(1) [OF wc [OF j] sc]] .
    then have prod: "eqm ?q (int (?prod ! i)) (conv ?d (ext (ws ! j)) ?S (int i))"
      using eqm_trans [OF ext_schoolbook [OF wc [OF j] sc, of "int i"] conv_cong [OF eqm_refl ext_centred [OF sc]]] i
      by (simp add: ext_nth)
    have tau: "eqm ?q (int (tau_coeffs s g ?q ! i)) (tau ?d g ?S (int i))"
      using eqm_trans [OF tc(2) [of "int i"] tau_cong [OF ext_centred [OF sc]]] i canonD(4) [OF tc(1)] by (simp add: ext_nth)
    have "near ?q E (int (tau_coeffs s g ?q ! i) * int (factor p j)) (int (ks ! j ! i) + int (?prod ! i))"
      using key i j len by (simp add: key_for_def)
    then have "near ?q E (tau ?d g ?S (int i) * int (factor p j)) (int (ks ! j ! i) + conv ?d (ext (ws ! j)) ?S (int i))"
      using near_eqm [OF eqm_add [OF eqm_refl prod]] near_eqm_left [OF eqm_mult [OF tau eqm_refl]] by blast
    then show "near ?q E (int (factor p j) * tau ?d g ?S (int i)) (ext (ks ! j) (int i) + conv ?d (ext (ws ! j)) ?S (int i))"
      using canonD(4) [OF kc [OF j]] i by (simp add: ext_nth mult.commute)
  qed
  then show ?thesis using Sb kc len by (simp add: switching_def masks_ok_def)
qed

section \<open>The public update of one step\<close>

lemma tau_coeffs_bounded:
  assumes good: "good_native p" and x: "canon (np_q p) (np_d p) x" and b: "\<And>i. i < np_d p \<Longrightarrow> \<bar>centered (x ! i) (np_q p)\<bar> \<le> A"
    and g: "odd g" "np_d p * g < 2 ^ 64" and i: "i < np_d p"
  shows "\<bar>centered (tau_coeffs x g (np_q p) ! i) (np_q p)\<bar> \<le> A"
proof -
  let ?d = "np_d p" and ?q = "np_q p"
  have d: "0 < ?d" using i by simp
  note tc = ext_tau_coeffs [OF x g(2)]
  have el: "eqm ?q (int (tau_coeffs x g ?q ! i)) (tau ?d g (iext (centred ?q x)) (int i))"
    using eqm_trans [OF tc(2) [of "int i"] tau_cong [OF ext_centred [OF x]]] i canonD(4) [OF tc(1)] by (simp add: ext_nth)
  have "\<bar>tau ?d g (iext (centred ?q x)) (int i)\<bar> \<le> A"
    using iext_centred_bound(2) [OF x b] by (intro tau_bound [OF d coprime_degree [OF good g(1)]])
  then show ?thesis
    using centered_least [OF canonD(1) [OF x] el] canonD(6) [OF tc(1) i] by linarith
qed

definition inverses_exist :: "ntt_engine \<Rightarrow> nat \<Rightarrow> bool" where
  "inverses_exist eng d \<longleftrightarrow> (\<forall>g<2 * d. odd g \<longrightarrow> invert_uint_mod eng g (2 * d) \<noteq> None)"

lemma small_exponent: "good_native p \<Longrightarrow> g < 2 * np_d p \<Longrightarrow> np_d p * g < 2 ^ 64"
proof -
  assume h: "good_native p" "g < 2 * np_d p"
  have "np_d p * g \<le> 2048 * 4096" using h(2) good_nativeD(2) [OF h(1)] by (intro mult_le_mono) simp_all
  then show ?thesis by simp
qed

lemma switch_update:
  assumes laws: "ntt_laws eng (np_d p)" and ctx: "new_lift_context eng (np_d p) (np_q p) = Inr ctx" and inv: "inverses_exist eng (np_d p)"
    and good: "good_native p" and ws: "masks_ok p ws" and dot: "dot_for eng ctx ws dot" "ppd_right_bound dot = digit_bound p"
    and a: "canon (np_q p) (np_d p) a" and ds: "decompose a p = Inr ds" and e: "odd e" "e < 2 * np_d p"
  shows "\<exists>w u. invert_uint_mod eng e (2 * np_d p) = Some w
    \<and> public_dot eng ctx dot (map (\<lambda>x. tau_coeffs x w (np_q p)) ds) = Inr u
    \<and> canon (np_q p) (np_d p) (tau_coeffs u e (np_q p))
    \<and> (\<forall>k. eqm (np_q p) (ext (tau_coeffs u e (np_q p)) k)
         (\<Sum>j<np_ell p. conv (np_d p) (tau (np_d p) e (ext (ws ! j))) (ext (ds ! j)) k))"
proof -
  let ?d = "np_d p" and ?q = "np_q p"
  have d: "0 < ?d" "?q \<le> 2 ^ 62" using good_nativeD(1,6) [OF good] by simp_all
  obtain w where w: "invert_uint_mod eng e (2 * ?d) = Some w" using inv e by (auto simp: inverses_exist_def)
  have "\<forall>x m w. 1 < m \<longrightarrow> invert_uint_mod eng x m = Some w \<longrightarrow> w < m \<and> x * w mod m = 1" using laws by (simp add: ntt_laws_def)
  moreover have "1 < 2 * ?d" using d by simp
  ultimately have law: "w < 2 * ?d \<and> e * w mod (2 * ?d) = 1" using w by blast
  then have w2: "w < 2 * ?d" "w * e mod (2 * ?d) = 1" by (simp_all add: mult.commute)
  have wodd: "odd w"
  proof
    assume "even w"
    then have "even (w * e mod (2 * ?d))" by (simp add: dvd_mod_iff)
    then show False using w2(2) by simp
  qed
  note e64 = small_exponent [OF good e(2)] and w64 = small_exponent [OF good w2(1)]
  have a': "length a = ?d" "all_below ?q a" using canonD [OF a] by simp_all
  note D = decompose_digits [OF good a' ds]
  have dsc: "canon ?q ?d (ds ! j)" if "j < np_ell p" for j using D(2) [OF that] by (intro native_canon [OF good]) simp_all
  let ?bs = "map (\<lambda>x. tau_coeffs x w ?q) ds"
  have bs: "?bs ! j = tau_coeffs (ds ! j) w ?q" if "j < np_ell p" for j using D(1) that by simp
  have bc: "canon ?q ?d (?bs ! j)" if "j < np_ell p" for j using ext_tau_coeffs(1) [OF dsc [OF that] w64] bs [OF that] by simp
  have wc: "canon ?q ?d (ws ! j)" if "j < np_ell p" for j using ws that by (simp add: masks_ok_def)
  have len: "length ws = np_ell p" "length ?bs = np_ell p" "ws \<noteq> []"
    using ws D(1) good_nativeD(7) [OF good] by (auto simp: masks_ok_def)
  note G = new_lift_context_good [OF laws ctx]
  have run: "public_dot eng ctx dot ?bs = Inr (ring_dot ?q ?d ws ?bs)"
  proof -
    have "public_dot eng ctx dot ?bs = Inr (ring_dot (lc_q ctx) (lc_d ctx) ws ?bs)"
    proof (rule dot_signed_ok [OF _ G(1) dot(1)])
      show "ntt_laws eng (lc_d ctx)" using laws G by simp
      show "length ?bs = length ws" using len by simp
      fix b assume "b \<in> set ?bs"
      then obtain j where j: "j < np_ell p" "b = ?bs ! j" unfolding in_set_conv_nth len by blast
      have "lift_valid ctx b" using canonD [OF bc [OF j(1)]] G j(2) by (simp add: lift_valid_def)
      moreover have "\<bar>centred (lc_q ctx) b ! t\<bar> \<le> int (ppd_right_bound dot)" if t: "t < lc_d ctx" for t
        using tau_coeffs_bounded [OF good dsc [OF j(1)] _ wodd w64, of "int (digit_bound p)" t] D(2) [OF j(1)] t G dot(2) j(2) bs [OF j(1)]
          canonD(4) [OF bc [OF j(1)]] by simp
      ultimately show "lift_valid ctx b \<and> (\<forall>t<lc_d ctx. \<bar>centred (lc_q ctx) b ! t\<bar> \<le> int (ppd_right_bound dot))" by blast
    qed
    then show ?thesis using G by simp
  qed
  let ?u = "ring_dot ?q ?d ws ?bs"
  have lenw: "length ws = length ?bs" using len by simp
  note R = ext_ring_dot [OF d lenw _ _ len(3), unfolded len(1), OF wc bc]
  note U = ext_tau_coeffs [OF R(1) e64]
  have "eqm ?q (ext (tau_coeffs ?u e ?q) k) (\<Sum>j<np_ell p. conv ?d (tau ?d e (ext (ws ! j))) (ext (ds ! j)) k)" for k
  proof (rule eqm_trans [OF U(2) eqm_trans [OF tau_cong [OF R(2)]]])
    show "eqm ?q (tau ?d e (\<lambda>k. \<Sum>i<np_ell p. conv ?d (ext (ws ! i)) (ext (?bs ! i)) k) k)
        (\<Sum>j<np_ell p. conv ?d (tau ?d e (ext (ws ! j))) (ext (ds ! j)) k)"
      unfolding tau_sum
    proof (rule eqm_sum)
      fix j assume "j \<in> {..<np_ell p}"
      then have j: "j < np_ell p" by simp
      have "eqm ?q (tau ?d e (ext (?bs ! j)) m) (ext (ds ! j) m)" for m
      proof -
        have "eqm ?q (tau ?d e (ext (?bs ! j)) m) (tau ?d e (tau ?d w (ext (ds ! j))) m)"
          unfolding bs [OF j] by (rule tau_cong [OF ext_tau_coeffs(2) [OF dsc [OF j] w64]])
        then show ?thesis using tau_inverse [OF d(1) canon_antiper [OF dsc [OF j]] e(1) w2(2), of m] by simp
      qed
      then have "eqm ?q (conv ?d (tau ?d e (ext (ws ! j))) (tau ?d e (ext (?bs ! j))) k) (conv ?d (tau ?d e (ext (ws ! j))) (ext (ds ! j)) k)"
        by (intro conv_cong eqm_refl)
      then show "eqm ?q (tau ?d e (conv ?d (ext (ws ! j)) (ext (?bs ! j))) k) (conv ?d (tau ?d e (ext (ws ! j))) (ext (ds ! j)) k)"
        by (simp only: tau_conv [OF d(1) e(1) canon_antiper [OF wc [OF j]] canon_antiper [OF bc [OF j]]])
    qed
  qed
  then show ?thesis using w run U(1) by blast
qed

section \<open>A collapse chain\<close>

definition digits_ok :: "native_params \<Rightarrow> nat list list \<Rightarrow> bool" where
  "digits_ok p ds \<longleftrightarrow> length ds = np_ell p \<and> (\<forall>j<np_ell p. canon (np_q p) (np_d p) (ds ! j)
     \<and> (\<forall>i<np_d p. \<bar>centered (ds ! j ! i) (np_q p)\<bar> \<le> int (digit_bound p)))"

text \<open>What one step with digits \<open>ds\<close> and exponent \<open>e\<close> adds to the packed body.\<close>

definition step_body :: "native_params \<Rightarrow> nat list list \<Rightarrow> nat list list \<Rightarrow> nat \<Rightarrow> int \<Rightarrow> int" where
  "step_body p ks ds e k = (\<Sum>j<np_ell p. conv (np_d p) (ext (ds ! j)) (tau (np_d p) e (ext (ks ! j))) k)"

lemma decompose_ok:
  assumes "good_native p" and "canon (np_q p) (np_d p) a"
  shows "\<exists>ds. decompose a p = Inr ds \<and> digits_ok p ds"
proof -
  have a: "length a = np_d p" "all_below (np_q p) a" using canonD [OF assms(2)] by simp_all
  obtain ds where ds: "decompose a p = Inr ds" using decompose_eq [OF a] by blast
  note D = decompose_digits [OF assms(1) a ds]
  have "canon (np_q p) (np_d p) (ds ! j)" if "j < np_ell p" for j using D(2) [OF that] by (intro native_canon [OF assms(1)]) simp_all
  then show ?thesis using ds D(1,2) by (auto simp: digits_ok_def)
qed

lemma trace_loop_ok:
  assumes laws: "ntt_laws eng (np_d p)" and ctx: "new_lift_context eng (np_d p) (np_q p) = Inr ctx" and inv: "inverses_exist eng (np_d p)"
    and good: "good_native p" and ws: "masks_ok p ws" and dot: "dot_for eng ctx ws dot" "ppd_right_bound dot = digit_bound p"
    and gx: "\<And>i. odd (gx i) \<and> gx i < 2 * np_d p" "\<And>i. i < idx \<Longrightarrow> gx (Suc i) mod (2 * np_d p) = 5 * gx i mod (2 * np_d p)"
    and exps: "\<And>t. t < idx \<Longrightarrow> exps ! (step + t) = gx (idx - 1 - t)"
    and half: "idx < length half" "\<And>i. i \<le> idx \<Longrightarrow> canon (np_q p) (np_d p) (half ! i)"
  shows "\<exists>half' new. trace_loop eng p ctx dot exps step half digits idx = Inr (half', digits @ new)
    \<and> length new = idx \<and> canon (np_q p) (np_d p) (half' ! 0) \<and> (\<forall>t<idx. digits_ok p (new ! t))
    \<and> (\<forall>S B E ks k. switching p 5 ws S B E ks \<longrightarrow>
         near (np_q p) (int idx * switch_error p B E) (\<Sum>i\<le>idx. conv (np_d p) (ext (half ! i)) (tau (np_d p) (gx i) S) k)
           (conv (np_d p) (ext (half' ! 0)) (tau (np_d p) (gx 0) S) k + (\<Sum>t<idx. step_body p ks (new ! t) (exps ! (step + t)) k)))"
  using assms(9-)
proof (induction idx arbitrary: step half digits)
  case 0
  then show ?case by (auto simp: near_refl)
next
  case (Suc idx)
  let ?d = "np_d p" and ?q = "np_q p" and ?e = "gx idx" and ?A = "half ! Suc idx"
  have d: "0 < ?d" using good_nativeD(1) [OF good] .
  have A: "canon ?q ?d ?A" and I: "canon ?q ?d (half ! idx)" using Suc.prems(4) by simp_all
  have e: "odd ?e" "?e < 2 * ?d" using gx(1) by simp_all
  have es: "exps ! step = ?e" using Suc.prems(2) [of 0] by simp
  obtain ds where ds: "decompose ?A p = Inr ds" "digits_ok p ds" using decompose_ok [OF good A] by blast
  obtain w u where U: "invert_uint_mod eng ?e (2 * ?d) = Some w" "public_dot eng ctx dot (map (\<lambda>x. tau_coeffs x w ?q) ds) = Inr u"
    "canon ?q ?d (tau_coeffs u ?e ?q)"
    "\<And>k. eqm ?q (ext (tau_coeffs u ?e ?q) k) (\<Sum>j<np_ell p. conv ?d (tau ?d ?e (ext (ws ! j))) (ext (ds ! j)) k)"
    using switch_update [OF laws ctx inv good ws dot A ds(1) e] by blast
  define c where "c = map2 (\<lambda>a x. u64 (a + x) AND (?q - 1)) (half ! idx) (tau_coeffs u ?e ?q)"
  define half1 where "half1 = half[idx := c]"
  note C = ext_masked_sum [OF good I U(3), folded c_def]
  have h1: "half1 ! idx = c" "\<And>i. i < idx \<Longrightarrow> half1 ! i = half ! i" using Suc.prems(3) by (simp_all add: half1_def)
  have cn1: "canon ?q ?d (half1 ! i)" if "i \<le> idx" for i
    using that C(1) h1 Suc.prems(4) [of i] by (cases "i = idx") auto
  have exps1: "exps ! (step + 1 + t) = gx (idx - 1 - t)" if "t < idx" for t
    using Suc.prems(2) [of "Suc t"] that by simp
  have "idx < length half1" using Suc.prems(3) by (simp add: half1_def)
  from Suc.IH [where step = "step + 1" and half = half1 and digits = "digits @ [ds]", OF _ exps1 this cn1] Suc.prems(1)
  obtain half' new where IH: "trace_loop eng p ctx dot exps (step + 1) half1 (digits @ [ds]) idx = Inr (half', (digits @ [ds]) @ new)"
    "length new = idx" "canon ?q ?d (half' ! 0)" "\<And>t. t < idx \<Longrightarrow> digits_ok p (new ! t)"
    "\<And>S B E ks k. switching p 5 ws S B E ks \<Longrightarrow>
         near ?q (int idx * switch_error p B E) (\<Sum>i\<le>idx. conv ?d (ext (half1 ! i)) (tau ?d (gx i) S) k)
           (conv ?d (ext (half' ! 0)) (tau ?d (gx 0) S) k + (\<Sum>t<idx. step_body p ks (new ! t) (exps ! (step + 1 + t)) k))"
    by auto
  have run: "trace_loop eng p ctx dot exps step half digits (Suc idx) = Inr (half', digits @ (ds # new))"
    using ds(1) U(1,2) IH(1) es by (simp add: c_def half1_def)
  have chain: "near ?q (int (Suc idx) * switch_error p B E) (\<Sum>i\<le>Suc idx. conv ?d (ext (half ! i)) (tau ?d (gx i) S) k)
      (conv ?d (ext (half' ! 0)) (tau ?d (gx 0) S) k + (\<Sum>t<Suc idx. step_body p ks ((ds # new) ! t) (exps ! (step + t)) k))"
    if sw: "switching p 5 ws S B E ks" for S B E ks k
  proof -
    obtain err where err: "\<And>j. j < np_ell p \<Longrightarrow> antiper ?d (err j) \<and> (\<forall>k. \<bar>err j k\<bar> \<le> E)
      \<and> (\<forall>k. eqm ?q (ext (ks ! j) k + conv ?d (ext (ws ! j)) S k) (int (factor p j) * tau ?d 5 S k + err j k))"
      using sw unfolding switching_def by metis
    have S: "antiper ?d S" "\<And>k. \<bar>S k\<bar> \<le> B" "\<And>j. j < np_ell p \<Longrightarrow> antiper ?d (ext (ks ! j))"
      "\<And>j. j < np_ell p \<Longrightarrow> antiper ?d (ext (ws ! j))"
      using sw ws by (auto simp: switching_def masks_ok_def intro: canon_antiper)
    let ?V = "tau ?d ?e S"
    have T: "tau ?d (gx (Suc idx)) S = tau ?d (5 * ?e) S"
    proof (rule HOL.ext)
      fix k
      have "tau ?d (gx (Suc idx)) S k = tau ?d (gx (Suc idx) mod (2 * ?d)) S k" by (rule tau_mod [symmetric])
      also have "\<dots> = tau ?d (5 * ?e) S k" using Suc.prems(1) [of idx] by (simp only: tau_mod lessI)
      finally show "tau ?d (gx (Suc idx)) S k = tau ?d (5 * ?e) S k" .
    qed
    let ?X = "\<lambda>i. conv ?d (ext (half ! i)) (tau ?d (gx i) S) k"
    have one: "near ?q (switch_error p B E) (?X (Suc idx)) (step_body p ks ds ?e k + conv ?d (ext (tau_coeffs u ?e ?q)) ?V k)"
    proof -
      have "near ?q (switch_error p B E) (conv ?d (ext ?A) (tau ?d (5 * ?e) S) k)
        ((\<Sum>j<np_ell p. conv ?d (ext (ds ! j)) (tau ?d ?e (ext (ks ! j))) k)
          + conv ?d (\<lambda>k. \<Sum>j<np_ell p. conv ?d (tau ?d ?e (ext (ws ! j))) (ext (ds ! j)) k) ?V k)"
        by (rule key_switch [OF good A ds(1) S err _ e(1)]) simp_all
      moreover have "eqm ?q (conv ?d (\<lambda>k. \<Sum>j<np_ell p. conv ?d (tau ?d ?e (ext (ws ! j))) (ext (ds ! j)) k) ?V k) (conv ?d (ext (tau_coeffs u ?e ?q)) ?V k)"
        using eqm_sym [OF U(4)] by (intro conv_cong) simp_all
      ultimately show ?thesis unfolding T step_body_def using near_eqm [OF eqm_add [OF eqm_refl]] by blast
    qed
    have two: "eqm ?q (\<Sum>i\<le>idx. conv ?d (ext (half1 ! i)) (tau ?d (gx i) S) k) ((\<Sum>i\<le>idx. ?X i) + conv ?d (ext (tau_coeffs u ?e ?q)) ?V k)"
    proof -
      have "eqm ?q (conv ?d (ext c) ?V k) (conv ?d (\<lambda>k. ext (half ! idx) k + ext (tau_coeffs u ?e ?q) k) ?V k)"
        using C(2) by (intro conv_cong) simp_all
      then have c: "eqm ?q (conv ?d (ext c) ?V k) (?X idx + conv ?d (ext (tau_coeffs u ?e ?q)) ?V k)" by (simp only: conv_add_left)
      have "(\<Sum>i\<le>idx. conv ?d (ext (half1 ! i)) (tau ?d (gx i) S) k) = (\<Sum>i<idx. ?X i) + conv ?d (ext c) ?V k"
        using h1 by (simp add: lessThan_Suc_atMost [symmetric])
      moreover have "(\<Sum>i\<le>idx. ?X i) = (\<Sum>i<idx. ?X i) + ?X idx" by (simp add: lessThan_Suc_atMost [symmetric])
      ultimately show ?thesis using eqm_add [OF eqm_refl c] by (simp add: add.assoc)
    qed
    have "near ?q (switch_error p B E + int idx * switch_error p B E)
        ((\<Sum>i\<le>idx. ?X i) + ?X (Suc idx))
        (step_body p ks ds ?e k + (conv ?d (ext (half' ! 0)) (tau ?d (gx 0) S) k + (\<Sum>t<idx. step_body p ks (new ! t) (exps ! (step + 1 + t)) k)))"
    proof (rule near_trans)
      show "near ?q (switch_error p B E) ((\<Sum>i\<le>idx. ?X i) + ?X (Suc idx))
          (step_body p ks ds ?e k + (\<Sum>i\<le>idx. conv ?d (ext (half1 ! i)) (tau ?d (gx i) S) k))"
      proof -
        have "near ?q (0 + switch_error p B E) ((\<Sum>i\<le>idx. ?X i) + ?X (Suc idx))
            ((\<Sum>i\<le>idx. ?X i) + (step_body p ks ds ?e k + conv ?d (ext (tau_coeffs u ?e ?q)) ?V k))"
          using near_refl one by (intro near_add) simp_all
        moreover have "eqm ?q ((\<Sum>i\<le>idx. ?X i) + (step_body p ks ds ?e k + conv ?d (ext (tau_coeffs u ?e ?q)) ?V k))
            (step_body p ks ds ?e k + (\<Sum>i\<le>idx. conv ?d (ext (half1 ! i)) (tau ?d (gx i) S) k))"
          using eqm_add [OF eqm_refl eqm_sym [OF two], of "step_body p ks ds ?e k"] by (simp add: ac_simps)
        ultimately show ?thesis using near_eqm by simp
      qed
      show "near ?q (int idx * switch_error p B E) (step_body p ks ds ?e k + (\<Sum>i\<le>idx. conv ?d (ext (half1 ! i)) (tau ?d (gx i) S) k))
          (step_body p ks ds ?e k + (conv ?d (ext (half' ! 0)) (tau ?d (gx 0) S) k + (\<Sum>t<idx. step_body p ks (new ! t) (exps ! (step + 1 + t)) k)))"
        using near_add [OF near_refl [of 0 ?q "step_body p ks ds ?e k"] IH(5) [OF sw, of k]] by simp
    qed
    moreover have "(\<Sum>t<Suc idx. step_body p ks ((ds # new) ! t) (exps ! (step + t)) k)
        = step_body p ks ds ?e k + (\<Sum>t<idx. step_body p ks (new ! t) (exps ! (step + 1 + t)) k)"
      unfolding sum.lessThan_Suc_shift by (simp add: es)
    ultimately show ?thesis by (simp add: algebra_simps)
  qed
  have dig: "digits_ok p ((ds # new) ! t)" if "t < Suc idx" for t using that ds(2) IH(4) by (cases t) simp_all
  have ln: "length (ds # new) = Suc idx" using IH(2) by simp
  show ?case by (intro exI conjI allI impI) (rule run, rule ln, rule IH(3), rule dig, assumption, rule chain, assumption)
qed

end
