(* ===== verification/Native_Build.thy ===== *)
theory Native_Build
  imports Native_Correct
begin

text \<open>
  The offline build of the native packer succeeds on canonical masks, and what it returns: every
  capacity check of the prepared products passes for an accepted profile, the two collapse chains
  run to their end, and the stored matrix adds up the bodies of all the steps at once.
\<close>

section \<open>The stored matrix applies all the steps\<close>

lemma sum_split_at: "(\<Sum>i<m + n. f i) = (\<Sum>i<m. f i) + (\<Sum>i<n. f (m + i))" for f :: "nat \<Rightarrow> int"
  by (induction n) (simp_all add: add.assoc)

lemma int_dot_sum_append:
  assumes "length a = length b"
  shows "int_dot_sum (a @ a') (b @ b') = int_dot_sum a b + int_dot_sum a' b'"
proof -
  have "int_dot_sum (a @ a') (b @ b') = (\<Sum>i<length b + length b'. (a @ a') ! i * int ((b @ b') ! i))" by (simp add: int_dot_sum_def)
  also have "\<dots> = (\<Sum>i<length b. (a @ a') ! i * int ((b @ b') ! i)) + (\<Sum>i<length b'. (a @ a') ! (length b + i) * int ((b @ b') ! (length b + i)))"
    by (rule sum_split_at)
  finally show ?thesis using assms by (simp add: int_dot_sum_def nth_append)
qed

lemma int_dot_sum_concat:
  "list_all2 (\<lambda>a b. length a = length b) as bs \<Longrightarrow> int_dot_sum (concat as) (concat bs) = (\<Sum>(a, b)\<leftarrow>zip as bs. int_dot_sum a b)"
  by (induction as bs rule: list_all2_induct) (simp_all add: int_dot_sum_append, simp add: int_dot_sum_def)

lemma compile_entry_image:
  assumes steps: "good_steps q d steps" and y: "canon q d y" and r: "r < d"
  shows "eqm q (\<Sum>c<d. int (y ! c) * compile_entry steps r c) (\<Sum>(t, g)\<leftarrow>steps. conv d (ext t) (tau d g (ext y)) (int r))"
  using steps
proof (induction steps)
  case Nil
  then show ?case by (simp add: compile_entry_def)
next
  case (Cons s steps)
  obtain t g where s: "s = (t, g)" by (cases s)
  have tg: "canon q d t" "g < 2 * d" "good_steps q d steps" using Cons.prems by (simp_all add: s)
  have exp: "d * g < 2 ^ 64" using good_steps_exp [OF tg(3,2)] .
  note T = ext_tau_coeffs [OF y exp]
  have len: "length (schoolbook_negacyclic t (tau_coeffs y g q) q) = d" using canonD(4) [OF schoolbook_negacyclic_nth(1) [OF tg(1) T(1)]] .
  have one: "eqm q (\<Sum>c<d. int (y ! c) * ext t (int r - int c * int g)) (conv d (ext t) (tau d g (ext y)) (int r))"
  proof -
    have "eqm q (ext (schoolbook_negacyclic t (tau_coeffs y g q) q) (int r)) (conv d (ext t) (ext (tau_coeffs y g q)) (int r))"
      by (rule ext_schoolbook [OF tg(1) T(1)])
    also have "eqm q \<dots> (conv d (ext t) (tau d g (ext y)) (int r))" by (rule conv_cong [OF eqm_refl T(2)])
    finally have "eqm q (int (schoolbook_negacyclic t (tau_coeffs y g q) q ! r)) (conv d (ext t) (tau d g (ext y)) (int r))"
      using r len by (simp add: ext_nth)
    then show ?thesis using eqm_trans [OF step_image [OF Cons.prems tg(1,2) y r]] by blast
  qed
  have "(\<Sum>c<d. int (y ! c) * compile_entry (s # steps) r c)
      = (\<Sum>c<d. int (y ! c) * ext t (int r - int c * int g)) + (\<Sum>c<d. int (y ! c) * compile_entry steps r c)"
    by (simp add: s compile_entry_def distrib_left sum.distrib)
  then show ?case using eqm_add [OF one Cons.IH [OF tg(3)]] by (simp add: s)
qed

text \<open>One block of the stored row against one key body.\<close>

lemma block_dot:
  assumes steps: "good_steps q d steps" and y: "canon q d y" and r: "r < d"
  defines "b \<equiv> compile_spec d q steps"
  shows "eqm q (int_dot_sum (map (\<lambda>x. centered x q) (take (pm_cols b) (drop (r * pm_cols b) (pm_data b)))) y)
    (\<Sum>(t, g)\<leftarrow>steps. conv d (ext t) (tau d g (ext y)) (int r))"
proof -
  have dim: "pm_cols b = d" "length (pm_data b) = d * d" "0 < q" using canonD(1) [OF y] by (simp_all add: b_def compile_spec_def)
  have len: "length (take d (drop (r * d) (pm_data b))) = d"
    using length_row_slice [OF r dim(2)] by (simp add: row_slice_def)
  have at: "take d (drop (r * d) (pm_data b)) ! c = mget b r c" if "c < d" for c
    using nth_row_slice [OF r that dim(2)] dim(1) by (simp add: row_slice_def mget_def)
  have "int_dot_sum (map (\<lambda>x. centered x q) (take (pm_cols b) (drop (r * pm_cols b) (pm_data b)))) y
      = (\<Sum>c<d. centered (mget b r c) q * int (y ! c))"
    unfolding int_dot_sum_def dim(1) canonD(4) [OF y] using len at by (intro sum.cong refl) simp
  also have "eqm q \<dots> (\<Sum>c<d. int (y ! c) * compile_entry steps r c)"
  proof (rule eqm_sum)
    fix c assume "c \<in> {..<d}"
    then have m: "mget b r c = nat (compile_entry steps r c mod int q)" using r by (simp add: b_def compile_spec_def)
    have "eqm q (centered (mget b r c) q) (compile_entry steps r c)"
      using eqm_trans [OF eqm_sym [OF centered_eqm] , of q "mget b r c" "compile_entry steps r c"] dim(3) by (simp add: m)
    then show "eqm q (centered (mget b r c) q * int (y ! c)) (int (y ! c) * compile_entry steps r c)"
      unfolding mult.commute [of "int (y ! c)"] by (intro eqm_mult eqm_refl)
  qed
  also have "eqm q \<dots> (\<Sum>(t, g)\<leftarrow>steps. conv d (ext t) (tau d g (ext y)) (int r))" by (rule compile_entry_image [OF steps y r])
  finally show ?thesis .
qed

section \<open>Exponents of the two chains\<close>

lemma exponents_nth:
  assumes d: "d = 2 ^ Suc l" and "d \<le> 4096" and t: "t < d div 2 - 1"
  shows "take (d div 2 - 1) (collapse_kg_exponents d) ! t = slot_exponents d ! (d div 2 - 2 - t)"
    and "drop (d div 2 - 1) (collapse_kg_exponents d) ! t = slot_exponents d ! (d div 2 + (d div 2 - 2 - t))"
proof -
  have len: "length (slot_exponents d) = d" by (rule slot_exponents_perm(3) [OF d])
  have eq: "collapse_kg_exponents d = rev (butlast (take (d div 2) (slot_exponents d))) @ rev (butlast (drop (d div 2) (slot_exponents d)))"
    by (rule collapse_kg_exponents_eq [OF d assms(2)])
  have half: "d = d div 2 + d div 2" by (simp add: d)
  then have "length (drop (d div 2) (slot_exponents d)) = d div 2" using len by simp
  then show "take (d div 2 - 1) (collapse_kg_exponents d) ! t = slot_exponents d ! (d div 2 - 2 - t)"
    "drop (d div 2 - 1) (collapse_kg_exponents d) ! t = slot_exponents d ! (d div 2 + (d div 2 - 2 - t))"
    using len t unfolding eq by (simp_all add: rev_nth nth_butlast numeral_2_eq_2)
qed

lemma exponents_ok:
  assumes d: "d = 2 ^ Suc l" and "d \<le> 4096"
  shows "length (collapse_kg_exponents d) = d - 2" and "g \<in> set (collapse_kg_exponents d) \<Longrightarrow> odd g \<and> g < 2 * d"
proof -
  note P = slot_exponents_perm [OF d]
  have half: "d = d div 2 + d div 2" by (simp add: d)
  show "length (collapse_kg_exponents d) = d - 2"
    unfolding collapse_kg_exponents_eq [OF assms] using P(3) half by simp
  assume "g \<in> set (collapse_kg_exponents d)"
  then have "g \<in> set (slot_exponents d)"
    unfolding collapse_kg_exponents_eq [OF assms] by (auto dest!: in_set_butlastD dest: in_set_takeD in_set_dropD)
  then show "odd g \<and> g < 2 * d" using P(2) by simp
qed

section \<open>Compiling and storing\<close>

definition limb_steps :: "nat list list list \<Rightarrow> nat list \<Rightarrow> nat \<Rightarrow> (nat list \<times> nat) list" where
  "limb_steps digits exps j = zip (map (\<lambda>x. x ! j) digits) exps"

lemma limb_steps_good:
  assumes good: "good_native p" and dig: "\<And>t. t < length digits \<Longrightarrow> digits_ok p (digits ! t)" and j: "j < np_ell p"
    and exps: "\<And>g. g \<in> set exps \<Longrightarrow> odd g \<and> g < 2 * np_d p"
  shows "good_steps (np_q p) (np_d p) (limb_steps digits exps j)"
proof -
  have "canon (np_q p) (np_d p) t \<and> g < 2 * np_d p" if "(t, g) \<in> set (limb_steps digits exps j)" for t g
  proof -
    have "t \<in> set (map (\<lambda>x. x ! j) digits)" "g \<in> set exps"
      using that unfolding limb_steps_def by (auto dest: set_zip_leftD set_zip_rightD)
    then show ?thesis using dig exps j by (auto simp: in_set_conv_nth digits_ok_def)
  qed
  then show ?thesis
    using good_nativeD(1,2,5,6) [OF good] by (fastforce simp: good_steps_def list_all_iff canon_def)
qed

lemma compile_limb_ok:
  assumes good: "good_native p" and len: "length digits = np_d p - 2" and dig: "\<And>t. t < length digits \<Longrightarrow> digits_ok p (digits ! t)"
    and j: "j < np_ell p" and exps: "length exps = np_d p - 2" "\<And>g. g \<in> set exps \<Longrightarrow> odd g \<and> g < 2 * np_d p"
  shows "compile_limb p exps digits j = Inr (compile_spec (np_d p) (np_q p) (limb_steps digits exps j))"
proof (cases "np_d p = 2")
  case True
  then show ?thesis using len by (simp add: compile_limb_def limb_steps_def zero_is_spec)
next
  case False
  let ?ts = "map (\<lambda>x. x ! j) digits"
  have d: "2 < np_d p" using False good_nativeD(12) [OF good] by simp
  then have ne: "?ts \<noteq> []" using len by auto
  have all: "length t = np_d p \<and> all_below (np_q p) t" if "t \<in> set ?ts" for t
    using that dig j by (auto simp: in_set_conv_nth digits_ok_def canon_def)
  then have hd: "length (hd ?ts) = np_d p" using hd_in_set [OF ne] by blast
  have "fast_inputs ?ts exps (np_q p)"
    unfolding fast_inputs_def hd list_all_iff
    using ne all exps len d good_nativeD(2,3,5,6) [OF good] by auto
  then show ?thesis using compile_fast_ok hd False by (simp add: compile_limb_def limb_steps_def)
qed

lemma from_blocks_total:
  assumes "bs \<noteq> []" and "\<forall>b\<in>set bs. block_ok rows q b" and "2 \<le> q" "q \<le> 2 ^ 56" and "0 < rows" "rows \<le> 2048"
    and "(\<Sum>b\<leftarrow>bs. pm_cols b) \<le> 16384"
  shows "\<exists>m. from_blocks cpu bs = Inr m"
proof -
  let ?cols = "\<Sum>b\<leftarrow>bs. pm_cols b"
  have hd: "pm_rows (hd bs) = rows" "pm_q (hd bs) = q" using assms(1,2) hd_in_set [OF assms(1)] by (auto simp: block_ok_def)
  have "rows * ?cols \<le> 2048 * 16384" using assms by (intro mult_le_mono)
  then have mul: "checked_mul rows ?cols \<noteq> None" by (simp add: checked_mul_def)
  have stride: "?cols div 8 * bits \<le> 16384 * 28" if "bits \<le> 28" for bits
    using order_trans [OF div_le_dividend assms(7)] that by (intro mult_le_mono)
  have "rows * (?cols div 8 * bits) \<le> 2048 * (16384 * 28)" if "bits \<le> 28" for bits
    by (rule mult_le_mono [OF assms(6) stride [OF that]])
  from this [of 27] this [of 28] have small: "rows * (?cols div 8 * 27) + 8 < 2 ^ 64" "rows * (?cols div 8 * 28) + 8 < 2 ^ 64" by simp_all
  have "blocks_check rows q bs 0 = Inr ?cols" unfolding blocks_check_ok using assms by simp
  then show ?thesis
    using assms hd mul small by (simp add: from_blocks_def Let_def guardR_def not_le)
qed

lemma stored_matrix:
  assumes good: "good_native p" and len: "length digits = np_d p - 2" and dig: "\<And>t. t < length digits \<Longrightarrow> digits_ok p (digits ! t)"
    and exps: "length exps = np_d p - 2" "\<And>g. g \<in> set exps \<Longrightarrow> odd g \<and> g < 2 * np_d p"
  defines "blocks \<equiv> map (\<lambda>j. compile_spec (np_d p) (np_q p) (limb_steps digits exps j)) [0..<np_ell p]"
  shows "collectR (compile_limb p exps digits) [0..<np_ell p] = Inr blocks"
    and "\<exists>m. from_blocks cpu blocks = Inr m"
    and "from_blocks cpu blocks = Inr m \<Longrightarrow> masks_ok p ks \<Longrightarrow> \<exists>y. multiply cpu m (concat ks) = Inr y \<and> canon (np_q p) (np_d p) y
      \<and> (\<forall>r<np_d p. eqm (np_q p) (int (y ! r)) (\<Sum>t<length digits. step_body p ks (digits ! t) (exps ! t) (int r)))"
proof -
  let ?d = "np_d p" and ?q = "np_q p" and ?ell = "np_ell p"
  note N = good_nativeD [OF good]
  have q: "0 < ?q" "2 \<le> ?q" using N(5) by simp_all
  have steps: "good_steps ?q ?d (limb_steps digits exps j)" if "j < ?ell" for j
    using limb_steps_good [OF good dig that exps(2)] by blast
  show "collectR (compile_limb p exps digits) [0..<?ell] = Inr blocks"
    unfolding blocks_def using compile_limb_ok [OF good len dig _ exps] by (intro collectR_all_Inr) simp
  have ok: "block_ok ?d ?q b \<and> pm_cols b = ?d" if b: "b \<in> set blocks" for b
  proof -
    obtain j where j: "j < ?ell" "b = compile_spec ?d ?q (limb_steps digits exps j)" using b by (auto simp: blocks_def)
    have "?d * ?d \<le> 2048 * 2048" using N(2) by (intro mult_le_mono)
    moreover have "wf_matrix b" unfolding j(2) compile_spec_def using q by (intro wf_matrix_mat_of) (simp add: nat_less_iff)
    ultimately show ?thesis using N(1) by (simp add: j(2) block_ok_def) (simp add: compile_spec_def)
  qed
  have cols: "(\<Sum>b\<leftarrow>blocks. pm_cols b) = ?ell * ?d"
  proof -
    have "(\<Sum>b\<leftarrow>blocks. pm_cols b) = (\<Sum>b\<leftarrow>blocks. ?d)" using ok by (intro arg_cong [of _ _ sum_list] map_cong refl) blast
    then show ?thesis by (simp only: sum_list_triv) (simp add: blocks_def)
  qed
  have "?ell * ?d \<le> 8 * 2048" using N(2,8) by (intro mult_le_mono)
  then show "\<exists>m. from_blocks cpu blocks = Inr m"
    using ok cols q N(1,2,6,7) by (intro from_blocks_total) (auto simp: blocks_def)
  assume m: "from_blocks cpu blocks = Inr m" and ks: "masks_ok p ks"
  note F = from_blocks_ok [OF m]
  have hd: "pm_rows (hd blocks) = ?d" "pm_q (hd blocks) = ?q" using ok [OF hd_in_set [OF F(1)]] by (simp_all add: block_ok_def)
  have dims: "nm_rows m = ?d" "nm_q m = ?q" "nm_cols m = ?ell * ?d" using F(2-4) hd cols by simp_all
  have kc: "canon ?q ?d (ks ! j)" if "j < ?ell" for j using ks that by (simp add: masks_ok_def)
  have kl: "length ks = ?ell" "\<And>k. k \<in> set ks \<Longrightarrow> length k = ?d \<and> all_below ?q k"
    using ks by (auto simp: masks_ok_def canon_def in_set_conv_nth)
  have lc: "length (concat ks) = ?ell * ?d"
  proof -
    have "length (concat ks) = (\<Sum>k\<leftarrow>ks. ?d)" unfolding length_concat using kl(2) by (intro arg_cong [of _ _ sum_list] map_cong refl) simp
    then show ?thesis by (simp add: sum_list_triv kl(1))
  qed
  have "all_below ?q (concat ks)" using kl(2) by (auto simp: all_below_set)
  then have run: "multiply cpu m (concat ks) = Inr (native_product m (concat ks))" using multiply_ok [OF F(6)] lc dims by simp
  have el: "eqm ?q (int_dot_sum (native_rows m ! r) (concat ks)) (\<Sum>t<length digits. step_body p ks (digits ! t) (exps ! t) (int r))"
    if r: "r < ?d" for r
  proof -
    let ?row = "\<lambda>b. map (\<lambda>x. centered x ?q) (take (pm_cols b) (drop (r * pm_cols b) (pm_data b)))"
    let ?one = "\<lambda>j t. conv ?d (ext (digits ! t ! j)) (tau ?d (exps ! t) (ext (ks ! j))) (int r)"
    have row: "native_rows m ! r = concat (map ?row blocks)" using F(8) r dims by (simp add: block_row_def)
    have "list_all2 (\<lambda>a b. length a = length b) (map ?row blocks) ks"
    proof (rule list_all2_all_nthI)
      show "length (map ?row blocks) = length ks" by (simp add: blocks_def kl(1))
      fix j assume "j < length (map ?row blocks)"
      then have j: "j < ?ell" by (simp add: blocks_def)
      have "length (row_slice (pm_data (blocks ! j)) ?d r) = ?d"
        using j by (intro length_row_slice [OF r]) (simp add: blocks_def compile_spec_def)
      then show "length (map ?row blocks ! j) = length (ks ! j)"
        using j canonD(4) [OF kc [OF j]] by (simp add: blocks_def row_slice_def) (simp add: compile_spec_def)
    qed
    then have "int_dot_sum (native_rows m ! r) (concat ks) = (\<Sum>(a, b)\<leftarrow>zip (map ?row blocks) ks. int_dot_sum a b)"
      unfolding row by (rule int_dot_sum_concat)
    also have "\<dots> = (\<Sum>j<?ell. int_dot_sum (?row (blocks ! j)) (ks ! j))"
      by (simp add: sum_list_sum_nth atLeast0LessThan kl(1) blocks_def case_prod_beta)
    also have "eqm ?q \<dots> (\<Sum>j<?ell. \<Sum>t<length digits. ?one j t)"
    proof (rule eqm_sum)
      fix j assume "j \<in> {..<?ell}"
      then have j: "j < ?ell" by simp
      have "(\<Sum>(t, g)\<leftarrow>limb_steps digits exps j. conv ?d (ext t) (tau ?d g (ext (ks ! j))) (int r)) = (\<Sum>t<length digits. ?one j t)"
        using len exps(1) by (simp add: limb_steps_def sum_list_sum_nth atLeast0LessThan case_prod_beta)
      then show "eqm ?q (int_dot_sum (?row (blocks ! j)) (ks ! j)) (\<Sum>t<length digits. ?one j t)"
        using block_dot [OF steps [OF j] kc [OF j] r] j by (simp add: blocks_def)
    qed
    also have "(\<Sum>j<?ell. \<Sum>t<length digits. ?one j t) = (\<Sum>t<length digits. step_body p ks (digits ! t) (exps ! t) (int r))"
      unfolding step_body_def by (rule sum.swap)
    finally show ?thesis .
  qed
  have "eqm ?q (int (native_product m (concat ks) ! r)) (\<Sum>t<length digits. step_body p ks (digits ! t) (exps ! t) (int r))" if "r < ?d" for r
    using eqm_trans [OF rem_euclid_eqm [OF q(1)] el [OF that]] that by (simp add: native_product_def dims)
  moreover have "canon ?q ?d (native_product m (concat ks))"
    using q(1) by (intro native_canon [OF good]) (auto simp: native_product_def dims all_below_set rem_euclid_less)
  ultimately show "\<exists>y. multiply cpu m (concat ks) = Inr y \<and> canon ?q ?d y
      \<and> (\<forall>r<?d. eqm ?q (int (y ! r)) (\<Sum>t<length digits. step_body p ks (digits ! t) (exps ! t) (int r)))"
    using run by blast
qed

section \<open>The capacity checks pass\<close>

lemma option_sum_total:
  "z + sum_list xs < 2 ^ 128 \<Longrightarrow> fold (\<lambda>m sum. Option.bind sum (\<lambda>s. checked_add_u128 s m)) xs (Some z) = Some (z + sum_list xs)"
  by (induction xs arbitrary: z) (simp_all add: checked_add_u128_def add.assoc)

lemma masks_valid:
  assumes "masks_ok p ws" and "lc_d ctx = np_d p" and "lc_q ctx = np_q p" and "w \<in> set ws"
  shows "lift_valid ctx w"
  using assms by (auto simp: masks_ok_def lift_valid_def canon_def in_set_conv_nth)

lemma public_dot_total:
  assumes good: "good_native p" and ctx: "good_ctx ctx" "lc_d ctx = np_d p" "lc_q ctx = np_q p" and ws: "masks_ok p ws"
  shows "\<exists>dot. prepare_public_dot eng ctx ws (digit_bound p) = Inr dot"
proof -
  note N = good_nativeD [OF good]
  let ?b = "digit_bound p" and ?s = "\<Sum>w\<leftarrow>ws. max_abs ctx w"
  have valid: "lift_valid ctx w" if "w \<in> set ws" for w using masks_valid [OF ws ctx(2,3) that] .
  have maxima: "collectR (\<lambda>poly. mapR (\<lambda>_. max_abs ctx poly) (validate_lift ctx poly)) ws = Inr (map (max_abs ctx) ws)"
    using valid by (intro collectR_all_Inr) simp
  have "max_abs ctx w \<le> 2 ^ 55" if "w \<in> set ws" for w
  proof -
    have "max_abs ctx w \<le> lc_q ctx div 2" using max_abs_le [OF valid [OF that]] N(1) ctx(2) by simp
    also have "\<dots> \<le> 2 ^ 55" using N(6) by (simp add: ctx(3))
    finally show ?thesis .
  qed
  then have "?s \<le> (\<Sum>w\<leftarrow>ws. 2 ^ 55)" by (intro sum_list_mono)
  also have "\<dots> \<le> 8 * 2 ^ 55" using N(8) ws by (simp add: sum_list_triv masks_ok_def)
  finally have s: "?s \<le> 2 ^ 58" by simp
  have b: "?b \<le> 2 ^ 26"
  proof -
    have "(2::nat) ^ (np_bits p - 1) \<le> 2 ^ 26" using N(10) by (intro power_increasing) simp_all
    then show ?thesis by (simp add: digit_bound_def)
  qed
  have sd: "?s * np_d p \<le> 2 ^ 58 * 2048" using s N(2) by (intro mult_le_mono)
  have sdb: "?s * np_d p * ?b \<le> 2 ^ 58 * 2048 * 2 ^ 26" by (rule mult_le_mono [OF sd b])
  have need: "?s * np_d p * ?b * 2 < lc_product ctx"
  proof -
    have "?s * np_d p * ?b * 2 \<le> 2 ^ 58 * 2048 * 2 ^ 26 * 2" using sdb by (intro mult_le_mono1)
    also have "\<dots> < lc_product ctx" using good_ctxD(5) [OF ctx(1)] by (simp add: PRIMES_def)
    finally show ?thesis .
  qed
  have "ws \<noteq> []" using ws N(7) by (auto simp: masks_ok_def)
  then show ?thesis
    using maxima option_sum_total [of 0 "map (max_abs ctx) ws"] s sd sdb need ctx(2,3)
    by (simp add: prepare_public_dot_def digit_bound_def checked_mul_u128_def guardR_def Let_def)
qed

lemma prepare_public_total:
  assumes "as \<noteq> []" and "\<And>a. a \<in> set as \<Longrightarrow> lift_valid ctx a"
  shows "\<exists>op. prepare_public eng ctx as = Inr op"
  using assms by (simp add: prepare_public_def Let_def) (subst collectR_all_Inr, auto)

lemma prepare_right_primes_total:
  assumes "bs \<noteq> []" and "\<And>b. b \<in> set bs \<Longrightarrow> lift_valid ctx b"
  shows "\<exists>r. prepare_right_primes eng ctx bs n = Inr r"
  using assms by (simp add: prepare_right_primes_def) (subst collectR_all_Inr, auto)

lemma prepare_bounded_right_total:
  assumes "bs \<noteq> []" and "\<And>b. b \<in> set bs \<Longrightarrow> lift_valid ctx b" and "left_bound \<le> lc_q ctx div 2"
  shows "\<exists>r n. prepare_bounded_right eng ctx bs left_bound = Inr r \<and> prepare_right_primes eng ctx bs n = Inr r
    \<and> n = (if 2 * lc_d ctx * left_bound * (lc_q ctx div 2) < PRIMES ! 0 * PRIMES ! 1 then 2 else 3)"
  using prepare_right_primes_total [OF assms(1,2)] assms(3) by (simp add: prepare_bounded_right_def Let_def)

text \<open>The public update of the last switch, which needs no rotation.\<close>

lemma plain_update:
  assumes laws: "ntt_laws eng (np_d p)" and ctx: "new_lift_context eng (np_d p) (np_q p) = Inr ctx"
    and good: "good_native p" and ws: "masks_ok p ws" and dot: "dot_for eng ctx ws dot" "ppd_right_bound dot = digit_bound p"
    and ds: "digits_ok p ds"
  shows "\<exists>u. public_dot eng ctx dot ds = Inr u \<and> canon (np_q p) (np_d p) u
    \<and> (\<forall>k. eqm (np_q p) (ext u k) (\<Sum>j<np_ell p. conv (np_d p) (ext (ws ! j)) (ext (ds ! j)) k))"
proof -
  note G = new_lift_context_good [OF laws ctx]
  have lw: "length ws = np_ell p" and ld: "length ds = np_ell p" using ws ds by (simp_all add: masks_ok_def digits_ok_def)
  then have len: "length ws = length ds" "ws \<noteq> []" using good_nativeD(7) [OF good] by auto
  have wc: "\<And>j. j < length ws \<Longrightarrow> canon (np_q p) (np_d p) (ws ! j)" using ws lw by (simp add: masks_ok_def)
  have dc: "\<And>j. j < length ws \<Longrightarrow> canon (np_q p) (np_d p) (ds ! j)" using ds lw by (simp add: digits_ok_def)
  have "public_dot eng ctx dot ds = Inr (ring_dot (lc_q ctx) (lc_d ctx) ws ds)"
  proof (rule dot_signed_ok [OF _ G(1) dot(1) len(1) [symmetric]])
    show "ntt_laws eng (lc_d ctx)" using laws G by simp
    fix b assume "b \<in> set ds"
    then obtain j where j: "j < np_ell p" "b = ds ! j" unfolding in_set_conv_nth ld by blast
    have "canon (np_q p) (np_d p) b" using dc lw j by simp
    moreover have "\<bar>centered (ds ! j ! t) (np_q p)\<bar> \<le> int (digit_bound p)" if "t < np_d p" for t
      using ds j(1) that by (simp add: digits_ok_def)
    ultimately show "lift_valid ctx b \<and> (\<forall>t<lc_d ctx. \<bar>centred (lc_q ctx) b ! t\<bar> \<le> int (ppd_right_bound dot))"
      using G(2,3) dot(2) j(2) by (auto simp: lift_valid_def canon_def)
  qed
  then show ?thesis
    using ext_ring_dot [OF good_nativeD(1) [OF good] _ len(1) wc dc len(2)] good_nativeD(6) [OF good] G(2,3) lw by auto
qed

section \<open>Both chains\<close>

lemma neg_generator:
  fixes d :: nat
  assumes "0 < d"
  shows "(2 * d - 5 ^ Suc i mod (2 * d)) mod (2 * d) = 5 * (2 * d - 5 ^ i mod (2 * d)) mod (2 * d)"
proof -
  have le: "x mod (2 * d) \<le> 2 * d" for x using assms by (intro less_imp_le mod_less_divisor) simp
  have neg: "eqm (2 * d) (int (2 * d - x mod (2 * d))) (- int x)" for x
  proof -
    have "int (2 * d - x mod (2 * d)) = - int (x mod (2 * d)) + int (2 * d)" using le [of x] by (simp add: of_nat_diff)
    moreover have "eqm (2 * d) (- int (x mod (2 * d)) + int (2 * d)) (- int x)"
      unfolding eqm_mod_iff by (simp add: zmod_int mod_minus_eq)
    ultimately show ?thesis by simp
  qed
  have "eqm (2 * d) (int (5 * (2 * d - 5 ^ i mod (2 * d)))) (5 * - int (5 ^ i))"
    using eqm_mult [OF eqm_refl neg [of "5 ^ i"], of 5] by simp
  then have "eqm (2 * d) (int (2 * d - 5 ^ Suc i mod (2 * d))) (int (5 * (2 * d - 5 ^ i mod (2 * d))))"
    using eqm_trans [OF neg [of "5 ^ Suc i"] eqm_sym] by simp
  then show ?thesis unfolding eqm_mod_iff by (metis of_nat_eq_iff zmod_int)
qed

text \<open>What the two chains leave behind: the two masks, the digits of every step, and the body they
  account for.\<close>

definition chained :: "native_params \<Rightarrow> nat list list \<Rightarrow> nat list list \<Rightarrow> nat list \<Rightarrow> nat list \<Rightarrow> nat list list list \<Rightarrow> bool" where
  "chained p ws slots left right digits \<longleftrightarrow> canon (np_q p) (np_d p) left \<and> canon (np_q p) (np_d p) right
     \<and> length digits = np_d p - 2 \<and> (\<forall>t<length digits. digits_ok p (digits ! t))
     \<and> (\<forall>S B E ks k. switching p 5 ws S B E ks \<longrightarrow>
          near (np_q p) (int (np_d p - 2) * switch_error p B E)
            (\<Sum>i<np_d p. conv (np_d p) (ext (slots ! i)) (tau (np_d p) (slot_exponents (np_d p) ! i) S) k)
            (conv (np_d p) (ext left) S k + conv (np_d p) (ext right) (tau (np_d p) (2 * np_d p - 1) S) k
              + (\<Sum>t<length digits. step_body p ks (digits ! t) (collapse_kg_exponents (np_d p) ! t) k)))"

lemma half_chain:
  assumes laws: "ntt_laws eng (np_d p)" and ctx: "new_lift_context eng (np_d p) (np_q p) = Inr ctx" and inv: "inverses_exist eng (np_d p)"
    and good: "good_native p" and ws: "masks_ok p ws" and dot: "dot_for eng ctx ws dot" "ppd_right_bound dot = digit_bound p"
    and gx: "\<And>i. odd (gx i) \<and> gx i < 2 * np_d p" "\<And>i. gx (Suc i) mod (2 * np_d p) = 5 * gx i mod (2 * np_d p)"
    and exps: "\<And>t. t < n \<Longrightarrow> exps ! t = gx (n - 1 - t)"
    and half: "length half = Suc n" "\<And>i. i < Suc n \<Longrightarrow> canon (np_q p) (np_d p) (half ! i)"
  shows "\<exists>half' new. trace_half eng p ctx dot half exps = Inr (half', new)
    \<and> length new = n \<and> canon (np_q p) (np_d p) (half' ! 0) \<and> (\<forall>t<n. digits_ok p (new ! t))
    \<and> (\<forall>S B E ks k. switching p 5 ws S B E ks \<longrightarrow>
         near (np_q p) (int n * switch_error p B E) (\<Sum>i<Suc n. conv (np_d p) (ext (half ! i)) (tau (np_d p) (gx i) S) k)
           (conv (np_d p) (ext (half' ! 0)) (tau (np_d p) (gx 0) S) k + (\<Sum>t<n. step_body p ks (new ! t) (exps ! t) k)))"
proof -
  have "\<exists>half' new. trace_loop eng p ctx dot exps 0 half [] n = Inr (half', [] @ new)
    \<and> length new = n \<and> canon (np_q p) (np_d p) (half' ! 0) \<and> (\<forall>t<n. digits_ok p (new ! t))
    \<and> (\<forall>S B E ks k. switching p 5 ws S B E ks \<longrightarrow>
         near (np_q p) (int n * switch_error p B E) (\<Sum>i\<le>n. conv (np_d p) (ext (half ! i)) (tau (np_d p) (gx i) S) k)
           (conv (np_d p) (ext (half' ! 0)) (tau (np_d p) (gx 0) S) k + (\<Sum>t<n. step_body p ks (new ! t) (exps ! (0 + t)) k)))"
  proof (rule trace_loop_ok [OF laws ctx inv good ws dot gx(1)])
    show "gx (Suc i) mod (2 * np_d p) = 5 * gx i mod (2 * np_d p)" for i by (rule gx(2))
    show "exps ! (0 + t) = gx (n - 1 - t)" if "t < n" for t using exps [OF that] by simp
    show "n < length half" using half(1) by simp
    show "canon (np_q p) (np_d p) (half ! i)" if "i \<le> n" for i using half(2) that by simp
  qed
  then show ?thesis by (simp only: trace_half_def half(1) diff_Suc_1 append_Nil add_0 lessThan_Suc_atMost)
qed

lemma generator_power:
  fixes d :: nat
  assumes "d = 2 ^ Suc l"
  shows "0 < 5 ^ i mod (2 * d)" and "odd (5 ^ i mod (2 * d))" and "5 ^ i mod (2 * d) < 2 * d"
proof -
  have m: "5 ^ i mod (2 * d) mod 4 = 1" by (intro pow5_mod4) (simp add: assms)
  show "0 < 5 ^ i mod (2 * d)" using m by (cases "5 ^ i mod (2 * d)") simp_all
  have odd: "odd x" if "x mod 4 = 1" for x :: nat using that by presburger
  show "odd (5 ^ i mod (2 * d))" using m by (rule odd)
  show "5 ^ i mod (2 * d) < 2 * d" using assms by simp
qed

lemma chains_ok:
  assumes laws: "ntt_laws eng (np_d p)" and ctx: "new_lift_context eng (np_d p) (np_q p) = Inr ctx" and inv: "inverses_exist eng (np_d p)"
    and good: "good_native p" and ws: "masks_ok p ws" and dot: "dot_for eng ctx ws dot" "ppd_right_bound dot = digit_bound p"
    and slots: "length slots = np_d p" "\<And>i. i < np_d p \<Longrightarrow> canon (np_q p) (np_d p) (slots ! i)"
  defines "exps \<equiv> collapse_kg_exponents (np_d p)" and "half \<equiv> np_d p div 2"
  shows "\<exists>left ldig right rdig. trace_half eng p ctx dot (take half slots) (take (half - 1) exps) = Inr (left, ldig)
    \<and> trace_half eng p ctx dot (drop half slots) (drop (half - 1) exps) = Inr (right, rdig)
    \<and> chained p ws slots (left ! 0) (right ! 0) (ldig @ rdig)"
proof -
  let ?d = "np_d p" and ?q = "np_q p" and ?n = "half - 1" and ?sl = "slot_exponents (np_d p)"
  obtain L where "?d = 2 ^ L" using good_nativeD(3) [OF good] by (auto simp: is_power_of_two_iff)
  then obtain l where d: "?d = 2 ^ Suc l" using good_nativeD(12) [OF good] by (cases L) auto
  have d4: "?d \<le> 4096" and pos: "0 < ?d" using good_nativeD(1,2) [OF good] by simp_all
  have half: "?d = half + half" "0 < half" unfolding half_def by (simp_all add: d)
  have sl: "?sl ! i = 5 ^ i mod (2 * ?d)" "?sl ! (half + i) = 2 * ?d - 5 ^ i mod (2 * ?d)" if "i < half" for i
    using that half by (simp_all add: slot_exponents_def nth_append flip: half_def)
  note gen = generator_power [OF d]
  let ?gl = "\<lambda>i. 5 ^ i mod (2 * ?d)" and ?gr = "\<lambda>i. 2 * ?d - 5 ^ i mod (2 * ?d)"
  let ?left = "take half slots" and ?right = "drop half slots"
  have lens: "length exps = ?d - 2" "length ?left = Suc ?n" "length ?right = Suc ?n"
    using exponents_ok(1) [OF d d4] slots(1) half by (simp_all add: exps_def)
  note H = half_chain [OF laws ctx inv good ws dot]
  have "\<exists>half' new. trace_half eng p ctx dot ?left (take ?n exps) = Inr (half', new)
    \<and> length new = ?n \<and> canon ?q ?d (half' ! 0) \<and> (\<forall>t<?n. digits_ok p (new ! t))
    \<and> (\<forall>S B E ks k. switching p 5 ws S B E ks \<longrightarrow>
         near ?q (int ?n * switch_error p B E) (\<Sum>i<Suc ?n. conv ?d (ext (?left ! i)) (tau ?d (?gl i) S) k)
           (conv ?d (ext (half' ! 0)) (tau ?d (?gl 0) S) k + (\<Sum>t<?n. step_body p ks (new ! t) (take ?n exps ! t) k)))"
  proof (rule H)
    show "odd (?gl i) \<and> ?gl i < 2 * ?d" for i using gen by blast
    show "?gl (Suc i) mod (2 * ?d) = 5 * ?gl i mod (2 * ?d)" for i by (simp add: mod_mult_right_eq)
    show "take ?n exps ! t = ?gl (?n - 1 - t)" if "t < ?n" for t
      using exponents_nth(1) [OF d d4, of t] sl(1) [of "half - 2 - t"] that by (simp add: exps_def half_def)
    show "length ?left = Suc ?n" by (rule lens)
    show "canon ?q ?d (?left ! i)" if "i < Suc ?n" for i using slots(2) [of i] that half by simp
  qed
  then obtain left ldig where L: "trace_half eng p ctx dot ?left (take ?n exps) = Inr (left, ldig)"
    "length ldig = ?n" "canon ?q ?d (left ! 0)" "\<forall>t<?n. digits_ok p (ldig ! t)"
    "\<And>S B E ks k. switching p 5 ws S B E ks \<Longrightarrow>
         near ?q (int ?n * switch_error p B E) (\<Sum>i<Suc ?n. conv ?d (ext (?left ! i)) (tau ?d (?gl i) S) k)
           (conv ?d (ext (left ! 0)) (tau ?d (?gl 0) S) k + (\<Sum>t<?n. step_body p ks (ldig ! t) (take ?n exps ! t) k))"
    by blast
  have "\<exists>half' new. trace_half eng p ctx dot ?right (drop ?n exps) = Inr (half', new)
    \<and> length new = ?n \<and> canon ?q ?d (half' ! 0) \<and> (\<forall>t<?n. digits_ok p (new ! t))
    \<and> (\<forall>S B E ks k. switching p 5 ws S B E ks \<longrightarrow>
         near ?q (int ?n * switch_error p B E) (\<Sum>i<Suc ?n. conv ?d (ext (?right ! i)) (tau ?d (?gr i) S) k)
           (conv ?d (ext (half' ! 0)) (tau ?d (?gr 0) S) k + (\<Sum>t<?n. step_body p ks (new ! t) (drop ?n exps ! t) k)))"
  proof (rule H)
    show "odd (?gr i) \<and> ?gr i < 2 * ?d" for i using gen [of i] by simp
    show "?gr (Suc i) mod (2 * ?d) = 5 * ?gr i mod (2 * ?d)" for i by (rule neg_generator [OF pos])
    show "drop ?n exps ! t = ?gr (?n - 1 - t)" if "t < ?n" for t
      using exponents_nth(2) [OF d d4, of t] sl(2) [of "half - 2 - t"] that by (simp add: exps_def half_def)
    show "length ?right = Suc ?n" by (rule lens)
    show "canon ?q ?d (?right ! i)" if "i < Suc ?n" for i using slots that half by simp
  qed
  then obtain right rdig where R: "trace_half eng p ctx dot ?right (drop ?n exps) = Inr (right, rdig)"
    "length rdig = ?n" "canon ?q ?d (right ! 0)" "\<forall>t<?n. digits_ok p (rdig ! t)"
    "\<And>S B E ks k. switching p 5 ws S B E ks \<Longrightarrow>
         near ?q (int ?n * switch_error p B E) (\<Sum>i<Suc ?n. conv ?d (ext (?right ! i)) (tau ?d (?gr i) S) k)
           (conv ?d (ext (right ! 0)) (tau ?d (?gr 0) S) k + (\<Sum>t<?n. step_body p ks (rdig ! t) (drop ?n exps ! t) k))"
    by blast
  have nn: "?d - 2 = ?n + ?n" "Suc ?n = half" using half by simp_all
  have "near ?q (int (?d - 2) * switch_error p B E)
      (\<Sum>i<?d. conv ?d (ext (slots ! i)) (tau ?d (?sl ! i) S) k)
      (conv ?d (ext (left ! 0)) S k + conv ?d (ext (right ! 0)) (tau ?d (2 * ?d - 1) S) k
         + (\<Sum>t<length (ldig @ rdig). step_body p ks ((ldig @ rdig) ! t) (exps ! t) k))"
    if sw: "switching p 5 ws S B E ks" for S B E ks k
  proof -
    have S: "antiper ?d S" using sw by (simp add: switching_def)
    let ?X = "\<lambda>i. conv ?d (ext (slots ! i)) (tau ?d (?sl ! i) S) k"
    have "(\<Sum>i<?d. ?X i) = (\<Sum>i<half. ?X i) + (\<Sum>i<half. ?X (half + i))"
      by (subst (1) half(1)) (rule sum_split_at)
    also have "(\<Sum>i<half. ?X i) = (\<Sum>i<Suc ?n. conv ?d (ext (?left ! i)) (tau ?d (?gl i) S) k)"
      unfolding nn(2) using sl(1) by (intro sum.cong refl) simp
    also have "(\<Sum>i<half. ?X (half + i)) = (\<Sum>i<Suc ?n. conv ?d (ext (?right ! i)) (tau ?d (?gr i) S) k)"
      unfolding nn(2) using sl(2) slots(1) half by (intro sum.cong refl) simp
    finally have lhs: "(\<Sum>i<?d. ?X i) = (\<Sum>i<Suc ?n. conv ?d (ext (?left ! i)) (tau ?d (?gl i) S) k)
        + (\<Sum>i<Suc ?n. conv ?d (ext (?right ! i)) (tau ?d (?gr i) S) k)" .
    have "tau ?d (?gl 0) S = S" using tau_one [OF pos S] pos by (intro HOL.ext) simp
    moreover have "?gr 0 = 2 * ?d - 1" using pos by simp
    moreover have "(\<Sum>t<length (ldig @ rdig). step_body p ks ((ldig @ rdig) ! t) (exps ! t) k)
        = (\<Sum>t<?n. step_body p ks (ldig ! t) (take ?n exps ! t) k) + (\<Sum>t<?n. step_body p ks (rdig ! t) (drop ?n exps ! t) k)"
    proof -
      have "(\<Sum>t<?n + ?n. step_body p ks ((ldig @ rdig) ! t) (exps ! t) k)
          = (\<Sum>t<?n. step_body p ks ((ldig @ rdig) ! t) (exps ! t) k) + (\<Sum>t<?n. step_body p ks ((ldig @ rdig) ! (?n + t)) (exps ! (?n + t)) k)"
        by (rule sum_split_at)
      moreover have "step_body p ks ((ldig @ rdig) ! t) (exps ! t) k = step_body p ks (ldig ! t) (take ?n exps ! t) k"
        "step_body p ks ((ldig @ rdig) ! (?n + t)) (exps ! (?n + t)) k = step_body p ks (rdig ! t) (drop ?n exps ! t) k" if "t < ?n" for t
      proof -
        have "?n + t < length exps" using that lens(1) nn(1) by simp
        then show "step_body p ks ((ldig @ rdig) ! t) (exps ! t) k = step_body p ks (ldig ! t) (take ?n exps ! t) k"
          "step_body p ks ((ldig @ rdig) ! (?n + t)) (exps ! (?n + t)) k = step_body p ks (rdig ! t) (drop ?n exps ! t) k"
          using that L(2) nth_append_length_plus [of ldig rdig t] by (simp_all add: nth_append del: One_nat_def)
      qed
      moreover have "length (ldig @ rdig) = ?n + ?n" using L(2) R(2) by simp
      ultimately show ?thesis by (simp del: One_nat_def cong: sum.cong_simp)
    qed
    ultimately show ?thesis
      using near_add [OF L(5) [OF sw, of k] R(5) [OF sw, of k]] unfolding lhs nn(1) by (simp add: algebra_simps)
  qed
  moreover have "\<forall>x\<in>set (ldig @ rdig). digits_ok p x" using L(2,4) R(2,4) by (auto simp: in_set_conv_nth)
  then have "\<forall>t<length (ldig @ rdig). digits_ok p ((ldig @ rdig) ! t)" using nth_mem by blast
  ultimately have "chained p ws slots (left ! 0) (right ! 0) (ldig @ rdig)"
    using L(2,3) R(2,3) nn(1) unfolding chained_def exps_def by (simp del: One_nat_def)
  then show ?thesis using L(1) R(1) by blast
qed

section \<open>The build succeeds\<close>

text \<open>What a build keeps: the stored matrix of the digits and, in one-mask mode, the last switch and its
  prepared operand.\<close>

definition built :: "ntt_engine \<Rightarrow> cpu_features \<Rightarrow> native_setup \<Rightarrow> lift_context \<Rightarrow> nat list list \<Rightarrow> bool \<Rightarrow> native_preprocessed \<Rightarrow> bool" where
  "built eng cpu setup ctx masks two_mask pre \<longleftrightarrow>
     (let p = ns_params setup; slots = reorder_slots (np_d p) (aggregate_masks masks (np_q p))
      in pre_params pre = p \<and> pre_id pre = ns_id setup \<and> pre_lift pre = ctx \<and> canon (np_q p) (np_d p) (pre_a pre)
        \<and> (\<exists>left right digits. chained p (ns_w setup) slots left right digits
            \<and> from_blocks cpu (map (\<lambda>j. compile_spec (np_d p) (np_q p) (limb_steps digits (collapse_kg_exponents (np_d p)) j)) [0..<np_ell p]) = Inr (pre_h pre)
            \<and> (if two_mask then pre_a pre = left \<and> pre_a_other pre = Some right \<and> pre_leftover pre = None
               else pre_a_other pre = None \<and> (\<exists>ds op. decompose right p = Inr ds \<and> digits_ok p ds
                 \<and> pre_leftover pre = Some op \<and> prepare_public eng ctx ds = Inr op
                 \<and> (\<forall>k. eqm (np_q p) (ext (pre_a pre) k)
                      (ext left k + (\<Sum>j<np_ell p. conv (np_d p) (ext (ns_v setup ! j)) (ext (ds ! j)) k)))))))"

lemma setup_masks:
  assumes "setup_ok setup" and "ns_params setup = p"
  shows "good_native p" and "masks_ok p (ns_w setup)" and "masks_ok p (ns_v setup)"
proof -
  show good: "good_native p" using assms by (simp add: setup_ok_def)
  have "list_all (\<lambda>a. length a = np_d p \<and> all_below (np_q p) a) (ns_w setup @ ns_v setup)" using assms by (simp add: setup_ok_def)
  then show "masks_ok p (ns_w setup)" "masks_ok p (ns_v setup)"
    using assms good by (auto simp: setup_ok_def masks_ok_def list_all_iff intro!: native_canon)
qed

lemma slots_ok:
  assumes good: "good_native p" and len: "length masks = np_d p" "\<And>row. row \<in> set masks \<Longrightarrow> length row = np_d p \<and> all_below (np_q p) row"
  defines "slots \<equiv> reorder_slots (np_d p) (aggregate_masks masks (np_q p))"
  shows "length slots = np_d p" and "\<And>i. i < np_d p \<Longrightarrow> canon (np_q p) (np_d p) (slots ! i)"
    and "antiper (np_d p) S \<Longrightarrow> (\<And>k. \<bar>S k\<bar> \<le> B) \<Longrightarrow> k < np_d p \<Longrightarrow>
      near (np_q p) (int (np_d p) * (int (np_d p) * B)) (\<Sum>i<np_d p. int (masks ! k ! i) * S (int i))
        (\<Sum>i<np_d p. conv (np_d p) (ext (slots ! i)) (tau (np_d p) (slot_exponents (np_d p) ! i) S) (int k))"
proof -
  let ?d = "np_d p" and ?q = "np_q p" and ?sl = "slot_exponents (np_d p)"
  obtain L where "?d = 2 ^ L" using good_nativeD(3) [OF good] by (auto simp: is_power_of_two_iff)
  then obtain l where d: "?d = 2 ^ Suc l" using good_nativeD(12) [OF good] by (cases L) auto
  note P = slot_exponents_perm [OF d]
  have zero: "antiper ?d (\<lambda>k. 0)" "\<And>k. \<bar>(\<lambda>k. 0::int) k\<bar> \<le> 0" by (simp_all add: antiper_def)
  have pos: "0 < ?d" using good_nativeD(1) [OF good] .
  have lagg: "length (aggregate_masks masks ?q) = ?d" using aggregate_near(1) [OF good len(1) _ zero pos] len(2) by blast
  have cagg: "canon ?q ?d (aggregate_masks masks ?q ! t)" if "t < ?d" for t
    using aggregate_near(2) [OF good len(1) _ zero pos that] len(2) by blast
  have slots: "slots = map (\<lambda>g. aggregate_masks masks ?q ! ((g - 1) div 2)) ?sl" unfolding slots_def by (rule reorder_slots_ok [OF d lagg])
  show "length slots = ?d" using P(3) by (simp add: slots)
  have idx: "(?sl ! i - 1) div 2 < ?d \<and> 2 * ((?sl ! i - 1) div 2) + 1 = ?sl ! i" if "i < ?d" for i
  proof -
    have "?sl ! i \<in> set ?sl" using P(3) that by simp
    then show ?thesis unfolding P(2) by (auto elim!: oddE)
  qed
  show "canon ?q ?d (slots ! i)" if "i < ?d" for i
    using cagg idx [OF that] that P(3) by (simp add: slots)
  assume S: "antiper ?d S" "\<And>k. \<bar>S k\<bar> \<le> B" and k: "k < ?d"
  let ?F = "\<lambda>g. conv ?d (ext (aggregate_masks masks ?q ! ((g - 1) div 2))) (tau ?d g S) (int k)"
  have "(\<Sum>t<?d. conv ?d (ext (aggregate_masks masks ?q ! t)) (tau ?d (2 * t + 1) S) (int k)) = (\<Sum>t<?d. ?F (2 * t + 1))" by simp
  also have "\<dots> = (\<Sum>i<?d. ?F (?sl ! i))" by (rule sum_slots [OF d])
  also have "\<dots> = (\<Sum>i<?d. conv ?d (ext (slots ! i)) (tau ?d (?sl ! i) S) (int k))"
    using P(3) by (intro sum.cong refl) (simp add: slots)
  finally show "near ?q (int ?d * (int ?d * B)) (\<Sum>i<?d. int (masks ! k ! i) * S (int i))
        (\<Sum>i<?d. conv ?d (ext (slots ! i)) (tau ?d (?sl ! i) S) (int k))"
    using aggregate_near(3) [OF good len(1) _ S k] len(2) by simp
qed

lemma build_internal_ok:
  assumes laws: "ntt_laws eng (np_d p)" and ctx: "new_lift_context eng (np_d p) (np_q p) = Inr ctx" and inv: "inverses_exist eng (np_d p)"
    and st: "setup_ok setup" "ns_params setup = p"
    and masks: "length masks = np_d p" "\<And>row. row \<in> set masks \<Longrightarrow> length row = np_d p \<and> all_below (np_q p) row"
  shows "\<exists>pre. build_internal eng cpu setup masks two_mask = Inr pre \<and> built eng cpu setup ctx masks two_mask pre"
proof -
  let ?d = "np_d p" and ?q = "np_q p"
  note SM = setup_masks [OF st]
  note G = new_lift_context_good [OF laws ctx]
  let ?slots = "reorder_slots ?d (aggregate_masks masks ?q)" and ?exps = "collapse_kg_exponents ?d"
  obtain L where "?d = 2 ^ L" using good_nativeD(3) [OF SM(1)] by (auto simp: is_power_of_two_iff)
  then obtain l where d: "?d = 2 ^ Suc l" using good_nativeD(12) [OF SM(1)] by (cases L) auto
  have d4: "?d \<le> 4096" using good_nativeD(2) [OF SM(1)] by simp
  obtain w where w: "prepare_public_dot eng ctx (ns_w setup) (digit_bound p) = Inr w" using public_dot_total [OF SM(1) G SM(2)] by blast
  obtain v where v: "prepare_public_dot eng ctx (ns_v setup) (digit_bound p) = Inr v" using public_dot_total [OF SM(1) G SM(3)] by blast
  have SL: "length ?slots = ?d" "\<And>i. i < ?d \<Longrightarrow> canon ?q ?d (?slots ! i)"
    using slots_ok(1,2) [OF SM(1) masks(1)] masks(2) by blast+
  note wf = prepare_public_dot_for [OF G(1) w] and vf = prepare_public_dot_for [OF G(1) v]
  obtain left ldig right rdig where T: "trace_half eng p ctx w (take (?d div 2) ?slots) (take (?d div 2 - 1) ?exps) = Inr (left, ldig)"
    "trace_half eng p ctx w (drop (?d div 2) ?slots) (drop (?d div 2 - 1) ?exps) = Inr (right, rdig)"
    "chained p (ns_w setup) ?slots (left ! 0) (right ! 0) (ldig @ rdig)"
    using chains_ok [OF laws ctx inv SM(1,2) wf SL(1,2)] by blast
  have cn: "canon ?q ?d (left ! 0)" "canon ?q ?d (right ! 0)" "length (ldig @ rdig) = ?d - 2"
    "\<And>t. t < length (ldig @ rdig) \<Longrightarrow> digits_ok p ((ldig @ rdig) ! t)"
    using T(3) by (simp_all add: chained_def)
  note M = stored_matrix(1,2) [OF SM(1) cn(3) _ exponents_ok(1) [OF d d4], OF cn(4) exponents_ok(2) [OF d d4]]
  obtain m where m: "from_blocks cpu (map (\<lambda>j. compile_spec ?d ?q (limb_steps (ldig @ rdig) ?exps j)) [0..<np_ell p]) = Inr m" using M(2) by blast
  have "collectR (\<lambda>row. validate_poly row p) masks = Inr (map (\<lambda>_. ()) masks)"
    using masks(2) by (intro collectR_all_Inr) (simp add: validate_poly_iff)
  note run = this ctx w [unfolded digit_bound_def] v [unfolded digit_bound_def] T(1,2) M(1) m masks(1)
  note chain = T(3)
  show ?thesis
  proof (cases two_mask)
    case True
    let ?pre = "\<lparr>pre_params = p, pre_id = ns_id setup, pre_a = left ! 0, pre_a_other = Some (right ! 0), pre_h = m, pre_leftover = None, pre_lift = ctx\<rparr>"
    have "build_internal eng cpu setup masks two_mask = Inr ?pre"
      using True run by (simp add: build_internal_def Let_def st(2))
    moreover have "built eng cpu setup ctx masks two_mask ?pre"
      unfolding built_def Let_def st(2) using True chain cn(1) m
      by (intro conjI exI [of _ "left ! 0"] exI [of _ "right ! 0"] exI [of _ "ldig @ rdig"]) simp_all
    ultimately show ?thesis by blast
  next
    case False
    obtain ds where ds: "decompose (right ! 0) p = Inr ds" "digits_ok p ds" using decompose_ok [OF SM(1) cn(2)] by blast
    obtain u where u: "public_dot eng ctx v ds = Inr u" "canon ?q ?d u"
      "\<And>k. eqm ?q (ext u k) (\<Sum>j<np_ell p. conv ?d (ext (ns_v setup ! j)) (ext (ds ! j)) k)"
      using plain_update [OF laws ctx SM(1,3) vf ds(2)] by blast
    let ?a = "map2 (\<lambda>a x. u64 (a + x) AND (?q - 1)) (left ! 0) u"
    note A = ext_masked_sum [OF SM(1) cn(1) u(2)]
    have a: "eqm ?q (ext ?a k) (ext (left ! 0) k + (\<Sum>j<np_ell p. conv ?d (ext (ns_v setup ! j)) (ext (ds ! j)) k))" for k
      using eqm_trans [OF A(2) eqm_add [OF eqm_refl u(3)]] .
    have "ds \<noteq> []" "\<And>x. x \<in> set ds \<Longrightarrow> lift_valid ctx x"
      using ds(2) good_nativeD(7) [OF SM(1)] G(2,3) by (auto simp: digits_ok_def lift_valid_def canon_def in_set_conv_nth)
    then obtain op where op: "prepare_public eng ctx ds = Inr op" using prepare_public_total by blast
    let ?pre = "\<lparr>pre_params = p, pre_id = ns_id setup, pre_a = ?a, pre_a_other = None, pre_h = m, pre_leftover = Some op, pre_lift = ctx\<rparr>"
    have "build_internal eng cpu setup masks two_mask = Inr ?pre"
      using False run ds(1) u(1) op by (simp add: build_internal_def Let_def st(2) del: One_nat_def)
    moreover have "\<exists>ds op. decompose (right ! 0) p = Inr ds \<and> digits_ok p ds
         \<and> pre_leftover ?pre = Some op \<and> prepare_public eng ctx ds = Inr op
         \<and> (\<forall>k. eqm ?q (ext (pre_a ?pre) k) (ext (left ! 0) k + (\<Sum>j<np_ell p. conv ?d (ext (ns_v setup ! j)) (ext (ds ! j)) k)))"
      using ds op a by (intro exI [of _ ds] exI [of _ op]) (simp del: One_nat_def)
    then have "built eng cpu setup ctx masks two_mask ?pre"
      unfolding built_def Let_def st(2) using False chain A(1) m
      by (intro conjI exI [of _ "left ! 0"] exI [of _ "right ! 0"] exI [of _ "ldig @ rdig"]) (simp_all del: One_nat_def)
    ultimately show ?thesis by blast
  qed
qed

end
