(* ===== verification/Native_Phase.thy ===== *)
theory Native_Phase
  imports Native_Build
begin

text \<open>
  What packing means: the packed ciphertext, in one-mask and in two-mask mode, decrypts under the
  secret to the phases of the LWE samples it was packed from, up to an explicit noise bound, and the
  staged packing of a request (\<open>prepare_keys\<close>, \<open>prepare_pack\<close>, \<open>finish\<close>) is the one-call packing.
\<close>

section \<open>The stored part\<close>

text \<open>The error of the collapse chains and of the division by the degree.\<close>

definition chain_error :: "native_params \<Rightarrow> int \<Rightarrow> int \<Rightarrow> int" where
  "chain_error p B E = int (np_d p) * (int (np_d p) * B) + int (np_d p - 2) * switch_error p B E"

definition small_secret :: "native_params \<Rightarrow> nat list \<Rightarrow> int \<Rightarrow> bool" where
  "small_secret p s B \<longleftrightarrow> length s = np_d p \<and> all_below (np_q p) s \<and> (\<forall>i<np_d p. \<bar>centered (s ! i) (np_q p)\<bar> \<le> B)"

definition lwe_masks :: "native_params \<Rightarrow> nat list list \<Rightarrow> bool" where
  "lwe_masks p masks \<longleftrightarrow> length masks = np_d p \<and> (\<forall>row\<in>set masks. length row = np_d p \<and> all_below (np_q p) row)"

text \<open>The inner product of mask row \<open>k\<close> and the secret.\<close>

definition mask_secret :: "native_params \<Rightarrow> nat list list \<Rightarrow> nat list \<Rightarrow> nat \<Rightarrow> int" where
  "mask_secret p masks s k = (\<Sum>i<np_d p. int (masks ! k ! i) * int (s ! i))"

lemma key_for_masks:
  assumes "good_native p" and "masks_ok p ws" and "key_for p s g ws ks E"
  shows "masks_ok p ks"
  using assms by (auto simp: masks_ok_def key_for_def intro!: native_canon)

lemma switching_generator:
  assumes good: "good_native p" and s: "small_secret p s B" and ws: "masks_ok p ws" and key: "key_for p s (5 mod (2 * np_d p)) ws ks E"
  shows "switching p 5 ws (iext (centred (np_q p) s)) B E ks"
proof -
  have "np_d p * (5 mod (2 * np_d p)) < 2 ^ 64" using good_nativeD(1) [OF good] by (intro small_exponent [OF good]) simp
  then have "switching p (5 mod (2 * np_d p)) ws (iext (centred (np_q p) s)) B E ks"
    using s by (intro key_switching [OF good _ _ _ ws key]) (simp_all add: small_secret_def)
  moreover have gen: "tau (np_d p) (5 mod (2 * np_d p)) f = tau (np_d p) 5 f" for f by (rule HOL.ext) (rule tau_mod)
  ultimately show ?thesis unfolding switching_def gen by blast
qed

lemma secret_fun:
  assumes good: "good_native p" and s: "small_secret p s B"
  defines "S \<equiv> iext (centred (np_q p) s)"
  shows "canon (np_q p) (np_d p) s" and "antiper (np_d p) S" and "\<bar>S k\<bar> \<le> B"
    and "masks ! k' = row \<Longrightarrow> eqm (np_q p) (mask_secret p masks s k') (\<Sum>i<np_d p. int (row ! i) * S (int i))"
    and "canon (np_q p) (np_d p) a \<Longrightarrow> i < np_d p \<Longrightarrow>
      eqm (np_q p) (int (schoolbook_negacyclic a s (np_q p) ! i)) (conv (np_d p) (ext a) S (int i))"
proof -
  show c: "canon (np_q p) (np_d p) s" using s by (intro native_canon [OF good]) (simp_all add: small_secret_def)
  have b: "\<And>i. i < np_d p \<Longrightarrow> \<bar>centered (s ! i) (np_q p)\<bar> \<le> B" and len: "length s = np_d p" using s by (simp_all add: small_secret_def)
  show "antiper (np_d p) S" unfolding S_def by (rule iext_centred_bound(1) [OF c b])
  show "\<bar>S k\<bar> \<le> B" unfolding S_def by (rule iext_centred_bound(2) [OF c b])
  show "eqm (np_q p) (mask_secret p masks s k') (\<Sum>i<np_d p. int (row ! i) * S (int i))" if "masks ! k' = row"
    unfolding mask_secret_def that S_def using len by (intro eqm_sum eqm_mult eqm_refl) (simp add: iext_nth centered_eqm)
  assume a: "canon (np_q p) (np_d p) a" and i: "i < np_d p"
  have "length (schoolbook_negacyclic a s (np_q p)) = np_d p" using canonD(4) [OF schoolbook_negacyclic_nth(1) [OF a c]] .
  then show "eqm (np_q p) (int (schoolbook_negacyclic a s (np_q p) ! i)) (conv (np_d p) (ext a) S (int i))"
    using eqm_trans [OF ext_schoolbook [OF a c, of "int i"] conv_cong [OF eqm_refl ext_centred [OF c]]] i
    by (simp add: ext_nth S_def)
qed

lemma stored_multiply:
  assumes good: "good_native p" and chain: "chained p ws slots left right digits"
    and store: "from_blocks cpu (map (\<lambda>j. compile_spec (np_d p) (np_q p) (limb_steps digits (collapse_kg_exponents (np_d p)) j)) [0..<np_ell p]) = Inr m"
    and ks: "masks_ok p ks"
  shows "\<exists>y. multiply cpu m (concat ks) = Inr y \<and> canon (np_q p) (np_d p) y
      \<and> (\<forall>r<np_d p. eqm (np_q p) (int (y ! r)) (\<Sum>t<length digits. step_body p ks (digits ! t) (collapse_kg_exponents (np_d p) ! t) (int r)))"
proof -
  obtain L where "np_d p = 2 ^ L" using good_nativeD(3) [OF good] by (auto simp: is_power_of_two_iff)
  then obtain l where d: "np_d p = 2 ^ Suc l" using good_nativeD(12) [OF good] by (cases L) auto
  have d4: "np_d p \<le> 4096" using good_nativeD(2) [OF good] by simp
  have cn: "length digits = np_d p - 2" "\<And>t. t < length digits \<Longrightarrow> digits_ok p (digits ! t)"
    using chain by (simp_all add: chained_def)
  show ?thesis by (rule stored_matrix(3) [OF good cn exponents_ok [OF d d4] store ks])
qed

lemma stored_phase:
  assumes good: "good_native p" and st: "setup_ok setup" "ns_params setup = p" and masks: "lwe_masks p masks"
    and chain: "chained p (ns_w setup) (reorder_slots (np_d p) (aggregate_masks masks (np_q p))) left right digits"
    and store: "from_blocks cpu (map (\<lambda>j. compile_spec (np_d p) (np_q p) (limb_steps digits (collapse_kg_exponents (np_d p)) j)) [0..<np_ell p]) = Inr m"
    and s: "small_secret p s B" and key: "key_for p s (5 mod (2 * np_d p)) (ns_w setup) kg E"
  defines "S \<equiv> iext (centred (np_q p) s)"
  shows "\<exists>y. multiply cpu m (concat kg) = Inr y \<and> canon (np_q p) (np_d p) y
    \<and> (\<forall>k<np_d p. near (np_q p) (chain_error p B E) (mask_secret p masks s k)
         (conv (np_d p) (ext left) S (int k) + conv (np_d p) (ext right) (tau (np_d p) (2 * np_d p - 1) S) (int k) + int (y ! k)))"
proof -
  let ?d = "np_d p" and ?q = "np_q p" and ?slots = "reorder_slots (np_d p) (aggregate_masks masks (np_q p))"
  note SM = setup_masks [OF st]
  note SF = secret_fun [OF good s, folded S_def]
  have rows: "length masks = ?d" "\<And>row. row \<in> set masks \<Longrightarrow> length row = ?d \<and> all_below ?q row" using masks by (simp_all add: lwe_masks_def)
  have sw: "switching p 5 (ns_w setup) S B E kg" unfolding S_def by (rule switching_generator [OF good s SM(2) key])
  obtain y where y: "multiply cpu m (concat kg) = Inr y" "canon ?q ?d y"
    "\<And>r. r < ?d \<Longrightarrow> eqm ?q (int (y ! r)) (\<Sum>t<length digits. step_body p kg (digits ! t) (collapse_kg_exponents ?d ! t) (int r))"
    using stored_multiply [OF good chain store key_for_masks [OF good SM(2) key]] by blast
  have "near ?q (chain_error p B E) (mask_secret p masks s k)
      (conv ?d (ext left) S (int k) + conv ?d (ext right) (tau ?d (2 * ?d - 1) S) (int k) + int (y ! k))" if k: "k < ?d" for k
  proof -
    have one: "near ?q (int ?d * (int ?d * B)) (mask_secret p masks s k)
        (\<Sum>i<?d. conv ?d (ext (?slots ! i)) (tau ?d (slot_exponents ?d ! i) S) (int k))"
      unfolding near_eqm_left [OF SF(4) [OF refl, of masks k]] using slots_ok(3) [OF good rows(1) _ SF(2,3) k] rows(2) by blast
    have two: "near ?q (int (?d - 2) * switch_error p B E)
        (\<Sum>i<?d. conv ?d (ext (?slots ! i)) (tau ?d (slot_exponents ?d ! i) S) (int k))
        (conv ?d (ext left) S (int k) + conv ?d (ext right) (tau ?d (2 * ?d - 1) S) (int k)
          + (\<Sum>t<length digits. step_body p kg (digits ! t) (collapse_kg_exponents ?d ! t) (int k)))"
      using chain sw unfolding chained_def by blast
    show ?thesis
      using near_trans [OF one two] unfolding chain_error_def
      by (subst near_eqm [OF eqm_add [OF eqm_refl y(3) [OF k]]])
  qed
  then show ?thesis using y(1,2) by blast
qed

section \<open>One mask\<close>

definition pack_error :: "native_params \<Rightarrow> int \<Rightarrow> int \<Rightarrow> int" where
  "pack_error p B E = chain_error p B E + switch_error p B E"

lemma key_switch_plain:
  assumes good: "good_native p" and a: "canon (np_q p) (np_d p) a" and ds: "decompose a p = Inr ds" "digits_ok p ds"
    and ws: "masks_ok p ws" and sw: "switching p g ws S B E ks" and g: "odd g"
  shows "near (np_q p) (switch_error p B E) (conv (np_d p) (ext a) (tau (np_d p) g S) k)
    ((\<Sum>j<np_ell p. conv (np_d p) (ext (ds ! j)) (ext (ks ! j)) k)
      + conv (np_d p) (\<lambda>k. \<Sum>j<np_ell p. conv (np_d p) (ext (ws ! j)) (ext (ds ! j)) k) S k)"
proof -
  let ?d = "np_d p" and ?q = "np_q p"
  have d: "0 < ?d" using good_nativeD(1) [OF good] .
  obtain err where err: "\<And>j. j < np_ell p \<Longrightarrow> antiper ?d (err j) \<and> (\<forall>k. \<bar>err j k\<bar> \<le> E)
      \<and> (\<forall>k. eqm ?q (ext (ks ! j) k + conv ?d (ext (ws ! j)) S k) (int (factor p j) * tau ?d g S k + err j k))"
    using sw unfolding switching_def by metis
  have S: "antiper ?d S" "\<And>k. \<bar>S k\<bar> \<le> B" and K: "\<And>j. j < np_ell p \<Longrightarrow> antiper ?d (ext (ks ! j))"
    and W: "\<And>j. j < np_ell p \<Longrightarrow> antiper ?d (ext (ws ! j))"
    using sw ws by (auto simp: switching_def masks_ok_def intro: canon_antiper)
  have one: "tau ?d 1 f = f" if "antiper ?d f" for f using tau_one [OF d that] by (rule HOL.ext)
  have odd1: "odd (1::nat)" by simp
  have step: "near ?q (switch_error p B E) (conv ?d (ext a) (tau ?d (g * 1) S) k)
      ((\<Sum>j<np_ell p. conv ?d (ext (ds ! j)) (tau ?d 1 (ext (ks ! j))) k)
        + conv ?d (\<lambda>k. \<Sum>j<np_ell p. conv ?d (tau ?d 1 (ext (ws ! j))) (ext (ds ! j)) k) (tau ?d 1 S) k)"
    by (rule key_switch [OF good a ds(1) S K W err g odd1])
  have "(\<Sum>j<np_ell p. conv ?d (ext (ds ! j)) (tau ?d 1 (ext (ks ! j))) k) = (\<Sum>j<np_ell p. conv ?d (ext (ds ! j)) (ext (ks ! j)) k)"
    using one [OF K] by (intro sum.cong refl) simp
  moreover have "(\<Sum>j<np_ell p. conv ?d (tau ?d 1 (ext (ws ! j))) (ext (ds ! j)) x) = (\<Sum>j<np_ell p. conv ?d (ext (ws ! j)) (ext (ds ! j)) x)" for x
    using one [OF W] by (intro sum.cong refl) simp
  ultimately show ?thesis using step by (simp only: one [OF S(1)] mult_1_right)
qed

lemma pack_phase:
  assumes laws: "ntt_laws eng (np_d p)" and ctx: "new_lift_context eng (np_d p) (np_q p) = Inr ctx"
    and st: "setup_ok setup" "ns_params setup = p" and masks: "lwe_masks p masks" and pre: "built eng cpu setup ctx masks False pre"
    and s: "small_secret p s B" and id: "nk_id keys = ns_id setup"
    and key: "key_for p s (5 mod (2 * np_d p)) (ns_w setup) (nk_kg keys) E" "key_for p s (2 * np_d p - 1) (ns_v setup) (nk_kh keys) E"
    and b: "length b = np_d p" "all_below (np_q p) b"
  shows "\<exists>out. pack eng cpu pre b keys = Inr \<lparr>nc_params = p, nc_a = pre_a pre, nc_b = out\<rparr>
    \<and> length out = np_d p \<and> all_below (np_q p) out
    \<and> (\<forall>k<np_d p. near (np_q p) (pack_error p B E) (int (b ! k) + mask_secret p masks s k)
         (int (out ! k) + int (schoolbook_negacyclic (pre_a pre) s (np_q p) ! k)))"
proof -
  let ?d = "np_d p" and ?q = "np_q p" and ?S = "iext (centred (np_q p) s)"
  note SM = setup_masks [OF st]
  note SF = secret_fun [OF SM(1) s]
  note G = new_lift_context_good [OF laws ctx]
  obtain left right digits ds op where B: "pre_params pre = p" "pre_id pre = ns_id setup" "pre_lift pre = ctx" "canon ?q ?d (pre_a pre)"
    "chained p (ns_w setup) (reorder_slots ?d (aggregate_masks masks ?q)) left right digits"
    "from_blocks cpu (map (\<lambda>j. compile_spec ?d ?q (limb_steps digits (collapse_kg_exponents ?d) j)) [0..<np_ell p]) = Inr (pre_h pre)"
    "pre_a_other pre = None" "decompose right p = Inr ds" "digits_ok p ds" "pre_leftover pre = Some op" "prepare_public eng ctx ds = Inr op"
    "\<And>k. eqm ?q (ext (pre_a pre) k) (ext left k + (\<Sum>j<np_ell p. conv ?d (ext (ns_v setup ! j)) (ext (ds ! j)) k))"
    using pre unfolding built_def Let_def st(2) by auto
  have right: "canon ?q ?d right" using B(5) by (simp add: chained_def)
  have kh: "masks_ok p (nk_kh keys)" by (rule key_for_masks [OF SM(1,3) key(2)])
  have lens: "length (nk_kg keys) = np_ell p" "length (nk_kh keys) = np_ell p" "length ds = np_ell p"
    using key SM(2) kh B(9) by (simp_all add: key_for_def masks_ok_def digits_ok_def)
  obtain y where y: "multiply cpu (pre_h pre) (concat (nk_kg keys)) = Inr y" "canon ?q ?d y"
    "\<And>k. k < ?d \<Longrightarrow> near ?q (chain_error p B E) (mask_secret p masks s k)
         (conv ?d (ext left) ?S (int k) + conv ?d (ext right) (tau ?d (2 * ?d - 1) ?S) (int k) + int (y ! k))"
    using stored_phase [OF SM(1) st masks B(5,6) s key(1)] by blast
  text \<open>the leftover product\<close>
  let ?l = "ring_dot ?q ?d ds (nk_kh keys)"
  have ne: "ds \<noteq> []" using lens(3) good_nativeD(7) [OF SM(1)] by auto
  have cs: "\<And>i. i < length ds \<Longrightarrow> canon ?q ?d (ds ! i)" "\<And>i. i < length ds \<Longrightarrow> canon ?q ?d (nk_kh keys ! i)"
    using B(9) kh lens by (simp_all add: digits_ok_def masks_ok_def)
  have q62: "?q \<le> 2 ^ 62" using good_nativeD(6) [OF SM(1)] by simp
  note L = ext_ring_dot [OF good_nativeD(1) [OF SM(1)] q62 _ cs ne, unfolded lens]
  have "sum_prepared eng ctx op (nk_kh keys) = Inr (ring_dot (lc_q ctx) (lc_d ctx) ds (nk_kh keys))"
  proof (rule sum_prepared_ok [OF _ G(1) prepare_public_for [OF G(1) B(11)]])
    show "list_all (lift_valid ctx) (nk_kh keys)" using masks_valid [OF kh G(2,3)] by (simp add: list_all_iff)
  qed (use laws G(2) lens in simp_all)
  then have l: "sum_prepared eng ctx op (nk_kh keys) = Inr ?l" using G(2,3) by simp
  let ?out = "map (\<lambda>i. u64 (u64 (y ! i + ?l ! i) + b ! i) AND (?q - 1)) [0..<?d]"
  have el: "u64 x AND (?q - 1) < ?q" "eqm ?q (int (u64 x AND (?q - 1))) (int x)" for x using mask_sum [OF SM(1)] by blast+
  obtain qb where qb: "?q = 2 ^ qb" "qb \<le> 64" using native_modulus [OF SM(1)] by auto
  have out: "length ?out = ?d" "all_below ?q ?out" using el(1) by (auto simp: all_below_set simp del: One_nat_def)
  have "pack eng cpu pre b keys = Inr \<lparr>nc_params = p, nc_a = pre_a pre, nc_b = ?out\<rparr>"
    using B b id lens y(1) l canonD(4,5) [OF B(4)] out
    by (simp add: pack_def Let_def validate_poly_iff ciphertext_from_rows_def del: One_nat_def)
  moreover have "near ?q (pack_error p B E) (int (b ! k) + mask_secret p masks s k)
      (int (?out ! k) + int (schoolbook_negacyclic (pre_a pre) s ?q ! k))" if k: "k < ?d" for k
  proof -
    let ?R = "conv ?d (ext right) (tau ?d (2 * ?d - 1) ?S) (int k)"
    let ?K = "\<Sum>j<np_ell p. conv ?d (ext (ds ! j)) (ext (nk_kh keys ! j)) (int k)"
    let ?U = "conv ?d (\<lambda>k. \<Sum>j<np_ell p. conv ?d (ext (ns_v setup ! j)) (ext (ds ! j)) k) ?S (int k)"
    have "switching p (2 * ?d - 1) (ns_v setup) ?S B E (nk_kh keys)"
      using s good_nativeD(1) [OF SM(1)] by (intro key_switching [OF SM(1) _ _ _ SM(3) key(2)] small_exponent [OF SM(1)]) (simp_all add: small_secret_def)
    then have sw: "near ?q (switch_error p B E) ?R (?K + ?U)"
      using good_nativeD(1) [OF SM(1)] by (intro key_switch_plain [OF SM(1) right B(8,9) SM(3)]) simp_all
    have near1: "near ?q (pack_error p B E) (mask_secret p masks s k) (conv ?d (ext left) ?S (int k) + int (y ! k) + (?K + ?U))"
    proof -
      have "near ?q (0 + switch_error p B E) (conv ?d (ext left) ?S (int k) + int (y ! k) + ?R) (conv ?d (ext left) ?S (int k) + int (y ! k) + (?K + ?U))"
        by (intro near_add near_refl sw) simp
      moreover have "near ?q (chain_error p B E) (mask_secret p masks s k) (conv ?d (ext left) ?S (int k) + int (y ! k) + ?R)"
        using y(3) [OF k] by (simp only: ac_simps)
      ultimately show ?thesis unfolding pack_error_def add_0 by (rule near_trans [rotated])
    qed
    have lk: "eqm ?q (int (?l ! k)) ?K"
      using L(2) [of "int k"] canonD(4) [OF L(1)] k lens by (simp add: ext_nth)
    have ak: "eqm ?q (int (schoolbook_negacyclic (pre_a pre) s ?q ! k)) (conv ?d (ext left) ?S (int k) + ?U)"
    proof -
      have "eqm ?q (conv ?d (ext (pre_a pre)) ?S (int k)) (conv ?d (\<lambda>x. ext left x + (\<Sum>j<np_ell p. conv ?d (ext (ns_v setup ! j)) (ext (ds ! j)) x)) ?S (int k))"
        using B(12) by (intro conv_cong eqm_refl)
      then show ?thesis using eqm_trans [OF SF(5) [OF B(4) k]] by (simp only: conv_add_left)
    qed
    have "eqm ?q (int (u64 (u64 (y ! k + ?l ! k) + b ! k) AND (?q - 1))) (int (u64 (y ! k + ?l ! k)) + int (b ! k))"
      using el(2) [of "u64 (y ! k + ?l ! k) + b ! k"] by (simp del: One_nat_def)
    also have "eqm ?q (int (u64 (y ! k + ?l ! k)) + int (b ! k)) (int (y ! k) + ?K + int (b ! k))"
    proof (rule eqm_add [OF _ eqm_refl])
      have "eqm ?q (int (u64 (y ! k + ?l ! k))) (int (y ! k) + int (?l ! k))"
        using eqm_u64 [OF qb(2), of "y ! k + ?l ! k"] by (simp add: qb(1))
      then show "eqm ?q (int (u64 (y ! k + ?l ! k))) (int (y ! k) + ?K)" using eqm_add [OF eqm_refl lk] by (rule eqm_trans)
    qed
    finally have ok: "eqm ?q (int (?out ! k)) (int (y ! k) + ?K + int (b ! k))" using k by (simp del: One_nat_def)
    have "near ?q (0 + pack_error p B E) (int (b ! k) + mask_secret p masks s k) (int (b ! k) + (conv ?d (ext left) ?S (int k) + int (y ! k) + (?K + ?U)))"
      by (intro near_add near_refl near1) simp
    moreover have "eqm ?q (int (?out ! k) + int (schoolbook_negacyclic (pre_a pre) s ?q ! k))
        (int (b ! k) + (conv ?d (ext left) ?S (int k) + int (y ! k) + (?K + ?U)))"
      using eqm_add [OF ok ak] by (simp only: ac_simps)
    ultimately show ?thesis by (simp add: near_eqm)
  qed
  ultimately show ?thesis using out by blast
qed

section \<open>Two masks\<close>

lemma two_mask_phase:
  assumes st: "setup_ok setup" "ns_params setup = p" and masks: "lwe_masks p masks" and pre: "built eng cpu setup ctx masks True pre"
    and s: "small_secret p s B" and id: "nk_id keys = ns_id setup" "nk_kh keys = []"
    and key: "key_for p s (5 mod (2 * np_d p)) (ns_w setup) (nk_kg keys) E"
    and b: "length b = np_d p" "all_below (np_q p) b"
  shows "\<exists>out other. pre_a_other pre = Some other \<and> length other = np_d p \<and> all_below (np_q p) other
    \<and> pack_two_mask cpu pre b keys = Inr \<lparr>nt_params = p, nt_a = pre_a pre, nt_a_other = other, nt_b = out\<rparr>
    \<and> length out = np_d p \<and> all_below (np_q p) out
    \<and> (\<forall>k<np_d p. near (np_q p) (chain_error p B E) (int (b ! k) + mask_secret p masks s k)
         (int (out ! k) + int (schoolbook_negacyclic (pre_a pre) s (np_q p) ! k)
            + int (schoolbook_negacyclic other (tau_coeffs s (2 * np_d p - 1) (np_q p)) (np_q p) ! k)))"
proof -
  let ?d = "np_d p" and ?q = "np_q p" and ?S = "iext (centred (np_q p) s)" and ?h = "2 * np_d p - 1"
  note SM = setup_masks [OF st]
  note SF = secret_fun [OF SM(1) s]
  obtain right digits where B: "pre_params pre = p" "pre_id pre = ns_id setup" "canon ?q ?d (pre_a pre)"
    "chained p (ns_w setup) (reorder_slots ?d (aggregate_masks masks ?q)) (pre_a pre) right digits"
    "from_blocks cpu (map (\<lambda>j. compile_spec ?d ?q (limb_steps digits (collapse_kg_exponents ?d) j)) [0..<np_ell p]) = Inr (pre_h pre)"
    "pre_a_other pre = Some right"
    using pre unfolding built_def Let_def st(2) by auto
  have right: "canon ?q ?d right" using B(4) by (simp add: chained_def)
  have lens: "length (nk_kg keys) = np_ell p" using key SM(2) by (simp add: key_for_def masks_ok_def)
  obtain y where y: "multiply cpu (pre_h pre) (concat (nk_kg keys)) = Inr y" "canon ?q ?d y"
    "\<And>k. k < ?d \<Longrightarrow> near ?q (chain_error p B E) (mask_secret p masks s k)
         (conv ?d (ext (pre_a pre)) ?S (int k) + conv ?d (ext right) (tau ?d ?h ?S) (int k) + int (y ! k))"
    using stored_phase [OF SM(1) st masks B(4,5) s key] by blast
  have bc: "canon ?q ?d b" using b by (rule native_canon [OF SM(1)])
  let ?out = "map2 (\<lambda>dst x. u64 (dst + x) AND (?q - 1)) y b"
  note M = ext_masked_sum [OF SM(1) y(2) bc]
  have run: "pack_two_mask cpu pre b keys = Inr \<lparr>nt_params = p, nt_a = pre_a pre, nt_a_other = right, nt_b = ?out\<rparr>"
    using B b id lens y(1) canonD(4,5) [OF B(3)] canonD(4,5) [OF right] canonD(4,5) [OF M(1)]
    by (simp add: pack_two_mask_def Let_def validate_poly_iff two_mask_from_rows_def kg_words_def del: One_nat_def)
  have h: "?d * ?h < 2 ^ 64" using good_nativeD(1) [OF SM(1)] by (intro small_exponent [OF SM(1)]) simp
  note T = ext_tau_coeffs [OF SF(1) h]
  have "near ?q (chain_error p B E) (int (b ! k) + mask_secret p masks s k)
      (int (?out ! k) + int (schoolbook_negacyclic (pre_a pre) s ?q ! k) + int (schoolbook_negacyclic right (tau_coeffs s ?h ?q) ?q ! k))"
    if k: "k < ?d" for k
  proof -
    have rk: "eqm ?q (int (schoolbook_negacyclic right (tau_coeffs s ?h ?q) ?q ! k)) (conv ?d (ext right) (tau ?d ?h ?S) (int k))"
    proof -
      have len: "length (schoolbook_negacyclic right (tau_coeffs s ?h ?q) ?q) = ?d" using canonD(4) [OF schoolbook_negacyclic_nth(1) [OF right T(1)]] .
      have "eqm ?q (ext (schoolbook_negacyclic right (tau_coeffs s ?h ?q) ?q) (int k)) (conv ?d (ext right) (ext (tau_coeffs s ?h ?q)) (int k))"
        by (rule ext_schoolbook [OF right T(1)])
      also have "eqm ?q \<dots> (conv ?d (ext right) (tau ?d ?h ?S) (int k))"
        by (rule conv_cong [OF eqm_refl eqm_trans [OF T(2) tau_cong [OF ext_centred [OF SF(1)]]]])
      finally show ?thesis using k len by (simp add: ext_nth)
    qed
    have ok: "eqm ?q (int (?out ! k)) (int (y ! k) + int (b ! k))"
      using M(2) [of "int k"] k canonD(4) [OF M(1)] canonD(4) [OF y(2)] b(1) by (simp add: ext_nth del: One_nat_def)
    have "near ?q (0 + chain_error p B E) (int (b ! k) + mask_secret p masks s k)
        (int (b ! k) + (conv ?d (ext (pre_a pre)) ?S (int k) + conv ?d (ext right) (tau ?d ?h ?S) (int k) + int (y ! k)))"
      by (intro near_add near_refl y(3) k) simp
    moreover have "eqm ?q (int (?out ! k) + int (schoolbook_negacyclic (pre_a pre) s ?q ! k) + int (schoolbook_negacyclic right (tau_coeffs s ?h ?q) ?q ! k))
        (int (b ! k) + (conv ?d (ext (pre_a pre)) ?S (int k) + conv ?d (ext right) (tau ?d ?h ?S) (int k) + int (y ! k)))"
      using eqm_add [OF eqm_add [OF ok SF(5) [OF B(3) k]] rk] by (simp only: ac_simps)
    ultimately show ?thesis by (simp add: near_eqm)
  qed
  then show ?thesis using run B(6) canonD(4,5) [OF right] canonD(4,5) [OF M(1)] by blast
qed

lemma decrypt_two_mask_ok:
  assumes laws: "ntt_laws eng (np_d p)" and ctx: "new_lift_context eng (np_d p) (np_q p) = Inr ctx"
    and good: "good_native p" and s: "sec_params s = p" "length (sec_coeffs s) = np_d p" "all_below (np_q p) (sec_coeffs s)"
    and ct: "nt_params ct = p" "length (nt_a ct) = np_d p" "all_below (np_q p) (nt_a ct)" "length (nt_a_other ct) = np_d p"
      "all_below (np_q p) (nt_a_other ct)" "length (nt_b ct) = np_d p"
    and m: "length m = np_d p" "all_below (np_p p) m"
    and near: "\<And>i. i < np_d p \<Longrightarrow> near (np_q p) r (int (np_q p div np_p p) * int (m ! i))
      (int (nt_b ct ! i) + int (schoolbook_negacyclic (nt_a ct) (sec_coeffs s) (np_q p) ! i)
        + int (schoolbook_negacyclic (nt_a_other ct) (tau_coeffs (sec_coeffs s) (2 * np_d p - 1) (np_q p)) (np_q p) ! i))"
    and r: "2 * r < int (np_q p div np_p p)"
  shows "decrypt_two_mask eng s ct = Inr m"
proof -
  let ?d = "np_d p" and ?q = "np_q p" and ?h = "2 * np_d p - 1"
  let ?one = "schoolbook_negacyclic (nt_a ct) (sec_coeffs s) ?q"
  let ?ts = "tau_coeffs (sec_coeffs s) ?h ?q"
  let ?two = "schoolbook_negacyclic (nt_a_other ct) ?ts ?q"
  have sc: "canon ?q ?d (sec_coeffs s)" using s by (intro native_canon [OF good])
  have h: "?d * ?h < 2 ^ 64" using good_nativeD(1) [OF good] by (intro small_exponent [OF good]) simp
  have ts: "canon ?q ?d ?ts" by (rule ext_tau_coeffs(1) [OF sc h])
  let ?ph = "map (\<lambda>i. u64 (u64 (nt_b ct ! i + ?one ! i) + ?two ! i) AND (?q - 1)) [0..<?d]"
  have "phase_two_mask eng s ct = Inr ?ph"
    using native_context [OF laws ctx ct(2,3) s(2,3)] native_context [OF laws ctx ct(4,5) canonD(4,5) [OF ts]] ctx s(1) ct(1)
    by (simp add: phase_two_mask_def Let_def del: One_nat_def)
  moreover have "map (decode_word p) ?ph = m"
  proof (rule nth_equalityI)
    fix i assume "i < length (map (decode_word p) ?ph)"
    then have i: "i < ?d" by simp
    obtain qb where qb: "?q = 2 ^ qb" "qb \<le> 64" using native_modulus [OF good] by auto
    have el: "?ph ! i < ?q" "eqm ?q (int (?ph ! i)) (int (nt_b ct ! i) + int (?one ! i) + int (?two ! i))"
    proof -
      have m1: "eqm ?q (int (u64 x AND (?q - 1))) (int x)" "u64 x AND (?q - 1) < ?q" for x using mask_sum [OF good] by blast+
      show "?ph ! i < ?q" using m1(2) i by (simp del: One_nat_def)
      have "eqm ?q (int (u64 (u64 (nt_b ct ! i + ?one ! i) + ?two ! i) AND (?q - 1))) (int (u64 (nt_b ct ! i + ?one ! i)) + int (?two ! i))"
        using m1(1) [of "u64 (nt_b ct ! i + ?one ! i) + ?two ! i"] by (simp del: One_nat_def)
      also have "eqm ?q \<dots> (int (nt_b ct ! i) + int (?one ! i) + int (?two ! i))"
        using eqm_u64 [OF qb(2), of "nt_b ct ! i + ?one ! i"] by (intro eqm_add eqm_refl) (simp add: qb(1))
      finally show "eqm ?q (int (?ph ! i)) (int (nt_b ct ! i) + int (?one ! i) + int (?two ! i))" using i by (simp del: One_nat_def)
    qed
    have "near ?q r (int (?q div np_p p) * int (m ! i)) (int (?ph ! i))" unfolding near_eqm [OF el(2)] by (rule near [OF i])
    then have "decode_word p (?ph ! i) = m ! i" using m i by (intro decode_near [OF good _ el(1) _ r] all_below_nth) simp_all
    then show "map (decode_word p) ?ph ! i = m ! i" using i by simp
  qed (simp add: m)
  ultimately show ?thesis using s(1) by (simp add: decrypt_two_mask_def)
qed

section \<open>Packing in stages\<close>

lemma limb_counts:
  assumes good: "good_ctx ctx" and op: "prepare_public eng ctx as = Inr op"
    and bound: "\<And>a. a \<in> set as \<Longrightarrow> max_abs ctx a \<le> B" and small: "2 * lc_d ctx * B * (lc_q ctx div 2) < PRIMES ! 0 * PRIMES ! 1"
    and i: "i < length as"
  shows "length (plo_transforms op ! i) \<le> 2"
proof -
  let ?T = "\<lambda>a. map (\<lambda>m. lift_transform eng ctx m a) (take (if PRIMES ! 0 * PRIMES ! 1 > 2 * lc_d ctx * max_abs ctx a * (lc_q ctx div 2) then 2 else 3) (lc_params ctx))"
  obtain ts where ts: "collectR (\<lambda>poly. mapR (\<lambda>_. ?T poly) (validate_lift ctx poly)) as = Inr ts" "plo_transforms op = ts"
    using op by (auto simp: prepare_public_def guardR_def mapR_def Let_def split: if_splits sum.splits)
  have "plo_transforms op ! i = ?T (as ! i)" using collectR_max_abs [OF ts(1)] ts(2) i by simp
  moreover have "2 * lc_d ctx * max_abs ctx (as ! i) * (lc_q ctx div 2) < PRIMES ! 0 * PRIMES ! 1"
    using bound [of "as ! i"] i small by (intro le_less_trans [OF _ small] mult_le_mono) simp_all
  ultimately show ?thesis by simp
qed

lemma limb_three:
  assumes "good_ctx ctx" and "prepare_public eng ctx as = Inr op" and "i < length as"
  shows "length (plo_transforms op ! i) \<le> 3"
  using prepare_public_for [OF assms(1,2)] assms(3) good_ctxD(4) [OF assms(1)]
  by (auto simp: operand_for_def limb_for_def dest!: list_all2_nthD)

lemma max_abs_bound_le: "lift_valid ctx x \<Longrightarrow> 0 < lc_d ctx \<Longrightarrow> (\<And>i. i < lc_d ctx \<Longrightarrow> \<bar>centered (x ! i) (lc_q ctx)\<bar> \<le> int B) \<Longrightarrow> max_abs ctx x \<le> B"
  unfolding max_abs_def
  by (subst Max_le_iff) (auto simp: lift_valid_def in_set_conv_nth nat_le_iff)

lemma staged_ok:
  assumes laws: "ntt_laws eng (np_d p)" and ctx: "new_lift_context eng (np_d p) (np_q p) = Inr ctx"
    and st: "setup_ok setup" "ns_params setup = p" and pre: "built eng cpu setup ctx masks False pre"
    and keys: "masks_ok p (nk_kg keys)" "masks_ok p (nk_kh keys)" "nk_id keys = ns_id setup"
    and b: "length b = np_d p" "all_below (np_q p) b"
  shows "\<exists>pk pd. prepare_keys eng pre keys = Inr pk \<and> prepare_pack eng cpu pre pk = Inr pd \<and> finish pd b = pack eng cpu pre b keys"
proof -
  let ?d = "np_d p" and ?q = "np_q p"
  note SM = setup_masks [OF st]
  note G = new_lift_context_good [OF laws ctx]
  obtain left right digits ds op where B: "pre_params pre = p" "pre_id pre = ns_id setup" "pre_lift pre = ctx" "canon ?q ?d (pre_a pre)"
    "pre_a_other pre = None" "digits_ok p ds" "pre_leftover pre = Some op" "prepare_public eng ctx ds = Inr op"
    "chained p (ns_w setup) (reorder_slots ?d (aggregate_masks masks ?q)) left right digits"
    "from_blocks cpu (map (\<lambda>j. compile_spec ?d ?q (limb_steps digits (collapse_kg_exponents ?d) j)) [0..<np_ell p]) = Inr (pre_h pre)"
    using pre unfolding built_def Let_def st(2) by auto
  have lens: "length (nk_kg keys) = np_ell p" "length (nk_kh keys) = np_ell p" "length ds = np_ell p"
    using keys B(6) by (simp_all add: masks_ok_def digits_ok_def)
  have ne: "nk_kh keys \<noteq> []" using lens(2) good_nativeD(7) [OF SM(1)] by auto
  have kv: "\<And>x. x \<in> set (nk_kh keys) \<Longrightarrow> lift_valid ctx x" using masks_valid [OF keys(2) G(2,3)] .
  have db: "digit_bound p \<le> lc_q ctx div 2" using G(3) by (simp add: digit_bound_def)
  obtain r n where r: "prepare_bounded_right eng ctx (nk_kh keys) (digit_bound p) = Inr r" "prepare_right_primes eng ctx (nk_kh keys) n = Inr r"
    "n = (if 2 * lc_d ctx * digit_bound p * (lc_q ctx div 2) < PRIMES ! 0 * PRIMES ! 1 then 2 else 3)"
    using prepare_bounded_right_total [OF ne kv db] by blast
  have lv: "lift_valid ctx x" if "x \<in> set ds" for x
    using B(6) that G(2,3) by (auto simp: digits_ok_def lift_valid_def canon_def in_set_conv_nth)
  have bd: "max_abs ctx x \<le> digit_bound p" if x: "x \<in> set ds" for x
    using lv [OF x] good_nativeD(1) [OF SM(1)] G(2,3) B(6) x by (intro max_abs_bound_le) (auto simp: digits_ok_def in_set_conv_nth)
  have n: "length (plo_transforms op ! i) \<le> n" if "i < length ds" for i
    using limb_counts [OF G(1) B(8) bd _ that] limb_three [OF G(1) B(8) that] r(3) by auto
  have "sum_cached eng ctx op r = Inr (ring_dot (lc_q ctx) (lc_d ctx) ds (nk_kh keys))"
    using laws G(2) lens r(3) n
    by (intro sum_cached_ok [OF _ G(1) prepare_public_for [OF G(1) B(8)] prepare_right_primes_for [OF G(1) r(2)]]) (auto split: if_splits)
  moreover have "sum_prepared eng ctx op (nk_kh keys) = Inr (ring_dot (lc_q ctx) (lc_d ctx) ds (nk_kh keys))"
    using laws G(2) lens kv by (intro sum_prepared_ok [OF _ G(1) prepare_public_for [OF G(1) B(8)]]) (simp_all add: list_all_iff)
  moreover define l where "l = ring_dot (lc_q ctx) (lc_d ctx) ds (nk_kh keys)"
  ultimately have l: "sum_cached eng ctx op r = Inr l" "sum_prepared eng ctx op (nk_kh keys) = Inr l" "length l = ?d"
    using G(2) by (simp_all add: ring_dot_def)
  obtain y where y: "multiply cpu (pre_h pre) (concat (nk_kg keys)) = Inr y" "canon ?q ?d y"
    using stored_multiply [OF SM(1) B(9,10) keys(1)] by blast
  let ?mask = "\<lambda>x. u64 x AND (?q - 1)"
  let ?body = "map2 (\<lambda>dst x. ?mask (dst + x)) y l"
  have el: "?mask x < ?q" "eqm ?q (int (?mask x)) (int x)" for x using mask_sum [OF SM(1)] by blast+
  obtain qb where qb: "?q = 2 ^ qb" "qb \<le> 64" using native_modulus [OF SM(1)] by auto
  have same: "map2 (\<lambda>dst x. ?mask (dst + x)) ?body b = map (\<lambda>i. ?mask (u64 (y ! i + l ! i) + b ! i)) [0..<?d]"
  proof (rule nth_equalityI)
    fix i assume "i < length (map2 (\<lambda>dst x. ?mask (dst + x)) ?body b)"
    then have i: "i < ?d" using l(3) b(1) canonD(4) [OF y(2)] by simp
    have "eqm ?q (int (?mask (?mask (y ! i + l ! i) + b ! i))) (int (?mask (y ! i + l ! i)) + int (b ! i))"
      using el(2) [of "?mask (y ! i + l ! i) + b ! i"] by (simp del: One_nat_def)
    also have "eqm ?q \<dots> (int (y ! i + l ! i) + int (b ! i))" by (intro eqm_add el(2) eqm_refl)
    finally have one: "eqm ?q (int (?mask (?mask (y ! i + l ! i) + b ! i))) (int (y ! i + l ! i) + int (b ! i))" .
    have "eqm ?q (int (?mask (u64 (y ! i + l ! i) + b ! i))) (int (u64 (y ! i + l ! i)) + int (b ! i))"
      using el(2) [of "u64 (y ! i + l ! i) + b ! i"] by (simp del: One_nat_def)
    also have "eqm ?q \<dots> (int (y ! i + l ! i) + int (b ! i))"
      using eqm_u64 [OF qb(2), of "y ! i + l ! i"] by (intro eqm_add eqm_refl) (simp only: qb(1))
    finally have "?mask (?mask (y ! i + l ! i) + b ! i) = ?mask (u64 (y ! i + l ! i) + b ! i)"
      using one el(1) by (intro eqm_nat_eq [OF eqm_trans [OF one eqm_sym]])
    then show "map2 (\<lambda>dst x. ?mask (dst + x)) ?body b ! i = map (\<lambda>i. ?mask (u64 (y ! i + l ! i) + b ! i)) [0..<?d] ! i"
      using i l(3) b(1) canonD(4) [OF y(2)] by (simp del: One_nat_def)
  qed (use l(3) b(1) canonD(4) [OF y(2)] in simp)
  have "pack eng cpu pre b keys = ciphertext_from_rows p (pre_a pre) (map (\<lambda>i. ?mask (u64 (y ! i + l ! i) + b ! i)) [0..<?d])"
    using B b keys(3) lens y(1) l(2) by (simp add: pack_def Let_def validate_poly_iff del: One_nat_def)
  moreover let ?pk = "\<lparr>pk_id = nk_id keys, pk_y = concat (nk_kg keys), pk_kh = Some r\<rparr>"
  have "prepare_keys eng pre keys = Inr ?pk"
    using B keys(3) lens r(1) [unfolded digit_bound_def] by (simp add: prepare_keys_def Let_def)
  moreover let ?pd = "\<lparr>pp_pre = pre, pp_body = ?body\<rparr>"
  have "prepare_pack eng cpu pre ?pk = Inr ?pd"
    using B keys(3) y(1) l(1) by (simp add: prepare_pack_def del: One_nat_def)
  moreover have "finish ?pd b = ciphertext_from_rows p (pre_a pre) (map2 (\<lambda>dst x. ?mask (dst + x)) ?body b)"
    using B b by (simp add: finish_def Let_def validate_poly_iff del: One_nat_def)
  ultimately show ?thesis unfolding same by (intro exI [of _ ?pk] exI [of _ ?pd]) simp
qed

section \<open>Properties\<close>

text \<open>C2. Packing is correct: for canonical mask rows the offline build succeeds, and for keys of the secret and
  any canonical LWE bodies whose phases are scaled messages up to \<open>e\<close>, packing succeeds and the one
  packed ciphertext decrypts to all the messages, as long as the LWE error, the division error and
  the errors of the key switches together stay below half a plaintext step.\<close>

theorem pack_decrypts:
  assumes "ntt_laws eng (np_d p)" and "new_lift_context eng (np_d p) (np_q p) = Inr ctx" and "inverses_exist eng (np_d p)"
    and "setup_ok setup" "ns_params setup = p" and "lwe_masks p masks" and "sec_params s = p" and "small_secret p (sec_coeffs s) B"
    and "nk_id keys = ns_id setup" and "key_for p (sec_coeffs s) (5 mod (2 * np_d p)) (ns_w setup) (nk_kg keys) E"
    and "key_for p (sec_coeffs s) (2 * np_d p - 1) (ns_v setup) (nk_kh keys) E"
    and "length b = np_d p" "all_below (np_q p) b" and "length m = np_d p" "all_below (np_p p) m"
    and "\<And>k. k < np_d p \<Longrightarrow> near (np_q p) e (int (np_q p div np_p p) * int (m ! k)) (int (b ! k) + mask_secret p masks (sec_coeffs s) k)"
    and "2 * (e + pack_error p B E) < int (np_q p div np_p p)"
  shows "\<exists>pre ct. build eng cpu setup masks = Inr pre \<and> pack eng cpu pre b keys = Inr ct \<and> decrypt eng s ct = Inr m"
proof -
  note SM = setup_masks [OF assms(4,5)]
  have rows: "length masks = np_d p" "\<And>row. row \<in> set masks \<Longrightarrow> length row = np_d p \<and> all_below (np_q p) row"
    using assms(6) by (simp_all add: lwe_masks_def)
  obtain pre where pre: "build eng cpu setup masks = Inr pre" "built eng cpu setup ctx masks False pre"
    using build_internal_ok [OF assms(1-5) rows] unfolding build_def by blast
  obtain out where out: "pack eng cpu pre b keys = Inr \<lparr>nc_params = p, nc_a = pre_a pre, nc_b = out\<rparr>" "length out = np_d p"
    "\<And>k. k < np_d p \<Longrightarrow> near (np_q p) (pack_error p B E) (int (b ! k) + mask_secret p masks (sec_coeffs s) k)
         (int (out ! k) + int (schoolbook_negacyclic (pre_a pre) (sec_coeffs s) (np_q p) ! k))"
    using pack_phase [OF assms(1,2,4,5,6) pre(2) assms(8-13)] by blast
  have a: "length (pre_a pre) = np_d p" "all_below (np_q p) (pre_a pre)"
    using pre(2) unfolding built_def Let_def assms(5) by (auto dest: canonD)
  have s: "length (sec_coeffs s) = np_d p" "all_below (np_q p) (sec_coeffs s)" using assms(8) by (simp_all add: small_secret_def)
  have "decrypt eng s \<lparr>nc_params = p, nc_a = pre_a pre, nc_b = out\<rparr> = Inr m"
    using near_trans [OF assms(16) out(3)] a out(2) assms(17)
    by (intro decrypt_ok [OF assms(1,2) SM(1) assms(7) s _ _ _ _ assms(14,15) _ assms(17)]) simp_all
  then show ?thesis using pre(1) out(1) by blast
qed

text \<open>C3. The two-mask mode is correct with the single uploaded key: the body decrypts under the two published
  masks, one for the secret and one for its conjugate, and the error of the last key switch is saved.\<close>

theorem pack_two_mask_decrypts:
  assumes "ntt_laws eng (np_d p)" and "new_lift_context eng (np_d p) (np_q p) = Inr ctx" and "inverses_exist eng (np_d p)"
    and "setup_ok setup" "ns_params setup = p" and "lwe_masks p masks" and "sec_params s = p" and "small_secret p (sec_coeffs s) B"
    and "nk_id keys = ns_id setup" "nk_kh keys = []" and "key_for p (sec_coeffs s) (5 mod (2 * np_d p)) (ns_w setup) (nk_kg keys) E"
    and "length b = np_d p" "all_below (np_q p) b" and "length m = np_d p" "all_below (np_p p) m"
    and "\<And>k. k < np_d p \<Longrightarrow> near (np_q p) e (int (np_q p div np_p p) * int (m ! k)) (int (b ! k) + mask_secret p masks (sec_coeffs s) k)"
    and "2 * (e + chain_error p B E) < int (np_q p div np_p p)"
  shows "\<exists>pre ct. build_two_mask eng cpu setup masks = Inr pre \<and> pack_two_mask cpu pre b keys = Inr ct \<and> decrypt_two_mask eng s ct = Inr m"
proof -
  note SM = setup_masks [OF assms(4,5)]
  have rows: "length masks = np_d p" "\<And>row. row \<in> set masks \<Longrightarrow> length row = np_d p \<and> all_below (np_q p) row"
    using assms(6) by (simp_all add: lwe_masks_def)
  obtain pre where pre: "build_two_mask eng cpu setup masks = Inr pre" "built eng cpu setup ctx masks True pre"
    using build_internal_ok [OF assms(1-5) rows] unfolding build_two_mask_def by blast
  obtain out other where out: "pack_two_mask cpu pre b keys = Inr \<lparr>nt_params = p, nt_a = pre_a pre, nt_a_other = other, nt_b = out\<rparr>"
    "length other = np_d p" "all_below (np_q p) other" "length out = np_d p"
    "\<And>k. k < np_d p \<Longrightarrow> near (np_q p) (chain_error p B E) (int (b ! k) + mask_secret p masks (sec_coeffs s) k)
         (int (out ! k) + int (schoolbook_negacyclic (pre_a pre) (sec_coeffs s) (np_q p) ! k)
            + int (schoolbook_negacyclic other (tau_coeffs (sec_coeffs s) (2 * np_d p - 1) (np_q p)) (np_q p) ! k))"
    using two_mask_phase [OF assms(4,5,6) pre(2) assms(8-13)] by blast
  have a: "length (pre_a pre) = np_d p" "all_below (np_q p) (pre_a pre)"
    using pre(2) unfolding built_def Let_def assms(5) by (auto dest: canonD)
  have s: "length (sec_coeffs s) = np_d p" "all_below (np_q p) (sec_coeffs s)" using assms(8) by (simp_all add: small_secret_def)
  have "decrypt_two_mask eng s \<lparr>nt_params = p, nt_a = pre_a pre, nt_a_other = other, nt_b = out\<rparr> = Inr m"
    using near_trans [OF assms(16) out(5)] a out(2-4) assms(17)
    by (intro decrypt_two_mask_ok [OF assms(1,2) SM(1) assms(7) s _ _ _ _ _ _ assms(14,15) _ assms(17)]) (simp_all add: add.assoc)
  then show ?thesis using pre(1) out(1) by blast
qed

text \<open>C37. The staged packing of a server (keys prepared once, matrix product before the scan, body added last)
  returns exactly what the one-call packing returns, for canonical keys of any setup and shape,
  refusals included.\<close>

theorem staged_pack_agrees:
  assumes "ntt_laws eng (np_d p)" and "new_lift_context eng (np_d p) (np_q p) = Inr ctx" and "inverses_exist eng (np_d p)"
    and "setup_ok setup" "ns_params setup = p" and "lwe_masks p masks" and "build eng cpu setup masks = Inr pre"
    and "list_all (\<lambda>a. length a = np_d p \<and> all_below (np_q p) a) (nk_kg keys @ nk_kh keys)"
    and "length b = np_d p" "all_below (np_q p) b"
  shows "bindR (prepare_keys eng pre keys) (\<lambda>pk. bindR (prepare_pack eng cpu pre pk) (\<lambda>pd. finish pd b)) = pack eng cpu pre b keys"
proof -
  note SM = setup_masks [OF assms(4,5)]
  have rows: "length masks = np_d p" "\<And>row. row \<in> set masks \<Longrightarrow> length row = np_d p \<and> all_below (np_q p) row"
    using assms(6) by (simp_all add: lwe_masks_def)
  have pre: "built eng cpu setup ctx masks False pre"
    using build_internal_ok [OF assms(1-5) rows, of cpu False] assms(7) unfolding build_def by auto
  have B: "pre_params pre = p" "pre_id pre = ns_id setup" "pre_a_other pre = None"
    using pre unfolding built_def Let_def assms(5) by auto
  show ?thesis
  proof (cases "nk_id keys = ns_id setup \<and> length (nk_kg keys) = np_ell p \<and> length (nk_kh keys) = np_ell p")
    case True
    have "masks_ok p (nk_kg keys)" "masks_ok p (nk_kh keys)"
      using assms(8) True by (auto simp: masks_ok_def list_all_iff intro!: native_canon [OF SM(1)])
    then obtain pk pd where "prepare_keys eng pre keys = Inr pk" "prepare_pack eng cpu pre pk = Inr pd" "finish pd b = pack eng cpu pre b keys"
      using staged_ok [OF assms(1,2,4,5) pre _ _ _ assms(9,10)] True by blast
    then show ?thesis by simp
  next
    case False
    then show ?thesis using B assms(9,10) by (auto simp: prepare_keys_def pack_def Let_def validate_poly_iff)
  qed
qed

section \<open>The hypotheses can hold\<close>

text \<open>The engine in coefficient form, extended by the inverses modulo eight; a profile with one-bit
  plaintexts; masks, keys and LWE bodies of the model itself.\<close>

definition demo_engine :: ntt_engine where
  "demo_engine = coefficient_engine\<lparr>invert_uint_mod :=
     \<lambda>x m. if m = 8 \<and> odd x \<and> x < 8 then Some x else invert_uint_mod coefficient_engine x m\<rparr>"

definition bit_params :: native_params where
  "bit_params = demo_params\<lparr>np_p := 2\<rparr>"

definition bit_secret :: native_secret where
  "bit_secret = \<lparr>sec_params = bit_params, sec_coeffs = [1, 0, 1048575, 1]\<rparr>"

definition bit_setup :: native_setup where
  "bit_setup = new_setup demo_env bit_params [7]"

definition demo_masks :: "nat list list" where
  "demo_masks = [[5, 6, 7, 8], [1000000, 2, 3, 77], [9, 500000, 3, 2], [0, 1, 2, 1048575]]"

lemma square_mod_8: "odd x \<Longrightarrow> x < 8 \<Longrightarrow> x * x mod 8 = 1" for x :: nat
proof -
  assume "odd x" "x < 8"
  then obtain i where "x = 2 * i + 1" "i < 4" by (auto elim!: oddE)
  then have "x = 2 * i + 1" "i = 0 \<or> i = 1 \<or> i = 2 \<or> i = 3" by simp_all arith
  then show ?thesis by auto
qed

lemma below_four: "(\<forall>i<4. P i) \<longleftrightarrow> P 0 \<and> P 1 \<and> P 2 \<and> P (3 :: nat)"
proof -
  have "i < 4 \<longleftrightarrow> i = 0 \<or> i = 1 \<or> i = 2 \<or> i = 3" for i :: nat by arith
  then show ?thesis by auto
qed

lemma demo_engine_laws: "ntt_laws demo_engine d"
proof -
  have inv: "w < m \<and> x * w mod m = 1" if "1 < m" "invert_uint_mod demo_engine x m = Some w" for x m w
    using coefficient_engine_laws [of d] square_mod_8 that by (auto simp: demo_engine_def ntt_laws_def split: if_splits)
  have ops: "to_ntt demo_engine = to_ntt coefficient_engine" "ntt_multiply demo_engine = ntt_multiply coefficient_engine"
    "from_ntt demo_engine = from_ntt coefficient_engine" by (simp_all add: demo_engine_def)
  have "ntt_laws coefficient_engine d" by (rule coefficient_engine_laws)
  then show ?thesis unfolding ntt_laws_def ops using inv by blast
qed

lemma demo_inverses: "inverses_exist demo_engine 4"
  by (simp add: inverses_exist_def demo_engine_def)

lemma demo_engine_context: "\<exists>ctx. new_lift_context demo_engine 4 1048576 = Inr ctx"
proof -
  have "is_power_of_two 4" unfolding is_power_of_two_iff by (rule exI [of _ 2]) simp
  then show ?thesis
    by (simp add: new_lift_context_def guardR_def checked_mul_u128_def demo_engine_def coefficient_engine_def PRIMES_def)
qed

lemma bit_dims: "np_d bit_params = 4" "np_q bit_params = 1048576" "np_p bit_params = 2" "np_ell bit_params = 3"
  "np_bits bit_params = 6" "np_dropped bit_params = 2"
  by (simp_all add: bit_params_def demo_params_def)

lemma bit_good: "good_native bit_params"
proof -
  have p4: "is_power_of_two 4" unfolding is_power_of_two_iff by (rule exI [of _ 2]) simp
  have "\<exists>k::nat. 16 \<le> k \<and> k \<le> 56 \<and> (1048576::nat) = 2 ^ k \<and> (\<exists>l. 0 < l \<and> l < k \<and> (2::nat) = 2 ^ l) \<and> 2 = k - 6 * 3"
    by (rule exI [of _ 20]) (auto intro!: exI [of _ "1::nat"])
  then show ?thesis using p4 unfolding good_native_def by (simp add: bit_dims)
qed

lemma bit_small: "small_secret bit_params [1, 0, 1048575, 1] 1"
  by (simp add: small_secret_def bit_dims below_four centered_def all_below_set)

lemma bit_secret: "secret_ok bit_secret" "sec_params bit_secret = bit_params" "sec_coeffs bit_secret = [1, 0, 1048575, 1]"
  using bit_good bit_small by (simp_all add: secret_ok_def bit_secret_def small_secret_def)

lemma bit_setup: "setup_ok bit_setup" "ns_params bit_setup = bit_params"
  unfolding bit_setup_def by (rule new_setup_ok [OF bit_good])+

lemma demo_masks: "lwe_masks bit_params demo_masks"
  by (simp add: lwe_masks_def bit_dims demo_masks_def)

lemma bit_keys:
  "\<exists>keys g'. generate demo_engine demo_env bit_setup bit_secret 0 = Inr (keys, g') \<and> nk_id keys = ns_id bit_setup
    \<and> key_for bit_params [1, 0, 1048575, 1] 5 (ns_w bit_setup) (nk_kg keys) 65 \<and> key_for bit_params [1, 0, 1048575, 1] 7 (ns_v bit_setup) (nk_kh keys) 65"
proof -
  obtain ctx where "new_lift_context demo_engine (np_d bit_params) (np_q bit_params) = Inr ctx"
    using demo_engine_context by (auto simp: bit_dims)
  from generate_ok [OF demo_engine_laws this _ bit_secret(1) bit_good bit_setup_def, of 0] demo_gauss
  show ?thesis by (auto simp: bit_secret bit_dims)
qed

lemma bit_bodies:
  assumes "m < 2" and "k < 4"
  shows "\<exists>c. c < 1048576 \<and> near 1048576 65 (524288 * int m) (int c + mask_secret bit_params demo_masks [1, 0, 1048575, 1] k)"
proof -
  have "length (demo_masks ! k) = 4 \<and> all_below 1048576 (demo_masks ! k)"
    using demo_masks assms(2) by (auto simp: lwe_masks_def bit_dims)
  moreover have "gauss_law demo_env (np_q (sec_params bit_secret))" using demo_gauss by (simp add: bit_secret bit_dims)
  ultimately show ?thesis
    using encrypt_lwe_ok [OF bit_secret(1), of demo_env "demo_masks ! k" m 0] assms(1)
    by (auto simp: bit_secret bit_dims mask_secret_def)
qed

lemma bit_error: "pack_error bit_params 1 65 = 74920" "chain_error bit_params 1 65 = 49952"
  by (simp_all add: pack_error_def chain_error_def switch_error_def gadget_radius_def digit_bound_def bit_dims)

lemma bit_rows:
  "\<exists>b. length b = 4 \<and> all_below 1048576 b
    \<and> (\<forall>k<4. near 1048576 65 (524288 * int ([1, 0, 1, 1] ! k)) (int (b ! k) + mask_secret bit_params demo_masks [1, 0, 1048575, 1] k))"
proof -
  have "\<forall>k<4. [1, 0, 1, 1 :: nat] ! k < 2" by (simp add: below_four)
  then have "\<forall>k. \<exists>c. k < 4 \<longrightarrow> c < 1048576
      \<and> near 1048576 65 (524288 * int ([1, 0, 1, 1] ! k)) (int c + mask_secret bit_params demo_masks [1, 0, 1048575, 1] k)"
    using bit_bodies by blast
  then obtain c where c: "\<And>k. k < 4 \<Longrightarrow> c k < 1048576
      \<and> near 1048576 65 (524288 * int ([1, 0, 1, 1] ! k)) (int (c k) + mask_secret bit_params demo_masks [1, 0, 1048575, 1] k)"
    by metis
  show ?thesis
  proof (intro exI [of _ "map c [0..<4]"] conjI allI impI)
    show "all_below 1048576 (map c [0..<4])" using c by (auto simp: all_below_set)
    show "near 1048576 65 (524288 * int ([1, 0, 1, 1] ! k)) (int (map c [0..<4] ! k) + mask_secret bit_params demo_masks [1, 0, 1048575, 1] k)"
      if "k < 4" for k using c [OF that] that by simp
  qed simp
qed

definition any_cpu :: cpu_features where
  "any_cpu = \<lparr>has_avx2 = True, has_avx512 = False, has_vnni = False, has_vbmi = True\<rparr>"

theorem pack_decrypts_witness:
  "\<exists>keys g' b pre ct. generate demo_engine demo_env bit_setup bit_secret 0 = Inr (keys, g') \<and> build demo_engine any_cpu bit_setup demo_masks = Inr pre
     \<and> pack demo_engine any_cpu pre b keys = Inr ct \<and> decrypt demo_engine bit_secret ct = Inr [1, 0, 1, 1]"
proof -
  obtain keys g' where keys: "generate demo_engine demo_env bit_setup bit_secret 0 = Inr (keys, g')" "nk_id keys = ns_id bit_setup"
    "key_for bit_params [1, 0, 1048575, 1] 5 (ns_w bit_setup) (nk_kg keys) 65" "key_for bit_params [1, 0, 1048575, 1] 7 (ns_v bit_setup) (nk_kh keys) 65"
    using bit_keys by blast
  obtain b where b: "length b = 4" "all_below 1048576 b"
    "\<forall>k<4. near 1048576 65 (524288 * int ([1, 0, 1, 1] ! k)) (int (b ! k) + mask_secret bit_params demo_masks [1, 0, 1048575, 1] k)"
    using bit_rows by blast
  obtain ctx where ctx: "new_lift_context demo_engine (np_d bit_params) (np_q bit_params) = Inr ctx"
    using demo_engine_context by (auto simp: bit_dims)
  have "\<exists>pre ct. build demo_engine any_cpu bit_setup demo_masks = Inr pre \<and> pack demo_engine any_cpu pre b keys = Inr ct
      \<and> decrypt demo_engine bit_secret ct = Inr [1, 0, 1, 1]"
  proof (rule pack_decrypts [OF demo_engine_laws ctx _ bit_setup demo_masks bit_secret(2), where B = 1 and E = 65 and e = 65])
    show "2 * (65 + pack_error bit_params 1 65) < int (np_q bit_params div np_p bit_params)" unfolding bit_error by (simp add: bit_dims)
  qed (use keys b bit_small demo_inverses in \<open>simp_all add: bit_dims bit_secret(3)\<close>)
  then show ?thesis using keys(1) by blast
qed

theorem pack_two_mask_decrypts_witness:
  "\<exists>kg b pre ct. build_two_mask demo_engine any_cpu bit_setup demo_masks = Inr pre
     \<and> pack_two_mask any_cpu pre b \<lparr>nk_id = ns_id bit_setup, nk_kg = kg, nk_kh = []\<rparr> = Inr ct \<and> decrypt_two_mask demo_engine bit_secret ct = Inr [1, 0, 1, 1]"
proof -
  obtain kg where key: "key_for bit_params [1, 0, 1048575, 1] 5 (ns_w bit_setup) kg 65" using bit_keys by blast
  obtain b where b: "length b = 4" "all_below 1048576 b"
    "\<forall>k<4. near 1048576 65 (524288 * int ([1, 0, 1, 1] ! k)) (int (b ! k) + mask_secret bit_params demo_masks [1, 0, 1048575, 1] k)"
    using bit_rows by blast
  obtain ctx where ctx: "new_lift_context demo_engine (np_d bit_params) (np_q bit_params) = Inr ctx"
    using demo_engine_context by (auto simp: bit_dims)
  have "\<exists>pre ct. build_two_mask demo_engine any_cpu bit_setup demo_masks = Inr pre
      \<and> pack_two_mask any_cpu pre b \<lparr>nk_id = ns_id bit_setup, nk_kg = kg, nk_kh = []\<rparr> = Inr ct \<and> decrypt_two_mask demo_engine bit_secret ct = Inr [1, 0, 1, 1]"
  proof (rule pack_two_mask_decrypts [OF demo_engine_laws ctx _ bit_setup demo_masks bit_secret(2), where B = 1 and E = 65 and e = 65])
    show "2 * (65 + chain_error bit_params 1 65) < int (np_q bit_params div np_p bit_params)" unfolding bit_error by (simp add: bit_dims)
  qed (use key b bit_small demo_inverses in \<open>simp_all add: bit_dims bit_secret(3)\<close>)
  then show ?thesis by blast
qed

theorem staged_pack_agrees_witness:
  "\<exists>pre. build demo_engine any_cpu bit_setup demo_masks = Inr pre
     \<and> bindR (prepare_keys demo_engine pre \<lparr>nk_id = [1], nk_kg = [[1, 2, 3, 4]], nk_kh = []\<rparr>)
         (\<lambda>pk. bindR (prepare_pack demo_engine any_cpu pre pk) (\<lambda>pd. finish pd [5, 6, 7, 8]))
       = pack demo_engine any_cpu pre [5, 6, 7, 8] \<lparr>nk_id = [1], nk_kg = [[1, 2, 3, 4]], nk_kh = []\<rparr>"
proof -
  obtain ctx where ctx: "new_lift_context demo_engine (np_d bit_params) (np_q bit_params) = Inr ctx"
    using demo_engine_context by (auto simp: bit_dims)
  have inv: "inverses_exist demo_engine (np_d bit_params)" using demo_inverses by (simp add: bit_dims)
  have "length demo_masks = np_d bit_params" "\<And>row. row \<in> set demo_masks \<Longrightarrow> length row = np_d bit_params \<and> all_below (np_q bit_params) row"
    using demo_masks by (simp_all add: lwe_masks_def)
  then obtain pre where pre: "build demo_engine any_cpu bit_setup demo_masks = Inr pre"
    using build_internal_ok [OF demo_engine_laws ctx inv bit_setup, of demo_masks any_cpu False] unfolding build_def by blast
  show ?thesis
    using staged_pack_agrees [OF demo_engine_laws ctx inv bit_setup demo_masks pre, of "\<lparr>nk_id = [1], nk_kg = [[1, 2, 3, 4]], nk_kh = []\<rparr>" "[5, 6, 7, 8]"] pre
    by (simp add: bit_dims)
qed

end
