(* ===== verification/Native_Decoder.thy ===== *)
theory Native_Decoder
  imports Native_Phase
begin

text \<open>
  Prepared decoding (\<open>NativeDecoder\<close> and \<open>NativeDecodingState\<close> of \<open>reinspiring/src/native.rs\<close>): public
  masks transformed once per snapshot, the secret once per request, and bodies decoded with the
  products. In two-mask mode the transform of the conjugate secret is the reversed transform, which
  rests on the evaluation order of the transform library (\<open>ntt_reversal\<close>).
\<close>

section \<open>Model\<close>

record native_decoder =
  dec_params :: native_params
  dec_lift :: lift_context
  dec_masks :: "prepared_lift_operand list"
  dec_two_mask :: bool

record native_decoding_state =
  ds_params :: native_params
  ds_products :: "nat list"

fun secret_support :: "secret_distribution \<Rightarrow> nat" where
  "secret_support Gaussian = GAUSS_MAX"
| "secret_support TernaryResearch = 1"

definition new_decoder :: "ntt_engine \<Rightarrow> native_params \<Rightarrow> nat list list \<Rightarrow> nat list list option \<Rightarrow> native_decoder result" where
  "new_decoder eng params masks others =
     guardR (masks = [] \<or> (case others of None \<Rightarrow> False | Some x \<Rightarrow> length x \<noteq> length masks)) (InvalidParams ''decoder mask shape mismatch'')
       (bindR (new_lift_context eng (np_d params) (np_q params)) (\<lambda>lift.
          mapR (\<lambda>prepared. \<lparr>dec_params = params, dec_lift = lift, dec_masks = prepared, dec_two_mask = others \<noteq> None\<rparr>)
            (collectR (\<lambda>i. prepare_decode_masks eng lift (masks ! i # (case others of None \<Rightarrow> [] | Some other \<Rightarrow> [other ! i]))
                (secret_support (np_sampler params))) [0..<length masks])))"

definition decoder_bytes :: "native_decoder \<Rightarrow> nat" where
  "decoder_bytes dec = sum_list (map plo_storage_bytes (dec_masks dec))"

definition prepare_request :: "ntt_engine \<Rightarrow> native_decoder \<Rightarrow> native_secret \<Rightarrow> native_decoding_state result" where
  "prepare_request eng dec s =
     guardR (sec_params s \<noteq> dec_params dec) (InvalidParams ''decoder secret profile mismatch'')
       (let right = prepare_decode_secret eng (dec_lift dec) (sec_coeffs s) (dec_two_mask dec)
        in mapR (\<lambda>products. \<lparr>ds_params = dec_params dec, ds_products = concat products\<rparr>)
             (collectR (\<lambda>x. sum_cached eng (dec_lift dec) x right) (dec_masks dec)))"

definition state_decrypt :: "native_decoding_state \<Rightarrow> nat list \<Rightarrow> nat list result" where
  "state_decrypt st bodies =
     (let p = ds_params st
      in guardR (length bodies \<noteq> length (ds_products st) \<or> list_ex (\<lambda>x. x \<ge> np_q p) bodies) (InvalidParams ''decoder body shape or range mismatch'')
         (Inr (map2 (\<lambda>x y. decode_word p (u64 (x + y) AND (np_q p - 1))) (ds_products st) bodies)))"

definition decoder_decrypt :: "ntt_engine \<Rightarrow> native_decoder \<Rightarrow> native_secret \<Rightarrow> nat list \<Rightarrow> nat list result" where
  "decoder_decrypt eng dec s bodies = bindR (prepare_request eng dec s) (\<lambda>st. state_decrypt st bodies)"

text \<open>One block of a response, decoded with its public rows.\<close>

definition decode_block :: "ntt_engine \<Rightarrow> native_params \<Rightarrow> native_secret \<Rightarrow> nat list \<Rightarrow> nat list option \<Rightarrow> nat list \<Rightarrow> nat list result" where
  "decode_block eng p s a other block =
     (case other of
        None \<Rightarrow> bindR (ciphertext_from_rows p a block) (decrypt eng s)
      | Some o' \<Rightarrow> bindR (two_mask_from_rows p a o' block) (decrypt_two_mask eng s))"

section \<open>Products\<close>

text \<open>Reversing the stored evaluations of a polynomial gives those of its conjugate \<open>X \<rightarrow> X\<^sup>-\<^sup>1\<close>.\<close>

definition ntt_reversal :: "ntt_engine \<Rightarrow> nat \<Rightarrow> bool" where
  "ntt_reversal eng d \<longleftrightarrow> (\<forall>m\<in>set PRIMES. \<forall>p. canon m d p \<longrightarrow> rev (to_ntt eng m p) = to_ntt eng m (tau_coeffs p (2 * d - 1) m))"

definition decode_operands :: "nat \<Rightarrow> nat list \<Rightarrow> bool \<Rightarrow> nat list list" where
  "decode_operands q s two = s # (if two then [tau_coeffs s (2 * length s - 1) q] else [])"

lemma dot_total:
  assumes ctx: "good_ctx ctx" and ws: "ws \<noteq> []" "\<And>w. w \<in> set ws \<Longrightarrow> lift_valid ctx w" and b: "0 < b" "b \<le> lc_q ctx div 2"
    and room: "length ws * 2 ^ 55 * lc_d ctx * b * 2 < lc_product ctx"
  shows "\<exists>dot. prepare_public_dot eng ctx ws b = Inr dot
    \<and> (length ws * 2 ^ 55 * lc_d ctx * b * 2 < PRIMES ! 0 * PRIMES ! 1 \<longrightarrow> length (ppd_transforms dot) = 2)"
proof -
  let ?s = "\<Sum>w\<leftarrow>ws. max_abs ctx w"
  have maxima: "collectR (\<lambda>poly. mapR (\<lambda>_. max_abs ctx poly) (validate_lift ctx poly)) ws = Inr (map (max_abs ctx) ws)"
    using ws(2) by (intro collectR_all_Inr) simp
  have "max_abs ctx w \<le> 2 ^ 55" if "w \<in> set ws" for w
    using max_abs_le [OF ws(2) [OF that]] good_ctxD(1,2) [OF ctx] by simp
  then have "?s \<le> (\<Sum>w\<leftarrow>ws. 2 ^ 55)" by (intro sum_list_mono)
  then have s: "?s \<le> length ws * 2 ^ 55" by (simp add: sum_list_triv)
  then have need: "?s * lc_d ctx * b * 2 \<le> length ws * 2 ^ 55 * lc_d ctx * b * 2" by (intro mult_le_mono1)
  have P: "lc_product ctx < 2 ^ 128" using good_ctxD(5) [OF ctx] by (simp add: PRIMES_def)
  have cap: "?s * lc_d ctx * b * 2 < 2 ^ 128" using need room P by linarith
  have up: "x \<le> x * lc_d ctx" "x \<le> x * b" for x using good_ctxD(1) [OF ctx] b(1) by simp_all
  have small: "?s < 2 ^ 128" "?s * lc_d ctx < 2 ^ 128" "?s * lc_d ctx * b < 2 ^ 128"
    using cap up(1) [of ?s] up(2) [of "?s * lc_d ctx"] by linarith+
  have "fold (\<lambda>m sum. Option.bind sum (\<lambda>s. checked_add_u128 s m)) (map (max_abs ctx) ws) (Some 0) = Some ?s"
    using option_sum_total [of 0 "map (max_abs ctx) ws"] small(1) by simp
  note sum = this
  obtain z where z: "?s = z" by blast
  note facts = sum [unfolded z] small [unfolded z] cap [unfolded z] need [unfolded z]
  have muls: "checked_mul_u128 z (lc_d ctx) = Some (z * lc_d ctx)" "checked_mul_u128 (z * lc_d ctx) b = Some (z * lc_d ctx * b)"
    "checked_mul_u128 (z * lc_d ctx * b) 2 = Some (z * lc_d ctx * b * 2)"
    using facts by (simp_all add: checked_mul_u128_def)
  have fits: "z * lc_d ctx * b * 2 < lc_product ctx" using facts room by linarith
  show ?thesis
  proof (cases "z * lc_d ctx * b * 2 < PRIMES ! 0 * PRIMES ! 1")
    case True
    then show ?thesis using ws(1) b(2) good_ctxD(4) [OF ctx] facts(1)
      by (simp add: prepare_public_dot_def maxima muls Let_def primes_simps(4) not_less)
  next
    case False
    then have "\<not> length ws * 2 ^ 55 * lc_d ctx * b * 2 < PRIMES ! 0 * PRIMES ! 1" using facts by linarith
    then show ?thesis using ws(1) b(2) facts(1) False fits
      by (simp add: prepare_public_dot_def maxima muls not_less)
  qed
qed

lemma decode_product:
  assumes laws: "ntt_laws eng (lc_d ctx)" and rev: "two \<Longrightarrow> ntt_reversal eng (lc_d ctx)" and good: "good_ctx ctx"
    and len: "length as = (if two then 2 else 1)" and as: "\<And>a. a \<in> set as \<Longrightarrow> lift_valid ctx a"
    and s: "lift_valid ctx s" "\<And>i. i < lc_d ctx \<Longrightarrow> \<bar>centered (s ! i) (lc_q ctx)\<bar> \<le> int B"
    and d: "is_power_of_two (lc_d ctx)" "lc_d ctx \<le> 4096" and op: "prepare_decode_masks eng ctx as B = Inr op"
  shows "sum_cached eng ctx op (prepare_decode_secret eng ctx s two) = Inr (ring_dot (lc_q ctx) (lc_d ctx) as (decode_operands (lc_q ctx) s two))"
proof -
  let ?d = "lc_d ctx" and ?q = "lc_q ctx" and ?h = "2 * lc_d ctx - 1"
  let ?r = "prepare_decode_secret eng ctx s two"
  have lens: "length s = ?d" using s(1) by (simp add: lift_valid_def)
  have d0: "0 < ?d" and params: "lc_params ctx = PRIMES" using good_ctxD [OF good] by simp_all
  have h: "?d * ?h < 2 ^ 64" "odd ?h" "coprime ?d ?h"
  proof -
    have "?d * ?h \<le> 4096 * 8192" using d(2) by (intro mult_le_mono) simp_all
    then show "?d * ?h < 2 ^ 64" by simp
    show "odd ?h" using d0 by simp
    then show "coprime ?d ?h" using d(1) by (auto simp: is_power_of_two_iff)
  qed
  have sc: "canon ?q ?d s" by (rule valid_canon [OF good s(1)])
  define S where "S = iext (centred ?q s)"
  have S: "antiper ?d S" "\<And>k. \<bar>S k\<bar> \<le> int B" unfolding S_def using iext_centred_bound [OF sc s(2)] by blast+
  define T where "T = (\<lambda>i :: nat. if i = 0 then S else tau ?d ?h S)"
  have T: "antiper ?d (T i)" "\<bar>T i k\<bar> \<le> int B" for i k
    using S tau_antiper [OF d0] tau_bound [OF d0 h(3) S(2)] by (simp_all add: T_def)
  define bs where "bs = decode_operands ?q s two"
  define cs where "cs = map (\<lambda>i. map (\<lambda>t. T i (int t)) [0..<?d]) [0..<length as]"
  have bl: "length bs = length as" using len by (simp add: bs_def decode_operands_def)
  have idx: "i = 0 \<or> (two \<and> i = 1)" if "i < length as" for i using that len by (auto split: if_splits)
  have bcs: "lift_valid ctx (bs ! i) \<and> (\<forall>t<?d. eqm ?q (int (bs ! i ! t)) (cs ! i ! t))" if i: "i < length as" for i
  proof (cases "i = 0")
    case True
    then show ?thesis using i lens s(1) d0
      by (auto simp: bs_def decode_operands_def cs_def T_def S_def iext_nth centered_eqm)
  next
    case False
    then have two: "two" "i = 1" using idx [OF i] by simp_all
    note E = ext_tau_coeffs [OF sc h(1)]
    have "eqm ?q (int (tau_coeffs s ?h ?q ! t)) (tau ?d ?h S (int t))" if t: "t < ?d" for t
      using eqm_trans [OF E(2) [of "int t"] tau_cong [OF ext_centred [OF sc]]] t canonD(4) [OF E(1)] by (simp add: ext_nth S_def)
    then show ?thesis
      using two i lens E(1) len
      by (auto simp: bs_def decode_operands_def cs_def T_def lift_valid_def dest: canonD(4,5))
  qed
  obtain dot where dot: "prepare_public_dot eng ctx as B = Inr dot" "length (ppd_transforms dot) = 2"
    "op = \<lparr>plo_d = ?d, plo_q = ?q, plo_transforms = map (\<lambda>i. map (\<lambda>p. p ! i) (ppd_transforms dot)) [0..<length as], plo_sum_fits_two = True\<rparr>"
    using op by (auto simp: prepare_decode_masks_def)
  note D = prepare_public_dot_for [OF good dot(1)]
  have trans: "ppd_transforms dot = map (\<lambda>m. map (lift_transform eng ctx m) as) (take 2 PRIMES)"
    and cap: "(\<Sum>a\<leftarrow>as. max_abs ctx a) * ?d * B * 2 < PRIMES ! 0 * PRIMES ! 1"
    using D dot(2) by (simp_all add: dot_for_def primes_products)
  have two_cached: "sum_cached_two eng ctx op ?r = map (\<lambda>k. rem_euclid (int_dot ?q as cs k) ?q) [0..<?d]"
  proof (rule sum_cached_two_ok [OF laws good, where B = "\<lambda>j i. if i = 0 then lift_raw ctx (PRIMES ! j) s else tau_coeffs (lift_raw ctx (PRIMES ! j) s) ?h (PRIMES ! j)"])
    show "length (plo_transforms op) = length as" by (simp add: dot(3))
    show "length (plr_transforms ?r) = length as" using len by (simp add: prepare_decode_secret_def Let_def)
    show "lift_valid ctx (as ! i) \<and> plo_transforms op ! i ! j = lift_transform eng ctx (PRIMES ! j) (as ! i)" if "i < length as" "j < 2" for i j
      using that as by (simp add: dot(3) trans primes_simps(4))
    fix i j :: nat assume i: "i < length as" and j: "j < 2"
    have m: "PRIMES ! j \<in> set PRIMES" using j by (simp add: primes_simps(4))
    note R = lift_raw_ok [OF good s(1) m]
    let ?raw = "lift_raw ctx (PRIMES ! j) s"
    have raw: "eqm (PRIMES ! j) (ext ?raw k) (S k)" for k
    proof -
      have "eqm (PRIMES ! j) (S k) (ext ?raw k)"
        unfolding S_def using R lens d0 canonD(4) [OF R(1)] canon_antiper [OF R(1)]
        by (intro iext_eqm) (auto simp: ext_nth intro: eqm_sym)
      then show ?thesis by (rule eqm_sym)
    qed
    show "plr_transforms ?r ! i ! j = to_ntt eng (PRIMES ! j) (if i = 0 then ?raw else tau_coeffs ?raw ?h (PRIMES ! j))
      \<and> canon (PRIMES ! j) ?d (if i = 0 then ?raw else tau_coeffs ?raw ?h (PRIMES ! j))
      \<and> length (cs ! i) = ?d \<and> (\<forall>t<?d. eqm (PRIMES ! j) (int ((if i = 0 then ?raw else tau_coeffs ?raw ?h (PRIMES ! j)) ! t)) (cs ! i ! t))"
    proof (cases "i = 0")
      case True
      have "\<forall>t<?d. eqm (PRIMES ! j) (int (?raw ! t)) (S (int t))" using raw canonD(4) [OF R(1)] by (metis ext_nth)
      then show ?thesis
        using True i j R(1) params by (simp add: prepare_decode_secret_def Let_def lift_transform_def cs_def T_def primes_simps(4))
    next
      case False
      then have two: "two" "i = 1" using idx [OF i] by simp_all
      note E = ext_tau_coeffs [OF R(1) h(1)]
      have "\<forall>t<?d. eqm (PRIMES ! j) (int (tau_coeffs ?raw ?h (PRIMES ! j) ! t)) (tau ?d ?h S (int t))"
        using eqm_trans [OF E(2) tau_cong [OF raw]] canonD(4) [OF E(1)] by (metis ext_nth)
      moreover have "rev (to_ntt eng (PRIMES ! j) ?raw) = to_ntt eng (PRIMES ! j) (tau_coeffs ?raw ?h (PRIMES ! j))"
        using rev [OF two(1)] m R(1) unfolding ntt_reversal_def by blast
      ultimately show ?thesis
        using two i j params E(1) by (simp add: prepare_decode_secret_def Let_def lift_transform_def cs_def T_def primes_simps(4))
    qed
  next
    fix k assume k: "k < ?d"
    have "2 * \<bar>int_dot ?q as cs k\<bar> \<le> int ((\<Sum>a\<leftarrow>as. max_abs ctx a) * ?d * B * 2)"
      using as T(2) max_abs_bound by (intro int_dot_bound k) (auto simp: cs_def lift_valid_def simp del: nth_centred)
    then show "2 * \<bar>int_dot ?q as cs k\<bar> < int (PRIMES ! 0 * PRIMES ! 1)" using cap by linarith
  qed
  have rd: "ring_dot ?q ?d as bs = map (\<lambda>k. rem_euclid (int_dot ?q as cs k) ?q) [0..<?d]"
    using bl bcs as by (intro ring_dot_rem [OF good]) (auto simp: cs_def)
  have "\<not> list_ex (\<lambda>(left, right). length left > length right) (zip (plo_transforms op) (plr_transforms ?r))"
    using params by (auto simp: list_ex_length dot(2,3) prepare_decode_secret_def Let_def nth_Cons primes_simps(4) split: nat.splits)
  then show ?thesis
    using two_cached rd len by (simp add: sum_cached_def dot(3) prepare_decode_secret_def Let_def bs_def)
qed

section \<open>Decoding\<close>

lemma lift_context_dims: "new_lift_context eng d q = Inr ctx \<Longrightarrow> is_power_of_two d"
  by (auto simp: new_lift_context_def guardR_def split: if_splits)

definition block_masks :: "nat list list \<Rightarrow> nat list list option \<Rightarrow> nat \<Rightarrow> nat list list" where
  "block_masks masks others i = masks ! i # (case others of None \<Rightarrow> [] | Some other \<Rightarrow> [other ! i])"

definition decode_masks :: "native_params \<Rightarrow> nat list list \<Rightarrow> nat list list option \<Rightarrow> bool" where
  "decode_masks p masks others \<longleftrightarrow> masks \<noteq> [] \<and> (\<forall>a\<in>set masks. length a = np_d p \<and> all_below (np_q p) a)
     \<and> (case others of None \<Rightarrow> True | Some x \<Rightarrow> length x = length masks \<and> (\<forall>a\<in>set x. length a = np_d p \<and> all_below (np_q p) a))"

lemma block_masks_valid:
  assumes "decode_masks p masks others" and "lc_d ctx = np_d p" "lc_q ctx = np_q p" and "i < length masks"
  shows "\<And>a. a \<in> set (block_masks masks others i) \<Longrightarrow> lift_valid ctx a"
    and "length (block_masks masks others i) = (if others = None then 1 else 2)"
  using assms by (auto simp: decode_masks_def block_masks_def lift_valid_def split: option.splits)

lemma decode_masks_total:
  assumes laws: "ntt_laws eng (np_d p)" and ctx: "new_lift_context eng (np_d p) (np_q p) = Inr ctx" and good: "good_native p"
    and masks: "decode_masks p masks others" and i: "i < length masks"
  shows "\<exists>op. prepare_decode_masks eng ctx (block_masks masks others i) (secret_support (np_sampler p)) = Inr op"
proof -
  note G = new_lift_context_good [OF laws ctx]
  note V = block_masks_valid [OF masks G(2,3) i]
  let ?as = "block_masks masks others i" and ?b = "secret_support (np_sampler p)"
  have b: "0 < ?b" "?b \<le> 65" by (cases "np_sampler p"; simp add: GAUSS_MAX_def)+
  obtain k where k: "16 \<le> k" "np_q p = 2 ^ k" using native_modulus [OF good] by blast
  have "(2::nat) ^ 16 \<le> 2 ^ k" using k(1) by (intro power_increasing) simp_all
  then have q: "?b \<le> lc_q ctx div 2" using b(2) k(2) G(3) by simp
  have l: "length ?as \<le> 2" using V(2) by simp
  have "length ?as * 2 ^ 55 * lc_d ctx * ?b * 2 \<le> 2 * 2 ^ 55 * 2048 * 65 * 2"
    using l good_nativeD(2) [OF good] b(2) G(2) by (intro mult_le_mono order_refl) simp_all
  also have "\<dots> < PRIMES ! 0 * PRIMES ! 1" by (simp add: PRIMES_def)
  finally have room: "length ?as * 2 ^ 55 * lc_d ctx * ?b * 2 < PRIMES ! 0 * PRIMES ! 1" .
  have "PRIMES ! 0 * PRIMES ! 1 < lc_product ctx" using good_ctxD(5) [OF G(1)] by (simp add: PRIMES_def)
  with room have "length ?as * 2 ^ 55 * lc_d ctx * ?b * 2 < lc_product ctx" by (rule less_trans)
  moreover have "?as \<noteq> []" by (simp add: block_masks_def)
  ultimately have "\<exists>dot. prepare_public_dot eng ctx ?as ?b = Inr dot
      \<and> (length ?as * 2 ^ 55 * lc_d ctx * ?b * 2 < PRIMES ! 0 * PRIMES ! 1 \<longrightarrow> length (ppd_transforms dot) = 2)"
    using V(1) b(1) q by (intro dot_total [OF G(1)])
  then obtain dot where "prepare_public_dot eng ctx ?as ?b = Inr dot" "length (ppd_transforms dot) = 2"
    using room by blast
  then show ?thesis by (simp add: prepare_decode_masks_def)
qed

lemma ring_dot_single: "length (schoolbook_negacyclic a s q) = d \<Longrightarrow> all_below q (schoolbook_negacyclic a s q) \<Longrightarrow> ring_dot q d [a] [s] = schoolbook_negacyclic a s q"
  by (intro nth_equalityI) (simp_all add: ring_dot_def all_below_nth)

text \<open>The body words of one block, decoded with the cached product, are the decryption of the block.\<close>

lemma decode_block_ok:
  assumes laws: "ntt_laws eng (np_d p)" and ctx: "new_lift_context eng (np_d p) (np_q p) = Inr ctx" and good: "good_native p"
    and s: "sec_params s = p" "length (sec_coeffs s) = np_d p" "all_below (np_q p) (sec_coeffs s)"
    and masks: "decode_masks p masks others" and i: "i < length masks" and b: "length b = np_d p" "all_below (np_q p) b"
  shows "decode_block eng p s (masks ! i) (map_option (\<lambda>o'. o' ! i) others) b
    = Inr (map2 (\<lambda>x y. decode_word p (u64 (x + y) AND (np_q p - 1)))
        (ring_dot (np_q p) (np_d p) (block_masks masks others i) (decode_operands (np_q p) (sec_coeffs s) (others \<noteq> None))) b)"
proof -
  let ?d = "np_d p" and ?q = "np_q p" and ?h = "2 * np_d p - 1"
  have a: "length (masks ! i) = ?d" "all_below ?q (masks ! i)" using masks i by (simp_all add: decode_masks_def)
  have ac: "canon ?q ?d (masks ! i)" and sc: "canon ?q ?d (sec_coeffs s)" using a s by (simp_all add: native_canon [OF good])
  note one = schoolbook_negacyclic_nth(1) [OF ac sc]
  note L1 = native_context [OF laws ctx a s(2,3)]
  show ?thesis
  proof (cases others)
    case None
    let ?f = "schoolbook_negacyclic (masks ! i) (sec_coeffs s) ?q"
    have "ring_dot ?q ?d [masks ! i] [sec_coeffs s] = ?f" using canonD(4,5) [OF one] by (rule ring_dot_single)
    moreover have "phase eng s \<lparr>nc_params = p, nc_a = masks ! i, nc_b = b\<rparr> = Inr (map2 (\<lambda>a b. u64 (a + b) AND (?q - 1)) ?f b)"
      using L1 ctx s(1) by (simp add: phase_def)
    ultimately show ?thesis
      using None a b s(1) by (simp add: decode_block_def ciphertext_from_rows_def validate_poly_iff decrypt_def
          block_masks_def decode_operands_def map2_map_map [symmetric] comp_def case_prod_unfold del: One_nat_def)
  next
    case (Some other)
    then have o: "length (other ! i) = ?d" "all_below ?q (other ! i)" using masks i by (auto simp: decode_masks_def)
    let ?ts = "tau_coeffs (sec_coeffs s) ?h ?q"
    have h: "?d * ?h < 2 ^ 64" using good_nativeD(1) [OF good] by (intro small_exponent [OF good]) simp
    have ts: "canon ?q ?d ?ts" by (rule ext_tau_coeffs(1) [OF sc h])
    have oc: "canon ?q ?d (other ! i)" using o by (rule native_canon [OF good])
    let ?f = "schoolbook_negacyclic (masks ! i) (sec_coeffs s) ?q" and ?g = "schoolbook_negacyclic (other ! i) ?ts ?q"
    note two = schoolbook_negacyclic_nth(1) [OF oc ts]
    have "phase_two_mask eng s \<lparr>nt_params = p, nt_a = masks ! i, nt_a_other = other ! i, nt_b = b\<rparr>
        = Inr (map (\<lambda>k. u64 (u64 (b ! k + ?f ! k) + ?g ! k) AND (?q - 1)) [0..<?d])"
      using L1 native_context [OF laws ctx o canonD(4,5) [OF ts]] ctx s(1)
      by (simp add: phase_two_mask_def Let_def del: One_nat_def)
    moreover have "u64 ((?f ! k + ?g ! k) mod ?q + b ! k) AND (?q - 1) = u64 (u64 (b ! k + ?f ! k) + ?g ! k) AND (?q - 1)" for k
    proof (rule eqm_nat_eq)
      obtain qb where qb: "?q = 2 ^ qb" "qb \<le> 64" using native_modulus [OF good] by auto
      show "u64 ((?f ! k + ?g ! k) mod ?q + b ! k) AND (?q - 1) < ?q" "u64 (u64 (b ! k + ?f ! k) + ?g ! k) AND (?q - 1) < ?q"
        using mask_sum [OF good] by blast+
      have L: "eqm ?q (int (u64 ((?f ! k + ?g ! k) mod ?q + b ! k) AND (?q - 1))) (int (b ! k) + int (?f ! k) + int (?g ! k))"
      proof (rule eqm_trans)
        show "eqm ?q (int (u64 ((?f ! k + ?g ! k) mod ?q + b ! k) AND (?q - 1))) (int ((?f ! k + ?g ! k) mod ?q + b ! k))"
          using mask_sum [OF good] by blast
        have "eqm ?q (int ((?f ! k + ?g ! k) mod ?q) + int (b ! k)) (int (?f ! k + ?g ! k) + int (b ! k))"
          by (intro eqm_add eqm_nat_mod eqm_refl)
        then show "eqm ?q (int ((?f ! k + ?g ! k) mod ?q + b ! k)) (int (b ! k) + int (?f ! k) + int (?g ! k))" by (simp add: ac_simps)
      qed
      have R: "eqm ?q (int (u64 (u64 (b ! k + ?f ! k) + ?g ! k) AND (?q - 1))) (int (b ! k) + int (?f ! k) + int (?g ! k))"
      proof (rule eqm_trans)
        show "eqm ?q (int (u64 (u64 (b ! k + ?f ! k) + ?g ! k) AND (?q - 1))) (int (u64 (b ! k + ?f ! k) + ?g ! k))"
          using mask_sum [OF good] by blast
        have "eqm ?q (int (u64 (b ! k + ?f ! k)) + int (?g ! k)) (int (b ! k + ?f ! k) + int (?g ! k))"
          using eqm_u64 [OF qb(2), of "b ! k + ?f ! k"] by (intro eqm_add eqm_refl) (simp only: qb(1))
        then show "eqm ?q (int (u64 (b ! k + ?f ! k) + ?g ! k)) (int (b ! k) + int (?f ! k) + int (?g ! k))" by simp
      qed
      show "eqm ?q (int (u64 ((?f ! k + ?g ! k) mod ?q + b ! k) AND (?q - 1))) (int (u64 (u64 (b ! k + ?f ! k) + ?g ! k) AND (?q - 1)))"
        by (rule eqm_trans [OF L eqm_sym [OF R]])
    qed
    moreover have "map2 (\<lambda>x y. decode_word p (u64 (x + y) AND (?q - 1))) (ring_dot ?q ?d [masks ! i, other ! i] [sec_coeffs s, ?ts]) b
        = map (\<lambda>k. decode_word p (u64 ((?f ! k + ?g ! k) mod ?q + b ! k) AND (?q - 1))) [0..<?d]"
      using b by (intro nth_equalityI) (simp_all add: ring_dot_def del: One_nat_def)
    ultimately show ?thesis
      using Some a b o s by (simp add: decode_block_def two_mask_from_rows_def validate_poly_iff decrypt_two_mask_def
          block_masks_def decode_operands_def comp_def del: One_nat_def)
  qed
qed

lemma collectR_map: "collectR f (map g xs) = collectR (\<lambda>x. f (g x)) xs"
  by (induction xs) simp_all

lemma map2_concat: "list_all2 (\<lambda>x y. length x = length y) xss yss \<Longrightarrow> map2 f (concat xss) (concat yss) = concat (map2 (map2 f) xss yss)"
  by (induction rule: list_all2_induct) simp_all

lemma length_ring_dot [simp]: "length (ring_dot q d as bs) = d"
  by (simp add: ring_dot_def)

definition block_product :: "native_params \<Rightarrow> nat list list \<Rightarrow> nat list list option \<Rightarrow> nat list \<Rightarrow> nat \<Rightarrow> nat list" where
  "block_product p masks others s i =
     ring_dot (np_q p) (np_d p) (block_masks masks others i) (decode_operands (np_q p) s (others \<noteq> None))"

lemma decoder_ok:
  assumes laws: "ntt_laws eng (np_d p)" and rev: "others \<noteq> None \<Longrightarrow> ntt_reversal eng (np_d p)"
    and ctx: "new_lift_context eng (np_d p) (np_q p) = Inr ctx" and good: "good_native p"
    and s: "sec_params s = p" "small_secret p (sec_coeffs s) (int (secret_support (np_sampler p)))" and masks: "decode_masks p masks others"
  shows "\<exists>dec. new_decoder eng p masks others = Inr dec
    \<and> prepare_request eng dec s = Inr \<lparr>ds_params = p, ds_products = concat (map (block_product p masks others (sec_coeffs s)) [0..<length masks])\<rparr>"
proof -
  note G = new_lift_context_good [OF laws ctx]
  have len: "length (sec_coeffs s) = np_d p" "all_below (np_q p) (sec_coeffs s)"
    "\<And>i. i < np_d p \<Longrightarrow> \<bar>centered (sec_coeffs s ! i) (np_q p)\<bar> \<le> int (secret_support (np_sampler p))"
    using s(2) by (simp_all add: small_secret_def)
  obtain op where op: "\<And>i. i < length masks \<Longrightarrow> prepare_decode_masks eng ctx (block_masks masks others i) (secret_support (np_sampler p)) = Inr (op i)"
    using decode_masks_total [OF laws ctx good masks] by metis
  let ?dec = "\<lparr>dec_params = p, dec_lift = ctx, dec_masks = map op [0..<length masks], dec_two_mask = others \<noteq> None\<rparr>"
  have "collectR (\<lambda>i. prepare_decode_masks eng ctx (block_masks masks others i) (secret_support (np_sampler p))) [0..<length masks]
      = Inr (map op [0..<length masks])"
    using op by (intro collectR_all_Inr) simp
  then have new: "new_decoder eng p masks others = Inr ?dec"
    using masks ctx by (auto simp: new_decoder_def decode_masks_def block_masks_def split: option.splits)
  have "sum_cached eng ctx (op i) (prepare_decode_secret eng ctx (sec_coeffs s) (others \<noteq> None)) = Inr (block_product p masks others (sec_coeffs s) i)"
    if i: "i < length masks" for i
  proof -
    note V = block_masks_valid [OF masks G(2,3) i]
    have "sum_cached eng ctx (op i) (prepare_decode_secret eng ctx (sec_coeffs s) (others \<noteq> None))
        = Inr (ring_dot (lc_q ctx) (lc_d ctx) (block_masks masks others i) (decode_operands (lc_q ctx) (sec_coeffs s) (others \<noteq> None)))"
    proof (rule decode_product [OF _ _ G(1) _ V(1) _ _ _ _ op [OF i]])
      show "is_power_of_two (lc_d ctx)" using good_nativeD(3) [OF good] G(2) by simp
      show "lc_d ctx \<le> 4096" using good_nativeD(2) [OF good] G(2) by simp
    qed (use laws rev V(2) len G(2,3) in \<open>simp_all add: lift_valid_def\<close>)
    then show ?thesis using G(2,3) by (simp add: block_product_def)
  qed
  then have "collectR (\<lambda>x. sum_cached eng ctx x (prepare_decode_secret eng ctx (sec_coeffs s) (others \<noteq> None))) (map op [0..<length masks])
      = Inr (map (block_product p masks others (sec_coeffs s)) [0..<length masks])"
    unfolding collectR_map by (intro collectR_all_Inr) simp
  then have "prepare_request eng ?dec s = Inr \<lparr>ds_params = p, ds_products = concat (map (block_product p masks others (sec_coeffs s)) [0..<length masks])\<rparr>"
    using s(1) by (simp add: prepare_request_def Let_def)
  with new show ?thesis by blast
qed

lemma state_decrypt_blocks:
  assumes laws: "ntt_laws eng (np_d p)" and ctx: "new_lift_context eng (np_d p) (np_q p) = Inr ctx" and good: "good_native p"
    and s: "sec_params s = p" "length (sec_coeffs s) = np_d p" "all_below (np_q p) (sec_coeffs s)" and masks: "decode_masks p masks others"
    and b: "length bodies = length masks * np_d p" "all_below (np_q p) bodies"
  shows "state_decrypt \<lparr>ds_params = p, ds_products = concat (map (block_product p masks others (sec_coeffs s)) [0..<length masks])\<rparr> bodies
    = mapR concat (collectR (\<lambda>i. decode_block eng p s (masks ! i) (map_option (\<lambda>o'. o' ! i) others) (chunk_at (np_d p) bodies i)) [0..<length masks])"
proof -
  let ?n = "length masks" and ?P = "block_product p masks others (sec_coeffs s)" and ?f = "\<lambda>x y. decode_word p (u64 (x + y) AND (np_q p - 1))"
  let ?row = "chunk_at (np_d p) bodies"
  have all: "length (concat (map ?P [0..<?n])) = ?n * np_d p"
    by (subst length_concat_rows [of _ "np_d p"]) (auto simp: block_product_def)
  have bodies: "bodies = concat (map ?row [0..<?n])" unfolding concat_chunk_at b(1) [symmetric] by (rule map_nth [symmetric])
  have row: "length (?row i) = np_d p" "all_below (np_q p) (?row i)" if i: "i < ?n" for i
  proof -
    have "i * np_d p + r < length bodies" if "r < np_d p" for r
      unfolding b(1) using row_slot(1) [OF i that] by simp
    then show "all_below (np_q p) (?row i)" using all_below_nth [OF b(2)] by (auto simp: all_below_set in_set_conv_nth)
  qed simp
  have "collectR (\<lambda>i. decode_block eng p s (masks ! i) (map_option (\<lambda>o'. o' ! i) others) (?row i)) [0..<?n]
      = Inr (map (\<lambda>i. map2 ?f (?P i) (?row i)) [0..<?n])"
    using decode_block_ok [OF laws ctx good s masks _ row] by (intro collectR_all_Inr) (simp add: block_product_def)
  moreover have "map2 ?f (concat (map ?P [0..<?n])) bodies = concat (map (\<lambda>i. map2 ?f (?P i) (?row i)) [0..<?n])"
  proof -
    have "map2 ?f (concat (map ?P [0..<?n])) (concat (map ?row [0..<?n])) = concat (map2 (map2 ?f) (map ?P [0..<?n]) (map ?row [0..<?n]))"
      by (rule map2_concat) (simp add: list_all2_conv_all_nth block_product_def)
    then show ?thesis using bodies by (simp add: map2_map_map)
  qed
  ultimately show ?thesis
    using all b by (simp add: state_decrypt_def all_below_set list_ex_iff not_le)
qed

section \<open>Properties\<close>

text \<open>C39. Decoding with prepared public masks and a prepared secret is block-wise decryption: for canonical
  masks of either output mode the decoder is built, and on any bodies it returns what decrypting each
  block under its own rows returns; bodies of another length or outside the ring are refused. In
  two-mask mode this rests on the evaluation order of the transforms.\<close>

theorem decoder_matches_decrypt:
  assumes "ntt_laws eng (np_d p)" and "others \<noteq> None \<Longrightarrow> ntt_reversal eng (np_d p)"
    and "new_lift_context eng (np_d p) (np_q p) = Inr ctx" and "good_native p" and "sec_params s = p"
    and "small_secret p (sec_coeffs s) (int (secret_support (np_sampler p)))" and "decode_masks p masks others"
  shows "\<exists>dec. new_decoder eng p masks others = Inr dec \<and> (\<forall>bodies. decoder_decrypt eng dec s bodies =
    (if length bodies = length masks * np_d p \<and> all_below (np_q p) bodies
     then mapR concat (collectR (\<lambda>i. decode_block eng p s (masks ! i) (map_option (\<lambda>o'. o' ! i) others) (chunk_at (np_d p) bodies i)) [0..<length masks])
     else Inl (InvalidParams ''decoder body shape or range mismatch'')))"
proof -
  obtain dec where dec: "new_decoder eng p masks others = Inr dec"
    "prepare_request eng dec s = Inr \<lparr>ds_params = p, ds_products = concat (map (block_product p masks others (sec_coeffs s)) [0..<length masks])\<rparr>"
    using decoder_ok [OF assms] by blast
  have s: "length (sec_coeffs s) = np_d p" "all_below (np_q p) (sec_coeffs s)" using assms(6) by (simp_all add: small_secret_def)
  have len: "length (concat (map (block_product p masks others (sec_coeffs s)) [0..<length masks])) = length masks * np_d p"
    by (subst length_concat_rows [of _ "np_d p"]) (auto simp: block_product_def)
  have "decoder_decrypt eng dec s bodies = (if length bodies = length masks * np_d p \<and> all_below (np_q p) bodies
     then mapR concat (collectR (\<lambda>i. decode_block eng p s (masks ! i) (map_option (\<lambda>o'. o' ! i) others) (chunk_at (np_d p) bodies i)) [0..<length masks])
     else Inl (InvalidParams ''decoder body shape or range mismatch''))" for bodies
  proof (cases "length bodies = length masks * np_d p \<and> all_below (np_q p) bodies")
    case True
    then show ?thesis using state_decrypt_blocks [OF assms(1,3,4,5) s assms(7)] dec(2) by (simp add: decoder_decrypt_def)
  next
    case False
    then have "length bodies \<noteq> length masks * np_d p \<or> list_ex (\<lambda>x. x \<ge> np_q p) bodies" by (auto simp: all_below_set list_ex_iff not_less)
    then have "decoder_decrypt eng dec s bodies = Inl (InvalidParams ''decoder body shape or range mismatch'')"
      using dec(2) len by (auto simp: decoder_decrypt_def state_decrypt_def guardR_def)
    then show ?thesis using False by (simp only: if_False)
  qed
  then show ?thesis using dec(1) by blast
qed

section \<open>The hypotheses can hold\<close>

text \<open>A transform of four coefficients that pairs conjugate coordinates: the sum and the difference of
  the self-conjugate coefficients at the ends, the two swapped ones in the middle.\<close>

definition paired_to :: "nat \<Rightarrow> nat list \<Rightarrow> nat list" where
  "paired_to m p = [(p ! 0 + p ! 2) mod m, p ! 1 mod m, (m - p ! 3) mod m, (p ! 0 + (m - p ! 2)) mod m]"

definition paired_from :: "nat \<Rightarrow> nat list \<Rightarrow> nat list" where
  "paired_from m u = (let h = (m + 1) div 2 in [(u ! 0 + u ! 3) * h mod m, u ! 1 mod m, (u ! 0 + (m - u ! 3)) * h mod m, (m - u ! 2) mod m])"

definition paired_engine :: ntt_engine where
  "paired_engine = demo_engine\<lparr>to_ntt := paired_to, from_ntt := paired_from,
     ntt_multiply := \<lambda>m a b. paired_to m (schoolbook_negacyclic (paired_from m a) (paired_from m b) m)\<rparr>"

lemma canon_four: "canon m 4 [a, b, c, e] \<longleftrightarrow> 0 < m \<and> m \<le> 2 ^ 62 \<and> a < m \<and> b < m \<and> c < m \<and> e < m"
  by (auto simp: canon_def)

lemma canon_fourE:
  assumes "canon m 4 p"
  obtains a b c e where "p = [a, b, c, e]" "0 < m" "m \<le> 2 ^ 62" "a < m" "b < m" "c < m" "e < m"
proof -
  have "[0..<4] = [0, 1, 2, 3]" by code_simp
  then have "[p ! 0, p ! 1, p ! 2, p ! 3] = p" using map_nth [of p] canonD(4) [OF assms] by simp
  then show ?thesis using assms that by (metis canon_four)
qed

lemma halves:
  fixes x y m :: nat
  assumes "odd m" and y: "y < m"
  shows "((x + y) mod m + (x + (m - y)) mod m) * ((m + 1) div 2) mod m = x mod m"
    and "((x + y) mod m + (m - (x + (m - y)) mod m)) * ((m + 1) div 2) mod m = y mod m"
proof -
  define h where "h = (m + 1) div 2"
  have h: "2 * h = m + 1" using assms by (simp add: h_def)
  have m: "0 < m" using assms by (auto intro: Nat.gr0I)
  show "((x + y) mod m + (x + (m - y)) mod m) * ((m + 1) div 2) mod m = x mod m"
  proof -
    have "((x + y) mod m + (x + (m - y)) mod m) * h mod m = ((x + y) + (x + (m - y))) * h mod m"
      by (metis mod_add_eq mod_mult_left_eq)
    also have "((x + y) + (x + (m - y))) * h = x * (2 * h) + m * h" using y by (simp add: algebra_simps diff_mult_distrib2)
    also have "\<dots> mod m = x mod m" unfolding h by simp
    finally show ?thesis by (simp add: h_def)
  qed
  show "((x + y) mod m + (m - (x + (m - y)) mod m)) * ((m + 1) div 2) mod m = y mod m"
  proof (rule eqm_nat_eq)
    have "eqm m (int ((x + y) mod m + (m - (x + (m - y)) mod m))) (2 * int y)"
    proof -
      let ?w = "(x + (m - y)) mod m"
      have w: "?w \<le> m" using m by simp
      have "eqm m (int ((x + y) mod m)) (int x + int y)" using eqm_nat_mod [of m "x + y"] by simp
      moreover have "eqm m (int ?w) (int x - int y)"
      proof (rule eqm_trans [OF eqm_nat_mod])
        show "eqm m (int (x + (m - y))) (int x - int y)" using y by (simp add: eqm_def of_nat_diff)
      qed
      ultimately have "eqm m (int ((x + y) mod m) - int ?w) ((int x + int y) - (int x - int y))" by (intro eqm_diff)
      also have "(int x + int y) - (int x - int y) = 2 * int y" by simp
      finally have diff: "eqm m (int ((x + y) mod m) - int ?w) (2 * int y)" .
      have "eqm m (z + int m) z" for z by (simp add: eqm_def)
      from eqm_trans [OF this diff] show ?thesis using w by (simp add: of_nat_diff algebra_simps)
    qed
    then have "eqm m (int ((x + y) mod m + (m - (x + (m - y)) mod m)) * int h) (2 * int y * int h)" by (intro eqm_mult eqm_refl)
    moreover have "2 * int y * int h = int y + int m * int y" 
    proof -
      have "2 * int h = int m + 1" using arg_cong [OF h, of int] by simp
      then have "int y * (2 * int h) = int y * (int m + 1)" by simp
      then show ?thesis by (simp add: algebra_simps)
    qed
    moreover have "eqm m (int y + int m * int y) (int y)" by (simp add: eqm_def)
    ultimately have "eqm m (int (((x + y) mod m + (m - (x + (m - y)) mod m)) * h)) (int y)"
      unfolding of_nat_mult by (metis eqm_trans)
    then show "eqm m (int (((x + y) mod m + (m - (x + (m - y)) mod m)) * ((m + 1) div 2) mod m)) (int (y mod m))"
      unfolding h_def by (meson eqm_nat_mod eqm_sym eqm_trans)
  qed (use m in simp_all)
qed

lemma primes_odd: "m \<in> set PRIMES \<Longrightarrow> odd m"
  by (auto simp: PRIMES_def)

lemma paired_inverse:
  assumes "odd m" and "canon m 4 p"
  shows "paired_from m (paired_to m p) = p" and "canon m 4 (paired_to m p)"
proof -
  obtain a b c e where p: "p = [a, b, c, e]" "0 < m" "m \<le> 2 ^ 62" "a < m" "b < m" "c < m" "e < m" using assms(2) by (rule canon_fourE)
  have "(m - (m - e) mod m) mod m = e"
    using p by (cases "e = 0") (simp_all add: mod_if)
  then show "paired_from m (paired_to m p) = p"
    using p halves [OF assms(1) p(6), of a] by (simp add: paired_to_def paired_from_def Let_def)
  show "canon m 4 (paired_to m p)" using p by (simp add: paired_to_def canon_four)
qed

lemma paired_from_canon: "canon m 4 u \<Longrightarrow> canon m 4 (paired_from m u)"
  by (auto elim!: canon_fourE simp: paired_from_def Let_def canon_four)

lemma add_reduce_four:
  assumes "a < m" "b < m" "c < m" "e < m" "a' < m" "b' < m" "c' < m" "e' < m"
  shows "add_reduce m [a, b, c, e] [a', b', c', e'] = [(a + a') mod m, (b + b') mod m, (c + c') mod m, (e + e') mod m]"
proof -
  have red: "(if m \<le> u + w then u + w - m else u + w) = (u + w) mod m" if "u < m" "w < m" for u w
    using that by (auto simp: mod_if)
  show ?thesis by (simp add: add_reduce_def Let_def red assms)
qed

lemma paired_from_add:
  assumes "canon m 4 x" and "canon m 4 y"
  shows "paired_from m (add_reduce m x y) = add_reduce m (paired_from m x) (paired_from m y)"
proof -
  obtain a b c e where x: "x = [a, b, c, e]" "0 < m" "m \<le> 2 ^ 62" "a < m" "b < m" "c < m" "e < m" using assms(1) by (rule canon_fourE)
  obtain a' b' c' e' where y: "y = [a', b', c', e']" "a' < m" "b' < m" "c' < m" "e' < m" using assms(2) by (rule canon_fourE)
  have neg: "(m - (u + w) mod m) mod m = ((m - u) mod m + (m - w) mod m) mod m" if "u < m" "w < m" for u w
  proof (rule eqm_nat_eq)
    have "eqm m (int (m - (u + w) mod m)) (- (int u + int w))"
    proof -
      have "(u + w) mod m \<le> m" using x(2) by simp
      then have "eqm m (int (m - (u + w) mod m)) (- int ((u + w) mod m))" by (simp add: eqm_def of_nat_diff)
      moreover have "eqm m (- int ((u + w) mod m)) (- (int u + int w))" using eqm_minus [OF eqm_nat_mod [of m "u + w"]] by simp
      ultimately show ?thesis by (rule eqm_trans)
    qed
    moreover have "eqm m (int ((m - u) mod m + (m - w) mod m)) (- (int u + int w))"
    proof -
      have "eqm m (int ((m - v) mod m)) (- int v)" if "v < m" for v
      proof (rule eqm_trans [OF eqm_nat_mod])
        show "eqm m (int (m - v)) (- int v)" using that by (simp add: eqm_def of_nat_diff)
      qed
      from eqm_add [OF this [OF that(1)] this [OF that(2)]] show ?thesis by simp
    qed
    ultimately show "eqm m (int ((m - (u + w) mod m) mod m)) (int (((m - u) mod m + (m - w) mod m) mod m))"
      by (meson eqm_nat_mod eqm_sym eqm_trans)
  qed (use x(2) in simp_all)
  have neg': "(u + (m - (w + z) mod m)) mod m = (u + ((m - w) + (m - z))) mod m" if "w < m" "z < m" for u w z
    using neg [OF that] by (metis mod_add_right_eq mod_add_eq)
  have one: "((a + a') mod m + (e + e') mod m) * h mod m = ((a + e) * h mod m + (a' + e') * h mod m) mod m" for h
  proof -
    have "((a + a') mod m + (e + e') mod m) * h mod m = ((a + a') + (e + e')) * h mod m" by (metis mod_add_eq mod_mult_left_eq)
    also have "((a + a') + (e + e')) * h = (a + e) * h + (a' + e') * h" by (simp add: algebra_simps)
    finally show ?thesis by (simp only: mod_add_eq)
  qed
  have two: "((a + a') mod m + (m - (e + e') mod m)) * h mod m = ((a + (m - e)) * h mod m + (a' + (m - e')) * h mod m) mod m" for h
  proof -
    have "((a + a') mod m + (m - (e + e') mod m)) mod m = ((a + a') mod m + ((m - e) + (m - e'))) mod m"
      using neg' [OF x(7) y(5)] .
    also have "\<dots> = (a + a' + ((m - e) + (m - e'))) mod m" by (rule mod_add_left_eq)
    also have "a + a' + ((m - e) + (m - e')) = (a + (m - e)) + (a' + (m - e'))" by simp
    finally have "((a + a') mod m + (m - (e + e') mod m)) * h mod m = ((a + (m - e)) + (a' + (m - e'))) * h mod m" by (metis mod_mult_left_eq)
    also have "((a + (m - e)) + (a' + (m - e'))) * h = (a + (m - e)) * h + (a' + (m - e')) * h" by (simp add: algebra_simps)
    finally show ?thesis by (simp only: mod_add_eq)
  qed
  let ?h = "(m + 1) div 2"
  have L: "paired_from m (add_reduce m x y) = [((a + a') mod m + (e + e') mod m) * ?h mod m, (b + b') mod m,
      ((a + a') mod m + (m - (e + e') mod m)) * ?h mod m, (m - (c + c') mod m) mod m]"
    unfolding x(1) y(1) add_reduce_four [OF x(4-7) y(2-5)] by (simp add: paired_from_def Let_def del: One_nat_def)
  have R: "add_reduce m (paired_from m x) (paired_from m y) = [((a + e) * ?h mod m + (a' + e') * ?h mod m) mod m, (b + b') mod m,
      ((a + (m - e)) * ?h mod m + (a' + (m - e')) * ?h mod m) mod m, ((m - c) mod m + (m - c') mod m) mod m]"
  proof -
    have F: "paired_from m [u, v, w, z] = [(u + z) * ?h mod m, v mod m, (u + (m - z)) * ?h mod m, (m - w) mod m]" for u v w z
      by (simp add: paired_from_def Let_def del: One_nat_def)
    show ?thesis unfolding x(1) y(1) F using x(2) x(5) y(3) by (subst add_reduce_four) (simp_all del: One_nat_def)
  qed
  show ?thesis unfolding L R one two neg [OF x(6) y(4)] ..
qed

lemma paired_engine_laws: "ntt_laws paired_engine 4"
proof -
  have "canon m 4 (paired_to m (schoolbook_negacyclic (paired_from m (paired_to m a)) (paired_from m (paired_to m b)) m))
      \<and> paired_from m (paired_to m (schoolbook_negacyclic (paired_from m (paired_to m a)) (paired_from m (paired_to m b)) m)) = schoolbook_negacyclic a b m"
    if "m \<in> set PRIMES" "canon m 4 a" "canon m 4 b" for m a b
    using paired_inverse [OF primes_odd [OF that(1)]] that(2,3) schoolbook_negacyclic_nth(1) [OF that(2,3)] by simp
  then show ?thesis
    using demo_engine_laws [of 4] paired_from_canon paired_from_add unfolding ntt_laws_def by (simp add: paired_engine_def)
qed

lemma paired_reversal: "ntt_reversal paired_engine 4"
proof -
  have "rev (paired_to m p) = paired_to m (tau_coeffs p 7 m)" if m: "m \<in> set PRIMES" and p: "canon m 4 p" for m p
  proof -
    obtain a b c e where p: "p = [a, b, c, e]" "0 < m" "m \<le> 2 ^ 62" "a < m" "b < m" "c < m" "e < m" using p by (rule canon_fourE)
    have "tau_coeffs p 7 m = [a, (m - e) mod m, (m - c) mod m, (m - b) mod m]"
      using p primes_range [OF m] by (simp add: tau_coeffs_def Let_def u64_def upt_conv_Cons)
    moreover have "(m - (m - x) mod m) mod m = x" if "x < m" for x using that by (cases "x = 0") (simp_all add: mod_if)
    moreover have "(a + (m - (m - c) mod m)) mod m = (a + c) mod m" using p(6) by (cases "c = 0") (simp_all add: mod_if)
    ultimately show ?thesis using p by (simp add: paired_to_def mod_simps)
  qed
  then show ?thesis by (simp add: ntt_reversal_def paired_engine_def)
qed

lemma paired_context: "\<exists>ctx. new_lift_context paired_engine 4 1048576 = Inr ctx"
proof -
  have inv: "invert_uint_mod paired_engine = invert_uint_mod demo_engine" by (simp add: paired_engine_def)
  have "new_lift_context paired_engine 4 1048576 = new_lift_context demo_engine 4 1048576" unfolding new_lift_context_def inv ..
  then show ?thesis using demo_engine_context by simp
qed

theorem decoder_matches_decrypt_witness:
  "\<exists>dec. new_decoder paired_engine bit_params demo_masks (Some demo_masks) = Inr dec
     \<and> decoder_decrypt paired_engine dec bit_secret [0, 1, 2] = Inl (InvalidParams ''decoder body shape or range mismatch'')
     \<and> decoder_decrypt paired_engine dec bit_secret (replicate 16 7)
       = mapR concat (collectR (\<lambda>i. decode_block paired_engine bit_params bit_secret (demo_masks ! i) (Some (demo_masks ! i)) (chunk_at 4 (replicate 16 7) i)) [0..<4])"
proof -
  obtain ctx where ctx: "new_lift_context paired_engine (np_d bit_params) (np_q bit_params) = Inr ctx"
    using paired_context by (auto simp: bit_dims)
  have masks: "decode_masks bit_params demo_masks (Some demo_masks)" "length demo_masks = 4"
    using demo_masks by (auto simp: decode_masks_def lwe_masks_def bit_dims)
  have small: "small_secret bit_params (sec_coeffs bit_secret) (int (secret_support (np_sampler bit_params)))"
    using bit_small by (simp add: bit_secret(3) bit_params_def demo_params_def)
  have laws: "ntt_laws paired_engine (np_d bit_params)" "ntt_reversal paired_engine (np_d bit_params)"
    using paired_engine_laws paired_reversal by (simp_all add: bit_dims)
  show ?thesis
    using decoder_matches_decrypt [OF laws(1) _ ctx bit_good bit_secret(2) small masks(1)] laws(2) masks(2)
    by (fastforce simp: bit_dims all_below_set)
qed

end
