(* ===== verification/Native_Client.thy ===== *)
theory Native_Client
  imports Wire Native_Decoder
begin

text \<open>
  The native client protocol (\<open>ipir-native-client/src/lib.rs\<close>): validated transport profiles and their
  builders, public setups bound to profile, shape and snapshot, requests, published masks and the
  decoding of responses. SHA-256, ChaCha20 and the operating system's entropy are arguments.
\<close>

section \<open>Model: profiles\<close>

record transport_floors =
  two_mask_dithered_query :: nat
  one_mask_dithered_query :: nat
  two_mask_mask_bits :: "nat option"
  one_mask_mask_bits :: "nat option"
  two_mask_response_bits :: nat

definition default_response_bits :: "native_params \<Rightarrow> nat" where
  "default_response_bits params = min (trailing_zeros (np_p params) + 6) (trailing_zeros (np_q params))"

definition floors :: "native_params \<Rightarrow> transport_floors" where
  "floors params =
     (let gadget = (trailing_zeros (np_p params), np_bits params, np_ell params); default_response = default_response_bits params
      in if gadget = (16, 19, 2) then
           \<lparr>two_mask_dithered_query = 43, one_mask_dithered_query = 43, two_mask_mask_bits = Some 27, one_mask_mask_bits = Some 28,
            two_mask_response_bits = default_response\<rparr>
         else if gadget = (8, 19, 2) \<or> gadget = (8, 27, 1) then
           \<lparr>two_mask_dithered_query = 28, one_mask_dithered_query = 49, two_mask_mask_bits = Some 22, one_mask_mask_bits = None,
            two_mask_response_bits = 10\<rparr>
         else
           \<lparr>two_mask_dithered_query = 49, one_mask_dithered_query = 49, two_mask_mask_bits = None, one_mask_mask_bits = None,
            two_mask_response_bits = default_response\<rparr>)"

definition mask_width_allowed :: "nat \<Rightarrow> nat option \<Rightarrow> bool" where
  "mask_width_allowed bits floor \<longleftrightarrow> bits = 64 \<or> bits = 54 \<or> (case floor of None \<Rightarrow> False | Some f \<Rightarrow> f \<le> bits \<and> bits \<le> 32)"

record native_profile =
  pr_pack :: native_params
  pr_rows :: nat
  pr_cols :: nat
  pr_query_bits :: nat
  pr_response_bits :: nat
  pr_kh_bits :: nat
  pr_two_mask :: bool
  pr_mask_bits :: nat
  pr_dithered :: bool

definition full_bits :: "native_profile \<Rightarrow> nat" where
  "full_bits p = trailing_zeros (np_q (pr_pack p))"

text \<open>The inclusive range of screened mask widths.\<close>

definition public_mask_screens :: "native_profile \<Rightarrow> nat \<times> nat" where
  "public_mask_screens p =
     (let gadget = (trailing_zeros (np_p (pr_pack p)), np_bits (pr_pack p), np_ell (pr_pack p))
      in if gadget = (8, 19, 2) \<or> gadget = (8, 27, 1) then (16, 32) else (27, 32))"

definition new_profile :: "native_params \<Rightarrow> nat \<Rightarrow> nat \<Rightarrow> native_profile result" where
  "new_profile params rows cols =
     guardR (rows = 0 \<or> cols = 0 \<or> rows mod np_d params \<noteq> 0 \<or> cols mod np_d params \<noteq> 0
         \<or> (case checked_mul rows cols of None \<Rightarrow> True | Some n \<Rightarrow> \<not> n \<le> (if np_p params \<le> 256 then 2 ^ 31 else 2 ^ 30))
         \<or> np_sampler params \<noteq> Gaussian \<or> np_p params > 65536)
       (InvalidParams ''invalid native IPIR profile or database shape'')
       (Inr \<lparr>pr_pack = params, pr_rows = rows, pr_cols = cols, pr_query_bits = min 49 (trailing_zeros (np_q params)),
             pr_response_bits = default_response_bits params, pr_kh_bits = trailing_zeros (np_q params), pr_two_mask = False,
             pr_mask_bits = 64, pr_dithered = False\<rparr>)"

definition with_kh_bits :: "native_profile \<Rightarrow> nat \<Rightarrow> native_profile result" where
  "with_kh_bits p bits =
     guardR (pr_two_mask p \<and> bits \<noteq> full_bits p) (InvalidParams ''two-mask mode has no K_h precision'')
       (guardR (bits \<noteq> full_bits p \<and> \<not> (40 \<le> bits \<and> bits < full_bits p)) (InvalidParams ''Kh precision must be between 40 and log2(q)'')
         (Inr (p\<lparr>pr_kh_bits := bits\<rparr>)))"

definition with_two_mask_output :: "native_profile \<Rightarrow> native_profile result" where
  "with_two_mask_output p =
     guardR (pr_kh_bits p \<noteq> full_bits p) (InvalidParams ''two-mask mode has no K_h precision'')
       (guardR (\<not> mask_width_allowed (pr_mask_bits p) (two_mask_mask_bits (floors (pr_pack p))))
          (InvalidParams ''two-mask mode requires a certified-range or lossless mask precision'')
         (Inr (p\<lparr>pr_two_mask := True\<rparr>)))"

definition mask_floor :: "native_profile \<Rightarrow> nat option" where
  "mask_floor p = (if pr_two_mask p then two_mask_mask_bits (floors (pr_pack p)) else one_mask_mask_bits (floors (pr_pack p)))"

definition with_published_mask_bits :: "native_profile \<Rightarrow> nat \<Rightarrow> native_profile result" where
  "with_published_mask_bits p bits =
     guardR (bits \<noteq> 64 \<and> (np_q (pr_pack p) \<noteq> 2 ^ 54 \<or> \<not> mask_width_allowed bits (mask_floor p)))
       (InvalidParams ''rounded public masks require native q54 and 54 or a certified-range precision'')
       (Inr (p\<lparr>pr_mask_bits := bits\<rparr>))"

definition query_floor :: "native_profile \<Rightarrow> nat" where
  "query_floor p = (if pr_two_mask p then two_mask_dithered_query (floors (pr_pack p)) else one_mask_dithered_query (floors (pr_pack p)))"

definition with_dithered_query_bits :: "native_profile \<Rightarrow> nat \<Rightarrow> native_profile result" where
  "with_dithered_query_bits p bits =
     guardR (np_q (pr_pack p) \<noteq> 2 ^ 54 \<or> \<not> (query_floor p \<le> bits \<and> bits \<le> 49))
       (InvalidParams ''dithered queries require native q54 and a certified-range precision'')
       (Inr (p\<lparr>pr_query_bits := bits, pr_dithered := True\<rparr>))"

definition response_floor :: "native_profile \<Rightarrow> nat" where
  "response_floor p = (if pr_two_mask p then two_mask_response_bits (floors (pr_pack p)) else default_response_bits (pr_pack p))"

definition with_response_bits :: "native_profile \<Rightarrow> nat \<Rightarrow> native_profile result" where
  "with_response_bits p bits =
     guardR (\<not> (response_floor p \<le> bits \<and> bits \<le> default_response_bits (pr_pack p))
         \<or> (bits \<noteq> default_response_bits (pr_pack p) \<and> np_q (pr_pack p) \<noteq> 2 ^ 54))
       (InvalidParams ''response precision must be between the certified floor and p_bits+6'')
       (Inr (p\<lparr>pr_response_bits := bits\<rparr>))"

text \<open>Byte string literals.\<close>

definition ascii :: "string \<Rightarrow> byte list" where
  "ascii s = map of_char s"

definition request_magic :: "native_profile \<Rightarrow> byte list" where
  "request_magic p = ascii (if pr_two_mask p then ''RNQ3'' else if pr_kh_bits p = full_bits p then ''RNQ1'' else ''RNQ2'')"

section \<open>Model: setups\<close>

record native_public_setup =
  ps_profile :: native_profile
  ps_id :: "byte list"
  ps_polys :: "nat list list"
  ps_packing :: native_setup

text \<open>The hashed bytes, in the order of the updates.\<close>

definition setup_preimage :: "native_profile \<Rightarrow> byte list \<Rightarrow> byte list \<Rightarrow> byte list" where
  "setup_preimage p seed snapshot =
     ascii ''ipir-sp/native/v1/setup'' @ encoding (pr_pack p)
     @ (if request_magic p = ascii ''RNQ2'' then ascii ''/kh-transport-v2/'' @ to_le_bytes (pr_kh_bits p) else [])
     @ (if pr_two_mask p then ascii ''/two-mask-one-key-v1/'' else [])
     @ (if pr_mask_bits p \<noteq> 64 then ascii ''/rounded-public-masks-v1/'' @ to_le_bytes (pr_mask_bits p) else [])
     @ (if pr_dithered p then ascii ''/dithered-query-v1/'' else [])
     @ concat (map to_le_bytes [pr_rows p, pr_cols p, pr_query_bits p, pr_response_bits p]) @ seed @ snapshot"

definition new_public_setup :: "'g rng_env \<Rightarrow> native_profile \<Rightarrow> byte list \<Rightarrow> byte list \<Rightarrow> native_public_setup" where
  "new_public_setup env p seed snapshot =
     (let ident = sha256 env (setup_preimage p seed snapshot);
          (polys, g) = draw_polys env (np_q (pr_pack p)) (np_d (pr_pack p)) (pr_rows p div np_d (pr_pack p)) (from_seed env ident)
      in \<lparr>ps_profile = p, ps_id = ident, ps_polys = polys, ps_packing = new_setup env (pr_pack p) ident\<rparr>)"

section \<open>Model: requests\<close>

record native_request =
  rq_secret :: native_secret
  rq_profile :: native_profile
  rq_setup_id :: "byte list"
  rq_query_id :: "byte list"
  rq_bytes :: "byte list"
  rq_decoding :: "(byte list \<times> native_decoding_state) option"

definition key_payload :: "native_profile \<Rightarrow> native_keys \<Rightarrow> byte list result" where
  "key_payload p keys =
     (let words = key_words keys; half = np_ell (pr_pack p) * np_d (pr_pack p)
      in if pr_two_mask p then Inr (encode (kg_words keys) (full_bits p))
         else if request_magic p = ascii ''RNQ1'' then Inr (encode words (pr_kh_bits p))
         else mapR (\<lambda>kh. encode (take half words) (full_bits p) @ encode kh (pr_kh_bits p))
                (down (drop half words) (np_q (pr_pack p)) (pr_kh_bits p)))"

definition query_payload :: "'g rng_env \<Rightarrow> native_profile \<Rightarrow> nat list \<Rightarrow> 'g \<Rightarrow> (nat list \<times> 'g) result" where
  "query_payload env p query g =
     (if pr_dithered p then down_dithered (next_u64 env) query (np_q (pr_pack p)) (pr_query_bits p) g
      else mapR (\<lambda>ws. (ws, g)) (down query (np_q (pr_pack p)) (pr_query_bits p)))"

text \<open>Sampling the secret is the only loop that may not return (ternary coefficients are rejected).\<close>

definition generate_with_rng ::
    "ntt_engine \<Rightarrow> 'g rng_env \<Rightarrow> native_public_setup \<Rightarrow> nat \<Rightarrow> 'g \<Rightarrow> (native_request \<times> 'g) result option" where
  "generate_with_rng eng env setup target g =
     (let p = ps_profile setup
      in if target \<ge> pr_rows p then Some (Inl (InvalidParams ''target out of range''))
         else map_option (\<lambda>(secret, g1).
           bindR (if pr_two_mask p then generate_one_key eng env (ps_packing setup) secret g1
                  else generate eng env (ps_packing setup) secret g1) (\<lambda>(keys, g2).
           bindR (encrypt_selection eng env secret (ps_polys setup) target g2) (\<lambda>(query, g3).
           bindR (key_payload p keys) (\<lambda>key_bytes.
           bindR (query_payload env p query g3) (\<lambda>(sent, g4).
             let bytes = request_magic p @ ps_id setup @ key_bytes @ encode sent (pr_query_bits p)
             in Inr (\<lparr>rq_secret = secret, rq_profile = p, rq_setup_id = ps_id setup, rq_query_id = sha256 env bytes,
                      rq_bytes = bytes, rq_decoding = None\<rparr>, g4))))))
           (sample_secret env (pr_pack p) g))"

text \<open>Entropy of the operating system, when it is available, seeds the generator.\<close>

definition generate_request ::
    "ntt_engine \<Rightarrow> 'g rng_env \<Rightarrow> byte list option \<Rightarrow> native_public_setup \<Rightarrow> nat \<Rightarrow> (native_request \<times> 'g) result option" where
  "generate_request eng env entropy setup target =
     (case entropy of None \<Rightarrow> Some (Inl (InvalidParams ''OS entropy unavailable''))
      | Some seed \<Rightarrow> generate_with_rng eng env setup target (from_seed env seed))"

section \<open>Model: published masks\<close>

record native_published =
  pb_setup_id :: "byte list"
  pb_masks :: "nat list list"
  pb_other_masks :: "nat list list option"
  pb_mask_bits :: nat
  pb_q :: nat

definition mask_blocks_valid :: "native_profile \<Rightarrow> nat list list \<Rightarrow> bool" where
  "mask_blocks_valid p blocks \<longleftrightarrow> length blocks = pr_cols p div np_d (pr_pack p)
     \<and> list_all (\<lambda>block. length block = np_d (pr_pack p) \<and> list_all (\<lambda>x. x < np_q (pr_pack p)) block) blocks"

definition round_blocks :: "native_profile \<Rightarrow> nat list list \<Rightarrow> nat list list result" where
  "round_blocks p blocks =
     (if pr_mask_bits p = 64 then Inr blocks
      else collectR (\<lambda>block. bindR (down block (np_q (pr_pack p)) (pr_mask_bits p)) (\<lambda>ws. up ws (np_q (pr_pack p)) (pr_mask_bits p))) blocks)"

definition from_masks :: "native_public_setup \<Rightarrow> nat list list \<Rightarrow> nat list list option \<Rightarrow> native_published result" where
  "from_masks setup masks others =
     (let p = ps_profile setup
      in guardR (\<not> mask_blocks_valid p masks \<or> (others \<noteq> None) \<noteq> pr_two_mask p
             \<or> (case others of None \<Rightarrow> False | Some blocks \<Rightarrow> \<not> mask_blocks_valid p blocks))
           (InvalidParams ''published mask shape or coefficient mismatch'')
           (bindR (round_blocks p masks) (\<lambda>first.
            bindR (case others of None \<Rightarrow> Inr None | Some blocks \<Rightarrow> mapR Some (round_blocks p blocks)) (\<lambda>second.
              Inr \<lparr>pb_setup_id = ps_id setup, pb_masks = first, pb_other_masks = second, pb_mask_bits = pr_mask_bits p,
                   pb_q = np_q (pr_pack p)\<rparr>))))"

definition to_bytes :: "native_published \<Rightarrow> byte list result" where
  "to_bytes pb =
     (let others = (case pb_other_masks pb of None \<Rightarrow> [] | Some x \<Rightarrow> concat x)
      in if pb_mask_bits pb \<noteq> 64 then
           mapR (\<lambda>ws. ascii ''RNP3'' @ pb_setup_id pb @ encode ws (pb_mask_bits pb))
             (down (concat (pb_masks pb) @ others) (pb_q pb) (pb_mask_bits pb))
         else Inr ((if pb_other_masks pb \<noteq> None then ascii ''RNP2'' else ascii ''RNP1'') @ pb_setup_id pb
             @ concat (map to_le_bytes (concat (pb_masks pb))) @ concat (map to_le_bytes others)))"

definition from_bytes :: "native_public_setup \<Rightarrow> byte list \<Rightarrow> native_published result" where
  "from_bytes setup bytes =
     (let p = ps_profile setup; d = np_d (pr_pack p);
          count = pr_cols p * (1 + (if pr_two_mask p then 1 else 0));
          len = (if pr_mask_bits p = 64 then count * 8 else packed_len count (pr_mask_bits p));
          magic = (if pr_mask_bits p \<noteq> 64 then ascii ''RNP3'' else if pr_two_mask p then ascii ''RNP2'' else ascii ''RNP1'')
      in guardR (length bytes \<noteq> 36 + len \<or> take 4 bytes \<noteq> magic \<or> take 32 (drop 4 bytes) \<noteq> ps_id setup)
           (InvalidParams ''published mask mismatch'')
           (bindR (if pr_mask_bits p = 64 then Inr (map from_le_bytes (chunks_exact 8 (drop 36 bytes)))
                   else bindR (decode (drop 36 bytes) count (pr_mask_bits p)) (\<lambda>ws. up ws (np_q (pr_pack p)) (pr_mask_bits p))) (\<lambda>words.
            guardR (list_ex (\<lambda>x. x \<ge> np_q (pr_pack p)) words) (InvalidParams ''noncanonical published mask'')
              (Inr \<lparr>pb_setup_id = ps_id setup, pb_masks = chunks_exact d (take (pr_cols p) words),
                    pb_other_masks = (if pr_two_mask p then Some (chunks_exact d (drop (pr_cols p) words)) else None),
                    pb_mask_bits = pr_mask_bits p, pb_q = np_q (pr_pack p)\<rparr>))))"

record native_prepared_published =
  pp_setup_id :: "byte list"
  pp_profile :: native_profile
  pp_decoder :: native_decoder
  pp_mask_digest :: "byte list"

definition prepare_published :: "ntt_engine \<Rightarrow> 'g rng_env \<Rightarrow> native_published \<Rightarrow> native_public_setup \<Rightarrow> native_prepared_published result" where
  "prepare_published eng env pb setup =
     (let p = ps_profile setup
      in guardR (pb_setup_id pb \<noteq> ps_id setup \<or> length (pb_masks pb) \<noteq> pr_cols p div np_d (pr_pack p)
             \<or> (pb_other_masks pb \<noteq> None) \<noteq> pr_two_mask p \<or> pb_mask_bits pb \<noteq> pr_mask_bits p \<or> pb_q pb \<noteq> np_q (pr_pack p))
           (InvalidParams ''published setup mismatch'')
           (bindR (to_bytes pb) (\<lambda>bytes.
            bindR (new_decoder eng (pr_pack p) (pb_masks pb) (pb_other_masks pb)) (\<lambda>dec.
              Inr \<lparr>pp_setup_id = pb_setup_id pb, pp_profile = p, pp_decoder = dec, pp_mask_digest = sha256 env bytes\<rparr>))))"

definition prepared_bytes :: "native_prepared_published \<Rightarrow> nat" where
  "prepared_bytes pp = decoder_bytes (pp_decoder pp)"

section \<open>Model: decoding\<close>

definition response_magic :: "native_profile \<Rightarrow> byte list" where
  "response_magic p = ascii (if pr_two_mask p then ''RNR2'' else ''RNR1'')"

definition response_mismatch :: "native_request \<Rightarrow> byte list \<Rightarrow> bool" where
  "response_mismatch rq response \<longleftrightarrow>
     (let p = rq_profile rq
      in length response \<noteq> 68 + packed_len (pr_cols p) (pr_response_bits p) \<or> take 4 response \<noteq> response_magic p
        \<or> take 32 (drop 4 response) \<noteq> rq_setup_id rq \<or> take 32 (drop 36 response) \<noteq> rq_query_id rq)"

definition response_bodies :: "native_profile \<Rightarrow> byte list \<Rightarrow> nat list result" where
  "response_bodies p response =
     bindR (decode (drop 68 response) (pr_cols p) (pr_response_bits p)) (\<lambda>ws. up ws (np_q (pr_pack p)) (pr_response_bits p))"

text \<open>One block with its phase error against the expected plaintexts, when they are given.\<close>

definition decode_block_error ::
    "ntt_engine \<Rightarrow> native_params \<Rightarrow> native_secret \<Rightarrow> nat list \<Rightarrow> nat list option \<Rightarrow> nat list \<Rightarrow> nat list option \<Rightarrow> (nat list \<times> nat) result" where
  "decode_block_error eng p s a other block expected =
     (case other of
        None \<Rightarrow>
          bindR (ciphertext_from_rows p a block) (\<lambda>ct. bindR (decrypt eng s ct) (\<lambda>w.
            case expected of None \<Rightarrow> Inr (w, 0) | Some m \<Rightarrow> mapR (\<lambda>e. (w, e)) (phase_error eng s ct m)))
      | Some o' \<Rightarrow>
          bindR (two_mask_from_rows p a o' block) (\<lambda>ct. bindR (decrypt_two_mask eng s ct) (\<lambda>w.
            case expected of None \<Rightarrow> Inr (w, 0) | Some m \<Rightarrow> mapR (\<lambda>e. (w, e)) (phase_error_two_mask eng s ct m))))"

definition decode_inner ::
    "ntt_engine \<Rightarrow> native_request \<Rightarrow> native_published \<Rightarrow> byte list \<Rightarrow> nat list option \<Rightarrow> (nat list \<times> nat) result" where
  "decode_inner eng rq pb response expected =
     (let p = rq_profile rq; d = np_d (pr_pack p)
      in guardR (pb_setup_id pb \<noteq> rq_setup_id rq \<or> length (pb_masks pb) \<noteq> pr_cols p div d \<or> (pb_other_masks pb \<noteq> None) \<noteq> pr_two_mask p
             \<or> (case pb_other_masks pb of None \<Rightarrow> False | Some x \<Rightarrow> length x \<noteq> pr_cols p div d) \<or> response_mismatch rq response)
           (InvalidParams ''response/setup/request binding mismatch'')
           (bindR (response_bodies p response) (\<lambda>b.
              mapR (\<lambda>rs. (concat (map fst rs), fold max (map snd rs) 0))
                (collectR (\<lambda>(i, block). decode_block_error eng (pr_pack p) (rq_secret rq) (pb_masks pb ! i)
                     (map_option (\<lambda>o'. o' ! i) (pb_other_masks pb)) block (map_option (\<lambda>e. take d (drop (i * d) e)) expected))
                   (enumerate 0 (chunks_exact d b))))))"

definition decode_response :: "ntt_engine \<Rightarrow> native_request \<Rightarrow> native_published \<Rightarrow> byte list \<Rightarrow> nat list result" where
  "decode_response eng rq pb response = mapR fst (decode_inner eng rq pb response None)"

definition decode_with_error ::
    "ntt_engine \<Rightarrow> native_request \<Rightarrow> native_published \<Rightarrow> byte list \<Rightarrow> nat list \<Rightarrow> (nat list \<times> nat) result" where
  "decode_with_error eng rq pb response expected =
     guardR (length expected \<noteq> pr_cols (rq_profile rq) \<or> list_ex (\<lambda>x. x \<ge> np_p (pr_pack (rq_profile rq))) expected)
       (InvalidParams ''invalid expected row'') (decode_inner eng rq pb response (Some expected))"

definition prepare_decode :: "ntt_engine \<Rightarrow> native_request \<Rightarrow> native_prepared_published \<Rightarrow> native_request result" where
  "prepare_decode eng rq pp =
     guardR (pp_setup_id pp \<noteq> rq_setup_id rq \<or> pp_profile pp \<noteq> rq_profile rq) (InvalidParams ''prepared setup/profile mismatch'')
       (mapR (\<lambda>st. rq\<lparr>rq_decoding := Some (pp_mask_digest pp, st)\<rparr>) (prepare_request eng (pp_decoder pp) (rq_secret rq)))"

definition decode_prepared :: "ntt_engine \<Rightarrow> native_request \<Rightarrow> native_prepared_published \<Rightarrow> byte list \<Rightarrow> nat list result" where
  "decode_prepared eng rq pp response =
     guardR (pp_setup_id pp \<noteq> rq_setup_id rq \<or> pp_profile pp \<noteq> rq_profile rq \<or> response_mismatch rq response)
       (InvalidParams ''prepared response/setup/request binding mismatch'')
       (bindR (response_bodies (rq_profile rq) response) (\<lambda>bodies.
          case rq_decoding rq of
            Some (digest, st) \<Rightarrow>
              guardR (digest \<noteq> pp_mask_digest pp) (InvalidParams ''prepared mask digest mismatch'') (state_decrypt st bodies)
          | None \<Rightarrow> decoder_decrypt eng (pp_decoder pp) (rq_secret rq) bodies))"

section \<open>Profiles\<close>

text \<open>The profiles a client can hold: those made by the constructor and any sequence of builders.\<close>

inductive client_profile :: "ntt_engine \<Rightarrow> native_profile \<Rightarrow> bool" for eng where
  created: "new_native_params eng d q_bits p_bits bits ell sampler = Inr params \<Longrightarrow> new_profile params rows cols = Inr p \<Longrightarrow> client_profile eng p"
| kh: "client_profile eng p \<Longrightarrow> with_kh_bits p bits = Inr p' \<Longrightarrow> client_profile eng p'"
| two_mask: "client_profile eng p \<Longrightarrow> with_two_mask_output p = Inr p' \<Longrightarrow> client_profile eng p'"
| mask_bits: "client_profile eng p \<Longrightarrow> with_published_mask_bits p bits = Inr p' \<Longrightarrow> client_profile eng p'"
| dithered: "client_profile eng p \<Longrightarrow> with_dithered_query_bits p bits = Inr p' \<Longrightarrow> client_profile eng p'"
| response: "client_profile eng p \<Longrightarrow> with_response_bits p bits = Inr p' \<Longrightarrow> client_profile eng p'"

definition shape_ok :: "native_profile \<Rightarrow> bool" where
  "shape_ok p \<longleftrightarrow> good_native (pr_pack p) \<and> np_sampler (pr_pack p) = Gaussian \<and> np_p (pr_pack p) \<le> 65536
     \<and> 0 < pr_rows p \<and> 0 < pr_cols p \<and> np_d (pr_pack p) dvd pr_rows p \<and> np_d (pr_pack p) dvd pr_cols p
     \<and> pr_rows p * pr_cols p \<le> (if np_p (pr_pack p) \<le> 256 then 2 ^ 31 else 2 ^ 30)"

definition widths_ok :: "native_profile \<Rightarrow> bool" where
  "widths_ok p \<longleftrightarrow>
     (if pr_dithered p then np_q (pr_pack p) = 2 ^ 54 \<and> query_floor p \<le> pr_query_bits p \<and> pr_query_bits p \<le> 49
      else pr_query_bits p = min 49 (full_bits p))
     \<and> response_floor p \<le> pr_response_bits p \<and> pr_response_bits p \<le> default_response_bits (pr_pack p)
     \<and> (pr_kh_bits p = full_bits p \<or> (40 \<le> pr_kh_bits p \<and> pr_kh_bits p < full_bits p \<and> \<not> pr_two_mask p))
     \<and> (pr_mask_bits p = 64 \<or> (np_q (pr_pack p) = 2 ^ 54 \<and> mask_width_allowed (pr_mask_bits p) (mask_floor p)))"

lemma good_widths:
  assumes "good_native params"
  obtains k l where "np_q params = 2 ^ k" "16 \<le> k" "k \<le> 56" "np_p params = 2 ^ l" "0 < l" "l < k"
    "trailing_zeros (np_q params) = k" "trailing_zeros (np_p params) = l"
proof -
  obtain k l where h: "np_q params = 2 ^ k" "16 \<le> k" "k \<le> 56" "np_p params = 2 ^ l" "0 < l" "l < k"
    using assms by (auto simp: good_native_def)
  moreover have "k < 64" "l < 64" using h by simp_all
  ultimately show ?thesis using that by simp
qed

text \<open>Two-mask output only lowers the floors.\<close>

lemma floors_monotone:
  assumes "good_native params"
  shows "two_mask_dithered_query (floors params) \<le> one_mask_dithered_query (floors params)"
    and "two_mask_response_bits (floors params) \<le> default_response_bits params"
    and "mask_width_allowed bits (one_mask_mask_bits (floors params)) \<Longrightarrow> mask_width_allowed bits (two_mask_mask_bits (floors params))"
    and "28 \<le> two_mask_dithered_query (floors params)" and "trailing_zeros (np_p params) < two_mask_response_bits (floors params)"
    and "trailing_zeros (np_p params) < default_response_bits params"
proof -
  obtain k l where h: "16 \<le> k" "l < k" "trailing_zeros (np_q params) = k" "trailing_zeros (np_p params) = l" "0 < l"
    using good_widths [OF assms] by metis
  show "trailing_zeros (np_p params) < default_response_bits params" using h by (simp add: default_response_bits_def)
  then show "trailing_zeros (np_p params) < two_mask_response_bits (floors params)" using h by (auto simp: floors_def Let_def)
  show "two_mask_dithered_query (floors params) \<le> one_mask_dithered_query (floors params)"
    "two_mask_response_bits (floors params) \<le> default_response_bits params" "28 \<le> two_mask_dithered_query (floors params)"
    using h by (auto simp: floors_def Let_def default_response_bits_def)
  show "mask_width_allowed bits (one_mask_mask_bits (floors params)) \<Longrightarrow> mask_width_allowed bits (two_mask_mask_bits (floors params))"
    by (auto simp: floors_def Let_def mask_width_allowed_def split: if_splits)
qed

lemma new_profile_ok: "good_native params \<Longrightarrow> new_profile params rows cols = Inr p \<Longrightarrow> shape_ok p \<and> widths_ok p"
  by (auto simp: new_profile_def shape_ok_def widths_ok_def full_bits_def checked_mul_def response_floor_def mod_eq_0_iff_dvd
      split: option.splits if_splits)

lemma shape_update [simp]:
  "shape_ok (p\<lparr>pr_kh_bits := b\<rparr>) = shape_ok p" "shape_ok (p\<lparr>pr_two_mask := t\<rparr>) = shape_ok p" "shape_ok (p\<lparr>pr_mask_bits := b\<rparr>) = shape_ok p"
  "shape_ok (p\<lparr>pr_query_bits := b, pr_dithered := t\<rparr>) = shape_ok p" "shape_ok (p\<lparr>pr_response_bits := b\<rparr>) = shape_ok p"
  by (simp_all add: shape_ok_def)

lemma floors_update [simp]:
  "full_bits (p\<lparr>pr_kh_bits := b\<rparr>) = full_bits p" "full_bits (p\<lparr>pr_mask_bits := b\<rparr>) = full_bits p"
  "full_bits (p\<lparr>pr_query_bits := b, pr_dithered := t\<rparr>) = full_bits p" "full_bits (p\<lparr>pr_response_bits := b\<rparr>) = full_bits p"
  "query_floor (p\<lparr>pr_kh_bits := b\<rparr>) = query_floor p" "query_floor (p\<lparr>pr_mask_bits := b\<rparr>) = query_floor p"
  "query_floor (p\<lparr>pr_query_bits := b, pr_dithered := t\<rparr>) = query_floor p" "query_floor (p\<lparr>pr_response_bits := b\<rparr>) = query_floor p"
  "response_floor (p\<lparr>pr_kh_bits := b\<rparr>) = response_floor p" "response_floor (p\<lparr>pr_mask_bits := b\<rparr>) = response_floor p"
  "response_floor (p\<lparr>pr_query_bits := b, pr_dithered := t\<rparr>) = response_floor p" "response_floor (p\<lparr>pr_response_bits := b\<rparr>) = response_floor p"
  "mask_floor (p\<lparr>pr_kh_bits := b\<rparr>) = mask_floor p" "mask_floor (p\<lparr>pr_mask_bits := b\<rparr>) = mask_floor p"
  "mask_floor (p\<lparr>pr_query_bits := b, pr_dithered := t\<rparr>) = mask_floor p" "mask_floor (p\<lparr>pr_response_bits := b\<rparr>) = mask_floor p"
  by (simp_all add: full_bits_def query_floor_def response_floor_def mask_floor_def)

lemma widths_update:
  assumes "widths_ok p"
  shows "bits = full_bits p \<or> (40 \<le> bits \<and> bits < full_bits p \<and> \<not> pr_two_mask p) \<Longrightarrow> widths_ok (p\<lparr>pr_kh_bits := bits\<rparr>)"
    and "bits = 64 \<or> (np_q (pr_pack p) = 2 ^ 54 \<and> mask_width_allowed bits (mask_floor p)) \<Longrightarrow> widths_ok (p\<lparr>pr_mask_bits := bits\<rparr>)"
    and "np_q (pr_pack p) = 2 ^ 54 \<Longrightarrow> query_floor p \<le> bits \<Longrightarrow> bits \<le> 49 \<Longrightarrow> widths_ok (p\<lparr>pr_query_bits := bits, pr_dithered := True\<rparr>)"
    and "response_floor p \<le> bits \<Longrightarrow> bits \<le> default_response_bits (pr_pack p) \<Longrightarrow> widths_ok (p\<lparr>pr_response_bits := bits\<rparr>)"
  using assms by (simp_all add: widths_ok_def)

lemma widths_two_mask:
  assumes good: "good_native (pr_pack p)" and p: "widths_ok p" and kh: "pr_kh_bits p = full_bits p"
    and masks: "mask_width_allowed (pr_mask_bits p) (two_mask_mask_bits (floors (pr_pack p)))"
  shows "widths_ok (p\<lparr>pr_two_mask := True\<rparr>)"
proof -
  note M = floors_monotone [OF good]
  have "two_mask_dithered_query (floors (pr_pack p)) \<le> pr_query_bits p" if "pr_dithered p"
    using p M(1) that by (auto simp: widths_ok_def query_floor_def split: if_splits)
  moreover have "two_mask_response_bits (floors (pr_pack p)) \<le> pr_response_bits p"
    using p M(2) by (auto simp: widths_ok_def response_floor_def split: if_splits)
  moreover have "pr_mask_bits p = 64 \<or> np_q (pr_pack p) = 2 ^ 54" using p by (auto simp: widths_ok_def)
  ultimately show ?thesis
    using p kh masks by (simp add: widths_ok_def full_bits_def query_floor_def response_floor_def mask_floor_def)
qed

lemma client_profile_shape:
  assumes "client_profile eng p"
  shows "shape_ok p" and "widths_ok p" and "\<exists>ctx. new_lift_context eng (np_d (pr_pack p)) (np_q (pr_pack p)) = Inr ctx"
proof -
  have "shape_ok p \<and> widths_ok p \<and> (\<exists>ctx. new_lift_context eng (np_d (pr_pack p)) (np_q (pr_pack p)) = Inr ctx)"
    using assms
  proof (induction rule: client_profile.induct)
    case (created d q_bits p_bits bits ell sampler params rows cols p)
    have "pr_pack p = params" using created(2) by (auto simp: new_profile_def)
    then show ?case using new_profile_ok [OF new_native_params_good(1) [OF created(1)] created(2)] new_native_params_good(2) [OF created(1)] by simp
  next
    case (kh p bits p')
    then have "p' = p\<lparr>pr_kh_bits := bits\<rparr>" "bits = full_bits p \<or> (40 \<le> bits \<and> bits < full_bits p \<and> \<not> pr_two_mask p)"
      by (auto simp: with_kh_bits_def)
    then show ?case using kh.IH widths_update(1) by simp
  next
    case (two_mask p p')
    then have "p' = p\<lparr>pr_two_mask := True\<rparr>" "pr_kh_bits p = full_bits p"
      "mask_width_allowed (pr_mask_bits p) (two_mask_mask_bits (floors (pr_pack p)))"
      by (auto simp: with_two_mask_output_def)
    then show ?case using two_mask.IH widths_two_mask by (simp add: shape_ok_def)
  next
    case (mask_bits p bits p')
    then have "p' = p\<lparr>pr_mask_bits := bits\<rparr>" "bits = 64 \<or> (np_q (pr_pack p) = 2 ^ 54 \<and> mask_width_allowed bits (mask_floor p))"
      by (auto simp: with_published_mask_bits_def)
    then show ?case using mask_bits.IH widths_update(2) by simp
  next
    case (dithered p bits p')
    then have "p' = p\<lparr>pr_query_bits := bits, pr_dithered := True\<rparr>" "np_q (pr_pack p) = 2 ^ 54" "query_floor p \<le> bits" "bits \<le> 49"
      by (auto simp: with_dithered_query_bits_def)
    then show ?case using dithered.IH widths_update(3) by simp
  next
    case (response p bits p')
    then have "p' = p\<lparr>pr_response_bits := bits\<rparr>" "response_floor p \<le> bits" "bits \<le> default_response_bits (pr_pack p)"
      by (auto simp: with_response_bits_def)
    then show ?case using response.IH widths_update(4) by simp
  qed
  then show "shape_ok p" "widths_ok p" "\<exists>ctx. new_lift_context eng (np_d (pr_pack p)) (np_q (pr_pack p)) = Inr ctx" by blast+
qed

text \<open>The widths are usable: every codec and rounding of the protocol is inside its limits.\<close>

lemma usable_widths:
  assumes "shape_ok p" and "widths_ok p"
  obtains k l where "np_q (pr_pack p) = 2 ^ k" "16 \<le> k" "k \<le> 56" "full_bits p = k" "np_p (pr_pack p) = 2 ^ l" "0 < l" "l < k"
    "l < pr_response_bits p" "pr_response_bits p \<le> k" "1 \<le> pr_query_bits p" "pr_query_bits p \<le> k" "1 \<le> pr_kh_bits p" "pr_kh_bits p \<le> k"
    "pr_mask_bits p = 64 \<or> (1 \<le> pr_mask_bits p \<and> pr_mask_bits p \<le> k)" "pr_two_mask p \<Longrightarrow> pr_kh_bits p = k"
proof -
  have good: "good_native (pr_pack p)" using assms(1) by (simp add: shape_ok_def)
  obtain k l where h: "np_q (pr_pack p) = 2 ^ k" "16 \<le> k" "k \<le> 56" "np_p (pr_pack p) = 2 ^ l" "0 < l" "l < k"
    "trailing_zeros (np_q (pr_pack p)) = k" "trailing_zeros (np_p (pr_pack p)) = l"
    using good by (rule good_widths)
  note M = floors_monotone [OF good]
  have full: "full_bits p = k" using h by (simp add: full_bits_def)
  have k54: "k = 54" if "np_q (pr_pack p) = 2 ^ 54" using that h(1) power_inject_exp [of "2::nat" k 54] by simp
  have "l < pr_response_bits p" "pr_response_bits p \<le> k"
    using assms(2) M(5,6) h(7,8) by (auto simp: widths_ok_def response_floor_def default_response_bits_def split: if_splits)
  moreover have "1 \<le> pr_query_bits p" "pr_query_bits p \<le> k"
    using assms(2) M(1,4) h(2) full k54 by (auto simp: widths_ok_def query_floor_def split: if_splits)
  moreover have "1 \<le> pr_kh_bits p" "pr_kh_bits p \<le> k" "pr_two_mask p \<Longrightarrow> pr_kh_bits p = k"
    using assms(2) full h(2) by (auto simp: widths_ok_def)
  moreover have "pr_mask_bits p = 64 \<or> (1 \<le> pr_mask_bits p \<and> pr_mask_bits p \<le> k)"
    using assms(2) k54 by (auto simp: widths_ok_def mask_width_allowed_def mask_floor_def floors_def Let_def split: if_splits)
  ultimately show ?thesis using that h full by blast
qed

section \<open>Setup identifiers\<close>

lemma length_ascii [simp]: "length (ascii s) = length s"
  by (simp add: ascii_def)

lemma length_encoding [simp]: "length (encoding p) = 90"
  by (simp add: encoding_def profile_tag_def)

lemma request_magic_simps:
  "request_magic p = ascii ''RNQ1'' \<longleftrightarrow> \<not> pr_two_mask p \<and> pr_kh_bits p = full_bits p"
  "request_magic p = ascii ''RNQ2'' \<longleftrightarrow> \<not> pr_two_mask p \<and> pr_kh_bits p \<noteq> full_bits p"
  "length (request_magic p) = 4" "length (response_magic p) = 4"
  by (simp_all add: request_magic_def response_magic_def ascii_def)

lemma append_tails: "xs @ t = ys @ u \<Longrightarrow> length t = length u \<Longrightarrow> xs = ys \<and> t = u"
  by (simp add: append_eq_append_conv)

text \<open>The optional parts have pairwise different total lengths.\<close>

definition transport_tags :: "native_profile \<Rightarrow> byte list" where
  "transport_tags p =
     (if request_magic p = ascii ''RNQ2'' then ascii ''/kh-transport-v2/'' @ to_le_bytes (pr_kh_bits p) else [])
     @ (if pr_two_mask p then ascii ''/two-mask-one-key-v1/'' else [])
     @ (if pr_mask_bits p \<noteq> 64 then ascii ''/rounded-public-masks-v1/'' @ to_le_bytes (pr_mask_bits p) else [])
     @ (if pr_dithered p then ascii ''/dithered-query-v1/'' else [])"

lemma transport_tags_flags:
  assumes "length (transport_tags p) = length (transport_tags p')"
  shows "(request_magic p = ascii ''RNQ2'') = (request_magic p' = ascii ''RNQ2'')" "pr_two_mask p = pr_two_mask p'"
    "(pr_mask_bits p = 64) = (pr_mask_bits p' = 64)" "pr_dithered p = pr_dithered p'"
proof -
  have "length (transport_tags p) = (if request_magic p = ascii ''RNQ2'' then 25 else 0) + (if pr_two_mask p then 21 else 0)
      + (if pr_mask_bits p = 64 then 0 else 33) + (if pr_dithered p then 19 else 0)" for p
    by (simp add: transport_tags_def)
  note L = this [of p] this [of p']
  show "(request_magic p = ascii ''RNQ2'') = (request_magic p' = ascii ''RNQ2'')" "pr_two_mask p = pr_two_mask p'"
    "(pr_mask_bits p = 64) = (pr_mask_bits p' = 64)" "pr_dithered p = pr_dithered p'"
    using assms unfolding L by (auto split: if_splits)
qed

lemma transport_tags_values:
  assumes "transport_tags p = transport_tags p'" and small: "pr_kh_bits p < 2 ^ 64" "pr_kh_bits p' < 2 ^ 64" "pr_mask_bits p < 2 ^ 64" "pr_mask_bits p' < 2 ^ 64"
  shows "pr_mask_bits p = pr_mask_bits p'" and "request_magic p = ascii ''RNQ2'' \<Longrightarrow> pr_kh_bits p = pr_kh_bits p'"
proof -
  note F = transport_tags_flags [OF arg_cong [OF assms(1), of length]]
  note T = assms(1) [unfolded transport_tags_def F append_assoc]
  show "pr_mask_bits p = pr_mask_bits p'"
  proof (cases "pr_mask_bits p' = 64")
    case False
    then have "to_le_bytes (pr_mask_bits p) = to_le_bytes (pr_mask_bits p')"
      using T by (cases "request_magic p' = ascii ''RNQ2''"; cases "pr_two_mask p'") (simp_all add: append_eq_append_conv)
    then show ?thesis using small(3,4) by (rule to_le_bytes_inj)
  qed (use F in simp)
  assume "request_magic p = ascii ''RNQ2''"
  then have "to_le_bytes (pr_kh_bits p) = to_le_bytes (pr_kh_bits p')" using T F(1) by (simp add: append_eq_append_conv)
  then show "pr_kh_bits p = pr_kh_bits p'" using small(1,2) by (rule to_le_bytes_inj)
qed

lemma small_widths:
  assumes "shape_ok p" and "widths_ok p"
  shows "pr_kh_bits p < 2 ^ 64" "pr_mask_bits p < 2 ^ 64" "pr_query_bits p < 2 ^ 64" "pr_response_bits p < 2 ^ 64" "pr_rows p < 2 ^ 64" "pr_cols p < 2 ^ 64"
proof -
  obtain k where k: "k \<le> 56" "pr_response_bits p \<le> k" "pr_query_bits p \<le> k" "pr_kh_bits p \<le> k" "pr_mask_bits p = 64 \<or> pr_mask_bits p \<le> k"
    using usable_widths [OF assms] by metis
  then show "pr_kh_bits p < 2 ^ 64" "pr_mask_bits p < 2 ^ 64" "pr_query_bits p < 2 ^ 64" "pr_response_bits p < 2 ^ 64" by auto
  have "pr_rows p * pr_cols p \<le> 2 ^ 31" using assms(1) by (auto simp: shape_ok_def split: if_splits)
  moreover have "pr_rows p \<le> pr_rows p * pr_cols p" "pr_cols p \<le> pr_rows p * pr_cols p"
    using assms(1) by (simp_all add: shape_ok_def)
  ultimately have "pr_rows p \<le> 2 ^ 31" "pr_cols p \<le> 2 ^ 31" by (blast intro: le_trans)+
  then show "pr_rows p < 2 ^ 64" "pr_cols p < 2 ^ 64" by simp_all
qed

section \<open>Properties\<close>

text \<open>C8. Profiles are well-formed whatever the order of the builders: from the constructor and any sequence of
  accepted builder calls, the database shape and the pack profile stay valid, every width stays inside
  the floors of the mode, and every width is one the codecs and the rounding support.\<close>

theorem client_profiles_well_formed:
  assumes "client_profile eng p"
  shows "shape_ok p \<and> widths_ok p
    \<and> 2 * np_p (pr_pack p) \<le> 2 ^ pr_response_bits p \<and> 2 ^ pr_response_bits p \<le> np_q (pr_pack p)
    \<and> 1 \<le> pr_query_bits p \<and> 2 ^ pr_query_bits p \<le> np_q (pr_pack p) \<and> 1 \<le> pr_kh_bits p \<and> 2 ^ pr_kh_bits p \<le> np_q (pr_pack p)
    \<and> (pr_mask_bits p = 64 \<or> 1 \<le> pr_mask_bits p \<and> 2 ^ pr_mask_bits p \<le> np_q (pr_pack p))"
proof -
  note S = client_profile_shape [OF assms]
  obtain k l where k: "np_q (pr_pack p) = 2 ^ k" "np_p (pr_pack p) = 2 ^ l" "l < pr_response_bits p" "pr_response_bits p \<le> k"
    "1 \<le> pr_query_bits p" "pr_query_bits p \<le> k" "1 \<le> pr_kh_bits p" "pr_kh_bits p \<le> k"
    "pr_mask_bits p = 64 \<or> (1 \<le> pr_mask_bits p \<and> pr_mask_bits p \<le> k)"
    by (rule usable_widths [OF S(1,2)])
  have "(2::nat) ^ Suc l \<le> 2 ^ pr_response_bits p" using k(3) by (intro power_increasing) simp_all
  then show ?thesis using S(1,2) k by simp
qed

text \<open>C7. The bytes hashed into a setup identifier determine everything they bind: two profiles of clients, with
  seeds and snapshot identifiers of 32 bytes, give the same bytes only when profile, seed and snapshot
  are the same, although the transport tags are optional and carry no lengths.\<close>

theorem setup_binding:
  assumes "client_profile eng p" and "client_profile eng' p'"
    and "length seed = 32" "length snapshot = 32" "length seed' = 32" "length snapshot' = 32"
  shows "setup_preimage p seed snapshot = setup_preimage p' seed' snapshot' \<longleftrightarrow> p = p' \<and> seed = seed' \<and> snapshot = snapshot'"
proof (rule iffI)
  note S = client_profile_shape [OF assms(1)] and S' = client_profile_shape [OF assms(2)]
  note small = small_widths [OF S(1,2)] and small' = small_widths [OF S'(1,2)]
  let ?words = "\<lambda>p. to_le_bytes (pr_rows p) @ to_le_bytes (pr_cols p) @ to_le_bytes (pr_query_bits p) @ to_le_bytes (pr_response_bits p)"
  have shape: "setup_preimage p seed snapshot = ascii ''ipir-sp/native/v1/setup'' @ encoding (pr_pack p) @ transport_tags p @ ?words p @ seed @ snapshot" for p seed snapshot
    unfolding setup_preimage_def transport_tags_def by simp
  assume "setup_preimage p seed snapshot = setup_preimage p' seed' snapshot'"
  then have enc: "encoding (pr_pack p) = encoding (pr_pack p')"
    and rest: "transport_tags p @ ?words p @ seed @ snapshot = transport_tags p' @ ?words p' @ seed' @ snapshot'"
    unfolding shape by (simp_all only: append_eq_append_conv length_encoding simp_thms)
  have "length (?words p @ seed @ snapshot) = length (?words p' @ seed' @ snapshot')" using assms by simp
  then have tags: "transport_tags p = transport_tags p'" and tail: "?words p @ seed @ snapshot = ?words p' @ seed' @ snapshot'"
    using append_tails [OF rest] by blast+
  have "to_le_bytes (pr_rows p) = to_le_bytes (pr_rows p')" "to_le_bytes (pr_cols p) = to_le_bytes (pr_cols p')"
    "to_le_bytes (pr_query_bits p) = to_le_bytes (pr_query_bits p')" "to_le_bytes (pr_response_bits p) = to_le_bytes (pr_response_bits p')"
    and bytes: "seed = seed'" "snapshot = snapshot'"
    using tail unfolding append_assoc by (simp_all only: append_eq_append_conv length_to_le_bytes assms(3-6) simp_thms)
  then have words: "pr_rows p = pr_rows p'" "pr_cols p = pr_cols p'" "pr_query_bits p = pr_query_bits p'" "pr_response_bits p = pr_response_bits p'"
    using small small' to_le_bytes_inj by blast+
  have params: "pr_pack p = pr_pack p'" using S(1) S'(1) enc by (intro encoding_inj) (simp_all add: shape_ok_def)
  note F = transport_tags_flags [OF arg_cong [OF tags, of length]]
  note V = transport_tags_values [OF tags small(1) small'(1) small(2) small'(2)]
  have "pr_kh_bits p = pr_kh_bits p'"
  proof (cases "request_magic p = ascii ''RNQ2''")
    case False
    then have "request_magic p' \<noteq> ascii ''RNQ2''" using F(1) by simp
    with False have "pr_kh_bits p = full_bits p" "pr_kh_bits p' = full_bits p'"
      using S(2) S'(2) unfolding request_magic_simps widths_ok_def by auto
    then show ?thesis using params by (simp add: full_bits_def)
  qed (rule V(2))
  then have "p = p'" using words params F(2,4) V(1) by (intro native_profile.equality) simp_all
  then show "p = p' \<and> seed = seed' \<and> snapshot = snapshot'" using bytes by simp
qed simp

section \<open>The hypotheses can hold\<close>

text \<open>A client profile of degree four: one-bit plaintexts, a 20-bit ring, four rows and four columns.\<close>

definition gauss_params :: native_params where
  "gauss_params = \<lparr>np_d = 4, np_q = 2 ^ 20, np_p = 2 ^ 1, np_bits = 6, np_ell = 3, np_dropped = 2, np_sampler = Gaussian\<rparr>"

definition small_profile :: native_profile where
  "small_profile = \<lparr>pr_pack = gauss_params, pr_rows = 4, pr_cols = 4, pr_query_bits = 20, pr_response_bits = 7, pr_kh_bits = 20,
     pr_two_mask = False, pr_mask_bits = 64, pr_dithered = False\<rparr>"

lemma small_zeros: "trailing_zeros (np_q gauss_params) = 20" "trailing_zeros (np_p gauss_params) = 1"
proof -
  have "trailing_zeros (2 ^ 20) = 20" "trailing_zeros (2 ^ 1) = 1" by (rule trailing_zeros_exp; simp)+
  then show "trailing_zeros (np_q gauss_params) = 20" "trailing_zeros (np_p gauss_params) = 1"
    unfolding gauss_params_def native_params.simps by blast+
qed

lemma small_profile:
  assumes "\<exists>ctx. new_lift_context eng 4 1048576 = Inr ctx"
  shows "client_profile eng small_profile" and "client_profile eng (small_profile\<lparr>pr_two_mask := True\<rparr>)"
proof -
  have "is_power_of_two 4" unfolding is_power_of_two_iff by (rule exI [of _ 2]) simp
  then have params: "new_native_params eng 4 20 1 6 3 Gaussian = Inr gauss_params"
    using assms by (auto simp: new_native_params_def gauss_params_def MAX_GADGET_BITS_def)
  have "new_profile gauss_params 4 4 = Inr small_profile"
    using small_zeros
    by (simp add: new_profile_def small_profile_def default_response_bits_def checked_mul_def) (simp add: gauss_params_def)
  with params show one: "client_profile eng small_profile" by (rule client_profile.created)
  have "with_two_mask_output small_profile = Inr (small_profile\<lparr>pr_two_mask := True\<rparr>)"
    using small_zeros by (simp add: with_two_mask_output_def small_profile_def full_bits_def mask_width_allowed_def)
  with one show "client_profile eng (small_profile\<lparr>pr_two_mask := True\<rparr>)" by (rule client_profile.two_mask)
qed

theorem client_profiles_well_formed_witness:
  "shape_ok (small_profile\<lparr>pr_two_mask := True\<rparr>) \<and> widths_ok (small_profile\<lparr>pr_two_mask := True\<rparr>)"
  using client_profiles_well_formed [OF small_profile(2) [OF demo_engine_context]] by blast

theorem setup_binding_witness:
  "setup_preimage small_profile (replicate 32 1) (replicate 32 2) \<noteq> setup_preimage (small_profile\<lparr>pr_two_mask := True\<rparr>) (replicate 32 1) (replicate 32 2)"
  using setup_binding [OF small_profile [OF demo_engine_context], of "replicate 32 1" "replicate 32 2" "replicate 32 1" "replicate 32 2"]
  by (simp add: small_profile_def)

end
