(* ===== verification/Native_Transport.thy ===== *)
theory Native_Transport
  imports Native_Client
begin

text \<open>
  What the client's messages carry: published masks survive their byte form, prepared decoding returns
  what plain decoding returns, and keys, queries and responses arrive at the other side up to the
  rounding of their transport widths.
\<close>

section \<open>Words in little-endian bytes\<close>

lemma to_le_bytes_bytes: "all_below 256 (to_le_bytes x)"
  by (simp add: to_le_bytes_def all_below_set)

lemma from_to_le_bytes: "x < 2 ^ 64 \<Longrightarrow> from_le_bytes (to_le_bytes x) = x"
proof (rule bit_eqI)
  fix n assume "x < 2 ^ 64"
  then show "bit (from_le_bytes (to_le_bytes x)) n = bit x n"
    unfolding bit_from_le_bytes [OF to_le_bytes_bytes] getbit_to_le_bytes by (metis bit_less_exp)
qed

lemma to_from_le_bytes: "all_below 256 bs \<Longrightarrow> length bs = 8 \<Longrightarrow> to_le_bytes (from_le_bytes bs) = bs"
proof (rule buffer_eqI)
  assume h: "all_below 256 bs" "length bs = 8"
  show "getbit (to_le_bytes (from_le_bytes bs)) i = getbit bs i" for i
    using getbit_in_range [of bs i] h by (auto simp: getbit_to_le_bytes bit_from_le_bytes)
qed (simp_all add: to_le_bytes_bytes)

lemma read_words: "all_below (2 ^ 64) ws \<Longrightarrow> map from_le_bytes (chunks_exact 8 (concat (map to_le_bytes ws))) = ws"
proof -
  assume ws: "all_below (2 ^ 64) ws"
  have "chunks_exact 8 (concat (map to_le_bytes ws)) = map to_le_bytes ws" by (rule chunks_exact_concat) auto
  then show ?thesis using ws by (auto simp: all_below_set comp_def from_to_le_bytes intro!: map_idI)
qed

lemma length_words [simp]: "length (concat (map to_le_bytes ws)) = length ws * 8"
  by (induction ws) simp_all

lemma write_words:
  assumes "all_below 256 bs" and "length bs = n * 8"
  shows "concat (map to_le_bytes (map from_le_bytes (chunks_exact 8 bs))) = bs"
proof -
  note C = chunks_exact_props [of 8 bs n, OF _ assms(2)]
  have "to_le_bytes (from_le_bytes c) = c" if c: "c \<in> set (chunks_exact 8 bs)" for c
  proof (rule to_from_le_bytes)
    have "set c \<subseteq> set (concat (chunks_exact 8 bs))" using c by auto
    then show "all_below 256 c" using assms(1) C(3) by (auto simp: all_below_set)
  qed (use C(2) c in auto)
  then have "map to_le_bytes (map from_le_bytes (chunks_exact 8 bs)) = chunks_exact 8 bs" by (simp add: map_idI)
  then show ?thesis using C(3) by simp
qed

section \<open>Rounded words\<close>

text \<open>A coefficient as the receiver sees it after rounding to \<open>b\<close> of \<open>k\<close> bits.\<close>

definition received :: "nat \<Rightarrow> nat \<Rightarrow> nat \<Rightarrow> nat" where
  "received k b x = u64 (push_bit (k - b) (down_word (k - b) b x))"

definition round_radius :: "nat \<Rightarrow> nat \<Rightarrow> int" where
  "round_radius k b = (if b = k then 0 else 2 ^ (k - b - 1))"

lemma up_word_less: "y < 2 ^ b \<Longrightarrow> b \<le> k \<Longrightarrow> k < 64 \<Longrightarrow> u64 (push_bit (k - b) y) < 2 ^ k"
proof -
  assume h: "y < 2 ^ b" "b \<le> k" "k < 64"
  have "y * 2 ^ (k - b) < 2 ^ b * 2 ^ (k - b)" using h by simp
  also have "\<dots> = 2 ^ k" using h by (simp flip: power_add)
  finally show ?thesis using up_word [OF h] by simp
qed

lemma received_props:
  assumes "x < 2 ^ k" and "b \<le> k" and "k < 64"
  shows "received k b x < 2 ^ k" and "near (2 ^ k) (round_radius k b) (int x) (int (received k b x))"
    and "down_word (k - b) b (received k b x) = down_word (k - b) b x" and "b = k \<Longrightarrow> received k b x = x"
proof -
  have y: "down_word (k - b) b x < 2 ^ b" by (rule down_word_less [OF assms(1,2)])
  have val: "received k b x = down_word (k - b) b x * 2 ^ (k - b)" unfolding received_def by (rule up_word [OF y assms(2,3)])
  show less: "received k b x < 2 ^ k" unfolding received_def by (rule up_word_less [OF y assms(2,3)])
  show "near (2 ^ k) (round_radius k b) (int x) (int (received k b x))"
    unfolding received_def round_radius_def by (rule down_up_word_near [OF assms])
  show "b = k \<Longrightarrow> received k b x = x" using assms val by (simp add: down_word_def)
  show "down_word (k - b) b (received k b x) = down_word (k - b) b x"
  proof (cases "b = k")
    case False
    then have lt: "b < k" using assms(2) by simp
    let ?s = "k - b" and ?y = "down_word (k - b) b x"
    have "(2::nat) ^ (?s - 1) < 2 ^ ?s" using lt by (intro power_strict_increasing) simp_all
    then have "(?y * 2 ^ ?s + 2 ^ (?s - 1)) div 2 ^ ?s = ?y" by (simp add: div_add1_eq [of "?y * 2 ^ ?s"])
    then show ?thesis using down_word_value [OF less lt assms(3)] y unfolding val by simp
  next
    case True
    then show ?thesis using val by (simp add: down_word_def)
  qed
qed

lemma sent_received:
  assumes "1 \<le> b" and "b \<le> k" and "k < 64" and "all_below (2 ^ k) ws"
  shows "down ws (2 ^ k) b = Inr (map (down_word (k - b) b) ws)"
    and "all_below (2 ^ b) (map (down_word (k - b) b) ws)"
    and "decode (encode (map (down_word (k - b) b) ws) b) (length ws) b = Inr (map (down_word (k - b) b) ws)"
    and "up (map (down_word (k - b) b) ws) (2 ^ k) b = Inr (map (received k b) ws)"
    and "all_below (2 ^ k) (map (received k b) ws)"
proof -
  show "down ws (2 ^ k) b = Inr (map (down_word (k - b) b) ws)" using assms(2,3) by (intro down_ok)
  show below: "all_below (2 ^ b) (map (down_word (k - b) b) ws)"
    using assms(2,4) down_word_less by (auto simp: all_below_set)
  show "decode (encode (map (down_word (k - b) b) ws) b) (length ws) b = Inr (map (down_word (k - b) b) ws)"
    using assms below by (intro decode_encode) simp_all
  show "up (map (down_word (k - b) b) ws) (2 ^ k) b = Inr (map (received k b) ws)"
    using up_ok [OF assms(3,2)] by (simp add: received_def comp_def)
  show "all_below (2 ^ k) (map (received k b) ws)"
    using assms(4) received_props(1) [OF _ assms(2,3)] by (auto simp: all_below_set)
qed

section \<open>Published masks\<close>

definition publish_word :: "native_profile \<Rightarrow> nat \<Rightarrow> nat" where
  "publish_word p x = (if pr_mask_bits p = 64 then x else received (full_bits p) (pr_mask_bits p) x)"

definition mask_radius :: "native_profile \<Rightarrow> int" where
  "mask_radius p = (if pr_mask_bits p = 64 then 0 else round_radius (full_bits p) (pr_mask_bits p))"

lemma profile_widths:
  assumes "shape_ok p" and "widths_ok p"
  shows "np_q (pr_pack p) = 2 ^ full_bits p" "16 \<le> full_bits p" "full_bits p \<le> 56"
    "1 \<le> pr_response_bits p" "pr_response_bits p \<le> full_bits p" "1 \<le> pr_query_bits p" "pr_query_bits p \<le> full_bits p"
    "1 \<le> pr_kh_bits p" "pr_kh_bits p \<le> full_bits p" "pr_mask_bits p = 64 \<or> (1 \<le> pr_mask_bits p \<and> pr_mask_bits p \<le> full_bits p)"
    "pr_two_mask p \<Longrightarrow> pr_kh_bits p = full_bits p"
proof -
  obtain k l where k: "np_q (pr_pack p) = 2 ^ k" "16 \<le> k" "k \<le> 56" "full_bits p = k" "np_p (pr_pack p) = 2 ^ l" "0 < l" "l < k"
    "l < pr_response_bits p" "pr_response_bits p \<le> k" "1 \<le> pr_query_bits p" "pr_query_bits p \<le> k" "1 \<le> pr_kh_bits p" "pr_kh_bits p \<le> k"
    "pr_mask_bits p = 64 \<or> (1 \<le> pr_mask_bits p \<and> pr_mask_bits p \<le> k)" "pr_two_mask p \<Longrightarrow> pr_kh_bits p = k"
    using usable_widths [OF assms] by blast
  show "np_q (pr_pack p) = 2 ^ full_bits p" "16 \<le> full_bits p" "full_bits p \<le> 56"
    "1 \<le> pr_response_bits p" "pr_response_bits p \<le> full_bits p" "1 \<le> pr_query_bits p" "pr_query_bits p \<le> full_bits p"
    "1 \<le> pr_kh_bits p" "pr_kh_bits p \<le> full_bits p" "pr_mask_bits p = 64 \<or> (1 \<le> pr_mask_bits p \<and> pr_mask_bits p \<le> full_bits p)"
    "pr_two_mask p \<Longrightarrow> pr_kh_bits p = full_bits p"
    using k by simp_all
qed

lemma publish_word_props:
  assumes "shape_ok p" and "widths_ok p" and "x < np_q (pr_pack p)"
  shows "publish_word p x < np_q (pr_pack p)" and "near (np_q (pr_pack p)) (mask_radius p) (int x) (int (publish_word p x))"
  using assms(3) profile_widths [OF assms(1,2)] received_props(1,2) [of x "full_bits p" "pr_mask_bits p"]
  by (auto simp: publish_word_def mask_radius_def near_refl)

lemma mask_blocks_validD:
  assumes "mask_blocks_valid p blocks"
  shows "length blocks = pr_cols p div np_d (pr_pack p)" "\<And>b. b \<in> set blocks \<Longrightarrow> length b = np_d (pr_pack p) \<and> all_below (np_q (pr_pack p)) b"
  using assms by (auto simp: mask_blocks_valid_def list_all_iff all_below_set)

lemma mask_blocks_concat:
  assumes "shape_ok p" and "mask_blocks_valid p blocks"
  shows "length (concat blocks) = pr_cols p" and "all_below (np_q (pr_pack p)) (concat blocks)" and "chunks_exact (np_d (pr_pack p)) (concat blocks) = blocks"
proof -
  have d: "0 < np_d (pr_pack p)" "np_d (pr_pack p) dvd pr_cols p" using assms(1) good_nativeD(1) by (auto simp: shape_ok_def)
  note B = mask_blocks_validD [OF assms(2)]
  show "length (concat blocks) = pr_cols p" using length_concat_rows [of blocks "np_d (pr_pack p)"] B d(2) by auto
  show "all_below (np_q (pr_pack p)) (concat blocks)" using B(2) by (auto simp: all_below_set)
  show "chunks_exact (np_d (pr_pack p)) (concat blocks) = blocks" using B(2) by (intro chunks_exact_concat d(1)) auto
qed

lemma round_blocks_ok:
  assumes "shape_ok p" and "widths_ok p" and "mask_blocks_valid p blocks"
  shows "round_blocks p blocks = Inr (map (map (publish_word p)) blocks)" and "mask_blocks_valid p (map (map (publish_word p)) blocks)"
proof -
  note W = profile_widths [OF assms(1,2)]
  note B = mask_blocks_validD [OF assms(3)]
  show "round_blocks p blocks = Inr (map (map (publish_word p)) blocks)"
  proof (cases "pr_mask_bits p = 64")
    case False
    then have mb: "1 \<le> pr_mask_bits p" "pr_mask_bits p \<le> full_bits p" using W(10) by auto
    have "bindR (down b (np_q (pr_pack p)) (pr_mask_bits p)) (\<lambda>ws. up ws (np_q (pr_pack p)) (pr_mask_bits p)) = Inr (map (publish_word p) b)"
      if "b \<in> set blocks" for b
      using sent_received(1,4) [OF mb _ , of b] B(2) [OF that] W(1,3) False by (simp add: publish_word_def [abs_def])
    then show ?thesis using False unfolding round_blocks_def by (simp add: collectR_all_Inr)
  qed (simp add: round_blocks_def publish_word_def [abs_def])
  show "mask_blocks_valid p (map (map (publish_word p)) blocks)"
    using B publish_word_props(1) [OF assms(1,2)] by (auto simp: mask_blocks_valid_def list_all_iff all_below_set)
qed

text \<open>What a published snapshot holds once it is bound to a setup.\<close>

definition published_ok :: "native_profile \<Rightarrow> byte list \<Rightarrow> native_published \<Rightarrow> bool" where
  "published_ok p ident pb \<longleftrightarrow> pb_setup_id pb = ident \<and> pb_mask_bits pb = pr_mask_bits p \<and> pb_q pb = np_q (pr_pack p)
     \<and> mask_blocks_valid p (pb_masks pb)
     \<and> (case pb_other_masks pb of None \<Rightarrow> \<not> pr_two_mask p | Some x \<Rightarrow> pr_two_mask p \<and> mask_blocks_valid p x)
     \<and> (\<forall>x\<in>set (concat (pb_masks pb) @ (case pb_other_masks pb of None \<Rightarrow> [] | Some o' \<Rightarrow> concat o')). publish_word p x = x)"

definition published_words :: "native_published \<Rightarrow> nat list" where
  "published_words pb = concat (pb_masks pb) @ (case pb_other_masks pb of None \<Rightarrow> [] | Some o' \<Rightarrow> concat o')"

lemma from_masks_ok:
  assumes p: "shape_ok p" "widths_ok p" and st: "ps_profile setup = p"
    and masks: "mask_blocks_valid p masks" "case others of None \<Rightarrow> \<not> pr_two_mask p | Some x \<Rightarrow> pr_two_mask p \<and> mask_blocks_valid p x"
  shows "\<exists>pb. from_masks setup masks others = Inr pb \<and> published_ok p (ps_id setup) pb
    \<and> pb_masks pb = map (map (publish_word p)) masks \<and> pb_other_masks pb = map_option (map (map (publish_word p))) others"
proof -
  let ?r = "map (map (publish_word p))"
  let ?pb = "\<lparr>pb_setup_id = ps_id setup, pb_masks = ?r masks, pb_other_masks = map_option ?r others, pb_mask_bits = pr_mask_bits p, pb_q = np_q (pr_pack p)\<rparr>"
  have stable: "publish_word p (publish_word p x) = publish_word p x" if "x < np_q (pr_pack p)" for x
  proof (cases "pr_mask_bits p = 64")
    case False
    then have mb: "pr_mask_bits p \<le> full_bits p" "full_bits p < 64" "x < 2 ^ full_bits p" using profile_widths [OF p] that by auto
    have "received (full_bits p) (pr_mask_bits p) (received (full_bits p) (pr_mask_bits p) x) = received (full_bits p) (pr_mask_bits p) x"
      using received_props(3) [OF mb(3,1,2)] by (simp add: received_def)
    then show ?thesis using False by (simp add: publish_word_def)
  qed (simp add: publish_word_def)
  have fixed: "\<forall>x\<in>set (concat (?r blocks)). publish_word p x = x" if "mask_blocks_valid p blocks" for blocks
    using mask_blocks_validD(2) [OF that] stable by (auto simp: all_below_set)
  note one = round_blocks_ok [OF p masks(1)]
  show ?thesis
  proof (cases others)
    case None
    then have "from_masks setup masks others = Inr ?pb" using masks st one(1) by (simp add: from_masks_def Let_def)
    then show ?thesis using None masks one(2) fixed [OF masks(1)] by (simp add: published_ok_def)
  next
    case (Some x)
    then have x: "pr_two_mask p" "mask_blocks_valid p x" using masks(2) by simp_all
    note two = round_blocks_ok [OF p x(2)]
    have "from_masks setup masks others = Inr ?pb" using Some masks x st one(1) two(1) by (simp add: from_masks_def Let_def)
    moreover have "published_ok p (ps_id setup) ?pb"
      using Some x one(2) two(2) fixed [OF masks(1)] fixed [OF x(2)] by (simp add: published_ok_def ball_Un del: set_concat)
    ultimately show ?thesis by (intro exI [of _ ?pb]) simp
  qed
qed

lemma published_words_props:
  assumes p: "shape_ok p" "widths_ok p" and pb: "published_ok p ident pb"
  defines "ws \<equiv> published_words pb" and "count \<equiv> pr_cols p * (1 + (if pr_two_mask p then 1 else 0))"
  shows "length ws = count" and "all_below (np_q (pr_pack p)) ws" and "map (publish_word p) ws = ws"
    and "take (pr_cols p) ws = concat (pb_masks pb)" and "chunks_exact (np_d (pr_pack p)) (take (pr_cols p) ws) = pb_masks pb"
    and "(if pr_two_mask p then Some (chunks_exact (np_d (pr_pack p)) (drop (pr_cols p) ws)) else None) = pb_other_masks pb"
proof -
  have m: "mask_blocks_valid p (pb_masks pb)" using pb by (simp add: published_ok_def)
  note C = mask_blocks_concat [OF p(1) m]
  have all: "length ws = count \<and> all_below (np_q (pr_pack p)) ws
    \<and> (if pr_two_mask p then Some (chunks_exact (np_d (pr_pack p)) (drop (pr_cols p) ws)) else None) = pb_other_masks pb"
  proof (cases "pb_other_masks pb")
    case None
    then have "\<not> pr_two_mask p" "ws = concat (pb_masks pb)" using pb by (simp_all add: published_ok_def ws_def published_words_def)
    then show ?thesis using None C(1,2) by (simp add: count_def del: set_concat)
  next
    case (Some x)
    then have x: "pr_two_mask p" "mask_blocks_valid p x" "ws = concat (pb_masks pb) @ concat x"
      using pb by (simp_all add: published_ok_def ws_def published_words_def)
    note O = mask_blocks_concat [OF p(1) x(2)]
    have "all_below (np_q (pr_pack p)) ws" using C(2) O(2) unfolding x(3) all_below_set by auto
    then show ?thesis using Some x(1) C(1) O(1,3) unfolding x(3) by (simp add: count_def)
  qed
  then show "length ws = count" "all_below (np_q (pr_pack p)) ws"
    "(if pr_two_mask p then Some (chunks_exact (np_d (pr_pack p)) (drop (pr_cols p) ws)) else None) = pb_other_masks pb" by blast+
  show "map (publish_word p) ws = ws" using pb by (intro map_idI) (simp add: published_ok_def ws_def published_words_def del: set_concat)
  show t: "take (pr_cols p) ws = concat (pb_masks pb)" using C(1) by (simp add: ws_def published_words_def)
  show "chunks_exact (np_d (pr_pack p)) (take (pr_cols p) ws) = pb_masks pb" unfolding t by (rule C(3))
qed

definition published_payload :: "native_profile \<Rightarrow> nat list \<Rightarrow> byte list" where
  "published_payload p ws =
     (if pr_mask_bits p = 64 then concat (map to_le_bytes ws)
      else encode (map (down_word (full_bits p - pr_mask_bits p) (pr_mask_bits p)) ws) (pr_mask_bits p))"

definition published_magic :: "native_profile \<Rightarrow> byte list" where
  "published_magic p = (if pr_mask_bits p \<noteq> 64 then ascii ''RNP3'' else if pr_two_mask p then ascii ''RNP2'' else ascii ''RNP1'')"

lemma length_published_magic [simp]: "length (published_magic p) = 4"
  by (simp add: published_magic_def)

lemma to_bytes_ok:
  assumes p: "shape_ok p" "widths_ok p" and pb: "published_ok p ident pb"
  shows "to_bytes pb = Inr (published_magic p @ ident @ published_payload p (published_words pb))"
proof -
  note W = profile_widths [OF p]
  note P = published_words_props [OF p pb]
  have pbs: "pb_setup_id pb = ident" "pb_mask_bits pb = pr_mask_bits p" "pb_q pb = np_q (pr_pack p)" "(pb_other_masks pb \<noteq> None) = pr_two_mask p"
    using pb by (auto simp: published_ok_def split: option.splits)
  have words: "concat (pb_masks pb) @ (case pb_other_masks pb of None \<Rightarrow> [] | Some x \<Rightarrow> concat x) = published_words pb"
    by (simp add: published_words_def)
  show ?thesis
  proof (cases "pr_mask_bits p = 64")
    case True
    then show ?thesis using pbs words
      by (simp add: to_bytes_def Let_def published_magic_def published_payload_def flip: concat_append map_append)
  next
    case False
    then have mb: "1 \<le> pr_mask_bits p" "pr_mask_bits p \<le> full_bits p" "full_bits p < 64" using W by auto
    have "all_below (2 ^ full_bits p) (published_words pb)" using P(2) W(1) by simp
    note S = sent_received [OF mb this]
    show ?thesis using False pbs S(1) W(1) unfolding to_bytes_def Let_def words
      by (simp add: published_magic_def published_payload_def)
  qed
qed

lemma published_payload_props:
  assumes p: "shape_ok p" "widths_ok p" and ws: "all_below (np_q (pr_pack p)) ws"
  shows "length (published_payload p ws) = (if pr_mask_bits p = 64 then length ws * 8 else packed_len (length ws) (pr_mask_bits p))"
    and "(if pr_mask_bits p = 64 then Inr (map from_le_bytes (chunks_exact 8 (published_payload p ws)))
          else bindR (decode (published_payload p ws) (length ws) (pr_mask_bits p)) (\<lambda>ws. up ws (np_q (pr_pack p)) (pr_mask_bits p)))
        = Inr (map (publish_word p) ws)"
proof -
  note W = profile_widths [OF p]
  have mb: "1 \<le> pr_mask_bits p" "pr_mask_bits p \<le> full_bits p" "full_bits p < 64" if "pr_mask_bits p \<noteq> 64" using W that by auto
  have q: "all_below (2 ^ full_bits p) ws" using ws W(1) by simp
  show "length (published_payload p ws) = (if pr_mask_bits p = 64 then length ws * 8 else packed_len (length ws) (pr_mask_bits p))"
    using encode_props(1) [of "pr_mask_bits p"] mb by (auto simp: published_payload_def)
  have small: "all_below (2 ^ 64) ws" by (rule all_below_mono [OF q power_increasing]) (use W(3) in simp_all)
  show "(if pr_mask_bits p = 64 then Inr (map from_le_bytes (chunks_exact 8 (published_payload p ws)))
          else bindR (decode (published_payload p ws) (length ws) (pr_mask_bits p)) (\<lambda>ws. up ws (np_q (pr_pack p)) (pr_mask_bits p)))
        = Inr (map (publish_word p) ws)"
  proof (cases "pr_mask_bits p = 64")
    case True
    then show ?thesis using read_words [OF small] by (simp add: published_payload_def publish_word_def [abs_def])
  next
    case False
    then show ?thesis using sent_received(3,4) [OF mb(1,2,3) q] W(1)
      by (simp add: published_payload_def publish_word_def [abs_def])
  qed
qed

lemma from_masks_InrD:
  assumes p: "shape_ok p" "widths_ok p" and st: "ps_profile setup = p" and pb: "from_masks setup masks others = Inr pb"
  shows "published_ok p (ps_id setup) pb"
proof -
  have "mask_blocks_valid p masks" "case others of None \<Rightarrow> \<not> pr_two_mask p | Some x \<Rightarrow> pr_two_mask p \<and> mask_blocks_valid p x"
    using pb st by (auto simp: from_masks_def Let_def split: option.splits)
  then obtain pb' where "from_masks setup masks others = Inr pb'" "published_ok p (ps_id setup) pb'"
    using from_masks_ok [OF p st] by metis
  then show ?thesis using pb by simp
qed

section \<open>Decoding by blocks\<close>

lemma collectR_mapR: "collectR (\<lambda>x. mapR g (f x)) xs = mapR (map g) (collectR f xs)"
proof (induction xs)
  case (Cons x xs)
  then show ?case by (cases "f x"; cases "collectR f xs") simp_all
qed simp

lemma bindR_tag: "bindR x (\<lambda>ct. bindR (f ct) (\<lambda>w. Inr (w, c))) = mapR (\<lambda>w. (w, c)) (bindR x f)"
proof (cases x)
  case (Inr y)
  then show ?thesis by (cases "f y") simp_all
qed simp

lemma decode_block_error_None: "decode_block_error eng p s a other block None = mapR (\<lambda>w. (w, 0)) (decode_block eng p s a other block)"
  by (simp add: decode_block_error_def decode_block_def bindR_tag split: option.splits)

lemma response_bodies_ok:
  assumes p: "shape_ok p" "widths_ok p" and "all_below 256 response" and "response_bodies p response = Inr b"
  shows "length b = pr_cols p" and "all_below (np_q (pr_pack p)) b"
proof -
  note W = profile_widths [OF p]
  have rb: "1 \<le> pr_response_bits p" "pr_response_bits p \<le> full_bits p" "full_bits p < 64" "pr_response_bits p \<le> 64" using W by simp_all
  have bytes: "all_below 256 (drop 68 response)" using assms(3) by (auto simp: all_below_set dest: in_set_dropD)
  obtain ws where ws: "decode (drop 68 response) (pr_cols p) (pr_response_bits p) = Inr ws" "up ws (np_q (pr_pack p)) (pr_response_bits p) = Inr b"
    using assms(4) by (auto simp: response_bodies_def)
  note D = decode_Inr_props [OF rb(1,4) bytes ws(1)]
  have b: "b = map (\<lambda>x. u64 (push_bit (full_bits p - pr_response_bits p) x)) ws"
    using ws(2) unfolding W(1) up_ok [OF rb(3,2)] by simp
  show "length b = pr_cols p" using b D(1) by simp
  show "all_below (np_q (pr_pack p)) b"
    unfolding b W(1) using D(2) up_word_less [OF _ rb(2,3)] by (auto simp: all_below_set)
qed

definition decode_blocks :: "ntt_engine \<Rightarrow> native_profile \<Rightarrow> native_secret \<Rightarrow> native_published \<Rightarrow> nat list \<Rightarrow> nat list result" where
  "decode_blocks eng p s pb b =
     mapR concat (collectR (\<lambda>i. decode_block eng (pr_pack p) s (pb_masks pb ! i) (map_option (\<lambda>o'. o' ! i) (pb_other_masks pb))
       (chunk_at (np_d (pr_pack p)) b i)) [0..<length (pb_masks pb)])"

lemma decode_response_blocks:
  assumes p: "shape_ok p" "widths_ok p" and pb: "published_ok p (rq_setup_id rq) pb" and rq: "rq_profile rq = p"
    and bytes: "all_below 256 response"
  shows "decode_response eng rq pb response = (if response_mismatch rq response then Inl (InvalidParams ''response/setup/request binding mismatch'')
    else bindR (response_bodies p response) (decode_blocks eng p (rq_secret rq) pb))"
proof -
  let ?d = "np_d (pr_pack p)" and ?n = "length (pb_masks pb)"
  have d: "0 < ?d" "?d dvd pr_cols p" using p(1) good_nativeD(1) by (auto simp: shape_ok_def)
  have shape: "pb_setup_id pb = rq_setup_id rq" "?n = pr_cols p div ?d" "(pb_other_masks pb \<noteq> None) = pr_two_mask p"
    "\<And>x. pb_other_masks pb = Some x \<Longrightarrow> length x = pr_cols p div ?d"
    using pb mask_blocks_validD(1) by (auto simp: published_ok_def split: option.splits)
  have body: "mapR fst (mapR (\<lambda>rs. (concat (map fst rs), fold max (map snd rs) (0::nat)))
      (collectR (\<lambda>(i, block). decode_block_error eng (pr_pack p) (rq_secret rq) (pb_masks pb ! i) (map_option (\<lambda>o'. o' ! i) (pb_other_masks pb)) block None)
        (enumerate 0 (chunks_exact ?d b)))) = decode_blocks eng p (rq_secret rq) pb b"
    if b: "length b = pr_cols p" for b
  proof -
    have len: "length b = ?n * ?d" using b d shape(2) by simp
    have "enumerate 0 (chunks_exact ?d b) = map (\<lambda>i. (i, chunk_at ?d b i)) [0..<?n]"
      unfolding chunks_exact_chunk_at [OF d(1) len] by (intro nth_equalityI) (simp_all add: nth_enumerate_eq)
    then show ?thesis
      by (simp add: decode_blocks_def collectR_map decode_block_error_None collectR_mapR)
        (cases "collectR (\<lambda>i. decode_block eng (pr_pack p) (rq_secret rq) (pb_masks pb ! i) (map_option (\<lambda>o'. o' ! i) (pb_other_masks pb)) (chunk_at ?d b i)) [0..<?n]";
          simp add: comp_def)
  qed
  have guard: "(pb_setup_id pb \<noteq> rq_setup_id rq \<or> ?n \<noteq> pr_cols p div ?d \<or> (pb_other_masks pb \<noteq> None) \<noteq> pr_two_mask p
      \<or> (case pb_other_masks pb of None \<Rightarrow> False | Some x \<Rightarrow> length x \<noteq> pr_cols p div ?d) \<or> response_mismatch rq response) = response_mismatch rq response"
    using shape by (auto split: option.splits)
  show ?thesis
  proof (cases "response_bodies p response")
    case (Inl e)
    then show ?thesis unfolding decode_response_def decode_inner_def Let_def rq guard by simp
  next
    case (Inr b)
    then show ?thesis using body [OF response_bodies_ok(1) [OF p bytes Inr]]
      unfolding decode_response_def decode_inner_def Let_def rq guard by (cases "response_mismatch rq response") simp_all
  qed
qed

section \<open>Properties\<close>

text \<open>C40. Published masks survive their byte form: canonical evaluator masks of either mode are accepted and rounded
  to the profile's width, every coefficient of both mask families moving by at most half a transport
  unit, the second family is published exactly in two-mask mode, and the bytes parse back, under the same
  setup, to exactly the published masks.\<close>

theorem published_roundtrip:
  assumes "client_profile eng p" and "ps_profile setup = p" and "length (ps_id setup) = 32"
    and "mask_blocks_valid p masks" and "case others of None \<Rightarrow> \<not> pr_two_mask p | Some x \<Rightarrow> pr_two_mask p \<and> mask_blocks_valid p x"
  shows "\<exists>pb bytes. from_masks setup masks others = Inr pb \<and> to_bytes pb = Inr bytes \<and> from_bytes setup bytes = Inr pb
    \<and> list_all2 (list_all2 (\<lambda>x y. near (np_q (pr_pack p)) (mask_radius p) (int x) (int y))) masks (pb_masks pb)
    \<and> rel_option (list_all2 (list_all2 (\<lambda>x y. near (np_q (pr_pack p)) (mask_radius p) (int x) (int y)))) others (pb_other_masks pb)"
proof -
  note S = client_profile_shape [OF assms(1)]
  obtain pb where pb: "from_masks setup masks others = Inr pb" "published_ok p (ps_id setup) pb" "pb_masks pb = map (map (publish_word p)) masks"
    "pb_other_masks pb = map_option (map (map (publish_word p))) others"
    using from_masks_ok [OF S(1,2) assms(2,4,5)] by blast
  let ?ws = "published_words pb"
  note P = published_words_props [OF S(1,2) pb(2)]
  note L = published_payload_props [OF S(1,2) P(2), unfolded P(1,3)]
  note T = to_bytes_ok [OF S(1,2) pb(2)]
  let ?bytes = "published_magic p @ ps_id setup @ published_payload p ?ws"
  have pbs: "pb_setup_id pb = ps_id setup" "pb_mask_bits pb = pr_mask_bits p" "pb_q pb = np_q (pr_pack p)" using pb(2) by (simp_all add: published_ok_def)
  have canonical: "\<not> list_ex (\<lambda>x. x \<ge> np_q (pr_pack p)) ?ws" using P(2) by (auto simp: list_ex_iff all_below_set not_le)
  have parts: "take 4 ?bytes = published_magic p" "take 32 (drop 4 ?bytes) = ps_id setup" "drop 36 ?bytes = published_payload p ?ws"
    "length ?bytes = 36 + length (published_payload p ?ws)" using assms(3) by simp_all
  have "from_bytes setup ?bytes = Inr \<lparr>pb_setup_id = ps_id setup, pb_masks = pb_masks pb, pb_other_masks = pb_other_masks pb,
      pb_mask_bits = pr_mask_bits p, pb_q = np_q (pr_pack p)\<rparr>"
    unfolding from_bytes_def Let_def assms(2) published_magic_def [symmetric] parts L(1)
    by (simp only: L(2) bindR_simps guardR_simps canonical P(5,6) simp_thms)
  then have read: "from_bytes setup ?bytes = Inr pb" using pbs by simp
  have close: "list_all2 (list_all2 (\<lambda>x y. near (np_q (pr_pack p)) (mask_radius p) (int x) (int y))) ms (map (map (publish_word p)) ms)"
    if "mask_blocks_valid p ms" for ms
    using mask_blocks_validD(2) [OF that] publish_word_props(2) [OF S(1,2)]
    by (auto simp: list_all2_map2 all_below_set intro!: list.rel_refl_strong)
  have "rel_option (list_all2 (list_all2 (\<lambda>x y. near (np_q (pr_pack p)) (mask_radius p) (int x) (int y)))) others (pb_other_masks pb)"
    unfolding pb(4) using assms(5) close by (cases others) auto
  moreover have "list_all2 (list_all2 (\<lambda>x y. near (np_q (pr_pack p)) (mask_radius p) (int x) (int y))) masks (pb_masks pb)"
    unfolding pb(3) by (rule close [OF assms(4)])
  ultimately show ?thesis using pb(1) T read by blast
qed

text \<open>C4. Prepared decoding is decoding: from published masks of the setup the public transforms are prepared, the
  request-local products are prepared, and with either of them a response of bytes is decoded to a row
  exactly when plain decoding returns that row. In two-mask mode this rests on the evaluation order of
  the transforms.\<close>

theorem prepared_decode_agrees:
  assumes "client_profile eng p" and "ntt_laws eng (np_d (pr_pack p))" and "pr_two_mask p \<Longrightarrow> ntt_reversal eng (np_d (pr_pack p))"
    and "ps_profile setup = p" and "from_masks setup masks others = Inr pb" and "rq_profile rq = p" and "rq_setup_id rq = ps_id setup"
    and "sec_params (rq_secret rq) = pr_pack p" and "small_secret (pr_pack p) (sec_coeffs (rq_secret rq)) 65" and "rq_decoding rq = None"
  shows "\<exists>pp rq'. prepare_published eng env pb setup = Inr pp \<and> prepare_decode eng rq pp = Inr rq'
    \<and> (\<forall>response row. all_below 256 response \<longrightarrow>
        (decode_prepared eng rq pp response = Inr row \<longleftrightarrow> decode_response eng rq pb response = Inr row)
        \<and> (decode_prepared eng rq' pp response = Inr row \<longleftrightarrow> decode_response eng rq pb response = Inr row))"
proof -
  note S = client_profile_shape [OF assms(1)]
  have pb: "published_ok p (rq_setup_id rq) pb" unfolding assms(7) by (rule from_masks_InrD [OF S(1,2) assms(4,5)])
  have good: "good_native (pr_pack p)" "np_sampler (pr_pack p) = Gaussian" using S(1) by (simp_all add: shape_ok_def)
  obtain ctx where ctx: "new_lift_context eng (np_d (pr_pack p)) (np_q (pr_pack p)) = Inr ctx" using S(3) by blast
  have d: "0 < np_d (pr_pack p)" "np_d (pr_pack p) dvd pr_cols p" "0 < pr_cols p" using S(1) good_nativeD(1) by (auto simp: shape_ok_def)
  have m: "mask_blocks_valid p (pb_masks pb)" using pb by (simp add: published_ok_def)
  note M = mask_blocks_validD [OF m]
  have n: "length (pb_masks pb) * np_d (pr_pack p) = pr_cols p" using M(1) d(2) by simp
  have o: "case pb_other_masks pb of None \<Rightarrow> \<not> pr_two_mask p | Some x \<Rightarrow> pr_two_mask p \<and> mask_blocks_valid p x" using pb by (simp add: published_ok_def)
  have masks: "decode_masks (pr_pack p) (pb_masks pb) (pb_other_masks pb)"
    using M n d(3) o mask_blocks_validD by (fastforce simp: decode_masks_def split: option.splits)
  let ?s = "rq_secret rq"
  have small: "small_secret (pr_pack p) (sec_coeffs ?s) (int (secret_support (np_sampler (pr_pack p))))"
    using assms(9) good(2) by (simp add: GAUSS_MAX_def)
  have rev: "pb_other_masks pb \<noteq> None \<Longrightarrow> ntt_reversal eng (np_d (pr_pack p))" using o assms(3) by (auto split: option.splits)
  let ?st = "\<lparr>ds_params = pr_pack p, ds_products = concat (map (block_product (pr_pack p) (pb_masks pb) (pb_other_masks pb) (sec_coeffs ?s)) [0..<length (pb_masks pb)])\<rparr>"
  obtain dec where dec: "new_decoder eng (pr_pack p) (pb_masks pb) (pb_other_masks pb) = Inr dec" "prepare_request eng dec ?s = Inr ?st"
    using decoder_ok [OF assms(2) rev ctx good(1) assms(8) small masks] by blast
  obtain bytes where bytes: "to_bytes pb = Inr bytes" using to_bytes_ok [OF S(1,2) pb] by blast
  let ?pp = "\<lparr>pp_setup_id = rq_setup_id rq, pp_profile = p, pp_decoder = dec, pp_mask_digest = sha256 env bytes\<rparr>"
  have pbs: "pb_setup_id pb = ps_id setup" "(pb_other_masks pb \<noteq> None) = pr_two_mask p" "pb_mask_bits pb = pr_mask_bits p" "pb_q pb = np_q (pr_pack p)"
    using pb assms(7) by (auto simp: published_ok_def split: option.splits)
  have pp: "prepare_published eng env pb setup = Inr ?pp"
    unfolding prepare_published_def Let_def assms(4) using pbs M(1) bytes dec(1) assms(7) by simp
  have rq': "prepare_decode eng rq ?pp = Inr (rq\<lparr>rq_decoding := Some (sha256 env bytes, ?st)\<rparr>)"
    using dec(2) assms(6) by (simp add: prepare_decode_def)
  have decodes: "state_decrypt ?st b = decode_blocks eng p ?s pb b" "decoder_decrypt eng dec ?s b = decode_blocks eng p ?s pb b"
    if b: "length b = pr_cols p" "all_below (np_q (pr_pack p)) b" for b
  proof -
    have s: "length (sec_coeffs ?s) = np_d (pr_pack p)" "all_below (np_q (pr_pack p)) (sec_coeffs ?s)" using small by (simp_all add: small_secret_def)
    show "state_decrypt ?st b = decode_blocks eng p ?s pb b"
      using state_decrypt_blocks [OF assms(2) ctx good(1) assms(8) s masks] b n by (simp add: decode_blocks_def)
    then show "decoder_decrypt eng dec ?s b = decode_blocks eng p ?s pb b" using dec(2) by (simp add: decoder_decrypt_def)
  qed
  have "(decode_prepared eng rq ?pp response = Inr row \<longleftrightarrow> decode_response eng rq pb response = Inr row)
      \<and> (decode_prepared eng (rq\<lparr>rq_decoding := Some (sha256 env bytes, ?st)\<rparr>) ?pp response = Inr row \<longleftrightarrow> decode_response eng rq pb response = Inr row)"
    if r: "all_below 256 response" for response row
  proof -
    note D = decode_response_blocks [OF S(1,2) pb assms(6) r, of eng]
    have mm: "response_mismatch (rq\<lparr>rq_decoding := x\<rparr>) response = response_mismatch rq response" for x by (simp add: response_mismatch_def Let_def)
    show ?thesis
    proof (cases "response_bodies p response")
      case (Inl e)
      then show ?thesis using D assms(6) mm by (simp add: decode_prepared_def guardR_def)
    next
      case (Inr b)
      note B = response_bodies_ok [OF S(1,2) r Inr]
      show ?thesis using D assms(6,10) mm decodes [OF B] Inr by (simp add: decode_prepared_def guardR_def)
    qed
  qed
  then show ?thesis using pp rq' by blast
qed

section \<open>The hypotheses can hold\<close>

definition two_mask_profile :: native_profile where
  "two_mask_profile = small_profile\<lparr>pr_two_mask := True\<rparr>"

definition small_setup :: native_public_setup where
  "small_setup = \<lparr>ps_profile = two_mask_profile, ps_id = replicate 32 5, ps_polys = [], ps_packing = bit_setup\<rparr>"

definition small_request :: native_request where
  "small_request = \<lparr>rq_secret = \<lparr>sec_params = gauss_params, sec_coeffs = [1, 0, 1048575, 1]\<rparr>, rq_profile = two_mask_profile,
     rq_setup_id = replicate 32 5, rq_query_id = replicate 32 6, rq_bytes = [], rq_decoding = None\<rparr>"

lemma small_dims: "pr_pack two_mask_profile = gauss_params" "pr_two_mask two_mask_profile" "pr_cols two_mask_profile = 4"
  "np_d gauss_params = 4" "np_q gauss_params = 1048576"
  by (simp_all add: two_mask_profile_def small_profile_def gauss_params_def)

lemma small_blocks: "mask_blocks_valid two_mask_profile [[1, 2, 3, 4]]" "mask_blocks_valid two_mask_profile [[5, 6, 7, 1048575]]"
  by (simp_all add: mask_blocks_valid_def small_dims)

theorem published_roundtrip_witness:
  "\<exists>pb bytes. from_masks small_setup [[1, 2, 3, 4]] (Some [[5, 6, 7, 1048575]]) = Inr pb \<and> to_bytes pb = Inr bytes
    \<and> from_bytes small_setup bytes = Inr pb \<and> pb_other_masks pb \<noteq> None"
  using published_roundtrip [OF small_profile(2) [OF demo_engine_context, folded two_mask_profile_def], of small_setup "[[1, 2, 3, 4]]" "Some [[5, 6, 7, 1048575]]"]
    small_blocks small_dims by (auto simp: small_setup_def option_rel_Some1)

theorem prepared_decode_agrees_witness:
  "\<exists>pb pp rq'. from_masks small_setup [[1, 2, 3, 4]] (Some [[5, 6, 7, 1048575]]) = Inr pb \<and> prepare_published paired_engine demo_env pb small_setup = Inr pp
     \<and> prepare_decode paired_engine small_request pp = Inr rq'
     \<and> (decode_prepared paired_engine rq' pp [1, 2] = Inr [7] \<longleftrightarrow> decode_response paired_engine small_request pb [1, 2] = Inr [7])"
proof -
  have c: "client_profile paired_engine two_mask_profile" using small_profile(2) [OF paired_context] by (simp add: two_mask_profile_def)
  note S = client_profile_shape(1,2) [OF c]
  have st: "ps_profile small_setup = two_mask_profile" by (simp add: small_setup_def)
  obtain pb where pb: "from_masks small_setup [[1, 2, 3, 4]] (Some [[5, 6, 7, 1048575]]) = Inr pb"
    using from_masks_ok [OF S st small_blocks(1), of "Some [[5, 6, 7, 1048575]]"] small_blocks(2) small_dims by auto
  have laws: "ntt_laws paired_engine (np_d (pr_pack two_mask_profile))" "ntt_reversal paired_engine (np_d (pr_pack two_mask_profile))"
    using paired_engine_laws paired_reversal by (simp_all add: small_dims)
  have small: "small_secret gauss_params [1, 0, 1048575, 1] 65" by (simp add: small_secret_def small_dims below_four centered_def all_below_set)
  have rq: "rq_profile small_request = two_mask_profile" "rq_setup_id small_request = ps_id small_setup"
    "sec_params (rq_secret small_request) = pr_pack two_mask_profile" "small_secret (pr_pack two_mask_profile) (sec_coeffs (rq_secret small_request)) 65"
    "rq_decoding small_request = None"
    using small by (simp_all add: small_request_def small_setup_def small_dims)
  have bytes: "all_below 256 [1, 2]" by simp
  obtain pp rq' where "prepare_published paired_engine demo_env pb small_setup = Inr pp" "prepare_decode paired_engine small_request pp = Inr rq'"
    "decode_prepared paired_engine rq' pp [1, 2] = Inr [7] \<longleftrightarrow> decode_response paired_engine small_request pb [1, 2] = Inr [7]"
    using prepared_decode_agrees [OF c laws(1) laws(2) st pb rq, of demo_env] bytes by blast
  then show ?thesis using pb by blast
qed

end
