(* ===== verification/Native_Server.thy ===== *)
theory Native_Server
  imports Native_Transport Native_Query
begin

text \<open>
  The native evaluator (\<open>ipir-sp/src/native.rs\<close>): offline build over a column-major database, the
  published masks, and the response to a request. Parallel loops collect their results in order; the
  analyzed builds and the timers are left out.
\<close>

section \<open>Model: build\<close>

text \<open>The two storage widths of the entries (\<open>DatabaseEntry\<close> for \<open>u16\<close> and \<open>u8\<close>).\<close>

datatype entry_width = Wide | Narrow

datatype native_database = U16 "nat list" | U8 "nat list"

fun interleave_entries :: "entry_width \<Rightarrow> nat \<Rightarrow> nat list \<Rightarrow> nat list result" where
  "interleave_entries Wide rows band = interleave_columns rows band"
| "interleave_entries Narrow rows band = interleave_u8_columns rows band"

fun wrap_entries :: "entry_width \<Rightarrow> nat list \<Rightarrow> native_database" where
  "wrap_entries Wide db = U16 db"
| "wrap_entries Narrow db = U8 db"

record native_server =
  sv_setup :: native_public_setup
  sv_db :: native_database
  sv_interleaved :: bool
  sv_pre :: "native_preprocessed list"

definition supports_interleaved :: "cpu_features \<Rightarrow> bool" where
  "supports_interleaved cpu = has_vnni cpu"

definition require_u16 :: "native_public_setup \<Rightarrow> unit result" where
  "require_u16 setup =
     guardR (pr_rows (ps_profile setup) * pr_cols (ps_profile setup) > 2 ^ 30)
       (InvalidParams ''more than 2^30 entries require 8-bit storage (build_u8_*)'') (Inr ())"

definition require_u8 :: "native_public_setup \<Rightarrow> unit result" where
  "require_u8 setup = guardR (np_p (pr_pack (ps_profile setup)) > 256) (InvalidParams ''8-bit storage requires p <= 2^8'') (Inr ())"

text \<open>The hint of one output block: every column of the block times the query masks.\<close>

definition hint_column :: "ntt_engine \<Rightarrow> lift_context \<Rightarrow> prepared_public_dot \<Rightarrow> native_profile \<Rightarrow> nat list \<Rightarrow> nat \<Rightarrow> nat list result" where
  "hint_column eng lift polys p db col =
     public_dot eng lift polys (chunks_exact (np_d (pr_pack p)) (take (pr_rows p) (drop (col * pr_rows p) db)))"

text \<open>\<open>build_internal\<close> with \<open>analyze = false\<close>, the configuration of every builder that only serves.\<close>

definition build_block ::
    "ntt_engine \<Rightarrow> cpu_features \<Rightarrow> native_public_setup \<Rightarrow> lift_context \<Rightarrow> prepared_public_dot \<Rightarrow> nat list \<Rightarrow> nat \<Rightarrow> native_preprocessed result" where
  "build_block eng cpu setup lift polys db block =
     (let p = ps_profile setup; d = np_d (pr_pack p)
      in bindR (collectR (hint_column eng lift polys p db) [block * d..<(block + 1) * d]) (\<lambda>masks.
           if pr_two_mask p then build_two_mask eng cpu (ps_packing setup) masks else build eng cpu (ps_packing setup) masks))"

definition build_server ::
    "ntt_engine \<Rightarrow> cpu_features \<Rightarrow> native_public_setup \<Rightarrow> entry_width \<Rightarrow> nat list \<Rightarrow> nat \<Rightarrow> native_server result" where
  "build_server eng cpu setup w db concurrent_blocks =
     guardR (concurrent_blocks = 0) (InvalidParams ''zero preprocessing concurrency'')
       (let p = ps_profile setup; d = np_d (pr_pack p); q = np_q (pr_pack p); blocks = pr_cols p div d
        in guardR (length db \<noteq> pr_rows p * pr_cols p \<or> list_ex (\<lambda>x. x \<ge> np_p (pr_pack p)) db)
             (InvalidParams ''database shape or plaintext range mismatch'')
           (bindR (new_lift_context eng d q) (\<lambda>lift.
            bindR (prepare_public_dot eng lift (ps_polys setup) (min (np_p (pr_pack p) - 1) (q div 2))) (\<lambda>polys.
            bindR (mapR concat (collectR (\<lambda>start.
                     collectR (build_block eng cpu setup lift polys db) [start..<min (min (start + concurrent_blocks) (2 ^ 64 - 1)) blocks])
                   (step_by 0 blocks concurrent_blocks))) (\<lambda>pre.
              let interleaved = (pr_rows p mod 4 = 0 \<and> pr_cols p mod 16 = 0 \<and> supports_interleaved cpu)
              in mapR (\<lambda>db'. \<lparr>sv_setup = setup, sv_db = wrap_entries w db', sv_interleaved = interleaved, sv_pre = pre\<rparr>)
                   (if interleaved then mapR concat (collectR (interleave_entries w (pr_rows p)) (chunks (pr_rows p * 16) db)) else Inr db))))))"

definition build_with_concurrency ::
    "ntt_engine \<Rightarrow> cpu_features \<Rightarrow> native_public_setup \<Rightarrow> nat list \<Rightarrow> nat \<Rightarrow> native_server result" where
  "build_with_concurrency eng cpu setup db concurrent_blocks =
     bindR (require_u16 setup) (\<lambda>_. build_server eng cpu setup Wide db concurrent_blocks)"

definition build_sequential :: "ntt_engine \<Rightarrow> cpu_features \<Rightarrow> native_public_setup \<Rightarrow> nat list \<Rightarrow> native_server result" where
  "build_sequential eng cpu setup db = build_with_concurrency eng cpu setup db 1"

definition build_u8_with_concurrency ::
    "ntt_engine \<Rightarrow> cpu_features \<Rightarrow> native_public_setup \<Rightarrow> nat list \<Rightarrow> nat \<Rightarrow> native_server result" where
  "build_u8_with_concurrency eng cpu setup db concurrent_blocks =
     bindR (require_u8 setup) (\<lambda>_. build_server eng cpu setup Narrow db concurrent_blocks)"

definition database_bytes :: "native_server \<Rightarrow> nat" where
  "database_bytes sv = (case sv_db sv of U16 x \<Rightarrow> length x * 2 | U8 x \<Rightarrow> length x)"

definition is_u8_storage :: "native_server \<Rightarrow> bool" where
  "is_u8_storage sv = (case sv_db sv of U8 _ \<Rightarrow> True | U16 _ \<Rightarrow> False)"

definition server_bytes :: "native_server \<Rightarrow> nat" where
  "server_bytes sv = sum_list (map Native_Pack.coefficient_bytes (sv_pre sv))"

definition server_matrix_storage :: "native_server \<Rightarrow> matrix_storage list" where
  "server_matrix_storage sv = map (\<lambda>pre. storage (pre_h pre)) (sv_pre sv)"

section \<open>Model: masks and responses\<close>

definition published :: "native_server \<Rightarrow> native_published result" where
  "published sv =
     bindR (if pr_two_mask (ps_profile (sv_setup sv)) then
              mapR Some (collectR (\<lambda>pre. case pre_a_other pre of None \<Rightarrow> Inl (Panic ''unwrap on None'') | Some x \<Rightarrow> Inr x) (sv_pre sv))
            else Inr None) (\<lambda>others.
       case from_masks (sv_setup sv) (map pre_a (sv_pre sv)) others of
         Inl e \<Rightarrow> Inl (Panic ''server preprocessing produces canonical masks for its setup'')
       | Inr pb \<Rightarrow> Inr pb)"

definition key_length :: "native_profile \<Rightarrow> nat" where
  "key_length p =
     (let half = np_ell (pr_pack p) * np_d (pr_pack p); kg_len = packed_len half (full_bits p)
      in if pr_two_mask p then kg_len
         else if request_magic p = ascii ''RNQ1'' then packed_len (2 * half) (pr_kh_bits p)
         else kg_len + packed_len half (pr_kh_bits p))"

definition request_key_words :: "native_profile \<Rightarrow> byte list \<Rightarrow> nat list result" where
  "request_key_words p payload =
     (let half = np_ell (pr_pack p) * np_d (pr_pack p); kg_len = packed_len half (full_bits p)
      in if pr_two_mask p then decode payload half (full_bits p)
         else if request_magic p = ascii ''RNQ1'' then decode payload (2 * half) (pr_kh_bits p)
         else bindR (decode (take kg_len payload) half (full_bits p)) (\<lambda>words.
              bindR (decode (drop kg_len payload) half (pr_kh_bits p)) (\<lambda>sent.
              mapR (\<lambda>kh. words @ kh) (up sent (np_q (pr_pack p)) (pr_kh_bits p)))))"

definition scan :: "cpu_features \<Rightarrow> native_server \<Rightarrow> prepared_query \<Rightarrow> nat list result" where
  "scan cpu sv query =
     (let rows = pr_rows (ps_profile (sv_setup sv))
      in case (sv_db sv, sv_interleaved sv) of
           (U16 db, True) \<Rightarrow> mapR concat (collectR (\<lambda>band. multiply_interleaved query band 16) (chunks (rows * 16) db))
         | (U16 db, False) \<Rightarrow> collectR (query_dot cpu query) (chunks_exact rows db)
         | (U8 db, True) \<Rightarrow> mapR concat (collectR (\<lambda>band. multiply_interleaved_u8 query band 16) (chunks (rows * 16) db))
         | (U8 db, False) \<Rightarrow> collectR (query_dot_u8 cpu query) (chunks_exact rows db))"

definition pack_block :: "ntt_engine \<Rightarrow> cpu_features \<Rightarrow> bool \<Rightarrow> prepared_native_keys \<Rightarrow> native_preprocessed \<times> nat list \<Rightarrow> nat list result" where
  "pack_block eng cpu two_mask keys job =
     (case job of (pre, b) \<Rightarrow>
        bindR (prepare_pack eng cpu pre keys) (\<lambda>pending.
          if two_mask then mapR nt_b (finish_two_mask pending b) else mapR nc_b (finish pending b)))"

definition respond :: "ntt_engine \<Rightarrow> cpu_features \<Rightarrow> 'g rng_env \<Rightarrow> native_server \<Rightarrow> byte list \<Rightarrow> byte list result" where
  "respond eng cpu env sv bytes =
     (let p = ps_profile (sv_setup sv); q = np_q (pr_pack p); keys_len = key_length p
      in guardR (length bytes \<noteq> 36 + keys_len + packed_len (pr_rows p) (pr_query_bits p) \<or> take 4 bytes \<noteq> request_magic p
             \<or> take 32 (drop 4 bytes) \<noteq> ps_id (sv_setup sv)) (InvalidParams ''request/profile/setup mismatch'')
         (bindR (request_key_words p (take keys_len (drop 36 bytes))) (\<lambda>words.
          bindR (if pr_two_mask p then from_kg_words (ps_packing (sv_setup sv)) words else from_words (ps_packing (sv_setup sv)) words) (\<lambda>keys.
          bindR (bindR (decode (drop (36 + keys_len) bytes) (pr_rows p) (pr_query_bits p)) (\<lambda>ws. up ws q (pr_query_bits p))) (\<lambda>query.
          bindR (new_query cpu query q) (\<lambda>prepared_query.
          bindR (scan cpu sv prepared_query) (\<lambda>intermediate.
          bindR (case sv_pre sv of [] \<Rightarrow> Inl (Panic ''index out of bounds'') | pre # _ \<Rightarrow> prepare_keys eng pre keys) (\<lambda>prepared_keys.
          bindR (collectR (pack_block eng cpu (pr_two_mask p) prepared_keys) (zip (sv_pre sv) (chunks_exact (np_d (pr_pack p)) intermediate))) (\<lambda>bodies.
          mapR (\<lambda>ws. response_magic p @ ps_id (sv_setup sv) @ sha256 env bytes @ encode ws (pr_response_bits p))
            (down (concat bodies) q (pr_response_bits p)))))))))))"

section \<open>Scans\<close>

lemma chunks_chunks_exact:
  assumes "0 < n" and "length xs = m * n"
  shows "chunks n xs = chunks_exact n xs"
  using assms(2)
proof (induction m arbitrary: xs)
  case 0
  then show ?case using assms(1) by (simp add: chunks.simps chunks_exact.simps)
next
  case (Suc m)
  then have "length (drop n xs) = m * n" "xs \<noteq> []" "n \<le> length xs" using assms(1) by auto
  then show ?case using Suc.IH [of "drop n xs"] assms(1) by (simp add: chunks.simps [of n xs] chunks_exact.simps [of n xs])
qed

lemma column_product_chunk:
  "r < m \<Longrightarrow> column_product words q (chunk_at (length words * m) db c) r = column_product words q db (c * m + r)" for m :: nat
proof -
  assume r: "r < m"
  have "chunk_at (length words * m) db c ! (r * length words + i) = db ! ((c * m + r) * length words + i)" if i: "i < length words" for i
  proof -
    have "r * length words + i < length words * m" using row_slot [OF r i] by (simp add: mult.commute)
    then show ?thesis by (simp add: algebra_simps)
  qed
  then show ?thesis by (simp add: column_product_def)
qed

definition entry_bound :: "entry_width \<Rightarrow> nat" where
  "entry_bound w = (case w of Wide \<Rightarrow> 65536 | Narrow \<Rightarrow> 256)"

definition multiply_entries :: "entry_width \<Rightarrow> prepared_query \<Rightarrow> nat list \<Rightarrow> nat list result" where
  "multiply_entries w query band = (case w of Wide \<Rightarrow> multiply_interleaved query band 16 | Narrow \<Rightarrow> multiply_interleaved_u8 query band 16)"

lemma band_product:
  assumes new: "new_query cpu words q = Inr query" and rows: "0 < length words" "length words mod 4 = 0" "length words * 16 < 2 ^ 64"
    and band: "length band = length words * 16" "all_below (entry_bound w) band"
  shows "\<exists>tile. interleave_entries w (length words) band = Inr tile \<and> length tile = length words * 16
    \<and> multiply_entries w query tile = Inr (map (column_product words q band) [0..<16])"
proof -
  have one: "chunks_exact (length words * 16) band = [band]"
    using rows(1) band(1) by (simp add: chunks_exact.simps [of _ band] chunks_exact.simps [of _ "[]"])
  show ?thesis
  proof (cases w)
    case Wide
    let ?tile = "tile_u16 (length words) band"
    have t: "interleave_columns (length words) band = Inr ?tile" using rows(1,2) band(1) one by (simp add: interleave_columns_def)
    have "multiply_interleaved query ?tile 16 = Inr (map (column_product words q band) [0..<16])"
      using band(2) Wide by (intro interleaved_query_ok [OF new t _ band(1) _ rows(3)]) (simp_all add: entry_bound_def)
    then show ?thesis using Wide t by (simp add: multiply_entries_def tile_u16_def)
  next
    case Narrow
    let ?tile = "tile_u8 (length words) band"
    have t: "interleave_u8_columns (length words) band = Inr ?tile" using rows(1,2) band(1) one by (simp add: interleave_u8_columns_def)
    have "multiply_interleaved_u8 query ?tile 16 = Inr (map (column_product words q band) [0..<16])"
      using band(2) Narrow by (intro interleaved_u8_query_exact [OF new t _ band(1) _ rows(3)]) (simp_all add: entry_bound_def)
    then show ?thesis using Narrow t by (simp add: multiply_entries_def tile_u8_def)
  qed
qed

lemma dot_entries:
  assumes new: "new_query cpu words q = Inr query" and col: "length col = length words" "all_below (entry_bound w) col"
  shows "(case w of Wide \<Rightarrow> query_dot cpu' query col | Narrow \<Rightarrow> query_dot_u8 cpu' query col) = Inr (column_product words q col 0)"
proof (cases w)
  case Wide
  then show ?thesis using query_dot_exact [OF new, of col cpu'] col by (simp add: entry_bound_def)
next
  case Narrow
  note p = new_query_ok [OF new]
  have ok: "is_power_of_two q" "pq_mask query = q - 1" "all_below q words" "q \<le> 2 ^ 56" using p by (auto simp: query_ok_def)
  have w: "all_below (2 ^ 64) words" by (rule all_below_mono [OF ok(3)]) (use ok(4) in simp)
  have c: "all_below (2 ^ 64) col" by (rule all_below_mono [OF col(2)]) (use Narrow in \<open>simp add: entry_bound_def\<close>)
  obtain k where "k < 64" "q = 2 ^ k" using ok(1) by (auto simp: is_power_of_two_iff)
  then have "u64 (dot_sum col words) AND (q - 1) = dot_sum col words mod q" by (simp add: and_exp_minus_1 u64_mod_exp del: One_nat_def)
  then show ?thesis
    using dot_dispatch_ok(1) [OF col(1) c w, of cpu'] Narrow p(2) col(1) ok(2)
    by (simp add: query_dot_u8_def column_product_def dot_sum_def del: One_nat_def)
qed

lemma chunk_below:
  assumes "all_below b xs" and "length xs = n * m" and "c < n"
  shows "all_below b (chunk_at m xs c)"
proof -
  have "c * m + r < length xs" if "r < m" for r unfolding assms(2) by (rule row_slot [OF assms(3) that])
  then show ?thesis using all_below_nth [OF assms(1)] by (auto simp: all_below_set in_set_conv_nth)
qed

text \<open>The layout chosen at build time and the scan of a query multiply every column by the query.\<close>

lemma scan_ok:
  assumes new: "new_query cpu words q = Inr query" and rows: "length words = rows" "0 < rows"
    and db: "length db = rows * cols" "all_below (entry_bound w) db" and fits: "rows * cols < 2 ^ 64" "0 < cols"
    and il: "interleaved \<longleftrightarrow> rows mod 4 = 0 \<and> cols mod 16 = 0 \<and> supports_interleaved cpu'"
  shows "\<exists>db'. (if interleaved then mapR concat (collectR (interleave_entries w rows) (chunks (rows * 16) db)) else Inr db) = Inr db'
    \<and> (\<forall>sv. sv_db sv = wrap_entries w db' \<and> sv_interleaved sv = interleaved \<and> pr_rows (ps_profile (sv_setup sv)) = rows
        \<longrightarrow> scan cpu'' sv query = Inr (map (column_product words q db) [0..<cols]))"
proof (cases interleaved)
  case True
  then have r4: "rows mod 4 = 0" and c16: "cols mod 16 = 0" using il by simp_all
  then obtain n where n: "cols = n * 16" by (metis dvd_div_mult_self mod_0_imp_dvd)
  have "rows * 16 \<le> rows * cols" using fits(2) n by (intro mult_le_mono) simp_all
  then have r16: "rows * 16 < 2 ^ 64" using fits(1) by linarith
  have len: "length db = n * (rows * 16)" using db(1) n by (simp add: mult.commute mult.left_commute)
  have pos: "0 < rows * 16" using rows(2) by simp
  let ?band = "chunk_at (rows * 16) db"
  have split: "chunks (rows * 16) db = map ?band [0..<n]"
    unfolding chunks_chunks_exact [OF pos len] by (rule chunks_exact_chunk_at [OF pos len])
  obtain tile where tile: "\<And>c. c < n \<Longrightarrow> interleave_entries w rows (?band c) = Inr (tile c) \<and> length (tile c) = rows * 16
      \<and> multiply_entries w query (tile c) = Inr (map (column_product words q (?band c)) [0..<16])"
  proof -
    have "\<forall>c. \<exists>t. c < n \<longrightarrow> interleave_entries w rows (?band c) = Inr t \<and> length t = rows * 16
      \<and> multiply_entries w query t = Inr (map (column_product words q (?band c)) [0..<16])"
      using band_product [OF new] rows r4 r16 chunk_below [OF db(2) len] by (metis length_chunk_at)
    then show ?thesis using that by metis
  qed
  let ?db = "concat (map tile [0..<n])"
  have inter: "mapR concat (collectR (interleave_entries w rows) (chunks (rows * 16) db)) = Inr ?db"
    unfolding split collectR_map using tile by (subst collectR_all_Inr [where g = tile]) simp_all
  have tl: "length ?db = n * (rows * 16)" using tile by (subst length_concat_rows [of _ "rows * 16"]) auto
  have tiles: "chunks (rows * 16) ?db = map tile [0..<n]"
    unfolding chunks_chunks_exact [OF pos tl] using tile by (intro chunks_exact_concat pos) auto
  have "collectR (multiply_entries w query) (chunks (rows * 16) ?db) = Inr (map (\<lambda>c. map (\<lambda>r. column_product words q db (c * 16 + r)) [0..<16]) [0..<n])"
    unfolding tiles collectR_map
  proof (rule collectR_all_Inr)
    fix c assume "c \<in> set [0..<n]"
    then show "multiply_entries w query (tile c) = Inr (map (\<lambda>r. column_product words q db (c * 16 + r)) [0..<16])"
      using tile [of c] column_product_chunk [of _ 16 words q db c] rows(1) by simp
  qed
  moreover have "concat (map (\<lambda>c. map (\<lambda>r. column_product words q db (c * 16 + r)) [0..<16]) [0..<n]) = map (column_product words q db) [0..<n * 16]"
    by (rule concat_tiles)
  ultimately have "mapR concat (collectR (multiply_entries w query) (chunks (rows * 16) ?db)) = Inr (map (column_product words q db) [0..<cols])"
    using n by simp
  then have "scan cpu'' sv query = Inr (map (column_product words q db) [0..<cols])"
    if "sv_db sv = wrap_entries w ?db" "sv_interleaved sv" "pr_rows (ps_profile (sv_setup sv)) = rows" for sv
    using that by (cases w) (simp_all add: scan_def Let_def multiply_entries_def [abs_def])
  then show ?thesis using True inter by auto
next
  case False
  have len: "length db = cols * rows" using db(1) by (simp add: mult.commute)
  have split: "chunks_exact rows db = map (chunk_at rows db) [0..<cols]" by (rule chunks_exact_chunk_at [OF rows(2) len])
  have "(case w of Wide \<Rightarrow> query_dot cpu'' query (chunk_at rows db c) | Narrow \<Rightarrow> query_dot_u8 cpu'' query (chunk_at rows db c)) = Inr (column_product words q db c)"
    if c: "c < cols" for c
    using dot_entries [OF new _ chunk_below [OF db(2) len c], of cpu''] rows(1) column_product_chunk [of 0 1 words q db c] by simp
  then have "collectR (\<lambda>x. case w of Wide \<Rightarrow> query_dot cpu'' query x | Narrow \<Rightarrow> query_dot_u8 cpu'' query x) (chunks_exact rows db)
      = Inr (map (column_product words q db) [0..<cols])"
    unfolding split collectR_map by (intro collectR_all_Inr) simp
  then have "scan cpu'' sv query = Inr (map (column_product words q db) [0..<cols])"
    if "sv_db sv = wrap_entries w db" "\<not> sv_interleaved sv" "pr_rows (ps_profile (sv_setup sv)) = rows" for sv
    using that by (cases w) (simp_all add: scan_def Let_def)
  then show ?thesis using False by auto
qed

section \<open>Builds\<close>

definition hint :: "native_profile \<Rightarrow> nat list list \<Rightarrow> nat list \<Rightarrow> nat \<Rightarrow> nat list list" where
  "hint p polys db block =
     map (\<lambda>c. ring_dot (np_q (pr_pack p)) (np_d (pr_pack p)) polys
       (chunks_exact (np_d (pr_pack p)) (take (pr_rows p) (drop ((block * np_d (pr_pack p) + c) * pr_rows p) db)))) [0..<np_d (pr_pack p)]"

definition database_ok :: "native_profile \<Rightarrow> entry_width \<Rightarrow> nat list \<Rightarrow> bool" where
  "database_ok p w db \<longleftrightarrow> length db = pr_rows p * pr_cols p \<and> all_below (np_p (pr_pack p)) db \<and> all_below (entry_bound w) db"

lemma public_setup_ok:
  assumes "shape_ok p" and "new_public_setup env p seed snapshot = setup"
  shows "ps_profile setup = p" "ps_id setup = sha256 env (setup_preimage p seed snapshot)"
    "ps_packing setup = new_setup env (pr_pack p) (ps_id setup)" "setup_ok (ps_packing setup)" "ns_params (ps_packing setup) = pr_pack p"
    "length (ps_polys setup) = pr_rows p div np_d (pr_pack p)"
    "list_all (\<lambda>a. length a = np_d (pr_pack p) \<and> all_below (np_q (pr_pack p)) a) (ps_polys setup)"
proof -
  have good: "good_native (pr_pack p)" using assms(1) by (simp add: shape_ok_def)
  obtain k where k: "np_q (pr_pack p) = 2 ^ k" using native_modulus [OF good] by blast
  show "ps_profile setup = p" "ps_id setup = sha256 env (setup_preimage p seed snapshot)" "ps_packing setup = new_setup env (pr_pack p) (ps_id setup)"
    using assms(2) by (auto simp: new_public_setup_def Let_def split: prod.splits)
  then show "setup_ok (ps_packing setup)" "ns_params (ps_packing setup) = pr_pack p"
    using new_setup_ok [OF good] by simp_all
  obtain polys g where "draw_polys env (2 ^ k) (np_d (pr_pack p)) (pr_rows p div np_d (pr_pack p)) (from_seed env (ps_id setup)) = (polys, g)"
    "ps_polys setup = polys"
    using assms(2) k by (auto simp: new_public_setup_def Let_def split: prod.splits)
  then show "length (ps_polys setup) = pr_rows p div np_d (pr_pack p)"
    "list_all (\<lambda>a. length a = np_d (pr_pack p) \<and> all_below (np_q (pr_pack p)) a) (ps_polys setup)"
    using draw_polys_ok [of env k] k by auto
qed

lemma plaintext_centered:
  assumes "good_native params" and "x < np_p params"
  shows "x < np_q params" and "centered x (np_q params) = int x" and "x \<le> min (np_p params - 1) (np_q params div 2)" and "0 < min (np_p params - 1) (np_q params div 2)"
proof -
  obtain k l where h: "np_q params = 2 ^ k" "np_p params = 2 ^ l" "0 < l" "l < k" using assms(1) by (auto simp: good_native_def)
  have l: "l \<le> k - 1" "k = Suc (k - 1)" using h by simp_all
  have "np_q params div 2 = 2 ^ (k - 1)" unfolding h(1) by (subst l(2)) simp
  moreover have "(2::nat) ^ l \<le> 2 ^ (k - 1)" using l(1) by (intro power_increasing) simp_all
  ultimately have pq: "np_p params \<le> np_q params div 2" using h(2) by simp
  have "(2::nat) ^ 1 \<le> 2 ^ l" using h(3) by (intro power_increasing) simp_all
  then have p2: "2 \<le> np_p params" using h(2) by simp
  show "x < np_q params" "centered x (np_q params) = int x" "x \<le> min (np_p params - 1) (np_q params div 2)" "0 < min (np_p params - 1) (np_q params div 2)"
    using pq p2 assms(2) by (auto simp: centered_def)
qed

lemma column_chunks:
  assumes "0 < d" and "d dvd rows" and "length db = rows * cols" and "col < cols" and "all_below b db"
  defines "xs \<equiv> chunks_exact d (take rows (drop (col * rows) db))"
  shows "length xs = rows div d" and "\<And>x. x \<in> set xs \<Longrightarrow> length x = d \<and> all_below b x"
    and "\<And>j i. j < rows div d \<Longrightarrow> i < d \<Longrightarrow> xs ! j ! i = db ! (col * rows + (j * d + i))"
proof -
  let ?col = "take rows (drop (col * rows) db)"
  have "col * rows + rows \<le> length db"
  proof -
    have "Suc col * rows \<le> cols * rows" using assms(4) by (intro mult_le_mono1) simp
    then show ?thesis using assms(3) by (simp add: mult.commute)
  qed
  then have len: "length ?col = rows div d * d" using assms(2) by simp
  have eq: "xs = map (chunk_at d ?col) [0..<rows div d]" unfolding xs_def by (rule chunks_exact_chunk_at [OF assms(1) len])
  show "length xs = rows div d" by (simp add: eq)
  have below: "all_below b ?col" using assms(5) by (auto simp: all_below_set dest!: in_set_takeD in_set_dropD)
  show "\<And>x. x \<in> set xs \<Longrightarrow> length x = d \<and> all_below b x"
    using chunk_below [OF below len] by (auto simp: eq)
  fix j i assume ji: "j < rows div d" "i < d"
  have "j * d + i < rows" using row_slot [OF ji] assms(2) by simp
  then show "xs ! j ! i = db ! (col * rows + (j * d + i))" using ji \<open>col * rows + rows \<le> length db\<close> by (simp add: eq)
qed

lemma upt_shift: "[a..<a + k] = map (\<lambda>r. a + r) [0..<k]" for a :: nat
  by (rule nth_equalityI) simp_all

lemma batches: "0 < c \<Longrightarrow> n < 2 ^ 64 \<Longrightarrow> concat (map (\<lambda>start. map f [start..<min (min (start + c) (2 ^ 64 - 1)) n]) (step_by 0 n c)) = map f [0..<n]"
proof -
  assume c: "0 < c" and n: "n < 2 ^ 64"
  have "map f [t * c..<min (min (t * c + c) (2 ^ 64 - 1)) n] = map (\<lambda>r. f (t * c + r)) [0..<min c (n - t * c)]" for t
  proof -
    have "min (min (t * c + c) (2 ^ 64 - 1)) n = min (t * c + c) n" using n by simp
    moreover have "[t * c..<min (t * c + c) n] = map (\<lambda>r. t * c + r) [0..<min c (n - t * c)]"
    proof (cases "t * c \<le> n")
      case True
      then have "min (t * c + c) n = t * c + min c (n - t * c)" by simp
      then show ?thesis by (simp add: upt_shift)
    qed simp
    ultimately show ?thesis by (simp add: comp_def)
  qed
  then show ?thesis using concat_tiles_partial [OF c, of f n] by (simp add: step_by_def comp_def)
qed

lemma zero_query:
  assumes "good_native params"
  shows "\<exists>query. new_query cpu (replicate n 0) (np_q params) = Inr query"
proof -
  note N = good_nativeD [OF assms]
  have "2 \<le> np_q params" using N(5) by simp
  then show ?thesis using N(4,6) by (auto simp: new_query_def list_ex_iff split: prod.splits)
qed

lemma hint_ok:
  assumes laws: "ntt_laws eng (np_d (pr_pack p))" and ctx: "new_lift_context eng (np_d (pr_pack p)) (np_q (pr_pack p)) = Inr ctx" and p: "shape_ok p"
    and st: "new_public_setup env p seed snapshot = setup" and db: "database_ok p w db"
    and polys: "prepare_public_dot eng ctx (ps_polys setup) (min (np_p (pr_pack p) - 1) (np_q (pr_pack p) div 2)) = Inr polys"
    and block: "block < pr_cols p div np_d (pr_pack p)"
  shows "collectR (hint_column eng ctx polys p db) [block * np_d (pr_pack p)..<(block + 1) * np_d (pr_pack p)] = Inr (hint p (ps_polys setup) db block)"
    and "lwe_masks (pr_pack p) (hint p (ps_polys setup) db block)"
proof -
  let ?d = "np_d (pr_pack p)" and ?q = "np_q (pr_pack p)" and ?b = "min (np_p (pr_pack p) - 1) (np_q (pr_pack p) div 2)"
  have good: "good_native (pr_pack p)" and dims: "?d dvd pr_rows p" "?d dvd pr_cols p" "0 < pr_rows p" using p by (simp_all add: shape_ok_def)
  note G = new_lift_context_good [OF laws ctx] and PS = public_setup_ok [OF p st] and d = good_nativeD(1) [OF good]
  note D = prepare_public_dot_for [OF G(1) polys]
  let ?xs = "\<lambda>col. chunks_exact ?d (take (pr_rows p) (drop (col * pr_rows p) db))"
  have col: "block * ?d + c < pr_cols p" if "c < ?d" for c using row_slot [OF block that] dims(2) by simp
  have column: "hint_column eng ctx polys p db (block * ?d + c) = Inr (ring_dot ?q ?d (ps_polys setup) (?xs (block * ?d + c)))" if c: "c < ?d" for c
  proof -
    have dbs: "length db = pr_rows p * pr_cols p" "all_below (np_p (pr_pack p)) db" using db by (simp_all add: database_ok_def)
    note X = column_chunks [OF d dims(1) dbs(1) col [OF c] dbs(2)]
    have "public_dot eng ctx polys (?xs (block * ?d + c)) = Inr (ring_dot (lc_q ctx) (lc_d ctx) (ps_polys setup) (?xs (block * ?d + c)))"
    proof (rule dot_signed_ok [OF _ G(1) D(1)])
      show "ntt_laws eng (lc_d ctx)" using laws G(2) by simp
      show "length (?xs (block * ?d + c)) = length (ps_polys setup)" using X(1) PS(6) by simp
      fix x assume x: "x \<in> set (?xs (block * ?d + c))"
      have el: "x ! t < ?q \<and> centered (x ! t) ?q = int (x ! t) \<and> x ! t \<le> ?b" if "t < ?d" for t
        using plaintext_centered [OF good, of "x ! t"] X(2) [OF x] that by (auto dest: all_below_nth)
      then show "lift_valid ctx x \<and> (\<forall>t<lc_d ctx. \<bar>centred (lc_q ctx) x ! t\<bar> \<le> int (ppd_right_bound polys))"
        using X(2) [OF x] G(2,3) D(2) by (auto simp: lift_valid_def all_below_set in_set_conv_nth)
    qed
    then show ?thesis using G(2,3) by (simp add: hint_column_def)
  qed
  have "(block + 1) * ?d = block * ?d + ?d" by simp
  then show "collectR (hint_column eng ctx polys p db) [block * ?d..<(block + 1) * ?d] = Inr (hint p (ps_polys setup) db block)"
    unfolding hint_def using column by (simp only: upt_shift collectR_map, intro collectR_all_Inr) simp
  have ne: "ps_polys setup \<noteq> []" using PS(6) dims(1,3) d by (auto simp: dvd_div_eq_0_iff)
  have "length (ring_dot ?q ?d as bs) = ?d \<and> all_below ?q (ring_dot ?q ?d as bs)" for as bs
    using good_nativeD(5) [OF good] by (simp add: ring_dot_def all_below_set)
  then show "lwe_masks (pr_pack p) (hint p (ps_polys setup) db block)" by (auto simp: lwe_masks_def hint_def)
qed

lemma query_dot_total:
  assumes p: "shape_ok p" and ctx: "good_ctx ctx" "lc_d ctx = np_d (pr_pack p)" "lc_q ctx = np_q (pr_pack p)"
    and st: "new_public_setup env p seed snapshot = setup"
  shows "\<exists>polys. prepare_public_dot eng ctx (ps_polys setup) (min (np_p (pr_pack p) - 1) (np_q (pr_pack p) div 2)) = Inr polys"
proof -
  let ?d = "np_d (pr_pack p)" and ?b = "min (np_p (pr_pack p) - 1) (np_q (pr_pack p) div 2)"
  have good: "good_native (pr_pack p)" and dims: "?d dvd pr_rows p" "0 < pr_rows p" using p by (simp_all add: shape_ok_def)
  note PS = public_setup_ok [OF p st] and d = good_nativeD(1) [OF good]
  obtain l where "np_p (pr_pack p) = 2 ^ l" using good by (auto simp: good_native_def)
  then have b: "0 < ?b" "?b \<le> 65536" using plaintext_centered(4) [OF good, of 0] p by (auto simp: shape_ok_def)
  have "pr_rows p * pr_cols p \<le> 2 ^ 31" "pr_rows p \<le> pr_rows p * pr_cols p" using p by (auto simp: shape_ok_def split: if_splits)
  then have rows: "pr_rows p \<le> 2 ^ 31" by (rule le_trans [rotated])
  have "length (ps_polys setup) * ?d = pr_rows p" using PS(6) dims by simp
  have shuffle: "x * y * z * u * v = (x * z) * (y * u * v)" for x y z u v :: nat by simp
  have "length (ps_polys setup) * 2 ^ 55 * ?d * ?b * 2 = pr_rows p * (2 ^ 55 * ?b * 2)"
    unfolding shuffle [of "length (ps_polys setup)"] \<open>length (ps_polys setup) * ?d = pr_rows p\<close> ..
  also have "\<dots> \<le> 2 ^ 31 * (2 ^ 55 * 65536 * 2)" using rows b(2) by (intro mult_le_mono order_refl)
  also have "\<dots> < lc_product ctx" using good_ctxD(5) [OF ctx(1)] by (simp add: PRIMES_def)
  finally have room: "length (ps_polys setup) * 2 ^ 55 * lc_d ctx * ?b * 2 < lc_product ctx" by (simp add: ctx(2))
  have ne: "ps_polys setup \<noteq> []" using PS(6) dims d by (auto simp: dvd_div_eq_0_iff)
  have "\<exists>dot. prepare_public_dot eng ctx (ps_polys setup) ?b = Inr dot
    \<and> (length (ps_polys setup) * 2 ^ 55 * lc_d ctx * ?b * 2 < PRIMES ! 0 * PRIMES ! 1 \<longrightarrow> length (ppd_transforms dot) = 2)"
    using PS(7) b(1) room ctx(2,3) by (intro dot_total [OF ctx(1) ne]) (auto simp: lift_valid_def list_all_iff)
  then show ?thesis by blast
qed

lemma build_server_ok:
  assumes laws: "ntt_laws eng (np_d (pr_pack p))" and inv: "inverses_exist eng (np_d (pr_pack p))"
    and ctx: "new_lift_context eng (np_d (pr_pack p)) (np_q (pr_pack p)) = Inr ctx" and p: "shape_ok p"
    and st: "new_public_setup env p seed snapshot = setup" and db: "database_ok p w db" and conc: "0 < concurrent"
  shows "\<exists>sv. build_server eng cpu setup w db concurrent = Inr sv \<and> sv_setup sv = setup
    \<and> length (sv_pre sv) = pr_cols p div np_d (pr_pack p)
    \<and> (\<forall>block<pr_cols p div np_d (pr_pack p). lwe_masks (pr_pack p) (hint p (ps_polys setup) db block)
        \<and> built eng cpu (ps_packing setup) ctx (hint p (ps_polys setup) db block) (pr_two_mask p) (sv_pre sv ! block))
    \<and> (\<forall>cpu' cpu'' words query. new_query cpu' words (np_q (pr_pack p)) = Inr query \<and> length words = pr_rows p
        \<longrightarrow> scan cpu'' sv query = Inr (map (column_product words (np_q (pr_pack p)) db) [0..<pr_cols p]))"
proof -
  let ?d = "np_d (pr_pack p)" and ?q = "np_q (pr_pack p)" and ?n = "pr_cols p div np_d (pr_pack p)"
  have good: "good_native (pr_pack p)" and dims: "?d dvd pr_cols p" "0 < pr_rows p" "0 < pr_cols p" using p by (simp_all add: shape_ok_def)
  note G = new_lift_context_good [OF laws ctx] and PS = public_setup_ok [OF p st]
  have dbs: "length db = pr_rows p * pr_cols p" "all_below (np_p (pr_pack p)) db" "all_below (entry_bound w) db" using db by (simp_all add: database_ok_def)
  obtain polys where polys: "prepare_public_dot eng ctx (ps_polys setup) (min (np_p (pr_pack p) - 1) (?q div 2)) = Inr polys"
    using query_dot_total [OF p G st] by blast
  note H = hint_ok [OF laws ctx p st db polys]
  obtain pre where pre: "\<And>block. block < ?n \<Longrightarrow> build_block eng cpu setup ctx polys db block = Inr (pre block)
      \<and> built eng cpu (ps_packing setup) ctx (hint p (ps_polys setup) db block) (pr_two_mask p) (pre block)"
  proof -
    have "\<exists>x. build_block eng cpu setup ctx polys db block = Inr x
      \<and> built eng cpu (ps_packing setup) ctx (hint p (ps_polys setup) db block) (pr_two_mask p) x" if b: "block < ?n" for block
    proof -
      have m: "length (hint p (ps_polys setup) db block) = ?d"
        "\<And>row. row \<in> set (hint p (ps_polys setup) db block) \<Longrightarrow> length row = ?d \<and> all_below ?q row"
        using H(2) [OF b] by (simp_all add: lwe_masks_def)
      obtain x where "build_internal eng cpu (ps_packing setup) (hint p (ps_polys setup) db block) (pr_two_mask p) = Inr x"
        "built eng cpu (ps_packing setup) ctx (hint p (ps_polys setup) db block) (pr_two_mask p) x"
        using build_internal_ok [OF laws ctx inv PS(4,5) m] by blast
      moreover have "build_block eng cpu setup ctx polys db block = build_internal eng cpu (ps_packing setup) (hint p (ps_polys setup) db block) (pr_two_mask p)"
        using H(1) [OF b] PS(1) by (simp add: build_block_def Let_def build_def build_two_mask_def)
      ultimately show ?thesis by auto
    qed
    then show ?thesis using that by metis
  qed
  let ?starts = "step_by 0 ?n concurrent" and ?range = "\<lambda>start. [start..<min (min (start + concurrent) (2 ^ 64 - 1)) ?n]"
  have n64: "?n < 2 ^ 64"
  proof -
    have "pr_rows p * pr_cols p \<le> 2 ^ 31" "pr_cols p \<le> pr_rows p * pr_cols p" using p by (auto simp: shape_ok_def split: if_splits)
    then have "pr_cols p \<le> 2 ^ 31" by (rule le_trans [rotated])
    moreover have "?n \<le> pr_cols p" by (rule div_le_dividend)
    ultimately have "?n \<le> 2 ^ 31" by (rule le_trans [rotated])
    then show ?thesis by simp
  qed
  have "collectR (\<lambda>start. collectR (build_block eng cpu setup ctx polys db) (?range start)) ?starts = Inr (map (\<lambda>start. map pre (?range start)) ?starts)"
    using pre by (intro collectR_all_Inr) simp
  then have all: "mapR concat (collectR (\<lambda>start. collectR (build_block eng cpu setup ctx polys db) (?range start)) ?starts) = Inr (map pre [0..<?n])"
    using batches [OF conc n64, of pre] by simp
  let ?il = "pr_rows p mod 4 = 0 \<and> pr_cols p mod 16 = 0 \<and> supports_interleaved cpu"
  have fits: "pr_rows p * pr_cols p < 2 ^ 64" using p by (auto simp: shape_ok_def split: if_splits)
  obtain zero where zero: "new_query cpu (replicate (pr_rows p) 0) ?q = Inr zero" using zero_query [OF good] by blast
  obtain db' where db': "(if ?il then mapR concat (collectR (interleave_entries w (pr_rows p)) (chunks (pr_rows p * 16) db)) else Inr db) = Inr db'"
    using scan_ok [OF zero _ dims(2) dbs(1,3) fits dims(3) refl, of cpu cpu] unfolding length_replicate by blast
  let ?sv = "\<lparr>sv_setup = setup, sv_db = wrap_entries w db', sv_interleaved = ?il, sv_pre = map pre [0..<?n]\<rparr>"
  have range: "\<not> list_ex (\<lambda>x. x \<ge> np_p (pr_pack p)) db" using dbs(2) by (auto simp: list_ex_iff all_below_set not_le)
  have "build_server eng cpu setup w db concurrent = Inr ?sv"
    using conc dbs(1) range ctx polys all db' unfolding build_server_def Let_def PS(1) by simp
  moreover have scans: "scan cpu'' ?sv query = Inr (map (column_product words ?q db) [0..<pr_cols p])"
    if "new_query cpu' words ?q = Inr query" "length words = pr_rows p" for cpu' cpu'' words query
    using scan_ok [OF that dims(2) dbs(1,3) fits dims(3) refl, of cpu cpu''] db' PS(1) by fastforce
  moreover have "\<forall>block<?n. lwe_masks (pr_pack p) (hint p (ps_polys setup) db block)
      \<and> built eng cpu (ps_packing setup) ctx (hint p (ps_polys setup) db block) (pr_two_mask p) (sv_pre ?sv ! block)"
    using pre H(2) by simp
  moreover have "sv_setup ?sv = setup" "length (sv_pre ?sv) = ?n" by simp_all
  ultimately show ?thesis by blast
qed

end
