(* ===== verification/Native_Arrival.thy ===== *)
theory Native_Arrival
  imports Native_Server
begin

text \<open>
  What a request carries to the evaluator: sampled secrets are small, uploaded keys arrive as keys of the
  same secret with the rounding of their transport width added to the noise, and query words arrive
  within the rounding of the query width.
\<close>

section \<open>Secrets and keys\<close>

lemma sampled_secret:
  assumes law: "gauss_law env (np_q p)" and p: "np_sampler p = Gaussian"
  shows "\<exists>s g'. sample_secret env p g = Some (s, g') \<and> sec_params s = p \<and> small_secret p (sec_coeffs s) 65"
proof -
  have "\<exists>xs g'. secret_coeffs env p n g = Some (xs, g') \<and> length xs = n \<and> (\<forall>x\<in>set xs. x < np_q p \<and> \<bar>centered x (np_q p)\<bar> \<le> 65)" for n
  proof (induction n arbitrary: g)
    case (Suc n)
    obtain x g1 where x: "gauss_sample env (np_q p) g = (x, g1)" by (cases "gauss_sample env (np_q p) g")
    then have "x < np_q p" "\<bar>centered x (np_q p)\<bar> \<le> 65" using gauss_lawD [OF law x] by (simp_all add: GAUSS_MAX_def)
    then show ?case using Suc.IH [of g1] x p by (auto simp: secret_coeff_def)
  qed simp
  then obtain xs g' where xs: "secret_coeffs env p (np_d p) g = Some (xs, g')" "length xs = np_d p"
    "\<forall>x\<in>set xs. x < np_q p \<and> \<bar>centered x (np_q p)\<bar> \<le> 65" by blast
  then show ?thesis by (auto simp: sample_secret_def small_secret_def all_below_set)
qed

lemma small_secret_ok: "good_native p \<Longrightarrow> sec_params s = p \<Longrightarrow> small_secret p (sec_coeffs s) B \<Longrightarrow> secret_ok s"
  by (simp add: secret_ok_def small_secret_def)

lemma generate_one_key_ok:
  assumes "ntt_laws eng (np_d p)" and "new_lift_context eng (np_d p) (np_q p) = Inr ctx" and "gauss_law env (np_q p)"
    and "secret_ok s" and "sec_params s = p" and "good_native p" and setup_def: "setup = new_setup env p seed"
  shows "\<exists>keys g'. generate_one_key eng env setup s g = Inr (keys, g') \<and> nk_id keys = ns_id setup \<and> nk_kh keys = []
    \<and> key_for p (sec_coeffs s) (5 mod (2 * np_d p)) (ns_w setup) (nk_kg keys) 65"
proof -
  note st = new_setup_ok [OF assms(6), of env seed, folded setup_def]
  have s: "length (sec_coeffs s) = np_d p" "all_below (np_q p) (sec_coeffs s)" using assms(4,5) by (simp_all add: secret_ok_def)
  have ws: "list_all (\<lambda>a. length a = np_d p \<and> all_below (np_q p) a) (ns_w setup)" using st by (simp add: setup_ok_def)
  obtain kg g1 where "key_bodies eng env ctx s (tau_coeffs (sec_coeffs s) (5 mod (2 * np_d p)) (np_q p)) 0 (ns_w setup) g = Inr (kg, g1)"
    "key_for p (sec_coeffs s) (5 mod (2 * np_d p)) (ns_w setup) kg 65"
    using key_bodies_ok [OF assms(1,2,3,6,5) s ws, of "tau_coeffs (sec_coeffs s) (5 mod (2 * np_d p)) (np_q p)" 0 g]
    unfolding key_for_def GAUSS_MAX_def add_0 of_nat_numeral by blast
  then show ?thesis using assms(2,5) st(2) by (simp add: generate_one_key_def generate_internal_def Let_def)
qed

text \<open>Rounded keys are keys with more noise.\<close>

lemma key_for_near:
  assumes key: "key_for p s g ws ks E" and len: "length ks' = length ks"
    and ks': "\<And>j. j < length ks \<Longrightarrow> length (ks' ! j) = np_d p \<and> all_below (np_q p) (ks' ! j)
      \<and> (\<forall>i<np_d p. near (np_q p) r (int (ks ! j ! i)) (int (ks' ! j ! i)))"
  shows "key_for p s g ws ks' (E + r)"
  unfolding key_for_def
proof (intro conjI allI impI)
  have lw: "length ks = length ws" using key by (simp add: key_for_def)
  then show "length ks' = length ws" using len by simp
  fix j assume "j < length ws"
  then have j: "j < length ks" using lw by simp
  show "length (ks' ! j) = np_d p" "all_below (np_q p) (ks' ! j)" using ks' [OF j] by blast+
  fix i assume i: "i < np_d p"
  let ?x = "int (schoolbook_negacyclic (ws ! j) s (np_q p) ! i)"
  have one: "near (np_q p) E (int (tau_coeffs s g (np_q p) ! i) * int (factor p j)) (int (ks ! j ! i) + ?x)"
    using key i j lw by (simp add: key_for_def)
  have "near (np_q p) (r + 0) (int (ks ! j ! i) + ?x) (int (ks' ! j ! i) + ?x)"
    using ks' [OF j] i by (intro near_add near_refl) simp_all
  then show "near (np_q p) (E + r) (int (tau_coeffs s g (np_q p) ! i) * int (factor p j)) (int (ks' ! j ! i) + ?x)"
    using near_trans [OF one] by fastforce
qed

lemma key_for_mono: "key_for p s g ws ks E \<Longrightarrow> E \<le> E' \<Longrightarrow> key_for p s g ws ks E'"
  unfolding key_for_def using near_mono by blast

lemma round_radius_nonneg: "0 \<le> round_radius k b"
  by (simp add: round_radius_def)

lemma key_for_received:
  assumes key: "key_for p s g ws ks E" and q: "np_q p = 2 ^ k" and b: "b \<le> k" "k < 64"
  shows "key_for p s g ws (map (map (received k b)) ks) (E + round_radius k b)"
proof (rule key_for_near [OF key])
  fix j assume j: "j < length ks"
  then have "length (ks ! j) = np_d p" "all_below (np_q p) (ks ! j)" using key by (auto simp: key_for_def)
  then show "length (map (map (received k b)) ks ! j) = np_d p \<and> all_below (np_q p) (map (map (received k b)) ks ! j)
      \<and> (\<forall>i<np_d p. near (np_q p) (round_radius k b) (int (ks ! j ! i)) (int (map (map (received k b)) ks ! j ! i)))"
    using received_props(1,2) [OF _ b] j by (auto simp: q all_below_set)
qed simp

section \<open>Keys on the wire\<close>

definition key_rows :: "native_params \<Rightarrow> nat \<Rightarrow> nat list list \<Rightarrow> bool" where
  "key_rows p n rows \<longleftrightarrow> length rows = n \<and> (\<forall>a\<in>set rows. length a = np_d p \<and> all_below (np_q p) a)"

lemma key_for_rows: "key_for p s g ws ks E \<Longrightarrow> key_rows p (length ws) ks"
  by (auto simp: key_for_def key_rows_def in_set_conv_nth)

lemma key_rows_concat:
  assumes "key_rows p n rows" and "0 < np_d p"
  shows "length (concat rows) = n * np_d p" "all_below (np_q p) (concat rows)" "chunks_exact (np_d p) (concat rows) = rows"
proof -
  show "length (concat rows) = n * np_d p" using assms(1) by (auto simp: key_rows_def length_concat_rows [of rows "np_d p"])
  show "all_below (np_q p) (concat rows)" using assms(1) by (auto simp: key_rows_def all_below_set)
  show "chunks_exact (np_d p) (concat rows) = rows" using assms by (intro chunks_exact_concat) (auto simp: key_rows_def)
qed

lemma key_rows_append: "key_rows p n xs \<Longrightarrow> key_rows p m ys \<Longrightarrow> key_rows p (n + m) (xs @ ys)"
  by (auto simp: key_rows_def)

lemma from_words_rows:
  assumes "ns_params setup = p" and "0 < np_d p" and "key_rows p (np_ell p) kg" "key_rows p (np_ell p) kh"
  shows "from_words setup (concat kg @ concat kh) = Inr \<lparr>nk_id = ns_id setup, nk_kg = kg, nk_kh = kh\<rparr>"
proof -
  note C = key_rows_concat [OF key_rows_append [OF assms(3,4)] assms(2)]
  have "2 * np_ell p * np_d p = (np_ell p + np_ell p) * np_d p" by (simp add: algebra_simps)
  moreover have "\<not> list_ex (\<lambda>x. x \<ge> np_q p) (concat kg @ concat kh)" using C(2) by (auto simp: list_ex_iff all_below_set not_le)
  moreover have "length kg = np_ell p" using assms(3) by (simp add: key_rows_def)
  ultimately show ?thesis using C(1,3) unfolding from_words_def Let_def assms(1) by simp
qed

lemma from_kg_words_rows:
  assumes "ns_params setup = p" and "0 < np_d p" and "key_rows p (np_ell p) kg"
  shows "from_kg_words setup (concat kg) = Inr \<lparr>nk_id = ns_id setup, nk_kg = kg, nk_kh = []\<rparr>"
proof -
  note C = key_rows_concat [OF assms(3,2)]
  have "\<not> list_ex (\<lambda>x. x \<ge> np_q p) (concat kg)" using C(2) by (auto simp: list_ex_iff all_below_set not_le)
  then show ?thesis using C(1,3) unfolding from_kg_words_def Let_def assms(1) by simp
qed

definition arrived_kh :: "native_profile \<Rightarrow> native_keys \<Rightarrow> nat list list" where
  "arrived_kh p keys = (if pr_two_mask p then [] else map (map (received (full_bits p) (pr_kh_bits p))) (nk_kh keys))"

definition request_keys :: "native_public_setup \<Rightarrow> byte list \<Rightarrow> native_keys result" where
  "request_keys setup payload =
     bindR (request_key_words (ps_profile setup) payload) (\<lambda>words.
       if pr_two_mask (ps_profile setup) then from_kg_words (ps_packing setup) words else from_words (ps_packing setup) words)"

lemma key_rows_received:
  assumes "key_rows p n rows" and "np_q p = 2 ^ k" and "b \<le> k" "k < 64"
  shows "key_rows p n (map (map (received k b)) rows)"
  using assms received_props(1) [OF _ assms(3,4)] by (auto simp: key_rows_def all_below_set)

lemma encode_full:
  assumes "1 \<le> b" and "b \<le> 64" and "all_below (2 ^ b) ws" and "length ws = n"
  shows "length (encode ws b) = packed_len n b" and "decode (encode ws b) n b = Inr ws"
  using encode_props(1) [OF assms(1,2), of ws] decode_encode [OF assms(1-3), of n] assms(4) by simp_all

lemma keys_arrive:
  assumes p: "shape_ok p" "widths_ok p" and st: "ps_profile setup = p" "ns_params (ps_packing setup) = pr_pack p"
    and kg: "key_rows (pr_pack p) (np_ell (pr_pack p)) (nk_kg keys)"
    and kh: "key_rows (pr_pack p) (if pr_two_mask p then 0 else np_ell (pr_pack p)) (nk_kh keys)"
  shows "\<exists>payload. key_payload p keys = Inr payload \<and> length payload = key_length p
    \<and> request_keys setup payload = Inr \<lparr>nk_id = ns_id (ps_packing setup), nk_kg = nk_kg keys, nk_kh = arrived_kh p keys\<rparr>"
proof -
  let ?d = "np_d (pr_pack p)" and ?q = "np_q (pr_pack p)" and ?l = "np_ell (pr_pack p)" and ?k = "full_bits p" and ?b = "pr_kh_bits p"
  note W = profile_widths [OF p]
  have d: "0 < ?d" using p(1) good_nativeD(1) by (auto simp: shape_ok_def)
  have k: "1 \<le> ?k" "?k \<le> 64" "?k < 64" using W(2,3) by simp_all
  note G = key_rows_concat [OF kg d]
  have qk: "all_below (2 ^ ?k) ws \<longleftrightarrow> all_below ?q ws" for ws using W(1) by simp
  note EG = encode_full [OF k(1,2) _ G(1), unfolded qk, OF G(2)]
  consider "pr_two_mask p" | "\<not> pr_two_mask p" "?b = ?k" | "\<not> pr_two_mask p" "?b \<noteq> ?k" by blast
  then show ?thesis
  proof cases
    case 1
    have "key_payload p keys = Inr (encode (concat (nk_kg keys)) ?k)" using 1 by (simp add: key_payload_def Let_def kg_words_def)
    moreover have "length (encode (concat (nk_kg keys)) ?k) = key_length p" using 1 EG(1) by (simp add: key_length_def Let_def)
    moreover have "request_keys setup (encode (concat (nk_kg keys)) ?k) = Inr \<lparr>nk_id = ns_id (ps_packing setup), nk_kg = nk_kg keys, nk_kh = arrived_kh p keys\<rparr>"
      using 1 EG(2) from_kg_words_rows [OF st(2) d kg] by (simp add: request_keys_def request_key_words_def Let_def st(1) arrived_kh_def)
    ultimately show ?thesis by blast
  next
    case 2
    then have kh': "key_rows (pr_pack p) ?l (nk_kh keys)" using kh by simp
    note H = key_rows_concat [OF key_rows_append [OF kg kh'] d]
    have n: "(?l + ?l) * ?d = 2 * (?l * ?d)" by simp
    note E = encode_full [OF k(1,2) _ H(1), unfolded qk n, OF H(2)]
    have magic: "request_magic p = ascii ''RNQ1''" using 2 by (simp add: request_magic_simps)
    let ?pay = "encode (concat (nk_kg keys @ nk_kh keys)) ?k"
    have same: "arrived_kh p keys = nk_kh keys"
      using 2 kh' received_props(4) [OF _ W(9) k(3)] W(1) by (auto simp: arrived_kh_def key_rows_def all_below_set intro!: map_idI)
    have "key_payload p keys = Inr ?pay" using 2 magic by (simp add: key_payload_def Let_def key_words_def)
    moreover have "length ?pay = key_length p" using 2 E(1) magic by (simp add: key_length_def Let_def)
    moreover have "request_keys setup ?pay = Inr \<lparr>nk_id = ns_id (ps_packing setup), nk_kg = nk_kg keys, nk_kh = arrived_kh p keys\<rparr>"
      using 2 E(2) magic from_words_rows [OF st(2) d kg kh'] by (simp add: request_keys_def request_key_words_def Let_def st(1) same)
    ultimately show ?thesis by blast
  next
    case 3
    then have kh': "key_rows (pr_pack p) ?l (nk_kh keys)" using kh by simp
    note H = key_rows_concat [OF kh' d]
    have below: "all_below (2 ^ ?k) (concat (nk_kh keys))" using H(2) W(1) by simp
    note S = sent_received [OF W(8,9) k(3) below]
    have magic: "request_magic p \<noteq> ascii ''RNQ1''" using 3 by (simp add: request_magic_simps)
    let ?sent = "map (down_word (?k - ?b) ?b) (concat (nk_kh keys))" and ?kgb = "encode (concat (nk_kg keys)) ?k"
    have b64: "?b \<le> 64" using W(9) k(2) by simp
    have ls: "length (encode ?sent ?b) = packed_len (?l * ?d) ?b" using encode_full(1) [OF W(8) b64 S(2)] H(1) by simp
    let ?pay = "?kgb @ encode ?sent ?b"
    have split: "take (?l * ?d) (key_words keys) = concat (nk_kg keys)" "drop (?l * ?d) (key_words keys) = concat (nk_kh keys)"
      using G(1) by (simp_all add: key_words_def)
    have "key_payload p keys = Inr ?pay" using 3 magic S(1) W(1) split by (simp add: key_payload_def Let_def)
    moreover have "length ?pay = key_length p" using 3 EG(1) ls magic by (simp add: key_length_def Let_def)
    moreover have "request_key_words p ?pay = Inr (concat (nk_kg keys) @ concat (arrived_kh p keys))"
    proof -
      have "take (packed_len (?l * ?d) ?k) ?pay = ?kgb" "drop (packed_len (?l * ?d) ?k) ?pay = encode ?sent ?b" using EG(1) by simp_all
      moreover have "decode (encode ?sent ?b) (?l * ?d) ?b = Inr ?sent" using S(3) H(1) by simp
      moreover have "map (received ?k ?b) (concat (nk_kh keys)) = concat (arrived_kh p keys)" using 3 by (simp add: arrived_kh_def map_concat)
      ultimately show ?thesis using 3 magic EG(2) S(4) W(1) by (simp add: request_key_words_def Let_def)
    qed
    moreover have "key_rows (pr_pack p) ?l (arrived_kh p keys)"
      using 3 key_rows_received [OF kh' W(1,9) k(3)] by (simp add: arrived_kh_def)
    ultimately show ?thesis using 3 from_words_rows [OF st(2) d kg] by (auto simp: request_keys_def st(1))
  qed
qed

section \<open>Queries on the wire\<close>

definition query_radius :: "native_profile \<Rightarrow> int" where
  "query_radius p = (if pr_dithered p then 2 ^ (full_bits p - pr_query_bits p) - 1 else round_radius (full_bits p) (pr_query_bits p))"

lemma dither_word_arrives:
  assumes x: "x < 2 ^ k" and b: "b \<le> k" "k < 64"
  shows "dither_word (k - b) b r x < 2 ^ b"
    and "near (2 ^ k) (2 ^ (k - b) - 1) (int x) (int (u64 (push_bit (k - b) (dither_word (k - b) b r x))))"
proof -
  let ?m = "(2::nat) ^ (k - b)" and ?c = "if r mod 2 ^ (k - b) < x mod 2 ^ (k - b) then 1 else (0::nat)"
  have v: "dither_word (k - b) b r x = (x div ?m + ?c) mod 2 ^ b" by (rule dither_word_cases [OF assms])
  show less: "dither_word (k - b) b r x < 2 ^ b" by (simp add: v)
  have m: "0 < ?m" by simp
  have q: "(2::nat) ^ b * ?m = 2 ^ k" using b by (simp flip: power_add)
  have x': "int x = int (x div ?m) * int ?m + int (x mod ?m)" by (metis div_mult_mod_eq of_nat_add of_nat_mult)
  have small: "int (x mod ?m) < int ?m" by (metis m mod_less_divisor of_nat_less_iff)
  have "near (2 ^ k) (2 ^ (k - b) - 1) (int x) (int (x div ?m + ?c) * int ?m)"
  proof (rule nearI [of "int ?c * int ?m - int (x mod ?m)"])
    show "\<bar>int ?c * int ?m - int (x mod ?m)\<bar> \<le> 2 ^ (k - b) - 1" using small by auto
    show "int (x div ?m + ?c) * int ?m mod int (2 ^ k) = (int x + (int ?c * int ?m - int (x mod ?m))) mod int (2 ^ k)"
      unfolding x' by (simp add: algebra_simps)
  qed
  then have "near (2 ^ b * ?m) (2 ^ (k - b) - 1) (int x) (int (x div ?m + ?c) * int ?m)" unfolding q .
  then have "near (2 ^ b * ?m) (2 ^ (k - b) - 1) (int x) (int ((x div ?m + ?c) mod 2 ^ b) * int ?m)" unfolding near_mult_mod [OF m] .
  moreover have "int (u64 (push_bit (k - b) (dither_word (k - b) b r x))) = int ((x div ?m + ?c) mod 2 ^ b) * int ?m"
    using arg_cong [OF up_word [OF less b], of int] unfolding of_nat_mult v .
  ultimately show "near (2 ^ k) (2 ^ (k - b) - 1) (int x) (int (u64 (push_bit (k - b) (dither_word (k - b) b r x))))" unfolding q by (simp only:)
qed

lemma dither_loop_arrives:
  assumes "all_below (2 ^ k) xs" and b: "b \<le> k" "k < 64" and "dither_loop nx (k - b) b xs g = (ys, g')"
  shows "length ys = length xs \<and> all_below (2 ^ b) ys
    \<and> (\<forall>i<length xs. near (2 ^ k) (2 ^ (k - b) - 1) (int (xs ! i)) (int (u64 (push_bit (k - b) (ys ! i)))))"
  using assms(1,4)
proof (induction xs arbitrary: g ys)
  case (Cons x xs)
  obtain r g1 where r: "nx g = (r, g1)" by (cases "nx g")
  obtain ys' where ys: "dither_loop nx (k - b) b xs g1 = (ys', g')" "ys = dither_word (k - b) b r x # ys'"
    using Cons.prems(2) by (auto simp: r Let_def split: prod.splits)
  have x: "x < 2 ^ k" "all_below (2 ^ k) xs" using Cons.prems(1) by simp_all
  show ?case using Cons.IH [OF x(2) ys(1)] dither_word_arrives [OF x(1) b, of r] unfolding ys(2) by (auto simp: nth_Cons split: nat.split)
qed simp

lemma query_arrives:
  assumes p: "shape_ok p" "widths_ok p" and ws: "length ws = pr_rows p" "all_below (np_q (pr_pack p)) ws"
  shows "\<exists>sent g' arrived. query_payload env p ws g = Inr (sent, g')
    \<and> length (encode sent (pr_query_bits p)) = packed_len (pr_rows p) (pr_query_bits p)
    \<and> bindR (decode (encode sent (pr_query_bits p)) (pr_rows p) (pr_query_bits p)) (\<lambda>x. up x (np_q (pr_pack p)) (pr_query_bits p)) = Inr arrived
    \<and> length arrived = pr_rows p \<and> all_below (np_q (pr_pack p)) arrived
    \<and> (\<forall>i<pr_rows p. near (np_q (pr_pack p)) (query_radius p) (int (ws ! i)) (int (arrived ! i)))"
proof -
  let ?k = "full_bits p" and ?b = "pr_query_bits p" and ?q = "np_q (pr_pack p)"
  note W = profile_widths [OF p]
  have k: "?k < 64" "?b \<le> 64" using W(3,7) by simp_all
  have below: "all_below (2 ^ ?k) ws" using ws(2) W(1) by simp
  have tz: "trailing_zeros ?q = ?k" by (simp add: full_bits_def)
  obtain sent g' where sent: "query_payload env p ws g = Inr (sent, g')" "length sent = pr_rows p" "all_below (2 ^ ?b) sent"
    "\<And>i. i < pr_rows p \<Longrightarrow> near (2 ^ ?k) (query_radius p) (int (ws ! i)) (int (u64 (push_bit (?k - ?b) (sent ! i))))"
  proof (cases "pr_dithered p")
    case True
    obtain ys g' where ys: "dither_loop (next_u64 env) (?k - ?b) ?b ws g = (ys, g')" by (cases "dither_loop (next_u64 env) (?k - ?b) ?b ws g")
    have "query_payload env p ws g = Inr (ys, g')"
      using True W(7) tz ys by (simp add: query_payload_def down_dithered_def)
    then show ?thesis using that dither_loop_arrives [OF below W(7) k(1) ys] ws(1) True by (simp add: query_radius_def)
  next
    case False
    note S = sent_received [OF W(6,7) k(1) below]
    have "query_payload env p ws g = Inr (map (down_word (?k - ?b) ?b) ws, g)" using False S(1) W(1) by (simp add: query_payload_def)
    moreover have "near (2 ^ ?k) (query_radius p) (int (ws ! i)) (int (u64 (push_bit (?k - ?b) (map (down_word (?k - ?b) ?b) ws ! i))))" if "i < pr_rows p" for i
      using received_props(2) [OF _ W(7) k(1), of "ws ! i"] below ws(1) that False
      by (simp add: query_radius_def received_def all_below_nth)
    ultimately show ?thesis using that S(2) ws(1) by simp
  qed
  note E = encode_full [OF W(6) k(2) sent(3,2)]
  let ?arr = "map (\<lambda>x. u64 (push_bit (?k - ?b) x)) sent"
  have "up sent ?q ?b = Inr ?arr" using up_ok [OF k(1) W(7)] W(1) by simp
  moreover have "all_below ?q ?arr" using sent(3) up_word_less [OF _ W(7) k(1)] W(1) by (auto simp: all_below_set)
  ultimately show ?thesis using sent E W(1) by auto
qed

end
