(* ===== verification/Native_Protocol.thy ===== *)
theory Native_Protocol
  imports Native_Arrival
begin

text \<open>
  The whole protocol: a request of the client (\<open>ipir-native-client/src/lib.rs\<close>) answered by the
  evaluator (\<open>ipir-sp/src/native.rs\<close>) decodes to the selected row of the database, with every source of
  error (sample noise, query rounding, key rounding, division, key switching, mask rounding and
  response rounding) in one explicit bound.
\<close>

section \<open>The first dimension\<close>

lemma conjugate_index: "antiper d f \<Longrightarrow> 0 < d \<Longrightarrow> f (int i - int j * int (2 * d - 1)) = f (int i + int j)"
proof -
  assume f: "antiper d f" and d: "0 < d"
  have h: "int (2 * d - 1) = 2 * int d - 1" using d by simp
  have "int i - int j * int (2 * d - 1) = (int i + int j) + 2 * int d * (- int j)" unfolding h by (simp add: algebra_simps)
  then show "f (int i - int j * int (2 * d - 1)) = f (int i + int j)" by (simp only: antiper_double [OF f])
qed

text \<open>Multiplying the secret by the conjugate mask is adjoint to multiplying the database by the mask.\<close>

lemma mask_adjoint:
  assumes a: "canon q d a" and x: "canon q d x" and s: "canon q d s" and h: "d * (2 * d - 1) < 2 ^ 64"
  shows "eqm q (\<Sum>i<d. int (x ! i) * int (schoolbook_negacyclic (tau_coeffs a (2 * d - 1) q) s q ! i))
    (\<Sum>i<d. int (schoolbook_negacyclic a x q ! i) * int (s ! i))"
proof -
  let ?h = "2 * d - 1" and ?A = "ext a" and ?X = "ext x" and ?S = "ext s"
  have d: "0 < d" using canonD [OF a] by simp
  have anti: "antiper d ?A" "antiper d ?X" "antiper d ?S" using a x s canon_antiper by blast+
  note T = ext_tau_coeffs [OF a h]
  have nths: "int (x ! i) = ?X (int i)" "int (s ! i) = ?S (int i)" if "i < d" for i
    using that canonD(4) [OF x] canonD(4) [OF s] by (simp_all add: ext_nth)
  have left: "eqm q (int (schoolbook_negacyclic (tau_coeffs a ?h q) s q ! i)) (\<Sum>j<d. ?A (int j) * ?S (int i + int j))" if i: "i < d" for i
  proof -
    have len: "length (schoolbook_negacyclic (tau_coeffs a ?h q) s q) = d" using canonD(4) [OF schoolbook_negacyclic_nth(1) [OF T(1) s]] .
    have "eqm q (ext (schoolbook_negacyclic (tau_coeffs a ?h q) s q) (int i)) (conv d (ext (tau_coeffs a ?h q)) ?S (int i))"
      by (rule ext_schoolbook [OF T(1) s])
    also have "eqm q \<dots> (conv d (tau d ?h ?A) ?S (int i))" by (rule conv_cong [OF T(2) eqm_refl])
    also have "conv d (tau d ?h ?A) ?S (int i) = (\<Sum>j<d. ?A (int j) * ?S (int i + int j))"
      unfolding conv_tau [OF d anti(3)] conjugate_index [OF anti(3) d] ..
    finally show ?thesis using i len by (simp add: ext_nth)
  qed
  have right: "eqm q (int (schoolbook_negacyclic a x q ! i)) (\<Sum>j<d. ?A (int j) * ?X (int i - int j))" if i: "i < d" for i
    using ext_schoolbook [OF a x, of "int i"] i canonD(4) [OF schoolbook_negacyclic_nth(1) [OF a x]] by (simp add: ext_nth conv_def)
  have "eqm q (\<Sum>i<d. int (x ! i) * int (schoolbook_negacyclic (tau_coeffs a ?h q) s q ! i))
      (\<Sum>i<d. ?X (int i) * (\<Sum>j<d. ?A (int j) * ?S (int i + int j)))"
    using left nths by (intro eqm_sum eqm_mult) simp_all
  also have "(\<Sum>i<d. ?X (int i) * (\<Sum>j<d. ?A (int j) * ?S (int i + int j))) = (\<Sum>j<d. ?A (int j) * (\<Sum>i<d. ?X (int i) * ?S (int i + int j)))"
    unfolding sum_distrib_left by (subst sum.swap) (simp add: mult.left_commute)
  also have "\<dots> = (\<Sum>j<d. ?A (int j) * (\<Sum>i<d. ?X (int i - int j) * ?S (int i)))"
  proof (rule sum.cong [OF refl])
    fix j
    have "?X (k + int d - int j) * ?S (k + int d) = ?X (k - int j) * ?S k" for k
      using antiperD [OF anti(2), of "k - int j"] antiperD [OF anti(3), of k] by (simp add: algebra_simps)
    from sum_shift [where P = "\<lambda>m. ?X (m - int j) * ?S m" and a = "int j", OF this]
    show "?A (int j) * (\<Sum>i<d. ?X (int i) * ?S (int i + int j)) = ?A (int j) * (\<Sum>i<d. ?X (int i - int j) * ?S (int i))" by simp
  qed
  also have "\<dots> = (\<Sum>i<d. (\<Sum>j<d. ?A (int j) * ?X (int i - int j)) * ?S (int i))"
    unfolding sum_distrib_left sum_distrib_right by (subst sum.swap) (simp add: mult.assoc)
  also have "eqm q \<dots> (\<Sum>i<d. int (schoolbook_negacyclic a x q ! i) * int (s ! i))"
    using eqm_sym [OF right] nths by (intro eqm_sum eqm_mult) simp_all
  finally show ?thesis .
qed

lemma near_times:
  assumes "near q r x y" and "\<bar>c\<bar> \<le> M"
  shows "near q (M * r) (c * x) (c * y)"
proof -
  obtain e where e: "\<bar>e\<bar> \<le> r" "y mod int q = (x + e) mod int q" using assms(1) by (auto simp: near_def)
  have "\<bar>c * e\<bar> \<le> M * r" unfolding abs_mult using e(1) assms(2) by (intro mult_mono) auto
  moreover have "c * y mod int q = (c * x + c * e) mod int q"
    using e(2) by (metis distrib_left mod_mult_right_eq)
  ultimately show ?thesis by (rule nearI)
qed

lemma near_sum_upto:
  assumes "\<And>i. i < n \<Longrightarrow> near q r (f i) (y i)"
  shows "near q (int n * r) (\<Sum>i<n. f i) (\<Sum>i<n. y i)"
  using assms
proof (induction n)
  case (Suc n)
  have "near q (int n * r + r) (sum f {..<n} + f n) (sum y {..<n} + y n)" using Suc by (intro near_add) simp_all
  then show ?case by (simp add: algebra_simps)
qed (simp add: near_refl)

lemma zip_sum: "length as = length bs \<Longrightarrow> (\<Sum>(a, b)\<leftarrow>zip as bs. f a b) = (\<Sum>i<length as. f (as ! i) (bs ! i))" for f :: "'a \<Rightarrow> 'b \<Rightarrow> nat"
  by (subst sum_list_sum_nth) (simp add: atLeast0LessThan)

text \<open>A column times the query, and the hint of that column times the secret, is the selected entry, scaled.\<close>

lemma column_selects:
  assumes good: "good_native p" and polys: "list_all (\<lambda>a. length a = np_d p \<and> all_below (np_q p) a) polys"
    and s: "length s = np_d p" "all_below (np_q p) s" and words: "length words = length polys * np_d p"
    and near: "\<And>block i. block < length polys \<Longrightarrow> i < np_d p \<Longrightarrow> near (np_q p) E (if block * np_d p + i = target then D else 0)
      (int (words ! (block * np_d p + i)) + int (schoolbook_negacyclic (tau_coeffs (polys ! block) (2 * np_d p - 1) (np_q p)) s (np_q p) ! i))"
    and xs: "length xs = length polys" "\<And>x. x \<in> set xs \<Longrightarrow> length x = np_d p \<and> all_below (np_p p) x"
      "\<And>j i. j < length polys \<Longrightarrow> i < np_d p \<Longrightarrow> xs ! j ! i = db ! (col * length words + (j * np_d p + i))"
    and target: "target < length words"
  shows "near (np_q p) (int (length words) * (int (np_p p - 1) * E)) (D * int (db ! (col * length words + target)))
    (int (column_product words (np_q p) db col) + (\<Sum>i<np_d p. int (ring_dot (np_q p) (np_d p) polys xs ! i) * int (s ! i)))"
proof -
  let ?d = "np_d p" and ?q = "np_q p" and ?n = "length polys"
  define Y where "Y = (\<lambda>r. int (db ! (col * length words + r)))"
  define H where "H = (\<lambda>r. int (schoolbook_negacyclic (tau_coeffs (polys ! (r div ?d)) (2 * ?d - 1) ?q) s ?q ! (r mod ?d)))"
  have d: "0 < ?d" by (rule good_nativeD(1) [OF good])
  have h: "?d * (2 * ?d - 1) < 2 ^ 64" using d by (intro small_exponent [OF good]) simp
  have split: "r div ?d < ?n" "r mod ?d < ?d" "r div ?d * ?d + r mod ?d = r" if "r < length words" for r
    using that d unfolding words by (simp_all add: less_mult_imp_div_less)
  have Yb: "0 \<le> Y r \<and> Y r \<le> int (np_p p - 1)" if r: "r < length words" for r
  proof -
    have "xs ! (r div ?d) \<in> set xs" using xs(1) split(1) [OF r] by simp
    then have "xs ! (r div ?d) ! (r mod ?d) < np_p p" using xs(2) split(2) [OF r] by (metis all_below_nth)
    then show ?thesis using xs(3) [OF split(1,2) [OF r]] split(3) [OF r] by (simp add: Y_def)
  qed
  have "near ?q (int (np_p p - 1) * E) (Y r * (if r = target then D else 0)) (Y r * (int (words ! r) + H r))" if r: "r < length words" for r
    using near_times [OF near [OF split(1,2) [OF r]], of "Y r" "int (np_p p - 1)"] Yb [OF r] split(3) [OF r] by (simp add: H_def)
  then have "near ?q (int (length words) * (int (np_p p - 1) * E)) (\<Sum>r<length words. Y r * (if r = target then D else 0))
      (\<Sum>r<length words. Y r * (int (words ! r) + H r))" by (rule near_sum_upto)
  moreover have "(\<Sum>r<length words. Y r * (if r = target then D else 0)) = D * Y target"
  proof -
    have "(\<Sum>r<length words. Y r * (if r = target then D else 0)) = (\<Sum>r<length words. if r = target then Y r * D else 0)"
      by (intro sum.cong refl) simp
    then show ?thesis using target by (simp add: sum.delta)
  qed
  moreover have "eqm ?q (\<Sum>r<length words. Y r * (int (words ! r) + H r))
      (int (column_product words ?q db col) + (\<Sum>i<?d. int (ring_dot ?q ?d polys xs ! i) * int (s ! i)))"
  proof -
    have one: "eqm ?q (\<Sum>r<length words. Y r * int (words ! r)) (int (column_product words ?q db col))"
      unfolding column_product_def Y_def
      using eqm_sym [OF eqm_nat_mod [of ?q "\<Sum>r<length words. db ! (col * length words + r) * words ! r"]] by simp
    have pc: "canon ?q ?d (polys ! j)" "canon ?q ?d (xs ! j)" if j: "j < ?n" for j
    proof -
      show "canon ?q ?d (polys ! j)" using polys j by (intro native_canon [OF good]) (auto simp: list_all_length)
      have x: "length (xs ! j) = ?d" "all_below (np_p p) (xs ! j)" using xs(1,2) j by simp_all
      moreover have "np_p p \<le> ?q" using good by (auto simp: good_native_def intro!: power_increasing)
      ultimately show "canon ?q ?d (xs ! j)" by (intro native_canon [OF good]) (auto intro: all_below_mono)
    qed
    have sc: "canon ?q ?d s" using s by (rule native_canon [OF good])
    have "(\<Sum>r<length words. Y r * H r) = (\<Sum>j<?n. \<Sum>i<?d. Y (j * ?d + i) * H (j * ?d + i))"
      unfolding words by (rule sum_groups [symmetric])
    also have "\<dots> = (\<Sum>j<?n. \<Sum>i<?d. int (xs ! j ! i) * int (schoolbook_negacyclic (tau_coeffs (polys ! j) (2 * ?d - 1) ?q) s ?q ! i))"
      using d xs(3) by (intro sum.cong refl) (simp add: Y_def H_def)
    also have "eqm ?q \<dots> (\<Sum>j<?n. \<Sum>i<?d. int (schoolbook_negacyclic (polys ! j) (xs ! j) ?q ! i) * int (s ! i))"
    proof (rule eqm_sum)
      fix j assume "j \<in> {..<?n}"
      then show "eqm ?q (\<Sum>i<?d. int (xs ! j ! i) * int (schoolbook_negacyclic (tau_coeffs (polys ! j) (2 * ?d - 1) ?q) s ?q ! i))
          (\<Sum>i<?d. int (schoolbook_negacyclic (polys ! j) (xs ! j) ?q ! i) * int (s ! i))"
        using mask_adjoint [OF pc sc h] by simp
    qed
    also have "(\<Sum>j<?n. \<Sum>i<?d. int (schoolbook_negacyclic (polys ! j) (xs ! j) ?q ! i) * int (s ! i))
        = (\<Sum>i<?d. (\<Sum>j<?n. int (schoolbook_negacyclic (polys ! j) (xs ! j) ?q ! i)) * int (s ! i))"
      unfolding sum_distrib_right by (rule sum.swap)
    also have "eqm ?q \<dots> (\<Sum>i<?d. int (ring_dot ?q ?d polys xs ! i) * int (s ! i))"
    proof (intro eqm_sum eqm_mult eqm_refl)
      fix i assume "i \<in> {..<?d}"
      then have i: "i < ?d" by simp
      have "ring_dot ?q ?d polys xs ! i = (\<Sum>j<?n. schoolbook_negacyclic (polys ! j) (xs ! j) ?q ! i) mod ?q"
        using i xs(1) by (simp add: ring_dot_def zip_sum)
      then show "eqm ?q (\<Sum>j<?n. int (schoolbook_negacyclic (polys ! j) (xs ! j) ?q ! i)) (int (ring_dot ?q ?d polys xs ! i))"
        using eqm_sym [OF eqm_nat_mod [of ?q "\<Sum>j<?n. schoolbook_negacyclic (polys ! j) (xs ! j) ?q ! i"]] by simp
    qed
    finally have two: "eqm ?q (\<Sum>r<length words. Y r * H r) (\<Sum>i<?d. int (ring_dot ?q ?d polys xs ! i) * int (s ! i))" .
    show ?thesis using eqm_add [OF one two] by (simp add: distrib_left sum.distrib)
  qed
  ultimately show ?thesis by (simp add: near_eqm Y_def)
qed

section \<open>Blocks\<close>

text \<open>What the decoder adds to the body words of a block: the secret times its rows.\<close>

definition rows_phase :: "native_params \<Rightarrow> nat list \<Rightarrow> nat list option \<Rightarrow> nat list \<Rightarrow> nat \<Rightarrow> int" where
  "rows_phase p a other s k = int (schoolbook_negacyclic a s (np_q p) ! k)
     + (case other of None \<Rightarrow> 0
        | Some o' \<Rightarrow> int (schoolbook_negacyclic o' (tau_coeffs s (2 * np_d p - 1) (np_q p)) (np_q p) ! k))"

definition block_error :: "native_params \<Rightarrow> bool \<Rightarrow> int \<Rightarrow> int \<Rightarrow> int" where
  "block_error p two_mask B E = (if two_mask then chain_error p B E else pack_error p B E)"

lemma prepare_keys_shared:
  assumes "built eng cpu setup ctx masks tw pre" and "built eng cpu setup ctx masks' tw pre'"
  shows "prepare_keys eng pre keys = prepare_keys eng pre' keys"
proof -
  have same: "pre_params pre = pre_params pre'" "pre_id pre = pre_id pre'" "pre_lift pre = pre_lift pre'" "(pre_a_other pre = None) = (pre_a_other pre' = None)"
    using assms by (auto simp: built_def Let_def split: if_splits)
  show ?thesis unfolding prepare_keys_def same ..
qed

text \<open>The stages of a two-mask block are the one-call packing.\<close>

lemma staged_two_mask:
  assumes st: "setup_ok setup" "ns_params setup = p" and pre: "built eng cpu setup ctx masks True pre"
    and keys: "length (nk_kg keys) = np_ell p" "nk_kh keys = []" "nk_id keys = ns_id setup" and b: "length b = np_d p" "all_below (np_q p) b"
  shows "\<exists>pk. prepare_keys eng pre keys = Inr pk
    \<and> bindR (prepare_pack eng cpu pre pk) (\<lambda>pd. finish_two_mask pd b) = pack_two_mask cpu pre b keys"
proof -
  obtain other where B: "pre_params pre = p" "pre_id pre = ns_id setup" "pre_a_other pre = Some other" "pre_leftover pre = None"
    using pre unfolding built_def Let_def st(2) by auto
  let ?pk = "\<lparr>pk_id = nk_id keys, pk_y = concat (nk_kg keys), pk_kh = None\<rparr>"
  have "prepare_keys eng pre keys = Inr ?pk" using B keys by (simp add: prepare_keys_def Let_def)
  moreover have "bindR (prepare_pack eng cpu pre ?pk) (\<lambda>pd. finish_two_mask pd b) = pack_two_mask cpu pre b keys"
    using B keys b by (cases "multiply cpu (pre_h pre) (concat (nk_kg keys))")
      (simp_all add: prepare_pack_def finish_two_mask_def pack_two_mask_def Let_def validate_poly_iff kg_words_def)
  ultimately show ?thesis by blast
qed

lemma block_packed:
  assumes laws: "ntt_laws eng (np_d p)" and ctx: "new_lift_context eng (np_d p) (np_q p) = Inr ctx"
    and st: "setup_ok setup" "ns_params setup = p" and masks: "lwe_masks p masks" and pre: "built eng cpu setup ctx masks tw pre"
    and s: "small_secret p s B" and id: "nk_id keys = ns_id setup"
    and kg: "key_for p s (5 mod (2 * np_d p)) (ns_w setup) (nk_kg keys) E"
    and kh: "tw \<Longrightarrow> nk_kh keys = []" "\<not> tw \<Longrightarrow> key_for p s (2 * np_d p - 1) (ns_v setup) (nk_kh keys) E"
    and b: "length b = np_d p" "all_below (np_q p) b"
  shows "\<exists>pk out. prepare_keys eng pre keys = Inr pk \<and> pack_block eng cpu tw pk (pre, b) = Inr out
    \<and> length out = np_d p \<and> all_below (np_q p) out
    \<and> (\<forall>k<np_d p. near (np_q p) (block_error p tw B E) (int (b ! k) + mask_secret p masks s k)
         (int (out ! k) + rows_phase p (pre_a pre) (pre_a_other pre) s k))"
proof (cases tw)
  case True
  then have pre': "built eng cpu setup ctx masks True pre" using pre by simp
  have "length (nk_kg keys) = np_ell p" using kg setup_masks(2) [OF st] by (simp add: key_for_def masks_ok_def)
  from staged_two_mask [OF st pre' this kh(1) [OF True] id b] obtain pk where
    pk: "prepare_keys eng pre keys = Inr pk" "bindR (prepare_pack eng cpu pre pk) (\<lambda>pd. finish_two_mask pd b) = pack_two_mask cpu pre b keys" by blast
  obtain out other where out: "pre_a_other pre = Some other"
    "pack_two_mask cpu pre b keys = Inr \<lparr>nt_params = p, nt_a = pre_a pre, nt_a_other = other, nt_b = out\<rparr>" "length out = np_d p" "all_below (np_q p) out"
    "\<forall>k<np_d p. near (np_q p) (chain_error p B E) (int (b ! k) + mask_secret p masks s k)
         (int (out ! k) + int (schoolbook_negacyclic (pre_a pre) s (np_q p) ! k)
            + int (schoolbook_negacyclic other (tau_coeffs s (2 * np_d p - 1) (np_q p)) (np_q p) ! k))"
    using two_mask_phase [OF st masks pre' s id kh(1) [OF True] kg b] by blast
  obtain pd where "prepare_pack eng cpu pre pk = Inr pd" "finish_two_mask pd b = Inr \<lparr>nt_params = p, nt_a = pre_a pre, nt_a_other = other, nt_b = out\<rparr>"
    using pk(2) out(2) by (cases "prepare_pack eng cpu pre pk") simp_all
  then have "pack_block eng cpu tw pk (pre, b) = Inr out" using True by (simp add: pack_block_def)
  then show ?thesis using pk(1) out True by (auto simp: block_error_def rows_phase_def add.assoc)
next
  case False
  then have pre': "built eng cpu setup ctx masks False pre" using pre by simp
  note SM = setup_masks [OF st]
  have m: "masks_ok p (nk_kg keys)" "masks_ok p (nk_kh keys)" by (rule key_for_masks [OF SM(1,2) kg], rule key_for_masks [OF SM(1,3) kh(2) [OF False]])
  obtain pk pd where pk: "prepare_keys eng pre keys = Inr pk" "prepare_pack eng cpu pre pk = Inr pd" "finish pd b = pack eng cpu pre b keys"
    using staged_ok [OF laws ctx st pre' m id b] by blast
  obtain out where out: "pack eng cpu pre b keys = Inr \<lparr>nc_params = p, nc_a = pre_a pre, nc_b = out\<rparr>" "length out = np_d p" "all_below (np_q p) out"
    "\<forall>k<np_d p. near (np_q p) (pack_error p B E) (int (b ! k) + mask_secret p masks s k) (int (out ! k) + int (schoolbook_negacyclic (pre_a pre) s (np_q p) ! k))"
    using pack_phase [OF laws ctx st masks pre' s id kg kh(2) [OF False] b] by blast
  have "pre_a_other pre = None" using pre' by (auto simp: built_def Let_def)
  moreover have "pack_block eng cpu tw pk (pre, b) = Inr out" using False pk out(1) by (simp add: pack_block_def)
  ultimately show ?thesis using pk(1) out False by (auto simp: block_error_def rows_phase_def)
qed

section \<open>Rounded rows\<close>

lemma rounded_product:
  assumes good: "good_native p" and s: "small_secret p s B" and a: "canon (np_q p) (np_d p) a" and a': "canon (np_q p) (np_d p) a'"
    and near: "\<And>i. i < np_d p \<Longrightarrow> near (np_q p) r (int (a ! i)) (int (a' ! i))" and k: "k < np_d p"
  shows "near (np_q p) (int (np_d p) * (B * r)) (int (schoolbook_negacyclic a s (np_q p) ! k)) (int (schoolbook_negacyclic a' s (np_q p) ! k))"
proof -
  note S = secret_fun [OF good s]
  let ?S = "iext (centred (np_q p) s)"
  have el: "eqm (np_q p) (int (schoolbook_negacyclic x s (np_q p) ! k)) (\<Sum>j<np_d p. ?S (int k - int j) * int (x ! j))" if "canon (np_q p) (np_d p) x" for x
    using S(5) [OF that k] canonD(4) [OF that] by (simp add: conv_def ext_nth mult.commute)
  have "near (np_q p) (int (np_d p) * (B * r)) (\<Sum>j<np_d p. ?S (int k - int j) * int (a ! j)) (\<Sum>j<np_d p. ?S (int k - int j) * int (a' ! j))"
    using near_times [OF near S(3)] by (rule near_sum_upto)
  then show ?thesis by (simp only: near_eqm [OF el [OF a']] near_eqm_left [OF el [OF a]])
qed

lemma conjugate_secret:
  assumes good: "good_native p" and s: "small_secret p s B"
  shows "small_secret p (tau_coeffs s (2 * np_d p - 1) (np_q p)) B"
proof -
  have d: "0 < np_d p" using good_nativeD(1) [OF good] .
  have h: "np_d p * (2 * np_d p - 1) < 2 ^ 64" using d by (intro small_exponent [OF good]) simp
  have sc: "canon (np_q p) (np_d p) s" using s by (intro native_canon [OF good]) (simp_all add: small_secret_def)
  have odd: "odd (2 * np_d p - 1)" using d by simp
  have "\<bar>centered (tau_coeffs s (2 * np_d p - 1) (np_q p) ! i) (np_q p)\<bar> \<le> B" if "i < np_d p" for i
    using s that by (intro tau_coeffs_bounded [OF good sc _ odd h]) (simp_all add: small_secret_def)
  then show ?thesis using canonD(4,5) [OF ext_tau_coeffs(1) [OF sc h]] by (simp add: small_secret_def)
qed

lemma rounded_rows:
  assumes good: "good_native p" and s: "small_secret p s B" and tw: "other = None \<longleftrightarrow> \<not> tw"
    and rows: "length a = np_d p" "all_below (np_q p) a" "\<And>o'. other = Some o' \<Longrightarrow> length o' = np_d p \<and> all_below (np_q p) o'"
    and f: "\<And>x. x < np_q p \<Longrightarrow> f x < np_q p \<and> near (np_q p) r (int x) (int (f x))" and k: "k < np_d p"
  shows "near (np_q p) ((if tw then 2 else 1) * (int (np_d p) * (B * r)))
    (rows_phase p a other s k) (rows_phase p (map f a) (map_option (map f) other) s k)"
proof -
  have step: "near (np_q p) (int (np_d p) * (B * r)) (int (schoolbook_negacyclic x t (np_q p) ! k)) (int (schoolbook_negacyclic (map f x) t (np_q p) ! k))"
    if "length x = np_d p" "all_below (np_q p) x" and "small_secret p t B" for x t
    using that f k by (intro rounded_product [OF good that(3)] native_canon [OF good]) (auto simp: all_below_set all_below_nth)
  show ?thesis
  proof (cases other)
    case None
    then show ?thesis using step [OF rows(1,2) s] tw by (simp add: rows_phase_def)
  next
    case (Some o')
    then have "tw" "length o' = np_d p" "all_below (np_q p) o'" using tw rows(3) by auto
    then show ?thesis
      using near_add [OF step [OF rows(1,2) s] step [OF _ _ conjugate_secret [OF good s], of o']] Some by (simp add: rows_phase_def algebra_simps)
  qed
qed

end
