(* ===== verification/Native_Retrieval.thy ===== *)
theory Native_Retrieval
  imports Native_Protocol
begin

text \<open>
  Private retrieval end to end: a request generated by the client, answered by a server that was built
  over the database, decodes with the server's published masks to the requested row.
\<close>

section \<open>Requests\<close>

text \<open>A digest is 32 bytes.\<close>

definition hash_law :: "'g rng_env \<Rightarrow> bool" where
  "hash_law env \<longleftrightarrow> (\<forall>bs. length (sha256 env bs) = 32 \<and> all_below 256 (sha256 env bs))"

definition key_noise :: "native_profile \<Rightarrow> int" where
  "key_noise p = 65 + round_radius (full_bits p) (pr_kh_bits p)"

text \<open>What the evaluator reads from the bytes of a request for a row.\<close>

definition readable_request :: "native_public_setup \<Rightarrow> nat list \<Rightarrow> nat \<Rightarrow> byte list \<Rightarrow> native_keys \<Rightarrow> nat list \<Rightarrow> bool" where
  "readable_request setup s target bytes keys words \<longleftrightarrow>
     (let p = ps_profile setup; pk = pr_pack p; d = np_d pk; q = np_q pk
      in length bytes = 36 + key_length p + packed_len (pr_rows p) (pr_query_bits p) \<and> take 4 bytes = request_magic p
       \<and> take 32 (drop 4 bytes) = ps_id setup \<and> request_keys setup (take (key_length p) (drop 36 bytes)) = Inr keys
       \<and> nk_id keys = ns_id (ps_packing setup) \<and> key_for pk s (5 mod (2 * d)) (ns_w (ps_packing setup)) (nk_kg keys) (key_noise p)
       \<and> (pr_two_mask p \<longrightarrow> nk_kh keys = [])
       \<and> (\<not> pr_two_mask p \<longrightarrow> key_for pk s (2 * d - 1) (ns_v (ps_packing setup)) (nk_kh keys) (key_noise p))
       \<and> bindR (decode (drop (36 + key_length p) bytes) (pr_rows p) (pr_query_bits p)) (\<lambda>x. up x q (pr_query_bits p)) = Inr words
       \<and> length words = pr_rows p \<and> all_below q words
       \<and> (\<forall>block<length (ps_polys setup). \<forall>i<d. near q (65 + query_radius p) (if block * d + i = target then int (q div np_p pk) else 0)
           (int (words ! (block * d + i)) + int (schoolbook_negacyclic (tau_coeffs (ps_polys setup ! block) (2 * d - 1) q) s q ! i))))"

lemma selection_request:
  assumes laws: "ntt_laws eng (np_d p)" and ctx: "new_lift_context eng (np_d p) (np_q p) = Inr ctx" and law: "gauss_law env (np_q p)"
    and good: "good_native p" and s: "sec_params s = p" "small_secret p (sec_coeffs s) B"
    and polys: "list_all (\<lambda>a. length a = np_d p \<and> all_below (np_q p) a) polys" and target: "target < length polys * np_d p" "target < 2 ^ 64 - 1"
  shows "\<exists>ws g'. encrypt_selection eng env s polys target g = Inr (ws, g') \<and> selection_ok p (sec_coeffs s) polys target 0 ws"
proof -
  have sc: "length (sec_coeffs s) = np_d p" "all_below (np_q p) (sec_coeffs s)" using s(2) by (simp_all add: small_secret_def)
  obtain ws g' where "selection_loop eng env ctx s target 0 polys g = Inr (ws, g')" "selection_ok p (sec_coeffs s) polys target (0 * np_d p) ws"
    using selection_loop_ok [OF laws ctx law good s(1) sc polys] by blast
  moreover have "polys \<noteq> []" using target(1) by auto
  ultimately show ?thesis using ctx s(1) target by (auto simp: encrypt_selection_def not_le)
qed

lemma generated_keys:
  assumes laws: "ntt_laws eng (np_d pk)" and ctx: "new_lift_context eng (np_d pk) (np_q pk) = Inr ctx" and law: "gauss_law env (np_q pk)"
    and good: "good_native pk" and s: "sec_params s = pk" "small_secret pk (sec_coeffs s) 65" and st: "setup = new_setup env pk seed"
  shows "\<exists>keys g'. (if tw then generate_one_key eng env setup s g else generate eng env setup s g) = Inr (keys, g') \<and> nk_id keys = ns_id setup
    \<and> key_for pk (sec_coeffs s) (5 mod (2 * np_d pk)) (ns_w setup) (nk_kg keys) 65 \<and> (tw \<longrightarrow> nk_kh keys = [])
    \<and> (\<not> tw \<longrightarrow> key_for pk (sec_coeffs s) (2 * np_d pk - 1) (ns_v setup) (nk_kh keys) 65)"
proof -
  have so: "secret_ok s" by (rule small_secret_ok [OF good s])
  show ?thesis
    using generate_ok [OF laws ctx law so good st, of g] generate_one_key_ok [OF laws ctx law so s(1) good st, of g] s(1)
    by (cases tw) auto
qed

lemma request_ok:
  assumes laws: "ntt_laws eng (np_d (pr_pack p))" and ctx: "new_lift_context eng (np_d (pr_pack p)) (np_q (pr_pack p)) = Inr ctx"
    and law: "gauss_law env (np_q (pr_pack p))" and hash: "hash_law env" and p: "shape_ok p" "widths_ok p"
    and st: "new_public_setup env p seed snapshot = setup" and target: "target < pr_rows p"
  shows "\<exists>rq g' keys words. generate_with_rng eng env setup target g = Some (Inr (rq, g'))
    \<and> rq_profile rq = p \<and> rq_setup_id rq = ps_id setup \<and> rq_query_id rq = sha256 env (rq_bytes rq)
    \<and> sec_params (rq_secret rq) = pr_pack p \<and> small_secret (pr_pack p) (sec_coeffs (rq_secret rq)) 65
    \<and> readable_request setup (sec_coeffs (rq_secret rq)) target (rq_bytes rq) keys words"
proof -
  let ?pk = "pr_pack p" and ?d = "np_d (pr_pack p)" and ?q = "np_q (pr_pack p)" and ?k = "full_bits p"
  have good: "good_native ?pk" and gaussian: "np_sampler ?pk = Gaussian" and dims: "?d dvd pr_rows p" using p(1) by (simp_all add: shape_ok_def)
  note W = profile_widths [OF p] and PS = public_setup_ok [OF p(1) st]
  have rows: "length (ps_polys setup) * ?d = pr_rows p" using PS(6) dims by simp
  have id32: "length (ps_id setup) = 32" using PS(2) hash by (simp add: hash_law_def)
  obtain s g1 where s: "sample_secret env ?pk g = Some (s, g1)" "sec_params s = ?pk" "small_secret ?pk (sec_coeffs s) 65"
    using sampled_secret [OF law gaussian] by blast
  obtain keys g2 where keys: "(if pr_two_mask p then generate_one_key eng env (ps_packing setup) s g1 else generate eng env (ps_packing setup) s g1) = Inr (keys, g2)"
    "nk_id keys = ns_id (ps_packing setup)" "key_for ?pk (sec_coeffs s) (5 mod (2 * ?d)) (ns_w (ps_packing setup)) (nk_kg keys) 65"
    "pr_two_mask p \<Longrightarrow> nk_kh keys = []" "\<not> pr_two_mask p \<Longrightarrow> key_for ?pk (sec_coeffs s) (2 * ?d - 1) (ns_v (ps_packing setup)) (nk_kh keys) 65"
    using generated_keys [OF laws ctx law good s(2,3) PS(3), of "pr_two_mask p" g1] by blast
  have t64: "target < 2 ^ 64 - 1" using small_widths(5) [OF p] target by linarith
  have t: "target < length (ps_polys setup) * ?d" unfolding rows by (rule target)
  obtain ws g3 where ws: "encrypt_selection eng env s (ps_polys setup) target g2 = Inr (ws, g3)" "selection_ok ?pk (sec_coeffs s) (ps_polys setup) target 0 ws"
    using selection_request [OF laws ctx law good s(2,3) PS(7) t t64] by blast
  have wl: "length ws = pr_rows p" "all_below ?q ws" using ws(2) rows by (simp_all add: selection_ok_def)
  note SM = setup_masks [OF PS(4,5)]
  have lens: "length (ns_w (ps_packing setup)) = np_ell ?pk" "length (ns_v (ps_packing setup)) = np_ell ?pk" using SM(2,3) by (simp_all add: masks_ok_def)
  have kgr: "key_rows ?pk (np_ell ?pk) (nk_kg keys)" using key_for_rows [OF keys(3)] lens by simp
  have khr: "key_rows ?pk (if pr_two_mask p then 0 else np_ell ?pk) (nk_kh keys)"
    using keys(4) key_for_rows [OF keys(5)] lens by (cases "pr_two_mask p") (simp_all add: key_rows_def)
  obtain kp where kp: "key_payload p keys = Inr kp" "length kp = key_length p"
    "request_keys setup kp = Inr \<lparr>nk_id = ns_id (ps_packing setup), nk_kg = nk_kg keys, nk_kh = arrived_kh p keys\<rparr>"
    using keys_arrive [OF p PS(1,5) kgr khr] by blast
  obtain sent g4 words where q: "query_payload env p ws g3 = Inr (sent, g4)"
    "length (encode sent (pr_query_bits p)) = packed_len (pr_rows p) (pr_query_bits p)"
    "bindR (decode (encode sent (pr_query_bits p)) (pr_rows p) (pr_query_bits p)) (\<lambda>x. up x ?q (pr_query_bits p)) = Inr words"
    "length words = pr_rows p" "all_below ?q words" "\<And>i. i < pr_rows p \<Longrightarrow> near ?q (query_radius p) (int (ws ! i)) (int (words ! i))"
    using query_arrives [OF p wl, of env g3] by blast
  let ?bytes = "request_magic p @ ps_id setup @ kp @ encode sent (pr_query_bits p)"
  let ?rq = "\<lparr>rq_secret = s, rq_profile = p, rq_setup_id = ps_id setup, rq_query_id = sha256 env ?bytes, rq_bytes = ?bytes, rq_decoding = None\<rparr>"
  let ?keys = "\<lparr>nk_id = ns_id (ps_packing setup), nk_kg = nk_kg keys, nk_kh = arrived_kh p keys\<rparr>"
  have gen: "generate_with_rng eng env setup target g = Some (Inr (?rq, g4))"
    using target PS(1) s(1) keys(1) ws(1) kp(1) q(1) by (simp add: generate_with_rng_def Let_def)
  have noise: "65 \<le> key_noise p" using round_radius_nonneg by (simp add: key_noise_def)
  have near: "near ?q (65 + query_radius p) (if block * ?d + i = target then int (?q div np_p ?pk) else 0)
      (int (words ! (block * ?d + i)) + int (schoolbook_negacyclic (tau_coeffs (ps_polys setup ! block) (2 * ?d - 1) ?q) (sec_coeffs s) ?q ! i))"
    if b: "block < length (ps_polys setup)" and i: "i < ?d" for block i
  proof -
    let ?x = "int (schoolbook_negacyclic (tau_coeffs (ps_polys setup ! block) (2 * ?d - 1) ?q) (sec_coeffs s) ?q ! i)"
    have "block * ?d + i < pr_rows p" using row_slot [OF b i] rows by simp
    then have "near ?q (query_radius p + 0) (int (ws ! (block * ?d + i)) + ?x) (int (words ! (block * ?d + i)) + ?x)"
      using q(6) by (intro near_add near_refl) simp_all
    moreover have "near ?q 65 (if block * ?d + i = target then int (?q div np_p ?pk) else 0) (int (ws ! (block * ?d + i)) + ?x)"
      using ws(2) b i by (simp add: selection_ok_def GAUSS_MAX_def)
    ultimately show ?thesis using near_trans by fastforce
  qed
  have kg: "key_for ?pk (sec_coeffs s) (5 mod (2 * ?d)) (ns_w (ps_packing setup)) (nk_kg keys) (key_noise p)"
    by (rule key_for_mono [OF keys(3) noise])
  have kh: "\<not> pr_two_mask p \<Longrightarrow> key_for ?pk (sec_coeffs s) (2 * ?d - 1) (ns_v (ps_packing setup)) (arrived_kh p keys) (key_noise p)"
    using key_for_received [OF keys(5) W(1,9)] W(3) by (simp add: arrived_kh_def key_noise_def)
  have "readable_request setup (sec_coeffs s) target ?bytes ?keys words"
    using kp(2,3) q(2-5) id32 kg kh near unfolding readable_request_def Let_def PS(1)
    by (simp add: request_magic_simps arrived_kh_def)
  then show ?thesis using gen s(2,3) by (intro exI [of _ ?rq] exI [of _ g4] exI [of _ ?keys] exI [of _ words]) simp
qed

section \<open>Responses\<close>

definition selected :: "native_profile \<Rightarrow> nat list \<Rightarrow> nat \<Rightarrow> nat \<Rightarrow> nat" where
  "selected p db target col = db ! (col * pr_rows p + target)"

text \<open>The error of the first dimension and of packing, before the response is rounded.\<close>

definition body_error :: "native_profile \<Rightarrow> int" where
  "body_error p = int (pr_rows p) * (int (np_p (pr_pack p) - 1) * (65 + query_radius p)) + block_error (pr_pack p) (pr_two_mask p) 65 (key_noise p)"

text \<open>The body words of a response: in every block, with the rows of the block, the scaled selected entries.\<close>

definition answers :: "native_profile \<Rightarrow> native_server \<Rightarrow> nat list \<Rightarrow> nat list \<Rightarrow> nat \<Rightarrow> nat list list \<Rightarrow> bool" where
  "answers p sv db s target outs \<longleftrightarrow>
     (let d = np_d (pr_pack p); q = np_q (pr_pack p)
      in length outs = pr_cols p div d
       \<and> (\<forall>block<pr_cols p div d. length (outs ! block) = d \<and> all_below q (outs ! block)
           \<and> (\<forall>k<d. near q (body_error p) (int (q div np_p (pr_pack p)) * int (selected p db target (block * d + k)))
               (int (outs ! block ! k) + rows_phase (pr_pack p) (pre_a (sv_pre sv ! block)) (pre_a_other (sv_pre sv ! block)) s k))))"

lemma query_ready:
  assumes "good_native p" and "all_below (np_q p) words"
  shows "\<exists>query. new_query cpu words (np_q p) = Inr query"
proof -
  note N = good_nativeD [OF assms(1)]
  have "2 \<le> np_q p" using N(5) by simp
  moreover have "\<not> list_ex (\<lambda>x. x \<ge> np_q p) words" using assms(2) by (auto simp: list_ex_iff all_below_set not_le)
  ultimately show ?thesis using N(4,6) by (auto simp: new_query_def list_ex_iff split: prod.splits)
qed

lemma block_answer:
  assumes p: "shape_ok p" and st: "new_public_setup env p seed snapshot = setup" and db: "database_ok p w db" and target: "target < pr_rows p"
    and rq: "readable_request setup s target bytes keys words" and s: "small_secret (pr_pack p) s 65"
    and laws: "ntt_laws eng (np_d (pr_pack p))" and ctx: "new_lift_context eng (np_d (pr_pack p)) (np_q (pr_pack p)) = Inr ctx"
    and block: "block < pr_cols p div np_d (pr_pack p)"
    and masks: "lwe_masks (pr_pack p) (hint p (ps_polys setup) db block)"
    and pre: "built eng cpu (ps_packing setup) ctx (hint p (ps_polys setup) db block) (pr_two_mask p) pre"
  defines "b \<equiv> map (\<lambda>k. column_product words (np_q (pr_pack p)) db (block * np_d (pr_pack p) + k)) [0..<np_d (pr_pack p)]"
  shows "\<exists>pk out. prepare_keys eng pre keys = Inr pk \<and> pack_block eng cpu (pr_two_mask p) pk (pre, b) = Inr out
    \<and> length out = np_d (pr_pack p) \<and> all_below (np_q (pr_pack p)) out
    \<and> (\<forall>k<np_d (pr_pack p). near (np_q (pr_pack p)) (body_error p)
         (int (np_q (pr_pack p) div np_p (pr_pack p)) * int (selected p db target (block * np_d (pr_pack p) + k)))
         (int (out ! k) + rows_phase (pr_pack p) (pre_a pre) (pre_a_other pre) s k))"
proof -
  let ?d = "np_d (pr_pack p)" and ?q = "np_q (pr_pack p)" and ?m = "hint p (ps_polys setup) db block"
  have good: "good_native (pr_pack p)" and dims: "?d dvd pr_rows p" "?d dvd pr_cols p" using p by (simp_all add: shape_ok_def)
  note d = good_nativeD(1) [OF good] and PS = public_setup_ok [OF p st]
  have R: "length words = pr_rows p" "all_below ?q words" "nk_id keys = ns_id (ps_packing setup)"
    "key_for (pr_pack p) s (5 mod (2 * ?d)) (ns_w (ps_packing setup)) (nk_kg keys) (key_noise p)"
    "pr_two_mask p \<Longrightarrow> nk_kh keys = []"
    "\<not> pr_two_mask p \<Longrightarrow> key_for (pr_pack p) s (2 * ?d - 1) (ns_v (ps_packing setup)) (nk_kh keys) (key_noise p)"
    "\<And>block i. block < length (ps_polys setup) \<Longrightarrow> i < ?d \<Longrightarrow> near ?q (65 + query_radius p) (if block * ?d + i = target then int (?q div np_p (pr_pack p)) else 0)
       (int (words ! (block * ?d + i)) + int (schoolbook_negacyclic (tau_coeffs (ps_polys setup ! block) (2 * ?d - 1) ?q) s ?q ! i))"
    using rq unfolding readable_request_def Let_def PS(1) by simp_all
  have q0: "0 < ?q" using good_nativeD(5) [OF good] by simp
  have b: "length b = ?d" "all_below ?q b" using q0 by (simp_all add: b_def column_product_def all_below_set)
  obtain pk out where out: "prepare_keys eng pre keys = Inr pk" "pack_block eng cpu (pr_two_mask p) pk (pre, b) = Inr out" "length out = ?d" "all_below ?q out"
    "\<And>k. k < ?d \<Longrightarrow> near ?q (block_error (pr_pack p) (pr_two_mask p) 65 (key_noise p)) (int (b ! k) + mask_secret (pr_pack p) ?m s k)
       (int (out ! k) + rows_phase (pr_pack p) (pre_a pre) (pre_a_other pre) s k)"
    using block_packed [OF laws ctx PS(4,5) masks pre s R(3,4,5,6) b] by blast
  have "near ?q (int (pr_rows p) * (int (np_p (pr_pack p) - 1) * (65 + query_radius p)))
      (int (?q div np_p (pr_pack p)) * int (selected p db target (block * ?d + k))) (int (b ! k) + mask_secret (pr_pack p) ?m s k)" if k: "k < ?d" for k
  proof -
    let ?col = "block * ?d + k"
    have col: "?col < pr_cols p" using row_slot [OF block k] dims(2) by simp
    have dbs: "length db = pr_rows p * pr_cols p" "all_below (np_p (pr_pack p)) db" using db by (simp_all add: database_ok_def)
    let ?xs = "chunks_exact ?d (take (pr_rows p) (drop (?col * pr_rows p) db))"
    note X = column_chunks [OF d dims(1) dbs(1) col dbs(2)]
    have n: "length words = length (ps_polys setup) * ?d" using R(1) PS(6) dims(1) by simp
    have sl: "length s = ?d" "all_below ?q s" using s by (simp_all add: small_secret_def)
    have "near ?q (int (length words) * (int (np_p (pr_pack p) - 1) * (65 + query_radius p)))
        (int (?q div np_p (pr_pack p)) * int (db ! (?col * length words + target)))
        (int (column_product words ?q db ?col) + (\<Sum>i<?d. int (ring_dot ?q ?d (ps_polys setup) ?xs ! i) * int (s ! i)))"
    proof (rule column_selects [OF good PS(7) sl n])
      show "length ?xs = length (ps_polys setup)" using X(1) PS(6) by simp
      show "\<And>x. x \<in> set ?xs \<Longrightarrow> length x = ?d \<and> all_below (np_p (pr_pack p)) x" by (rule X(2))
      show "?xs ! j ! i = db ! (?col * length words + (j * ?d + i))" if "j < length (ps_polys setup)" "i < ?d" for j i
        using X(3) [of j i] that PS(6) R(1) by simp
      show "target < length words" using target R(1) by simp
    qed (rule R(7))
    then show ?thesis using k R(1) by (simp add: selected_def b_def mask_secret_def hint_def)
  qed
  then have "near ?q (body_error p) (int (?q div np_p (pr_pack p)) * int (selected p db target (block * ?d + k)))
      (int (out ! k) + rows_phase (pr_pack p) (pre_a pre) (pre_a_other pre) s k)" if "k < ?d" for k
    using near_trans [OF _ out(5) [OF that]] that unfolding body_error_def by blast
  then show ?thesis using out(1-4) by blast
qed

lemma response_ok:
  assumes p: "shape_ok p" "widths_ok p" and st: "new_public_setup env p seed snapshot = setup" and db: "database_ok p w db" and target: "target < pr_rows p"
    and rq: "readable_request setup s target bytes keys words" and s: "small_secret (pr_pack p) s 65"
    and laws: "ntt_laws eng (np_d (pr_pack p))" and ctx: "new_lift_context eng (np_d (pr_pack p)) (np_q (pr_pack p)) = Inr ctx"
    and sv: "sv_setup sv = setup" "length (sv_pre sv) = pr_cols p div np_d (pr_pack p)"
      "\<And>block. block < pr_cols p div np_d (pr_pack p) \<Longrightarrow> lwe_masks (pr_pack p) (hint p (ps_polys setup) db block)
        \<and> built eng cpu (ps_packing setup) ctx (hint p (ps_polys setup) db block) (pr_two_mask p) (sv_pre sv ! block)"
      "\<And>query. new_query cpu words (np_q (pr_pack p)) = Inr query \<Longrightarrow>
        scan cpu sv query = Inr (map (column_product words (np_q (pr_pack p)) db) [0..<pr_cols p])"
  shows "\<exists>outs. answers p sv db s target outs
    \<and> respond eng cpu env sv bytes = Inr (response_magic p @ ps_id setup @ sha256 env bytes
        @ encode (map (down_word (full_bits p - pr_response_bits p) (pr_response_bits p)) (concat outs)) (pr_response_bits p))"
proof -
  let ?d = "np_d (pr_pack p)" and ?q = "np_q (pr_pack p)" and ?n = "pr_cols p div np_d (pr_pack p)" and ?two = "pr_two_mask p"
  have good: "good_native (pr_pack p)" and dims: "?d dvd pr_cols p" "0 < pr_cols p" using p(1) by (simp_all add: shape_ok_def)
  note d = good_nativeD(1) [OF good] and PS = public_setup_ok [OF p(1) st] and W = profile_widths [OF p]
  have n: "?n * ?d = pr_cols p" "0 < ?n" using dims d by (auto simp: dvd_div_eq_0_iff intro: gr0I)
  have R: "length bytes = 36 + key_length p + packed_len (pr_rows p) (pr_query_bits p)" "take 4 bytes = request_magic p"
    "take 32 (drop 4 bytes) = ps_id setup" "request_keys setup (take (key_length p) (drop 36 bytes)) = Inr keys"
    "bindR (decode (drop (36 + key_length p) bytes) (pr_rows p) (pr_query_bits p)) (\<lambda>x. up x ?q (pr_query_bits p)) = Inr words"
    "length words = pr_rows p" "all_below ?q words"
    using rq unfolding readable_request_def Let_def PS(1) by blast+
  obtain kw where kw: "request_key_words p (take (key_length p) (drop 36 bytes)) = Inr kw"
    "(if ?two then from_kg_words (ps_packing setup) kw else from_words (ps_packing setup) kw) = Inr keys"
    using R(4) PS(1) by (auto simp: request_keys_def)
  obtain query where query: "new_query cpu words ?q = Inr query" using query_ready [OF good R(7)] by blast
  let ?b = "\<lambda>block. map (\<lambda>k. column_product words ?q db (block * ?d + k)) [0..<?d]"
  let ?products = "map (column_product words ?q db) [0..<pr_cols p]"
  have chunk: "chunks_exact ?d ?products = map ?b [0..<?n]"
  proof -
    have "length ?products = ?n * ?d" using n(1) by simp
    then have "chunks_exact ?d ?products = map (chunk_at ?d ?products) [0..<?n]" by (rule chunks_exact_chunk_at [OF d])
    moreover have "chunk_at ?d ?products block = ?b block" if "block < ?n" for block
      unfolding chunk_at_def using row_slot [OF that, of _ ?d, unfolded n(1)] by (intro map_cong refl) simp
    ultimately show ?thesis by simp
  qed
  have each: "\<exists>pk out. prepare_keys eng (sv_pre sv ! block) keys = Inr pk \<and> pack_block eng cpu ?two pk (sv_pre sv ! block, ?b block) = Inr out
    \<and> length out = ?d \<and> all_below ?q out
    \<and> (\<forall>k<?d. near ?q (body_error p) (int (?q div np_p (pr_pack p)) * int (selected p db target (block * ?d + k)))
         (int (out ! k) + rows_phase (pr_pack p) (pre_a (sv_pre sv ! block)) (pre_a_other (sv_pre sv ! block)) s k))" if "block < ?n" for block
    using sv(3) [OF that] by (intro block_answer [OF p(1) st db target rq s laws ctx that]) blast+
  obtain pk where pk: "prepare_keys eng (sv_pre sv ! 0) keys = Inr pk" using each [OF n(2)] by blast
  have shared: "prepare_keys eng (sv_pre sv ! block) keys = Inr pk" if "block < ?n" for block
    using prepare_keys_shared [OF conjunct2 [OF sv(3) [OF that]] conjunct2 [OF sv(3) [OF n(2)]], of keys] pk by simp
  have "\<forall>block. \<exists>out. block < ?n \<longrightarrow> pack_block eng cpu ?two pk (sv_pre sv ! block, ?b block) = Inr out
    \<and> length out = ?d \<and> all_below ?q out
    \<and> (\<forall>k<?d. near ?q (body_error p) (int (?q div np_p (pr_pack p)) * int (selected p db target (block * ?d + k)))
         (int (out ! k) + rows_phase (pr_pack p) (pre_a (sv_pre sv ! block)) (pre_a_other (sv_pre sv ! block)) s k))"
    using each shared by (metis sum.inject(2))
  then obtain out where out: "\<And>block. block < ?n \<Longrightarrow> pack_block eng cpu ?two pk (sv_pre sv ! block, ?b block) = Inr (out block)
    \<and> length (out block) = ?d \<and> all_below ?q (out block)
    \<and> (\<forall>k<?d. near ?q (body_error p) (int (?q div np_p (pr_pack p)) * int (selected p db target (block * ?d + k)))
         (int (out block ! k) + rows_phase (pr_pack p) (pre_a (sv_pre sv ! block)) (pre_a_other (sv_pre sv ! block)) s k))"
    by metis
  let ?outs = "map out [0..<?n]"
  have "answers p sv db s target ?outs" using out by (simp add: answers_def Let_def)
  moreover have "collectR (pack_block eng cpu ?two pk) (zip (sv_pre sv) (chunks_exact ?d ?products)) = Inr ?outs"
    unfolding chunk collectR_eq_Inr using out sv(2) by simp
  moreover have "down (concat ?outs) ?q (pr_response_bits p) = Inr (map (down_word (full_bits p - pr_response_bits p) (pr_response_bits p)) (concat ?outs))"
    unfolding W(1) using W(3,5) by (intro down_ok) simp_all
  moreover have "(case sv_pre sv of [] \<Rightarrow> Inl (Panic ''index out of bounds'') | pre # _ \<Rightarrow> prepare_keys eng pre keys) = Inr pk"
    using sv(2) n(2) pk by (cases "sv_pre sv") auto
  ultimately have "respond eng cpu env sv bytes = Inr (response_magic p @ ps_id setup @ sha256 env bytes
        @ encode (map (down_word (full_bits p - pr_response_bits p) (pr_response_bits p)) (concat ?outs)) (pr_response_bits p))"
    unfolding respond_def Let_def sv(1) PS(1) R(1-3) by (simp only: kw R(5) query sv(4) [OF query] bindR_simps mapR_simps guardR_simps simp_thms)
  then show ?thesis using \<open>answers p sv db s target ?outs\<close> by blast
qed

section \<open>Decoding\<close>

lemma built_rows:
  assumes "setup_ok setup" "ns_params setup = p" and "built eng cpu setup ctx masks tw pre"
  shows "length (pre_a pre) = np_d p" "all_below (np_q p) (pre_a pre)" "pre_a_other pre = None \<longleftrightarrow> \<not> tw"
    "pre_a_other pre = Some o' \<Longrightarrow> length o' = np_d p \<and> all_below (np_q p) o'"
  using assms(3) unfolding built_def Let_def assms(2) chained_def by (auto dest: canonD split: if_splits)

lemma published_rows:
  assumes p: "shape_ok p" "widths_ok p" and st: "ps_profile (sv_setup sv) = p" and n: "length (sv_pre sv) = pr_cols p div np_d (pr_pack p)"
    and rows: "\<And>pre. pre \<in> set (sv_pre sv) \<Longrightarrow> length (pre_a pre) = np_d (pr_pack p) \<and> all_below (np_q (pr_pack p)) (pre_a pre)
      \<and> (pre_a_other pre = None \<longleftrightarrow> \<not> pr_two_mask p)
      \<and> (\<forall>o'. pre_a_other pre = Some o' \<longrightarrow> length o' = np_d (pr_pack p) \<and> all_below (np_q (pr_pack p)) o')"
  shows "\<exists>pb. published sv = Inr pb \<and> published_ok p (ps_id (sv_setup sv)) pb
    \<and> pb_masks pb = map (map (publish_word p)) (map pre_a (sv_pre sv))
    \<and> pb_other_masks pb = (if pr_two_mask p then Some (map (map (publish_word p)) (map (\<lambda>pre. the (pre_a_other pre)) (sv_pre sv))) else None)"
proof -
  let ?others = "if pr_two_mask p then Some (map (\<lambda>pre. the (pre_a_other pre)) (sv_pre sv)) else None"
  have valid: "mask_blocks_valid p (map pre_a (sv_pre sv))" using rows n by (auto simp: mask_blocks_valid_def list_all_iff all_below_set)
  have "mask_blocks_valid p (map (\<lambda>pre. the (pre_a_other pre)) (sv_pre sv))" if "pr_two_mask p"
    unfolding mask_blocks_valid_def list_all_iff
  proof (intro conjI ballI)
    fix b assume "b \<in> set (map (\<lambda>pre. the (pre_a_other pre)) (sv_pre sv))"
    then obtain pre where pre: "pre \<in> set (sv_pre sv)" "b = the (pre_a_other pre)" by auto
    then have "pre_a_other pre = Some b" using rows [OF pre(1)] that by auto
    then have "length b = np_d (pr_pack p)" "all_below (np_q (pr_pack p)) b" using rows [OF pre(1)] by blast+
    then show "length b = np_d (pr_pack p)" "\<And>x. x \<in> set b \<Longrightarrow> x < np_q (pr_pack p)" by (auto simp: all_below_set)
  qed (simp add: n)
  then have others: "case ?others of None \<Rightarrow> \<not> pr_two_mask p | Some x \<Rightarrow> pr_two_mask p \<and> mask_blocks_valid p x" by simp
  obtain pb where pb: "from_masks (sv_setup sv) (map pre_a (sv_pre sv)) ?others = Inr pb" "published_ok p (ps_id (sv_setup sv)) pb"
    "pb_masks pb = map (map (publish_word p)) (map pre_a (sv_pre sv))" "pb_other_masks pb = map_option (map (map (publish_word p))) ?others"
    using from_masks_ok [OF p st valid others] by blast
  have "collectR (\<lambda>pre. case pre_a_other pre of None \<Rightarrow> Inl (Panic ''unwrap on None'') | Some x \<Rightarrow> Inr x) (sv_pre sv)
      = Inr (map (\<lambda>pre. the (pre_a_other pre)) (sv_pre sv))" if "pr_two_mask p"
    using rows that by (intro collectR_all_Inr) (auto split: option.splits)
  then have "published sv = Inr pb" using pb(1) st by (simp add: published_def split: if_splits)
  then show ?thesis using pb by auto
qed

lemma decode_block_near:
  assumes laws: "ntt_laws eng (np_d p)" and ctx: "new_lift_context eng (np_d p) (np_q p) = Inr ctx" and good: "good_native p"
    and s: "sec_params s = p" "length (sec_coeffs s) = np_d p" "all_below (np_q p) (sec_coeffs s)"
    and a: "length a = np_d p" "all_below (np_q p) a" "\<And>o'. other = Some o' \<Longrightarrow> length o' = np_d p \<and> all_below (np_q p) o'"
    and b: "length b = np_d p" "all_below (np_q p) b" and m: "length m = np_d p" "all_below (np_p p) m"
    and near: "\<And>k. k < np_d p \<Longrightarrow> near (np_q p) r (int (np_q p div np_p p) * int (m ! k)) (int (b ! k) + rows_phase p a other (sec_coeffs s) k)"
    and r: "2 * r < int (np_q p div np_p p)"
  shows "decode_block eng p s a other b = Inr m"
proof (cases other)
  case None
  have "decrypt eng s \<lparr>nc_params = p, nc_a = a, nc_b = b\<rparr> = Inr m"
    using near None a b by (intro decrypt_ok [OF laws ctx good s _ _ _ _ m _ r]) (simp_all add: rows_phase_def)
  then show ?thesis using None a b by (simp add: decode_block_def ciphertext_from_rows_def validate_poly_iff)
next
  case (Some o')
  have "decrypt_two_mask eng s \<lparr>nt_params = p, nt_a = a, nt_a_other = o', nt_b = b\<rparr> = Inr m"
    using near Some a b by (intro decrypt_two_mask_ok [OF laws ctx good s _ _ _ _ _ _ m _ r]) (simp_all add: rows_phase_def add.assoc)
  then show ?thesis using Some a b by (simp add: decode_block_def two_mask_from_rows_def validate_poly_iff)
qed

text \<open>Every error of the protocol: sample noise and query rounding through the scan, the key switches with the
  rounded keys, the rounding of the published rows, and the rounding of the response.\<close>

definition retrieval_error :: "native_profile \<Rightarrow> int" where
  "retrieval_error p = body_error p + (if pr_two_mask p then 2 else 1) * (int (np_d (pr_pack p)) * (65 * mask_radius p))
     + round_radius (full_bits p) (pr_response_bits p)"

lemma decoded_block:
  assumes laws: "ntt_laws eng (np_d (pr_pack p))" and ctx: "new_lift_context eng (np_d (pr_pack p)) (np_q (pr_pack p)) = Inr ctx"
    and p: "shape_ok p" "widths_ok p" and s: "sec_params s = pr_pack p" "small_secret (pr_pack p) (sec_coeffs s) 65"
    and tw: "other = None \<longleftrightarrow> \<not> pr_two_mask p"
    and rows: "length a = np_d (pr_pack p)" "all_below (np_q (pr_pack p)) a"
      "\<And>o'. other = Some o' \<Longrightarrow> length o' = np_d (pr_pack p) \<and> all_below (np_q (pr_pack p)) o'"
    and out: "length out = np_d (pr_pack p)" "all_below (np_q (pr_pack p)) out" and m: "length m = np_d (pr_pack p)" "all_below (np_p (pr_pack p)) m"
    and near: "\<And>k. k < np_d (pr_pack p) \<Longrightarrow> near (np_q (pr_pack p)) (body_error p) (int (np_q (pr_pack p) div np_p (pr_pack p)) * int (m ! k))
      (int (out ! k) + rows_phase (pr_pack p) a other (sec_coeffs s) k)"
    and room: "2 * retrieval_error p < int (np_q (pr_pack p) div np_p (pr_pack p))"
  shows "decode_block eng (pr_pack p) s (map (publish_word p) a) (map_option (map (publish_word p)) other)
    (map (received (full_bits p) (pr_response_bits p)) out) = Inr m"
proof -
  let ?q = "np_q (pr_pack p)" and ?f = "publish_word p" and ?g = "received (full_bits p) (pr_response_bits p)"
  note W = profile_widths [OF p]
  have good: "good_native (pr_pack p)" using p(1) by (simp add: shape_ok_def)
  have sl: "length (sec_coeffs s) = np_d (pr_pack p)" "all_below ?q (sec_coeffs s)" using s(2) by (simp_all add: small_secret_def)
  have f: "?f x < ?q \<and> near ?q (mask_radius p) (int x) (int (?f x))" if "x < ?q" for x using publish_word_props [OF p that] by blast
  have k64: "full_bits p < 64" using W(3) by simp
  have g: "?g x < ?q \<and> near ?q (round_radius (full_bits p) (pr_response_bits p)) (int x) (int (?g x))" if "x < ?q" for x
    using received_props(1,2) [OF _ W(5) k64] that unfolding W(1) by blast
  show ?thesis
  proof (rule decode_block_near [OF laws ctx good s(1) sl _ _ _ _ _ m _ room])
    show "length (map ?f a) = np_d (pr_pack p)" "all_below ?q (map ?f a)" "length (map ?g out) = np_d (pr_pack p)" "all_below ?q (map ?g out)"
      using rows(1,2) out f g by (auto simp: all_below_set)
    show "length o' = np_d (pr_pack p) \<and> all_below ?q o'" if "map_option (map ?f) other = Some o'" for o'
      using that rows(3) f by (auto simp: all_below_set)
    fix k assume k: "k < np_d (pr_pack p)"
    have "out ! k < ?q" using out k by (auto intro: all_below_nth)
    then have one: "near ?q (round_radius (full_bits p) (pr_response_bits p)) (int (out ! k)) (int (map ?g out ! k))" using g k out(1) by simp
    have "near ?q (body_error p + (round_radius (full_bits p) (pr_response_bits p) + (if pr_two_mask p then 2 else 1) * (int (np_d (pr_pack p)) * (65 * mask_radius p))))
        (int (?q div np_p (pr_pack p)) * int (m ! k)) (int (map ?g out ! k) + rows_phase (pr_pack p) (map ?f a) (map_option (map ?f) other) (sec_coeffs s) k)"
      by (rule near_trans [OF near [OF k] near_add [OF one rounded_rows [OF good s(2) tw rows f k]]])
    then show "near ?q (retrieval_error p) (int (?q div np_p (pr_pack p)) * int (m ! k))
        (int (map ?g out ! k) + rows_phase (pr_pack p) (map ?f a) (map_option (map ?f) other) (sec_coeffs s) k)"
      by (simp add: retrieval_error_def algebra_simps)
  qed
qed

lemma decode_answers:
  assumes laws: "ntt_laws eng (np_d (pr_pack p))" and ctx: "new_lift_context eng (np_d (pr_pack p)) (np_q (pr_pack p)) = Inr ctx"
    and p: "shape_ok p" "widths_ok p" and st: "sv_setup sv = setup" "ps_profile setup = p"
    and sv: "length (sv_pre sv) = pr_cols p div np_d (pr_pack p)"
      "\<And>pre. pre \<in> set (sv_pre sv) \<Longrightarrow> length (pre_a pre) = np_d (pr_pack p) \<and> all_below (np_q (pr_pack p)) (pre_a pre)
        \<and> (pre_a_other pre = None \<longleftrightarrow> \<not> pr_two_mask p)
        \<and> (\<forall>o'. pre_a_other pre = Some o' \<longrightarrow> length o' = np_d (pr_pack p) \<and> all_below (np_q (pr_pack p)) o')"
    and rq: "rq_profile rq = p" "rq_setup_id rq = ps_id setup" "sec_params (rq_secret rq) = pr_pack p" "small_secret (pr_pack p) (sec_coeffs (rq_secret rq)) 65"
    and ids: "length (ps_id setup) = 32 \<and> all_below 256 (ps_id setup)" "length (rq_query_id rq) = 32 \<and> all_below 256 (rq_query_id rq)"
    and db: "database_ok p w db" and target: "target < pr_rows p" and answers: "answers p sv db (sec_coeffs (rq_secret rq)) target outs"
    and room: "2 * retrieval_error p < int (np_q (pr_pack p) div np_p (pr_pack p))"
  defines "response \<equiv> response_magic p @ ps_id setup @ rq_query_id rq
    @ encode (map (down_word (full_bits p - pr_response_bits p) (pr_response_bits p)) (concat outs)) (pr_response_bits p)"
  shows "\<exists>pb. published sv = Inr pb \<and> decode_response eng rq pb response = Inr (map (selected p db target) [0..<pr_cols p])"
proof -
  let ?d = "np_d (pr_pack p)" and ?q = "np_q (pr_pack p)" and ?n = "pr_cols p div np_d (pr_pack p)" and ?k = "full_bits p" and ?r = "pr_response_bits p"
  note W = profile_widths [OF p]
  have good: "good_native (pr_pack p)" and dims: "?d dvd pr_cols p" using p(1) by (simp_all add: shape_ok_def)
  have n: "?n * ?d = pr_cols p" using dims by simp
  obtain pb where pb: "published sv = Inr pb" "published_ok p (ps_id setup) pb" "pb_masks pb = map (map (publish_word p)) (map pre_a (sv_pre sv))"
    "pb_other_masks pb = (if pr_two_mask p then Some (map (map (publish_word p)) (map (\<lambda>pre. the (pre_a_other pre)) (sv_pre sv))) else None)"
    using published_rows [OF p _ sv(1,2)] st by blast
  have A: "length outs = ?n" "\<And>block. block < ?n \<Longrightarrow> length (outs ! block) = ?d \<and> all_below ?q (outs ! block)
    \<and> (\<forall>k<?d. near ?q (body_error p) (int (?q div np_p (pr_pack p)) * int (selected p db target (block * ?d + k)))
         (int (outs ! block ! k) + rows_phase (pr_pack p) (pre_a (sv_pre sv ! block)) (pre_a_other (sv_pre sv ! block)) (sec_coeffs (rq_secret rq)) k))"
    using answers unfolding answers_def Let_def by blast+
  have blocks: "length xs = ?d \<and> all_below ?q xs" if "xs \<in> set outs" for xs using that A by (metis in_set_conv_nth)
  then have lens: "\<forall>xs\<in>set outs. length xs = ?d" by blast
  have below: "all_below (2 ^ ?k) (concat outs)" using blocks by (auto simp: all_below_set simp flip: W(1))
  have lc: "length (concat outs) = pr_cols p" using length_concat_rows [OF lens] A(1) n by simp
  have k64: "?k < 64" "?r \<le> 64" using W(3,5) by simp_all
  note S = sent_received [OF W(4,5) k64(1) below, unfolded lc]
  let ?sent = "map (down_word (?k - ?r) ?r) (concat outs)"
  note E = encode_props(1,2) [OF W(4) k64(2), of ?sent]
  have magic: "all_below 256 (response_magic p)" by (simp add: response_magic_def ascii_def all_below_set)
  have bytes: "all_below 256 response" using magic ids E(2) by (simp add: response_def)
  have match: "\<not> response_mismatch rq response"
    using ids E(1) lc by (simp add: response_mismatch_def Let_def response_def rq(1,2) request_magic_simps)
  have drop68: "drop 68 response = encode ?sent ?r" using ids by (simp add: response_def request_magic_simps)
  have bodies: "response_bodies p response = Inr (map (received ?k ?r) (concat outs))"
    unfolding response_bodies_def drop68 W(1) using S(3,4) by simp
  have "decode_response eng rq pb response = decode_blocks eng p (rq_secret rq) pb (map (received ?k ?r) (concat outs))"
    using decode_response_blocks [OF p _ rq(1) bytes, of pb eng] pb(2) rq(2) match bodies by simp
  also have "\<dots> = Inr (concat (map (\<lambda>i. map (\<lambda>k. selected p db target (i * ?d + k)) [0..<?d]) [0..<?n]))"
  proof -
    have "decode_block eng (pr_pack p) (rq_secret rq) (pb_masks pb ! i) (map_option (\<lambda>o'. o' ! i) (pb_other_masks pb)) (chunk_at ?d (map (received ?k ?r) (concat outs)) i)
        = Inr (map (\<lambda>k. selected p db target (i * ?d + k)) [0..<?d])" if i: "i < ?n" for i
    proof -
      let ?pre = "sv_pre sv ! i" and ?m = "map (\<lambda>k. selected p db target (i * ?d + k)) [0..<?d]"
      have mem: "?pre \<in> set (sv_pre sv)" using i sv(1) by simp
      note R = sv(2) [OF mem]
      have "selected p db target (i * ?d + k) < np_p (pr_pack p)" if "k < ?d" for k
      proof -
        have "i * ?d + k < pr_cols p" using row_slot [OF i that] n by simp
        then have "(i * ?d + k) * pr_rows p + target < pr_cols p * pr_rows p" using target by (rule row_slot)
        then show ?thesis using db by (auto simp: selected_def database_ok_def mult.commute intro: all_below_nth)
      qed
      then have m: "length ?m = ?d" "all_below (np_p (pr_pack p)) ?m" by (auto simp: all_below_set)
      have "chunk_at ?d (map (received ?k ?r) (concat outs)) i = map (received ?k ?r) (chunk_at ?d (concat outs) i)"
        using row_slot [OF i, of _ ?d, unfolded n] lc by (auto simp: chunk_at_def)
      also have "chunk_at ?d (concat outs) i = outs ! i"
      proof -
        have "map (chunk_at ?d (concat outs)) [0..<?n] = outs"
          using chunks_exact_chunk_at [of ?d "concat outs" ?n] chunks_exact_concat [OF good_nativeD(1) [OF good] lens] lc n good_nativeD(1) [OF good] by simp
        from arg_cong [OF this, of "\<lambda>l. l ! i"] show ?thesis using i by simp
      qed
      finally have c: "chunk_at ?d (map (received ?k ?r) (concat outs)) i = map (received ?k ?r) (outs ! i)" .
      have o: "map_option (\<lambda>o'. o' ! i) (pb_other_masks pb) = map_option (map (publish_word p)) (pre_a_other ?pre)"
        using pb(4) R i sv(1) by (cases "pre_a_other ?pre") auto
      have a: "pb_masks pb ! i = map (publish_word p) (pre_a ?pre)" using pb(3) i sv(1) by simp
      show ?thesis
        unfolding c o a
      proof (rule decoded_block [OF laws ctx p rq(3,4) _ _ _ _ _ _ m _ room])
        show "pre_a_other ?pre = None \<longleftrightarrow> \<not> pr_two_mask p" "length (pre_a ?pre) = ?d" "all_below ?q (pre_a ?pre)" using R by blast+
        show "length o' = ?d \<and> all_below ?q o'" if "pre_a_other ?pre = Some o'" for o' using R that by blast
        show "length (outs ! i) = ?d" "all_below ?q (outs ! i)" using A(2) [OF i] by blast+
        fix k assume "k < ?d"
        then show "near ?q (body_error p) (int (?q div np_p (pr_pack p)) * int (?m ! k))
            (int (outs ! i ! k) + rows_phase (pr_pack p) (pre_a ?pre) (pre_a_other ?pre) (sec_coeffs (rq_secret rq)) k)"
          using A(2) [OF i] by simp
      qed
    qed
    then have "collectR (\<lambda>i. decode_block eng (pr_pack p) (rq_secret rq) (pb_masks pb ! i) (map_option (\<lambda>o'. o' ! i) (pb_other_masks pb))
          (chunk_at ?d (map (received ?k ?r) (concat outs)) i)) [0..<?n]
        = Inr (map (\<lambda>i. map (\<lambda>k. selected p db target (i * ?d + k)) [0..<?d]) [0..<?n])" by (intro collectR_all_Inr) simp
    moreover have "length (pb_masks pb) = ?n" using pb(3) sv(1) by simp
    ultimately show ?thesis unfolding decode_blocks_def by (simp only: mapR_simps)
  qed
  also have "concat (map (\<lambda>i. map (\<lambda>k. selected p db target (i * ?d + k)) [0..<?d]) [0..<?n]) = map (selected p db target) [0..<pr_cols p]"
    using concat_tiles [of "selected p db target" ?d ?n] n by simp
  finally show ?thesis using pb(1) by blast
qed

section \<open>Properties\<close>

text \<open>C1. Private retrieval is correct. For any client profile, setup and database that the profile allows, the
  server builds, the client generates a request for a row inside the database, the server answers it,
  and decoding the answer with the server's published masks returns exactly that row, in every column,
  for both entry widths, both output modes and every transport width, as long as the sum of all errors
  (sample noise, query, key, mask and response rounding, key switching and division) stays below half a
  plaintext step.\<close>

theorem private_retrieval:
  assumes "client_profile eng p" and "ntt_laws eng (np_d (pr_pack p))" and "inverses_exist eng (np_d (pr_pack p))"
    and "gauss_law env (np_q (pr_pack p))" and "hash_law env" and "new_public_setup env p seed snapshot = setup"
    and "database_ok p w db" and "0 < concurrent" and "target < pr_rows p"
    and "2 * retrieval_error p < int (np_q (pr_pack p) div np_p (pr_pack p))"
  shows "\<exists>sv rq g' pb response. build_server eng cpu setup w db concurrent = Inr sv
    \<and> generate_with_rng eng env setup target g = Some (Inr (rq, g')) \<and> respond eng cpu env sv (rq_bytes rq) = Inr response
    \<and> published sv = Inr pb \<and> decode_response eng rq pb response = Inr (map (\<lambda>col. db ! (col * pr_rows p + target)) [0..<pr_cols p])"
proof -
  note S = client_profile_shape [OF assms(1)]
  note p = S(1,2) and laws = assms(2) and st = assms(6) and PS = public_setup_ok [OF S(1) assms(6)]
  obtain ctx where ctx: "new_lift_context eng (np_d (pr_pack p)) (np_q (pr_pack p)) = Inr ctx" using S(3) by blast
  obtain sv where sv: "build_server eng cpu setup w db concurrent = Inr sv" "sv_setup sv = setup" "length (sv_pre sv) = pr_cols p div np_d (pr_pack p)"
    "\<And>block. block < pr_cols p div np_d (pr_pack p) \<Longrightarrow> lwe_masks (pr_pack p) (hint p (ps_polys setup) db block)
      \<and> built eng cpu (ps_packing setup) ctx (hint p (ps_polys setup) db block) (pr_two_mask p) (sv_pre sv ! block)"
    "\<And>cpu' cpu'' words query. new_query cpu' words (np_q (pr_pack p)) = Inr query \<Longrightarrow> length words = pr_rows p
      \<Longrightarrow> scan cpu'' sv query = Inr (map (column_product words (np_q (pr_pack p)) db) [0..<pr_cols p])"
    using build_server_ok [OF laws assms(3) ctx p(1) st assms(7,8), of cpu] by blast
  obtain rq g' keys words where rq: "generate_with_rng eng env setup target g = Some (Inr (rq, g'))"
    "rq_profile rq = p" "rq_setup_id rq = ps_id setup" "rq_query_id rq = sha256 env (rq_bytes rq)"
    "sec_params (rq_secret rq) = pr_pack p" "small_secret (pr_pack p) (sec_coeffs (rq_secret rq)) 65"
    "readable_request setup (sec_coeffs (rq_secret rq)) target (rq_bytes rq) keys words"
    using request_ok [OF laws ctx assms(4,5) p st assms(9)] by blast
  have lw: "length words = pr_rows p" using rq(7) PS(1) by (simp add: readable_request_def Let_def)
  have "\<exists>outs. answers p sv db (sec_coeffs (rq_secret rq)) target outs \<and>
    respond eng cpu env sv (rq_bytes rq) = Inr (response_magic p @ ps_id setup @ sha256 env (rq_bytes rq)
        @ encode (map (down_word (full_bits p - pr_response_bits p) (pr_response_bits p)) (concat outs)) (pr_response_bits p))"
    by (rule response_ok [OF p st assms(7,9) rq(7,6) laws ctx sv(2,3)]) (rule sv(4), assumption, rule sv(5) [OF _ lw])
  then obtain outs where outs: "answers p sv db (sec_coeffs (rq_secret rq)) target outs"
    "respond eng cpu env sv (rq_bytes rq) = Inr (response_magic p @ ps_id setup @ sha256 env (rq_bytes rq)
        @ encode (map (down_word (full_bits p - pr_response_bits p) (pr_response_bits p)) (concat outs)) (pr_response_bits p))" by blast
  have rows: "length (pre_a pre) = np_d (pr_pack p) \<and> all_below (np_q (pr_pack p)) (pre_a pre) \<and> (pre_a_other pre = None \<longleftrightarrow> \<not> pr_two_mask p)
    \<and> (\<forall>o'. pre_a_other pre = Some o' \<longrightarrow> length o' = np_d (pr_pack p) \<and> all_below (np_q (pr_pack p)) o')" if "pre \<in> set (sv_pre sv)" for pre
  proof -
    obtain block where "block < pr_cols p div np_d (pr_pack p)" "pre = sv_pre sv ! block" using \<open>pre \<in> set (sv_pre sv)\<close> sv(3) by (metis in_set_conv_nth)
    then show ?thesis using built_rows [OF PS(4,5)] sv(4) by metis
  qed
  have ids: "length (sha256 env bs) = 32 \<and> all_below 256 (sha256 env bs)" for bs using assms(5) by (simp add: hash_law_def)
  have "\<exists>pb. published sv = Inr pb \<and> decode_response eng rq pb (response_magic p @ ps_id setup @ rq_query_id rq
        @ encode (map (down_word (full_bits p - pr_response_bits p) (pr_response_bits p)) (concat outs)) (pr_response_bits p))
      = Inr (map (selected p db target) [0..<pr_cols p])"
    by (rule decode_answers [OF laws ctx p sv(2) PS(1) sv(3) _ rq(2,3,5,6) _ _ assms(7,9) outs(1) assms(10)], rule rows) (simp_all add: ids PS(2) rq(4))
  then obtain pb where "published sv = Inr pb" "decode_response eng rq pb (response_magic p @ ps_id setup @ sha256 env (rq_bytes rq)
        @ encode (map (down_word (full_bits p - pr_response_bits p) (pr_response_bits p)) (concat outs)) (pr_response_bits p))
      = Inr (map (\<lambda>col. db ! (col * pr_rows p + target)) [0..<pr_cols p])"
    unfolding rq(4) selected_def [abs_def] by blast
  then show ?thesis using sv(1) rq(1) outs(2) by blast
qed

section \<open>The hypotheses can hold\<close>

definition digest_env :: "nat rng_env" where
  "digest_env = demo_env\<lparr>sha256 := \<lambda>bs. replicate 32 (length bs mod 256)\<rparr>"

lemma digest_env: "hash_law digest_env" "gauss_law digest_env 1048576"
  using demo_gauss by (simp_all add: hash_law_def digest_env_def gauss_law_def all_below_set)

definition small_database :: "nat list" where
  "small_database = [1, 0, 1, 1, 0, 0, 1, 0, 1, 1, 1, 0, 0, 1, 0, 1]"

lemma small_error: "retrieval_error small_profile = 81836"
proof -
  have "full_bits small_profile = 20" using small_zeros by (simp add: full_bits_def small_profile_def)
  then show ?thesis
    by (simp add: retrieval_error_def body_error_def block_error_def pack_error_def chain_error_def switch_error_def gadget_radius_def digit_bound_def
        key_noise_def query_radius_def mask_radius_def round_radius_def small_profile_def gauss_params_def)
qed

theorem private_retrieval_witness:
  "\<exists>sv rq g' pb response. build_server demo_engine any_cpu (new_public_setup digest_env small_profile (replicate 32 1) (replicate 32 2)) Wide small_database 1 = Inr sv
    \<and> generate_with_rng demo_engine digest_env (new_public_setup digest_env small_profile (replicate 32 1) (replicate 32 2)) 2 0 = Some (Inr (rq, g'))
    \<and> respond demo_engine any_cpu digest_env sv (rq_bytes rq) = Inr response \<and> published sv = Inr pb
    \<and> decode_response demo_engine rq pb response = Inr [1, 1, 1, 0]"
proof -
  have dims: "np_d (pr_pack small_profile) = 4" "np_q (pr_pack small_profile) = 1048576" "np_p (pr_pack small_profile) = 2"
    "pr_rows small_profile = 4" "pr_cols small_profile = 4" by (simp_all add: small_profile_def gauss_params_def)
  have db: "database_ok small_profile Wide small_database" by (simp add: database_ok_def dims small_database_def entry_bound_def)
  have law: "gauss_law digest_env (np_q (pr_pack small_profile))" using digest_env(2) by (simp add: dims)
  have room: "2 * retrieval_error small_profile < int (np_q (pr_pack small_profile) div np_p (pr_pack small_profile))" by (simp add: small_error dims)
  have inv: "inverses_exist demo_engine (np_d (pr_pack small_profile))" using demo_inverses by (simp add: dims)
  have "(1::nat) > 0" "2 < pr_rows small_profile" by (simp_all add: dims)
  note R = private_retrieval [OF small_profile(1) [OF demo_engine_context] demo_engine_laws inv law digest_env(1) refl db this room,
      of any_cpu "replicate 32 1" "replicate 32 2" 0]
  have "map (\<lambda>col. small_database ! (col * pr_rows small_profile + 2)) [0..<pr_cols small_profile] = [1, 1, 1, 0]"
    unfolding dims by code_simp
  then show ?thesis using R by simp
qed

end
