(* ===== verification/Sampling.thy ===== *)
theory Sampling
  imports Native_Keys Rejection
begin

text \<open>
  Uniform sampling below a bound (\<open>ipir-sp/src/sampling.rs\<close>): Lemire's rejection sampler over 64-bit
  and 32-bit draws. The two loops may run forever on a generator that keeps offering rejected draws, so
  they are partial functions; what they return, on which draw, and how many draws lead to each value are
  the subject of the lemmas.
\<close>

section \<open>Model\<close>

definition leading_zeros :: "nat \<Rightarrow> nat \<Rightarrow> nat" where
  "leading_zeros w x = w - bit_len x"

text \<open>\<open>(bound << bound.leading_zeros()).wrapping_sub(1)\<close> at width \<open>w\<close>.\<close>

definition zone :: "nat \<Rightarrow> nat \<Rightarrow> nat" where
  "zone w bound = (push_bit (leading_zeros w bound) bound mod 2 ^ w + (2 ^ w - 1)) mod 2 ^ w"

partial_function (option) uniform_u64_loop :: "'g rng_env \<Rightarrow> nat \<Rightarrow> 'g \<Rightarrow> (nat \<times> 'g) option" where
  "uniform_u64_loop env bound g =
     (case next_u64 env g of (draw, g') \<Rightarrow>
        let product = u128 (draw * bound); low = u64 product
        in if low \<le> zone 64 bound then Some (drop_bit 64 product, g') else uniform_u64_loop env bound g')"

definition uniform_u64_below :: "'g rng_env \<Rightarrow> nat \<Rightarrow> 'g \<Rightarrow> (nat \<times> 'g) result option" where
  "uniform_u64_below env bound g =
     (if \<not> bound > 0 then Some (Inl (Panic ''uniform bound must be non-zero''))
      else map_option Inr (uniform_u64_loop env bound g))"

partial_function (option) uniform_u32_loop :: "'g rng_env \<Rightarrow> nat \<Rightarrow> 'g \<Rightarrow> (nat \<times> 'g) option" where
  "uniform_u32_loop env bound g =
     (case next_u32 env g of (draw, g') \<Rightarrow>
        let product = u64 (draw * bound); low = u32 product
        in if low \<le> zone 32 bound then Some (drop_bit 32 product, g') else uniform_u32_loop env bound g')"

definition uniform_u32_below :: "'g rng_env \<Rightarrow> nat \<Rightarrow> 'g \<Rightarrow> (nat \<times> 'g) result option" where
  "uniform_u32_below env bound g =
     (if \<not> bound > 0 then Some (Inl (Panic ''uniform bound must be non-zero''))
      else map_option Inr (uniform_u32_loop env bound g))"

section \<open>Draws that are accepted\<close>

definition accepts :: "nat \<Rightarrow> nat \<Rightarrow> nat \<Rightarrow> bool" where
  "accepts w bound draw \<longleftrightarrow> draw * bound mod 2 ^ w \<le> zone w bound"

lemma zone_eq:
  assumes "0 < bound" and "bound < 2 ^ w"
  shows "Suc (zone w bound) = bound * 2 ^ leading_zeros w bound"
    and "bound * 2 ^ leading_zeros w bound \<le> 2 ^ w" and "2 ^ w < 2 * (bound * 2 ^ leading_zeros w bound) + 1"
proof -
  let ?z = "leading_zeros w bound"
  have len: "bit_len bound \<le> w" using assms(2) by (simp add: bit_len_le_iff)
  then have split: "(2::nat) ^ w = 2 ^ bit_len bound * 2 ^ ?z" by (simp add: leading_zeros_def power_add [symmetric])
  have "bound < 2 ^ bit_len bound" by (rule less_exp_bit_len)
  then have less: "bound * 2 ^ ?z < 2 ^ w" unfolding split by simp
  then show "bound * 2 ^ ?z \<le> 2 ^ w" by simp
  obtain k where k: "bit_len bound = Suc k" using bit_len_pos [OF assms(1)] by (cases "bit_len bound") auto
  then have "\<not> bit_len bound \<le> k" by simp
  then have "2 ^ k \<le> bound" by (simp add: bit_len_le_iff not_less)
  then have "2 * 2 ^ k * 2 ^ ?z \<le> 2 * (bound * 2 ^ ?z)" by simp
  then show "2 ^ w < 2 * (bound * 2 ^ ?z) + 1" unfolding split k power_Suc by linarith
  have "0 < bound * 2 ^ ?z" using assms(1) by simp
  then have wrap: "bound * 2 ^ ?z + (2 ^ w - 1) = bound * 2 ^ ?z - 1 + 2 ^ w" by simp
  have "zone w bound = (bound * 2 ^ ?z - 1 + 2 ^ w) mod 2 ^ w"
    unfolding zone_def push_bit_eq_mult mod_less [OF less] wrap by (rule refl)
  also have "\<dots> = bound * 2 ^ ?z - 1" using less by simp
  finally show "Suc (zone w bound) = bound * 2 ^ ?z" using assms(1) by simp
qed

text \<open>The multiples of \<open>b\<close> in a window of \<open>b * c\<close> consecutive numbers are \<open>c\<close>.\<close>

lemma card_multiples:
  fixes a b c :: nat
  assumes "0 < b"
  shows "card {n. a \<le> n * b \<and> n * b < a + b * c} = c"
proof -
  let ?k = "(a + b - 1) div b"
  have lo: "a \<le> n * b \<longleftrightarrow> ?k \<le> n" for n
  proof -
    have "?k \<le> n \<longleftrightarrow> a + b - 1 < Suc n * b" using assms by (simp add: less_Suc_eq_le [symmetric] div_less_iff_less_mult)
    then show ?thesis using assms by auto
  qed
  have "n * b < a + b * c \<longleftrightarrow> n < ?k + c" for n
  proof -
    have "n < ?k + c \<longleftrightarrow> \<not> (c \<le> n \<and> ?k \<le> n - c)" by auto
    also have "\<dots> \<longleftrightarrow> \<not> (c \<le> n \<and> a \<le> (n - c) * b)" by (simp add: lo)
    also have "\<dots> \<longleftrightarrow> n * b < a + b * c"
    proof (cases "c \<le> n")
      case True
      then have "n * b = (n - c) * b + b * c" by (metis add_mult_distrib le_add_diff_inverse2 mult.commute)
      then show ?thesis using True by linarith
    next
      case False
      then have "n * b < b * c" using assms by (simp add: mult.commute [of b])
      then show ?thesis using False by linarith
    qed
    finally show ?thesis by simp
  qed
  then have "{n. a \<le> n * b \<and> n * b < a + b * c} = {?k..<?k + c}" using lo by auto
  then show ?thesis by simp
qed

text \<open>Exact uniformity: each value is the image of the same number of accepted draws.\<close>

lemma accepted_draws:
  assumes b: "0 < bound" "bound < 2 ^ w"
  shows "card {draw. draw < 2 ^ w \<and> accepts w bound draw \<and> draw * bound div 2 ^ w = v}
    = (if v < bound then 2 ^ leading_zeros w bound else 0)"
proof (cases "v < bound")
  case True
  let ?c = "2 ^ leading_zeros w bound :: nat"
  note Z = zone_eq [OF b]
  have "draw < 2 ^ w \<and> accepts w bound draw \<and> draw * bound div 2 ^ w = v
      \<longleftrightarrow> v * 2 ^ w \<le> draw * bound \<and> draw * bound < v * 2 ^ w + bound * ?c" for draw
  proof
    assume h: "draw < 2 ^ w \<and> accepts w bound draw \<and> draw * bound div 2 ^ w = v"
    then have "draw * bound mod 2 ^ w < bound * ?c" using Z(1) by (simp add: accepts_def)
    moreover have "draw * bound = v * 2 ^ w + draw * bound mod 2 ^ w" using h div_mult_mod_eq [of "draw * bound" "2 ^ w"] by simp
    ultimately show "v * 2 ^ w \<le> draw * bound \<and> draw * bound < v * 2 ^ w + bound * ?c" by linarith
  next
    assume h: "v * 2 ^ w \<le> draw * bound \<and> draw * bound < v * 2 ^ w + bound * ?c"
    then obtain r where r: "draw * bound = v * 2 ^ w + r" "r < bound * ?c" using le_Suc_ex [of "v * 2 ^ w" "draw * bound"] by auto
    then have rw: "r < 2 ^ w" using Z(2) by simp
    have "Suc v * 2 ^ w \<le> bound * 2 ^ w" using True by (intro mult_le_mono1) simp
    then have "draw * bound < 2 ^ w * bound" using r(1) rw by (simp add: mult.commute)
    then have "draw < 2 ^ w" by (rule mult_less_cancel2 [THEN iffD1, THEN conjunct2])
    moreover have "draw * bound mod 2 ^ w = r" "draw * bound div 2 ^ w = v" using r(1) rw by simp_all
    ultimately show "draw < 2 ^ w \<and> accepts w bound draw \<and> draw * bound div 2 ^ w = v"
      using r(2) Z(1) by (simp add: accepts_def)
  qed
  then have "{draw. draw < 2 ^ w \<and> accepts w bound draw \<and> draw * bound div 2 ^ w = v}
      = {draw. v * 2 ^ w \<le> draw * bound \<and> draw * bound < v * 2 ^ w + bound * ?c}" by blast
  then show ?thesis using card_multiples [OF b(1), of "v * 2 ^ w" ?c] True by (simp only: if_True)
next
  case False
  have "draw * bound div 2 ^ w < bound" if "draw < 2 ^ w" for draw
    using that b(1) by (simp add: less_mult_imp_div_less mult.commute)
  then have "{draw. draw < 2 ^ w \<and> accepts w bound draw \<and> draw * bound div 2 ^ w = v} = {}" using False by auto
  then show ?thesis using False by simp
qed

lemma accepts_often:
  assumes b: "0 < bound" "bound < 2 ^ w"
  shows "2 ^ w \<le> 2 * card {draw. draw < 2 ^ w \<and> accepts w bound draw}"
proof -
  let ?A = "\<lambda>v. {draw. draw < 2 ^ w \<and> accepts w bound draw \<and> draw * bound div 2 ^ w = v}"
  have "{draw. draw < 2 ^ w \<and> accepts w bound draw} = (\<Union>v<bound. ?A v)"
    using b(1) by (auto simp: less_mult_imp_div_less mult.commute)
  moreover have "card (\<Union>v<bound. ?A v) = (\<Sum>v<bound. card (?A v))"
    by (rule card_UN_disjoint) auto
  moreover have "(\<Sum>v<bound. card (?A v)) = bound * 2 ^ leading_zeros w bound"
    using accepted_draws [OF b] by simp
  ultimately show ?thesis using zone_eq(3) [OF b] by simp
qed

section \<open>The loops\<close>

lemma u64_ends:
  assumes "uniform_u64_loop env bound g = Some r"
  shows "\<exists>n. u64 (u128 (nth_draw (next_u64 env) g n * bound)) \<le> zone 64 bound"
proof (rule uniform_u64_loop.raw_induct
    [where P = "\<lambda>env bound g r. \<exists>n. u64 (u128 (nth_draw (next_u64 env) g n * bound)) \<le> zone 64 bound", OF _ assms])
  fix loop and env :: "'a rng_env" and bound g r
  assume IH: "\<And>env bound g r. loop env bound g = Some r \<Longrightarrow> \<exists>n. u64 (u128 (nth_draw (next_u64 env) g n * bound)) \<le> zone 64 bound"
    and eq: "(case next_u64 env g of (draw, g') \<Rightarrow> let product = u128 (draw * bound); low = u64 product
      in if low \<le> zone 64 bound then Some (drop_bit 64 product, g') else loop env bound g') = Some r"
  show "\<exists>n. u64 (u128 (nth_draw (next_u64 env) g n * bound)) \<le> zone 64 bound"
  proof (cases "u64 (u128 (fst (next_u64 env g) * bound)) \<le> zone 64 bound")
    case True
    then show ?thesis by (intro exI [of _ 0]) simp
  next
    case False
    then have "loop env bound (snd (next_u64 env g)) = Some r" using eq by (simp add: split_beta Let_def)
    then obtain n where "u64 (u128 (nth_draw (next_u64 env) (snd (next_u64 env g)) n * bound)) \<le> zone 64 bound" using IH by blast
    then show ?thesis by (intro exI [of _ "Suc n"]) simp
  qed
qed

lemma u32_ends:
  assumes "uniform_u32_loop env bound g = Some r"
  shows "\<exists>n. u32 (u64 (nth_draw (next_u32 env) g n * bound)) \<le> zone 32 bound"
proof (rule uniform_u32_loop.raw_induct
    [where P = "\<lambda>env bound g r. \<exists>n. u32 (u64 (nth_draw (next_u32 env) g n * bound)) \<le> zone 32 bound", OF _ assms])
  fix loop and env :: "'a rng_env" and bound g r
  assume IH: "\<And>env bound g r. loop env bound g = Some r \<Longrightarrow> \<exists>n. u32 (u64 (nth_draw (next_u32 env) g n * bound)) \<le> zone 32 bound"
    and eq: "(case next_u32 env g of (draw, g') \<Rightarrow> let product = u64 (draw * bound); low = u32 product
      in if low \<le> zone 32 bound then Some (drop_bit 32 product, g') else loop env bound g') = Some r"
  show "\<exists>n. u32 (u64 (nth_draw (next_u32 env) g n * bound)) \<le> zone 32 bound"
  proof (cases "u32 (u64 (fst (next_u32 env g) * bound)) \<le> zone 32 bound")
    case True
    then show ?thesis by (intro exI [of _ 0]) simp
  next
    case False
    then have "loop env bound (snd (next_u32 env g)) = Some r" using eq by (simp add: split_beta Let_def)
    then obtain n where "u32 (u64 (nth_draw (next_u32 env) (snd (next_u32 env g)) n * bound)) \<le> zone 32 bound" using IH by blast
    then show ?thesis by (intro exI [of _ "Suc n"]) simp
  qed
qed

interpretation u64_draws: rejection_loop "next_u64 env" "\<lambda>v. u64 (u128 (v * bound)) \<le> zone 64 bound"
    "\<lambda>v. drop_bit 64 (u128 (v * bound))" "uniform_u64_loop env bound" for env bound
  by (unfold_locales, subst uniform_u64_loop.simps, simp add: split_beta Let_def, rule u64_ends)

interpretation u32_draws: rejection_loop "next_u32 env" "\<lambda>v. u32 (u64 (v * bound)) \<le> zone 32 bound"
    "\<lambda>v. drop_bit 32 (u64 (v * bound))" "uniform_u32_loop env bound" for env bound
  by (unfold_locales, subst uniform_u32_loop.simps, simp add: split_beta Let_def, rule u32_ends)

text \<open>On words the casts of the two bodies lose nothing.\<close>

lemma u64_body:
  assumes "v < 2 ^ 64" and "bound < 2 ^ 64"
  shows "u64 (u128 (v * bound)) \<le> zone 64 bound \<longleftrightarrow> accepts 64 bound v" and "drop_bit 64 (u128 (v * bound)) = v * bound div 2 ^ 64"
proof -
  have "v * bound < 2 ^ 64 * 2 ^ 64" using assms by (intro mult_strict_mono) simp_all
  then have "u128 (v * bound) = v * bound" by (simp add: u128_def)
  then show "u64 (u128 (v * bound)) \<le> zone 64 bound \<longleftrightarrow> accepts 64 bound v" "drop_bit 64 (u128 (v * bound)) = v * bound div 2 ^ 64"
    by (simp_all add: accepts_def u64_def drop_bit_eq_div)
qed

lemma u32_body:
  assumes "v < 2 ^ 32" and "bound < 2 ^ 32"
  shows "u32 (u64 (v * bound)) \<le> zone 32 bound \<longleftrightarrow> accepts 32 bound v" and "drop_bit 32 (u64 (v * bound)) = v * bound div 2 ^ 32"
proof -
  have "v * bound < 2 ^ 32 * 2 ^ 32" using assms by (intro mult_strict_mono) simp_all
  then have "u64 (v * bound) = v * bound" by (simp add: u64_def)
  then show "u32 (u64 (v * bound)) \<le> zone 32 bound \<longleftrightarrow> accepts 32 bound v" "drop_bit 32 (u64 (v * bound)) = v * bound div 2 ^ 32"
    by (simp_all add: accepts_def u32_def drop_bit_eq_div)
qed

section \<open>Properties\<close>

text \<open>The samplers return exactly when the generator offers an accepted draw, on the first one, with the top half
  of its product with the bound; each value below the bound is the result of the same number of draws, no
  other value is the result of any, and at least half of all draws are accepted. A zero bound panics.\<close>

theorem uniform_u64_exact:
  fixes env' :: "nat rng_env"
  assumes "\<And>g. fst (next_u64 env g) < 2 ^ 64" and "0 < bound" and "bound < 2 ^ 64"
  shows "(uniform_u64_below env bound g = Some (Inr (x, g')) \<longleftrightarrow>
      (\<exists>n. (\<forall>k<n. \<not> accepts 64 bound (nth_draw (next_u64 env) g k)) \<and> accepts 64 bound (nth_draw (next_u64 env) g n)
        \<and> x = nth_draw (next_u64 env) g n * bound div 2 ^ 64 \<and> g' = nth_state (next_u64 env) g (Suc n)))
    \<and> card {v. v < 2 ^ 64 \<and> uniform_u64_below (env'\<lparr>next_u64 := \<lambda>v. (v, v)\<rparr>) bound v = Some (Inr (y, v))}
      = (if y < bound then 2 ^ leading_zeros 64 bound else 0)
    \<and> 2 ^ 63 \<le> card {v. v < 2 ^ 64 \<and> accepts 64 bound v}"
proof (intro conjI)
  have below: "nth_draw (next_u64 env) g n < 2 ^ 64" for n unfolding nth_draw_def by (rule assms(1))
  have runs: "uniform_u64_below env bound h = Some (Inr (z, h')) \<longleftrightarrow> uniform_u64_loop env bound h = Some (z, h')" for h z h'
    using assms(2) by (auto simp: uniform_u64_below_def)
  show "uniform_u64_below env bound g = Some (Inr (x, g')) \<longleftrightarrow>
      (\<exists>n. (\<forall>k<n. \<not> accepts 64 bound (nth_draw (next_u64 env) g k)) \<and> accepts 64 bound (nth_draw (next_u64 env) g n)
        \<and> x = nth_draw (next_u64 env) g n * bound div 2 ^ 64 \<and> g' = nth_state (next_u64 env) g (Suc n))"
    unfolding runs u64_draws.returns_iff u64_body [OF below assms(3)] by (rule refl)
  have "{v. v < 2 ^ 64 \<and> uniform_u64_below (env'\<lparr>next_u64 := \<lambda>v. (v, v)\<rparr>) bound v = Some (Inr (y, v))}
      = {v. v < 2 ^ 64 \<and> accepts 64 bound v \<and> v * bound div 2 ^ 64 = y}"
    using assms(2) u64_body [OF _ assms(3)] by (auto simp: uniform_u64_below_def u64_draws.returns_iff)
  then show "card {v. v < 2 ^ 64 \<and> uniform_u64_below (env'\<lparr>next_u64 := \<lambda>v. (v, v)\<rparr>) bound v = Some (Inr (y, v))}
      = (if y < bound then 2 ^ leading_zeros 64 bound else 0)" using accepted_draws [OF assms(2,3), of y] by simp
  show "2 ^ 63 \<le> card {v. v < 2 ^ 64 \<and> accepts 64 bound v}" using accepts_often [OF assms(2,3)] by simp
qed

theorem uniform_u32_exact:
  fixes env' :: "nat rng_env"
  assumes "\<And>g. fst (next_u32 env g) < 2 ^ 32" and "0 < bound" and "bound < 2 ^ 32"
  shows "(uniform_u32_below env bound g = Some (Inr (x, g')) \<longleftrightarrow>
      (\<exists>n. (\<forall>k<n. \<not> accepts 32 bound (nth_draw (next_u32 env) g k)) \<and> accepts 32 bound (nth_draw (next_u32 env) g n)
        \<and> x = nth_draw (next_u32 env) g n * bound div 2 ^ 32 \<and> g' = nth_state (next_u32 env) g (Suc n)))
    \<and> card {v. v < 2 ^ 32 \<and> uniform_u32_below (env'\<lparr>next_u32 := \<lambda>v. (v, v)\<rparr>) bound v = Some (Inr (y, v))}
      = (if y < bound then 2 ^ leading_zeros 32 bound else 0)
    \<and> 2 ^ 31 \<le> card {v. v < 2 ^ 32 \<and> accepts 32 bound v}"
proof (intro conjI)
  have below: "nth_draw (next_u32 env) g n < 2 ^ 32" for n unfolding nth_draw_def by (rule assms(1))
  have runs: "uniform_u32_below env bound h = Some (Inr (z, h')) \<longleftrightarrow> uniform_u32_loop env bound h = Some (z, h')" for h z h'
    using assms(2) by (auto simp: uniform_u32_below_def)
  show "uniform_u32_below env bound g = Some (Inr (x, g')) \<longleftrightarrow>
      (\<exists>n. (\<forall>k<n. \<not> accepts 32 bound (nth_draw (next_u32 env) g k)) \<and> accepts 32 bound (nth_draw (next_u32 env) g n)
        \<and> x = nth_draw (next_u32 env) g n * bound div 2 ^ 32 \<and> g' = nth_state (next_u32 env) g (Suc n))"
    unfolding runs u32_draws.returns_iff u32_body [OF below assms(3)] by (rule refl)
  have "{v. v < 2 ^ 32 \<and> uniform_u32_below (env'\<lparr>next_u32 := \<lambda>v. (v, v)\<rparr>) bound v = Some (Inr (y, v))}
      = {v. v < 2 ^ 32 \<and> accepts 32 bound v \<and> v * bound div 2 ^ 32 = y}"
    using assms(2) u32_body [OF _ assms(3)] by (auto simp: uniform_u32_below_def u32_draws.returns_iff)
  then show "card {v. v < 2 ^ 32 \<and> uniform_u32_below (env'\<lparr>next_u32 := \<lambda>v. (v, v)\<rparr>) bound v = Some (Inr (y, v))}
      = (if y < bound then 2 ^ leading_zeros 32 bound else 0)" using accepted_draws [OF assms(2,3), of y] by simp
  show "2 ^ 31 \<le> card {v. v < 2 ^ 32 \<and> accepts 32 bound v}" using accepts_often [OF assms(2,3)] by simp
qed

section \<open>The hypotheses can hold\<close>

theorem uniform_u64_exact_witness:
  "card {v. v < 2 ^ 64 \<and> uniform_u64_below (demo_env\<lparr>next_u64 := \<lambda>v. (v, v)\<rparr>) 3 v = Some (Inr (2, v))} = 2 ^ 62"
proof -
  have "leading_zeros 64 3 = 62" by (simp add: leading_zeros_def bit_len.simps)
  moreover have "\<And>g. fst (next_u64 (demo_env\<lparr>next_u64 := \<lambda>g. (5, g)\<rparr>) g) < 2 ^ 64" by simp
  ultimately show ?thesis using uniform_u64_exact [of "demo_env\<lparr>next_u64 := \<lambda>g. (5, g)\<rparr>" 3 0 0 0 demo_env 2] by simp
qed

end
