(* ===== verification/Prepared_Native.thy ===== *)
theory Prepared_Native
  imports Native_Build Native_Transport
begin

text \<open>
  The file of native preprocessing (\<open>reinspiring/src/prepared_native.rs\<close>): the writer's byte layout, the
  checking reader over a mapped file, and what both guarantee. A mapping is the list of its bytes; its
  base address is page aligned, so the alignment test of the word slices is on the offset. The target is
  little-endian. A storage view of the mapping is modelled by the words it shows.
\<close>

section \<open>Model: writing\<close>

datatype io_error = InvalidInput string

definition bad :: error where
  "bad = InvalidParams ''invalid native prepared artifact''"

text \<open>\<open>(x as i32).to_le_bytes()\<close>: the low four bytes.\<close>

definition i32_bytes :: "int \<Rightarrow> byte list" where
  "i32_bytes v = take 4 (to_le_bytes (as_u64 v))"

definition fits_i32 :: "int \<Rightarrow> bool" where
  "fits_i32 v \<longleftrightarrow> - (2 ^ 31) \<le> v \<and> v < 2 ^ 31"

definition matrix_bytes :: "packing_matrix \<Rightarrow> byte list" where
  "matrix_bytes m =
     (let narrow = list_all (\<lambda>x. fits_i32 (centered x (pm_q m))) (pm_data m)
      in to_le_bytes (if narrow then 4 else 8)
         @ concat (map (\<lambda>x. let x = i64 (centered x (pm_q m)) in if narrow then i32_bytes x else to_le_bytes (as_u64 x)) (pm_data m)))"

definition leftover_bytes :: "prepared_lift_operand \<Rightarrow> byte list" where
  "leftover_bytes op =
     to_le_bytes (length (plo_transforms op)) @ to_le_bytes (if plo_sum_fits_two op then 1 else 0)
     @ concat (map (\<lambda>limb. to_le_bytes (length limb) @ concat (map (\<lambda>prime. concat (map to_le_bytes prime)) limb)) (plo_transforms op))"

definition block_bytes :: "native_preprocessed \<Rightarrow> byte list result" where
  "block_bytes b =
     mapR (\<lambda>compiled. pre_id b @ concat (map to_le_bytes (pre_a b))
         @ (case pre_a_other b of None \<Rightarrow> [] | Some other \<Rightarrow> concat (map to_le_bytes other))
         @ matrix_bytes compiled @ (case pre_leftover b of None \<Rightarrow> [] | Some op \<Rightarrow> leftover_bytes op))
       (to_compiled (pre_h b))"

text \<open>The outer result is a panic of \<open>to_compiled\<close>, the inner one the \<open>io::Result\<close>; the sink itself does not
  fail.\<close>

definition write_artifact :: "native_preprocessed list \<Rightarrow> (io_error + byte list) result" where
  "write_artifact blocks =
     (let two_mask = (case blocks of [] \<Rightarrow> False | b # _ \<Rightarrow> pre_a_other b \<noteq> None)
      in if list_ex (\<lambda>b. (pre_a_other b \<noteq> None) \<noteq> two_mask) blocks
         then Inr (Inl (InvalidInput ''mixed preprocessing modes''))
         else mapR (\<lambda>bodies. Inr (ascii (if two_mask then ''RNMAP002'' else ''RNMAP001'')
                @ to_le_bytes (length blocks) @ concat bodies)) (collectR block_bytes blocks))"

section \<open>Model: reading\<close>

record reader =
  rd_file :: "byte list"
  rd_at :: nat

type_synonym 'a reading = "reader \<Rightarrow> ('a \<times> reader) result"

definition bindS :: "'a reading \<Rightarrow> ('a \<Rightarrow> 'b reading) \<Rightarrow> 'b reading" where
  "bindS m f = (\<lambda>r. bindR (m r) (\<lambda>(x, r'). f x r'))"

definition returnS :: "'a \<Rightarrow> 'a reading" where
  "returnS x = (\<lambda>r. Inr (x, r))"

definition guardS :: "bool \<Rightarrow> error \<Rightarrow> 'a reading \<Rightarrow> 'a reading" where
  "guardS c e m = (\<lambda>r. guardR c e (m r))"

definition liftS :: "'a result \<Rightarrow> 'a reading" where
  "liftS m = (\<lambda>r. mapR (\<lambda>x. (x, r)) m)"

text \<open>\<open>(0..n).map(|_| m).collect::<Result<Vec<_>, _>>()\<close> on the reader.\<close>

fun repeatS :: "nat \<Rightarrow> 'a reading \<Rightarrow> 'a list reading" where
  "repeatS 0 m = returnS []"
| "repeatS (Suc n) m = bindS m (\<lambda>x. bindS (repeatS n m) (\<lambda>xs. returnS (x # xs)))"

definition take_bytes :: "nat \<Rightarrow> byte list reading" where
  "take_bytes n = (\<lambda>r.
     guardR (rd_at r + n \<ge> 2 ^ 64) bad (guardR (rd_at r + n > length (rd_file r)) bad
       (Inr (take n (drop (rd_at r) (rd_file r)), r\<lparr>rd_at := rd_at r + n\<rparr>))))"

definition read_word :: "nat reading" where
  "read_word = bindS (take_bytes 8) (\<lambda>bs. returnS (from_le_bytes bs))"

text \<open>\<open>storage::<T>\<close> for words of \<open>width\<close> bytes.\<close>

definition read_storage :: "nat \<Rightarrow> nat \<Rightarrow> int list reading" where
  "read_storage width n = (\<lambda>r.
     case checked_mul n width of
       None \<Rightarrow> Inl bad
     | Some bytes \<Rightarrow>
         bindS (take_bytes bytes) (\<lambda>bs.
           guardS (rd_at r mod width \<noteq> 0) bad (returnS (map (\<lambda>c. sext (8 * width) (from_le_bytes c)) (chunks_exact width bs)))) r)"

definition read_row :: "nat \<Rightarrow> nat \<Rightarrow> nat list reading" where
  "read_row d q = bindS (repeatS d read_word) (\<lambda>a. guardS (list_ex (\<lambda>x. x \<ge> q) a) bad (returnS a))"

definition read_matrix :: "nat \<Rightarrow> nat \<Rightarrow> words reading" where
  "read_matrix n q = bindS read_word (\<lambda>width.
     if width = 4 then bindS (read_storage 4 n) (\<lambda>x. returnS (Narrow x))
     else if width = 8 then bindS (read_storage 8 n) (\<lambda>x.
       guardS (list_ex (\<lambda>v. \<bar>v\<bar> > int (q div 2)) x) bad (returnS (Wide x)))
     else liftS (Inl bad))"

fun read_limb :: "nat \<Rightarrow> nat list \<Rightarrow> nat list list reading" where
  "read_limb d [] = returnS []"
| "read_limb d (prime # primes) = bindS (read_row d prime) (\<lambda>values. bindS (read_limb d primes) (\<lambda>limb. returnS (values # limb)))"

definition read_leftover :: "nat \<Rightarrow> nat \<Rightarrow> nat \<Rightarrow> prepared_lift_operand reading" where
  "read_leftover d q ell =
     (let primes = [4398046568449, 4398046666753, 4398046781441]
      in bindS read_word (\<lambda>count. guardS (count \<noteq> ell) bad
        (bindS read_word (\<lambda>fits. guardS (\<not> (fits = 0 \<or> fits = 1)) bad
          (bindS (repeatS ell (bindS read_word (\<lambda>n. guardS (\<not> (2 \<le> n \<and> n \<le> 3)) bad (read_limb d (take n primes))))) (\<lambda>transforms.
             returnS \<lparr>plo_d = d, plo_q = q, plo_transforms = transforms, plo_sum_fits_two = (fits = 1)\<rparr>))))))"

definition read_block :: "ntt_engine \<Rightarrow> native_setup \<Rightarrow> bool \<Rightarrow> native_preprocessed reading" where
  "read_block eng setup two_mask =
     (let p = ns_params setup; d = np_d p; q = np_q p; ell = np_ell p
      in bindS (take_bytes 32) (\<lambda>ident. guardS (ident \<noteq> ns_id setup) bad
        (bindS (read_row d q) (\<lambda>a.
         bindS (if two_mask then bindS (read_row d q) (\<lambda>other. returnS (Some other)) else returnS None) (\<lambda>a_other.
         bindS (read_matrix (d * d * ell) q) (\<lambda>words.
         bindS (if two_mask then returnS None else bindS (read_leftover d q ell) (\<lambda>op. returnS (Some op))) (\<lambda>leftover.
         bindS (liftS (new_lift_context eng d q)) (\<lambda>ctx.
           returnS \<lparr>pre_params = p, pre_id = ident, pre_a = a, pre_a_other = a_other,
             pre_h = \<lparr>nm_rows = d, nm_cols = d * ell, nm_q = q, nm_words = words\<rparr>,
             pre_leftover = leftover, pre_lift = ctx\<rparr>))))))))"

definition read_mode :: "bool reading" where
  "read_mode = bindS (take_bytes 8) (\<lambda>magic.
     if magic = ascii ''RNMAP001'' then returnS False
     else if magic = ascii ''RNMAP002'' then returnS True else liftS (Inl bad))"

definition read_artifact :: "ntt_engine \<Rightarrow> byte list \<Rightarrow> nat \<Rightarrow> native_setup \<Rightarrow> nat \<Rightarrow> native_preprocessed list result" where
  "read_artifact eng file offset setup count =
     guardR (offset mod 8 \<noteq> 0 \<or> count = 0 \<or> count > 16) bad
       (bindR (bindS read_mode (\<lambda>two_mask.
                 bindS read_word (\<lambda>n. guardS (n \<noteq> count) bad (repeatS count (read_block eng setup two_mask))))
               \<lparr>rd_file = file, rd_at = offset\<rparr>) (\<lambda>(result, r).
          guardR (rd_at r \<noteq> length (rd_file r)) bad (Inr result)))"

section \<open>A reader undoes a writer\<close>

text \<open>\<open>m\<close> reads the bytes \<open>enc\<close>, at any aligned place of any file of the address space, as \<open>v\<close>, and stops
  right behind them.\<close>

definition parses :: "'a reading \<Rightarrow> byte list \<Rightarrow> 'a \<Rightarrow> bool" where
  "parses m enc v \<longleftrightarrow> length enc mod 8 = 0 \<and>
     (\<forall>pre post. length pre mod 8 = 0 \<longrightarrow> length (pre @ enc @ post) < 2 ^ 64 \<longrightarrow>
        m \<lparr>rd_file = pre @ enc @ post, rd_at = length pre\<rparr> = Inr (v, \<lparr>rd_file = pre @ enc @ post, rd_at = length pre + length enc\<rparr>))"

lemma parsesI:
  assumes "length enc mod 8 = 0"
    and "\<And>pre post. length pre mod 8 = 0 \<Longrightarrow> length (pre @ enc @ post) < 2 ^ 64 \<Longrightarrow>
      m \<lparr>rd_file = pre @ enc @ post, rd_at = length pre\<rparr> = Inr (v, \<lparr>rd_file = pre @ enc @ post, rd_at = length pre + length enc\<rparr>)"
  shows "parses m enc v"
  using assms by (simp add: parses_def)

lemma parsesD:
  assumes "parses m enc v" and "length pre mod 8 = 0" and "length (pre @ enc @ post) < 2 ^ 64"
  shows "m \<lparr>rd_file = pre @ enc @ post, rd_at = length pre\<rparr> = Inr (v, \<lparr>rd_file = pre @ enc @ post, rd_at = length pre + length enc\<rparr>)"
  using assms by (simp add: parses_def)

lemma parses_aligned: "parses m enc v \<Longrightarrow> length enc mod 8 = 0"
  by (simp add: parses_def)

lemma parses_bind:
  assumes m: "parses m e1 x" and f: "parses (f x) e2 y"
  shows "parses (bindS m f) (e1 @ e2) y"
proof (rule parsesI)
  show "length (e1 @ e2) mod 8 = 0" using parses_aligned [OF m] parses_aligned [OF f] by (simp add: mod_add_eq [symmetric] mod_eq_0_iff_dvd)
  fix pre post :: "byte list"
  assume h: "length pre mod 8 = 0" "length (pre @ (e1 @ e2) @ post) < 2 ^ 64"
  have "length (pre @ e1) mod 8 = 0" using h(1) parses_aligned [OF m] by (simp add: mod_eq_0_iff_dvd)
  then show "bindS m f \<lparr>rd_file = pre @ (e1 @ e2) @ post, rd_at = length pre\<rparr>
      = Inr (y, \<lparr>rd_file = pre @ (e1 @ e2) @ post, rd_at = length pre + length (e1 @ e2)\<rparr>)"
    using parsesD [OF m h(1), of "e2 @ post"] parsesD [OF f, of "pre @ e1" post] h(2)
    by (simp add: bindS_def add.assoc)
qed

lemma parses_return: "parses (returnS x) [] x"
  by (simp add: parses_def returnS_def)

lemma parses_guard: "\<not> c \<Longrightarrow> parses m enc v \<Longrightarrow> parses (guardS c e m) enc v"
  by (simp add: parses_def guardS_def)

lemma parses_lift: "parses (liftS (Inr x)) [] x"
  by (simp add: parses_def liftS_def)

lemma parses_pure: "parses m enc x \<Longrightarrow> parses (bindS m (\<lambda>x. returnS (f x))) enc (f x)"
  using parses_bind [of m enc x "\<lambda>x. returnS (f x)" "[]" "f x", OF _ parses_return] by simp

lemma parses_checked: "parses m enc x \<Longrightarrow> \<not> c x \<Longrightarrow> parses (bindS m (\<lambda>x. guardS (c x) e (returnS (f x)))) enc (f x)"
  using parses_bind [of m enc x "\<lambda>x. guardS (c x) e (returnS (f x))" "[]" "f x", OF _ parses_guard [OF _ parses_return]] by simp

lemma parses_take: "length enc = n \<Longrightarrow> n mod 8 = 0 \<Longrightarrow> parses (take_bytes n) enc enc"
  by (simp add: parses_def take_bytes_def)

lemma parses_word: "x < 2 ^ 64 \<Longrightarrow> parses read_word (to_le_bytes x) x"
  using parses_pure [OF parses_take [of "to_le_bytes x" 8], of from_le_bytes] by (simp add: read_word_def from_to_le_bytes)

lemma parses_repeat: "list_all2 (parses m) es vs \<Longrightarrow> parses (repeatS (length es) m) (concat es) vs"
proof (induction es vs rule: list_all2_induct)
  case Nil
  then show ?case by (simp add: parses_return)
next
  case (Cons e es v vs)
  then show ?case using parses_bind [OF Cons.hyps(1) parses_pure [OF Cons.IH]] by simp
qed

lemma parses_repeat_map: "(\<And>x. x \<in> set xs \<Longrightarrow> parses m (enc x) x) \<Longrightarrow> length xs = n \<Longrightarrow> parses (repeatS n m) (concat (map enc xs)) xs"
  using parses_repeat [of m "map enc xs" xs] by (auto simp: list_all2_map1 intro: list_all2_same [THEN iffD2])

lemma parses_row:
  assumes "length a = d" and "all_below q a" and "q \<le> 2 ^ 64"
  shows "parses (read_row d q) (concat (map to_le_bytes a)) a"
proof -
  have "parses (repeatS d read_word) (concat (map to_le_bytes a)) a"
    using assms by (intro parses_repeat_map parses_word) (auto simp: all_below_set)
  then show ?thesis
    unfolding read_row_def using assms(2) by (intro parses_checked) (auto simp: list_ex_iff all_below_set)
qed

lemma parses_limb:
  "list_all2 (\<lambda>row prime. length row = d \<and> all_below prime row \<and> prime \<le> 2 ^ 64) limb primes
    \<Longrightarrow> parses (read_limb d primes) (concat (map (\<lambda>prime. concat (map to_le_bytes prime)) limb)) limb"
proof (induction limb primes rule: list_all2_induct)
  case Nil
  then show ?case by (simp add: parses_return)
next
  case (Cons row limb prime primes)
  then have "parses (read_row d prime) (concat (map to_le_bytes row)) row" by (intro parses_row) simp_all
  then show ?case by (simp, elim parses_bind) (rule parses_pure [OF Cons.IH, of "\<lambda>limb. row # limb"])
qed

text \<open>Signed words.\<close>

lemma from_le_prefix: "from_le_bytes (take n (to_le_bytes x)) = x mod 2 ^ (min (8 * n) 64)"
proof (rule bit_eqI)
  fix k
  have "all_below 256 (take n (to_le_bytes x))" using to_le_bytes_bytes [of x] by (auto simp: all_below_set dest: in_set_takeD)
  then show "bit (from_le_bytes (take n (to_le_bytes x))) k \<longleftrightarrow> bit (x mod 2 ^ (min (8 * n) 64)) k"
    by (auto simp: bit_from_le_bytes getbit_take getbit_to_le_bytes take_bit_eq_mod [symmetric] bit_take_bit_iff)
qed

lemma signed_word:
  assumes width: "width = 4 \<or> width = 8" and "- (2 ^ (8 * width - 1)) \<le> v" and "v < 2 ^ (8 * width - 1)"
  shows "sext (8 * width) (from_le_bytes (take width (to_le_bytes (as_u64 v)))) = v"
proof -
  have "min (8 * width) 64 = 8 * width" using width by auto
  moreover have "as_u64 v mod 2 ^ (8 * width) = nat (v mod 2 ^ (8 * width))"
  proof -
    have dvd: "(2::int) ^ (8 * width) dvd 2 ^ 64" using width by (auto intro: le_imp_power_dvd)
    have "nat (v mod 2 ^ 64) mod nat (2 ^ (8 * width)) = nat (v mod 2 ^ 64 mod 2 ^ (8 * width))" by (rule nat_mod_distrib [symmetric]) simp_all
    then show ?thesis unfolding mod_mod_cancel [OF dvd] by (simp add: as_u64_def nat_power_eq)
  qed
  ultimately show ?thesis using sext_round [OF _ assms(2,3)] width unfolding from_le_prefix by auto
qed

lemma parses_storage:
  assumes width: "width = 4 \<or> width = 8" and "\<And>v. v \<in> set vs \<Longrightarrow> - (2 ^ (8 * width - 1)) \<le> v \<and> v < 2 ^ (8 * width - 1)"
    and "length vs = n" and "n * width mod 8 = 0" and "n * width < 2 ^ 64"
  shows "parses (read_storage width n) (concat (map (\<lambda>v. take width (to_le_bytes (as_u64 v))) vs)) vs"
proof (rule parsesI)
  let ?enc = "concat (map (\<lambda>v. take width (to_le_bytes (as_u64 v))) vs)"
  have each: "\<forall>c\<in>set (map (\<lambda>v. take width (to_le_bytes (as_u64 v))) vs). length c = width" using width by auto
  have len: "length ?enc = n * width" using length_concat_rows [OF each] assms(3) by simp
  then show "length ?enc mod 8 = 0" using assms(4) by simp
  have chunks: "chunks_exact width ?enc = map (\<lambda>v. take width (to_le_bytes (as_u64 v))) vs"
    using width each by (intro chunks_exact_concat) auto
  have vals: "map (\<lambda>c. sext (8 * width) (from_le_bytes c)) (chunks_exact width ?enc) = vs"
    unfolding chunks using assms(2) signed_word [OF width] by (simp add: comp_def map_idI)
  fix pre post :: "byte list"
  assume h: "length pre mod 8 = 0" "length (pre @ ?enc @ post) < 2 ^ 64"
  have "length pre mod width = 0" using h(1) width by (auto simp: mod_eq_0_iff_dvd intro: dvd_trans [of 4 8])
  then show "read_storage width n \<lparr>rd_file = pre @ ?enc @ post, rd_at = length pre\<rparr>
      = Inr (vs, \<lparr>rd_file = pre @ ?enc @ post, rd_at = length pre + length ?enc\<rparr>)"
    using assms(5) h(2) vals unfolding len
    by (simp add: read_storage_def checked_mul_def bindS_def take_bytes_def guardS_def returnS_def len [symmetric])
qed

section \<open>Blocks\<close>

text \<open>What the writer stores of a matrix, as the reader shows it: the centred entries, in 32-bit words when all
  of them fit.\<close>

definition mapped_matrix :: "native_matrix \<Rightarrow> native_matrix" where
  "mapped_matrix m =
     (let vs = map (\<lambda>v. centered (rem_euclid v (nm_q m)) (nm_q m)) (concat (native_rows m))
      in m\<lparr>nm_words := if list_all fits_i32 vs then Narrow vs else Wide vs\<rparr>)"

definition mapped :: "native_preprocessed \<Rightarrow> native_preprocessed" where
  "mapped pre = pre\<lparr>pre_h := mapped_matrix (pre_h pre)\<rparr>"

lemma concat_native_rows:
  assumes "wf_native m"
  shows "length (concat (native_rows m)) = nm_rows m * nm_cols m"
  using length_native_row [OF assms] length_native_rows [of m] by (subst length_concat_rows [of _ "nm_cols m"]) (auto simp: in_set_conv_nth)

lemma mapped_matrix:
  assumes wf: "wf_native m"
  shows "wf_native (mapped_matrix m)" and "multiply cpu (mapped_matrix m) = multiply cpu m"
proof -
  let ?vs = "map (\<lambda>v. centered (rem_euclid v (nm_q m)) (nm_q m)) (concat (native_rows m))"
  let ?m = "mapped_matrix m"
  have q: "2 \<le> nm_q m" "nm_q m \<le> 2 ^ 56" using wf by (simp_all add: wf_native_def)
  have dims: "nm_rows ?m = nm_rows m" "nm_cols ?m = nm_cols m" "nm_q ?m = nm_q m" by (simp_all add: mapped_matrix_def Let_def)
  have words: "nm_words ?m = (if list_all fits_i32 ?vs then Narrow ?vs else Wide ?vs)" by (simp add: mapped_matrix_def Let_def)
  have small: "\<bar>v\<bar> \<le> 2 ^ 55" if "v \<in> set ?vs" for v
  proof -
    obtain u where "v = centered (rem_euclid u (nm_q m)) (nm_q m)" using \<open>v \<in> set ?vs\<close> by auto
    moreover have "rem_euclid u (nm_q m) < nm_q m" using q(1) by (simp add: rem_euclid_def nat_less_iff)
    ultimately have "\<bar>v\<bar> \<le> int (nm_q m div 2)" using centered_bound by simp
    moreover have "int (nm_q m div 2) \<le> 2 ^ 55" using q(2) by simp
    ultimately show ?thesis by linarith
  qed
  have len: "length ?vs = nm_rows m * nm_cols m" using concat_native_rows [OF wf] by simp
  show wf': "wf_native ?m"
    using wf small len unfolding wf_native_def wf_words_def dims words by (auto simp: list_all_iff fits_i32_def)
  have slice: "native_rows ?m ! r = map (\<lambda>v. centered (rem_euclid v (nm_q m)) (nm_q m)) (native_rows m ! r)" if r: "r < nm_rows m" for r
  proof -
    have "native_rows ?m ! r = row_slice ?vs (nm_cols m) r" using r dims words by (simp add: native_rows_def)
    also have "\<dots> = map (\<lambda>v. centered (rem_euclid v (nm_q m)) (nm_q m)) (row_slice (concat (native_rows m)) (nm_cols m) r)"
      by (simp add: row_slice_def take_map drop_map)
    also have "row_slice (concat (native_rows m)) (nm_cols m) r = native_rows m ! r"
    proof -
      have "native_rows m = map ((!) (native_rows m)) [0..<nm_rows m]" using length_native_rows [of m] by (metis map_nth)
      then show ?thesis using row_slice_concat [of "nm_rows m" "(!) (native_rows m)" "nm_cols m" r] length_native_row [OF wf] r by simp
    qed
    finally show ?thesis .
  qed
  have cen: "eqm (nm_q m) (centered (rem_euclid v (nm_q m)) (nm_q m)) v" for v
  proof -
    have "eqm (nm_q m) (centered (rem_euclid v (nm_q m)) (nm_q m)) (int (rem_euclid v (nm_q m)))" by (rule eqm_sym [OF centered_eqm])
    also have "eqm (nm_q m) \<dots> v" using q(1) by (simp add: rem_euclid_def eqm_mod_iff)
    finally show ?thesis .
  qed
  have "int_dot_sum (native_rows ?m ! r) y mod int (nm_q m) = int_dot_sum (native_rows m ! r) y mod int (nm_q m)"
    if r: "r < nm_rows m" and y: "length y = nm_cols m" for r y
  proof -
    have "eqm (nm_q m) (int_dot_sum (native_rows ?m ! r) y) (int_dot_sum (native_rows m ! r) y)"
      unfolding slice [OF r] int_dot_sum_def
      by (rule eqm_sum) (use y length_native_row [OF wf r] cen in \<open>auto intro!: eqm_mult eqm_refl\<close>)
    then show ?thesis by (simp add: eqm_mod_iff)
  qed
  then have "native_product ?m y = native_product m y" if "length y = nm_cols m" for y
    using that by (auto simp: native_product_def dims rem_euclid_def)
  then show "multiply cpu ?m = multiply cpu m"
    unfolding multiply_ok [OF wf'] multiply_ok [OF wf] dims by (intro HOL.ext) simp
qed

lemma matrix_read:
  assumes wf: "wf_native m" and n: "n = nm_rows m * nm_cols m" "n mod 2 = 0" "n * 8 < 2 ^ 64" and compiled: "to_compiled m = Inr c"
  shows "parses (read_matrix n (nm_q m)) (matrix_bytes c) (nm_words (mapped_matrix m))"
proof -
  let ?q = "nm_q m"
  define vs where "vs = map (\<lambda>v. centered (rem_euclid v ?q) ?q) (concat (native_rows m))"
  have q: "2 \<le> ?q" "?q \<le> 2 ^ 56" using wf by (simp_all add: wf_native_def)
  have small: "\<bar>v\<bar> \<le> int (?q div 2)" if "v \<in> set vs" for v
  proof -
    obtain u where "v = centered (rem_euclid u ?q) ?q" using \<open>v \<in> set vs\<close> by (auto simp: vs_def)
    moreover have "rem_euclid u ?q < ?q" using q(1) by (simp add: rem_euclid_def nat_less_iff)
    ultimately show ?thesis using centered_bound by simp
  qed
  have "int (?q div 2) \<le> 2 ^ 55" using q(2) by simp
  then have wide: "- (2 ^ 63) \<le> v \<and> v < 2 ^ 63" if "v \<in> set vs" for v using small [OF that] by auto
  have c: "pm_q c = ?q" "map (\<lambda>x. centered x ?q) (pm_data c) = vs"
    using compiled unfolding to_compiled_ok [OF wf] by (auto simp: vs_def)
  have len: "length vs = n" using concat_native_rows [OF wf] n(1) by (simp add: vs_def)
  define narrow where "narrow = list_all fits_i32 vs"
  have narrow: "list_all (\<lambda>x. fits_i32 (centered x (pm_q c))) (pm_data c) = narrow"
    unfolding narrow_def c(2) [symmetric] c(1) by (simp add: list_all_iff)
  define width :: nat where "width = (if narrow then 4 else 8)"
  have body: "map (\<lambda>x. let x = i64 (centered x (pm_q c)) in if narrow then i32_bytes x else to_le_bytes (as_u64 x)) (pm_data c)
      = map (\<lambda>v. take width (to_le_bytes (as_u64 v))) vs"
  proof -
    have "i64 v = v" if "v \<in> set vs" for v using wide [OF that] by (simp add: i64_id)
    then have "map (\<lambda>v. let v = i64 v in if narrow then i32_bytes v else to_le_bytes (as_u64 v)) vs
        = map (\<lambda>v. take width (to_le_bytes (as_u64 v))) vs" by (simp add: width_def i32_bytes_def Let_def)
    then show ?thesis unfolding c(2) [symmetric] c(1) map_map comp_def .
  qed
  have "n * 4 mod 8 = 0" using n(2) by presburger
  then have store: "parses (read_storage width n) (concat (map (\<lambda>v. take width (to_le_bytes (as_u64 v))) vs)) vs"
    using len n(3) wide by (intro parses_storage) (auto simp: width_def narrow_def list_all_iff fits_i32_def)
  have words: "nm_words (mapped_matrix m) = (if narrow then Narrow vs else Wide vs)"
    by (simp add: mapped_matrix_def narrow_def vs_def)
  have bytes: "matrix_bytes c = to_le_bytes width @ concat (map (\<lambda>v. take width (to_le_bytes (as_u64 v))) vs)"
    unfolding matrix_bytes_def Let_def narrow body [unfolded Let_def] by (simp add: width_def)
  have "parses read_word (to_le_bytes width) width" by (rule parses_word) (simp add: width_def)
  then show ?thesis unfolding read_matrix_def bytes
  proof (rule parses_bind)
    show "parses (if width = 4 then bindS (read_storage 4 n) (\<lambda>x. returnS (Narrow x))
        else if width = 8 then bindS (read_storage 8 n) (\<lambda>x. guardS (list_ex (\<lambda>v. \<bar>v\<bar> > int (?q div 2)) x) bad (returnS (Wide x)))
        else liftS (Inl bad)) (concat (map (\<lambda>v. take width (to_le_bytes (as_u64 v))) vs)) (nm_words (mapped_matrix m))"
    proof (cases narrow)
      case True
      then show ?thesis using store parses_pure [of "read_storage 4 n" _ vs Narrow] words by (simp add: width_def)
    next
      case False
      then have "parses (bindS (read_storage 8 n) (\<lambda>x. guardS (list_ex (\<lambda>v. \<bar>v\<bar> > int (?q div 2)) x) bad (returnS (Wide x))))
          (concat (map (\<lambda>v. take width (to_le_bytes (as_u64 v))) vs)) (Wide vs)"
        using store small by (intro parses_checked) (auto simp: width_def list_ex_iff not_less)
      then show ?thesis using False words by (simp add: width_def)
    qed
  qed
qed

definition leftover_ok :: "nat \<Rightarrow> nat \<Rightarrow> nat \<Rightarrow> prepared_lift_operand \<Rightarrow> bool" where
  "leftover_ok d q ell op \<longleftrightarrow> plo_d op = d \<and> plo_q op = q \<and> length (plo_transforms op) = ell
     \<and> (\<forall>limb\<in>set (plo_transforms op). (length limb = 2 \<or> length limb = 3)
          \<and> list_all2 (\<lambda>row prime. length row = d \<and> all_below prime row) limb (take (length limb) PRIMES))"

lemma leftover_read:
  assumes op: "leftover_ok d q ell op" and ell: "ell < 2 ^ 64"
  shows "parses (read_leftover d q ell) (leftover_bytes op) op"
proof -
  let ?ps = "[4398046568449, 4398046666753, 4398046781441] :: nat list"
  let ?limb = "\<lambda>limb. to_le_bytes (length limb) @ concat (map (\<lambda>prime. concat (map to_le_bytes prime)) limb)"
  let ?read = "bindS read_word (\<lambda>n. guardS (\<not> (2 \<le> n \<and> n \<le> 3)) bad (read_limb d (take n ?ps)))"
  have limb: "parses ?read (?limb limb) limb" if limb: "limb \<in> set (plo_transforms op)" for limb
  proof (rule parses_bind)
    have n: "length limb = 2 \<or> length limb = 3"
      "list_all2 (\<lambda>row prime. length row = d \<and> all_below prime row) limb (take (length limb) PRIMES)"
      using op limb by (simp_all add: leftover_ok_def)
    show "parses read_word (to_le_bytes (length limb)) (length limb)" using n(1) by (intro parses_word) auto
    have "list_all2 (\<lambda>row prime. length row = d \<and> all_below prime row \<and> prime \<le> 2 ^ 64) limb (take (length limb) PRIMES)"
      using n by (auto simp: PRIMES_def list_all2_Cons2 numeral_3_eq_3)
    then have "parses (read_limb d (take (length limb) ?ps)) (concat (map (\<lambda>prime. concat (map to_le_bytes prime)) limb)) limb"
      unfolding PRIMES_def by (rule parses_limb)
    then show "parses (guardS (\<not> (2 \<le> length limb \<and> length limb \<le> 3)) bad (read_limb d (take (length limb) ?ps)))
        (concat (map (\<lambda>prime. concat (map to_le_bytes prime)) limb)) limb"
      using n(1) by (intro parses_guard) auto
  qed
  have shape: "plo_d op = d" "plo_q op = q" "length (plo_transforms op) = ell" using op by (simp_all add: leftover_ok_def)
  have bits: "(if plo_sum_fits_two op then 1 else 0 :: nat) < 2 ^ 64" by simp
  have repeated: "parses (repeatS ell ?read) (concat (map ?limb (plo_transforms op))) (plo_transforms op)"
    using limb shape(3) by (intro parses_repeat_map)
  let ?mk = "\<lambda>ts. \<lparr>plo_d = d, plo_q = q, plo_transforms = ts, plo_sum_fits_two = ((if plo_sum_fits_two op then 1 else 0 :: nat) = 1)\<rparr>"
  have "?mk (plo_transforms op) = op" using shape by (cases op) simp
  then have rest: "parses (bindS (repeatS ell ?read) (\<lambda>ts. returnS (?mk ts))) (concat (map ?limb (plo_transforms op))) op"
    using parses_pure [OF repeated, of ?mk] by argo
  show ?thesis
    unfolding read_leftover_def Let_def leftover_bytes_def shape(3)
    by (rule parses_bind [OF parses_word [OF ell]], rule parses_guard, simp, rule parses_bind [OF parses_word [OF bits]], rule parses_guard, simp, rule rest)
qed

text \<open>A block that the writer and the reader agree on.\<close>

definition block_shape :: "native_setup \<Rightarrow> bool \<Rightarrow> native_preprocessed \<Rightarrow> bool" where
  "block_shape setup two_mask pre \<longleftrightarrow>
     (let p = ns_params setup; d = np_d p; q = np_q p; ell = np_ell p
      in pre_params pre = p \<and> pre_id pre = ns_id setup \<and> length (pre_a pre) = d \<and> all_below q (pre_a pre)
        \<and> nm_rows (pre_h pre) = d \<and> nm_cols (pre_h pre) = d * ell \<and> nm_q (pre_h pre) = q \<and> wf_native (pre_h pre)
        \<and> (if two_mask then pre_leftover pre = None \<and> (\<exists>other. pre_a_other pre = Some other \<and> length other = d \<and> all_below q other)
           else pre_a_other pre = None \<and> (\<exists>op. pre_leftover pre = Some op \<and> leftover_ok d q ell op)))"

lemma block_read:
  assumes good: "good_native (ns_params setup)" and ident: "length (ns_id setup) = 32" and pre: "block_shape setup two_mask pre"
    and ctx: "new_lift_context eng (np_d (ns_params setup)) (np_q (ns_params setup)) = Inr (pre_lift pre)"
  shows "\<exists>bs. block_bytes pre = Inr bs \<and> parses (read_block eng setup two_mask) bs (mapped pre)"
proof -
  let ?p = "ns_params setup"
  let ?d = "np_d ?p" and ?q = "np_q ?p" and ?ell = "np_ell ?p" and ?h = "pre_h pre"
  note N = good_nativeD [OF good]
  have B: "pre_params pre = ?p" "pre_id pre = ns_id setup" "length (pre_a pre) = ?d" "all_below ?q (pre_a pre)"
    "nm_rows ?h = ?d" "nm_cols ?h = ?d * ?ell" "nm_q ?h = ?q" "wf_native ?h"
    using pre by (simp_all add: block_shape_def Let_def)
  obtain c where c: "to_compiled ?h = Inr c" using to_compiled_ok [OF B(8)] by blast
  obtain k where "?d = 2 ^ k" using N(3) by (auto simp: is_power_of_two_iff)
  then have "even ?d" using N(12) by (cases k) auto
  then have n2: "?d * ?d * ?ell mod 2 = 0" by (simp add: mod_eq_0_iff_dvd)
  have "?d * ?d * ?ell \<le> 2048 * 2048 * 8" using N(2,8) by (intro mult_le_mono)
  then have n64: "?d * ?d * ?ell * 8 < 2 ^ 64" by simp
  have words: "parses (read_matrix (?d * ?d * ?ell) ?q) (matrix_bytes c) (nm_words (mapped_matrix ?h))"
    using matrix_read [OF B(8) _ n2 n64 c] B(5-7) by (simp add: mult.assoc)
  let ?other = "case pre_a_other pre of None \<Rightarrow> [] | Some other \<Rightarrow> concat (map to_le_bytes other)"
  let ?left = "case pre_leftover pre of None \<Rightarrow> [] | Some op \<Rightarrow> leftover_bytes op"
  have q64: "?q \<le> 2 ^ 64" using N(6) by simp
  have other: "parses (if two_mask then bindS (read_row ?d ?q) (\<lambda>other. returnS (Some other)) else returnS None) ?other (pre_a_other pre)"
    using pre parses_return [of None] parses_pure [OF parses_row [OF _ _ q64], of _ ?d Some] by (auto simp: block_shape_def Let_def)
  have left: "parses (if two_mask then returnS None else bindS (read_leftover ?d ?q ?ell) (\<lambda>op. returnS (Some op))) ?left (pre_leftover pre)"
  proof (cases two_mask)
    case True
    then show ?thesis using pre parses_return [of None] by (auto simp: block_shape_def Let_def)
  next
    case False
    then obtain op where op: "pre_leftover pre = Some op" "leftover_ok ?d ?q ?ell op" using pre by (auto simp: block_shape_def Let_def)
    have "?ell < 2 ^ 64" using N(8) by simp
    then show ?thesis using False op(1) parses_pure [OF leftover_read [OF op(2)], of Some] by simp
  qed
  have fin: "parses (returnS \<lparr>pre_params = ?p, pre_id = ns_id setup, pre_a = pre_a pre, pre_a_other = pre_a_other pre,
       pre_h = \<lparr>nm_rows = ?d, nm_cols = ?d * ?ell, nm_q = ?q, nm_words = nm_words (mapped_matrix ?h)\<rparr>,
       pre_leftover = pre_leftover pre, pre_lift = pre_lift pre\<rparr>) [] (mapped pre)"
  proof -
    have "\<lparr>nm_rows = ?d, nm_cols = ?d * ?ell, nm_q = ?q, nm_words = nm_words (mapped_matrix ?h)\<rparr> = mapped_matrix ?h"
      using B(5-7) by (simp add: mapped_matrix_def Let_def)
    then have "\<lparr>pre_params = ?p, pre_id = ns_id setup, pre_a = pre_a pre, pre_a_other = pre_a_other pre,
       pre_h = \<lparr>nm_rows = ?d, nm_cols = ?d * ?ell, nm_q = ?q, nm_words = nm_words (mapped_matrix ?h)\<rparr>,
       pre_leftover = pre_leftover pre, pre_lift = pre_lift pre\<rparr> = mapped pre"
      using B(1,2) by (cases pre) (simp add: mapped_def)
    then show ?thesis using parses_return by metis
  qed
  have "parses (read_block eng setup two_mask)
      (ns_id setup @ concat (map to_le_bytes (pre_a pre)) @ ?other @ matrix_bytes c @ ?left @ [] @ []) (mapped pre)"
    unfolding read_block_def Let_def ctx
    by (rule parses_bind [OF parses_take [OF ident]], simp, rule parses_guard, simp, rule parses_bind [OF parses_row [OF B(3,4) q64]],
      rule parses_bind [OF other], rule parses_bind [OF words], rule parses_bind [OF left], rule parses_bind [OF parses_lift], rule fin)
  moreover have "block_bytes pre = Inr (ns_id setup @ concat (map to_le_bytes (pre_a pre)) @ ?other @ matrix_bytes c @ ?left @ [] @ [])"
    using c B(2) by (simp add: block_bytes_def mapR_def)
  ultimately show ?thesis by blast
qed

text \<open>A written block is small.\<close>

lemma length_concat_le: "\<forall>x\<in>set xs. length x \<le> n \<Longrightarrow> length (concat xs) \<le> length xs * n"
proof (induction xs)
  case (Cons x xs)
  then have "length x \<le> n" "length (concat xs) \<le> length xs * n" by simp_all
  then show ?case by simp
qed simp

lemma leftover_length:
  assumes "leftover_ok d q ell op"
  shows "length (leftover_bytes op) \<le> 16 + ell * (8 + 3 * (d * 8))"
proof -
  have limb: "length (to_le_bytes (length limb) @ concat (map (\<lambda>prime. concat (map to_le_bytes prime)) limb)) \<le> 8 + 3 * (d * 8)"
    if "limb \<in> set (plo_transforms op)" for limb
  proof -
    have L: "length limb = 2 \<or> length limb = 3" "list_all2 (\<lambda>row prime. length row = d \<and> all_below prime row) limb (take (length limb) PRIMES)"
      using assms that by (simp_all add: leftover_ok_def)
    have l: "length limb \<le> 3" "\<And>row. row \<in> set limb \<Longrightarrow> length row = d"
    proof -
      show "length limb \<le> 3" using L(1) by auto
      fix row assume "row \<in> set limb"
      then obtain i where i: "i < length limb" "row = limb ! i" by (auto simp: in_set_conv_nth)
      then show "length row = d" using list_all2_nthD [OF L(2) i(1)] by simp
    qed
    have "length (concat (map (\<lambda>prime. concat (map to_le_bytes prime)) limb)) \<le> length limb * (d * 8)"
      using length_concat_le [of "map (\<lambda>prime. concat (map to_le_bytes prime)) limb" "d * 8"] l(2) by auto
    also have "\<dots> \<le> 3 * (d * 8)" using l(1) by (rule mult_le_mono1)
    finally show ?thesis by simp
  qed
  have "length (plo_transforms op) = ell" using assms by (simp add: leftover_ok_def)
  then show ?thesis
    using length_concat_le [of "map (\<lambda>limb. to_le_bytes (length limb) @ concat (map (\<lambda>prime. concat (map to_le_bytes prime)) limb)) (plo_transforms op)"
        "8 + 3 * (d * 8)"] limb by (auto simp: leftover_bytes_def)
qed

lemma block_length:
  assumes good: "good_native (ns_params setup)" and ident: "length (ns_id setup) = 32" and pre: "block_shape setup two_mask pre"
    and bs: "block_bytes pre = Inr bs"
  shows "length bs \<le> 2 ^ 29"
proof -
  let ?d = "np_d (ns_params setup)" and ?ell = "np_ell (ns_params setup)" and ?h = "pre_h pre"
  have small: "?d \<le> 2048" "?ell \<le> 8" using good_nativeD(2,8) [OF good] by blast+
  have B: "pre_id pre = ns_id setup" "length (pre_a pre) = ?d" "nm_rows ?h = ?d" "nm_cols ?h = ?d * ?ell" "wf_native ?h"
    using pre by (simp_all add: block_shape_def Let_def)
  obtain c where c: "to_compiled ?h = Inr c" "length (pm_data c) = ?d * (?d * ?ell)"
    using to_compiled_ok [OF B(5)] concat_native_rows [OF B(5)] B(3,4) by simp
  have word: "length (if narrow then i32_bytes v else to_le_bytes w) \<le> 8" for narrow v w by (simp add: i32_bytes_def)
  have "length (matrix_bytes c) \<le> 8 + ?d * (?d * ?ell) * 8"
    unfolding matrix_bytes_def Let_def length_append length_to_le_bytes c(2) [symmetric]
    by (intro add_left_mono order_trans [OF length_concat_le [of _ 8]]) (auto simp: i32_bytes_def)
  moreover have "length (case pre_a_other pre of None \<Rightarrow> [] | Some other \<Rightarrow> concat (map to_le_bytes other)) \<le> ?d * 8"
    using pre by (auto simp: block_shape_def Let_def split: if_splits)
  moreover have "length (case pre_leftover pre of None \<Rightarrow> [] | Some op \<Rightarrow> leftover_bytes op) \<le> 16 + ?ell * (8 + 3 * (?d * 8))"
    using pre leftover_length by (auto simp: block_shape_def Let_def split: if_splits)
  moreover have "bs = ns_id setup @ concat (map to_le_bytes (pre_a pre))
      @ (case pre_a_other pre of None \<Rightarrow> [] | Some other \<Rightarrow> concat (map to_le_bytes other))
      @ matrix_bytes c @ (case pre_leftover pre of None \<Rightarrow> [] | Some op \<Rightarrow> leftover_bytes op)"
    using bs c(1) B(1) by (simp add: block_bytes_def mapR_def)
  ultimately have "length bs \<le> 32 + ?d * 8 + ?d * 8 + (8 + ?d * (?d * ?ell) * 8) + (16 + ?ell * (8 + 3 * (?d * 8)))"
    using ident B(2) by simp
  also have "\<dots> \<le> 32 + 2048 * 8 + 2048 * 8 + (8 + 2048 * (2048 * 8) * 8) + (16 + 8 * (8 + 3 * (2048 * 8)))"
    using small by (intro add_mono mult_le_mono order_refl)
  finally show ?thesis by simp
qed

lemma ascii_modes: "length (ascii ''RNMAP001'') = 8" "length (ascii ''RNMAP002'') = 8" "ascii ''RNMAP001'' \<noteq> ascii ''RNMAP002''"
  by (simp_all add: ascii_def)

lemma mode_read: "parses read_mode (ascii (if two_mask then ''RNMAP002'' else ''RNMAP001'')) two_mask"
proof -
  let ?magic = "ascii (if two_mask then ''RNMAP002'' else ''RNMAP001'')"
  have take: "parses (take_bytes 8) ?magic ?magic" using ascii_modes by (intro parses_take) simp_all
  have "parses read_mode (?magic @ []) two_mask"
    unfolding read_mode_def by (rule parses_bind [OF take]) (use ascii_modes parses_return in auto)
  then show ?thesis by simp
qed

text \<open>The written file, read at an aligned offset behind any prefix; anything behind it is refused.\<close>

lemma artifact_read:
  assumes good: "good_native (ns_params setup)" and ident: "length (ns_id setup) = 32"
    and pres: "\<And>pre. pre \<in> set pres \<Longrightarrow> block_shape setup two_mask pre
      \<and> new_lift_context eng (np_d (ns_params setup)) (np_q (ns_params setup)) = Inr (pre_lift pre)"
    and count: "length pres = count" "1 \<le> count" "count \<le> 16" and offset: "length prefix mod 8 = 0"
  shows "\<exists>bytes. write_artifact pres = Inr (Inr bytes) \<and> length bytes \<le> 2 ^ 34
    \<and> (\<forall>rest. length (prefix @ bytes @ rest) < 2 ^ 64 \<longrightarrow> read_artifact eng (prefix @ bytes @ rest) (length prefix) setup count =
         (if rest = [] then Inr (map mapped pres) else Inl bad))"
proof -
  let ?read = "read_block eng setup two_mask"
  have "\<forall>pre\<in>set pres. \<exists>bs. block_bytes pre = Inr bs \<and> parses ?read bs (mapped pre)"
    using block_read [OF good ident] pres by blast
  then obtain enc where enc: "\<And>pre. pre \<in> set pres \<Longrightarrow> block_bytes pre = Inr (enc pre) \<and> parses ?read (enc pre) (mapped pre)" by metis
  have bodies: "collectR block_bytes pres = Inr (map enc pres)" using enc by (intro collectR_all_Inr) blast
  have modes: "(pre_a_other pre \<noteq> None) = two_mask" if "pre \<in> set pres" for pre
    using pres [OF that] by (auto simp: block_shape_def Let_def split: if_splits)
  then have first: "(case pres of [] \<Rightarrow> False | b # _ \<Rightarrow> pre_a_other b \<noteq> None) = two_mask" using count(1,2) by (cases pres) auto
  define bytes where "bytes = ascii (if two_mask then ''RNMAP002'' else ''RNMAP001'') @ to_le_bytes count @ concat (map enc pres)"
  have wrote: "write_artifact pres = Inr (Inr bytes)"
    using modes bodies count(1) unfolding write_artifact_def Let_def first bytes_def by (auto simp: list_ex_iff mapR_def)
  have "list_all2 (parses ?read) (map enc pres) (map mapped pres)" using enc by (simp add: list_all2_map1 list_all2_map2 list_all2_same)
  from parses_repeat [OF this] count(1)
  have blocks: "parses (repeatS count ?read) (concat (map enc pres)) (map mapped pres)" by simp
  have word: "count < 2 ^ 64" using count(3) by simp
  have all: "parses (bindS read_mode (\<lambda>two_mask. bindS read_word (\<lambda>n. guardS (n \<noteq> count) bad (repeatS count (read_block eng setup two_mask)))))
      bytes (map mapped pres)"
    unfolding bytes_def by (rule parses_bind [OF mode_read], rule parses_bind [OF parses_word [OF word]], rule parses_guard, simp, rule blocks)
  have "read_artifact eng (prefix @ bytes @ rest) (length prefix) setup count = (if rest = [] then Inr (map mapped pres) else Inl bad)"
    if "length (prefix @ bytes @ rest) < 2 ^ 64" for rest
    using parsesD [OF all offset that] count(2,3) offset by (simp add: read_artifact_def guardR_def bindR_def)
  moreover have "length bytes \<le> 2 ^ 34"
  proof -
    have "length (enc pre) \<le> 2 ^ 29" if "pre \<in> set pres" for pre using block_length [OF good ident] pres enc that by blast
    then have "length (concat (map enc pres)) \<le> length pres * 2 ^ 29" using length_concat_le [of "map enc pres" "2 ^ 29"] by auto
    also have "\<dots> \<le> 16 * 2 ^ 29" using count(1,3) by (intro mult_le_mono1) simp
    finally have "length (concat (map enc pres)) \<le> 16 * 2 ^ 29" .
    then show ?thesis using ascii_modes by (simp add: bytes_def)
  qed
  ultimately show ?thesis using wrote by blast
qed

section \<open>Built blocks\<close>

text \<open>The transforms that a build prepares are residues; the reader relies on it, and the transform of the
  spiral package reduces its output.\<close>

definition ntt_canonical :: "ntt_engine \<Rightarrow> nat \<Rightarrow> bool" where
  "ntt_canonical eng d \<longleftrightarrow> (\<forall>m\<in>set PRIMES. \<forall>a. canon m d a \<longrightarrow> canon m d (to_ntt eng m a))"

lemma prepared_leftover_ok:
  assumes laws: "ntt_laws eng d" "ntt_canonical eng d" and ctx: "new_lift_context eng d q = Inr ctx"
    and op: "prepare_public eng ctx ds = Inr op" and len: "length ds = ell"
  shows "leftover_ok d q ell op"
proof -
  note G = new_lift_context_good [OF laws(1) ctx]
  note O = prepare_public_for [OF G(1) op]
  have all: "list_all2 (limb_for eng ctx) ds (plo_transforms op)" using O by (simp add: operand_for_def)
  have each: "(length limb = 2 \<or> length limb = 3) \<and> list_all2 (\<lambda>row prime. length row = d \<and> all_below prime row) limb (take (length limb) PRIMES)"
    if "limb_for eng ctx a limb" for a limb
  proof -
    have l: "length limb = 2 \<or> length limb = 3" "limb = map (\<lambda>m. lift_transform eng ctx m a) (take (length limb) PRIMES)"
      using \<open>limb_for eng ctx a limb\<close> by (simp_all add: limb_for_def)
    have row: "length (lift_transform eng ctx m a) = d \<and> all_below m (lift_transform eng ctx m a)" if "m \<in> set PRIMES" for m
    proof -
      have "lift_valid ctx a" using \<open>limb_for eng ctx a limb\<close> by (simp add: limb_for_def)
      then have "canon m d (lift_raw ctx m a)" using lift_raw_ok(1) [OF G(1) _ that] G(2) by simp
      then have "canon m d (lift_transform eng ctx m a)" using laws(2) that by (simp add: ntt_canonical_def lift_transform_def)
      then show ?thesis by (simp add: canon_def)
    qed
    have "list_all2 (\<lambda>row prime. length row = d \<and> all_below prime row)
        (map (\<lambda>m. lift_transform eng ctx m a) (take (length limb) PRIMES)) (take (length limb) PRIMES)"
      unfolding list_all2_map1 list_all2_same using row in_set_takeD by fast
    then show ?thesis using l(1) unfolding l(2) [symmetric] by blast
  qed
  have "\<exists>a. limb_for eng ctx a limb" if "limb \<in> set (plo_transforms op)" for limb
    using all that by (metis in_set_conv_nth list_all2_conv_all_nth)
  then have "\<forall>limb\<in>set (plo_transforms op). (length limb = 2 \<or> length limb = 3)
      \<and> list_all2 (\<lambda>row prime. length row = d \<and> all_below prime row) limb (take (length limb) PRIMES)"
    using each by blast
  moreover have "length (plo_transforms op) = ell" using len list_all2_lengthD [OF all] by simp
  ultimately show ?thesis using O G(2,3) by (simp add: leftover_ok_def operand_for_def)
qed

lemma built_shape:
  assumes laws: "ntt_laws eng (np_d p)" "ntt_canonical eng (np_d p)" and ctx: "new_lift_context eng (np_d p) (np_q p) = Inr ctx"
    and st: "setup_ok setup" "ns_params setup = p" and pre: "built eng cpu setup ctx masks two_mask pre"
  shows "block_shape setup two_mask pre" and "pre_lift pre = ctx"
proof -
  let ?d = "np_d p" and ?q = "np_q p" and ?ell = "np_ell p"
  have good: "good_native p" using st by (simp add: setup_ok_def)
  obtain left right digits where B: "chained p (ns_w setup) (reorder_slots ?d (aggregate_masks masks ?q)) left right digits"
    "from_blocks cpu (map (\<lambda>j. compile_spec ?d ?q (limb_steps digits (collapse_kg_exponents ?d) j)) [0..<?ell]) = Inr (pre_h pre)"
    "if two_mask then pre_a_other pre = Some right \<and> pre_leftover pre = None
     else pre_a_other pre = None \<and> (\<exists>ds op. digits_ok p ds \<and> pre_leftover pre = Some op \<and> prepare_public eng ctx ds = Inr op)"
    and P: "pre_params pre = p" "pre_id pre = ns_id setup" "pre_lift pre = ctx" "canon ?q ?d (pre_a pre)"
    using pre st(2) unfolding built_def Let_def by (fastforce split: if_splits)
  let ?blocks = "map (\<lambda>j. compile_spec ?d ?q (limb_steps digits (collapse_kg_exponents ?d) j)) [0..<?ell]"
  note F = from_blocks_ok [OF B(2)]
  have dims: "pm_rows b = ?d \<and> pm_q b = ?q \<and> pm_cols b = ?d" if "b \<in> set ?blocks" for b
    using that by (auto simp: compile_spec_def)
  have "(\<Sum>b\<leftarrow>?blocks. pm_cols b) = (\<Sum>b\<leftarrow>?blocks. ?d)" using dims by (intro arg_cong [of _ _ sum_list] map_cong refl) blast
  also have "\<dots> = ?d * ?ell" unfolding sum_list_triv by simp
  finally have cols: "nm_cols (pre_h pre) = ?d * ?ell" unfolding F(4) .
  have rest: "nm_rows (pre_h pre) = ?d" "nm_q (pre_h pre) = ?q" using dims [OF hd_in_set [OF F(1)]] F(2,3) by simp_all
  have right: "canon ?q ?d right" using B(1) by (simp add: chained_def)
  have "if two_mask then pre_leftover pre = None \<and> (\<exists>other. pre_a_other pre = Some other \<and> length other = ?d \<and> all_below ?q other)
      else pre_a_other pre = None \<and> (\<exists>op. pre_leftover pre = Some op \<and> leftover_ok ?d ?q ?ell op)"
  proof (cases two_mask)
    case True
    then show ?thesis using B(3) right by (simp add: canon_def)
  next
    case False
    then obtain ds op where "digits_ok p ds" "pre_leftover pre = Some op" "prepare_public eng ctx ds = Inr op" "pre_a_other pre = None" using B(3) by auto
    then show ?thesis using False prepared_leftover_ok [OF laws ctx] by (auto simp: digits_ok_def)
  qed
  then show "block_shape setup two_mask pre"
    using P cols rest F(6) by (simp add: block_shape_def Let_def st(2) canon_def)
  show "pre_lift pre = ctx" by (rule P(3))
qed

text \<open>A mapped block packs like the block it was written from.\<close>

lemma mapped_fields:
  "pre_params (mapped pre) = pre_params pre" "pre_id (mapped pre) = pre_id pre" "pre_a (mapped pre) = pre_a pre"
  "pre_a_other (mapped pre) = pre_a_other pre" "pre_leftover (mapped pre) = pre_leftover pre" "pre_lift (mapped pre) = pre_lift pre"
  by (simp_all add: mapped_def)

lemma mapped_packs:
  assumes "wf_native (pre_h pre)"
  shows "pack eng cpu (mapped pre) = pack eng cpu pre" and "pack_two_mask cpu (mapped pre) = pack_two_mask cpu pre"
    and "prepare_keys eng (mapped pre) = prepare_keys eng pre"
    and "bindR (prepare_pack eng cpu (mapped pre) keys) (\<lambda>pd. finish pd b) = bindR (prepare_pack eng cpu pre keys) (\<lambda>pd. finish pd b)"
    and "bindR (prepare_pack eng cpu (mapped pre) keys) (\<lambda>pd. finish_two_mask pd b)
      = bindR (prepare_pack eng cpu pre keys) (\<lambda>pd. finish_two_mask pd b)"
proof -
  have eq: "multiply cpu (pre_h (mapped pre)) = multiply cpu (pre_h pre)" for cpu
    using mapped_matrix(2) [OF assms] by (simp add: mapped_def)
  show "pack eng cpu (mapped pre) = pack eng cpu pre" by (intro HOL.ext, unfold pack_def mapped_fields eq) (rule refl)
  show "pack_two_mask cpu (mapped pre) = pack_two_mask cpu pre" by (intro HOL.ext, unfold pack_two_mask_def mapped_fields eq) (rule refl)
  show "prepare_keys eng (mapped pre) = prepare_keys eng pre" by (intro HOL.ext, unfold prepare_keys_def mapped_fields eq) (rule refl)
  show "bindR (prepare_pack eng cpu (mapped pre) keys) (\<lambda>pd. finish pd b) = bindR (prepare_pack eng cpu pre keys) (\<lambda>pd. finish pd b)"
    by (auto simp: prepare_pack_def finish_def Let_def eq mapped_fields mapR_def bindR_def guardR_def split: sum.splits option.splits)
  show "bindR (prepare_pack eng cpu (mapped pre) keys) (\<lambda>pd. finish_two_mask pd b)
      = bindR (prepare_pack eng cpu pre keys) (\<lambda>pd. finish_two_mask pd b)"
    by (auto simp: prepare_pack_def finish_two_mask_def Let_def eq mapped_fields mapR_def bindR_def guardR_def split: sum.splits option.splits)
qed

section \<open>What the reader accepts\<close>

text \<open>Every value that \<open>m\<close> returns on a file of bytes satisfies \<open>P\<close>.\<close>

definition yields :: "'a reading \<Rightarrow> ('a \<Rightarrow> bool) \<Rightarrow> bool" where
  "yields m P \<longleftrightarrow> (\<forall>r x r'. all_below 256 (rd_file r) \<longrightarrow> m r = Inr (x, r') \<longrightarrow> rd_file r' = rd_file r \<and> P x)"

lemma yieldsD: "yields m P \<Longrightarrow> m r = Inr (x, r') \<Longrightarrow> all_below 256 (rd_file r) \<Longrightarrow> P x"
  unfolding yields_def by blast

lemma yields_bind: "yields m P \<Longrightarrow> (\<And>x. P x \<Longrightarrow> yields (f x) Q) \<Longrightarrow> yields (bindS m f) Q"
  unfolding yields_def
proof (intro allI impI)
  fix r y r'
  assume m: "\<forall>r x r'. all_below 256 (rd_file r) \<longrightarrow> m r = Inr (x, r') \<longrightarrow> rd_file r' = rd_file r \<and> P x"
    and f: "\<And>x. P x \<Longrightarrow> \<forall>r y r'. all_below 256 (rd_file r) \<longrightarrow> f x r = Inr (y, r') \<longrightarrow> rd_file r' = rd_file r \<and> Q y"
    and bytes: "all_below 256 (rd_file r)" and run: "bindS m f r = Inr (y, r')"
  obtain x r1 where x: "m r = Inr (x, r1)" "f x r1 = Inr (y, r')" using run by (cases "m r") (auto simp: bindS_def bindR_def)
  then have "rd_file r1 = rd_file r" "P x" using m bytes by blast+
  then show "rd_file r' = rd_file r \<and> Q y" using f [of x] x(2) bytes by metis
qed

lemma yields_return: "Q x \<Longrightarrow> yields (returnS x) Q"
  by (simp add: yields_def returnS_def)

lemma yields_guard:
  assumes "\<not> c \<Longrightarrow> yields m Q"
  shows "yields (guardS c e m) Q"
proof (cases c)
  case True
  then show ?thesis by (simp add: yields_def guardS_def guardR_def)
next
  case False
  then have "guardS c e m = m" by (simp add: guardS_def guardR_def)
  then show ?thesis using assms False by simp
qed

lemma yields_lift: "(\<And>x. m = Inr x \<Longrightarrow> Q x) \<Longrightarrow> yields (liftS m) Q"
  unfolding liftS_def yields_def by (cases m) (auto simp: mapR_def)

lemma yields_mono: "yields m P \<Longrightarrow> (\<And>x. P x \<Longrightarrow> Q x) \<Longrightarrow> yields m Q"
  unfolding yields_def by blast

lemma yields_repeat: "yields m P \<Longrightarrow> yields (repeatS n m) (\<lambda>xs. length xs = n \<and> list_all P xs)"
proof (induction n)
  case 0
  then show ?case by (simp add: yields_return)
next
  case (Suc n)
  then show ?case by (auto intro!: yields_bind [OF Suc.prems] yields_bind [OF Suc.IH] yields_return)
qed

lemma yields_take: "yields (take_bytes n) (\<lambda>bs. length bs = n \<and> all_below 256 bs)"
  by (auto simp: yields_def take_bytes_def guardR_def all_below_set dest!: in_set_takeD in_set_dropD split: if_splits)

lemma yields_word: "yields read_word (\<lambda>x. True)"
  unfolding read_word_def by (intro yields_bind [OF yields_take] yields_return TrueI)

lemma yields_row: "yields (read_row d q) (\<lambda>a. length a = d \<and> all_below q a)"
  unfolding read_row_def
  by (intro yields_bind [OF yields_repeat [OF yields_word]] yields_guard yields_return) (auto simp: list_ex_iff all_below_set not_le)

lemma sext_range: "0 < bits \<Longrightarrow> v < 2 ^ bits \<Longrightarrow> - (2 ^ (bits - 1)) \<le> sext bits v \<and> sext bits v < 2 ^ (bits - 1)"
proof -
  assume "0 < bits" and v: "v < 2 ^ bits"
  then obtain b where b: "bits = Suc b" by (cases bits) auto
  have "int v < 2 ^ bits" using v by (metis of_nat_less_iff of_nat_numeral of_nat_power)
  then show ?thesis by (auto simp: sext_def b)
qed

lemma yields_storage:
  assumes size: "width = 4 \<or> width = 8"
  shows "yields (read_storage width n) (\<lambda>x. length x = n \<and> list_all (\<lambda>v. - (2 ^ (8 * width - 1)) \<le> v \<and> v < 2 ^ (8 * width - 1)) x)"
  unfolding yields_def
proof (intro allI impI)
  fix r x r'
  assume bytes: "all_below 256 (rd_file r)" and run: "read_storage width n r = Inr (x, r')"
  then obtain bs where bs: "take_bytes (n * width) r = Inr (bs, r')" and x: "x = map (\<lambda>c. sext (8 * width) (from_le_bytes c)) (chunks_exact width bs)"
    by (auto simp: read_storage_def checked_mul_def bindS_def bindR_def guardS_def guardR_def returnS_def split: if_splits sum.splits)
  have B: "rd_file r' = rd_file r" "length bs = n * width" "all_below 256 bs"
    using yields_take [of "n * width"] bytes bs unfolding yields_def by blast+
  have pos: "0 < width" using size by auto
  note C = chunks_exact_props [OF pos B(2)]
  have "- (2 ^ (8 * width - 1)) \<le> sext (8 * width) (from_le_bytes c) \<and> sext (8 * width) (from_le_bytes c) < 2 ^ (8 * width - 1)"
    if c: "c \<in> set (chunks_exact width bs)" for c
  proof (rule sext_range)
    have "set c \<subseteq> set (concat (chunks_exact width bs))" using c by auto
    then have cb: "all_below 256 c" using B(3) C(3) by (auto simp: all_below_set)
    have "length c = width" using C(2) c by blast
    then have "\<not> bit (from_le_bytes c) k" if "8 * width \<le> k" for k
      using that by (simp add: bit_from_le_bytes [OF cb] getbit_def)
    then have "take_bit (8 * width) (from_le_bytes c) = from_le_bytes c"
      by (intro bit_eqI) (metis bit_take_bit_iff not_less)
    then show "from_le_bytes c < 2 ^ (8 * width)" by (simp add: take_bit_nat_eq_self_iff)
  qed (use pos in simp)
  then show "rd_file r' = rd_file r \<and> length x = n \<and> list_all (\<lambda>v. - (2 ^ (8 * width - 1)) \<le> v \<and> v < 2 ^ (8 * width - 1)) x"
    using B(1) C(1) by (simp add: x list_all_iff)
qed

lemma yields_matrix:
  assumes "q \<le> 2 ^ 56"
  shows "yields (read_matrix n q) (\<lambda>ws. (\<exists>x. ws = Narrow x \<and> length x = n \<and> list_all (\<lambda>v. - (2 ^ 31) \<le> v \<and> v < 2 ^ 31) x)
    \<or> (\<exists>x. ws = Wide x \<and> length x = n \<and> list_all (\<lambda>v. \<bar>v\<bar> \<le> 2 ^ 55) x))"
proof -
  have q: "int (q div 2) \<le> 2 ^ 55" using assms by simp
  have wide: "list_all (\<lambda>v. \<bar>v\<bar> \<le> 2 ^ 55) x" if "\<not> list_ex (\<lambda>v. \<bar>v\<bar> > int (q div 2)) x" for x
    using that q unfolding list_all_iff list_ex_iff by (meson not_less order_trans)
  show ?thesis
    unfolding read_matrix_def
    using yields_storage [of 4 n] yields_storage [of 8 n] wide
    by (intro yields_bind [OF yields_word])
      (auto intro!: yields_guard yields_return yields_lift elim!: yields_bind)
qed

lemma yields_limb: "yields (read_limb d primes) (\<lambda>limb. list_all2 (\<lambda>row prime. length row = d \<and> all_below prime row) limb primes)"
proof (induction primes)
  case Nil
  then show ?case by (simp add: yields_return)
next
  case (Cons prime primes)
  then show ?case by (auto intro!: yields_bind [OF yields_row] yields_bind [OF Cons.IH] yields_return)
qed

lemma yields_leftover: "yields (read_leftover d q ell) (leftover_ok d q ell)"
proof -
  let ?ps = "[4398046568449, 4398046666753, 4398046781441] :: nat list"
  let ?ok = "\<lambda>limb. (length limb = 2 \<or> length limb = 3)
      \<and> list_all2 (\<lambda>row prime. length row = d \<and> all_below prime row) limb (take (length limb) PRIMES)"
  have limb: "yields (bindS read_word (\<lambda>n. guardS (\<not> (2 \<le> n \<and> n \<le> 3)) bad (read_limb d (take n ?ps)))) ?ok"
  proof (rule yields_bind [OF yields_word], rule yields_guard)
    fix n :: nat
    assume "\<not> \<not> (2 \<le> n \<and> n \<le> 3)"
    then have n: "n = 2 \<or> n = 3" by auto
    show "yields (read_limb d (take n ?ps)) ?ok"
    proof (rule yields_mono [OF yields_limb])
      fix limb
      assume all: "list_all2 (\<lambda>row prime. length row = d \<and> all_below prime row) limb (take n ?ps)"
      then have "length limb = n" using n list_all2_lengthD [OF all] by auto
      then show "?ok limb" using n all by (simp only: PRIMES_def simp_thms)
    qed
  qed
  show ?thesis
    unfolding read_leftover_def Let_def
    by (intro yields_bind [OF yields_word] yields_guard yields_bind [OF yields_repeat [OF limb]] yields_return)
      (auto simp: leftover_ok_def list_all_iff)
qed

lemma yields_block:
  assumes good: "good_native (ns_params setup)"
  shows "yields (read_block eng setup two_mask) (\<lambda>pre. block_shape setup two_mask pre
    \<and> new_lift_context eng (np_d (ns_params setup)) (np_q (ns_params setup)) = Inr (pre_lift pre))"
proof -
  let ?p = "ns_params setup"
  let ?d = "np_d ?p" and ?q = "np_q ?p" and ?ell = "np_ell ?p"
  note N = good_nativeD [OF good]
  have other: "yields (if two_mask then bindS (read_row ?d ?q) (\<lambda>other. returnS (Some other)) else returnS None)
      (\<lambda>x. if two_mask then \<exists>other. x = Some other \<and> length other = ?d \<and> all_below ?q other else x = None)"
    by (auto intro!: yields_bind [OF yields_row] yields_return)
  have left: "yields (if two_mask then returnS None else bindS (read_leftover ?d ?q ?ell) (\<lambda>op. returnS (Some op)))
      (\<lambda>x. if two_mask then x = None else \<exists>op. x = Some op \<and> leftover_ok ?d ?q ?ell op)"
    by (auto intro!: yields_bind [OF yields_leftover] yields_return)
  have lift: "yields (liftS (new_lift_context eng ?d ?q)) (\<lambda>ctx. new_lift_context eng ?d ?q = Inr ctx)"
    by (rule yields_lift)
  have cols: "?d * ?ell \<le> 32768" using mult_le_mono [OF N(2,8)] by simp
  have wf: "wf_native \<lparr>nm_rows = ?d, nm_cols = ?d * ?ell, nm_q = ?q, nm_words = ws\<rparr>"
    if "(\<exists>x. ws = Narrow x \<and> length x = ?d * ?d * ?ell \<and> list_all (\<lambda>v. - (2 ^ 31) \<le> v \<and> v < 2 ^ 31) x)
      \<or> (\<exists>x. ws = Wide x \<and> length x = ?d * ?d * ?ell \<and> list_all (\<lambda>v. \<bar>v\<bar> \<le> 2 ^ 55) x)" for ws
    using that cols N(1,5,6) by (auto simp: wf_native_def wf_words_def mult.assoc)
  show ?thesis
    unfolding read_block_def Let_def
    apply (rule yields_bind [OF yields_take], rule yields_guard)
    apply (rule yields_bind [OF yields_row], rule yields_bind [OF other], rule yields_bind [OF yields_matrix [OF N(6)]])
    apply (rule yields_bind [OF left], rule yields_bind [OF lift], rule yields_return)
    apply (drule wf)
    apply (simp add: block_shape_def Let_def)
    done
qed

lemma read_artifact_yields:
  assumes good: "good_native (ns_params setup)" and bytes: "all_below 256 file" and run: "read_artifact eng file offset setup count = Inr pres"
  shows "length pres = count" and "\<exists>two_mask. list_all (\<lambda>pre. block_shape setup two_mask pre
    \<and> new_lift_context eng (np_d (ns_params setup)) (np_q (ns_params setup)) = Inr (pre_lift pre)) pres"
proof -
  let ?m = "bindS read_mode (\<lambda>two_mask. bindS read_word (\<lambda>n. guardS (n \<noteq> count) bad (repeatS count (read_block eng setup two_mask))))"
  let ?P = "\<lambda>pres. length pres = count \<and> (\<exists>two_mask. list_all (\<lambda>pre. block_shape setup two_mask pre
    \<and> new_lift_context eng (np_d (ns_params setup)) (np_q (ns_params setup)) = Inr (pre_lift pre)) pres)"
  have mode: "yields read_mode (\<lambda>x. True)"
    unfolding read_mode_def by (intro yields_bind [OF yields_take]) (simp add: yields_return yields_lift)
  have accepted: "yields ?m ?P"
    apply (rule yields_bind [OF mode], rule yields_bind [OF yields_word], rule yields_guard)
    apply (rule yields_mono [OF yields_repeat [OF yields_block [OF good]]])
    apply blast
    done
  obtain r where r: "?m \<lparr>rd_file = file, rd_at = offset\<rparr> = Inr (pres, r)"
    using run unfolding read_artifact_def guardR_def bindR_def by (auto split: if_splits sum.splits)
  have "all_below 256 (rd_file \<lparr>rd_file = file, rd_at = offset\<rparr>)" using bytes by simp
  note P = yieldsD [OF accepted r this]
  show "length pres = count" by (rule conjunct1 [OF P])
  show "\<exists>two_mask. list_all (\<lambda>pre. block_shape setup two_mask pre
    \<and> new_lift_context eng (np_d (ns_params setup)) (np_q (ns_params setup)) = Inr (pre_lift pre)) pres" by (rule conjunct2 [OF P])
qed

section \<open>Properties\<close>

text \<open>C38. A preprocessing file is the preprocessing: what a build of either mode returns for up to sixteen blocks of
  canonical masks is written without error, and the reader, at any aligned offset of a file that holds
  exactly these bytes behind any prefix, returns one block for each that has its masks and, on every
  processor and in both modes, packs every body under all keys to the same ciphertext, directly or
  staged; any byte behind them is refused.\<close>

theorem artifact_roundtrip:
  assumes "ntt_laws eng (np_d p)" and "ntt_canonical eng (np_d p)" and "inverses_exist eng (np_d p)"
    and "new_lift_context eng (np_d p) (np_q p) = Inr ctx" and "setup_ok setup" and "ns_params setup = p" and "length (ns_id setup) = 32"
    and "list_all (\<lambda>masks. length masks = np_d p \<and> list_all (\<lambda>row. length row = np_d p \<and> all_below (np_q p) row) masks) blocks"
    and "1 \<le> length blocks" and "length blocks \<le> 16" and "length prefix mod 8 = 0" and "length prefix < 2 ^ 62"
  shows "\<exists>pres bytes. collectR (\<lambda>masks. build_internal eng cpu setup masks two_mask) blocks = Inr pres \<and> write_artifact pres = Inr (Inr bytes)
    \<and> (\<exists>pres'. read_artifact eng (prefix @ bytes) (length prefix) setup (length blocks) = Inr pres'
          \<and> list_all2 (\<lambda>pre pre'. pre_a pre' = pre_a pre \<and> pre_a_other pre' = pre_a_other pre
              \<and> pack eng cpu' pre' = pack eng cpu' pre \<and> pack_two_mask cpu' pre' = pack_two_mask cpu' pre
              \<and> prepare_keys eng pre' = prepare_keys eng pre
              \<and> (\<forall>keys b. bindR (prepare_pack eng cpu' pre' keys) (\<lambda>pd. finish pd b) = bindR (prepare_pack eng cpu' pre keys) (\<lambda>pd. finish pd b)
                  \<and> bindR (prepare_pack eng cpu' pre' keys) (\<lambda>pd. finish_two_mask pd b)
                    = bindR (prepare_pack eng cpu' pre keys) (\<lambda>pd. finish_two_mask pd b))) pres pres')
    \<and> (\<forall>rest. rest \<noteq> [] \<longrightarrow> length rest < 2 ^ 62 \<longrightarrow>
        read_artifact eng (prefix @ bytes @ rest) (length prefix) setup (length blocks) = Inl bad)"
proof -
  have good: "good_native (ns_params setup)" using assms(5) by (simp add: setup_ok_def)
  let ?build = "\<lambda>masks. build_internal eng cpu setup masks two_mask"
  have "\<exists>pre. ?build masks = Inr pre \<and> built eng cpu setup ctx masks two_mask pre" if "masks \<in> set blocks" for masks
    by (rule build_internal_ok [OF assms(1,4,3,5,6)]) (use assms(8) that in \<open>auto simp: list_all_iff\<close>)
  then obtain pre where pre: "\<And>masks. masks \<in> set blocks \<Longrightarrow> ?build masks = Inr (pre masks) \<and> built eng cpu setup ctx masks two_mask (pre masks)"
    by metis
  let ?pres = "map pre blocks"
  have build: "collectR ?build blocks = Inr ?pres" using pre by (intro collectR_all_Inr) blast
  have shape: "block_shape setup two_mask x \<and> new_lift_context eng (np_d (ns_params setup)) (np_q (ns_params setup)) = Inr (pre_lift x)"
    if x: "x \<in> set ?pres" for x
  proof -
    obtain masks where "x = pre masks" "masks \<in> set blocks" using x by auto
    then show ?thesis using built_shape [OF assms(1,2,4,5,6)] pre assms(4,6) by blast
  qed
  have len: "length ?pres = length blocks" by simp
  obtain bytes where bytes: "write_artifact ?pres = Inr (Inr bytes)" "length bytes \<le> 2 ^ 34"
    "\<And>rest. length (prefix @ bytes @ rest) < 2 ^ 64 \<Longrightarrow> read_artifact eng (prefix @ bytes @ rest) (length prefix) setup (length blocks)
       = (if rest = [] then Inr (map mapped ?pres) else Inl bad)"
    using artifact_read [OF good assms(7) shape len assms(9-11)] by blast
  have "wf_native (pre_h x)" if "x \<in> set ?pres" for x using shape [OF that] by (simp add: block_shape_def Let_def)
  then have same: "list_all2 (\<lambda>pre pre'. pre_a pre' = pre_a pre \<and> pre_a_other pre' = pre_a_other pre
      \<and> pack eng cpu' pre' = pack eng cpu' pre \<and> pack_two_mask cpu' pre' = pack_two_mask cpu' pre
      \<and> prepare_keys eng pre' = prepare_keys eng pre
      \<and> (\<forall>keys b. bindR (prepare_pack eng cpu' pre' keys) (\<lambda>pd. finish pd b) = bindR (prepare_pack eng cpu' pre keys) (\<lambda>pd. finish pd b)
          \<and> bindR (prepare_pack eng cpu' pre' keys) (\<lambda>pd. finish_two_mask pd b)
            = bindR (prepare_pack eng cpu' pre keys) (\<lambda>pd. finish_two_mask pd b))) ?pres (map mapped ?pres)"
    unfolding list_all2_map2 list_all2_same using mapped_packs by (simp add: mapped_fields)
  have "length (prefix @ bytes @ rest) < 2 ^ 64" if "length rest < 2 ^ 62" for rest using bytes(2) assms(12) that by simp
  then have "read_artifact eng (prefix @ bytes @ rest) (length prefix) setup (length blocks)
       = (if rest = [] then Inr (map mapped ?pres) else Inl bad)" if "length rest < 2 ^ 62" for rest using bytes(3) that by blast
  from this [of "[]"] this
  show ?thesis using build bytes(1) same by (intro exI [of _ ?pres] exI [of _ bytes]) auto
qed

text \<open>Whatever bytes the reader accepts, the blocks are those of the setup: as many as asked for, with its
  parameters and identity, canonical masks in one mode, transforms that are residues, and a matrix of the right
  dimensions that every processor multiplies exactly, without a panic.\<close>

theorem artifact_validates:
  assumes "good_native (ns_params setup)" and "all_below 256 file" and "read_artifact eng file offset setup count = Inr pres"
  shows "length pres = count \<and> (\<exists>two_mask. \<forall>pre\<in>set pres. block_shape setup two_mask pre
    \<and> (\<forall>cpu y. multiply cpu (pre_h pre) y =
         (if length y = np_d (ns_params setup) * np_ell (ns_params setup) \<and> all_below (np_q (ns_params setup)) y
          then Inr (native_product (pre_h pre) y) else Inl (LweShape ''invalid native matrix operand''))))"
proof -
  obtain two_mask where R: "\<forall>pre\<in>set pres. block_shape setup two_mask pre"
    using read_artifact_yields(2) [OF assms] by (auto simp: list_all_iff)
  have "multiply cpu (pre_h pre) y =
         (if length y = np_d (ns_params setup) * np_ell (ns_params setup) \<and> all_below (np_q (ns_params setup)) y
          then Inr (native_product (pre_h pre) y) else Inl (LweShape ''invalid native matrix operand''))"
    if "pre \<in> set pres" for pre cpu y
  proof -
    have "nm_cols (pre_h pre) = np_d (ns_params setup) * np_ell (ns_params setup)" "nm_q (pre_h pre) = np_q (ns_params setup)" "wf_native (pre_h pre)"
      using R that by (simp_all add: block_shape_def Let_def)
    then show ?thesis using multiply_ok [of "pre_h pre" cpu y] by simp
  qed
  then show ?thesis using R read_artifact_yields(1) [OF assms] by blast
qed

section \<open>The hypotheses can hold\<close>

definition file_setup :: native_setup where
  "file_setup = bit_setup\<lparr>ns_id := replicate 32 5\<rparr>"

theorem artifact_roundtrip_witness:
  "\<exists>pres bytes. collectR (\<lambda>masks. build_internal demo_engine any_cpu file_setup masks False) [demo_masks, demo_masks] = Inr pres
    \<and> write_artifact pres = Inr (Inr bytes)
    \<and> (\<exists>pres'. read_artifact demo_engine (replicate 8 0 @ bytes) 8 file_setup 2 = Inr pres'
         \<and> list_all2 (\<lambda>pre pre'. pack demo_engine any_cpu pre' = pack demo_engine any_cpu pre) pres pres')
    \<and> read_artifact demo_engine (replicate 8 0 @ bytes @ [0]) 8 file_setup 2 = Inl bad"
proof -
  obtain ctx where ctx: "new_lift_context demo_engine (np_d bit_params) (np_q bit_params) = Inr ctx"
    using demo_engine_context by (auto simp: bit_dims)
  have inv: "inverses_exist demo_engine (np_d bit_params)" using demo_inverses by (simp add: bit_dims)
  have canonical: "ntt_canonical demo_engine d" for d by (simp add: ntt_canonical_def demo_engine_def coefficient_engine_def)
  have st: "setup_ok file_setup" "ns_params file_setup = bit_params" "length (ns_id file_setup) = 32"
    using bit_setup by (simp_all add: file_setup_def setup_ok_def)
  have masks: "list_all (\<lambda>masks. length masks = np_d bit_params \<and> list_all (\<lambda>row. length row = np_d bit_params \<and> all_below (np_q bit_params) row) masks)
      [demo_masks, demo_masks]"
    using demo_masks by (simp add: lwe_masks_def list_all_iff)
  have len: "length (replicate 8 (0::nat)) = 8" "length [demo_masks, demo_masks] = 2" by simp_all
  have small: "1 \<le> length [demo_masks, demo_masks]" "length [demo_masks, demo_masks] \<le> 16"
    "length (replicate 8 (0::nat)) mod 8 = 0" "length (replicate 8 (0::nat)) < 2 ^ 62" by simp_all
  obtain pres bytes pres' where W: "collectR (\<lambda>masks. build_internal demo_engine any_cpu file_setup masks False) [demo_masks, demo_masks] = Inr pres"
    "write_artifact pres = Inr (Inr bytes)" "read_artifact demo_engine (replicate 8 0 @ bytes) 8 file_setup 2 = Inr pres'"
    "list_all2 (\<lambda>pre pre'. pack demo_engine any_cpu pre' = pack demo_engine any_cpu pre) pres pres'"
    "\<forall>rest. rest \<noteq> [] \<longrightarrow> length rest < 2 ^ 62 \<longrightarrow> read_artifact demo_engine (replicate 8 0 @ bytes @ rest) 8 file_setup 2 = Inl bad"
    using artifact_roundtrip [OF demo_engine_laws canonical inv ctx st masks small, of any_cpu False any_cpu, unfolded len]
    by (elim exE conjE) (rule that, assumption+, erule list_all2_mono, blast, assumption)
  have "read_artifact demo_engine (replicate 8 0 @ bytes @ [0]) 8 file_setup 2 = Inl bad" using W(5) by simp
  then show ?thesis using W(1-4) by blast
qed

end
