(* ===== verification/Spec2Isabelle.thy ===== *)
theory Spec2Isabelle
  imports Wire Kernel Encoding Snapshot Modulus_Switch Rlwe_Params Ring_Fft Lift Native_Query Native_Retrieval Sampling Prepared_Native
begin

text \<open>
  A verification library for the IPIR-SP private information retrieval crates: a client asks for one row
  of a database without showing which, the server multiplies the database by an encrypted selection
  (the first dimension) and packs the resulting LWE samples into few ring elements, and the client
  decrypts the packed response.

  \<^bold>\<open>The program and its model.\<close>

  \<^item> \<open>simplepir-kernel/src\<close> multiplies a column-major database by a query modulo q: \<open>Kernel\<close> models the scalar,
    the delayed-reduction and the AVX-512 kernels and the power-of-two method, lane by lane where the
    code is vectorised; a locale states the contract of a kernel and is interpreted on all of them.
  \<^item> \<open>ipir-native-client/src/bits.rs\<close> and \<open>wire.rs\<close>: \<open>Bit_Store\<close> (the contract of bit fields in a byte buffer, as a
    locale), \<open>Bits\<close> and \<open>Wire\<close> (codecs, rounding to a transport width, dithered rounding).
  \<^item> \<open>nullifier-pir/src/encoding.rs\<close> and \<open>snapshot.rs\<close>: \<open>Encoding\<close> (items as 14-bit coefficients) and \<open>Snapshot\<close> (the
    record file, its iterator of coefficients, lookup and search).
  \<^item> \<open>inspiring/src/params.rs\<close>, \<open>ipir-sp/src/params.rs\<close>, \<open>ipir-sp/src/modulus_switch.rs\<close>, \<open>reinspiring/src/modswitch.rs\<close>:
    \<open>Rlwe_Params\<close> and \<open>Modulus_Switch\<close>.
  \<^item> \<open>ipir-sp/src/sampling.rs\<close>: \<open>Sampling\<close>, the uniform samplers below a bound. \<open>Rejection\<close> states the contract of a
    rejection loop as a locale; it is interpreted on both samplers and on the ternary secret sampler.
  \<^item> \<open>reinspiring/src/matrix.rs\<close> and \<open>compile.rs\<close>: \<open>Matrix\<close>, \<open>Compile\<close> and \<open>Ring_Fft\<close>, the compilers of the packing matrix
    (one chain of automorphisms and ring products as one matrix) over the ring of \<open>Ring\<close>.
  \<^item> \<open>reinspiring/src/lift_ntt.rs\<close>: \<open>Lift\<close>, exact ring products through transforms at three auxiliary primes.
  \<^item> \<open>reinspiring/src/native_kernel.rs\<close> and \<open>native_matrix.rs\<close>: \<open>Native_Dot\<close>, \<open>Packed_Rows\<close>, \<open>Native_Matrix\<close> and \<open>Native_Query\<close>,
    the column products, compact signed storage and the byte-plane scan.
  \<^item> \<open>reinspiring/src/native.rs\<close> and \<open>native_gaussian.rs\<close>: \<open>Native_Params\<close> (profiles and gadget digits), \<open>Native_Keys\<close> (setups,
    secrets, encryptions, keys, ciphertexts), \<open>Native_Aggregate\<close> (the integer ring transform of the masks),
    \<open>Native_Pack\<close> (offline build and online packing) and \<open>Native_Decoder\<close> (prepared decoding). The proofs about
    them are in \<open>Automorph\<close>, \<open>Negacyclic\<close>, \<open>Native_Trace\<close>, \<open>Native_Correct\<close>, \<open>Native_Build\<close> and \<open>Native_Phase\<close>.
  \<^item> \<open>reinspiring/src/prepared_native.rs\<close>: \<open>Prepared_Native\<close>, the file of server preprocessing, its writer and its
    checking reader.
  \<^item> \<open>ipir-native-client/src/lib.rs\<close>: \<open>Native_Client\<close> (transport profiles, setups, requests, published masks, decoding) and
    \<open>Native_Transport\<close> (what its messages carry).
  \<^item> \<open>ipir-sp/src/native.rs\<close>: \<open>Native_Server\<close> (build, published masks, responses). \<open>Native_Arrival\<close> (what a request carries
    to the server), \<open>Native_Protocol\<close> (the first dimension and the blocks) and \<open>Native_Retrieval\<close> (the end-to-end
    theorem) join client and server.

  \<^bold>\<open>Conventions.\<close> \<open>Ipir_Prelude\<close> fixes them. Unsigned machine integers are natural numbers below the power of
  two of their type, with the cast of the type written after every operation that can leave it; signed
  ones are integers. Errors and panics are the left side of a result. A loop is a structural recursion
  or a function with a measure; the loops that need not end, the rejection sampling of a ternary
  coefficient and of a number below a bound, are partial functions, with theorems that say exactly when
  and with what they return. No definition has fuel. Parallel
  loops are modelled by their results in order, which is what collecting them does. \<open>near q r x y\<close> says that
  y is x plus an error of at most r modulo q, \<open>eqm\<close> is congruence, \<open>canon\<close> a canonical ring element, \<open>conv\<close> and \<open>tau\<close>
  the ring product and the automorphisms on coefficient functions.

  \<^bold>\<open>Code of other packages\<close> is an argument. The transforms of the spiral crate are a record \<open>ntt_engine\<close> with
  the laws \<open>ntt_laws\<close> (pointwise products of transforms are ring products, transforms are inverse to each
  other and additive, and an inverse that is returned is one), \<open>ntt_canonical\<close> says that transforms are
  vectors of residues, which the reader of a preprocessing file checks; \<open>ntt_reversal\<close> is the order of the
  evaluations that two-mask decoding relies on, \<open>inverses_exist\<close> the inverses of odd exponents. The random
  generator, SHA-256 and the table sampler are the fields of \<open>rng_env\<close>; \<open>gauss_law\<close> is the finite support of
  the sampler's table, \<open>hash_law\<close> the length of a digest. Detected processor features are a record. Every
  theorem with such a hypothesis has a witness at a concrete engine, generator and profile.

  \<^bold>\<open>What the theorems show.\<close> The kernels, compilers, storages and decoders that the code chooses between are
  equal to their reference definitions on every accepted input and refuse the rest. Codecs, snapshots,
  keys, published masks and preprocessing files survive their byte forms, and the samplers return every
  value of their range on equally many draws. Profiles stay valid under every sequence of
  builders, and the bytes hashed into a setup determine all that they bind. Packing decrypts to the
  packed plaintexts and private retrieval returns exactly the requested row, for both entry widths,
  both output modes and all transport widths, as long as an explicit sum of worst-case errors is below
  half a plaintext step. That bound is deterministic: the probabilistic certificates of the production
  profiles are about the distribution of the same sum and are not part of the model.

  \<^bold>\<open>Not modelled.\<close> The transforms, hash and generator above. The older evaluator and client of \<open>ipir-sp\<close>
  (\<open>server.rs\<close>, \<open>client.rs\<close>, \<open>reusable.rs\<close>, \<open>serialize.rs\<close>, \<open>pack_backend.rs\<close>) and the packing of \<open>inspiring\<close>
  (\<open>preprocess.rs\<close>, \<open>key_switching.rs\<close>, \<open>collapse.rs\<close> and their neighbours) are written over the polynomial types
  of the spiral crate, whose operations they call on every line and which are not in the repository.
  The statistics of \<open>reinspiring/src/noise.rs\<close> and the builds that collect them are exact integer counts
  that only report. Opening and mapping files is input and output. The HTTP service and
  the programs of \<open>nullifier-pir\<close> and \<open>ipir-sp/src/bin\<close> are input, output and argument parsing, and the
  CUDA kernel is a foreign call. Erasing memory on drop, timings, benches and examples change no value.
\<close>

end
